(* ===== verification/OX_Prelude.thy ===== *)
theory OX_Prelude
  imports "HOL-Library.Word" "HOL-Library.Monad_Syntax"
begin

text \<open>
  Shared vocabulary of the development: the machine integer types of the i386
  build (\<open>char\<close> 8, \<open>short\<close> 16, \<open>int\<close> and \<open>long\<close> 32, \<open>long long\<close> 64 bits),
  little-endian byte images of words, NUL-terminated strings, and the generic
  lemmas on lists, words and bounded search that the components share.

  A call that never returns (a kernel panic, which spins in \<open>asm_hlt\<close>, or a loop
  that runs forever) is the value \<open>None\<close> of an \<open>option\<close> result; every return of
  the C code is a \<open>Some\<close>.
\<close>

unbundle bit_operations_syntax

text \<open>Error numbers (\<open>include/sys/errno.h\<close>).\<close>

abbreviation (input) EPERM :: int where "EPERM \<equiv> 1"
abbreviation (input) EBADF :: int where "EBADF \<equiv> 9"
abbreviation (input) EACCES :: int where "EACCES \<equiv> 13"
abbreviation (input) EINVAL :: int where "EINVAL \<equiv> 22"
abbreviation (input) EMFILE :: int where "EMFILE \<equiv> 24"
abbreviation (input) ENOSPC :: int where "ENOSPC \<equiv> 28"

named_theorems c_defs \<open>definitions of straight-line C helpers, unfolded on demand\<close>
named_theorems layout \<open>sizes and offsets of the on-disk structures\<close>
named_theorems frame \<open>fields and locations an operation leaves alone\<close>

type_synonym u8 = "8 word"
type_synonym u16 = "16 word"
type_synonym u32 = "32 word"
type_synonym u64 = "64 word"
type_synonym bytes = "8 word list"

subsection \<open>Words\<close>

lemma unat_of_nat32: "n < 2 ^ 32 \<Longrightarrow> unat (of_nat n :: u32) = n"
  by (simp add: unat_of_nat)

lemma u32_add_unat:
  "unat a + unat b < 2 ^ 32 \<Longrightarrow> unat (a + b :: u32) = unat a + unat b"
  by (simp add: unat_word_ariths)

lemma u32_suc: "unat x < n \<Longrightarrow> n < 2 ^ 32 \<Longrightarrow> unat (x + 1 :: u32) = Suc (unat x)"
  by (subst u32_add_unat) simp_all

lemma u32_Suc_unat: "unat a < 2 ^ 32 - 1 \<Longrightarrow> unat (a + 1 :: u32) = Suc (unat a)"
  by (subst u32_add_unat) simp_all

lemma u32_mult_unat:
  "unat a * unat b < 2 ^ 32 \<Longrightarrow> unat (a * b :: u32) = unat a * unat b"
  by (simp add: unat_word_ariths)

lemma unat_lt_word32 [simp]: "unat (x :: u32) < 4294967296"
  using unsigned_less [of x] by simp

subsection \<open>Lists\<close>

lemma list_update_eqI:
  assumes "length xs = length ys" "i < length xs" "ys ! i = v"
    "\<And>j. j < length xs \<Longrightarrow> j \<noteq> i \<Longrightarrow> ys ! j = xs ! j"
  shows "xs[i := v] = ys"
  using assms by (intro nth_equalityI) (auto simp: nth_list_update)

lemma take_drop_append:
  "length xs = n \<Longrightarrow> take m (drop n (xs @ ys)) = take m ys"
  by simp

lemma drop_append_ge: "length xs \<le> n \<Longrightarrow> drop n (xs @ ys) = drop (n - length xs) ys"
  by simp

lemma take_append_exact: "length xs = n \<Longrightarrow> take n (xs @ ys) = xs"
  by simp

subsection \<open>Bounded search\<close>

text \<open>The \<open>for (i = lo; i < hi; i++) if (P i) ...; break;\<close> scans of the C code.\<close>

function first_from :: "(nat \<Rightarrow> bool) \<Rightarrow> nat \<Rightarrow> nat \<Rightarrow> nat option" where
  "first_from P lo hi =
     (if lo < hi then (if P lo then Some lo else first_from P (Suc lo) hi) else None)"
  by pat_completeness auto
termination
  by (relation "measure (\<lambda>(P, lo, hi). hi - lo)") auto

declare first_from.simps [simp del]

lemma first_from_SomeD:
  "first_from P lo hi = Some i \<Longrightarrow> lo \<le> i \<and> i < hi \<and> P i \<and> (\<forall>j. lo \<le> j \<longrightarrow> j < i \<longrightarrow> \<not> P j)"
proof (induction P lo hi rule: first_from.induct)
  case (1 P lo hi)
  show ?case
  proof (cases "lo < hi \<and> \<not> P lo")
    case True
    with "1.prems" have "first_from P (Suc lo) hi = Some i"
      by (simp add: first_from.simps [of P lo hi])
    with "1.IH" True have "Suc lo \<le> i \<and> i < hi \<and> P i \<and> (\<forall>j. Suc lo \<le> j \<longrightarrow> j < i \<longrightarrow> \<not> P j)"
      by blast
    moreover have "\<not> P j" if "lo \<le> j" "j < i" "\<forall>j. Suc lo \<le> j \<longrightarrow> j < i \<longrightarrow> \<not> P j" for j
      using that True by (cases "j = lo") auto
    ultimately show ?thesis by auto
  next
    case False
    with "1.prems" show ?thesis
      by (auto simp: first_from.simps [of P lo hi] split: if_splits)
  qed
qed

lemma first_from_None_iff: "first_from P lo hi = None \<longleftrightarrow> (\<forall>j. lo \<le> j \<longrightarrow> j < hi \<longrightarrow> \<not> P j)"
proof (induction P lo hi rule: first_from.induct)
  case (1 P lo hi)
  show ?case
  proof (cases "lo < hi \<and> \<not> P lo")
    case True
    with "1.IH" have "first_from P (Suc lo) hi = None \<longleftrightarrow> (\<forall>j. Suc lo \<le> j \<longrightarrow> j < hi \<longrightarrow> \<not> P j)"
      by blast
    moreover have "(\<forall>j. lo \<le> j \<longrightarrow> j < hi \<longrightarrow> \<not> P j) \<longleftrightarrow> (\<forall>j. Suc lo \<le> j \<longrightarrow> j < hi \<longrightarrow> \<not> P j)"
    proof (intro iffI allI impI)
      fix j assume "\<forall>j. Suc lo \<le> j \<longrightarrow> j < hi \<longrightarrow> \<not> P j" "lo \<le> j" "j < hi"
      then show "\<not> P j" using True by (cases "j = lo") auto
    qed auto
    ultimately show ?thesis
      using True by (simp add: first_from.simps [of P lo hi])
  next
    case False
    then show ?thesis
      by (auto simp: first_from.simps [of P lo hi])
  qed
qed

lemma first_from_cong:
  "(\<And>j. lo \<le> j \<Longrightarrow> j < hi \<Longrightarrow> P j = Q j) \<Longrightarrow> first_from P lo hi = first_from Q lo hi"
proof (induction P lo hi rule: first_from.induct)
  case (1 P lo hi)
  then show ?case
    by (simp add: first_from.simps [of P lo hi] first_from.simps [of Q lo hi])
qed

lemma first_from_SomeI:
  assumes "lo \<le> i" "i < hi" "P i" "\<And>j. lo \<le> j \<Longrightarrow> j < i \<Longrightarrow> \<not> P j"
  shows "first_from P lo hi = Some i"
proof (cases "first_from P lo hi")
  case None
  with assms show ?thesis by (auto simp: first_from_None_iff)
next
  case (Some k)
  with assms first_from_SomeD [OF Some] show ?thesis
    by (metis linorder_neqE_nat)
qed

subsection \<open>Little-endian images\<close>

text \<open>A machine word of \<open>n\<close> bytes as it lies in memory, lowest byte first.\<close>

definition le_bytes :: "nat \<Rightarrow> 'a::len word \<Rightarrow> bytes" where
  "le_bytes n w = map (\<lambda>i. ucast (drop_bit (8 * i) w)) [0..<n]"

definition le_word :: "bytes \<Rightarrow> 'a::len word" where
  "le_word bs = foldr (\<lambda>b acc. ucast b OR push_bit 8 acc) bs 0"

lemma length_le_bytes [simp, layout]: "length (le_bytes n w) = n"
  by (simp add: le_bytes_def)

lemma le_word_Cons: "le_word (b # bs) = (ucast b OR push_bit 8 (le_word bs) :: 'a::len word)"
  by (simp add: le_word_def)

lemma le_word_Nil [simp]: "le_word [] = 0"
  by (simp add: le_word_def)

lemma le_bytes_0 [simp]: "le_bytes 0 w = []"
  by (simp add: le_bytes_def)

lemma le_bytes_Suc: "le_bytes (Suc n) w = ucast w # le_bytes n (drop_bit 8 w)"
  by (simp add: le_bytes_def upt_conv_Cons map_Suc_upt [symmetric] drop_bit_drop_bit add.commute
      del: upt_Suc)

lemma bit_le_word:
  "bit (le_word bs :: 'a::len word) n \<longleftrightarrow>
     n < LENGTH('a) \<and> n < 8 * length bs \<and> bit (bs ! (n div 8)) (n mod 8)"
proof (induction bs arbitrary: n)
  case Nil
  then show ?case by simp
next
  case (Cons b bs)
  show ?case
  proof (cases "n < 8")
    case True
    then show ?thesis
      by (auto simp: le_word_Cons bit_simps)
  next
    case False
    then obtain m where m: "n = m + 8" by (metis add.commute le_Suc_ex not_le)
    have "\<not> bit b (m + 8)"
      using bit_imp_le_length [of b "m + 8"] by auto
    moreover have "(m + 8) div 8 = Suc (m div 8)"
      by (simp add: div_add_self2)
    ultimately show ?thesis
      by (auto simp: m le_word_Cons bit_simps Cons.IH)
  qed
qed

lemma le_word_le_bytes [simp]:
  fixes w :: "'a::len word"
  assumes "LENGTH('a) \<le> 8 * n"
  shows "(le_word (le_bytes n w) :: 'a word) = w"
proof (rule bit_word_eqI)
  fix k assume k: "k < LENGTH('a)"
  then have "k div 8 < n" using assms by auto
  moreover have "k mod 8 + 8 * (k div 8) = k" "k mod 8 < 8" by simp_all
  ultimately show "bit (le_word (le_bytes n w) :: 'a word) k \<longleftrightarrow> bit w k"
    using k assms by (simp del: mod_less_divisor add: bit_le_word le_bytes_def bit_simps add.commute)
qed

lemma le_bytes_le_word:
  assumes "length bs = n" "8 * n \<le> LENGTH('a)"
  shows "le_bytes n (le_word bs :: 'a::len word) = bs"
proof (rule nth_equalityI)
  show "length (le_bytes n (le_word bs :: 'a word)) = length bs"
    using assms by simp
  fix i assume i: "i < length (le_bytes n (le_word bs :: 'a word))"
  show "le_bytes n (le_word bs :: 'a word) ! i = bs ! i"
  proof (rule bit_word_eqI)
    fix k assume k: "k < LENGTH(8)"
    then have "(8 * i + k) div 8 = i" "(8 * i + k) mod 8 = k" by simp_all
    with i k assms show "bit (le_bytes n (le_word bs :: 'a word) ! i) k \<longleftrightarrow> bit (bs ! i) k"
      by (auto simp: le_bytes_def bit_simps bit_le_word)
  qed
qed

subsection \<open>NUL-terminated strings\<close>

text \<open>
  A buffer is a byte list; the C string it holds is what stands before its
  first NUL (all of it, when there is none).
\<close>

definition cstr :: "bytes \<Rightarrow> bytes" where
  "cstr buf = takeWhile (\<lambda>c. c \<noteq> 0) buf"

definition str :: "string \<Rightarrow> bytes" where
  "str s = map of_char s"

definition zeros :: "nat \<Rightarrow> bytes" where
  "zeros n = replicate n 0"

text \<open>\<open>strcpy (buf, s)\<close> into a buffer of fixed size: the string, its NUL, and the old tail.\<close>

definition store_str :: "bytes \<Rightarrow> bytes \<Rightarrow> bytes" where
  "store_str buf s = s @ 0 # drop (Suc (length s)) buf"

definition nul_free :: "bytes \<Rightarrow> bool" where
  "nul_free s \<longleftrightarrow> 0 \<notin> set s"

lemma length_zeros [simp, layout]: "length (zeros n) = n"
  by (simp add: zeros_def)

lemma nth_zeros [simp]: "i < n \<Longrightarrow> zeros n ! i = 0"
  by (simp add: zeros_def)

lemma cstr_nul_free [simp]: "nul_free (cstr buf)"
  by (auto simp: nul_free_def cstr_def dest: set_takeWhileD)

lemma cstr_store_str [simp]: "nul_free s \<Longrightarrow> cstr (store_str buf s) = s"
  by (auto simp: cstr_def store_str_def nul_free_def takeWhile_append2 takeWhile_append)

lemma length_store_str [simp]:
  "length s < length buf \<Longrightarrow> length (store_str buf s) = length buf"
  by (simp add: store_str_def)

lemma cstr_zeros [simp]: "0 < n \<Longrightarrow> cstr (zeros n) = []"
  by (cases n) (simp_all add: cstr_def zeros_def)

end
