(* ===== verification/Ata_Disk.thy ===== *)
theory Ata_Disk
  imports OX_Prelude
begin

text \<open>
  The PIO disk driver (\<open>platform/i386/drivers/src/block/pio/pioutil.c\<close>) and the
  device layer of the file system (\<open>fs/dev.c\<close>, kernel build).

  The drive itself is hardware: a sector of 512 bytes for each address the
  controller is given (drive and head register, sector, cylinder low and high
  byte), and for each address whether the controller reports an error. The
  assembly routines \<open>pio_read\<close> and \<open>pio_write\<close> move one sector and return 1 on
  an error; \<open>ata_read\<close> and \<open>ata_write\<close> then panic, which does not return.
\<close>

subsection \<open>The drive\<close>

type_synonym chs_regs = "u8 \<times> u8 \<times> u8 \<times> u8"

record drive =
  media :: "chs_regs \<Rightarrow> bytes"
  media_err :: "chs_regs \<Rightarrow> bool"
  cmos_disks :: u8

definition pio_read :: "drive \<Rightarrow> chs_regs \<Rightarrow> bytes option" where
  "pio_read d a = (if media_err d a then None else Some (media d a))"

definition pio_write :: "drive \<Rightarrow> chs_regs \<Rightarrow> bytes \<Rightarrow> drive option" where
  "pio_write d a buf = (if media_err d a then None else Some (d\<lparr>media := (media d)(a := buf)\<rparr>))"

subsection \<open>pioutil.c\<close>

abbreviation (input) HPC :: nat where "HPC \<equiv> 16"
abbreviation (input) SPT :: nat where "SPT \<equiv> 63"

definition get_drive_head :: "u8 \<Rightarrow> u8 \<Rightarrow> u8" where
  "get_drive_head drive head = (160 OR push_bit 4 (drive AND 1)) OR (head AND 0xF)"

text \<open>Results: head, sector, cylinder low byte, cylinder high byte.\<close>

definition get_chs :: "u32 \<Rightarrow> u8 \<times> u8 \<times> u8 \<times> u8" where
  "get_chs lba =
     (let cylinder = (of_nat (unat lba div (SPT * HPC)) :: u16) in
      (of_nat (unat lba div SPT mod HPC),
       of_nat (unat lba mod SPT + 1),
       ucast (cylinder AND 0xFF),
       ucast (drop_bit 8 cylinder)))"

definition get_lba :: "u8 \<Rightarrow> u8 \<Rightarrow> u8 \<Rightarrow> u8 \<Rightarrow> u32" where
  "get_lba head sector cyl1 cyl2 =
     (let cylinder = (push_bit 8 (ucast cyl2) OR ucast cyl1 :: u16) in
      (ucast cylinder * 16 + ucast head) * 63 + ucast sector - 1)"

definition ata_nr_drives :: "drive \<Rightarrow> nat" where
  "ata_nr_drives d =
     (let disks = cmos_disks d in
      if disks AND 0xF0 \<noteq> 0 then (if disks AND 0x0F \<noteq> 0 then 2 else 1) else 0)"

definition ata_regs :: "u8 \<Rightarrow> u32 \<Rightarrow> chs_regs" where
  "ata_regs drive lba =
     (let (head, sector, cyl1, cyl2) = get_chs lba in
      (get_drive_head drive head, sector, cyl1, cyl2))"

text \<open>
  \<open>pio_read\<close> returning 1 makes \<open>ata_read\<close> panic: \<open>None\<close>. Otherwise the return value 0
  and the buffer.
\<close>

definition ata_read :: "drive \<Rightarrow> u8 \<Rightarrow> u32 \<Rightarrow> (int \<times> bytes) option" where
  "ata_read d drive lba = do {
     buffer \<leftarrow> pio_read d (ata_regs drive lba);
     Some (0, buffer)
   }"

definition ata_write :: "drive \<Rightarrow> u8 \<Rightarrow> u32 \<Rightarrow> bytes \<Rightarrow> (int \<times> drive) option" where
  "ata_write d drive lba buf = do {
     d' \<leftarrow> pio_write d (ata_regs drive lba) buf;
     Some (0, d')
   }"

definition ata_status_check :: "int \<Rightarrow> u8 \<Rightarrow> u8 \<Rightarrow> int" where
  "ata_status_check operation error_reg status_reg =
     (if status_reg AND 1 \<noteq> 0 \<and> \<not> (status_reg AND 0x80 \<noteq> 0) then 1 else 0)"

subsection \<open>The address conversion\<close>

text \<open>Linear block addresses the 16-bit cylinder number can express.\<close>

abbreviation (input) CHS_LIMIT :: nat where "CHS_LIMIT \<equiv> 65536 * (SPT * HPC)"

lemma ucast_of_nat_small:
  "n < 2 ^ LENGTH('a) \<Longrightarrow> (ucast (of_nat n :: 'a::len word) :: 'b::len word) = of_nat n"
  by (simp add: unsigned_of_nat take_bit_nat_eq_self)

lemma word_low_high_byte:
  fixes c :: u16
  shows "push_bit 8 (ucast (ucast (drop_bit 8 c) :: u8)) OR ucast (ucast (c AND 0xFF) :: u8) = c"
    (is "?l = c")
proof (rule bit_word_eqI)
  fix n assume "n < LENGTH(16)"
  moreover have "?l = push_bit 8 (ucast (ucast (drop_bit 8 c) :: u8)) OR ucast (ucast (c AND mask 8) :: u8)"
    by (simp add: mask_eq_exp_minus_1)
  ultimately show "bit ?l n \<longleftrightarrow> bit c n"
    by (auto simp: bit_simps)
qed

lemma get_chs_bounds:
  assumes "get_chs lba = (head, sector, cyl1, cyl2)"
  shows "unat head < 16" "1 \<le> unat sector" "unat sector \<le> 63"
proof -
  have head: "head = of_nat (unat lba div 63 mod 16)" and sector: "sector = of_nat (Suc (unat lba mod 63))"
    using assms by (auto simp: get_chs_def Let_def)
  have "unat sector = Suc (unat lba mod 63)"
    unfolding sector by (subst unat_of_nat) (simp add: less_imp_le_nat mod_less_divisor)
  then show "1 \<le> unat sector" "unat sector \<le> 63" by (simp_all add: Suc_le_eq)
  show "unat head < 16" by (simp add: head unat_of_nat)
qed

lemma get_lba_get_chs:
  assumes lim: "unat lba < CHS_LIMIT" and chs: "get_chs lba = (head, sector, cyl1, cyl2)"
  shows "get_lba head sector cyl1 cyl2 = lba"
proof -
  let ?c = "of_nat (unat lba div 1008) :: u16"
  have c: "unat ?c = unat lba div 1008" using lim by (simp add: unat_of_nat)
  have head: "head = of_nat (unat lba div 63 mod 16)" and sector: "sector = of_nat (unat lba mod 63 + 1)"
    and cyl: "(push_bit 8 (ucast cyl2) OR ucast cyl1 :: u16) = ?c"
    using chs word_low_high_byte [of ?c] by (auto simp: get_chs_def Let_def)
  have uh: "ucast head = (of_nat (unat lba div 63 mod 16) :: u32)"
    unfolding head by (rule ucast_of_nat_small) simp
  have us: "ucast sector = (of_nat (unat lba mod 63 + 1) :: u32)"
    unfolding sector by (rule ucast_of_nat_small) (simp add: add.commute less_Suc_eq_le less_imp_le_nat)
  have uc: "(ucast ?c :: u32) = of_nat (unat lba div 1008)"
    using lim by (intro ucast_of_nat_small) simp
  have "get_lba head sector cyl1 cyl2 =
      of_nat ((unat lba div 1008 * 16 + unat lba div 63 mod 16) * 63 + unat lba mod 63)"
    by (simp add: get_lba_def Let_def cyl uh us uc)
  also have "(unat lba div 1008 * 16 + unat lba div 63 mod 16) * 63 + unat lba mod 63 = unat lba"
    using div_mult2_eq [of "unat lba" 63 16] by simp
  finally show ?thesis by simp
qed

lemma get_chs_inj:
  "unat a < CHS_LIMIT \<Longrightarrow> unat b < CHS_LIMIT \<Longrightarrow> get_chs a = get_chs b \<Longrightarrow> a = b"
  by (metis get_lba_get_chs prod_cases4)

text \<open>The drive and head register determines both the drive bit and the head.\<close>

lemma get_drive_head_bits:
  "unat head < 16 \<Longrightarrow> n < 8 \<Longrightarrow> bit (get_drive_head drive head) n \<longleftrightarrow>
     n = 7 \<or> n = 5 \<or> (n = 4 \<and> bit drive 0) \<or> (n < 4 \<and> bit head n)"
proof -
  assume n: "n < 8"
  have a: "bit (160 :: u8) n \<longleftrightarrow> n = 7 \<or> n = 5" and b: "bit (15 :: u8) n \<longleftrightarrow> n < 4"
    using n by (auto simp: less_Suc_eq numeral_eq_Suc)
  have c: "bit (push_bit 4 (drive AND 1)) n \<longleftrightarrow> n = 4 \<and> bit drive 0"
    unfolding bit_push_bit_iff bit_and_iff using n by (auto simp: bit_1_iff)
  show ?thesis
    unfolding get_drive_head_def bit_or_iff bit_and_iff a b c by auto
qed

lemma get_drive_head_inj:
  assumes "unat h < 16" "unat h' < 16" "get_drive_head d h = get_drive_head d' h'"
  shows "h = h' \<and> bit d 0 = bit d' 0"
proof
  have eq: "bit (get_drive_head d h) n = bit (get_drive_head d' h') n" for n
    using assms by simp
  have hi: "\<not> bit x n" if "unat x < 16" "4 \<le> n" for x :: u8 and n
  proof -
    have "(2::nat) ^ 4 \<le> 2 ^ n" using that(2) by (intro power_increasing) simp_all
    then have "\<not> bit (unat x) n" using that(1) by (simp add: bit_iff_odd)
    then show ?thesis by (auto simp: bit_unsigned_iff dest: bit_imp_le_length)
  qed
  show "h = h'"
  proof (rule bit_word_eqI)
    fix n assume n: "n < LENGTH(8)"
    show "bit h n \<longleftrightarrow> bit h' n"
      using eq [of n] n hi [of h n] hi [of h' n] assms(1,2)
      by (cases "n < 4") (auto simp: get_drive_head_bits)
  qed
  show "bit d 0 = bit d' 0"
    using eq [of 4] assms(1,2) by (simp add: get_drive_head_bits)
qed

text \<open>Distinct drive bits or distinct block addresses reach distinct sectors of the medium.\<close>

lemma ata_regs_inj:
  assumes "unat a < CHS_LIMIT" "unat b < CHS_LIMIT" "ata_regs d a = ata_regs d' b"
  shows "a = b \<and> bit d 0 = bit d' 0"
proof -
  obtain h s c1 c2 where A: "get_chs a = (h, s, c1, c2)" by (metis prod_cases4)
  obtain h' s' c1' c2' where B: "get_chs b = (h', s', c1', c2')" by (metis prod_cases4)
  have eq: "get_drive_head d h = get_drive_head d' h'" "s = s'" "c1 = c1'" "c2 = c2'"
    using assms(3) by (simp_all add: ata_regs_def A B)
  have "h = h' \<and> bit d 0 = bit d' 0"
    using get_drive_head_inj [OF _ _ eq(1)] get_chs_bounds(1) [OF A] get_chs_bounds(1) [OF B] by simp
  with eq get_chs_inj [OF assms(1,2)] show ?thesis by (simp add: A B)
qed

section \<open>fs/dev.c, kernel build\<close>

abbreviation (input) DEV_BLOCK_SIZE :: nat where "DEV_BLOCK_SIZE \<equiv> 512"
abbreviation (input) DEV_NODEV :: int where "DEV_NODEV \<equiv> - 1"

datatype dev_rtvl = DEV_OK | DEV_FAIL | DEV_PARAM

text \<open>\<open>dev_open (path, dev)\<close>: the return value and the new \<open>*dev\<close>.\<close>

definition dev_open :: "drive \<Rightarrow> bytes \<Rightarrow> int \<Rightarrow> dev_rtvl \<times> int" where
  "dev_open d path dev = (DEV_OK, if ata_nr_drives d > 0 then 0 else dev)"

definition dev_close :: "drive \<Rightarrow> int \<Rightarrow> dev_rtvl" where
  "dev_close d dev = DEV_OK"

definition dev_read :: "drive \<Rightarrow> int \<Rightarrow> u32 \<Rightarrow> (dev_rtvl \<times> bytes) option" where
  "dev_read d dev block = do {
     (r, data) \<leftarrow> ata_read d (word_of_int dev) block;
     Some (if r = 0 then DEV_OK else DEV_FAIL, data)
   }"

definition dev_write :: "drive \<Rightarrow> int \<Rightarrow> u32 \<Rightarrow> bytes \<Rightarrow> (dev_rtvl \<times> drive) option" where
  "dev_write d dev block data = do {
     (r, d') \<leftarrow> ata_write d (word_of_int dev) block data;
     Some (if r = 0 then DEV_OK else DEV_FAIL, d')
   }"

definition dev_scan :: "drive \<Rightarrow> int \<Rightarrow> u32 \<Rightarrow> dev_rtvl" where
  "dev_scan d dev block = DEV_OK"

subsection \<open>What the layers above rely on\<close>

text \<open>
  The sector a device and block number address, a drive without media errors, and
  the device and block numbers that name exactly one sector each.
\<close>

definition dsec :: "drive \<Rightarrow> int \<Rightarrow> u32 \<Rightarrow> bytes" where
  "dsec d dev block = media d (ata_regs (word_of_int dev) block)"

definition drive_ok :: "drive \<Rightarrow> bool" where
  "drive_ok d \<longleftrightarrow> (\<forall>a. \<not> media_err d a) \<and> (\<forall>a. length (media d a) = DEV_BLOCK_SIZE)"

definition addr_ok :: "int \<Rightarrow> u32 \<Rightarrow> bool" where
  "addr_ok dev block \<longleftrightarrow> (dev = 0 \<or> dev = 1) \<and> unat block < CHS_LIMIT"

lemma drive_okD:
  assumes "drive_ok d"
  shows "\<not> media_err d a" "length (media d a) = DEV_BLOCK_SIZE"
  using assms unfolding drive_ok_def by blast+

lemma length_dsec: "drive_ok d \<Longrightarrow> length (dsec d dev block) = DEV_BLOCK_SIZE"
  by (simp add: dsec_def drive_okD)

lemma dev_read_ok: "drive_ok d \<Longrightarrow> dev_read d dev block = Some (DEV_OK, dsec d dev block)"
  by (simp add: dev_read_def ata_read_def pio_read_def drive_okD dsec_def)

lemma dev_write_ok:
  assumes "drive_ok d" "length data = DEV_BLOCK_SIZE" "addr_ok dev block"
  obtains d' where "dev_write d dev block data = Some (DEV_OK, d')" "drive_ok d'"
    "\<And>dev' b. addr_ok dev' b \<Longrightarrow> dsec d' dev' b = (if dev' = dev \<and> b = block then data else dsec d dev' b)"
proof
  let ?d' = "d\<lparr>media := (media d)(ata_regs (word_of_int dev) block := data)\<rparr>"
  show "dev_write d dev block data = Some (DEV_OK, ?d')"
    using assms(1) by (simp add: dev_write_def ata_write_def pio_write_def drive_okD)
  show "drive_ok ?d'" using assms(1,2) by (simp add: drive_ok_def)
  fix dev' b assume "addr_ok dev' b"
  then show "dsec ?d' dev' b = (if dev' = dev \<and> b = block then data else dsec d dev' b)"
    using assms(3) ata_regs_inj [of b block "word_of_int dev'" "word_of_int dev"]
    by (auto simp: dsec_def addr_ok_def)
qed

text \<open>A device call that returns never returns a failure: a media error is a panic instead.\<close>

lemma dev_read_returns_ok: "dev_read d dev block = Some (r, data) \<Longrightarrow> r = DEV_OK"
  by (auto simp: dev_read_def ata_read_def split: option.splits bind_splits)

lemma dev_write_returns_ok: "dev_write d dev block data = Some (r, d') \<Longrightarrow> r = DEV_OK"
  by (auto simp: dev_write_def ata_write_def split: option.splits bind_splits)

section \<open>Properties\<close>

text \<open>
  The conversion to cylinder, head and sector loses nothing: for every block number
  below 65536 cylinders of 16 heads and 63 sectors, \<open>get_lba\<close> gives back the block
  number from the registers \<open>get_chs\<close> computes, and the head and sector are in the
  range the controller accepts.
\<close>

theorem chs_roundtrip:
  assumes "unat lba < CHS_LIMIT"
  shows "case get_chs lba of (head, sector, cyl1, cyl2) \<Rightarrow>
    get_lba head sector cyl1 cyl2 = lba \<and> unat head < HPC \<and> 1 \<le> unat sector \<and> unat sector \<le> SPT"
  using get_lba_get_chs [OF assms] get_chs_bounds [of lba] by (cases "get_chs lba") simp

theorem chs_roundtrip_witness: "get_chs 5000 = (15, 24, 4, 0) \<and> get_lba 15 24 4 0 = 5000"
proof -
  have "get_chs 5000 = (15, 24, 4, 0)" by (simp add: get_chs_def)
  with chs_roundtrip [of 5000] show ?thesis by simp
qed

text \<open>
  Sectors do not overlap: what is written to a device and block is what is read
  back from it, and no other device and block number reads differently.
\<close>

theorem dev_write_read:
  assumes "drive_ok d" "length data = DEV_BLOCK_SIZE" "addr_ok dev block" "addr_ok dev' block'"
  shows "\<exists>d'. dev_write d dev block data = Some (DEV_OK, d') \<and>
    dev_read d' dev' block' = (if dev' = dev \<and> block' = block then Some (DEV_OK, data) else dev_read d dev' block')"
proof -
  obtain d' where "dev_write d dev block data = Some (DEV_OK, d')" "drive_ok d'"
    "\<And>dev' b. addr_ok dev' b \<Longrightarrow> dsec d' dev' b = (if dev' = dev \<and> b = block then data else dsec d dev' b)"
    using dev_write_ok [OF assms(1-3)] by metis
  with assms show ?thesis by (auto simp: dev_read_ok)
qed

theorem dev_write_read_witness:
  "\<exists>d'. dev_write \<lparr>media = (\<lambda>a. zeros 512), media_err = (\<lambda>a. False), cmos_disks = 16\<rparr> 0 8 (replicate 512 1)
      = Some (DEV_OK, d') \<and> dev_read d' 0 8 = Some (DEV_OK, replicate 512 1)"
  using dev_write_read [of "\<lparr>media = (\<lambda>a. zeros 512), media_err = (\<lambda>a. False), cmos_disks = 16\<rparr>"
      "replicate 512 1" 0 8 0 8] by (simp add: drive_ok_def addr_ok_def)

end
