(* ===== verification/Sector_Store.thy ===== *)
theory Sector_Store
  imports OX_Prelude
begin

text \<open>
  The contract the file system wants of a block layer: an array of sectors. A
  state carries a budget: \<open>inv s n\<close> says the state is well formed and the next \<open>n\<close>
  operations are covered by the contract. Reading costs one operation and changes
  no sector, writing costs one and changes exactly the addressed sector.
\<close>

datatype ('a, 'v) sector_op = Rd 'a | Wr 'a 'v

text \<open>The ideal disk: a function from addresses to sectors.\<close>

fun ideal_run :: "('a \<Rightarrow> 'v) \<Rightarrow> ('a, 'v) sector_op list \<Rightarrow> 'v list \<times> ('a \<Rightarrow> 'v)" where
  "ideal_run f [] = ([], f)"
| "ideal_run f (Rd a # ops) = (let (vs, g) = ideal_run f ops in (f a # vs, g))"
| "ideal_run f (Wr a v # ops) = ideal_run (f(a := v)) ops"

text \<open>An implementation, run over the same operations; \<open>None\<close> when one does not succeed.\<close>

fun store_run :: "('s \<Rightarrow> 'a \<Rightarrow> ('v \<times> 's) option) \<Rightarrow> ('s \<Rightarrow> 'a \<Rightarrow> 'v \<Rightarrow> 's option) \<Rightarrow>
    's \<Rightarrow> ('a, 'v) sector_op list \<Rightarrow> ('v list \<times> 's) option" where
  "store_run rd wr s [] = Some ([], s)"
| "store_run rd wr s (Rd a # ops) = do {
     (v, s1) \<leftarrow> rd s a;
     (vs, s2) \<leftarrow> store_run rd wr s1 ops;
     Some (v # vs, s2)
   }"
| "store_run rd wr s (Wr a v # ops) = do {
     s1 \<leftarrow> wr s a v;
     store_run rd wr s1 ops
   }"

fun op_ok :: "('a \<Rightarrow> bool) \<Rightarrow> ('v \<Rightarrow> bool) \<Rightarrow> ('a, 'v) sector_op \<Rightarrow> bool" where
  "op_ok aok vok (Rd a) = aok a"
| "op_ok aok vok (Wr a v) = (aok a \<and> vok v)"

locale sector_store =
  fixes rd :: "'s \<Rightarrow> 'a \<Rightarrow> ('v \<times> 's) option"
    and wr :: "'s \<Rightarrow> 'a \<Rightarrow> 'v \<Rightarrow> 's option"
    and view :: "'s \<Rightarrow> 'a \<Rightarrow> 'v"
    and inv :: "'s \<Rightarrow> nat \<Rightarrow> bool"
    and aok :: "'a \<Rightarrow> bool"
    and vok :: "'v \<Rightarrow> bool"
  assumes rd_view: "inv s (Suc n) \<Longrightarrow> aok a \<Longrightarrow>
      \<exists>s'. rd s a = Some (view s a, s') \<and> inv s' n \<and> (\<forall>b. aok b \<longrightarrow> view s' b = view s b)"
    and wr_view: "inv s (Suc n) \<Longrightarrow> aok a \<Longrightarrow> vok v \<Longrightarrow>
      \<exists>s'. wr s a v = Some s' \<and> inv s' n \<and>
        (\<forall>b. aok b \<longrightarrow> view s' b = (if b = a then v else view s b))"
    and vok_view: "inv s n \<Longrightarrow> aok a \<Longrightarrow> vok (view s a)"
begin

lemma rdE:
  assumes "inv s (Suc n)" "aok a"
  obtains s' where "rd s a = Some (view s a, s')" "inv s' n" "\<And>b. aok b \<Longrightarrow> view s' b = view s b"
  using rd_view [OF assms] by blast

lemma wrE:
  assumes "inv s (Suc n)" "aok a" "vok v"
  obtains s' where "wr s a v = Some s'" "inv s' n"
    "\<And>b. aok b \<Longrightarrow> view s' b = (if b = a then v else view s b)"
  using wr_view [OF assms] by blast

lemma rd_after_wr:
  assumes "inv s (Suc (Suc n))" "aok a" "vok v" "aok b" "wr s a v = Some s1"
  shows "\<exists>s2. rd s1 b = Some (if b = a then v else view s b, s2) \<and> inv s2 n"
proof -
  have s1: "inv s1 (Suc n)" and v1: "view s1 b = (if b = a then v else view s b)"
    using wr_view [OF assms(1-3)] assms(4,5) by auto
  obtain s2 where "rd s1 b = Some (view s1 b, s2)" "inv s2 n"
    using rdE [OF s1 assms(4)] by blast
  with v1 show ?thesis by simp
qed

text \<open>
  Every run within the budget returns what the ideal disk returns and leaves the
  sectors the ideal disk leaves: the implementation refines the ideal disk.
\<close>

lemma run_refines:
  assumes "inv s (n + length ops)" "\<forall>x \<in> set ops. op_ok aok vok x"
    and "\<And>a. aok a \<Longrightarrow> f a = view s a"
  shows "\<exists>s'. store_run rd wr s ops = Some (fst (ideal_run f ops), s') \<and> inv s' n \<and>
    (\<forall>a. aok a \<longrightarrow> view s' a = snd (ideal_run f ops) a)"
  using assms
proof (induction ops arbitrary: s f)
  case Nil
  then show ?case by simp
next
  case (Cons op ops)
  show ?case
  proof (cases op)
    case (Rd a)
    with Cons.prems have a: "aok a" and inv: "inv s (Suc (n + length ops))" by simp_all
    obtain s1 where s1: "rd s a = Some (view s a, s1)" "inv s1 (n + length ops)"
      "\<And>b. aok b \<Longrightarrow> view s1 b = view s b"
      using rdE [OF inv a] by blast
    from Cons.IH [of s1 f] s1 Cons.prems obtain s2 where
      "store_run rd wr s1 ops = Some (fst (ideal_run f ops), s2)" "inv s2 n"
      "\<forall>a. aok a \<longrightarrow> view s2 a = snd (ideal_run f ops) a" by auto
    with s1(1) a Cons.prems(3) show ?thesis
      by (auto simp: Rd split: prod.splits)
  next
    case (Wr a v)
    with Cons.prems have a: "aok a" "vok v" and inv: "inv s (Suc (n + length ops))" by simp_all
    obtain s1 where s1: "wr s a v = Some s1" "inv s1 (n + length ops)"
      "\<And>b. aok b \<Longrightarrow> view s1 b = (if b = a then v else view s b)"
      using wrE [OF inv a] by blast
    define g where "g = f(a := v)"
    have g: "g b = view s1 b" if "aok b" for b
      using that s1(3) Cons.prems(3) by (simp add: g_def)
    have "\<forall>x \<in> set ops. op_ok aok vok x" using Cons.prems(2) by simp
    note IH = Cons.IH [where f = g, OF s1(2) this g]
    have "ideal_run f (op # ops) = ideal_run g ops" by (simp add: Wr g_def)
    moreover have "store_run rd wr s (op # ops) = store_run rd wr s1 ops"
      by (simp add: Wr s1(1))
    ultimately show ?thesis using IH by simp
  qed
qed

end

end
