(* ===== verification/Block_Cache.thy ===== *)
theory Block_Cache
  imports Ata_Disk Sector_Store
begin

text \<open>
  The buffer cache, \<open>fs/block.c\<close>: 128 slots, each with the block number and device
  it holds, its data, a dirty flag and a use count, replaced by a free slot first,
  then the least used clean slot, then the least used dirty slot. The static arrays
  of the C file are the fields of \<open>bcache\<close>; the drive below is its field \<open>bc_hw\<close>.

  Slot numbers are \<open>nat\<close> (they stay below 128); the C code's \<open>BLOCK_NOPOS\<close> for "no
  slot" is \<open>None\<close>. A NULL buffer or pointer argument is \<open>None\<close>.
\<close>

section \<open>State\<close>

abbreviation (input) BLOCK_ARRAY_SIZE :: nat where "BLOCK_ARRAY_SIZE \<equiv> 128"
abbreviation (input) BLOCK_FREE :: u32 where "BLOCK_FREE \<equiv> 4294967295"
abbreviation (input) BLOCK_MAX_LRU :: u32 where "BLOCK_MAX_LRU \<equiv> 4294967295"

datatype block_rtvl = BLOCK_OK | BLOCK_FAIL | BLOCK_PARAM

record bcache =
  bc_init :: bool
  bc_curr :: nat
  bc_highest :: u32
  bc_dirty :: "bool list"
  bc_lru :: "u32 list"
  bc_map :: "u32 list"
  bc_array :: "bytes list"
  bc_dev :: "int list"
  bc_hw :: drive

section \<open>Operations\<close>

definition cache_reset :: "bcache \<Rightarrow> bcache" where
  "cache_reset s = s\<lparr>
     bc_array := replicate BLOCK_ARRAY_SIZE (zeros DEV_BLOCK_SIZE),
     bc_dirty := replicate BLOCK_ARRAY_SIZE False,
     bc_map := replicate BLOCK_ARRAY_SIZE BLOCK_FREE,
     bc_lru := replicate BLOCK_ARRAY_SIZE 0,
     bc_dev := replicate BLOCK_ARRAY_SIZE DEV_NODEV,
     bc_init := True\<rparr>"

text \<open>\<open>block_open (path, dev)\<close>: the return value, the new \<open>*dev\<close>, the new state.\<close>

definition block_open :: "bcache \<Rightarrow> bytes option \<Rightarrow> int option \<Rightarrow> block_rtvl \<times> int option \<times> bcache" where
  "block_open s path dev =
     (case (path, dev) of
        (Some p, Some d) \<Rightarrow>
          let s = (if bc_init s then s else cache_reset s);
              (r, d') = dev_open (bc_hw s) p d
          in if r = DEV_OK then (BLOCK_OK, Some d', s) else (BLOCK_FAIL, Some d', s)
      | _ \<Rightarrow> (BLOCK_PARAM, dev, s))"

definition curr_wrap :: "bcache \<Rightarrow> bcache" where
  "curr_wrap s = (if bc_curr s \<ge> BLOCK_ARRAY_SIZE then s\<lparr>bc_curr := 0\<rparr> else s)"

definition slot_holds :: "bcache \<Rightarrow> int \<Rightarrow> u32 \<Rightarrow> nat \<Rightarrow> bool" where
  "slot_holds s dev block i \<longleftrightarrow> bc_map s ! i = block \<and> bc_dev s ! i = dev"

text \<open>The two scans every operation starts with: from \<open>curr\<close> up, then around from 0.\<close>

definition block_lookup :: "bcache \<Rightarrow> int \<Rightarrow> u32 \<Rightarrow> nat option" where
  "block_lookup s dev block =
     (case first_from (slot_holds s dev block) (bc_curr s) BLOCK_ARRAY_SIZE of
        Some i \<Rightarrow> Some i
      | None \<Rightarrow> if bc_curr s \<noteq> 0 then first_from (slot_holds s dev block) 0 (bc_curr s) else None)"

definition lru_inc :: "bcache \<Rightarrow> nat \<Rightarrow> bcache" where
  "lru_inc s i =
     (if bc_lru s ! i < BLOCK_MAX_LRU then s\<lparr>bc_lru := (bc_lru s)[i := bc_lru s ! i + 1]\<rparr> else s)"

definition lru_top :: "bcache \<Rightarrow> nat \<Rightarrow> bcache" where
  "lru_top s i =
     (if bc_lru s ! i < BLOCK_MAX_LRU
      then s\<lparr>bc_highest := bc_highest s + 1, bc_lru := (bc_lru s)[i := bc_highest s + 1]\<rparr> else s)"

text \<open>The replacement scan: first free slot, least used clean slot, least used dirty slot.\<close>

record scan =
  free_block_ptr :: "nat option"
  lowest_clean_block :: u32
  lowest_clean_block_ptr :: "nat option"
  lowest_dirty_block :: u32
  lowest_dirty_block_ptr :: "nat option"
  scan_highest :: u32

definition scan_init :: "bcache \<Rightarrow> scan" where
  "scan_init s = \<lparr>free_block_ptr = None,
     lowest_clean_block = BLOCK_MAX_LRU, lowest_clean_block_ptr = None,
     lowest_dirty_block = BLOCK_MAX_LRU, lowest_dirty_block_ptr = None,
     scan_highest = bc_highest s\<rparr>"

definition scan_slot :: "bcache \<Rightarrow> nat \<Rightarrow> scan \<Rightarrow> scan" where
  "scan_slot s i r =
     (let l = bc_lru s ! i;
          r1 = (if \<not> bc_dirty s ! i \<and> l < lowest_clean_block r
                then r\<lparr>lowest_clean_block := l, lowest_clean_block_ptr := Some i\<rparr> else r);
          r2 = (if bc_dirty s ! i \<and> l < lowest_dirty_block r1
                then r1\<lparr>lowest_dirty_block := l, lowest_dirty_block_ptr := Some i\<rparr> else r1)
      in if l > scan_highest r2 then r2\<lparr>scan_highest := l\<rparr> else r2)"

function block_scan :: "bcache \<Rightarrow> nat \<Rightarrow> scan \<Rightarrow> scan" where
  "block_scan s i r =
     (if i < BLOCK_ARRAY_SIZE
      then if bc_map s ! i = BLOCK_FREE then r\<lparr>free_block_ptr := Some i\<rparr>
           else block_scan s (Suc i) (scan_slot s i r)
      else r)"
  by pat_completeness auto
termination
  by (relation "measure (\<lambda>(s, i, r). 128 - i)") auto

declare block_scan.simps [simp del]

text \<open>\<open>block_read\<close> into a free slot, over a clean slot, over a dirty slot.\<close>

definition block_read_free :: "bcache \<Rightarrow> nat \<Rightarrow> int \<Rightarrow> u32 \<Rightarrow> bytes \<Rightarrow> (block_rtvl \<times> bytes \<times> bcache) option" where
  "block_read_free s i dev block data =
     (if dev_scan (bc_hw s) dev block \<noteq> DEV_OK then Some (BLOCK_FAIL, data, s)
      else do {
        (r, buf) \<leftarrow> dev_read (bc_hw s) dev block;
        if r \<noteq> DEV_OK
        then Some (BLOCK_FAIL, data, s\<lparr>bc_map := (bc_map s)[i := BLOCK_FREE]\<rparr>)
        else do {
          let s = lru_top (s\<lparr>bc_array := (bc_array s)[i := buf]\<rparr>) i;
          let s = s\<lparr>bc_map := (bc_map s)[i := block], bc_dev := (bc_dev s)[i := dev],
                    bc_dirty := (bc_dirty s)[i := False], bc_curr := i\<rparr>;
          Some (BLOCK_OK, bc_array s ! i, s)
        }
      })"

definition block_read_clean :: "bcache \<Rightarrow> nat \<Rightarrow> int \<Rightarrow> u32 \<Rightarrow> bytes \<Rightarrow> (block_rtvl \<times> bytes \<times> bcache) option" where
  "block_read_clean s i dev block data =
     (if dev_scan (bc_hw s) dev block \<noteq> DEV_OK then Some (BLOCK_FAIL, data, s)
      else do {
        (r, buf) \<leftarrow> dev_read (bc_hw s) dev block;
        if r \<noteq> DEV_OK then Some (BLOCK_FAIL, data, s)
        else do {
          let s = lru_top (s\<lparr>bc_array := (bc_array s)[i := buf]\<rparr>) i;
          let s = s\<lparr>bc_map := (bc_map s)[i := block], bc_dev := (bc_dev s)[i := dev],
                    bc_dirty := (bc_dirty s)[i := False], bc_curr := i\<rparr>;
          Some (BLOCK_OK, bc_array s ! i, s)
        }
      })"

text \<open>
  Before a dirty slot is reused its data is written out: to the device the slot
  belongs to, at the block number that is being requested.
\<close>

definition evict_dirty :: "bcache \<Rightarrow> nat \<Rightarrow> u32 \<Rightarrow> (dev_rtvl \<times> bcache) option" where
  "evict_dirty s i block =
     (if dev_scan (bc_hw s) (bc_dev s ! i) (bc_map s ! i) \<noteq> DEV_OK then Some (DEV_FAIL, s)
      else do {
        (r, hw) \<leftarrow> dev_write (bc_hw s) (bc_dev s ! i) block (bc_array s ! i);
        Some (r, s\<lparr>bc_hw := hw\<rparr>)
      })"

definition block_read_dirty :: "bcache \<Rightarrow> nat \<Rightarrow> int \<Rightarrow> u32 \<Rightarrow> bytes \<Rightarrow> (block_rtvl \<times> bytes \<times> bcache) option" where
  "block_read_dirty s i dev block data = do {
     (r, s) \<leftarrow> evict_dirty s i block;
     if r \<noteq> DEV_OK then Some (BLOCK_FAIL, data, s)
     else block_read_clean s i dev block data
   }"

definition block_read :: "bcache \<Rightarrow> int \<Rightarrow> u32 \<Rightarrow> bytes option \<Rightarrow> (block_rtvl \<times> bytes option \<times> bcache) option" where
  "block_read s dev block data =
     (case data of
        None \<Rightarrow> Some (BLOCK_PARAM, None, s)
      | Some buf \<Rightarrow>
        if dev < 0 then Some (BLOCK_PARAM, data, s)
        else
          let s = curr_wrap s in
          case block_lookup s dev block of
            Some i \<Rightarrow> Some (BLOCK_OK, Some (bc_array s ! i), (lru_inc s i)\<lparr>bc_curr := i\<rparr>)
          | None \<Rightarrow>
            let r = block_scan s 0 (scan_init s); s = s\<lparr>bc_highest := scan_highest r\<rparr> in
            do {
              (rv, buf', s') \<leftarrow>
                (case (free_block_ptr r, lowest_clean_block_ptr r, lowest_dirty_block_ptr r) of
                   (Some i, _, _) \<Rightarrow> block_read_free s i dev block buf
                 | (None, Some i, _) \<Rightarrow> block_read_clean s i dev block buf
                 | (None, None, Some i) \<Rightarrow> block_read_dirty s i dev block buf
                 | (None, None, None) \<Rightarrow> Some (BLOCK_FAIL, buf, s));
              Some (rv, Some buf', s')
            })"

text \<open>\<open>block_write\<close>: the cached slot, or a slot taken over for the new data.\<close>

definition block_fill :: "bcache \<Rightarrow> nat \<Rightarrow> int \<Rightarrow> u32 \<Rightarrow> bytes \<Rightarrow> bcache" where
  "block_fill s i dev block data =
     lru_top (s\<lparr>bc_map := (bc_map s)[i := block], bc_dev := (bc_dev s)[i := dev],
                bc_dirty := (bc_dirty s)[i := True], bc_array := (bc_array s)[i := data],
                bc_curr := i\<rparr>) i"

definition block_write :: "bcache \<Rightarrow> int \<Rightarrow> u32 \<Rightarrow> bytes \<Rightarrow> (block_rtvl \<times> bcache) option" where
  "block_write s dev block data =
     (let s = curr_wrap s in
      case block_lookup s dev block of
        Some i \<Rightarrow>
          Some (BLOCK_OK, (lru_inc (s\<lparr>bc_curr := i, bc_dirty := (bc_dirty s)[i := True]\<rparr>) i)
                            \<lparr>bc_array := (bc_array s)[i := data]\<rparr>)
      | None \<Rightarrow>
        let r = block_scan s 0 (scan_init s); s = s\<lparr>bc_highest := scan_highest r\<rparr> in
        case (free_block_ptr r, lowest_clean_block_ptr r, lowest_dirty_block_ptr r) of
          (Some i, _, _) \<Rightarrow> Some (BLOCK_OK, block_fill s i dev block data)
        | (None, Some i, _) \<Rightarrow> Some (BLOCK_OK, block_fill s i dev block data)
        | (None, None, Some i) \<Rightarrow> do {
            (rv, s) \<leftarrow> evict_dirty s i block;
            if rv \<noteq> DEV_OK then Some (BLOCK_FAIL, s)
            else Some (BLOCK_OK, block_fill s i dev block data)
          }
        | (None, None, None) \<Rightarrow> Some (BLOCK_FAIL, s))"

definition block_free :: "bcache \<Rightarrow> int \<Rightarrow> u32 \<Rightarrow> (block_rtvl \<times> bcache) option" where
  "block_free s dev block =
     (if dev < 0 then Some (BLOCK_PARAM, s)
      else case first_from (slot_holds s dev block) 0 BLOCK_ARRAY_SIZE of
        None \<Rightarrow> Some (BLOCK_OK, s)
      | Some i \<Rightarrow> do {
          (rv, s) \<leftarrow>
            (if bc_dirty s ! i
             then if dev_scan (bc_hw s) dev block \<noteq> DEV_OK then Some (DEV_FAIL, s)
                  else do {
                    (r, hw) \<leftarrow> dev_write (bc_hw s) dev block (bc_array s ! i);
                    Some (r, s\<lparr>bc_hw := hw\<rparr>)
                  }
             else Some (DEV_OK, s));
          if rv \<noteq> DEV_OK then Some (BLOCK_FAIL, s)
          else Some (BLOCK_OK, s\<lparr>bc_lru := (bc_lru s)[i := 0], bc_map := (bc_map s)[i := BLOCK_FREE],
                 bc_dev := (bc_dev s)[i := DEV_NODEV], bc_dirty := (bc_dirty s)[i := False],
                 bc_curr := i\<rparr>)
        })"

definition block_disk_write :: "bcache \<Rightarrow> int \<Rightarrow> u32 \<Rightarrow> bytes \<Rightarrow> (block_rtvl \<times> bcache) option" where
  "block_disk_write s dev block data =
     (let s = curr_wrap s;
          (s, buf) =
            (case block_lookup s dev block of
               Some i \<Rightarrow>
                 let s = (if bc_array s ! i \<noteq> data then s\<lparr>bc_array := (bc_array s)[i := data]\<rparr> else s)
                 in (s, bc_array s ! i)
             | None \<Rightarrow> (s, data))
      in if dev_scan (bc_hw s) dev block \<noteq> DEV_OK then Some (BLOCK_FAIL, s)
         else do {
           (r, hw) \<leftarrow> dev_write (bc_hw s) dev block buf;
           Some (if r \<noteq> DEV_OK then BLOCK_FAIL else BLOCK_OK, s\<lparr>bc_hw := hw\<rparr>)
         })"

definition block_disk_write_sync_cache ::
    "bcache \<Rightarrow> int \<Rightarrow> u32 \<Rightarrow> bytes \<Rightarrow> (block_rtvl \<times> bytes \<times> bcache) option" where
  "block_disk_write_sync_cache s dev block data =
     (let cached = block_lookup (curr_wrap s) dev block in
      do {
        (rv, s) \<leftarrow> block_disk_write s dev block data;
        if rv \<noteq> BLOCK_OK \<or> cached \<noteq> None then Some (rv, data, s)
        else do {
          (rv, buf, s) \<leftarrow> block_read s dev block (Some data);
          Some (rv, case buf of Some b \<Rightarrow> b | None \<Rightarrow> data, s)
        }
      })"

text \<open>\<open>block_sync\<close>: write out every dirty slot of the device, going on after a failure.\<close>

function sync_from :: "bcache \<Rightarrow> int \<Rightarrow> nat \<Rightarrow> block_rtvl \<Rightarrow> (block_rtvl \<times> bcache) option" where
  "sync_from s dev i rtvl =
     (if i < BLOCK_ARRAY_SIZE
      then if bc_dirty s ! i \<and> bc_dev s ! i = dev
           then do {
             (rv, s1) \<leftarrow> block_disk_write s dev (bc_map s ! i) (bc_array s ! i);
             if rv = BLOCK_FAIL then sync_from s1 dev (Suc i) BLOCK_FAIL
             else sync_from (lru_inc (s1\<lparr>bc_dirty := (bc_dirty s1)[i := False]\<rparr>) i) dev (Suc i) rtvl
           }
           else sync_from s dev (Suc i) rtvl
      else Some (rtvl, s))"
  by pat_completeness auto
termination
  by (relation "measure (\<lambda>(s, dev, i, r). 128 - i)") auto

declare sync_from.simps [simp del]

definition block_sync :: "bcache \<Rightarrow> int \<Rightarrow> (block_rtvl \<times> bcache) option" where
  "block_sync s dev = sync_from s dev 0 BLOCK_OK"

text \<open>
  \<open>block_close\<close> ends without a \<open>return\<close> when nothing failed: the caller then sees
  whatever the return register holds, here the parameter \<open>leftover\<close>.
\<close>

definition block_close :: "block_rtvl \<Rightarrow> bcache \<Rightarrow> int \<Rightarrow> (block_rtvl \<times> bcache) option" where
  "block_close leftover s dev = do {
     (rv, s) \<leftarrow> block_sync s dev;
     let error = (rv \<noteq> BLOCK_OK \<or> dev_close (bc_hw s) dev \<noteq> DEV_OK);
     Some (if error then BLOCK_FAIL else leftover, s)
   }"

definition block_reinit :: "bcache \<Rightarrow> bcache" where
  "block_reinit s = s\<lparr>bc_init := False\<rparr>"

section \<open>Well-formedness and the view of the disk through the cache\<close>

definition cached_slot :: "bcache \<Rightarrow> nat \<Rightarrow> bool" where
  "cached_slot s i \<longleftrightarrow> i < BLOCK_ARRAY_SIZE \<and> bc_map s ! i \<noteq> BLOCK_FREE"

text \<open>
  All arrays have one entry per slot; no block is cached twice; a slot in use holds
  an addressable block; a free slot is not dirty; a clean slot agrees with the disk.
\<close>

definition cache_wf :: "bcache \<Rightarrow> bool" where
  "cache_wf s \<longleftrightarrow>
     drive_ok (bc_hw s) \<and>
     length (bc_dirty s) = BLOCK_ARRAY_SIZE \<and> length (bc_lru s) = BLOCK_ARRAY_SIZE \<and>
     length (bc_map s) = BLOCK_ARRAY_SIZE \<and> length (bc_array s) = BLOCK_ARRAY_SIZE \<and>
     length (bc_dev s) = BLOCK_ARRAY_SIZE \<and>
     (\<forall>i < BLOCK_ARRAY_SIZE. length (bc_array s ! i) = DEV_BLOCK_SIZE) \<and>
     (\<forall>i j. cached_slot s i \<longrightarrow> cached_slot s j \<longrightarrow>
        bc_map s ! i = bc_map s ! j \<longrightarrow> bc_dev s ! i = bc_dev s ! j \<longrightarrow> i = j) \<and>
     (\<forall>i. cached_slot s i \<longrightarrow> addr_ok (bc_dev s ! i) (bc_map s ! i)) \<and>
     (\<forall>i < BLOCK_ARRAY_SIZE. bc_map s ! i = BLOCK_FREE \<longrightarrow> \<not> bc_dirty s ! i) \<and>
     (\<forall>i. cached_slot s i \<longrightarrow> \<not> bc_dirty s ! i \<longrightarrow>
        bc_array s ! i = dsec (bc_hw s) (bc_dev s ! i) (bc_map s ! i))"

text \<open>What a reader of device \<open>dev\<close> should see in block \<open>b\<close>: the cached data, else the disk's.\<close>

definition view :: "bcache \<Rightarrow> int \<Rightarrow> u32 \<Rightarrow> bytes" where
  "view s dev b =
     (case first_from (slot_holds s dev b) 0 BLOCK_ARRAY_SIZE of
        Some i \<Rightarrow> bc_array s ! i
      | None \<Rightarrow> dsec (bc_hw s) dev b)"

lemma addr_ok_not_free: "addr_ok dev b \<Longrightarrow> b \<noteq> BLOCK_FREE"
  by (auto simp: addr_ok_def)

lemma slot_holds_cached:
  "addr_ok dev b \<Longrightarrow> i < BLOCK_ARRAY_SIZE \<Longrightarrow> slot_holds s dev b i \<Longrightarrow> cached_slot s i"
  using addr_ok_not_free by (auto simp: slot_holds_def cached_slot_def)

lemma cache_wf_unique:
  assumes "cache_wf s" "addr_ok dev b" "i < BLOCK_ARRAY_SIZE" "j < BLOCK_ARRAY_SIZE"
    "slot_holds s dev b i" "slot_holds s dev b j"
  shows "i = j"
proof -
  have "cached_slot s i" "cached_slot s j" using assms slot_holds_cached by blast+
  with assms(1,5,6) show ?thesis unfolding cache_wf_def slot_holds_def by metis
qed

text \<open>The state components the invariant and the view do not depend on.\<close>

lemma cached_slot_aux [simp]:
  "cached_slot (s\<lparr>bc_lru := l\<rparr>) i = cached_slot s i"
  "cached_slot (s\<lparr>bc_curr := c\<rparr>) i = cached_slot s i"
  "cached_slot (s\<lparr>bc_highest := h\<rparr>) i = cached_slot s i"
  by (simp_all add: cached_slot_def)

lemma slot_holds_aux [simp]:
  "slot_holds (s\<lparr>bc_lru := l\<rparr>) = slot_holds s"
  "slot_holds (s\<lparr>bc_curr := c\<rparr>) = slot_holds s"
  "slot_holds (s\<lparr>bc_highest := h\<rparr>) = slot_holds s"
  "slot_holds (s\<lparr>bc_dirty := d\<rparr>) = slot_holds s"
  "slot_holds (s\<lparr>bc_array := a\<rparr>) = slot_holds s"
  "slot_holds (s\<lparr>bc_hw := hw\<rparr>) = slot_holds s"
  by (auto simp: slot_holds_def fun_eq_iff)

lemma view_aux [simp]:
  "view (s\<lparr>bc_lru := l\<rparr>) = view s"
  "view (s\<lparr>bc_curr := c\<rparr>) = view s"
  "view (s\<lparr>bc_highest := h\<rparr>) = view s"
  "view (s\<lparr>bc_dirty := d\<rparr>) = view s"
  by (auto simp: view_def fun_eq_iff split: option.split)

lemma cache_wf_aux [simp]:
  "length l = BLOCK_ARRAY_SIZE \<Longrightarrow> cache_wf s \<Longrightarrow> cache_wf (s\<lparr>bc_lru := l\<rparr>)"
  "cache_wf (s\<lparr>bc_curr := c\<rparr>) = cache_wf s"
  "cache_wf (s\<lparr>bc_highest := h\<rparr>) = cache_wf s"
  by (simp_all add: cache_wf_def)

lemma cache_wf_lengths:
  assumes "cache_wf s"
  shows "length (bc_dirty s) = BLOCK_ARRAY_SIZE" "length (bc_lru s) = BLOCK_ARRAY_SIZE"
    "length (bc_map s) = BLOCK_ARRAY_SIZE" "length (bc_array s) = BLOCK_ARRAY_SIZE"
    "length (bc_dev s) = BLOCK_ARRAY_SIZE" "drive_ok (bc_hw s)"
    "i < BLOCK_ARRAY_SIZE \<Longrightarrow> length (bc_array s ! i) = DEV_BLOCK_SIZE"
  using assms by (simp_all add: cache_wf_def)

lemma curr_wrap_simps [simp]:
  "cache_wf (curr_wrap s) = cache_wf s" "view (curr_wrap s) = view s"
  "bc_curr (curr_wrap s) < BLOCK_ARRAY_SIZE" "slot_holds (curr_wrap s) = slot_holds s"
  "bc_map (curr_wrap s) = bc_map s" "bc_dev (curr_wrap s) = bc_dev s"
  "bc_array (curr_wrap s) = bc_array s" "bc_dirty (curr_wrap s) = bc_dirty s"
  "bc_lru (curr_wrap s) = bc_lru s" "bc_hw (curr_wrap s) = bc_hw s"
  by (simp_all add: curr_wrap_def)

lemma lru_simps [simp]:
  "cache_wf s \<Longrightarrow> cache_wf (lru_inc s i)" "view (lru_inc s i) = view s"
  "cache_wf s \<Longrightarrow> cache_wf (lru_top s i)" "view (lru_top s i) = view s"
  "bc_map (lru_top s i) = bc_map s" "bc_dev (lru_top s i) = bc_dev s"
  "bc_array (lru_top s i) = bc_array s" "bc_dirty (lru_top s i) = bc_dirty s"
  "bc_hw (lru_top s i) = bc_hw s"
  "bc_map (lru_inc s i) = bc_map s" "bc_dev (lru_inc s i) = bc_dev s"
  "bc_array (lru_inc s i) = bc_array s" "bc_dirty (lru_inc s i) = bc_dirty s"
  "bc_hw (lru_inc s i) = bc_hw s"
  by (simp_all add: lru_inc_def lru_top_def cache_wf_lengths)

text \<open>Both scans together look at every slot; on a well-formed cache they find the one slot.\<close>

lemma block_lookup_Some:
  assumes "block_lookup s dev b = Some i" "bc_curr s < BLOCK_ARRAY_SIZE"
  shows "i < BLOCK_ARRAY_SIZE" "slot_holds s dev b i"
  using assms by (auto simp: block_lookup_def dest!: first_from_SomeD split: option.splits if_splits)

lemma block_lookup_None:
  "block_lookup s dev b = None \<longleftrightarrow> (\<forall>i < BLOCK_ARRAY_SIZE. \<not> slot_holds s dev b i)"
  if "bc_curr s < BLOCK_ARRAY_SIZE"
proof -
  have "block_lookup s dev b = None \<longleftrightarrow>
      (\<forall>i. bc_curr s \<le> i \<longrightarrow> i < 128 \<longrightarrow> \<not> slot_holds s dev b i) \<and>
      (\<forall>i < bc_curr s. \<not> slot_holds s dev b i)"
    by (auto simp: block_lookup_def first_from_None_iff split: option.split
        dest!: first_from_SomeD)
  also have "\<dots> \<longleftrightarrow> (\<forall>i < 128. \<not> slot_holds s dev b i)"
    using that by (meson leI less_trans)
  finally show ?thesis .
qed

lemma view_cached:
  assumes "cache_wf s" "addr_ok dev b" "i < BLOCK_ARRAY_SIZE" "slot_holds s dev b i"
  shows "view s dev b = bc_array s ! i"
proof (cases "first_from (slot_holds s dev b) 0 BLOCK_ARRAY_SIZE")
  case None
  with assms show ?thesis by (simp add: first_from_None_iff)
next
  case (Some j)
  then have "j < 128" "slot_holds s dev b j" by (auto dest: first_from_SomeD)
  with assms cache_wf_unique have "j = i" by blast
  with Some show ?thesis by (simp add: view_def)
qed

lemma view_uncached:
  assumes "\<forall>i < BLOCK_ARRAY_SIZE. \<not> slot_holds s dev b i"
  shows "view s dev b = dsec (bc_hw s) dev b"
proof -
  have "first_from (slot_holds s dev b) 0 BLOCK_ARRAY_SIZE = None"
    using assms by (simp add: first_from_None_iff)
  then show ?thesis by (simp add: view_def)
qed

lemma length_view:
  assumes "cache_wf s" shows "length (view s dev b) = DEV_BLOCK_SIZE"
proof -
  have "length (bc_array s ! i) = 512" if "first_from (slot_holds s dev b) 0 128 = Some i" for i
    using first_from_SomeD [OF that] assms by (simp add: cache_wf_lengths)
  then show ?thesis
    using assms by (simp add: view_def length_dsec cache_wf_lengths split: option.split)
qed

subsection \<open>Taking over a slot\<close>

text \<open>
  Installing block \<open>b\<close>, cached nowhere so far, in a slot that is free or clean
  changes what the cache shows in no other block.
\<close>

definition put_slot :: "bcache \<Rightarrow> nat \<Rightarrow> int \<Rightarrow> u32 \<Rightarrow> bytes \<Rightarrow> bool \<Rightarrow> bcache" where
  "put_slot s i dev b data d = s\<lparr>bc_map := (bc_map s)[i := b], bc_dev := (bc_dev s)[i := dev],
     bc_array := (bc_array s)[i := data], bc_dirty := (bc_dirty s)[i := d]\<rparr>"

lemma put_slot_nth:
  assumes "cache_wf s" "i < BLOCK_ARRAY_SIZE" "k < BLOCK_ARRAY_SIZE"
  shows "bc_map (put_slot s i dev b data d) ! k = (if k = i then b else bc_map s ! k)"
    "bc_dev (put_slot s i dev b data d) ! k = (if k = i then dev else bc_dev s ! k)"
    "bc_array (put_slot s i dev b data d) ! k = (if k = i then data else bc_array s ! k)"
    "bc_dirty (put_slot s i dev b data d) ! k = (if k = i then d else bc_dirty s ! k)"
  using assms by (simp_all add: put_slot_def nth_list_update cache_wf_lengths)

lemma put_slot_hw [simp]: "bc_hw (put_slot s i dev b data d) = bc_hw s"
  by (simp add: put_slot_def)

lemma put_slot_cached:
  assumes "cache_wf s" "i < BLOCK_ARRAY_SIZE" "addr_ok dev b"
  shows "cached_slot (put_slot s i dev b data d) k \<longleftrightarrow> k = i \<or> cached_slot s k"
  using assms addr_ok_not_free [OF assms(3)]
  by (cases "k < 128") (auto simp: cached_slot_def put_slot_nth split: if_splits)

lemma put_slot_holds:
  assumes "cache_wf s" "i < BLOCK_ARRAY_SIZE" "k < BLOCK_ARRAY_SIZE"
  shows "slot_holds (put_slot s i dev b data d) dv bb k \<longleftrightarrow>
    (if k = i then bb = b \<and> dv = dev else slot_holds s dv bb k)"
  using put_slot_nth [OF assms] by (auto simp: slot_holds_def)

lemma put_slot_unique:
  assumes wf: "cache_wf s" and i: "i < BLOCK_ARRAY_SIZE" and ok: "addr_ok dev b"
    and new: "\<forall>k < BLOCK_ARRAY_SIZE. \<not> slot_holds s dev b k"
    and kj: "cached_slot (put_slot s i dev b data d) k" "cached_slot (put_slot s i dev b data d) j"
      "bc_map (put_slot s i dev b data d) ! k = bc_map (put_slot s i dev b data d) ! j"
      "bc_dev (put_slot s i dev b data d) ! k = bc_dev (put_slot s i dev b data d) ! j"
  shows "k = j"
proof -
  have l: "k < 128" "j < 128" using kj by (simp_all add: cached_slot_def)
  note nth = put_slot_nth [OF wf i l(1)] put_slot_nth [OF wf i l(2)]
  show ?thesis
  proof (cases "k = i \<or> j = i")
    case True
    with kj l new show ?thesis by (auto simp: nth slot_holds_def split: if_splits)
  next
    case False
    with kj have "cached_slot s k" "cached_slot s j" "bc_map s ! k = bc_map s ! j"
      "bc_dev s ! k = bc_dev s ! j" by (simp_all add: put_slot_cached [OF wf i ok] nth)
    with wf show ?thesis unfolding cache_wf_def by blast
  qed
qed

lemma put_slot_wf:
  assumes wf: "cache_wf s" and i: "i < BLOCK_ARRAY_SIZE" and ok: "addr_ok dev b"
    and new: "\<forall>k < BLOCK_ARRAY_SIZE. \<not> slot_holds s dev b k"
    and data: "length data = DEV_BLOCK_SIZE" "d \<or> data = dsec (bc_hw s) dev b"
  shows "cache_wf (put_slot s i dev b data d)" (is "cache_wf ?s")
proof -
  note nth = put_slot_nth [OF wf i] and cs = put_slot_cached [OF wf i ok]
  have lt: "k < 128" if "cached_slot ?s k" for k using that by (simp add: cached_slot_def)
  have "addr_ok (bc_dev ?s ! k) (bc_map ?s ! k)" if "cached_slot ?s k" for k
    using that lt [OF that] wf ok unfolding cache_wf_def by (auto simp: cs nth)
  moreover have "bc_array ?s ! k = dsec (bc_hw ?s) (bc_dev ?s ! k) (bc_map ?s ! k)"
    if "cached_slot ?s k" "\<not> bc_dirty ?s ! k" for k
    using that lt [OF that(1)] wf data(2) unfolding cache_wf_def by (auto simp: cs nth)
  moreover have "length (bc_dirty ?s) = 128" "length (bc_lru ?s) = 128" "length (bc_map ?s) = 128"
    "length (bc_array ?s) = 128" "length (bc_dev ?s) = 128"
    using cache_wf_lengths [OF wf] by (simp_all add: put_slot_def)
  moreover have "\<forall>k < 128. bc_map ?s ! k = BLOCK_FREE \<longrightarrow> \<not> bc_dirty ?s ! k"
    using wf addr_ok_not_free [OF ok] unfolding cache_wf_def by (auto simp: nth)
  moreover have "\<forall>k < 128. length (bc_array ?s ! k) = DEV_BLOCK_SIZE"
    using cache_wf_lengths(7) [OF wf] data(1) by (auto simp: nth)
  ultimately show ?thesis
    unfolding cache_wf_def [of ?s]
    using cache_wf_lengths(6) [OF wf] put_slot_unique [OF wf i ok new] by auto
qed

lemma put_slot_view:
  assumes wf: "cache_wf s" and i: "i < BLOCK_ARRAY_SIZE" and ok: "addr_ok dev b"
    and new: "\<forall>k < BLOCK_ARRAY_SIZE. \<not> slot_holds s dev b k"
    and data: "length data = DEV_BLOCK_SIZE" "d \<or> data = dsec (bc_hw s) dev b"
    and victim: "bc_map s ! i = BLOCK_FREE \<or> \<not> bc_dirty s ! i" and a: "addr_ok dev' b'"
  shows "view (put_slot s i dev b data d) dev' b' = (if dev' = dev \<and> b' = b then data else view s dev' b')"
    (is "view ?s dev' b' = _")
proof -
  note wf' = put_slot_wf [OF wf i ok new data] and sh = put_slot_holds [OF wf i]
  consider (new) "dev' = dev \<and> b' = b"
    | (kept) k where "k < 128" "k \<noteq> i" "slot_holds s dev' b' k" "\<not> (dev' = dev \<and> b' = b)"
    | (old) "slot_holds s dev' b' i" "\<not> (dev' = dev \<and> b' = b)"
    | (none) "\<forall>k < 128. \<not> slot_holds s dev' b' k" "\<not> (dev' = dev \<and> b' = b)"
    by blast
  then show ?thesis
  proof cases
    case new
    then have "slot_holds ?s dev' b' i" using sh [OF i] by simp
    from view_cached [OF wf' a i this] new put_slot_nth(3) [OF wf i i] show ?thesis by simp
  next
    case kept
    then have "slot_holds ?s dev' b' k" using sh by simp
    from view_cached [OF wf' a kept(1) this] view_cached [OF wf a kept(1,3)] kept
      put_slot_nth(3) [OF wf i kept(1)]
    show ?thesis by auto
  next
    case old
    then have "\<forall>k < 128. \<not> slot_holds ?s dev' b' k"
      using sh cache_wf_unique [OF wf a _ i _ old(1)] by auto
    then have "view ?s dev' b' = dsec (bc_hw s) dev' b'" by (simp add: view_uncached)
    moreover have "cached_slot s i" "\<not> bc_dirty s ! i"
      using slot_holds_cached [OF a i old(1)] victim by (auto simp: cached_slot_def)
    then have "bc_array s ! i = dsec (bc_hw s) dev' b'"
      using wf old(1) unfolding cache_wf_def slot_holds_def by blast
    ultimately show ?thesis
      using view_cached [OF wf a i old(1)] old(2) by auto
  next
    case none
    then have "\<forall>k < 128. \<not> slot_holds ?s dev' b' k" using sh by auto
    with none show ?thesis by (auto simp: view_uncached)
  qed
qed

subsection \<open>The replacement scan\<close>

text \<open>What the scan knows after the slots below \<open>i\<close>, when none of them was free.\<close>

definition scan_inv :: "bcache \<Rightarrow> nat \<Rightarrow> scan \<Rightarrow> bool" where
  "scan_inv s i r \<longleftrightarrow>
     free_block_ptr r = None \<and> (\<forall>k < i. bc_map s ! k \<noteq> BLOCK_FREE) \<and>
     (case lowest_clean_block_ptr r of
        None \<Rightarrow> lowest_clean_block r = BLOCK_MAX_LRU
      | Some k \<Rightarrow> k < i \<and> \<not> bc_dirty s ! k \<and> bc_lru s ! k = lowest_clean_block r
          \<and> lowest_clean_block r < BLOCK_MAX_LRU) \<and>
     (case lowest_dirty_block_ptr r of
        None \<Rightarrow> lowest_dirty_block r = BLOCK_MAX_LRU
      | Some k \<Rightarrow> k < i \<and> bc_dirty s ! k \<and> bc_lru s ! k = lowest_dirty_block r
          \<and> lowest_dirty_block r < BLOCK_MAX_LRU) \<and>
     (\<forall>k < i. \<not> bc_dirty s ! k \<longrightarrow> lowest_clean_block r \<le> bc_lru s ! k) \<and>
     (\<forall>k < i. bc_dirty s ! k \<longrightarrow> lowest_dirty_block r \<le> bc_lru s ! k)"

lemma scan_slot_inv:
  assumes "scan_inv s i r" "bc_map s ! i \<noteq> BLOCK_FREE"
  shows "scan_inv s (Suc i) (scan_slot s i r)"
  using assms
  by (auto simp: scan_inv_def scan_slot_def Let_def less_Suc_eq split: option.splits)

lemma block_scan_result:
  "scan_inv s i r \<Longrightarrow> i \<le> BLOCK_ARRAY_SIZE \<Longrightarrow>
     (case free_block_ptr (block_scan s i r) of
        Some k \<Rightarrow> k < BLOCK_ARRAY_SIZE \<and> bc_map s ! k = BLOCK_FREE \<and> (\<forall>j < k. bc_map s ! j \<noteq> BLOCK_FREE)
      | None \<Rightarrow> scan_inv s BLOCK_ARRAY_SIZE (block_scan s i r))"
proof (induction s i r rule: block_scan.induct)
  case (1 s i r)
  show ?case
  proof (cases "i < 128 \<and> bc_map s ! i \<noteq> BLOCK_FREE")
    case True
    then have eq: "block_scan s i r = block_scan s (Suc i) (scan_slot s i r)"
      by (simp add: block_scan.simps [of s i r])
    from "1.IH" scan_slot_inv [OF "1.prems"(1)] True show ?thesis
      unfolding eq by simp
  next
    case False
    show ?thesis
    proof (cases "i < 128")
      case True
      with False have eq: "block_scan s i r = r\<lparr>free_block_ptr := Some i\<rparr>"
        by (simp add: block_scan.simps [of s i r])
      from True False "1.prems" show ?thesis
        unfolding eq by (simp add: scan_inv_def)
    next
      case i: False
      then have eq: "block_scan s i r = r" by (simp add: block_scan.simps [of s i r])
      from i "1.prems" have "scan_inv s 128 r" "free_block_ptr r = None"
        by (simp_all add: scan_inv_def)
      then show ?thesis unfolding eq by simp
    qed
  qed
qed

lemma scan_inv_init: "scan_inv s 0 (scan_init s)"
  by (simp add: scan_inv_def scan_init_def)


subsection \<open>Room in the cache\<close>

text \<open>
  The slots an operation can take without writing anything out: the free slots and
  the clean slots whose use count has not saturated. While one is left, no dirty
  slot is evicted; each operation uses up at most one.
\<close>

definition room :: "bcache \<Rightarrow> nat set" where
  "room s = {i. i < BLOCK_ARRAY_SIZE \<and>
     (bc_map s ! i = BLOCK_FREE \<or> (\<not> bc_dirty s ! i \<and> bc_lru s ! i < BLOCK_MAX_LRU))}"

definition headroom :: "bcache \<Rightarrow> nat \<Rightarrow> bool" where
  "headroom s n \<longleftrightarrow> n \<le> card (room s)"

lemma finite_room [simp]: "finite (room s)"
  by (rule finite_subset [of _ "{..<128}"]) (auto simp: room_def)

lemma room_aux [simp]:
  "room (s\<lparr>bc_curr := c\<rparr>) = room s" "room (s\<lparr>bc_highest := h\<rparr>) = room s"
  "room (s\<lparr>bc_array := a\<rparr>) = room s" "room (s\<lparr>bc_hw := hw\<rparr>) = room s"
  "room (s\<lparr>bc_dev := dv\<rparr>) = room s" "room (curr_wrap s) = room s"
  by (simp_all add: room_def curr_wrap_def)

text \<open>A state that differs from \<open>s\<close> in one slot only, and in the fields common to all.\<close>

definition same_but :: "nat \<Rightarrow> bcache \<Rightarrow> bcache \<Rightarrow> bool" where
  "same_but i s s' \<longleftrightarrow> (\<forall>k < BLOCK_ARRAY_SIZE. k \<noteq> i \<longrightarrow>
     bc_map s' ! k = bc_map s ! k \<and> bc_dirty s' ! k = bc_dirty s ! k \<and> bc_lru s' ! k = bc_lru s ! k)"

lemma headroom_same_but:
  assumes "headroom s (Suc n)" "same_but i s s'"
  shows "headroom s' n"
proof -
  have "room s - {i} \<subseteq> room s'"
    using assms(2) by (auto simp: room_def same_but_def)
  then have "card (room s - {i}) \<le> card (room s')" by (intro card_mono) simp_all
  moreover have "card (room s) \<le> Suc (card (room s - {i}))"
    by (cases "i \<in> room s") (simp_all add: card_Suc_Diff1)
  ultimately show ?thesis using assms(1) by (simp add: headroom_def)
qed

lemma scan_with_room:
  assumes "headroom s (Suc n)"
  shows "(\<exists>i. free_block_ptr (block_scan s 0 (scan_init s)) = Some i \<and> i < BLOCK_ARRAY_SIZE
            \<and> bc_map s ! i = BLOCK_FREE) \<or>
         free_block_ptr (block_scan s 0 (scan_init s)) = None \<and>
           (\<exists>i. lowest_clean_block_ptr (block_scan s 0 (scan_init s)) = Some i
              \<and> i < BLOCK_ARRAY_SIZE \<and> \<not> bc_dirty s ! i)"
proof -
  let ?r = "block_scan s 0 (scan_init s)"
  from assms have "room s \<noteq> {}" by (auto simp: headroom_def)
  then obtain k where k: "k < 128" "bc_map s ! k = BLOCK_FREE \<or> (\<not> bc_dirty s ! k \<and> bc_lru s ! k < BLOCK_MAX_LRU)"
    by (auto simp: room_def)
  show ?thesis
  proof (cases "free_block_ptr ?r")
    case (Some i)
    with block_scan_result [OF scan_inv_init, of s] show ?thesis by simp
  next
    case None
    with block_scan_result [OF scan_inv_init, of s] have inv: "scan_inv s 128 ?r" by simp
    with k have "\<not> bc_dirty s ! k" "bc_lru s ! k < BLOCK_MAX_LRU" by (auto simp: scan_inv_def)
    with inv k have "lowest_clean_block ?r < BLOCK_MAX_LRU"
      unfolding scan_inv_def by (meson le_less_trans)
    with inv None show ?thesis
      by (auto simp: scan_inv_def split: option.splits)
  qed
qed

section \<open>Reading and writing through the cache\<close>

lemma dev_scan_ok [simp]: "dev_scan d dev b = DEV_OK"
  by (simp add: dev_scan_def)

text \<open>Both kinds of miss that do not evict a dirty slot come down to \<open>put_slot\<close>.\<close>

lemma block_read_clean_put:
  assumes "cache_wf s" "i < BLOCK_ARRAY_SIZE"
  shows "block_read_clean s i dev b buf = Some (BLOCK_OK, dsec (bc_hw s) dev b,
    (lru_top (put_slot s i dev b (dsec (bc_hw s) dev b) False) i)\<lparr>bc_curr := i\<rparr>)"
  using assms cache_wf_lengths [OF assms(1)]
  by (simp add: block_read_clean_def dev_read_ok put_slot_def lru_top_def)

lemma block_read_free_put:
  assumes "cache_wf s" "i < BLOCK_ARRAY_SIZE"
  shows "block_read_free s i dev b buf = Some (BLOCK_OK, dsec (bc_hw s) dev b,
    (lru_top (put_slot s i dev b (dsec (bc_hw s) dev b) False) i)\<lparr>bc_curr := i\<rparr>)"
  using assms cache_wf_lengths [OF assms(1)]
  by (simp add: block_read_free_def dev_read_ok put_slot_def lru_top_def)

lemma block_fill_put:
  "block_fill s i dev b data = (lru_top (put_slot s i dev b data True) i)\<lparr>bc_curr := i\<rparr>"
  by (simp add: block_fill_def put_slot_def lru_top_def)

lemma same_but_put [simp]:
  assumes "cache_wf s" "i < BLOCK_ARRAY_SIZE"
  shows "same_but i s (lru_top (put_slot s i dev b data d) i)"
  using assms cache_wf_lengths [OF assms(1)]
  by (auto simp: same_but_def lru_top_def put_slot_def nth_list_update)

lemma same_but_aux [simp]:
  "same_but i (s\<lparr>bc_highest := h\<rparr>) s' = same_but i s s'"
  "same_but i s (s'\<lparr>bc_curr := c\<rparr>) = same_but i s s'"
  "same_but i (curr_wrap s) s' = same_but i s s'"
  by (simp_all add: same_but_def)

lemma same_but_lru_inc: "cache_wf s \<Longrightarrow> i < BLOCK_ARRAY_SIZE \<Longrightarrow> same_but i s (lru_inc s i)"
  by (auto simp: same_but_def lru_inc_def nth_list_update cache_wf_lengths)

lemma headroom_aux [simp]:
  "headroom (s\<lparr>bc_highest := h\<rparr>) n = headroom s n" "headroom (curr_wrap s) n = headroom s n"
  by (simp_all add: headroom_def)

lemma room_Suc_mono: "headroom s (Suc n) \<Longrightarrow> headroom s n"
  by (simp add: headroom_def)

text \<open>The state an operation on an uncached block starts replacing from.\<close>

definition miss_state :: "bcache \<Rightarrow> bcache" where
  "miss_state s = (curr_wrap s)\<lparr>bc_highest := scan_highest (block_scan (curr_wrap s) 0 (scan_init (curr_wrap s)))\<rparr>"

lemma miss_state_simps [simp]:
  "cache_wf (miss_state s) = cache_wf s" "view (miss_state s) = view s"
  "slot_holds (miss_state s) = slot_holds s" "bc_hw (miss_state s) = bc_hw s"
  "bc_map (miss_state s) = bc_map s" "bc_dirty (miss_state s) = bc_dirty s"
  "bc_dev (miss_state s) = bc_dev s" "bc_array (miss_state s) = bc_array s"
  "headroom (miss_state s) n = headroom s n" "same_but i (miss_state s) s' = same_but i s s'"
  by (simp_all add: miss_state_def)

text \<open>With room left, a miss takes a slot that is free or clean.\<close>

lemma block_read_miss:
  assumes "cache_wf s" "headroom s (Suc n)" "0 \<le> dev" "block_lookup (curr_wrap s) dev b = None"
  obtains i where "i < BLOCK_ARRAY_SIZE" "bc_map s ! i = BLOCK_FREE \<or> \<not> bc_dirty s ! i"
    "block_read s dev b (Some buf) = Some (BLOCK_OK, Some (dsec (bc_hw s) dev b),
      (lru_top (put_slot (miss_state s) i dev b (dsec (bc_hw s) dev b) False) i)\<lparr>bc_curr := i\<rparr>)"
proof -
  have "headroom (curr_wrap s) (Suc n)" using assms by simp
  from scan_with_room [OF this] show ?thesis
  proof (elim disjE exE conjE)
    fix i assume "free_block_ptr (block_scan (curr_wrap s) 0 (scan_init (curr_wrap s))) = Some i"
      "i < 128" "bc_map (curr_wrap s) ! i = BLOCK_FREE"
    then show ?thesis using assms block_read_free_put [of "miss_state s" i dev b buf]
      by (intro that [of i]) (simp_all add: block_read_def Let_def flip: miss_state_def)
  next
    fix i assume "free_block_ptr (block_scan (curr_wrap s) 0 (scan_init (curr_wrap s))) = None"
      "lowest_clean_block_ptr (block_scan (curr_wrap s) 0 (scan_init (curr_wrap s))) = Some i"
      "i < 128" "\<not> bc_dirty (curr_wrap s) ! i"
    then show ?thesis using assms block_read_clean_put [of "miss_state s" i dev b buf]
      by (intro that [of i]) (simp_all add: block_read_def Let_def flip: miss_state_def)
  qed
qed

lemma block_write_miss:
  assumes "cache_wf s" "headroom s (Suc n)" "block_lookup (curr_wrap s) dev b = None"
  obtains i where "i < BLOCK_ARRAY_SIZE" "bc_map s ! i = BLOCK_FREE \<or> \<not> bc_dirty s ! i"
    "block_write s dev b data = Some (BLOCK_OK, block_fill (miss_state s) i dev b data)"
proof -
  have "headroom (curr_wrap s) (Suc n)" using assms by simp
  from scan_with_room [OF this] show ?thesis
  proof (elim disjE exE conjE)
    fix i assume "free_block_ptr (block_scan (curr_wrap s) 0 (scan_init (curr_wrap s))) = Some i"
      "i < 128" "bc_map (curr_wrap s) ! i = BLOCK_FREE"
    then show ?thesis using assms
      by (intro that [of i]) (simp_all add: block_write_def Let_def flip: miss_state_def)
  next
    fix i assume "free_block_ptr (block_scan (curr_wrap s) 0 (scan_init (curr_wrap s))) = None"
      "lowest_clean_block_ptr (block_scan (curr_wrap s) 0 (scan_init (curr_wrap s))) = Some i"
      "i < 128" "\<not> bc_dirty (curr_wrap s) ! i"
    then show ?thesis using assms
      by (intro that [of i]) (simp_all add: block_write_def Let_def flip: miss_state_def)
  qed
qed

lemma lookup_miss:
  "block_lookup (curr_wrap s) dev b = None \<Longrightarrow> \<forall>k < BLOCK_ARRAY_SIZE. \<not> slot_holds s dev b k"
  by (simp add: block_lookup_None)

lemma lookup_hit:
  "block_lookup (curr_wrap s) dev b = Some i \<Longrightarrow> i < BLOCK_ARRAY_SIZE \<and> slot_holds s dev b i"
  using block_lookup_Some [of "curr_wrap s" dev b i] by simp

lemma block_read_correct:
  assumes wf: "cache_wf s" and room: "headroom s (Suc n)" and ok: "addr_ok dev b"
  shows "\<exists>s'. block_read s dev b (Some buf) = Some (BLOCK_OK, Some (view s dev b), s') \<and>
    cache_wf s' \<and> headroom s' n \<and> (\<forall>dev' b'. addr_ok dev' b' \<longrightarrow> view s' dev' b' = view s dev' b')"
proof (cases "block_lookup (curr_wrap s) dev b")
  case (Some i)
  let ?s' = "(lru_inc (curr_wrap s) i)\<lparr>bc_curr := i\<rparr>"
  from lookup_hit [OF Some] have i: "i < 128" "slot_holds s dev b i" by simp_all
  have "block_read s dev b (Some buf) = Some (BLOCK_OK, Some (view s dev b), ?s')"
    using ok Some view_cached [OF wf ok i] by (auto simp: block_read_def Let_def addr_ok_def)
  moreover have "same_but i s ?s'"
    using same_but_lru_inc [of "curr_wrap s" i] wf i by simp
  ultimately show ?thesis
    using wf headroom_same_but [OF room] by simp
next
  case None
  have "0 \<le> dev" using ok by (auto simp: addr_ok_def)
  from block_read_miss [OF wf room this None] obtain i where i: "i < 128"
    "bc_map s ! i = BLOCK_FREE \<or> \<not> bc_dirty s ! i"
    "block_read s dev b (Some buf) = Some (BLOCK_OK, Some (dsec (bc_hw s) dev b),
      (lru_top (put_slot (miss_state s) i dev b (dsec (bc_hw s) dev b) False) i)\<lparr>bc_curr := i\<rparr>)"
    (is "_ = Some (_, _, ?s'\<lparr>bc_curr := i\<rparr>)") by blast
  note new = lookup_miss [OF None] and len = length_dsec [OF cache_wf_lengths(6) [OF wf]]
  have v: "view s dev b = dsec (bc_hw s) dev b" using new by (rule view_uncached)
  have "cache_wf (put_slot (miss_state s) i dev b (dsec (bc_hw s) dev b) False)"
    using wf i new ok len by (intro put_slot_wf) simp_all
  moreover have "view (put_slot (miss_state s) i dev b (dsec (bc_hw s) dev b) False) dev' b' = view s dev' b'"
    if "addr_ok dev' b'" for dev' b'
    using wf i new ok len that v by (subst put_slot_view) simp_all
  moreover have "same_but i s ?s'"
    using same_but_put [of "miss_state s" i] wf i by simp
  ultimately show ?thesis
    using i(3) v headroom_same_but [OF room] by simp
qed

text \<open>Overwriting the slot that holds the block.\<close>

lemma dirty_slot:
  assumes wf: "cache_wf s" and i: "i < BLOCK_ARRAY_SIZE" "slot_holds s dev b i"
    and ok: "addr_ok dev b" "length data = DEV_BLOCK_SIZE"
  defines "s' \<equiv> s\<lparr>bc_array := (bc_array s)[i := data], bc_dirty := (bc_dirty s)[i := True]\<rparr>"
  shows "cache_wf s'"
    and "addr_ok dev' b' \<Longrightarrow> view s' dev' b' = (if dev' = dev \<and> b' = b then data else view s dev' b')"
proof -
  note len = cache_wf_lengths [OF wf]
  have nth: "bc_array s' ! k = (if k = i then data else bc_array s ! k)"
      "bc_dirty s' ! k = (if k = i then True else bc_dirty s ! k)" if "k < 128" for k
    using that i len by (simp_all add: s'_def nth_list_update)
  have same: "bc_map s' = bc_map s" "bc_dev s' = bc_dev s" "bc_hw s' = bc_hw s" "bc_lru s' = bc_lru s"
      "cached_slot s' = cached_slot s" "slot_holds s' = slot_holds s"
    by (simp_all add: s'_def cached_slot_def fun_eq_iff)
  have "cached_slot s i" using slot_holds_cached ok(1) i by blast
  then have free: "bc_map s ! i \<noteq> BLOCK_FREE" by (simp add: cached_slot_def)
  have clean: "bc_array s' ! k = dsec (bc_hw s) (bc_dev s ! k) (bc_map s ! k)"
    if "cached_slot s k" "\<not> bc_dirty s' ! k" for k
  proof -
    have "k < 128" using that(1) by (simp add: cached_slot_def)
    with that wf show ?thesis unfolding cache_wf_def by (auto simp: nth split: if_splits)
  qed
  have lens: "length (bc_array s') = 128" "length (bc_dirty s') = 128"
    using len by (simp_all add: s'_def)
  show wf': "cache_wf s'"
    using wf lens ok(2) free clean nth unfolding cache_wf_def same by auto
  assume a: "addr_ok dev' b'"
  show "view s' dev' b' = (if dev' = dev \<and> b' = b then data else view s dev' b')"
  proof (cases "\<exists>k < 128. slot_holds s dev' b' k")
    case True
    then obtain k where k: "k < 128" "slot_holds s dev' b' k" by blast
    have "k = i \<longleftrightarrow> dev' = dev \<and> b' = b"
      using cache_wf_unique [OF wf a k(1) i(1) k(2)] i(2) k(2) by (auto simp: slot_holds_def)
    with view_cached [OF wf' a k(1)] view_cached [OF wf a k] k nth show ?thesis by (simp add: same)
  next
    case False
    then have "\<not> (dev' = dev \<and> b' = b)" using i by auto
    with False view_uncached [of s dev' b'] view_uncached [of s' dev' b'] show ?thesis
      by (auto simp: same)
  qed
qed

lemma block_write_correct:
  assumes wf: "cache_wf s" and room: "headroom s (Suc n)" and ok: "addr_ok dev b"
    and len: "length data = DEV_BLOCK_SIZE"
  shows "\<exists>s'. block_write s dev b data = Some (BLOCK_OK, s') \<and>
    cache_wf s' \<and> headroom s' n \<and> (\<forall>dev' b'. addr_ok dev' b' \<longrightarrow>
      view s' dev' b' = (if dev' = dev \<and> b' = b then data else view s dev' b'))"
proof (cases "block_lookup (curr_wrap s) dev b")
  case (Some i)
  let ?t = "(curr_wrap s)\<lparr>bc_array := (bc_array s)[i := data], bc_dirty := (bc_dirty s)[i := True]\<rparr>"
  let ?s' = "(lru_inc ?t i)\<lparr>bc_curr := i\<rparr>"
  from lookup_hit [OF Some] have i: "i < 128" "slot_holds s dev b i" by simp_all
  note t = dirty_slot [of "curr_wrap s" i dev b data, simplified, OF wf i ok len]
  have "block_write s dev b data = Some (BLOCK_OK, ?s')"
    using Some by (simp add: block_write_def Let_def lru_inc_def)
  moreover have "same_but i s ?s'"
    using same_but_lru_inc [OF t(1) i(1)] cache_wf_lengths [OF wf]
    by (auto simp: same_but_def nth_list_update)
  ultimately show ?thesis
    using t headroom_same_but [OF room] by simp
next
  case None
  from block_write_miss [OF wf room None] obtain i where i: "i < 128"
    "bc_map s ! i = BLOCK_FREE \<or> \<not> bc_dirty s ! i"
    "block_write s dev b data = Some (BLOCK_OK, block_fill (miss_state s) i dev b data)" by blast
  note new = lookup_miss [OF None]
  have "cache_wf (put_slot (miss_state s) i dev b data True)"
    using wf i new ok len by (intro put_slot_wf) simp_all
  moreover have "view (put_slot (miss_state s) i dev b data True) dev' b' =
      (if dev' = dev \<and> b' = b then data else view s dev' b')" if "addr_ok dev' b'" for dev' b'
    using wf i new ok len that by (subst put_slot_view) simp_all
  moreover have "same_but i s (lru_top (put_slot (miss_state s) i dev b data True) i)"
    using same_but_put [of "miss_state s" i] wf i by simp
  ultimately show ?thesis
    using i(3) headroom_same_but [OF room] by (simp add: block_fill_put)
qed

section \<open>The cache as a sector store\<close>

type_synonym block_addr = "int \<times> u32"

fun cache_rd :: "bcache \<Rightarrow> block_addr \<Rightarrow> (bytes \<times> bcache) option" where
  "cache_rd s (dev, b) =
     (case block_read s dev b (Some (zeros DEV_BLOCK_SIZE)) of
        Some (BLOCK_OK, Some data, s') \<Rightarrow> Some (data, s')
      | _ \<Rightarrow> None)"

fun cache_wr :: "bcache \<Rightarrow> block_addr \<Rightarrow> bytes \<Rightarrow> bcache option" where
  "cache_wr s (dev, b) data =
     (case block_write s dev b data of Some (BLOCK_OK, s') \<Rightarrow> Some s' | _ \<Rightarrow> None)"

definition cache_inv :: "bcache \<Rightarrow> nat \<Rightarrow> bool" where
  "cache_inv s n \<longleftrightarrow> cache_wf s \<and> headroom s n"

interpretation buffer_cache: sector_store cache_rd cache_wr "\<lambda>s (dev, b). view s dev b" cache_inv
  "\<lambda>(dev, b). addr_ok dev b" "\<lambda>data. length data = DEV_BLOCK_SIZE"
proof
  fix s n a assume "cache_inv s (Suc n)" "case a of (dev, b) \<Rightarrow> addr_ok dev b"
  then show "\<exists>s'. cache_rd s a = Some (case a of (dev, b) \<Rightarrow> view s dev b, s') \<and> cache_inv s' n \<and>
      (\<forall>b. (case b of (dev, b) \<Rightarrow> addr_ok dev b) \<longrightarrow>
        (case b of (dev, b) \<Rightarrow> view s' dev b) = (case b of (dev, b) \<Rightarrow> view s dev b))"
    using block_read_correct [of s n "fst a" "snd a" "zeros 512"]
    by (cases a) (auto simp: cache_inv_def)
next
  fix s n a and v :: bytes
  assume "cache_inv s (Suc n)" "case a of (dev, b) \<Rightarrow> addr_ok dev b" "length v = DEV_BLOCK_SIZE"
  then show "\<exists>s'. cache_wr s a v = Some s' \<and> cache_inv s' n \<and>
      (\<forall>b. (case b of (dev, b) \<Rightarrow> addr_ok dev b) \<longrightarrow>
        (case b of (dev, b) \<Rightarrow> view s' dev b) = (if b = a then v else case b of (dev, b) \<Rightarrow> view s dev b))"
    using block_write_correct [of s n "fst a" "snd a" v]
    by (cases a) (auto simp: cache_inv_def)
qed (auto simp: cache_inv_def length_view)

section \<open>Writing through to the drive\<close>

lemma bool_update_same: "xs ! i \<Longrightarrow> xs = xs[i := True]" "\<not> xs ! i \<Longrightarrow> xs = xs[i := False]"
  by (metis list_update_id)+

text \<open>Storing a cached block's own data on the drive keeps the invariant and the view.\<close>

lemma hw_write_cached:
  assumes wf: "cache_wf s" and i: "i < BLOCK_ARRAY_SIZE" "slot_holds s dev b i" and ok: "addr_ok dev b"
    and d': "drive_ok d'"
      "\<And>dev' b'. addr_ok dev' b' \<Longrightarrow>
        dsec d' dev' b' = (if dev' = dev \<and> b' = b then bc_array s ! i else dsec (bc_hw s) dev' b')"
  shows "cache_wf (s\<lparr>bc_hw := d'\<rparr>)"
    and "addr_ok dev' b' \<Longrightarrow> view (s\<lparr>bc_hw := d'\<rparr>) dev' b' = view s dev' b'"
proof -
  let ?s = "s\<lparr>bc_hw := d'\<rparr>"
  have cs: "cached_slot ?s = cached_slot s" by (simp add: cached_slot_def fun_eq_iff)
  have "bc_array s ! k = dsec d' (bc_dev s ! k) (bc_map s ! k)" if k: "cached_slot s k" "\<not> bc_dirty s ! k" for k
  proof (cases "k = i")
    case True
    with d'(2) [OF ok] i(2) show ?thesis by (simp add: slot_holds_def)
  next
    case False
    have "k < 128" "addr_ok (bc_dev s ! k) (bc_map s ! k)"
      using k(1) wf by (auto simp: cached_slot_def cache_wf_def)
    moreover from this have "\<not> (bc_dev s ! k = dev \<and> bc_map s ! k = b)"
      using False cache_wf_unique [OF wf ok _ i(1) _ i(2)] by (auto simp: slot_holds_def)
    ultimately show ?thesis using k wf d'(2) by (auto simp: cache_wf_def)
  qed
  then show wf': "cache_wf ?s"
    using wf d'(1) unfolding cache_wf_def cs by simp
  assume a: "addr_ok dev' b'"
  show "view ?s dev' b' = view s dev' b'"
  proof (cases "\<exists>k < 128. slot_holds s dev' b' k")
    case True
    then obtain k where "k < 128" "slot_holds s dev' b' k" by blast
    then show ?thesis using view_cached [OF wf a] view_cached [OF wf' a] by simp
  next
    case False
    moreover from False i have "\<not> (dev' = dev \<and> b' = b)" by auto
    ultimately show ?thesis using view_uncached [of s dev' b'] view_uncached [of ?s dev' b'] d'(2) [OF a]
      by auto
  qed
qed

lemma hw_write_uncached:
  assumes wf: "cache_wf s" and new: "\<forall>k < BLOCK_ARRAY_SIZE. \<not> slot_holds s dev b k"
    and d': "drive_ok d'"
      "\<And>dev' b'. addr_ok dev' b' \<Longrightarrow>
        dsec d' dev' b' = (if dev' = dev \<and> b' = b then data else dsec (bc_hw s) dev' b')"
  shows "cache_wf (s\<lparr>bc_hw := d'\<rparr>)"
    and "addr_ok dev' b' \<Longrightarrow>
      view (s\<lparr>bc_hw := d'\<rparr>) dev' b' = (if dev' = dev \<and> b' = b then data else view s dev' b')"
proof -
  let ?s = "s\<lparr>bc_hw := d'\<rparr>"
  have cs: "cached_slot ?s = cached_slot s" by (simp add: cached_slot_def fun_eq_iff)
  have "bc_array s ! k = dsec d' (bc_dev s ! k) (bc_map s ! k)" if k: "cached_slot s k" "\<not> bc_dirty s ! k" for k
  proof -
    have "k < 128" "addr_ok (bc_dev s ! k) (bc_map s ! k)"
      using k(1) wf by (auto simp: cached_slot_def cache_wf_def)
    moreover from this new have "\<not> (bc_dev s ! k = dev \<and> bc_map s ! k = b)"
      by (auto simp: slot_holds_def)
    ultimately show ?thesis using k wf d'(2) by (auto simp: cache_wf_def)
  qed
  then show wf': "cache_wf ?s"
    using wf d'(1) unfolding cache_wf_def cs by simp
  assume a: "addr_ok dev' b'"
  show "view ?s dev' b' = (if dev' = dev \<and> b' = b then data else view s dev' b')"
  proof (cases "\<exists>k < 128. slot_holds s dev' b' k")
    case True
    then obtain k where k: "k < 128" "slot_holds s dev' b' k" by blast
    with new have "\<not> (dev' = dev \<and> b' = b)" by auto
    with k show ?thesis using view_cached [OF wf a] view_cached [OF wf' a] by auto
  next
    case False
    then show ?thesis using view_uncached [of s dev' b'] view_uncached [of ?s dev' b'] d'(2) [OF a]
      by auto
  qed
qed

text \<open>A slot whose data is on the drive may be marked clean.\<close>

lemma mark_clean_wf:
  assumes wf: "cache_wf s" and "i < BLOCK_ARRAY_SIZE"
    and "bc_array s ! i = dsec (bc_hw s) (bc_dev s ! i) (bc_map s ! i)"
  shows "cache_wf (s\<lparr>bc_dirty := (bc_dirty s)[i := False]\<rparr>)"
proof -
  have cs: "cached_slot (s\<lparr>bc_dirty := (bc_dirty s)[i := False]\<rparr>) = cached_slot s"
    by (simp add: cached_slot_def fun_eq_iff)
  show ?thesis
    using assms cache_wf_lengths(1) [OF wf] unfolding cache_wf_def cs
    by (auto simp: nth_list_update cached_slot_def)
qed

lemma block_disk_write_cached:
  assumes wf: "cache_wf s" and i: "i < BLOCK_ARRAY_SIZE" "slot_holds s dev b i" and ok: "addr_ok dev b"
  obtains d' where "block_disk_write s dev b (bc_array s ! i) = Some (BLOCK_OK, (curr_wrap s)\<lparr>bc_hw := d'\<rparr>)"
    "drive_ok d'" "\<And>dev' b'. addr_ok dev' b' \<Longrightarrow>
      dsec d' dev' b' = (if dev' = dev \<and> b' = b then bc_array s ! i else dsec (bc_hw s) dev' b')"
proof -
  obtain d' where d': "dev_write (bc_hw s) dev b (bc_array s ! i) = Some (DEV_OK, d')" "drive_ok d'"
    "\<And>dev' b'. addr_ok dev' b' \<Longrightarrow>
      dsec d' dev' b' = (if dev' = dev \<and> b' = b then bc_array s ! i else dsec (bc_hw s) dev' b')"
    using dev_write_ok [OF cache_wf_lengths(6) [OF wf] cache_wf_lengths(7) [OF wf i(1)] ok] by metis
  have "block_lookup (curr_wrap s) dev b \<noteq> None" using i by (auto simp: block_lookup_None)
  then obtain j where j: "block_lookup (curr_wrap s) dev b = Some j" by blast
  with lookup_hit [OF j] i cache_wf_unique [OF wf ok] have "j = i" by blast
  with j d'(1) have "block_disk_write s dev b (bc_array s ! i) = Some (BLOCK_OK, (curr_wrap s)\<lparr>bc_hw := d'\<rparr>)"
    by (simp add: block_disk_write_def Let_def)
  with d' that show thesis by blast
qed

subsection \<open>block\_disk\_write\<close>

lemma block_disk_write_correct:
  assumes wf: "cache_wf s" and ok: "addr_ok dev b" and len: "length data = DEV_BLOCK_SIZE"
  shows "\<exists>s'. block_disk_write s dev b data = Some (BLOCK_OK, s') \<and> cache_wf s' \<and>
    dsec (bc_hw s') dev b = data \<and>
    (\<forall>dev' b'. addr_ok dev' b' \<longrightarrow> view s' dev' b' = (if dev' = dev \<and> b' = b then data else view s dev' b'))"
proof -
  obtain d' where d': "dev_write (bc_hw s) dev b data = Some (DEV_OK, d')" "drive_ok d'"
    "\<And>dev' b'. addr_ok dev' b' \<Longrightarrow>
      dsec d' dev' b' = (if dev' = dev \<and> b' = b then data else dsec (bc_hw s) dev' b')"
    using dev_write_ok [OF cache_wf_lengths(6) [OF wf] len ok] by metis
  show ?thesis
  proof (cases "block_lookup (curr_wrap s) dev b")
    case None
    then have "block_disk_write s dev b data = Some (BLOCK_OK, (curr_wrap s)\<lparr>bc_hw := d'\<rparr>)"
      using d'(1) by (simp add: block_disk_write_def Let_def)
    with hw_write_uncached [of "curr_wrap s" dev b d' data] lookup_miss [OF None] d' wf ok
    show ?thesis by simp
  next
    case (Some i)
    from lookup_hit [OF Some] have i: "i < 128" "slot_holds s dev b i" by simp_all
    let ?t = "(curr_wrap s)\<lparr>bc_array := (bc_array s)[i := data]\<rparr>"
    have upd: "bc_array s ! i = data \<Longrightarrow> curr_wrap s = ?t"
      by (auto simp: curr_wrap_def)
    have run: "block_disk_write s dev b data = Some (BLOCK_OK, ?t\<lparr>bc_hw := d'\<rparr>)"
      using d'(1) Some i cache_wf_lengths(4) [OF wf]
      by (cases "bc_array s ! i = data") (simp_all add: block_disk_write_def Let_def flip: upd)
    define u where "u = (curr_wrap s)\<lparr>bc_array := (bc_array s)[i := data], bc_dirty := (bc_dirty s)[i := True]\<rparr>"
    note dirty = dirty_slot [of "curr_wrap s" i dev b data, unfolded curr_wrap_simps, OF wf i ok len, folded u_def]
    have u: "slot_holds u = slot_holds s" "bc_array u ! i = data" "bc_hw u = bc_hw s"
      using i cache_wf_lengths(4) [OF wf] by (simp_all add: u_def)
    note hw = hw_write_cached [of u i dev b d', unfolded u, OF dirty(1) i ok d'(2,3)]
    have v: "view (?t\<lparr>bc_hw := d'\<rparr>) = view (u\<lparr>bc_hw := d'\<rparr>)"
      by (simp add: u_def view_def slot_holds_def fun_eq_iff split: option.split)
    have "?t\<lparr>bc_hw := d'\<rparr> = (if bc_dirty s ! i then u\<lparr>bc_hw := d'\<rparr>
        else (u\<lparr>bc_hw := d'\<rparr>)\<lparr>bc_dirty := (bc_dirty (u\<lparr>bc_hw := d'\<rparr>))[i := False]\<rparr>)"
      using bool_update_same [of "bc_dirty s" i] by (intro bcache.equality) (auto simp: u_def)
    moreover have "cache_wf ((u\<lparr>bc_hw := d'\<rparr>)\<lparr>bc_dirty := (bc_dirty (u\<lparr>bc_hw := d'\<rparr>))[i := False]\<rparr>)"
      using mark_clean_wf [OF hw(1) i(1)] d'(3) [OF ok] i u(2) by (simp add: u_def slot_holds_def)
    ultimately have "cache_wf (?t\<lparr>bc_hw := d'\<rparr>)" using hw(1) by (simp split: if_splits)
    with run d'(3) [OF ok] hw(2) dirty(2) v show ?thesis by simp
  qed
qed

subsection \<open>block\_sync\<close>

text \<open>
  Invariant of the loop of \<open>block_sync\<close>: the view is the one at the start, the slots
  already passed hold no dirty block of the device, and what lies in the map and
  device arrays is untouched.
\<close>

definition sync_inv :: "bcache \<Rightarrow> int \<Rightarrow> nat \<Rightarrow> bcache \<Rightarrow> bool" where
  "sync_inv s0 dev i s \<longleftrightarrow> cache_wf s \<and> bc_map s = bc_map s0 \<and> bc_dev s = bc_dev s0 \<and>
     (\<forall>dev' b'. addr_ok dev' b' \<longrightarrow> view s dev' b' = view s0 dev' b') \<and>
     (\<forall>k < i. bc_dev s ! k = dev \<longrightarrow> \<not> bc_dirty s ! k)"

lemma sync_slot:
  assumes inv: "sync_inv s0 dev i s" and i: "i < BLOCK_ARRAY_SIZE" "bc_dirty s ! i" "bc_dev s ! i = dev"
  obtains s1 where "block_disk_write s dev (bc_map s ! i) (bc_array s ! i) = Some (BLOCK_OK, s1)"
    "sync_inv s0 dev (Suc i) (lru_inc (s1\<lparr>bc_dirty := (bc_dirty s1)[i := False]\<rparr>) i)"
proof -
  have wf: "cache_wf s" using inv by (simp add: sync_inv_def)
  then have cs: "cached_slot s i" using i unfolding cache_wf_def by (auto simp: cached_slot_def)
  with wf i have ok: "addr_ok dev (bc_map s ! i)" by (auto simp: cache_wf_def)
  have sh: "slot_holds s dev (bc_map s ! i) i" using i by (simp add: slot_holds_def)
  obtain d' where d': "block_disk_write s dev (bc_map s ! i) (bc_array s ! i) = Some (BLOCK_OK, (curr_wrap s)\<lparr>bc_hw := d'\<rparr>)"
    "drive_ok d'" "\<And>dev' b'. addr_ok dev' b' \<Longrightarrow>
      dsec d' dev' b' = (if dev' = dev \<and> b' = bc_map s ! i then bc_array s ! i else dsec (bc_hw s) dev' b')"
    using block_disk_write_cached [OF wf i(1) sh ok] by metis
  let ?s1 = "(curr_wrap s)\<lparr>bc_hw := d'\<rparr>"
  let ?s2 = "?s1\<lparr>bc_dirty := (bc_dirty ?s1)[i := False]\<rparr>"
  note hw = hw_write_cached [of "curr_wrap s" i dev "bc_map s ! i" d', unfolded curr_wrap_simps, OF wf i(1) sh ok d'(2,3)]
  have "cache_wf ?s2" using mark_clean_wf [OF hw(1) i(1)] d'(3) [OF ok] i by simp
  moreover have "view ?s2 dev' b' = view s dev' b'" if "addr_ok dev' b'" for dev' b'
    using hw(2) that by simp
  ultimately have "sync_inv s0 dev (Suc i) (lru_inc ?s2 i)"
    using inv i(1) cache_wf_lengths(1) [OF wf] by (auto simp: sync_inv_def less_Suc_eq nth_list_update)
  with d'(1) that show thesis by blast
qed

lemma sync_from_inv:
  "sync_inv s0 dev i s \<Longrightarrow> i \<le> BLOCK_ARRAY_SIZE \<Longrightarrow>
     \<exists>s'. sync_from s dev i rtvl = Some (rtvl, s') \<and> sync_inv s0 dev BLOCK_ARRAY_SIZE s'"
proof (induction s dev i rtvl rule: sync_from.induct)
  case (1 s dev i rtvl)
  consider (flush) "i < 128" "bc_dirty s ! i" "bc_dev s ! i = dev"
    | (skip) "i < 128" "\<not> (bc_dirty s ! i \<and> bc_dev s ! i = dev)" | (stop) "i = 128"
    using 1(5) by fastforce
  then show ?case
  proof cases
    case flush
    from sync_slot [OF 1(4) flush] obtain s1 where s1:
      "block_disk_write s dev (bc_map s ! i) (bc_array s ! i) = Some (BLOCK_OK, s1)"
      "sync_inv s0 dev (Suc i) (lru_inc (s1\<lparr>bc_dirty := (bc_dirty s1)[i := False]\<rparr>) i)" by blast
    from 1(2) [OF flush(1) _ s1(1) refl] s1 flush show ?thesis
      by (simp add: sync_from.simps [of s])
  next
    case skip
    have "sync_inv s0 dev (Suc i) s" using 1(4) skip by (auto simp: sync_inv_def less_Suc_eq)
    with 1(3) [OF skip] skip show ?thesis by (subst sync_from.simps) auto
  next
    case stop
    with 1(4) show ?thesis by (simp add: sync_from.simps [of s])
  qed
qed

lemma block_sync_inv:
  assumes "cache_wf s"
  obtains s' where "block_sync s dev = Some (BLOCK_OK, s')" "sync_inv s dev BLOCK_ARRAY_SIZE s'"
  using sync_from_inv [of s dev 0 s BLOCK_OK] assms by (auto simp: block_sync_def sync_inv_def)

text \<open>A block with no dirty slot is on the drive as the cache shows it.\<close>

lemma clean_on_drive:
  assumes wf: "cache_wf s" and ok: "addr_ok dev b"
    and clean: "\<forall>k < BLOCK_ARRAY_SIZE. bc_dev s ! k = dev \<longrightarrow> \<not> bc_dirty s ! k"
  shows "dsec (bc_hw s) dev b = view s dev b"
proof (cases "\<exists>k < 128. slot_holds s dev b k")
  case True
  then obtain k where k: "k < 128" "slot_holds s dev b k" by blast
  moreover have "cached_slot s k" using slot_holds_cached [OF ok] k by blast
  ultimately have "bc_array s ! k = dsec (bc_hw s) dev b"
    using wf clean unfolding cache_wf_def slot_holds_def by metis
  with view_cached [OF wf ok k] show ?thesis by simp
qed (simp add: view_uncached)

lemma block_sync_correct:
  assumes "cache_wf s"
  shows "\<exists>s'. block_sync s dev = Some (BLOCK_OK, s') \<and> cache_wf s' \<and>
    (\<forall>dev' b'. addr_ok dev' b' \<longrightarrow> view s' dev' b' = view s dev' b') \<and>
    (\<forall>b. addr_ok dev b \<longrightarrow> dsec (bc_hw s') dev b = view s dev b)"
proof -
  obtain s' where s': "block_sync s dev = Some (BLOCK_OK, s')" "sync_inv s dev BLOCK_ARRAY_SIZE s'"
    using block_sync_inv [OF assms] by blast
  then show ?thesis using clean_on_drive [of s' dev] by (auto simp: sync_inv_def)
qed

section \<open>The remaining operations\<close>

lemma block_disk_write_sync_correct:
  assumes wf: "cache_wf s" and room: "headroom s (Suc n)" and ok: "addr_ok dev b"
    and len: "length data = DEV_BLOCK_SIZE"
  shows "\<exists>s'. block_disk_write_sync_cache s dev b data = Some (BLOCK_OK, data, s') \<and> cache_wf s' \<and>
    (\<forall>dev' b'. addr_ok dev' b' \<longrightarrow> view s' dev' b' = (if dev' = dev \<and> b' = b then data else view s dev' b'))"
proof -
  obtain s1 where s1: "block_disk_write s dev b data = Some (BLOCK_OK, s1)" "cache_wf s1"
    "\<forall>dev' b'. addr_ok dev' b' \<longrightarrow> view s1 dev' b' = (if dev' = dev \<and> b' = b then data else view s dev' b')"
    using block_disk_write_correct [OF wf ok len] by blast
  show ?thesis
  proof (cases "block_lookup (curr_wrap s) dev b")
    case (Some i)
    with s1 show ?thesis by (simp add: block_disk_write_sync_cache_def Let_def)
  next
    case None
    then obtain d' where "s1 = (curr_wrap s)\<lparr>bc_hw := d'\<rparr>"
      using s1(1) by (auto simp: block_disk_write_def Let_def split: bind_splits)
    then have "headroom s1 (Suc n)" using room by (simp add: headroom_def)
    from block_read_correct [OF s1(2) this ok, of data] s1 None ok show ?thesis
      by (auto simp: block_disk_write_sync_cache_def Let_def)
  qed
qed

text \<open>Dropping a clean slot, as \<open>block_free\<close> does, leaves the drive to answer for the block.\<close>

definition drop_slot :: "bcache \<Rightarrow> nat \<Rightarrow> bcache" where
  "drop_slot s i = s\<lparr>bc_map := (bc_map s)[i := BLOCK_FREE], bc_dev := (bc_dev s)[i := DEV_NODEV],
     bc_dirty := (bc_dirty s)[i := False]\<rparr>"

lemma drop_slot_nth:
  assumes "cache_wf s" "i < BLOCK_ARRAY_SIZE" "k < BLOCK_ARRAY_SIZE"
  shows "bc_map (drop_slot s i) ! k = (if k = i then BLOCK_FREE else bc_map s ! k)"
    "bc_dev (drop_slot s i) ! k = (if k = i then DEV_NODEV else bc_dev s ! k)"
    "bc_dirty (drop_slot s i) ! k = (if k = i then False else bc_dirty s ! k)"
    "bc_array (drop_slot s i) = bc_array s" "bc_hw (drop_slot s i) = bc_hw s"
  using assms cache_wf_lengths [OF assms(1)] by (auto simp: drop_slot_def nth_list_update)

lemma drop_slot_cached:
  assumes "cache_wf s" "i < BLOCK_ARRAY_SIZE"
  shows "cached_slot (drop_slot s i) k \<longleftrightarrow> cached_slot s k \<and> k \<noteq> i"
  using drop_slot_nth(1) [OF assms, of k] by (auto simp: cached_slot_def split: if_splits)

lemma drop_slot_wf:
  assumes wf: "cache_wf s" and i: "i < BLOCK_ARRAY_SIZE"
  shows "cache_wf (drop_slot s i)"
proof -
  have nth: "bc_map (drop_slot s i) ! k = bc_map s ! k" "bc_dev (drop_slot s i) ! k = bc_dev s ! k"
    "bc_dirty (drop_slot s i) ! k = bc_dirty s ! k" if "cached_slot s k" "k \<noteq> i" for k
    using that drop_slot_nth [OF wf i] by (auto simp: cached_slot_def)
  have "length (bc_map (drop_slot s i)) = 128" "length (bc_dev (drop_slot s i)) = 128"
    "length (bc_dirty (drop_slot s i)) = 128" "length (bc_lru (drop_slot s i)) = 128"
    using cache_wf_lengths [OF wf] by (simp_all add: drop_slot_def)
  moreover have "\<forall>k < 128. bc_map (drop_slot s i) ! k = BLOCK_FREE \<longrightarrow> \<not> bc_dirty (drop_slot s i) ! k"
    using wf drop_slot_nth [OF wf i] by (auto simp: cache_wf_def)
  ultimately show ?thesis
    using wf nth unfolding cache_wf_def drop_slot_cached [OF wf i] drop_slot_nth(4,5) [OF wf i i] by auto
qed

lemma drop_slot_view:
  assumes wf: "cache_wf s" and i: "i < BLOCK_ARRAY_SIZE" and ok: "addr_ok dev b"
    and held: "bc_array s ! i = dsec (bc_hw s) (bc_dev s ! i) (bc_map s ! i)"
  shows "view (drop_slot s i) dev b = view s dev b"
proof -
  have sh: "slot_holds (drop_slot s i) dev b k \<longleftrightarrow> slot_holds s dev b k \<and> k \<noteq> i" if "k < 128" for k
    using drop_slot_nth(1,2) [OF wf i that] addr_ok_not_free [OF ok] by (auto simp: slot_holds_def)
  show ?thesis
  proof (cases "\<exists>k < 128. slot_holds s dev b k")
    case True
    then obtain k where k: "k < 128" "slot_holds s dev b k" by blast
    note old = view_cached [OF wf ok k]
    show ?thesis
    proof (cases "k = i")
      case True
      then have "\<forall>j < 128. \<not> slot_holds (drop_slot s i) dev b j"
        using sh cache_wf_unique [OF wf ok _ k(1) _ k(2)] by auto
      with True old k(2) held show ?thesis
        by (simp add: view_uncached drop_slot_def slot_holds_def)
    next
      case False
      with sh k view_cached [OF drop_slot_wf [OF wf i] ok k(1)] old drop_slot_nth(4) [OF wf i i]
      show ?thesis by simp
    qed
  next
    case False
    with sh show ?thesis by (simp add: view_uncached drop_slot_def)
  qed
qed

lemma block_free_correct:
  assumes wf: "cache_wf s" and ok: "addr_ok dev b"
  shows "\<exists>s'. block_free s dev b = Some (BLOCK_OK, s') \<and> cache_wf s' \<and>
    (\<forall>k < BLOCK_ARRAY_SIZE. \<not> slot_holds s' dev b k) \<and> dsec (bc_hw s') dev b = view s dev b \<and>
    (\<forall>dev' b'. addr_ok dev' b' \<longrightarrow> view s' dev' b' = view s dev' b')"
proof (cases "first_from (slot_holds s dev b) 0 BLOCK_ARRAY_SIZE")
  case None
  then have "\<forall>k < 128. \<not> slot_holds s dev b k" by (simp add: first_from_None_iff)
  with None wf ok view_uncached show ?thesis by (auto simp: block_free_def addr_ok_def)
next
  case (Some i)
  then have i: "i < 128" "slot_holds s dev b i" by (auto dest: first_from_SomeD)
  define out where "out t \<longleftrightarrow> cache_wf t \<and> bc_map t = bc_map s \<and> bc_dev t = bc_dev s \<and>
     bc_array t = bc_array s \<and> dsec (bc_hw t) dev b = bc_array s ! i \<and>
     (\<forall>dev' b'. addr_ok dev' b' \<longrightarrow> view t dev' b' = view s dev' b')" for t
  let ?fin = "\<lambda>t. (drop_slot t i)\<lparr>bc_lru := (bc_lru t)[i := 0], bc_curr := i\<rparr>"
  have "\<exists>t. out t \<and> block_free s dev b = Some (BLOCK_OK, ?fin t)"
  proof (cases "bc_dirty s ! i")
    case True
    obtain d' where d': "dev_write (bc_hw s) dev b (bc_array s ! i) = Some (DEV_OK, d')" "drive_ok d'"
      "\<And>dev' b'. addr_ok dev' b' \<Longrightarrow>
        dsec d' dev' b' = (if dev' = dev \<and> b' = b then bc_array s ! i else dsec (bc_hw s) dev' b')"
      using dev_write_ok [OF cache_wf_lengths(6,7) [OF wf] ok] i by metis
    have "out (s\<lparr>bc_hw := d'\<rparr>)"
      using hw_write_cached [OF wf i ok d'(2,3)] d'(3) [OF ok] by (simp add: out_def)
    with d'(1) Some True ok show ?thesis
      by (intro exI [of _ "s\<lparr>bc_hw := d'\<rparr>"]) (auto simp: block_free_def addr_ok_def drop_slot_def)
  next
    case False
    moreover have "cached_slot s i" using slot_holds_cached [OF ok] i by blast
    ultimately have "out s" using wf i by (auto simp: out_def cache_wf_def slot_holds_def)
    with False Some ok show ?thesis
      by (intro exI [of _ s]) (auto simp: block_free_def addr_ok_def drop_slot_def)
  qed
  then obtain t where t: "out t" "block_free s dev b = Some (BLOCK_OK, ?fin t)" by blast
  then have wft: "cache_wf t" and on: "bc_array t ! i = dsec (bc_hw t) (bc_dev t ! i) (bc_map t ! i)"
    using i by (auto simp: out_def slot_holds_def)
  have "slot_holds t = slot_holds s" using t by (simp add: out_def slot_holds_def fun_eq_iff)
  moreover have "slot_holds (drop_slot t i) dev b k \<longleftrightarrow> slot_holds t dev b k \<and> k \<noteq> i" if "k < 128" for k
    using drop_slot_nth(1,2) [OF wft i(1) that] addr_ok_not_free [OF ok] by (auto simp: slot_holds_def)
  ultimately have gone: "\<not> slot_holds (drop_slot t i) dev b k" if "k < 128" for k
    using that cache_wf_unique [OF wf ok that i(1) _ i(2)] by auto
  have fin: "cache_wf (?fin t)" using drop_slot_wf [OF wft i(1)] cache_wf_lengths(2) [OF wft] by simp
  show ?thesis
    using t fin gone drop_slot_view [OF wft i(1) _ on] view_cached [OF wf ok i]
    by (intro exI [of _ "?fin t"]) (simp add: out_def drop_slot_def)
qed

text \<open>Opening the device the first time, or after \<open>block_reinit\<close>, empties the cache.\<close>

lemma cache_reset_wf:
  assumes "drive_ok (bc_hw s)"
  shows "cache_wf (cache_reset s)" "headroom (cache_reset s) BLOCK_ARRAY_SIZE"
    and "addr_ok dev b \<Longrightarrow> view (cache_reset s) dev b = dsec (bc_hw s) dev b"
proof -
  show "cache_wf (cache_reset s)"
    using assms by (auto simp: cache_wf_def cache_reset_def cached_slot_def)
  have "room (cache_reset s) = {..<128}"
    by (auto simp: room_def cache_reset_def)
  then show "headroom (cache_reset s) BLOCK_ARRAY_SIZE" by (simp add: headroom_def)
  assume "addr_ok dev b"
  then have "\<forall>k < 128. \<not> slot_holds (cache_reset s) dev b k"
    using addr_ok_not_free by (auto simp: slot_holds_def cache_reset_def)
  then show "view (cache_reset s) dev b = dsec (bc_hw s) dev b"
    by (simp add: view_uncached) (simp add: cache_reset_def)
qed

lemma block_open_fresh:
  "\<not> bc_init s \<Longrightarrow> block_open s (Some p) (Some d) =
     (BLOCK_OK, Some (if ata_nr_drives (bc_hw s) > 0 then 0 else d), cache_reset s)"
  by (simp add: block_open_def dev_open_def cache_reset_def)

section \<open>Evicting a dirty slot\<close>

lemma scan_all_dirty:
  assumes "\<forall>k < BLOCK_ARRAY_SIZE. bc_map s ! k \<noteq> BLOCK_FREE \<and> bc_dirty s ! k \<and> bc_lru s ! k < BLOCK_MAX_LRU"
  obtains v where "free_block_ptr (block_scan s 0 (scan_init s)) = None"
    "lowest_clean_block_ptr (block_scan s 0 (scan_init s)) = None"
    "lowest_dirty_block_ptr (block_scan s 0 (scan_init s)) = Some v"
    "v < BLOCK_ARRAY_SIZE" "\<forall>k < BLOCK_ARRAY_SIZE. bc_lru s ! v \<le> bc_lru s ! k"
proof -
  let ?r = "block_scan s 0 (scan_init s)"
  have none: "free_block_ptr ?r = None"
    using block_scan_result [OF scan_inv_init, of s] assms by (auto split: option.splits)
  with block_scan_result [OF scan_inv_init, of s] have inv: "scan_inv s 128 ?r" by simp
  have "lowest_dirty_block ?r \<le> bc_lru s ! 0" using inv assms by (auto simp: scan_inv_def)
  also have "\<dots> < BLOCK_MAX_LRU" using assms by simp
  finally have "lowest_dirty_block_ptr ?r \<noteq> None" using inv by (auto simp: scan_inv_def split: option.splits)
  then obtain v where v: "lowest_dirty_block_ptr ?r = Some v" by blast
  moreover have "lowest_clean_block_ptr ?r = None"
    using inv assms by (auto simp: scan_inv_def split: option.splits)
  ultimately show thesis
    using that [of v] inv none assms by (auto simp: scan_inv_def)
qed

section \<open>Concrete states for the witnesses\<close>

definition blank_drive :: drive where
  "blank_drive = \<lparr>media = (\<lambda>a. zeros DEV_BLOCK_SIZE), media_err = (\<lambda>a. False), cmos_disks = 16\<rparr>"

definition blank_cache :: bcache where
  "blank_cache = \<lparr>bc_init = False, bc_curr = 0, bc_highest = 0, bc_dirty = [], bc_lru = [],
     bc_map = [], bc_array = [], bc_dev = [], bc_hw = blank_drive\<rparr>"

text \<open>A cache in which slot \<open>k\<close> holds a modified block \<open>k\<close> filled with the byte \<open>k\<close>.\<close>

definition full_cache :: bcache where
  "full_cache = (cache_reset blank_cache)\<lparr>
     bc_dirty := replicate BLOCK_ARRAY_SIZE True, bc_lru := replicate BLOCK_ARRAY_SIZE 1,
     bc_map := map word_of_nat [0..<BLOCK_ARRAY_SIZE], bc_dev := replicate BLOCK_ARRAY_SIZE 0,
     bc_array := map (\<lambda>k. replicate DEV_BLOCK_SIZE (word_of_nat k)) [0..<BLOCK_ARRAY_SIZE]\<rparr>"

lemma blank_drive_ok [simp]: "drive_ok blank_drive"
  by (simp add: drive_ok_def blank_drive_def)

lemma blank_cache_simps [simp]:
  "\<not> bc_init blank_cache" "bc_hw blank_cache = blank_drive" "dsec blank_drive dev b = zeros DEV_BLOCK_SIZE"
  by (simp_all add: blank_cache_def dsec_def blank_drive_def)

lemma full_cache_simps:
  "k < BLOCK_ARRAY_SIZE \<Longrightarrow> bc_map full_cache ! k = word_of_nat k"
  "k < BLOCK_ARRAY_SIZE \<Longrightarrow> bc_dev full_cache ! k = 0"
  "k < BLOCK_ARRAY_SIZE \<Longrightarrow> bc_dirty full_cache ! k"
  "k < BLOCK_ARRAY_SIZE \<Longrightarrow> bc_lru full_cache ! k = 1"
  "k < BLOCK_ARRAY_SIZE \<Longrightarrow> bc_array full_cache ! k = replicate DEV_BLOCK_SIZE (word_of_nat k)"
  "bc_hw full_cache = blank_drive"
  by (simp_all add: full_cache_def cache_reset_def)

lemma word_of_nat_small: "k < BLOCK_ARRAY_SIZE \<Longrightarrow> unat (word_of_nat k :: u32) = k"
  by (simp add: unsigned_of_nat take_bit_nat_eq_self)

lemma full_cache_not_free: "k < BLOCK_ARRAY_SIZE \<Longrightarrow> bc_map full_cache ! k \<noteq> BLOCK_FREE"
  using word_of_nat_small [of k] by (auto simp: full_cache_simps dest: arg_cong [where f = unat])

lemma full_cache_lengths:
  "length (bc_dirty full_cache) = BLOCK_ARRAY_SIZE" "length (bc_lru full_cache) = BLOCK_ARRAY_SIZE"
  "length (bc_map full_cache) = BLOCK_ARRAY_SIZE" "length (bc_array full_cache) = BLOCK_ARRAY_SIZE"
  "length (bc_dev full_cache) = BLOCK_ARRAY_SIZE"
  by (simp_all add: full_cache_def)

lemma full_cache_wf: "cache_wf full_cache"
proof -
  have "i = j" if "i < 128" "j < 128" "bc_map full_cache ! i = bc_map full_cache ! j" for i j
    using that by (metis full_cache_simps(1) word_of_nat_small)
  moreover have "addr_ok (bc_dev full_cache ! i) (bc_map full_cache ! i)" if "i < 128" for i
    using that by (simp add: full_cache_simps addr_ok_def word_of_nat_small)
  moreover have "length (bc_array full_cache ! i) = 512" if "i < 128" for i
    using that by (simp add: full_cache_simps)
  ultimately show ?thesis
    unfolding cache_wf_def cached_slot_def full_cache_lengths full_cache_simps(6)
    using full_cache_not_free full_cache_simps(3) blank_drive_ok by blast
qed

section \<open>Properties\<close>

text \<open>
  C21: The buffer cache is transparent. From a well-formed cache, any sequence of reads and
  writes no longer than the number of slots that can be taken without writing a
  dirty block out returns exactly what an array of sectors would return, and ends
  in a well-formed cache that shows the array's final contents.
\<close>

theorem cache_refines_disk:
  assumes "cache_inv s (n + length ops)"
    and "\<forall>x \<in> set ops. op_ok (\<lambda>(dev, b). addr_ok dev b) (\<lambda>data. length data = DEV_BLOCK_SIZE) x"
  shows "\<exists>s'. store_run cache_rd cache_wr s ops = Some (fst (ideal_run (\<lambda>(dev, b). view s dev b) ops), s') \<and>
    cache_inv s' n \<and>
    (\<forall>dev b. addr_ok dev b \<longrightarrow> view s' dev b = snd (ideal_run (\<lambda>(dev, b). view s dev b) ops) (dev, b))"
  using buffer_cache.run_refines [OF assms, of "\<lambda>(dev, b). view s dev b"] by auto

theorem cache_refines_disk_witness:
  "\<exists>s'. store_run cache_rd cache_wr (cache_reset blank_cache)
      [Wr (0, 5) (replicate 512 7), Rd (0, 5), Rd (1, 5)] = Some ([replicate 512 7, zeros 512], s')"
proof -
  have "cache_inv (cache_reset blank_cache)
      (125 + length [Wr (0 :: int, 5 :: u32) (replicate 512 (7 :: u8)), Rd (0, 5), Rd (1, 5)])"
    using cache_reset_wf [of blank_cache] by (simp add: cache_inv_def)
  from cache_refines_disk [OF this] cache_reset_wf(3) [of blank_cache 1 5] show ?thesis
    by (auto simp: addr_ok_def)
qed

text \<open>
  Right after the device is opened for the first time (or again after
  \<open>block_reinit\<close>) any 128 reads and writes behave as on the bare disk, whatever the
  arrays of the cache held before.
\<close>

theorem block_open_then_128:
  assumes "\<not> bc_init s" "drive_ok (bc_hw s)" "length ops \<le> BLOCK_ARRAY_SIZE"
    and "\<forall>x \<in> set ops. op_ok (\<lambda>(dev, b). addr_ok dev b) (\<lambda>data. length data = DEV_BLOCK_SIZE) x"
  shows "\<exists>d' s1 s2. block_open s (Some p) (Some d) = (BLOCK_OK, Some d', s1) \<and>
    store_run cache_rd cache_wr s1 ops = Some (fst (ideal_run (\<lambda>(dev, b). dsec (bc_hw s) dev b) ops), s2)"
proof -
  have "cache_inv (cache_reset s) ((128 - length ops) + length ops)"
    using cache_reset_wf [OF assms(2)] assms(3) by (simp add: cache_inv_def)
  from buffer_cache.run_refines [OF this assms(4), of "\<lambda>(dev, b). dsec (bc_hw s) dev b"]
    cache_reset_wf(3) [OF assms(2)] block_open_fresh [OF assms(1), of p d]
  show ?thesis by auto
qed

theorem block_open_then_128_witness:
  "\<exists>d' s1 s2. block_open blank_cache (Some []) (Some 0) = (BLOCK_OK, Some d', s1) \<and>
    store_run cache_rd cache_wr s1 [Wr (0, 9) (replicate 512 3), Rd (0, 9)] = Some ([replicate 512 3], s2)"
  using block_open_then_128 [of blank_cache "[Wr (0, 9) (replicate 512 3), Rd (0, 9)]" "[]" 0]
  by (auto simp: addr_ok_def)

text \<open>
  C22: \<open>block_sync\<close> makes the device durable: it always returns with \<open>BLOCK_OK\<close> on a
  drive without media errors, changes what no reader sees, and afterwards every
  block of the device is on the drive itself as the cache showed it.
\<close>

theorem block_sync_durable:
  assumes "cache_wf s"
  shows "\<exists>s'. block_sync s dev = Some (BLOCK_OK, s') \<and> cache_wf s' \<and>
    (\<forall>dev' b'. addr_ok dev' b' \<longrightarrow> view s' dev' b' = view s dev' b') \<and>
    (\<forall>b. addr_ok dev b \<longrightarrow> dsec (bc_hw s') dev b = view s dev b)"
  using assms by (rule block_sync_correct)

theorem block_sync_durable_witness:
  "\<exists>s'. block_sync full_cache 0 = Some (BLOCK_OK, s') \<and> dsec (bc_hw s') 0 3 = replicate 512 3"
proof -
  have "view full_cache 0 3 = replicate 512 3"
    using view_cached [OF full_cache_wf, of 0 3 3] by (simp add: addr_ok_def slot_holds_def full_cache_simps)
  with block_sync_durable [OF full_cache_wf, of 0] show ?thesis
    by (auto simp: addr_ok_def)
qed

text \<open>
  C23: A block that was written and synced survives a restart: after \<open>block_write\<close>,
  \<open>block_sync\<close>, \<open>block_reinit\<close> and \<open>block_open\<close>, \<open>block_read\<close> returns the data
  written, and every other block as it was.
\<close>

theorem write_sync_reopen_read:
  assumes "cache_inv s (Suc n)" "addr_ok dev b" "addr_ok dev b'" "length data = DEV_BLOCK_SIZE"
  shows "\<exists>s1 s2 d' s3 s4. block_write s dev b data = Some (BLOCK_OK, s1) \<and>
    block_sync s1 dev = Some (BLOCK_OK, s2) \<and>
    block_open (block_reinit s2) (Some p) (Some d) = (BLOCK_OK, Some d', s3) \<and>
    block_read s3 dev b' (Some buf) =
      Some (BLOCK_OK, Some (if b' = b then data else view s dev b'), s4)"
proof -
  obtain s1 where s1: "block_write s dev b data = Some (BLOCK_OK, s1)" "cache_wf s1"
    "view s1 dev b' = (if b' = b then data else view s dev b')"
    using block_write_correct [of s n dev b data] assms by (auto simp: cache_inv_def)
  obtain s2 where s2: "block_sync s1 dev = Some (BLOCK_OK, s2)" "cache_wf s2"
    "dsec (bc_hw s2) dev b' = view s1 dev b'"
    using block_sync_correct [OF s1(2), of dev] assms(3) by auto
  let ?s3 = "cache_reset (block_reinit s2)"
  have hw: "bc_hw (block_reinit s2) = bc_hw s2" by (simp add: block_reinit_def)
  have "block_open (block_reinit s2) (Some p) (Some d) =
      (BLOCK_OK, Some (if ata_nr_drives (bc_hw s2) > 0 then 0 else d), ?s3)"
    using block_open_fresh [of "block_reinit s2" p d] hw by (simp add: block_reinit_def)
  moreover have "drive_ok (bc_hw (block_reinit s2))" using cache_wf_lengths(6) [OF s2(2)] hw by simp
  note r = cache_reset_wf [OF this]
  have "headroom ?s3 (Suc 127)" using r(2) by simp
  from block_read_correct [OF r(1) this assms(3), of buf] r(3) [OF assms(3)] hw
  have "\<exists>s4. block_read ?s3 dev b' (Some buf) = Some (BLOCK_OK, Some (dsec (bc_hw s2) dev b'), s4)"
    by auto
  ultimately show ?thesis using s1 s2 by fastforce
qed

theorem write_sync_reopen_read_witness:
  "\<exists>s1 s2 d' s3 s4. block_write (cache_reset blank_cache) 0 7 (replicate 512 9) = Some (BLOCK_OK, s1) \<and>
    block_sync s1 0 = Some (BLOCK_OK, s2) \<and>
    block_open (block_reinit s2) (Some []) (Some 0) = (BLOCK_OK, Some d', s3) \<and>
    block_read s3 0 7 (Some []) = Some (BLOCK_OK, Some (replicate 512 9), s4)"
  using write_sync_reopen_read [of "cache_reset blank_cache" 127 0 7 7 "replicate 512 9" "[]" 0 "[]"]
    cache_reset_wf [of blank_cache] by (simp add: cache_inv_def addr_ok_def)

text \<open>
  \<open>block_free\<close> drops a block from the cache without losing it: if it was dirty it is
  on the drive afterwards, no slot holds it any more, and no reader sees a change.
\<close>

theorem block_free_keeps_data:
  assumes "cache_wf s" "addr_ok dev b"
  shows "\<exists>s'. block_free s dev b = Some (BLOCK_OK, s') \<and> cache_wf s' \<and>
    (\<forall>k < BLOCK_ARRAY_SIZE. \<not> slot_holds s' dev b k) \<and> dsec (bc_hw s') dev b = view s dev b \<and>
    (\<forall>dev' b'. addr_ok dev' b' \<longrightarrow> view s' dev' b' = view s dev' b')"
  using assms by (rule block_free_correct)

theorem block_free_keeps_data_witness:
  "\<exists>s'. block_free full_cache 0 3 = Some (BLOCK_OK, s') \<and> (\<forall>k < 128. \<not> slot_holds s' 0 3 k)"
  using block_free_keeps_data [OF full_cache_wf, of 0 3] by (auto simp: addr_ok_def)

text \<open>
  The replacement policy: when no slot is free, the slot \<open>block_read\<close> and
  \<open>block_write\<close> replace is a clean slot with the smallest use count of all clean
  slots, as long as one clean slot's count has not saturated.
\<close>

theorem scan_picks_least_used_clean:
  assumes "\<forall>k < BLOCK_ARRAY_SIZE. bc_map s ! k \<noteq> BLOCK_FREE"
    and "j < BLOCK_ARRAY_SIZE" "\<not> bc_dirty s ! j" "bc_lru s ! j < BLOCK_MAX_LRU"
  shows "\<exists>v < BLOCK_ARRAY_SIZE. free_block_ptr (block_scan s 0 (scan_init s)) = None \<and>
    lowest_clean_block_ptr (block_scan s 0 (scan_init s)) = Some v \<and> \<not> bc_dirty s ! v \<and>
    (\<forall>k < BLOCK_ARRAY_SIZE. \<not> bc_dirty s ! k \<longrightarrow> bc_lru s ! v \<le> bc_lru s ! k)"
proof -
  let ?r = "block_scan s 0 (scan_init s)"
  have none: "free_block_ptr ?r = None"
    using block_scan_result [OF scan_inv_init, of s] assms(1) by (auto split: option.splits)
  with block_scan_result [OF scan_inv_init, of s] have inv: "scan_inv s 128 ?r" by simp
  then have "lowest_clean_block ?r \<le> bc_lru s ! j" using assms by (auto simp: scan_inv_def)
  also note assms(4)
  finally have "lowest_clean_block_ptr ?r \<noteq> None" using inv by (auto simp: scan_inv_def split: option.splits)
  with none inv show ?thesis by (auto simp: scan_inv_def)
qed

theorem scan_picks_least_used_clean_witness:
  "\<exists>v < 128. lowest_clean_block_ptr (block_scan (full_cache\<lparr>bc_dirty := replicate 128 False\<rparr>) 0
     (scan_init (full_cache\<lparr>bc_dirty := replicate 128 False\<rparr>))) = Some v"
  using scan_picks_least_used_clean [of "full_cache\<lparr>bc_dirty := replicate 128 False\<rparr>" 5]
    full_cache_not_free by (auto simp: full_cache_simps)

text \<open>
  C24: When every slot is dirty, the replaced slot's data is written at the block number
  being requested instead of the slot's own: \<open>block_read\<close> of an uncached block then
  returns the data of the replaced block, the requested block is overwritten on the
  drive, and the replaced block's data does not reach its own place.
\<close>

theorem dirty_eviction_misdirected:
  assumes wf: "cache_wf s" and ok: "addr_ok dev b"
    and new: "\<forall>k < BLOCK_ARRAY_SIZE. \<not> slot_holds s dev b k"
    and full: "\<forall>k < BLOCK_ARRAY_SIZE. bc_map s ! k \<noteq> BLOCK_FREE \<and> bc_dirty s ! k \<and>
      bc_lru s ! k < BLOCK_MAX_LRU \<and> bc_dev s ! k = dev"
  shows "\<exists>v s'. v < BLOCK_ARRAY_SIZE \<and> (\<forall>k < BLOCK_ARRAY_SIZE. bc_lru s ! v \<le> bc_lru s ! k) \<and>
    block_read s dev b (Some buf) = Some (BLOCK_OK, Some (bc_array s ! v), s') \<and>
    dsec (bc_hw s') dev b = bc_array s ! v \<and>
    dsec (bc_hw s') dev (bc_map s ! v) = dsec (bc_hw s) dev (bc_map s ! v)"
proof -
  let ?c = "curr_wrap s"
  let ?r = "block_scan ?c 0 (scan_init ?c)"
  obtain v where v: "free_block_ptr ?r = None" "lowest_clean_block_ptr ?r = None"
    "lowest_dirty_block_ptr ?r = Some v" "v < 128" "\<forall>k < 128. bc_lru s ! v \<le> bc_lru s ! k"
    using scan_all_dirty [of ?c] full by auto
  obtain d' where d': "dev_write (bc_hw s) dev b (bc_array s ! v) = Some (DEV_OK, d')" "drive_ok d'"
    "\<And>dev' b'. addr_ok dev' b' \<Longrightarrow>
      dsec d' dev' b' = (if dev' = dev \<and> b' = b then bc_array s ! v else dsec (bc_hw s) dev' b')"
    using dev_write_ok [OF cache_wf_lengths(6,7) [OF wf] ok] v(4) by metis
  let ?t = "(miss_state s)\<lparr>bc_hw := d'\<rparr>"
  have t: "cache_wf ?t"
    using hw_write_uncached(1) [of "miss_state s" dev b d' "bc_array s ! v"] wf new d' by simp
  have dv: "bc_dev s ! v = dev" "addr_ok dev (bc_map s ! v)" "bc_map s ! v \<noteq> b"
    using full new wf v(4) unfolding cache_wf_def cached_slot_def slot_holds_def by metis+
  have "block_lookup ?c dev b = None" using new by (simp add: block_lookup_None)
  moreover have "block_read_dirty (miss_state s) v dev b buf = block_read_clean ?t v dev b buf"
    using d'(1) dv by (simp add: block_read_dirty_def evict_dirty_def)
  moreover note block_read_clean_put [OF t v(4), of dev b buf]
  ultimately have "\<exists>s'. block_read s dev b (Some buf) = Some (BLOCK_OK, Some (dsec d' dev b), s') \<and> bc_hw s' = d'"
    using v ok by (auto simp: block_read_def Let_def addr_ok_def put_slot_def simp flip: miss_state_def)
  with v d'(3) [OF ok] d'(3) [OF dv(2)] dv(3) show ?thesis by auto
qed

theorem dirty_eviction_misdirected_witness:
  "\<exists>v s'. v < 128 \<and> block_read full_cache 0 200 (Some []) =
     Some (BLOCK_OK, Some (replicate 512 (word_of_nat v)), s') \<and>
     dsec (bc_hw full_cache) 0 200 = zeros 512"
proof -
  have "\<not> slot_holds full_cache 0 200 k" if "k < 128" for k
    using that word_of_nat_small [of k]
    by (auto simp: slot_holds_def full_cache_simps dest: arg_cong [where f = unat])
  from dirty_eviction_misdirected [OF full_cache_wf, of 0 200 "[]"] this full_cache_not_free
  show ?thesis by (auto simp: addr_ok_def full_cache_simps)
qed

end
