(* ===== verification/Bitmap.thy ===== *)
theory Bitmap
  imports OX_Prelude
begin

text \<open>
  The bit stream of \<open>fs/bitmap.c\<close> and the contract both bitmaps of the kernel keep
  (the inode and block maps of the file system, the page map of \<open>mm/page.c\<close>): a map
  is a set of numbers, with a membership test, an insertion and a removal. The
  lemmas about runs of consecutive bits are proved once, from the contract.
\<close>

section \<open>The contract of a bitmap\<close>

locale bitmap =
  fixes test :: "'m \<Rightarrow> nat \<Rightarrow> bool"
    and set1 :: "'m \<Rightarrow> nat \<Rightarrow> 'm"
    and clear1 :: "'m \<Rightarrow> nat \<Rightarrow> 'm"
    and valid :: "'m \<Rightarrow> nat \<Rightarrow> bool"
  assumes test_set1: "valid m i \<Longrightarrow> valid m j \<Longrightarrow> test (set1 m i) j \<longleftrightarrow> j = i \<or> test m j"
    and test_clear1: "valid m i \<Longrightarrow> valid m j \<Longrightarrow> test (clear1 m i) j \<longleftrightarrow> j \<noteq> i \<and> test m j"
    and valid_set1: "valid m i \<Longrightarrow> valid (set1 m i) j = valid m j"
    and valid_clear1: "valid m i \<Longrightarrow> valid (clear1 m i) j = valid m j"
begin

text \<open>Setting and clearing a run, one bit at a time, lowest first.\<close>

fun set_run :: "'m \<Rightarrow> nat \<Rightarrow> nat \<Rightarrow> 'm" where
  "set_run m p 0 = m"
| "set_run m p (Suc n) = set_run (set1 m p) (Suc p) n"

fun clear_run :: "'m \<Rightarrow> nat \<Rightarrow> nat \<Rightarrow> 'm" where
  "clear_run m p 0 = m"
| "clear_run m p (Suc n) = clear_run (clear1 m p) (Suc p) n"

lemma valid_set_run:
  "(\<And>k. p \<le> k \<Longrightarrow> k < p + n \<Longrightarrow> valid m k) \<Longrightarrow> valid (set_run m p n) j = valid m j"
  by (induction n arbitrary: m p) (simp_all add: valid_set1)

lemma valid_clear_run:
  "(\<And>k. p \<le> k \<Longrightarrow> k < p + n \<Longrightarrow> valid m k) \<Longrightarrow> valid (clear_run m p n) j = valid m j"
  by (induction n arbitrary: m p) (simp_all add: valid_clear1)

lemma test_set_run:
  "(\<And>k. p \<le> k \<Longrightarrow> k < p + n \<Longrightarrow> valid m k) \<Longrightarrow> valid m j \<Longrightarrow>
     test (set_run m p n) j \<longleftrightarrow> (p \<le> j \<and> j < p + n) \<or> test m j"
  by (induction n arbitrary: m p) (auto simp: valid_set1 test_set1)

lemma test_clear_run:
  "(\<And>k. p \<le> k \<Longrightarrow> k < p + n \<Longrightarrow> valid m k) \<Longrightarrow> valid m j \<Longrightarrow>
     test (clear_run m p n) j \<longleftrightarrow> \<not> (p \<le> j \<and> j < p + n) \<and> test m j"
  by (induction n arbitrary: m p) (auto simp: valid_clear1 test_clear1)

text \<open>Setting a run of clear bits and clearing it again gives back the same map.\<close>

lemma clear_set_run:
  assumes "\<And>k. p \<le> k \<Longrightarrow> k < p + n \<Longrightarrow> valid m k"
    and "\<And>k. p \<le> k \<Longrightarrow> k < p + n \<Longrightarrow> \<not> test m k"
    and "valid m j"
  shows "test (clear_run (set_run m p n) p n) j = test m j"
  using assms by (auto simp: test_clear_run test_set_run valid_set_run)

end

section \<open>fs/bitmap.c\<close>

definition bit_get :: "bytes \<Rightarrow> nat \<Rightarrow> nat" where
  "bit_get data b =
     (let pos = b div 8; b' = b mod 8 in
      if (data ! pos) AND push_bit b' 1 \<noteq> 0 then 1 else 0)"

definition bit_set :: "bytes \<Rightarrow> nat \<Rightarrow> nat \<Rightarrow> bytes" where
  "bit_set data b v =
     (let pos = b div 8; b' = b mod 8 in
      if v = 0 then data[pos := (data ! pos) AND NOT (push_bit b' 1)]
      else if v = 1 then data[pos := (data ! pos) OR push_bit b' 1]
      else data)"

lemma and_push_bit_1: "(x::u8) AND push_bit k 1 \<noteq> 0 \<longleftrightarrow> bit x k"
proof -
  have "x AND push_bit k 1 = (if bit x k then push_bit k 1 else 0)"
    by (rule bit_word_eqI) (auto simp: bit_simps)
  moreover have "bit x k \<Longrightarrow> push_bit k (1::u8) \<noteq> 0"
    using bit_imp_le_length [of x k] by (simp add: push_bit_eq_mult) 
  ultimately show ?thesis by auto
qed

lemma bit_get_bit: "bit_get data b = (if bit (data ! (b div 8)) (b mod 8) then 1 else 0)"
  using and_push_bit_1 [of "data ! (b div 8)" "b mod 8"]
  by (simp add: bit_get_def Let_def)

lemma bit_get_01: "bit_get data b = 0 \<or> bit_get data b = 1"
  by (simp add: bit_get_def Let_def)

lemma length_bit_set [simp]: "length (bit_set data b v) = length data"
  by (simp add: bit_set_def Let_def)

lemma div_mod_8_eqI: "(a::nat) div 8 = b div 8 \<Longrightarrow> a mod 8 = b mod 8 \<Longrightarrow> a = b"
  by (metis div_mult_mod_eq)

lemma bit_get_bit_set:
  assumes "i < 8 * length data"
  shows "bit_get (bit_set data i v) j =
    (if j = i \<and> v \<le> 1 then v else bit_get data j)"
proof -
  have pos: "i div 8 < length data" using assms by auto
  have bits: "bit ((bit_set data i v) ! (j div 8)) (j mod 8) \<longleftrightarrow>
      (if j = i \<and> v \<le> 1 then v = 1 else bit (data ! (j div 8)) (j mod 8))"
  proof (cases "j div 8 = i div 8")
    case True
    then have "j mod 8 = i mod 8 \<longleftrightarrow> j = i"
      using div_mod_8_eqI by blast
    with True pos show ?thesis
      by (auto simp: bit_set_def Let_def bit_simps le_Suc_eq)
  next
    case False
    then show ?thesis
      by (auto simp: bit_set_def Let_def)
  qed
  then show ?thesis
    by (auto simp: bit_get_bit le_Suc_eq)
qed

interpretation fs_map: bitmap "\<lambda>m i. bit_get m i = 1" "\<lambda>m i. bit_set m i 1" "\<lambda>m i. bit_set m i 0"
    "\<lambda>m i. i < 8 * length m"
  by unfold_locales (auto simp: bit_get_bit_set)

text \<open>The set of bits that are on; \<open>bit_set\<close> is insertion and removal on it.\<close>

definition bits_on :: "bytes \<Rightarrow> nat set" where
  "bits_on data = {i. i < 8 * length data \<and> bit_get data i = 1}"

lemma bits_on_set:
  "i < 8 * length data \<Longrightarrow> bits_on (bit_set data i 1) = insert i (bits_on data)"
  by (auto simp: bits_on_def bit_get_bit_set)

lemma bits_on_clear:
  "i < 8 * length data \<Longrightarrow> bits_on (bit_set data i 0) = bits_on data - {i}"
  by (auto simp: bits_on_def bit_get_bit_set)

lemma bits_on_zeros [simp]: "bits_on (zeros n) = {}"
  by (auto simp: bits_on_def bit_get_bit)

end
