(* ===== verification/Inode_Layout.thy ===== *)
theory Inode_Layout
  imports OX_Prelude
begin

text \<open>
  The on-disk structures of \<open>include/ox/fs/inode.h\<close>: the master inode, the inode, the
  block map and the link, each one sector of 512 bytes. The C code moves them to and
  from the disk by casting the structure to \<open>char *\<close>; the images below are the i386
  layout of the structures, little-endian, with the padding the compiler inserts.
\<close>

abbreviation (input) MAX_PATH :: nat where "MAX_PATH \<equiv> 256"
abbreviation (input) INODE_PAD :: nat where "INODE_PAD \<equiv> 166"
abbreviation (input) MNODE_PAD :: nat where "MNODE_PAD \<equiv> 436"
abbreviation (input) BMAP_BLOCKS :: nat where "BMAP_BLOCKS \<equiv> 127"

datatype inode_rtvl = INODE_OK | INODE_FAIL | INODE_PARAM | INODE_FILE_NOT_FOUND | INODE_INVALID_PATH
  | INODE_EXISTS | INODE_INCONSISTENT | INODE_INIT

datatype inode_mode = INODE_INVALID_MODE | INODE_CREATE_FILE | INODE_CREATE_DIR | INODE_CREATE_SYMLINK
  | INODE_CREATE_HARDLINK | INODE_READ | INODE_WRITE | INODE_EXECUTE | INODE_RW | INODE_RX | INODE_WX
  | INODE_RWX | INODE_DONTCHECKPERMS

record master_inode =
  magic :: u16
  init_fs :: u16
  block_start :: u32
  inode_map_start :: u32
  inode_map_end :: u32
  bmap_map_start :: u32
  bmap_map_end :: u32
  inode_start :: u32
  inode_end :: u32
  data_start :: u32
  data_end :: u32
  imap_ptr :: u32
  imap_bit :: u32
  bmap_ptr :: u32
  bmap_bit :: u32
  inodes :: u32
  blocks :: u32
  imap :: u32
  bmap :: u32
  m_dev :: u32
  m_pad :: bytes

record inode =
  user_read :: u8
  user_write :: u8
  user_execute :: u8
  group_read :: u8
  group_write :: u8
  group_execute :: u8
  world_read :: u8
  world_write :: u8
  world_execute :: u8
  is_directory :: u8
  is_device :: u8
  is_file :: u8
  is_symlink :: u8
  is_hardlink :: u8
  i_align1 :: bytes
  create_time :: u32
  modified_time :: u32
  accessed_time :: u32
  self :: u32
  parent :: u32
  i_size :: u64
  i_pos :: u64
  current :: u32
  current_parent :: u32
  iblock :: u32
  i_dev :: u32
  o_mode :: u32
  i_group :: u32
  i_owner :: u32
  refcount :: u32
  i_path :: bytes
  i_pad :: bytes
  i_align2 :: bytes
  i_next :: u32

record block_map =
  bm_next :: u32
  bm_blocks :: "u32 list"

record link =
  l_path :: bytes
  l_pad :: bytes

section \<open>Images\<close>

text \<open>The \<open>n\<close> bytes at offset \<open>off\<close> of a sector, as bytes and as a word.\<close>

definition chunk :: "bytes \<Rightarrow> nat \<Rightarrow> nat \<Rightarrow> bytes" where
  "chunk bs off n = take n (drop off bs)"

definition fld :: "bytes \<Rightarrow> nat \<Rightarrow> nat \<Rightarrow> 'a::len word" where
  "fld bs off n = le_word (chunk bs off n)"

definition master_words :: "master_inode \<Rightarrow> u32 list" where
  "master_words m = [block_start m, inode_map_start m, inode_map_end m, bmap_map_start m, bmap_map_end m,
     inode_start m, inode_end m, data_start m, data_end m, imap_ptr m, imap_bit m, bmap_ptr m, bmap_bit m,
     inodes m, blocks m, imap m, bmap m, m_dev m]"

definition words_image :: "u32 list \<Rightarrow> bytes" where
  "words_image ws = concat (map (le_bytes 4) ws)"

definition master_image :: "master_inode \<Rightarrow> bytes" where
  "master_image m = le_bytes 2 (magic m) @ le_bytes 2 (init_fs m) @ words_image (master_words m) @ m_pad m"

definition read_master :: "bytes \<Rightarrow> master_inode" where
  "read_master bs = (let w = (\<lambda>i. fld bs (4 + 4 * i) 4) in
     \<lparr>magic = fld bs 0 2, init_fs = fld bs 2 2, block_start = w 0, inode_map_start = w 1, inode_map_end = w 2,
      bmap_map_start = w 3, bmap_map_end = w 4, inode_start = w 5, inode_end = w 6, data_start = w 7,
      data_end = w 8, imap_ptr = w 9, imap_bit = w 10, bmap_ptr = w 11, bmap_bit = w 12, inodes = w 13,
      blocks = w 14, imap = w 15, bmap = w 16, m_dev = w 17, m_pad = chunk bs 76 MNODE_PAD\<rparr>)"

definition inode_flags :: "inode \<Rightarrow> u8 list" where
  "inode_flags i = [user_read i, user_write i, user_execute i, group_read i, group_write i, group_execute i,
     world_read i, world_write i, world_execute i, is_directory i, is_device i, is_file i, is_symlink i, is_hardlink i]"

definition inode_image :: "inode \<Rightarrow> bytes" where
  "inode_image i = inode_flags i @ i_align1 i @
     words_image [create_time i, modified_time i, accessed_time i, self i, parent i] @
     le_bytes 8 (i_size i) @ le_bytes 8 (i_pos i) @
     words_image [current i, current_parent i, iblock i, i_dev i, o_mode i, i_group i, i_owner i, refcount i] @
     i_path i @ i_pad i @ i_align2 i @ le_bytes 4 (i_next i)"

definition read_inode :: "bytes \<Rightarrow> inode" where
  "read_inode bs =
     \<lparr>user_read = bs ! 0, user_write = bs ! 1, user_execute = bs ! 2, group_read = bs ! 3, group_write = bs ! 4,
      group_execute = bs ! 5, world_read = bs ! 6, world_write = bs ! 7, world_execute = bs ! 8,
      is_directory = bs ! 9, is_device = bs ! 10, is_file = bs ! 11, is_symlink = bs ! 12, is_hardlink = bs ! 13,
      i_align1 = chunk bs 14 2, create_time = fld bs 16 4, modified_time = fld bs 20 4, accessed_time = fld bs 24 4,
      self = fld bs 28 4, parent = fld bs 32 4, i_size = fld bs 36 8, i_pos = fld bs 44 8, current = fld bs 52 4,
      current_parent = fld bs 56 4, iblock = fld bs 60 4, i_dev = fld bs 64 4, o_mode = fld bs 68 4,
      i_group = fld bs 72 4, i_owner = fld bs 76 4, refcount = fld bs 80 4, i_path = chunk bs 84 MAX_PATH,
      i_pad = chunk bs 340 INODE_PAD, i_align2 = chunk bs 506 2, i_next = fld bs 508 4\<rparr>"

definition bmap_image :: "block_map \<Rightarrow> bytes" where
  "bmap_image b = le_bytes 4 (bm_next b) @ words_image (bm_blocks b)"

definition read_bmap :: "bytes \<Rightarrow> block_map" where
  "read_bmap bs = \<lparr>bm_next = fld bs 0 4, bm_blocks = map (\<lambda>i. fld bs (4 + 4 * i) 4) [0..<BMAP_BLOCKS]\<rparr>"

definition link_image :: "link \<Rightarrow> bytes" where
  "link_image l = l_path l @ l_pad l"

definition read_link :: "bytes \<Rightarrow> link" where
  "read_link bs = \<lparr>l_path = chunk bs 0 MAX_PATH, l_pad = chunk bs 256 MAX_PATH\<rparr>"

section \<open>Sizes\<close>

definition master_wf :: "master_inode \<Rightarrow> bool" where
  "master_wf m \<longleftrightarrow> length (m_pad m) = MNODE_PAD"

definition inode_wf :: "inode \<Rightarrow> bool" where
  "inode_wf i \<longleftrightarrow> length (i_align1 i) = 2 \<and> length (i_path i) = MAX_PATH \<and> length (i_pad i) = INODE_PAD \<and>
     length (i_align2 i) = 2"

definition bmap_wf :: "block_map \<Rightarrow> bool" where
  "bmap_wf b \<longleftrightarrow> length (bm_blocks b) = BMAP_BLOCKS"

definition link_wf :: "link \<Rightarrow> bool" where
  "link_wf l \<longleftrightarrow> length (l_path l) = MAX_PATH \<and> length (l_pad l) = MAX_PATH"

lemma length_words_image [layout]: "length (words_image ws) = 4 * length ws"
  by (induction ws) (simp_all add: words_image_def)

lemma image_lengths [layout]:
  "master_wf m \<Longrightarrow> length (master_image m) = 512" "inode_wf i \<Longrightarrow> length (inode_image i) = 512"
  "bmap_wf b \<Longrightarrow> length (bmap_image b) = 512" "link_wf l \<Longrightarrow> length (link_image l) = 512"
  by (simp_all add: master_image_def inode_image_def bmap_image_def link_image_def layout
      master_words_def inode_flags_def master_wf_def inode_wf_def bmap_wf_def link_wf_def)

section \<open>Reading back\<close>

lemma chunk_append:
  "chunk (xs @ ys) off n = (if off + n \<le> length xs then chunk xs off n
     else if length xs \<le> off then chunk ys (off - length xs) n else take n (drop off xs @ ys))"
  by (auto simp: chunk_def)

lemma chunk_words:
  "i < length ws \<Longrightarrow> chunk (words_image ws @ ys) (4 * i) 4 = le_bytes 4 (ws ! i)"
proof (induction ws arbitrary: i)
  case (Cons w ws)
  show ?case
  proof (cases i)
    case 0
    then show ?thesis by (simp add: words_image_def chunk_def)
  next
    case (Suc j)
    then have "chunk (words_image (w # ws) @ ys) (4 * i) 4 = chunk (words_image ws @ ys) (4 * j) 4"
      by (simp add: words_image_def chunk_def)
    with Suc Cons show ?thesis by simp
  qed
qed simp

lemma chunk_shift: "length xs \<le> off \<Longrightarrow> chunk (xs @ ys) off n = chunk ys (off - length xs) n"
  by (simp add: chunk_def)

lemma le_word_4 [simp]: "le_word (le_bytes 4 (w :: u32)) = w"
  by (rule le_word_le_bytes) simp

lemma le_word_2 [simp]: "le_word (le_bytes 2 (w :: u16)) = w"
  by (rule le_word_le_bytes) simp

lemma le_word_8 [simp]: "le_word (le_bytes 8 (w :: u64)) = w"
  by (rule le_word_le_bytes) simp

lemma chunk_head: "length xs = n \<Longrightarrow> chunk (xs @ ys) 0 n = xs"
  by (simp add: chunk_def)

lemma chunk_all: "length xs = n \<Longrightarrow> chunk xs 0 n = xs"
  by (simp add: chunk_def)

lemma fld_words:
  "i < length ws \<Longrightarrow> length xs + 4 * i = off \<Longrightarrow> fld (xs @ words_image ws @ ys) off 4 = (ws ! i :: u32)"
  by (auto simp: fld_def chunk_shift chunk_words)

lemma fld_bytes:
  fixes w :: "'a::len word"
  assumes "length xs = off" "LENGTH('a) \<le> 8 * n"
  shows "fld (xs @ le_bytes n w @ ys) off n = w"
  using assms by (auto simp: fld_def chunk_shift chunk_head)

text \<open>A field of a structure written and read again, for each structure.\<close>

lemma read_master_image:
  assumes "master_wf m"
  shows "read_master (master_image m) = m"
proof -
  have w: "fld (master_image m) (4 + 4 * i) 4 = master_words m ! i" if "i < 18" for i
    using that fld_words [of i "master_words m" "le_bytes 2 (magic m) @ le_bytes 2 (init_fs m)" "4 + 4 * i" "m_pad m"]
    by (simp add: master_image_def master_words_def)
  have h: "fld (master_image m) 0 2 = magic m" "fld (master_image m) 2 2 = init_fs m"
    using fld_bytes [of "[]" 0 2 "magic m"] fld_bytes [of "le_bytes 2 (magic m)" 2 2 "init_fs m"]
    by (simp_all add: master_image_def)
  have p: "chunk (master_image m) 76 MNODE_PAD = m_pad m"
    using assms by (simp add: master_image_def master_wf_def chunk_shift layout master_words_def chunk_all)
  show ?thesis
    using w [of 0] w [of 1] w [of 2] w [of 3] w [of 4] w [of 5] w [of 6] w [of 7] w [of 8] w [of 9] w [of 10]
      w [of 11] w [of 12] w [of 13] w [of 14] w [of 15] w [of 16] w [of 17]
    by (intro master_inode.equality) (simp_all add: read_master_def h p master_words_def)
qed

lemma read_inode_image:
  assumes "inode_wf i"
  shows "read_inode (inode_image i) = i"
proof -
  let ?f = "inode_flags i @ i_align1 i"
  let ?ts = "[create_time i, modified_time i, accessed_time i, self i, parent i]"
  let ?ws = "[current i, current_parent i, iblock i, i_dev i, o_mode i, i_group i, i_owner i, refcount i]"
  note L = assms [unfolded inode_wf_def]
  have f: "inode_image i ! k = inode_flags i ! k" if "k < 14" for k
  proof -
    have "length (inode_flags i) = 14" by (simp add: inode_flags_def)
    with that show ?thesis by (simp add: inode_image_def nth_append)
  qed
  have t: "fld (inode_image i) (16 + 4 * k) 4 = ?ts ! k" if "k < 5" for k
    using that L fld_words [of k ?ts ?f "16 + 4 * k"]
    by (simp add: inode_image_def inode_flags_def)
  have u: "fld (inode_image i) (52 + 4 * k) 4 = ?ws ! k" if "k < 8" for k
    using that L fld_words [of k ?ws "?f @ words_image ?ts @ le_bytes 8 (i_size i) @ le_bytes 8 (i_pos i)" "52 + 4 * k"]
    by (simp add: inode_image_def inode_flags_def layout)
  have s: "fld (inode_image i) 36 8 = i_size i" "fld (inode_image i) 44 8 = i_pos i"
    using L fld_bytes [of "?f @ words_image ?ts" 36 8 "i_size i"]
      fld_bytes [of "?f @ words_image ?ts @ le_bytes 8 (i_size i)" 44 8 "i_pos i"]
    by (simp_all add: inode_image_def inode_flags_def layout)
  have p: "chunk (inode_image i) 14 2 = i_align1 i" "chunk (inode_image i) 84 MAX_PATH = i_path i"
    "chunk (inode_image i) 340 INODE_PAD = i_pad i" "chunk (inode_image i) 506 2 = i_align2 i"
    "chunk (inode_image i) 508 4 = le_bytes 4 (i_next i)"
    using L by (simp_all add: inode_image_def inode_flags_def chunk_shift layout chunk_head chunk_all chunk_def)
  have n: "fld (inode_image i) 508 4 = i_next i" using p(5) by (simp add: fld_def)
  show ?thesis
    using f [of 0] f [of 1] f [of 2] f [of 3] f [of 4] f [of 5] f [of 6] f [of 7] f [of 8] f [of 9] f [of 10]
      f [of 11] f [of 12] f [of 13] t [of 0] t [of 1] t [of 2] t [of 3] t [of 4]
      u [of 0] u [of 1] u [of 2] u [of 3] u [of 4] u [of 5] u [of 6] u [of 7]
    by (intro inode.equality) (simp_all add: read_inode_def p s n inode_flags_def)
qed

lemma read_bmap_image:
  assumes "bmap_wf b"
  shows "read_bmap (bmap_image b) = b"
proof (rule block_map.equality)
  show "bm_next (read_bmap (bmap_image b)) = bm_next b"
    by (simp add: read_bmap_def bmap_image_def fld_bytes [of "[]", simplified])
  have "fld (bmap_image b) (4 + 4 * i) 4 = bm_blocks b ! i" if "i < 127" for i
    using that assms fld_words [of i "bm_blocks b" "le_bytes 4 (bm_next b)" "4 + 4 * i" "[]"]
    by (simp add: bmap_image_def bmap_wf_def)
  then show "bm_blocks (read_bmap (bmap_image b)) = bm_blocks b"
    using assms by (intro nth_equalityI) (simp_all add: read_bmap_def bmap_wf_def)
qed simp

lemma read_link_image: "link_wf l \<Longrightarrow> read_link (link_image l) = l"
  by (intro link.equality) (simp_all add: read_link_def link_image_def link_wf_def chunk_head chunk_shift chunk_all)

section \<open>Writing back what was read\<close>

lemma chunk_glue: "chunk bs off a @ chunk bs (off + a) b = chunk bs off (a + b)"
  by (simp add: chunk_def take_add add.commute)

lemma chunk_glue': "off' = off + a \<Longrightarrow> chunk bs off a @ chunk bs off' b = chunk bs off (a + b)"
  by (simp add: chunk_glue)

lemma length_chunk [simp]: "off + n \<le> length bs \<Longrightarrow> length (chunk bs off n) = n"
  by (simp add: chunk_def)

lemma le_bytes_fld:
  "off + n \<le> length bs \<Longrightarrow> 8 * n \<le> LENGTH('a) \<Longrightarrow> le_bytes n (fld bs off n :: 'a::len word) = chunk bs off n"
  by (simp add: fld_def le_bytes_le_word)

lemma words_image_fld:
  "off + 4 * length ws \<le> length bs \<Longrightarrow> (\<And>i. i < length ws \<Longrightarrow> ws ! i = fld bs (off + 4 * i) 4) \<Longrightarrow>
   words_image ws = chunk bs off (4 * length ws)"
proof (induction ws arbitrary: off)
  case Nil
  then show ?case by (simp add: words_image_def chunk_def)
next
  case (Cons w ws)
  have "words_image ws = chunk bs (off + 4) (4 * length ws)"
    using Cons.prems(1) Cons.prems(2) [of "Suc i" for i]
    by (intro Cons.IH) (simp_all add: add.assoc [symmetric] add.commute)
  moreover have "w = fld bs off 4" using Cons.prems(2) [of 0] by simp
  ultimately show ?case
    using Cons.prems(1) chunk_glue [of bs off 4 "4 * length ws"]
    by (simp add: words_image_def le_bytes_fld)
qed

lemma master_image_read:
  assumes "length bs = 512"
  shows "master_image (read_master bs) = bs" "master_wf (read_master bs)"
proof -
  have "words_image (master_words (read_master bs)) = chunk bs 4 72"
  proof -
    have "master_words (read_master bs) = map (\<lambda>i. fld bs (4 + 4 * i) 4) [0..<18]"
      by (simp add: master_words_def read_master_def upt_rec numeral_eq_Suc)
    then show ?thesis
      using words_image_fld [of 4 "master_words (read_master bs)" bs] assms by simp
  qed
  then have "master_image (read_master bs) = chunk bs 0 2 @ chunk bs 2 2 @ chunk bs 4 72 @ chunk bs 76 436"
    using assms by (simp add: master_image_def le_bytes_fld) (simp add: read_master_def le_bytes_fld)
  also have "\<dots> = bs" using assms by (simp add: chunk_glue' chunk_all)
  finally show "master_image (read_master bs) = bs" .
  show "master_wf (read_master bs)" using assms by (simp add: master_wf_def read_master_def)
qed

lemma inode_image_read:
  assumes "length bs = 512"
  shows "inode_image (read_inode bs) = bs" "inode_wf (read_inode bs)"
proof -
  let ?i = "read_inode bs"
  have f: "inode_flags ?i = chunk bs 0 14"
  proof -
    have "inode_flags ?i = map ((!) bs) [0..<14]"
      by (simp add: inode_flags_def read_inode_def upt_rec numeral_eq_Suc)
    also have "\<dots> = chunk bs 0 14"
      using assms by (intro nth_equalityI) (simp_all add: chunk_def)
    finally show ?thesis .
  qed
  have t: "words_image [create_time ?i, modified_time ?i, accessed_time ?i, self ?i, parent ?i] = chunk bs 16 20"
  proof -
    have "[create_time ?i, modified_time ?i, accessed_time ?i, self ?i, parent ?i]
        = map (\<lambda>k. fld bs (16 + 4 * k) 4) [0..<5]"
      by (simp add: read_inode_def upt_rec numeral_eq_Suc)
    then show ?thesis
      using words_image_fld [of 16 "map (\<lambda>k. fld bs (16 + 4 * k) 4) [0..<5]" bs] assms by simp
  qed
  have u: "words_image [current ?i, current_parent ?i, iblock ?i, i_dev ?i, o_mode ?i, i_group ?i, i_owner ?i, refcount ?i]
      = chunk bs 52 32"
  proof -
    have "[current ?i, current_parent ?i, iblock ?i, i_dev ?i, o_mode ?i, i_group ?i, i_owner ?i, refcount ?i]
        = map (\<lambda>k. fld bs (52 + 4 * k) 4) [0..<8]"
      by (simp add: read_inode_def upt_rec numeral_eq_Suc)
    then show ?thesis
      using words_image_fld [of 52 "map (\<lambda>k. fld bs (52 + 4 * k) 4) [0..<8]" bs] assms by simp
  qed
  have w: "le_bytes 8 (i_size ?i) = chunk bs 36 8" "le_bytes 8 (i_pos ?i) = chunk bs 44 8"
    "le_bytes 4 (i_next ?i) = chunk bs 508 4"
    using assms by (simp_all add: read_inode_def le_bytes_fld)
  have p: "i_align1 ?i = chunk bs 14 2" "i_path ?i = chunk bs 84 256" "i_pad ?i = chunk bs 340 166"
    "i_align2 ?i = chunk bs 506 2"
    by (simp_all add: read_inode_def)
  show "inode_image ?i = bs"
    unfolding inode_image_def f t u w p using assms by (simp add: chunk_glue' chunk_all)
  show "inode_wf ?i" using assms by (simp add: inode_wf_def p)
qed

lemma bmap_image_read:
  assumes "length bs = 512"
  shows "bmap_image (read_bmap bs) = bs" "bmap_wf (read_bmap bs)"
proof -
  have "words_image (bm_blocks (read_bmap bs)) = chunk bs 4 508"
    using words_image_fld [of 4 "bm_blocks (read_bmap bs)" bs] assms by (simp add: read_bmap_def)
  then show "bmap_image (read_bmap bs) = bs"
    using assms by (simp add: bmap_image_def) (simp add: read_bmap_def le_bytes_fld chunk_glue' chunk_all)
qed (simp add: bmap_wf_def read_bmap_def)

lemma link_image_read: "length bs = 512 \<Longrightarrow> link_image (read_link bs) = bs"
  by (simp add: link_image_def read_link_def chunk_glue' chunk_all)

text \<open>
  C25. The four on-disk structures fill one sector exactly and lose nothing: casting a
  structure to bytes and the bytes back to the structure is the identity, and every
  sector, read as any of the structures and written back, is unchanged.
\<close>

theorem disk_structures_roundtrip:
  "master_wf m \<Longrightarrow> inode_wf i \<Longrightarrow> bmap_wf b \<Longrightarrow> link_wf l \<Longrightarrow> length bs = 512 \<Longrightarrow>
     length (master_image m) = 512 \<and> length (inode_image i) = 512 \<and> length (bmap_image b) = 512 \<and>
     length (link_image l) = 512 \<and>
     read_master (master_image m) = m \<and> read_inode (inode_image i) = i \<and> read_bmap (bmap_image b) = b \<and>
     read_link (link_image l) = l \<and>
     master_image (read_master bs) = bs \<and> inode_image (read_inode bs) = bs \<and> bmap_image (read_bmap bs) = bs \<and>
     link_image (read_link bs) = bs"
  by (simp add: read_master_image read_inode_image read_bmap_image read_link_image image_lengths
      master_image_read inode_image_read bmap_image_read link_image_read)

text \<open>A block map whose first block is number 77, and its sector.\<close>

lemma disk_structures_roundtrip_witness:
  "read_bmap (bmap_image \<lparr>bm_next = 5, bm_blocks = 77 # replicate 126 0\<rparr>) = \<lparr>bm_next = 5, bm_blocks = 77 # replicate 126 0\<rparr> \<and>
   inode_image (read_inode (replicate 512 1)) = replicate 512 1"
  using disk_structures_roundtrip [of "read_master (replicate 512 0)" "read_inode (replicate 512 0)"
      "\<lparr>bm_next = 5, bm_blocks = 77 # replicate 126 0\<rparr>" "\<lparr>l_path = replicate 256 0, l_pad = replicate 256 0\<rparr>" "replicate 512 1"]
  by (simp add: master_image_read inode_image_read bmap_wf_def link_wf_def)

end
