(* ===== verification/Inode_Alloc.thy ===== *)
theory Inode_Alloc
  imports Inode_Layout Block_Cache Bitmap
begin

text \<open>
  The mounted file system of \<open>fs/inode.c\<close>: the table of master inodes, making and
  opening a file system, and the allocation of data and inode blocks over the two
  bit maps on disk. One block of each map is held in memory at a time, in the static
  arrays \<open>master_imap_memory\<close> and \<open>master_bmap_memory\<close>.

  The functions for inode blocks and for data blocks are the same text with the field
  names \<open>imap\<close>/\<open>bmap\<close> exchanged; they are modelled once, over the kind of map. The
  kernel messages printed on the way are not part of the model.
\<close>

abbreviation (input) INODE_NR_DEV :: nat where "INODE_NR_DEV \<equiv> 16"
abbreviation (input) MAX_DEV :: nat where "MAX_DEV \<equiv> 256"
abbreviation (input) INODE_NR_PASS :: u32 where "INODE_NR_PASS \<equiv> 2"
abbreviation (input) INODE_NOPOS :: u32 where "INODE_NOPOS \<equiv> 4294967295"
abbreviation (input) INODE_NULL :: u32 where "INODE_NULL \<equiv> 0"
abbreviation (input) INODE_MAGIC :: u16 where "INODE_MAGIC \<equiv> 1925"
abbreviation (input) BLOCK_START :: u32 where "BLOCK_START \<equiv> 4096"
abbreviation (input) TWOMEG :: u32 where "TWOMEG \<equiv> 2097152"

text \<open>
  The static variables of \<open>inode.c\<close>, the buffer cache below it and \<open>errno\<close>. The two
  base addresses are where the linker puts the map memory: the master inode holds
  pointers into it, and they are written to disk with it.
\<close>

record fsys =
  fs_cache :: bcache
  master_tab :: "master_inode list"
  master_bmap_memory :: "bytes list"
  master_imap_memory :: "bytes list"
  init_master :: bool
  master_dev_tab :: "(bytes option \<times> int) list"
  bmap_base :: u32
  imap_base :: u32
  fs_errno :: int

section \<open>The master table\<close>

definition zero_master :: master_inode where
  "zero_master = read_master (zeros DEV_BLOCK_SIZE)"

definition master_init :: "fsys \<Rightarrow> fsys" where
  "master_init s =
     (if init_master s then s
      else s\<lparr>master_tab := replicate INODE_NR_DEV (zero_master\<lparr>m_dev := INODE_NOPOS\<rparr>),
             master_bmap_memory := replicate INODE_NR_DEV (zeros DEV_BLOCK_SIZE),
             master_imap_memory := replicate INODE_NR_DEV (zeros DEV_BLOCK_SIZE),
             init_master := True\<rparr>)"

text \<open>
  The master of a device, by its index in the table: \<open>int dev\<close> is compared with the
  unsigned field, so \<open>-1\<close> finds a free entry. \<open>None\<close> is the null pointer.
\<close>

definition master_get :: "fsys \<Rightarrow> int \<Rightarrow> nat option" where
  "master_get s dev = first_from (\<lambda>i. m_dev (master_tab s ! i) = word_of_int dev) 0 INODE_NR_DEV"

definition master_get_mem_ptr :: "fsys \<Rightarrow> int \<Rightarrow> int" where
  "master_get_mem_ptr s dev =
     (case first_from (\<lambda>i. m_dev (master_tab s ! i) = word_of_int dev) 0 INODE_NR_DEV of
        Some i \<Rightarrow> int i
      | None \<Rightarrow> - 1)"

definition upd_master :: "fsys \<Rightarrow> nat \<Rightarrow> (master_inode \<Rightarrow> master_inode) \<Rightarrow> fsys" where
  "upd_master s i f = s\<lparr>master_tab := (master_tab s)[i := f (master_tab s ! i)]\<rparr>"

definition master_alloc :: "fsys \<Rightarrow> int \<Rightarrow> nat option \<times> fsys" where
  "master_alloc s dev =
     (case master_get s dev of
        Some i \<Rightarrow> (Some i, s)
      | None \<Rightarrow>
        case first_from (\<lambda>i. m_dev (master_tab s ! i) = INODE_NOPOS) 0 INODE_NR_DEV of
          Some i \<Rightarrow> (Some i, upd_master s i (\<lambda>m. m\<lparr>m_dev := word_of_int dev\<rparr>))
        | None \<Rightarrow> (None, s))"

definition master_free :: "fsys \<Rightarrow> int \<Rightarrow> fsys" where
  "master_free s dev =
     (case master_get s dev of
        Some i \<Rightarrow> upd_master s i (\<lambda>m. zero_master\<lparr>m_dev := INODE_NOPOS\<rparr>)
      | None \<Rightarrow> s)"

text \<open>
  The paths of the mounted devices. \<open>strlen\<close> of a null pointer reads the bytes at
  address 0: their length is the parameter \<open>nl\<close>.
\<close>

definition path_len :: "nat \<Rightarrow> bytes option \<Rightarrow> nat" where
  "path_len nl p = (case p of None \<Rightarrow> nl | Some b \<Rightarrow> length (cstr b))"

definition master_set_dev :: "fsys \<Rightarrow> bytes option \<Rightarrow> int \<Rightarrow> int \<times> fsys" where
  "master_set_dev s path dev =
     (case first_from (\<lambda>i. case fst (master_dev_tab s ! i) of None \<Rightarrow> True | Some b \<Rightarrow> length (cstr b) = 0) 0 MAX_DEV of
        Some i \<Rightarrow> (int i, s\<lparr>master_dev_tab := (master_dev_tab s)[i := (path, dev)]\<rparr>)
      | None \<Rightarrow> (- 1, s))"

definition master_get_dev :: "nat \<Rightarrow> fsys \<Rightarrow> int" where
  "master_get_dev nl s =
     (case first_from (\<lambda>i. path_len nl (fst (master_dev_tab s ! i)) \<noteq> 0) 0 MAX_DEV of
        Some i \<Rightarrow> snd (master_dev_tab s ! i)
      | None \<Rightarrow> - 1)"

section \<open>Making a file system\<close>

text \<open>The sizes \<open>inode_create_fs\<close> computes from a number of bytes, in 32-bit arithmetic.\<close>

definition fs_inodes :: "u32 \<Rightarrow> u32" where
  "fs_inodes sz = (sz div 512) * 20 div 100"

definition fs_blocks :: "u32 \<Rightarrow> u32" where
  "fs_blocks sz = (sz div 512) * 80 div 100"

definition map_blocks :: "u32 \<Rightarrow> u32" where
  "map_blocks n = (let k = n div 8 div 512 in if k = 0 then k + 1 else k)"

definition make_master :: "u32 \<Rightarrow> u32 \<Rightarrow> master_inode \<Rightarrow> master_inode" where
  "make_master start sz m =
     (let is = start + 1; ie = is + map_blocks (fs_inodes sz);
          be = ie + map_blocks (fs_blocks sz);
          ne = be + fs_inodes sz
      in m\<lparr>init_fs := 1, magic := INODE_MAGIC, block_start := start,
           inode_map_start := is, inode_map_end := ie, bmap_map_start := ie, bmap_map_end := be,
           inode_start := be, inode_end := ne, data_start := ne, data_end := ne + fs_blocks sz,
           imap_ptr := 0, bmap_ptr := 0, imap_bit := 0, bmap_bit := 0, imap := 0, bmap := 0,
           inodes := fs_inodes sz, blocks := fs_blocks sz, m_pad := zeros MNODE_PAD\<rparr>)"

text \<open>\<open>for (i = a; i < b; i++) \<lbrace> dev_scan; dev_write (dev, i, zero_data) \<rbrace>\<close>, results ignored.\<close>

function dev_zero :: "drive \<Rightarrow> int \<Rightarrow> u32 \<Rightarrow> u32 \<Rightarrow> drive option" where
  "dev_zero d dev a b =
     (if a < b then do {
        (r, d') \<leftarrow> dev_write d dev a (zeros DEV_BLOCK_SIZE);
        dev_zero d' dev (a + 1) b
      } else Some d)"
  by pat_completeness auto
termination
proof (relation "measure (\<lambda>(d, dev, a, b). unat b - unat a)")
  fix a b :: u32 assume "a < b"
  then have "unat a < unat b" by (simp add: word_less_nat_alt)
  moreover from this have "unat (a + 1) = Suc (unat a)"
    using unat_lt_word32 [of b, THEN Suc_leI] by (intro u32_Suc_unat) simp
  ultimately show "((d', dev, a + 1, b), (d, dev, a, b)) \<in> measure (\<lambda>(d, dev, a, b). unat b - unat a)"
    for d d' :: drive and dev :: int by simp
qed simp

declare dev_zero.simps [simp del]

text \<open>
  With no free entry in the master table the code goes on through a null pointer: \<open>None\<close>.
\<close>

definition inode_create_fs :: "fsys \<Rightarrow> bytes \<Rightarrow> u32 \<Rightarrow> u32 \<Rightarrow> (inode_rtvl \<times> fsys) option" where
  "inode_create_fs s path start sz =
     (let s = master_init s in
      if sz mod 512 \<noteq> 0 then Some (INODE_FAIL, s)
      else do {
        let dev = snd (dev_open (bc_hw (fs_cache s)) path 0);
        let s = snd (master_alloc s dev);
        i \<leftarrow> master_get s dev;
        let s = upd_master s i (make_master start sz);
        let m = master_tab s ! i;
        (r, hw) \<leftarrow> dev_write (bc_hw (fs_cache s)) dev start (master_image m);
        hw \<leftarrow> dev_zero hw dev (inode_map_start m) (inode_map_end m);
        hw \<leftarrow> dev_zero hw dev (bmap_map_start m) (bmap_map_end m);
        hw \<leftarrow> dev_zero hw dev (inode_start m) (inode_end m);
        let s = s\<lparr>fs_cache := block_reinit ((fs_cache s)\<lparr>bc_hw := hw\<rparr>)\<rparr>;
        Some (INODE_OK, master_free s dev)
      })"

definition inode_mkfs :: "fsys \<Rightarrow> bytes \<Rightarrow> u32 \<Rightarrow> (inode_rtvl \<times> fsys) option" where
  "inode_mkfs s path sz = inode_create_fs s path BLOCK_START (sz - TWOMEG)"

section \<open>The fields of one map\<close>

datatype map_kind = IMAP | BMAP

fun map_ptr :: "map_kind \<Rightarrow> master_inode \<Rightarrow> u32" where
  "map_ptr IMAP m = imap_ptr m"
| "map_ptr BMAP m = bmap_ptr m"

fun map_pos :: "map_kind \<Rightarrow> master_inode \<Rightarrow> u32" where
  "map_pos IMAP m = imap_bit m"
| "map_pos BMAP m = bmap_bit m"

fun map_start :: "map_kind \<Rightarrow> master_inode \<Rightarrow> u32" where
  "map_start IMAP m = inode_map_start m"
| "map_start BMAP m = bmap_map_start m"

fun map_end :: "map_kind \<Rightarrow> master_inode \<Rightarrow> u32" where
  "map_end IMAP m = inode_map_end m"
| "map_end BMAP m = bmap_map_end m"

text \<open>The first block the map's bit 0 stands for, and the pointer to the block in memory.\<close>

fun map_first :: "map_kind \<Rightarrow> master_inode \<Rightarrow> u32" where
  "map_first IMAP m = inode_start m"
| "map_first BMAP m = data_start m"

fun map_addr :: "map_kind \<Rightarrow> master_inode \<Rightarrow> u32" where
  "map_addr IMAP m = imap m"
| "map_addr BMAP m = bmap m"

fun set_ptr :: "map_kind \<Rightarrow> u32 \<Rightarrow> master_inode \<Rightarrow> master_inode" where
  "set_ptr IMAP v m = m\<lparr>imap_ptr := v\<rparr>"
| "set_ptr BMAP v m = m\<lparr>bmap_ptr := v\<rparr>"

fun set_mbit :: "map_kind \<Rightarrow> u32 \<Rightarrow> master_inode \<Rightarrow> master_inode" where
  "set_mbit IMAP v m = m\<lparr>imap_bit := v\<rparr>"
| "set_mbit BMAP v m = m\<lparr>bmap_bit := v\<rparr>"

fun set_addr :: "map_kind \<Rightarrow> u32 \<Rightarrow> master_inode \<Rightarrow> master_inode" where
  "set_addr IMAP v m = m\<lparr>imap := v\<rparr>"
| "set_addr BMAP v m = m\<lparr>bmap := v\<rparr>"

fun map_base :: "map_kind \<Rightarrow> fsys \<Rightarrow> u32" where
  "map_base IMAP s = imap_base s"
| "map_base BMAP s = bmap_base s"

fun map_memory :: "map_kind \<Rightarrow> fsys \<Rightarrow> bytes list" where
  "map_memory IMAP s = master_imap_memory s"
| "map_memory BMAP s = master_bmap_memory s"

fun set_memory :: "map_kind \<Rightarrow> nat \<Rightarrow> bytes \<Rightarrow> fsys \<Rightarrow> fsys" where
  "set_memory IMAP j v s = s\<lparr>master_imap_memory := (master_imap_memory s)[j := v]\<rparr>"
| "set_memory BMAP j v s = s\<lparr>master_bmap_memory := (master_bmap_memory s)[j := v]\<rparr>"

text \<open>
  Following the pointer \<open>master->imap\<close> or \<open>master->bmap\<close>: the entry of the map memory
  it points to; a pointer to anything else is \<open>None\<close>, and so is the operation.
\<close>

definition map_slot :: "map_kind \<Rightarrow> fsys \<Rightarrow> nat \<Rightarrow> nat option" where
  "map_slot w s i =
     (let off = unat (map_addr w (master_tab s ! i) - map_base w s) in
      if off mod DEV_BLOCK_SIZE = 0 \<and> off div DEV_BLOCK_SIZE < INODE_NR_DEV
      then Some (off div DEV_BLOCK_SIZE) else None)"

text \<open>\<open>block_read (dev, master->map_ptr, master->map)\<close>.\<close>

definition map_load :: "map_kind \<Rightarrow> fsys \<Rightarrow> int \<Rightarrow> nat \<Rightarrow> (block_rtvl \<times> fsys) option" where
  "map_load w s dev i = do {
     j \<leftarrow> map_slot w s i;
     (r, buf, c) \<leftarrow> block_read (fs_cache s) dev (map_ptr w (master_tab s ! i)) (Some (map_memory w s ! j));
     let s = s\<lparr>fs_cache := c\<rparr>;
     let s = (case buf of Some b \<Rightarrow> set_memory w j b s | None \<Rightarrow> s);
     Some (r, if r \<noteq> BLOCK_OK then s\<lparr>fs_errno := EACCES\<rparr> else s)
   }"

text \<open>Pointing the master at its map memory, when the device was not opened before.\<close>

definition map_attach :: "map_kind \<Rightarrow> fsys \<Rightarrow> int \<Rightarrow> nat \<Rightarrow> fsys" where
  "map_attach w s j i = upd_master s i (set_addr w (map_base w s + 512 * word_of_int j))"

section \<open>Opening a file system\<close>

text \<open>
  \<open>inode_dev_open\<close> loads the master inode over the entry just allocated, then one
  block of each map. \<open>open_map\<close> is the part repeated for each map.
\<close>

definition open_map :: "map_kind \<Rightarrow> fsys \<Rightarrow> int \<Rightarrow> nat \<Rightarrow> int \<Rightarrow> (block_rtvl \<times> fsys) option" where
  "open_map w s dev i j =
     (let s = map_attach w s j i;
          s = upd_master s i (\<lambda>m. if map_ptr w m = 0 then set_mbit w 0 (set_ptr w (map_start w m) m) else m)
      in map_load w s dev i)"

definition dev_fail :: "fsys \<Rightarrow> int \<Rightarrow> inode_rtvl \<Rightarrow> (inode_rtvl \<times> int \<times> fsys) option" where
  "dev_fail s dev r = Some (r, dev, master_free s dev)"

definition open_maps :: "fsys \<Rightarrow> int \<Rightarrow> nat \<Rightarrow> (inode_rtvl \<times> int \<times> fsys) option" where
  "open_maps s dev i =
     (let j = master_get_mem_ptr s dev in
      if j = - 1 then dev_fail s dev INODE_FAIL
      else do {
        (r, s) \<leftarrow> open_map BMAP s dev i j;
        if r \<noteq> BLOCK_OK then dev_fail s dev INODE_FAIL
        else do {
          (r, s) \<leftarrow> open_map IMAP s dev i j;
          if r \<noteq> BLOCK_OK then dev_fail s dev INODE_FAIL else Some (INODE_OK, dev, s)
        }
      })"

text \<open>The return value, the new \<open>*dev\<close>, the new state.\<close>

definition inode_dev_open :: "fsys \<Rightarrow> bytes option \<Rightarrow> int \<Rightarrow> (inode_rtvl \<times> int \<times> fsys) option" where
  "inode_dev_open s path dev0 =
     (let (r, d, c) = block_open (fs_cache s) path (Some dev0);
          s = s\<lparr>fs_cache := c\<rparr>;
          dev = (case d of Some x \<Rightarrow> x | None \<Rightarrow> dev0)
      in if r \<noteq> BLOCK_OK then Some (INODE_FAIL, dev, s)
      else
        let s = snd (master_alloc (master_init s) dev) in
        case master_get s dev of
          None \<Rightarrow> Some (INODE_FAIL, dev, s)
        | Some i \<Rightarrow> do {
            (r, buf, c) \<leftarrow> block_read (fs_cache s) dev BLOCK_START (Some (master_image (master_tab s ! i)));
            let s = s\<lparr>fs_cache := c\<rparr>;
            let s = upd_master s i (\<lambda>m. case buf of Some b \<Rightarrow> read_master b | None \<Rightarrow> m);
            if r \<noteq> BLOCK_OK then Some (INODE_FAIL, dev, s\<lparr>fs_errno := EACCES\<rparr>)
            else if magic (master_tab s ! i) \<noteq> INODE_MAGIC
            then do {
              (r, b) \<leftarrow> dev_read (bc_hw (fs_cache s)) dev BLOCK_START;
              let s = upd_master s i (\<lambda>m. read_master b);
              if r \<noteq> DEV_OK then Some (INODE_INIT, dev, s\<lparr>fs_errno := EACCES\<rparr>)
              else if magic (master_tab s ! i) \<noteq> INODE_MAGIC then dev_fail s dev INODE_INIT
              else if init_fs (master_tab s ! i) \<noteq> 1 then dev_fail s dev INODE_INIT
              else open_maps s dev i
            }
            else if init_fs (master_tab s ! i) \<noteq> 1 then dev_fail s dev INODE_INIT
            else open_maps s dev i
          })"

section \<open>Allocating and freeing blocks\<close>

text \<open>
  Taking the block of a clear bit: the bit is set in memory, the master inode and the
  map block are written. The result is the return value and the new \<open>*block\<close>.
\<close>

definition map_take :: "map_kind \<Rightarrow> fsys \<Rightarrow> int \<Rightarrow> nat \<Rightarrow> u32 \<Rightarrow> u32 \<Rightarrow> (inode_rtvl \<times> u32 \<times> fsys) option" where
  "map_take w s dev i ptr b = do {
     j \<leftarrow> map_slot w s i;
     let s = set_memory w j (bit_set (map_memory w s ! j) (unat b) 1) s;
     let s = upd_master s i (set_mbit w b);
     let m = master_tab s ! i;
     (r, c) \<leftarrow> block_write (fs_cache s) dev (block_start m) (master_image m);
     let s = s\<lparr>fs_cache := c\<rparr>;
     if r \<noteq> BLOCK_OK then Some (INODE_FAIL, INODE_NOPOS, s\<lparr>fs_errno := EACCES\<rparr>)
     else do {
       (r, c) \<leftarrow> block_write (fs_cache s) dev ptr (map_memory w s ! j);
       let s = s\<lparr>fs_cache := c\<rparr>;
       if r \<noteq> BLOCK_OK then Some (INODE_FAIL, INODE_NOPOS, s\<lparr>fs_errno := EACCES\<rparr>)
       else Some (INODE_OK, map_first w m + (ptr - map_start w m) * 512 + b, s)
     }
   }"

text \<open>The \<open>do ... while (pass < INODE_NR_PASS)\<close> loop over the bits of the map.\<close>

partial_function (option) map_scan ::
    "map_kind \<Rightarrow> fsys \<Rightarrow> int \<Rightarrow> nat \<Rightarrow> u32 \<Rightarrow> u32 \<Rightarrow> u32 \<Rightarrow> (inode_rtvl \<times> u32 \<times> fsys) option" where
  "map_scan w s dev i ptr b pass = do {
     j \<leftarrow> map_slot w s i;
     if bit_get (map_memory w s ! j) (unat b) = 0 then map_take w s dev i ptr b
     else
       let b' = (b + 1) mod 512; s = upd_master s i (set_mbit w b') in
       if b' \<noteq> 0
       then if pass < INODE_NR_PASS then map_scan w s dev i ptr b' pass else Some (INODE_FAIL, INODE_NULL, s)
       else if ptr + 1 < map_end w (master_tab s ! i)
       then do {
         (r, s) \<leftarrow> map_load w (upd_master s i (set_ptr w (ptr + 1))) dev i;
         if r \<noteq> BLOCK_OK then Some (INODE_FAIL, INODE_NOPOS, s)
         else if pass < INODE_NR_PASS then map_scan w s dev i (ptr + 1) b' pass
         else Some (INODE_FAIL, INODE_NULL, s)
       }
       else
         let p = map_start w (master_tab s ! i) in do {
         (r, s) \<leftarrow> map_load w (upd_master s i (set_ptr w p)) dev i;
         if r \<noteq> BLOCK_OK then Some (INODE_FAIL, INODE_NOPOS, s)
         else if pass + 1 < INODE_NR_PASS then map_scan w s dev i p b' (pass + 1)
         else Some (INODE_FAIL, INODE_NULL, s)
       }
   }"

text \<open>
  The start of the four functions: a master whose map pointer is 0 is given its map
  memory and the first block of the map. \<open>Inl\<close> is an early return.
\<close>

definition map_ensure :: "map_kind \<Rightarrow> bool \<Rightarrow> fsys \<Rightarrow> int \<Rightarrow> nat \<Rightarrow> (fsys + (u32 \<times> u32 \<times> fsys)) option" where
  "map_ensure w check s dev i =
     (let m = master_tab s ! i in
      if map_ptr w m \<noteq> 0 then Some (Inr (map_ptr w m, map_pos w m, s))
      else if check \<and> init_fs m = 0 then Some (Inl s)
      else
        let s = upd_master s i (set_ptr w (map_start w m)); j = master_get_mem_ptr s dev in
        if j = - 1 then Some (Inl s)
        else do {
          (r, s) \<leftarrow> map_load w (map_attach w s j i) dev i;
          Some (if r \<noteq> BLOCK_OK then Inl s else Inr (map_ptr w (master_tab s ! i), 0, s))
        })"

definition map_get_block :: "map_kind \<Rightarrow> fsys \<Rightarrow> int \<Rightarrow> u32 \<Rightarrow> (inode_rtvl \<times> u32 \<times> fsys) option" where
  "map_get_block w s dev blk =
     (case master_get s dev of
        None \<Rightarrow> Some (INODE_FAIL, blk, s)
      | Some i \<Rightarrow> do {
          x \<leftarrow> map_ensure w True s dev i;
          (case x of
             Inl s \<Rightarrow> Some (INODE_FAIL, INODE_NOPOS, s)
           | Inr (ptr, b, s) \<Rightarrow> map_scan w s dev i ptr b 0)
        })"

definition inode_get_data_block :: "fsys \<Rightarrow> int \<Rightarrow> u32 \<Rightarrow> (inode_rtvl \<times> u32 \<times> fsys) option" where
  "inode_get_data_block s dev blk = map_get_block BMAP s dev blk"

definition inode_get_inode_block :: "fsys \<Rightarrow> int \<Rightarrow> u32 \<Rightarrow> (inode_rtvl \<times> u32 \<times> fsys) option" where
  "inode_get_inode_block s dev blk = map_get_block IMAP s dev blk"

text \<open>Freeing clears the bit in memory; nothing is written.\<close>

definition map_clear :: "map_kind \<Rightarrow> fsys \<Rightarrow> nat \<Rightarrow> u32 \<Rightarrow> (inode_rtvl \<times> fsys) option" where
  "map_clear w s i b = do {
     j \<leftarrow> map_slot w s i;
     if bit_get (map_memory w s ! j) (unat b) = 0 then Some (INODE_OK, s)
     else Some (INODE_OK, set_memory w j (bit_set (map_memory w s ! j) (unat b) 0) s)
   }"

definition map_free_block :: "map_kind \<Rightarrow> fsys \<Rightarrow> int \<Rightarrow> u32 \<Rightarrow> (inode_rtvl \<times> fsys) option" where
  "map_free_block w s dev blk =
     (case master_get s dev of
        None \<Rightarrow> Some (INODE_FAIL, s)
      | Some i \<Rightarrow> do {
          x \<leftarrow> map_ensure w False s dev i;
          (case x of
             Inl s \<Rightarrow> Some (INODE_FAIL, s)
           | Inr (_, _, s) \<Rightarrow>
             let n = blk - map_first w (master_tab s ! i);
                 ptr = n div 512 + map_start w (master_tab s ! i);
                 b = n mod 512
             in if ptr \<noteq> map_ptr w (master_tab s ! i)
                then do {
                  (r, s) \<leftarrow> map_load w (upd_master s i (\<lambda>m. set_mbit w b (set_ptr w ptr m))) dev i;
                  if r \<noteq> BLOCK_OK then Some (INODE_FAIL, s) else map_clear w s i b
                }
                else map_clear w (upd_master s i (set_mbit w b)) i b)
        })"

definition inode_free_data_block :: "fsys \<Rightarrow> int \<Rightarrow> u32 \<Rightarrow> (inode_rtvl \<times> fsys) option" where
  "inode_free_data_block s dev blk = map_free_block BMAP s dev blk"

definition inode_free_inode_block :: "fsys \<Rightarrow> int \<Rightarrow> u32 \<Rightarrow> (inode_rtvl \<times> fsys) option" where
  "inode_free_inode_block s dev blk = map_free_block IMAP s dev blk"

section \<open>Closing\<close>

text \<open>\<open>block_write (dev, master->map_ptr, master->map)\<close>.\<close>

definition map_store :: "map_kind \<Rightarrow> fsys \<Rightarrow> int \<Rightarrow> nat \<Rightarrow> (block_rtvl \<times> fsys) option" where
  "map_store w s dev i = do {
     j \<leftarrow> map_slot w s i;
     (r, c) \<leftarrow> block_write (fs_cache s) dev (map_ptr w (master_tab s ! i)) (map_memory w s ! j);
     let s = s\<lparr>fs_cache := c\<rparr>;
     Some (r, if r \<noteq> BLOCK_OK then s\<lparr>fs_errno := EACCES\<rparr> else s)
   }"

definition inode_dev_close :: "block_rtvl \<Rightarrow> fsys \<Rightarrow> int \<Rightarrow> (inode_rtvl \<times> fsys) option" where
  "inode_dev_close leftover s dev =
     (case master_get s dev of
        None \<Rightarrow> Some (INODE_FAIL, s)
      | Some i \<Rightarrow> do {
          (r, s) \<leftarrow> map_store IMAP s dev i;
          if r \<noteq> BLOCK_OK then Some (INODE_FAIL, s) else do {
          (r, s) \<leftarrow> map_store BMAP s dev i;
          if r \<noteq> BLOCK_OK then Some (INODE_FAIL, s) else do {
          let m = master_tab s ! i;
          (r, c) \<leftarrow> block_write (fs_cache s) dev (block_start m) (master_image m);
          let s = s\<lparr>fs_cache := c\<rparr>;
          if r \<noteq> BLOCK_OK then Some (INODE_FAIL, s\<lparr>fs_errno := EACCES\<rparr>) else do {
          (r, c) \<leftarrow> block_close leftover (fs_cache s) dev;
          let s = s\<lparr>fs_cache := c\<rparr>;
          if r \<noteq> BLOCK_OK then Some (INODE_FAIL, s) else do {
          let s = s\<lparr>master_dev_tab := map (\<lambda>(p, d). if d = dev then (None, 0) else (p, d)) (master_dev_tab s)\<rparr>;
          Some (INODE_OK, master_free s dev)
        }}}}})"

section \<open>Field laws\<close>

lemma map_fields [simp]:
  "map_ptr w' (set_ptr w v m) = (if w' = w then v else map_ptr w' m)"
  "map_pos w' (set_mbit w v m) = (if w' = w then v else map_pos w' m)"
  "map_addr w' (set_addr w v m) = (if w' = w then v else map_addr w' m)"
  "map_ptr w' (set_mbit w v m) = map_ptr w' m" "map_pos w' (set_ptr w v m) = map_pos w' m"
  "map_ptr w' (set_addr w v m) = map_ptr w' m" "map_pos w' (set_addr w v m) = map_pos w' m"
  "map_addr w' (set_ptr w v m) = map_addr w' m" "map_addr w' (set_mbit w v m) = map_addr w' m"
  by (cases w; cases w'; simp)+

lemma map_memory_set [simp]:
  "map_memory w' (set_memory w j v s) = (if w' = w then (map_memory w' s)[j := v] else map_memory w' s)"
  by (cases w; cases w'; simp)

lemma set_memory_frame [simp]:
  "fs_cache (set_memory w j v s) = fs_cache s" "master_tab (set_memory w j v s) = master_tab s"
  "map_base w' (set_memory w j v s) = map_base w' s" "init_master (set_memory w j v s) = init_master s"
  "master_dev_tab (set_memory w j v s) = master_dev_tab s"
  by (cases w; cases w'; simp)+

lemma upd_master_frame [simp]:
  "fs_cache (upd_master s i f) = fs_cache s" "map_memory w (upd_master s i f) = map_memory w s"
  "map_base w (upd_master s i f) = map_base w s" "init_master (upd_master s i f) = init_master s"
  "length (master_tab (upd_master s i f)) = length (master_tab s)"
  "master_dev_tab (upd_master s i f) = master_dev_tab s"
  "i < length (master_tab s) \<Longrightarrow> master_tab (upd_master s i f) ! j = (if j = i then f (master_tab s ! i) else master_tab s ! j)"
  by (cases w; simp add: upd_master_def nth_list_update)+

lemma cache_frame [simp]:
  "map_memory w (s\<lparr>fs_cache := c\<rparr>) = map_memory w s" "map_base w (s\<lparr>fs_cache := c\<rparr>) = map_base w s"
  "upd_master (s\<lparr>fs_cache := c\<rparr>) i f = (upd_master s i f)\<lparr>fs_cache := c\<rparr>"
  by (cases w; simp add: upd_master_def)+

text \<open>The fields of a master that allocation leaves alone: all but the two positions.\<close>

definition same_geom :: "master_inode \<Rightarrow> master_inode \<Rightarrow> bool" where
  "same_geom m m' \<longleftrightarrow> m' = m\<lparr>imap_ptr := imap_ptr m', imap_bit := imap_bit m', bmap_ptr := bmap_ptr m', bmap_bit := bmap_bit m'\<rparr>"

lemma same_geom_refl [simp]: "same_geom m m"
  by (simp add: same_geom_def)

lemma same_geom_trans: "same_geom a b \<Longrightarrow> same_geom b c \<Longrightarrow> same_geom a c"
  unfolding same_geom_def by (cases a; cases b; cases c; simp)

lemma same_geom_set [simp]: "same_geom m (set_ptr w v m)" "same_geom m (set_mbit w v m)"
  by (cases w; simp add: same_geom_def)+

lemma same_geom_fields:
  assumes "same_geom m m'"
  shows "map_start w m' = map_start w m" "map_end w m' = map_end w m" "map_first w m' = map_first w m"
    "map_addr w m' = map_addr w m" "block_start m' = block_start m" "m_dev m' = m_dev m"
    "master_wf m' = master_wf m" "init_fs m' = init_fs m"
  using assms by (cases w; cases m; cases m'; simp add: same_geom_def master_wf_def)+

lemma set_fields [simp]:
  "map_start w' (set_ptr w v m) = map_start w' m" "map_end w' (set_ptr w v m) = map_end w' m"
  "map_first w' (set_ptr w v m) = map_first w' m" "map_start w' (set_mbit w v m) = map_start w' m"
  "map_end w' (set_mbit w v m) = map_end w' m" "map_first w' (set_mbit w v m) = map_first w' m"
  "m_dev (set_ptr w v m) = m_dev m" "m_dev (set_mbit w v m) = m_dev m"
  "block_start (set_ptr w v m) = block_start m" "block_start (set_mbit w v m) = block_start m"
  by (simp_all add: same_geom_fields [OF same_geom_set(1)] same_geom_fields [OF same_geom_set(2)])

section \<open>The state of an open file system\<close>

text \<open>The regions of the header: the master, the inode map, the block map, in this order.\<close>

definition geom_ok :: "master_inode \<Rightarrow> bool" where
  "geom_ok m \<longleftrightarrow> master_wf m \<and> unat (block_start m) < unat (inode_map_start m) \<and>
     unat (inode_map_start m) < unat (inode_map_end m) \<and> unat (inode_map_end m) \<le> unat (bmap_map_start m) \<and>
     unat (bmap_map_start m) < unat (bmap_map_end m) \<and> unat (bmap_map_end m) \<le> CHS_LIMIT"

text \<open>
  The map block in memory is one of the map's blocks, and every bit set in it is set in
  the block as the cache shows it: bits cleared in memory have not been written.
\<close>

definition map_ok :: "map_kind \<Rightarrow> fsys \<Rightarrow> int \<Rightarrow> nat \<Rightarrow> bool" where
  "map_ok w s dev i \<longleftrightarrow> (let m = master_tab s ! i; mem = map_memory w s ! i in
     length (map_memory w s) = INODE_NR_DEV \<and> map_addr w m = map_base w s + 512 * of_nat i \<and>
     length mem = DEV_BLOCK_SIZE \<and>
     unat (map_start w m) \<le> unat (map_ptr w m) \<and> unat (map_ptr w m) < unat (map_end w m) \<and>
     unat (map_pos w m) < 512 \<and>
     (\<forall>k < 4096. bit_get mem k = 1 \<longrightarrow> bit_get (view (fs_cache s) dev (map_ptr w m)) k = 1))"

text \<open>The file system of \<open>dev\<close> is open in entry \<open>i\<close>, with cache room for \<open>n\<close> operations.\<close>

definition fs_inv :: "fsys \<Rightarrow> int \<Rightarrow> nat \<Rightarrow> nat \<Rightarrow> bool" where
  "fs_inv s dev i n \<longleftrightarrow> cache_inv (fs_cache s) n \<and> (dev = 0 \<or> dev = 1) \<and> i < INODE_NR_DEV \<and>
     length (master_tab s) = INODE_NR_DEV \<and> master_get s dev = Some i \<and> geom_ok (master_tab s ! i) \<and>
     map_ok IMAP s dev i \<and> map_ok BMAP s dev i"

definition map_len :: "map_kind \<Rightarrow> master_inode \<Rightarrow> nat" where
  "map_len w m = unat (map_end w m) - unat (map_start w m)"

text \<open>
  The numbers a map marks as allocated: as the running system sees them (the block in
  memory counts) and as the blocks of the device show them.
\<close>

definition allocated :: "map_kind \<Rightarrow> fsys \<Rightarrow> int \<Rightarrow> nat \<Rightarrow> nat set" where
  "allocated w s dev i = (let m = master_tab s ! i in
     {k. k < 512 * map_len w m \<and>
         bit_get (let p = map_start w m + of_nat (k div 512) in
                  if p = map_ptr w m then map_memory w s ! i else view (fs_cache s) dev p) (k mod 512) = 1})"

definition recorded :: "map_kind \<Rightarrow> fsys \<Rightarrow> int \<Rightarrow> nat \<Rightarrow> nat set" where
  "recorded w s dev i = (let m = master_tab s ! i in
     {k. k < 512 * map_len w m \<and>
         bit_get (view (fs_cache s) dev (map_start w m + of_nat (k div 512))) (k mod 512) = 1})"

lemma geom_bounds:
  assumes "geom_ok m"
  shows "unat (block_start m) < unat (map_start w m)" "unat (map_start w m) < unat (map_end w m)"
    "unat (map_end w m) \<le> CHS_LIMIT"
  using assms by (cases w; simp add: geom_ok_def)+

lemma geom_ok_same: "same_geom m m' \<Longrightarrow> geom_ok m' = geom_ok m"
  using same_geom_fields(1,2) [of m m' IMAP] same_geom_fields(1,2) [of m m' BMAP] same_geom_fields(5,7) [of m m']
  by (simp add: geom_ok_def)

lemma geom_disjoint:
  assumes "geom_ok m" "w \<noteq> w'" "unat (map_start w m) \<le> unat p" "unat p < unat (map_end w m)"
  shows "\<not> (unat (map_start w' m) \<le> unat p \<and> unat p < unat (map_end w' m))"
  using assms by (cases w; cases w'; simp add: geom_ok_def)

text \<open>Block \<open>q\<close> of a map.\<close>

lemma map_blk:
  assumes "geom_ok m" "q < map_len w m"
  shows "unat (map_start w m + of_nat q) = unat (map_start w m) + q"
    "unat (map_start w m) + q < unat (map_end w m)"
    "dev = 0 \<or> dev = 1 \<Longrightarrow> addr_ok dev (map_start w m + of_nat q)"
proof -
  note b = geom_bounds [OF assms(1), of w]
  show 1: "unat (map_start w m) + q < unat (map_end w m)" using assms(2) by (simp add: map_len_def)
  have "unat (of_nat q :: u32) = q" using 1 b(3) by (intro unat_of_nat32) simp
  then show 2: "unat (map_start w m + of_nat q) = unat (map_start w m) + q"
    using 1 b(3) by (subst u32_add_unat) simp_all
  show "addr_ok dev (map_start w m + of_nat q)" if "dev = 0 \<or> dev = 1"
    using that 1 2 b(3) by (auto simp: addr_ok_def)
qed

lemma map_blk_of:
  assumes "unat (map_start w m) \<le> unat p" "unat p < unat (map_end w m)"
  obtains q where "q < map_len w m" "p = map_start w m + of_nat q"
proof
  show "unat p - unat (map_start w m) < map_len w m" using assms by (simp add: map_len_def)
  show "p = map_start w m + of_nat (unat p - unat (map_start w m))"
    using assms(1) by (simp add: of_nat_diff)
qed

lemma word_mult_512: "i < 16 \<Longrightarrow> unat (512 * of_nat i :: u32) = 512 * i"
  by (subst u32_mult_unat) (simp_all add: unat_of_nat32)

lemma map_slot_ok:
  assumes "map_addr w (master_tab s ! i) = map_base w s + 512 * of_nat i" "i < INODE_NR_DEV"
  shows "map_slot w s i = Some i"
  using assms by (simp add: map_slot_def word_mult_512)

lemma fs_invD:
  assumes "fs_inv s dev i n"
  shows "cache_inv (fs_cache s) n" "dev = 0 \<or> dev = 1" "i < INODE_NR_DEV" "i < length (master_tab s)"
    "length (master_tab s) = INODE_NR_DEV" "master_get s dev = Some i" "geom_ok (master_tab s ! i)"
    "map_ok w s dev i" "addr_ok dev (block_start (master_tab s ! i))"
    "addr_ok dev (map_ptr w (master_tab s ! i))" "map_slot w s i = Some i" "i < length (map_memory w s)"
proof -
  show 1: "map_ok w s dev i" using assms by (cases w; simp add: fs_inv_def)
  show "addr_ok dev (block_start (master_tab s ! i))" "addr_ok dev (map_ptr w (master_tab s ! i))"
    using assms 1 geom_bounds [of "master_tab s ! i" w] by (auto simp: addr_ok_def fs_inv_def map_ok_def Let_def)
  show "map_slot w s i = Some i" "i < length (map_memory w s)"
    using assms 1 by (auto simp: fs_inv_def map_ok_def Let_def intro: map_slot_ok)
qed (use assms in \<open>simp_all add: fs_inv_def\<close>)

text \<open>What a step has to give to keep the invariant.\<close>

lemma fs_inv_keep:
  assumes "fs_inv s dev i n" "cache_inv (fs_cache s') n'" "master_tab s' = (master_tab s)[i := m']"
    "same_geom (master_tab s ! i) m'" "\<And>w. map_ok w s' dev i"
  shows "fs_inv s' dev i n'"
proof -
  note d = fs_invD [OF assms(1)]
  have m': "master_tab s' ! i = m'" using d(4) by (simp add: assms(3))
  have "m_dev (master_tab s' ! j) = m_dev (master_tab s ! j)" for j
    using d(4) same_geom_fields(6) [OF assms(4)] by (simp add: assms(3) nth_list_update)
  then have "master_get s' dev = master_get s dev" by (simp add: master_get_def)
  then show ?thesis
    using d assms(2,5) geom_ok_same [OF assms(4)] by (simp add: fs_inv_def m') (simp add: assms(3))
qed

lemma cache_read:
  assumes "cache_inv c (Suc n)" "addr_ok dev b"
  obtains c' where "block_read c dev b (Some buf) = Some (BLOCK_OK, Some (view c dev b), c')" "cache_inv c' n"
    "\<And>dev' b'. addr_ok dev' b' \<Longrightarrow> view c' dev' b' = view c dev' b'"
  using block_read_correct [of c n dev b buf] assms unfolding cache_inv_def by blast

lemma cache_write:
  assumes "cache_inv c (Suc n)" "addr_ok dev b" "length data = DEV_BLOCK_SIZE"
  obtains c' where "block_write c dev b data = Some (BLOCK_OK, c')" "cache_inv c' n"
    "\<And>dev' b'. addr_ok dev' b' \<Longrightarrow> view c' dev' b' = (if dev' = dev \<and> b' = b then data else view c dev' b')"
  using block_write_correct [of c n dev b data] assms unfolding cache_inv_def by blast

lemma upd_master_upd [simp]:
  "i < length (master_tab s) \<Longrightarrow> upd_master (upd_master s i f) i g = upd_master s i (\<lambda>m. g (f m))"
  by (simp add: upd_master_def)

lemma set_ptr_set_bit: "set_ptr w p (set_mbit w b m) = set_mbit w b (set_ptr w p m)"
  by (cases w; simp)

lemma map_load_eq:
  assumes "map_slot w s i = Some i"
    "block_read (fs_cache s) dev (map_ptr w (master_tab s ! i)) (Some (map_memory w s ! i)) = Some (BLOCK_OK, Some v, c')"
  shows "map_load w s dev i = Some (BLOCK_OK, set_memory w i v (s\<lparr>fs_cache := c'\<rparr>))"
  using assms by (simp add: map_load_def)

lemma map_load_ok:
  assumes "map_slot w s i = Some i" "cache_inv (fs_cache s) (Suc n)" "addr_ok dev (map_ptr w (master_tab s ! i))"
  obtains c' where "map_load w s dev i =
      Some (BLOCK_OK, set_memory w i (view (fs_cache s) dev (map_ptr w (master_tab s ! i))) (s\<lparr>fs_cache := c'\<rparr>))"
    "cache_inv c' n" "\<And>dev' b'. addr_ok dev' b' \<Longrightarrow> view c' dev' b' = view (fs_cache s) dev' b'"
proof -
  obtain c' where "block_read (fs_cache s) dev (map_ptr w (master_tab s ! i)) (Some (map_memory w s ! i)) =
      Some (BLOCK_OK, Some (view (fs_cache s) dev (map_ptr w (master_tab s ! i))), c')" "cache_inv c' n"
    "\<And>dev' b'. addr_ok dev' b' \<Longrightarrow> view c' dev' b' = view (fs_cache s) dev' b'"
    using cache_read [OF assms(2,3)] by blast
  then show thesis using map_load_eq [OF assms(1)] that by blast
qed

lemma map_okI:
  assumes "map_ok w s dev i" "map_base w s' = map_base w s" "length (map_memory w s') = INODE_NR_DEV"
    "same_geom (master_tab s ! i) (master_tab s' ! i)" "length (map_memory w s' ! i) = DEV_BLOCK_SIZE"
    "unat (map_start w (master_tab s ! i)) \<le> unat (map_ptr w (master_tab s' ! i))"
    "unat (map_ptr w (master_tab s' ! i)) < unat (map_end w (master_tab s ! i))"
    "unat (map_pos w (master_tab s' ! i)) < 512"
    "\<And>k. k < 4096 \<Longrightarrow> bit_get (map_memory w s' ! i) k = 1 \<Longrightarrow>
       bit_get (view (fs_cache s') dev (map_ptr w (master_tab s' ! i))) k = 1"
  shows "map_ok w s' dev i"
  using assms same_geom_fields [OF assms(4)] by (simp add: map_ok_def Let_def)

text \<open>Loading block \<open>p\<close> of a map in place of the one in memory.\<close>

lemma load_block:
  assumes inv: "fs_inv s dev i (Suc n)"
    and p: "unat (map_start w (master_tab s ! i)) \<le> unat p" "unat p < unat (map_end w (master_tab s ! i))"
    and b: "unat b < 512"
  obtains c' where "map_load w (upd_master s i (\<lambda>m. set_mbit w b (set_ptr w p m))) dev i =
      Some (BLOCK_OK, set_memory w i (view (fs_cache s) dev p)
        ((upd_master s i (\<lambda>m. set_mbit w b (set_ptr w p m)))\<lparr>fs_cache := c'\<rparr>))"
    "fs_inv (set_memory w i (view (fs_cache s) dev p)
        ((upd_master s i (\<lambda>m. set_mbit w b (set_ptr w p m)))\<lparr>fs_cache := c'\<rparr>)) dev i n"
    "\<And>dev' b'. addr_ok dev' b' \<Longrightarrow> view c' dev' b' = view (fs_cache s) dev' b'"
proof -
  let ?s = "upd_master s i (\<lambda>m. set_mbit w b (set_ptr w p m))"
  note d = fs_invD [OF inv]
  have len: "length (view (fs_cache s) dev p) = 512"
    using d(1) by (simp add: cache_inv_def length_view)
  have pa: "addr_ok dev p" using p geom_bounds [OF d(7), of w] d(2) by (auto simp: addr_ok_def)
  have "map_slot w ?s i = Some i" using d(3,4) d(8) [of w] by (intro map_slot_ok) (simp_all add: map_ok_def Let_def)
  moreover have "map_ptr w (master_tab ?s ! i) = p" using d(4) by simp
  ultimately obtain c' where c': "map_load w ?s dev i = Some (BLOCK_OK, set_memory w i (view (fs_cache s) dev p) (?s\<lparr>fs_cache := c'\<rparr>))"
    "cache_inv c' n" "\<And>dev' b'. addr_ok dev' b' \<Longrightarrow> view c' dev' b' = view (fs_cache s) dev' b'"
    using map_load_ok [of w ?s i n dev] d(1) pa by auto
  let ?t = "set_memory w i (view (fs_cache s) dev p) (?s\<lparr>fs_cache := c'\<rparr>)"
  have g: "same_geom (master_tab s ! i) (set_mbit w b (set_ptr w p (master_tab s ! i)))"
    by (rule same_geom_trans [OF same_geom_set(1) same_geom_set(2)])
  have "map_ok w' ?t dev i" for w'
    using d(4) d(8) [of w'] d(10) [of w'] d(12) [of w'] g p b len pa
    by (intro map_okI [OF d(8) [of w']]) (auto simp: c'(3) map_ok_def Let_def)
  then have "fs_inv ?t dev i n"
    using g c'(2) by (intro fs_inv_keep [OF inv]) (simp_all add: upd_master_def)
  then show thesis by (rule that [OF c'(1) _ c'(3)])
qed

section \<open>Allocation\<close>

lemma allocated_iff:
  "k \<in> allocated w s dev i \<longleftrightarrow> k < 512 * map_len w (master_tab s ! i) \<and>
     bit_get (let p = map_start w (master_tab s ! i) + of_nat (k div 512) in
       if p = map_ptr w (master_tab s ! i) then map_memory w s ! i else view (fs_cache s) dev p) (k mod 512) = 1"
  by (simp add: allocated_def Let_def)

lemma recorded_iff:
  "k \<in> recorded w s dev i \<longleftrightarrow> k < 512 * map_len w (master_tab s ! i) \<and>
     bit_get (view (fs_cache s) dev (map_start w (master_tab s ! i) + of_nat (k div 512))) (k mod 512) = 1"
  by (simp add: recorded_def Let_def)

lemma allocated_recorded: "fs_inv s dev i n \<Longrightarrow> allocated w s dev i \<subseteq> recorded w s dev i"
  using fs_invD(8) [of s dev i n w]
  by (auto simp: allocated_iff recorded_iff map_ok_def Let_def split: if_splits)

text \<open>The position of a number in its map, back and forth.\<close>

lemma map_blk_inj:
  assumes "geom_ok m" "q < map_len w m" "q' < map_len w m"
  shows "map_start w m + of_nat q = map_start w m + of_nat q' \<longleftrightarrow> q = q'"
  using map_blk(1) [OF assms(1,2)] map_blk(1) [OF assms(1,3)] by (metis add_left_cancel)

lemma blk_lt: "k < 512 * n \<Longrightarrow> k div 512 < (n::nat)"
  by (simp add: div_less_iff_less_mult mult.commute)

lemma map_number:
  assumes "p = map_start w m + of_nat q" "unat b = k"
  shows "(p - map_start w m) * 512 + b = of_nat (512 * q + k)"
  using assms(1) by (simp add: mult.commute assms(2) [symmetric])

lemma cache_pair:
  assumes "cache_inv c (Suc (Suc n))" "addr_ok dev b1" "addr_ok dev b2"
    "length x1 = DEV_BLOCK_SIZE" "length x2 = DEV_BLOCK_SIZE"
  obtains c1 c2 where "block_write c dev b1 x1 = Some (BLOCK_OK, c1)" "block_write c1 dev b2 x2 = Some (BLOCK_OK, c2)"
    "cache_inv c2 n"
    "\<And>dev' b'. addr_ok dev' b' \<Longrightarrow> view c2 dev' b' =
       (if dev' = dev \<and> b' = b2 then x2 else if dev' = dev \<and> b' = b1 then x1 else view c dev' b')"
proof -
  obtain c1 where c1: "block_write c dev b1 x1 = Some (BLOCK_OK, c1)" "cache_inv c1 (Suc n)"
    "\<And>dev' b'. addr_ok dev' b' \<Longrightarrow> view c1 dev' b' = (if dev' = dev \<and> b' = b1 then x1 else view c dev' b')"
    using cache_write [OF assms(1,2,4)] by blast
  obtain c2 where c2: "block_write c1 dev b2 x2 = Some (BLOCK_OK, c2)" "cache_inv c2 n"
    "\<And>dev' b'. addr_ok dev' b' \<Longrightarrow> view c2 dev' b' = (if dev' = dev \<and> b' = b2 then x2 else view c1 dev' b')"
    using cache_write [OF c1(2) assms(3,5)] by blast
  show thesis
    by (rule that [OF c1(1) c2(1,2)]) (subst c2(3), assumption, subst c1(3), assumption, rule refl)
qed

text \<open>
  What one successful allocation does: number \<open>k\<close>, free before, is allocated after,
  and the map on the device shows what the running system sees; the other map, the
  other devices and the blocks outside the header are as before.
\<close>

definition took :: "map_kind \<Rightarrow> fsys \<Rightarrow> int \<Rightarrow> nat \<Rightarrow> nat \<Rightarrow> fsys \<Rightarrow> bool" where
  "took w s dev i k s' \<longleftrightarrow>
     k < 512 * map_len w (master_tab s ! i) \<and> k \<notin> allocated w s dev i \<and>
     map_ptr w (master_tab s' ! i) = map_start w (master_tab s ! i) + of_nat (k div 512) \<and>
     insert k (allocated w s dev i) \<subseteq> allocated w s' dev i \<and> allocated w s' dev i \<subseteq> insert k (recorded w s dev i) \<and>
     recorded w s' dev i = allocated w s' dev i \<and>
     (\<forall>w'. w' \<noteq> w \<longrightarrow> allocated w' s' dev i = allocated w' s dev i \<and> recorded w' s' dev i = recorded w' s dev i)"

definition outside_kept :: "fsys \<Rightarrow> int \<Rightarrow> nat \<Rightarrow> fsys \<Rightarrow> bool" where
  "outside_kept s dev i s' \<longleftrightarrow> same_geom (master_tab s ! i) (master_tab s' ! i) \<and>
     (\<forall>dev' b. addr_ok dev' b \<longrightarrow> dev' \<noteq> dev \<or> unat b < unat (block_start (master_tab s ! i)) \<or>
        unat (bmap_map_end (master_tab s ! i)) \<le> unat b \<longrightarrow> view (fs_cache s') dev' b = view (fs_cache s) dev' b)"

lemma map_take_step:
  assumes inv: "fs_inv s dev i (Suc (Suc n))" and b: "unat b < 512"
    and free: "bit_get (map_memory w s ! i) (unat b) = 0"
  obtains c' where
    "map_take w s dev i (map_ptr w (master_tab s ! i)) b =
       Some (INODE_OK, map_first w (master_tab s ! i) + (map_ptr w (master_tab s ! i) - map_start w (master_tab s ! i)) * 512 + b,
         (upd_master (set_memory w i (bit_set (map_memory w s ! i) (unat b) 1) s) i (set_mbit w b))\<lparr>fs_cache := c'\<rparr>)"
    "cache_inv c' n"
    "\<And>dev' b'. addr_ok dev' b' \<Longrightarrow> view c' dev' b' =
       (if dev' = dev \<and> b' = map_ptr w (master_tab s ! i) then bit_set (map_memory w s ! i) (unat b) 1
        else if dev' = dev \<and> b' = block_start (master_tab s ! i) then master_image (set_mbit w b (master_tab s ! i))
        else view (fs_cache s) dev' b')"
proof -
  note d = fs_invD [OF inv]
  let ?m = "set_mbit w b (master_tab s ! i)"
  let ?v = "bit_set (map_memory w s ! i) (unat b) 1"
  have wf: "master_wf ?m" using d(7) same_geom_fields(7) [OF same_geom_set(2)] by (simp add: geom_ok_def)
  have len: "length ?v = 512" using d(8) [of w] by (simp add: map_ok_def Let_def)
  obtain c1 c2 where c: "block_write (fs_cache s) dev (block_start (master_tab s ! i)) (master_image ?m) = Some (BLOCK_OK, c1)"
    "block_write c1 dev (map_ptr w (master_tab s ! i)) ?v = Some (BLOCK_OK, c2)" "cache_inv c2 n"
    "\<And>dev' b'. addr_ok dev' b' \<Longrightarrow> view c2 dev' b' = (if dev' = dev \<and> b' = map_ptr w (master_tab s ! i) then ?v
        else if dev' = dev \<and> b' = block_start (master_tab s ! i) then master_image ?m else view (fs_cache s) dev' b')"
    using cache_pair [OF d(1) d(9) d(10) image_lengths(1) [OF wf] len] by blast
  show thesis
  proof (rule that [OF _ c(3,4)])
    show "map_take w s dev i (map_ptr w (master_tab s ! i)) b =
       Some (INODE_OK, map_first w (master_tab s ! i) + (map_ptr w (master_tab s ! i) - map_start w (master_tab s ! i)) * 512 + b,
         (upd_master (set_memory w i ?v s) i (set_mbit w b))\<lparr>fs_cache := c2\<rparr>)"
      using d(4) d(11) [of w] d(12) [of w] c(1,2) by (simp add: map_take_def)
  qed
qed

lemma map_ptr_apart:
  assumes "fs_inv s dev i n"
  shows "map_ptr w (master_tab s ! i) \<noteq> block_start (master_tab s ! i)"
    "w' \<noteq> w \<Longrightarrow> map_ptr w' (master_tab s ! i) \<noteq> map_ptr w (master_tab s ! i)"
    "unat (map_ptr w (master_tab s ! i)) < unat (bmap_map_end (master_tab s ! i))"
    "unat (block_start (master_tab s ! i)) < unat (map_ptr w (master_tab s ! i))"
proof -
  note d = fs_invD [OF assms]
  show "unat (block_start (master_tab s ! i)) < unat (map_ptr w (master_tab s ! i))"
    using geom_bounds(1) [OF d(7), of w] d(8) [of w] by (simp add: map_ok_def Let_def)
  then show "map_ptr w (master_tab s ! i) \<noteq> block_start (master_tab s ! i)" by auto
  show "w' \<noteq> w \<Longrightarrow> map_ptr w' (master_tab s ! i) \<noteq> map_ptr w (master_tab s ! i)"
    using geom_disjoint [OF d(7), of w w' "map_ptr w (master_tab s ! i)"] d(8) [of w] d(8) [of w']
    by (auto simp: map_ok_def Let_def)
  show "unat (map_ptr w (master_tab s ! i)) < unat (bmap_map_end (master_tab s ! i))"
    using d(7) d(8) [of w] by (cases w; simp add: map_ok_def Let_def geom_ok_def)
qed

text \<open>A block of a map is neither the master's block nor a block of the other map.\<close>

lemma map_blk_apart:
  assumes inv: "fs_inv s dev i n" and k: "k < 512 * map_len w' (master_tab s ! i)"
  shows "map_start w' (master_tab s ! i) + of_nat (k div 512) \<noteq> block_start (master_tab s ! i)"
    "w' \<noteq> w \<Longrightarrow> map_start w' (master_tab s ! i) + of_nat (k div 512) \<noteq> map_ptr w (master_tab s ! i)"
proof -
  note d = fs_invD [OF inv]
  let ?b = "map_start w' (master_tab s ! i) + of_nat (k div 512)"
  note B = map_blk [OF d(7) blk_lt [OF k]]
  show "?b \<noteq> block_start (master_tab s ! i)"
    using B(1) geom_bounds(1) [OF d(7), of w'] by auto
  assume "w' \<noteq> w"
  then show "?b \<noteq> map_ptr w (master_tab s ! i)"
    using geom_disjoint [OF d(7), of w' w ?b] B d(8) [of w] by (auto simp: map_ok_def Let_def)
qed

lemma upd_master_tab: "master_tab (upd_master s i f) = (master_tab s)[i := f (master_tab s ! i)]"
  by (simp add: upd_master_def)

lemma map_len_geom: "same_geom m m' \<Longrightarrow> map_len w m' = map_len w m"
  by (simp add: map_len_def same_geom_fields)

lemma take_block:
  assumes inv: "fs_inv s dev i (Suc (Suc n))" and b: "unat b < 512"
    and free: "bit_get (map_memory w s ! i) (unat b) = 0"
    and q: "q < map_len w (master_tab s ! i)" "map_ptr w (master_tab s ! i) = map_start w (master_tab s ! i) + of_nat q"
  obtains s' where
    "map_take w s dev i (map_ptr w (master_tab s ! i)) b =
       Some (INODE_OK, map_first w (master_tab s ! i) + of_nat (512 * q + unat b), s')"
    "fs_inv s' dev i n" "took w s dev i (512 * q + unat b) s'" "outside_kept s dev i s'"
proof -
  let ?m = "master_tab s ! i" and ?p = "map_ptr w (master_tab s ! i)"
  let ?v = "bit_set (map_memory w s ! i) (unat b) 1" and ?k = "512 * q + unat b"
  note d = fs_invD [OF inv]
  obtain c' where c': "map_take w s dev i ?p b = Some (INODE_OK, map_first w ?m + (?p - map_start w ?m) * 512 + b,
         (upd_master (set_memory w i ?v s) i (set_mbit w b))\<lparr>fs_cache := c'\<rparr>)" "cache_inv c' n"
    "\<And>dev' b'. addr_ok dev' b' \<Longrightarrow> view c' dev' b' = (if dev' = dev \<and> b' = ?p then ?v
        else if dev' = dev \<and> b' = block_start ?m then master_image (set_mbit w b ?m) else view (fs_cache s) dev' b')"
    using map_take_step [OF inv b free] by blast
  define s' where "s' = (upd_master (set_memory w i ?v s) i (set_mbit w b))\<lparr>fs_cache := c'\<rparr>"
  have s': "fs_cache s' = c'" "master_tab s' ! i = set_mbit w b ?m" "master_tab s' = (master_tab s)[i := set_mbit w b ?m]"
    "\<And>w'. map_memory w' s' ! i = (if w' = w then ?v else map_memory w' s ! i)"
    "\<And>w'. length (map_memory w' s') = length (map_memory w' s)" "\<And>w'. map_base w' s' = map_base w' s"
    using d(4,12) by (auto simp: s'_def upd_master_tab)
  have g: "same_geom ?m (master_tab s' ! i)" by (simp add: s'(2))
  note ap = map_ptr_apart [OF inv]
  have mem: "length (map_memory w s ! i) = 512" using d(8) [of w] by (simp add: map_ok_def Let_def)
  have "map_ok w' s' dev i" for w'
    using d(8) [of w'] d(10) [of w'] b ap(1) [of w'] ap(2) [of w' w] g
    by (cases "w' = w"; intro map_okI [OF d(8) [of w']]) (auto simp: s'(1,2,4-6) c'(3) map_ok_def Let_def)
  then have inv': "fs_inv s' dev i n"
    using g c'(2) s' by (intro fs_inv_keep [OF inv]) auto
  have out: "outside_kept s dev i s'"
    using g c'(3) s'(1) ap(3,4) [of w] geom_bounds(1) [OF d(7), of BMAP] geom_bounds(2) [OF d(7), of BMAP]
    by (auto simp: outside_kept_def)
  have k: "?k < 512 * map_len w ?m" "?k div 512 = q" "?k mod 512 = unat b" using q(1) b by auto
  have vw: "view c' dev (map_start w' ?m + of_nat (j div 512)) =
      (if map_start w' ?m + of_nat (j div 512) = ?p then ?v else view (fs_cache s) dev (map_start w' ?m + of_nat (j div 512)))"
    if "j < 512 * map_len w' ?m" for w' j
    using map_blk(3) [OF d(7) blk_lt [OF that] d(2)] map_blk_apart(1) [OF inv that] by (simp add: c'(3))
  have bits: "bit_get ?v (j mod 512) = 1 \<longleftrightarrow> j = ?k \<or> bit_get (map_memory w s ! i) (j mod 512) = 1"
    if "j div 512 = q" for j
  proof -
    have "j = ?k \<longleftrightarrow> j mod 512 = unat b" using that k(3) div_mult_mod_eq [of j 512] by (metis mult.commute)
    then show ?thesis using b mem by (simp add: bit_get_bit_set)
  qed
  have jq: "map_start w ?m + of_nat (j div 512) = ?p \<longleftrightarrow> j div 512 = q" if "j < 512 * map_len w ?m" for j
    using map_blk_inj [OF d(7) blk_lt [OF that] q(1)] q(2) by simp
  have A: "j \<in> allocated w' s' dev i \<longleftrightarrow> j < 512 * map_len w' ?m \<and>
      bit_get (if map_start w' ?m + of_nat (j div 512) = map_ptr w' ?m then (if w' = w then ?v else map_memory w' s ! i)
        else view c' dev (map_start w' ?m + of_nat (j div 512))) (j mod 512) = 1" for w' j
    by (simp add: allocated_iff s'(1,2,4) map_len_geom [OF same_geom_set(2)] Let_def)
  have R: "j \<in> recorded w' s' dev i \<longleftrightarrow> j < 512 * map_len w' ?m \<and>
      bit_get (view c' dev (map_start w' ?m + of_nat (j div 512))) (j mod 512) = 1" for w' j
    by (simp add: recorded_iff s'(1,2) map_len_geom [OF same_geom_set(2)])
  have "j \<in> allocated w s' dev i \<longleftrightarrow> j \<in> insert ?k (allocated w s dev i)" for j
    using k(1,2) bits [of j] jq [of j] vw [of j w]
    by (cases "j < 512 * map_len w ?m"; cases "j div 512 = q") (auto simp: A allocated_iff [of _ w s] Let_def)
  then have "allocated w s' dev i = insert ?k (allocated w s dev i)" by blast
  moreover have "j \<in> recorded w s' dev i \<longleftrightarrow> j \<in> allocated w s' dev i" for j
    using vw [of j w] by (auto simp: A R)
  then have "recorded w s' dev i = allocated w s' dev i" by blast
  moreover have "?k \<notin> allocated w s dev i" using k jq [OF k(1)] free by (auto simp: allocated_iff)
  moreover have "allocated w' s' dev i = allocated w' s dev i \<and> recorded w' s' dev i = recorded w' s dev i" if "w' \<noteq> w" for w'
    using that vw [of _ w'] map_blk_apart(2) [OF inv _ that]
    by (auto simp: set_eq_iff A R allocated_iff [of _ _ s] recorded_iff [of _ _ s] Let_def)
  ultimately have "took w s dev i ?k s'"
    using k(1,2) q(2) s'(2) allocated_recorded [OF inv, of w] by (auto simp: took_def)
  moreover have "map_first w ?m + (?p - map_start w ?m) * 512 + b = map_first w ?m + of_nat ?k"
    using map_number [OF q(2) refl, of b] by (simp add: add.assoc)
  ultimately show thesis using that [of s'] c'(1) inv' out by (simp only: s'_def)
qed

text \<open>
  A step of the scan: another position, perhaps another block of the map in memory.
  What the device shows is unchanged, and no allocated number is forgotten.
\<close>

definition moved :: "map_kind \<Rightarrow> fsys \<Rightarrow> int \<Rightarrow> nat \<Rightarrow> fsys \<Rightarrow> bool" where
  "moved w s dev i s' \<longleftrightarrow> outside_kept s dev i s' \<and> allocated w s dev i \<subseteq> allocated w s' dev i \<and>
     (\<forall>w'. recorded w' s' dev i = recorded w' s dev i) \<and>
     (\<forall>w'. w' \<noteq> w \<longrightarrow> allocated w' s' dev i = allocated w' s dev i)"

lemma outside_kept_trans:
  "outside_kept s dev i s1 \<Longrightarrow> outside_kept s1 dev i s2 \<Longrightarrow> outside_kept s dev i s2"
  unfolding outside_kept_def
  using same_geom_trans [of "master_tab s ! i" "master_tab s1 ! i" "master_tab s2 ! i"]
    same_geom_fields(2) [of "master_tab s ! i" "master_tab s1 ! i" BMAP]
  by (auto simp: same_geom_fields(5))

lemma moved_trans: "moved w s dev i s1 \<Longrightarrow> moved w s1 dev i s2 \<Longrightarrow> moved w s dev i s2"
  unfolding moved_def using outside_kept_trans by blast

lemma moved_geom: "moved w s dev i s' \<Longrightarrow> same_geom (master_tab s ! i) (master_tab s' ! i)"
  by (simp add: moved_def outside_kept_def)

lemma moved_took: "moved w s dev i s1 \<Longrightarrow> took w s1 dev i k s2 \<Longrightarrow> took w s dev i k s2"
  using map_len_geom [OF moved_geom, of w s dev i s1 w] same_geom_fields(1) [OF moved_geom, of w s dev i s1 w]
  by (auto simp: moved_def took_def)

lemma fs_inv_mono: "fs_inv s dev i n \<Longrightarrow> n' \<le> n \<Longrightarrow> fs_inv s dev i n'"
  by (auto simp: fs_inv_def cache_inv_def headroom_def)

lemma move_bit:
  assumes inv: "fs_inv s dev i n" and b: "unat b < 512"
  shows "fs_inv (upd_master s i (set_mbit w b)) dev i n" "moved w s dev i (upd_master s i (set_mbit w b))"
proof -
  let ?s = "upd_master s i (set_mbit w b)"
  note d = fs_invD [OF inv]
  have "map_ok w' ?s dev i" for w'
    using d(4) b d(8) [of w'] by (intro map_okI [OF d(8) [of w']]) (auto simp: map_ok_def Let_def)
  then show "fs_inv ?s dev i n"
    using d(1,4) by (intro fs_inv_keep [OF inv, where m' = "set_mbit w b (master_tab s ! i)"]) (simp_all add: upd_master_tab)
  have "allocated w' ?s dev i = allocated w' s dev i" "recorded w' ?s dev i = recorded w' s dev i" for w'
    using d(4) by (auto simp: allocated_iff recorded_iff map_len_geom [OF same_geom_set(2)] Let_def)
  then show "moved w s dev i ?s" using d(4) by (simp add: moved_def outside_kept_def)
qed

lemma load_moved:
  assumes inv: "fs_inv s dev i (Suc n)"
    and p: "unat (map_start w (master_tab s ! i)) \<le> unat p" "unat p < unat (map_end w (master_tab s ! i))"
    and b: "unat b < 512"
  obtains s' where "map_load w (upd_master s i (\<lambda>m. set_mbit w b (set_ptr w p m))) dev i = Some (BLOCK_OK, s')"
    "fs_inv s' dev i n" "moved w s dev i s'" "map_ptr w (master_tab s' ! i) = p"
    "allocated w s' dev i = recorded w s dev i" "map_pos w (master_tab s' ! i) = b"
proof -
  note d = fs_invD [OF inv]
  let ?m = "master_tab s ! i" and ?m' = "set_mbit w b (set_ptr w p (master_tab s ! i))"
  let ?u = "\<lambda>c'. set_memory w i (view (fs_cache s) dev p) ((upd_master s i (\<lambda>m. set_mbit w b (set_ptr w p m)))\<lparr>fs_cache := c'\<rparr>)"
  obtain c' where c': "map_load w (upd_master s i (\<lambda>m. set_mbit w b (set_ptr w p m))) dev i = Some (BLOCK_OK, ?u c')"
    "fs_inv (?u c') dev i n" "\<And>dev' b'. addr_ok dev' b' \<Longrightarrow> view c' dev' b' = view (fs_cache s) dev' b'"
    using load_block [OF inv p b] by blast
  define s' where "s' = ?u c'"
  have s': "master_tab s' ! i = ?m'" "fs_cache s' = c'"
    "\<And>w'. map_memory w' s' ! i = (if w' = w then view (fs_cache s) dev p else map_memory w' s ! i)"
    using d(4) d(12) by (auto simp: s'_def)
  have g: "same_geom ?m ?m'" by (rule same_geom_trans [OF same_geom_set(1) same_geom_set(2)])
  have vw: "view c' dev (map_start w' ?m + of_nat (j div 512)) = view (fs_cache s) dev (map_start w' ?m + of_nat (j div 512))"
    if "j < 512 * map_len w' ?m" for w' j
    using map_blk(3) [OF d(7) blk_lt [OF that] d(2)] by (rule c'(3))
  have R: "recorded w' s' dev i = recorded w' s dev i" for w'
    using vw by (auto simp: recorded_iff s' map_len_geom [OF g])
  moreover have A: "allocated w s' dev i = recorded w s dev i"
    using vw by (auto simp: allocated_iff recorded_iff s' map_len_geom [OF g] Let_def split: if_splits)
  moreover have "allocated w' s' dev i = allocated w' s dev i" if "w' \<noteq> w" for w'
    using vw that by (auto simp: allocated_iff s' map_len_geom [OF g] Let_def split: if_splits)
  ultimately have "moved w s dev i s'"
    using allocated_recorded [OF inv, of w] g c'(3) s'
    by (auto simp: moved_def outside_kept_def)
  then show thesis using that [OF c'(1,2) [folded s'_def] _ _ A] s'(1) by simp
qed

text \<open>
  The result of a scan from block \<open>q\<close>, bit \<open>b\<close>: a number was taken, or there is none
  among the numbers the scan passes: all of them in pass 0, those from here on in
  the last pass.
\<close>

definition scan_result :: "map_kind \<Rightarrow> fsys \<Rightarrow> int \<Rightarrow> nat \<Rightarrow> (nat \<Rightarrow> bool) \<Rightarrow> inode_rtvl \<Rightarrow> u32 \<Rightarrow> fsys \<Rightarrow> bool" where
  "scan_result w s dev i passed r blk s' \<longleftrightarrow>
     (r = INODE_OK \<and> outside_kept s dev i s' \<and>
       (\<exists>k. took w s dev i k s' \<and> blk = map_first w (master_tab s ! i) + of_nat k)) \<or>
     (r = INODE_FAIL \<and> blk = INODE_NULL \<and> moved w s dev i s' \<and>
       (\<forall>k < 512 * map_len w (master_tab s ! i). passed k \<longrightarrow> k \<in> recorded w s dev i))"

lemma scan_result_moved:
  assumes "moved w s dev i s1" "scan_result w s1 dev i P1 r blk s'"
    and "\<And>k. k < 512 * map_len w (master_tab s ! i) \<Longrightarrow> P k \<Longrightarrow> P1 k \<or> k \<in> recorded w s dev i"
  shows "scan_result w s dev i P r blk s'"
proof -
  note g = moved_geom [OF assms(1)]
  have "recorded w s1 dev i = recorded w s dev i" "outside_kept s dev i s1"
    using assms(1) by (simp_all add: moved_def)
  moreover have "(r = INODE_OK \<and> outside_kept s1 dev i s' \<and>
        (\<exists>k. took w s1 dev i k s' \<and> blk = map_first w (master_tab s ! i) + of_nat k)) \<or>
      (r = INODE_FAIL \<and> blk = INODE_NULL \<and> moved w s1 dev i s' \<and>
        (\<forall>k < 512 * map_len w (master_tab s ! i). P1 k \<longrightarrow> k \<in> recorded w s1 dev i))"
    using assms(2) by (simp add: scan_result_def same_geom_fields(3) [OF g] map_len_geom [OF g])
  ultimately show ?thesis
    unfolding scan_result_def
    using assms(3) moved_took [OF assms(1)] moved_trans [OF assms(1)] outside_kept_trans by blast
qed

text \<open>The bit at the position of the scan, when it is set, is recorded.\<close>

lemma bit_recorded:
  assumes "fs_inv s dev i n" "unat b < 512" "bit_get (map_memory w s ! i) (unat b) \<noteq> 0"
    "q < map_len w (master_tab s ! i)" "map_ptr w (master_tab s ! i) = map_start w (master_tab s ! i) + of_nat q"
  shows "512 * q + unat b \<in> recorded w s dev i"
proof -
  have "bit_get (map_memory w s ! i) (unat b) = 1" using assms(3) bit_get_01 [of "map_memory w s ! i" "unat b"] by simp
  then have "bit_get (view (fs_cache s) dev (map_start w (master_tab s ! i) + of_nat q)) (unat b) = 1"
    using fs_invD(8) [OF assms(1), of w] assms(2,5) by (auto simp: map_ok_def Let_def)
  then show ?thesis using assms(2,4) by (simp add: recorded_iff)
qed

lemma next_bit:
  assumes "unat (b::u32) < 512"
  shows "unat ((b + 1) mod 512) = (if unat b = 511 then 0 else unat b + 1)"
proof -
  have "unat (b + 1) = unat b + 1" using assms by (subst u32_add_unat) simp_all
  then show ?thesis using assms by (simp add: unat_mod)
qed

lemma next_bit_0: "unat (b::u32) < 512 \<Longrightarrow> (b + 1) mod 512 = 0 \<longleftrightarrow> unat b = 511"
  using next_bit [of b] by (metis Suc_eq_plus1 nat.distinct(1) unat_0 unat_eq_0)

text \<open>The pieces of one iteration.\<close>

lemma map_scan_take:
  assumes "fs_inv s dev i n" "bit_get (map_memory w s ! i) (unat b) = 0"
  shows "map_scan w s dev i p b pass = map_take w s dev i p b"
  using fs_invD(11) [OF assms(1), of w] assms(2) by (subst map_scan.simps) simp

lemma map_scan_next:
  assumes "fs_inv s dev i n" "bit_get (map_memory w s ! i) (unat b) \<noteq> 0" "(b + 1) mod 512 \<noteq> 0" "pass < 2"
  shows "map_scan w s dev i p b pass =
    map_scan w (upd_master s i (set_mbit w ((b + 1) mod 512))) dev i p ((b + 1) mod 512) pass"
  using fs_invD(11) [OF assms(1), of w] assms(2-4) by (subst map_scan.simps) (simp add: Let_def)

lemma map_scan_block:
  assumes inv: "fs_inv s dev i n" and b: "bit_get (map_memory w s ! i) (unat b) \<noteq> 0" "(b + 1) mod 512 = 0"
    and p: "p' = (if p + 1 < map_end w (master_tab s ! i) then p + 1 else map_start w (master_tab s ! i))"
      "pass' = (if p + 1 < map_end w (master_tab s ! i) then pass else pass + 1)"
    and load: "map_load w (upd_master s i (\<lambda>m. set_mbit w 0 (set_ptr w p' m))) dev i = Some (BLOCK_OK, s1)"
    and pass: "pass < 2"
  shows "map_scan w s dev i p b pass =
    (if pass' < 2 then map_scan w s1 dev i p' 0 pass' else Some (INODE_FAIL, INODE_NULL, s1))"
proof -
  note d = fs_invD [OF inv]
  have e: "upd_master (upd_master s i (set_mbit w 0)) i (set_ptr w x) = upd_master s i (\<lambda>m. set_mbit w 0 (set_ptr w x m))" for x
    using d(4) by (simp add: set_ptr_set_bit)
  show ?thesis
    using d(4) d(11) [of w] b p load pass
    by (subst map_scan.simps) (auto simp: Let_def e)
qed

lemma word_less_2: "pass = 0 \<or> pass = 1 \<Longrightarrow> pass < (2::u32)"
  by auto

lemma map_succ:
  assumes "geom_ok m" "q < map_len w m"
  shows "map_start w m + of_nat q + 1 < map_end w m \<longleftrightarrow> Suc q < map_len w m"
proof -
  have "unat (map_start w m + of_nat q + 1) = unat (map_start w m) + q + 1"
    using map_blk [OF assms] geom_bounds(3) [OF assms(1), of w] by (subst u32_Suc_unat) simp_all
  then show ?thesis using map_blk(2) [OF assms] by (auto simp: word_less_nat_alt map_len_def)
qed

lemma map_scan_spec:
  assumes "fs_inv s dev i (Suc (Suc (n + ((2 - unat pass) * map_len w (master_tab s ! i) - q))))"
    "pass = 0 \<or> pass = 1" "q < map_len w (master_tab s ! i)" "unat b < 512"
    "map_ptr w (master_tab s ! i) = map_start w (master_tab s ! i) + of_nat q"
  shows "\<exists>r blk s'. map_scan w s dev i (map_start w (master_tab s ! i) + of_nat q) b pass = Some (r, blk, s') \<and>
    fs_inv s' dev i n \<and> scan_result w s dev i (\<lambda>k. pass = 0 \<or> 512 * q + unat b \<le> k) r blk s'"
  using assms
proof (induction "(2 - unat pass) * (512 * map_len w (master_tab s ! i)) - (512 * q + unat b)"
    arbitrary: s q b pass rule: less_induct)
  case less
  note inv = less.prems(1) and pass = less.prems(2) and q = less.prems(3) and b = less.prems(4) and p = less.prems(5)
  let ?m = "master_tab s ! i" and ?N = "map_len w (master_tab s ! i)"
  let ?P = "\<lambda>k. pass = 0 \<or> 512 * q + unat b \<le> k"
  note d = fs_invD [OF inv]
  have room: "512 * q + unat b < (2 - unat pass) * (512 * ?N)" using pass q b by auto
  have go: "\<exists>r blk s'. map_scan w s1 dev i (map_start w ?m + of_nat q1) b1 pass1 = Some (r, blk, s') \<and>
      fs_inv s' dev i n \<and> scan_result w s dev i ?P r blk s'"
    if h: "fs_inv s1 dev i (Suc (Suc (n + ((2 - unat pass1) * ?N - q1))))" "moved w s dev i s1" "pass1 = 0 \<or> pass1 = 1"
      "q1 < ?N" "unat b1 < 512" "map_ptr w (master_tab s1 ! i) = map_start w ?m + of_nat q1"
      "(2 - unat pass1) * (512 * ?N) - (512 * q1 + unat b1) < (2 - unat pass) * (512 * ?N) - (512 * q + unat b)"
      "\<And>k. k < 512 * ?N \<Longrightarrow> ?P k \<Longrightarrow> (pass1 = 0 \<or> 512 * q1 + unat b1 \<le> k) \<or> k \<in> recorded w s dev i"
    for s1 q1 b1 pass1
  proof -
    note g = moved_geom [OF h(2)]
    note m = map_len_geom [OF g, of w] same_geom_fields(1) [OF g, of w]
    obtain r blk s' where x: "map_scan w s1 dev i (map_start w ?m + of_nat q1) b1 pass1 = Some (r, blk, s')"
      "fs_inv s' dev i n" "scan_result w s1 dev i (\<lambda>k. pass1 = 0 \<or> 512 * q1 + unat b1 \<le> k) r blk s'"
      using less.hyps [of pass1 s1 q1 b1, unfolded m, OF h(7,1,3,4,5,6)] by blast
    have "scan_result w s dev i ?P r blk s'"
      by (rule scan_result_moved [OF h(2) x(3)]) (rule h(8))
    with x show ?thesis by simp
  qed
  show ?case
  proof (cases "bit_get (map_memory w s ! i) (unat b) = 0")
    case True
    obtain s' where s': "map_take w s dev i (map_ptr w ?m) b = Some (INODE_OK, map_first w ?m + of_nat (512 * q + unat b), s')"
      "fs_inv s' dev i (n + ((2 - unat pass) * ?N - q))" "took w s dev i (512 * q + unat b) s'" "outside_kept s dev i s'"
      using take_block [OF inv b True q p] by blast
    have "scan_result w s dev i ?P INODE_OK (map_first w ?m + of_nat (512 * q + unat b)) s'"
      using s'(3,4) unfolding scan_result_def by blast
    moreover have "fs_inv s' dev i n" by (rule fs_inv_mono [OF s'(2)]) simp
    ultimately show ?thesis
      using s'(1) p by (auto simp: map_scan_take [OF inv True])
  next
    case set: False
    note rec = bit_recorded [OF inv b set q p]
    have cov: "Suc (512 * q + unat b) \<le> k \<or> k \<in> recorded w s dev i" if "512 * q + unat b \<le> k" for k
      using rec that by (auto simp: Suc_le_eq le_less)
    have pass2: "pass < 2" using pass by auto
    consider (bit) "unat b \<noteq> 511" | (block) "unat b = 511" "Suc q < ?N" | (wrap) "unat b = 511" "Suc q = ?N"
      using q by linarith
    then show ?thesis
    proof cases
      case bit
      have b': "unat ((b + 1) mod 512) = unat b + 1" "(b + 1) mod 512 \<noteq> 0"
        using next_bit [OF b] next_bit_0 [OF b] bit by simp_all
      then have b2: "unat ((b + 1) mod 512) < 512" using b bit by simp
      show ?thesis
        unfolding map_scan_next [OF inv set b'(2) pass2]
        using b' b2 room p d(4) pass q inv cov
        by (intro go move_bit [OF inv b2]) auto
    next
      case block
      let ?p = "map_start w ?m + of_nat (Suc q)"
      have b0: "(b + 1) mod 512 = 0" using next_bit_0 [OF b] block by simp
      have c: "fs_inv s dev i (Suc (Suc (Suc (n + ((2 - unat pass) * ?N - Suc q)))))"
        using inv pass block by (auto simp: Suc_diff_Suc)
      have pb: "unat (map_start w ?m) \<le> unat ?p" "unat ?p < unat (map_end w ?m)"
        using map_blk(1,2) [OF d(7) block(2)] by linarith+
      obtain s1 where s1: "map_load w (upd_master s i (\<lambda>m. set_mbit w 0 (set_ptr w ?p m))) dev i = Some (BLOCK_OK, s1)"
        "fs_inv s1 dev i (Suc (Suc (n + ((2 - unat pass) * ?N - Suc q))))" "moved w s dev i s1" "map_ptr w (master_tab s1 ! i) = ?p"
        using load_moved [OF c pb, of 0] by (metis unat_0 zero_less_numeral)
      have ms: "(2 - unat pass) * (512 * ?N) - (512 * Suc q + unat (0::u32)) < (2 - unat pass) * (512 * ?N) - (512 * q + unat b)"
        using room block(1) by (intro diff_less_mono2) simp_all
      have "map_scan w s dev i (map_start w ?m + of_nat q) b pass = map_scan w s1 dev i ?p 0 pass"
        using map_scan_block [OF inv set b0 _ refl s1(1) pass2, of "map_start w ?m + of_nat q"]
          map_succ [OF d(7) q] block pass2 by simp
      then show ?thesis
        using go [OF s1(2,3) pass block(2) _ s1(4) ms] cov block by auto
    next
      case wrap
      have b0: "(b + 1) mod 512 = 0" using next_bit_0 [OF b] wrap by simp
      have "(2 - unat pass) * ?N - q = Suc ((1 - unat pass) * ?N)" using pass wrap(2) by auto
      then have c: "fs_inv s dev i (Suc (Suc (Suc (n + ((1 - unat pass) * ?N)))))"
        using inv by simp
      obtain s1 where s1: "map_load w (upd_master s i (\<lambda>m. set_mbit w 0 (set_ptr w (map_start w ?m) m))) dev i = Some (BLOCK_OK, s1)"
        "fs_inv s1 dev i (Suc (Suc (n + ((1 - unat pass) * ?N))))" "moved w s dev i s1" "map_ptr w (master_tab s1 ! i) = map_start w ?m"
        using load_moved [OF c order_refl geom_bounds(2) [OF d(7)], of 0] by (metis unat_0 zero_less_numeral)
      have step: "map_scan w s dev i (map_start w ?m + of_nat q) b pass =
          (if pass + 1 < 2 then map_scan w s1 dev i (map_start w ?m) 0 (pass + 1) else Some (INODE_FAIL, INODE_NULL, s1))"
        using map_scan_block [OF inv set b0 refl refl _ pass2, of "map_start w ?m + of_nat q" s1]
          map_succ [OF d(7) q] wrap s1(1) by simp
      show ?thesis
      proof (cases "pass = 0")
        case True
        then show ?thesis using go [of s1 1 0 0] s1 step q room b by auto
      next
        case False
        then have p1: "pass = 1" using pass by simp
        have "scan_result w s dev i ?P INODE_FAIL INODE_NULL s1"
          using s1(3) cov wrap p1 by (fastforce simp: scan_result_def)
        moreover have "fs_inv s1 dev i n" by (rule fs_inv_mono [OF s1(2)]) simp
        ultimately show ?thesis using step p1 by auto
      qed
    qed
  qed
qed

lemma map_len_set [simp]: "map_len w' (set_ptr w v m) = map_len w' m" "map_len w' (set_mbit w v m) = map_len w' m"
  by (simp_all add: map_len_def)

lemma map_ensure_open:
  assumes "fs_inv s dev i n"
  shows "map_ensure w c s dev i = Some (Inr (map_ptr w (master_tab s ! i), map_pos w (master_tab s ! i), s))"
proof -
  have "map_ptr w (master_tab s ! i) \<noteq> 0" using map_ptr_apart(4) [OF assms, of w] by auto
  then show ?thesis by (simp add: map_ensure_def Let_def)
qed

text \<open>\<open>inode_get_data_block\<close> and \<open>inode_get_inode_block\<close> on an open file system.\<close>

lemma map_get_block_spec:
  assumes inv: "fs_inv s dev i (n + (2 + 2 * map_len w (master_tab s ! i)))"
  shows "\<exists>r blk s'. map_get_block w s dev blk0 = Some (r, blk, s') \<and> fs_inv s' dev i n \<and>
    scan_result w s dev i (\<lambda>k. True) r blk s'"
proof -
  note d = fs_invD [OF inv]
  have b: "unat (map_pos w (master_tab s ! i)) < 512"
    and "unat (map_start w (master_tab s ! i)) \<le> unat (map_ptr w (master_tab s ! i))"
      "unat (map_ptr w (master_tab s ! i)) < unat (map_end w (master_tab s ! i))"
    using d(8) [of w] by (simp_all add: map_ok_def Let_def)
  then obtain q where q: "q < map_len w (master_tab s ! i)"
    "map_ptr w (master_tab s ! i) = map_start w (master_tab s ! i) + of_nat q"
    using map_blk_of by blast
  have "fs_inv s dev i (Suc (Suc (n + ((2 - unat (0::u32)) * map_len w (master_tab s ! i) - q))))"
    by (rule fs_inv_mono [OF inv]) simp
  from map_scan_spec [OF this _ q(1) b q(2)] show ?thesis
    using d(6) q(2) by (simp add: map_get_block_def map_ensure_open [OF inv])
qed

text \<open>Freeing: the number is no longer allocated; nothing on the device changes.\<close>

definition freed :: "map_kind \<Rightarrow> fsys \<Rightarrow> int \<Rightarrow> nat \<Rightarrow> nat \<Rightarrow> fsys \<Rightarrow> bool" where
  "freed w s dev i k s' \<longleftrightarrow> outside_kept s dev i s' \<and>
     map_ptr w (master_tab s' ! i) = map_start w (master_tab s ! i) + of_nat (k div 512) \<and>
     allocated w s' dev i = (if map_ptr w (master_tab s ! i) = map_start w (master_tab s ! i) + of_nat (k div 512)
        then allocated w s dev i else recorded w s dev i) - {k} \<and>
     (\<forall>w'. recorded w' s' dev i = recorded w' s dev i) \<and>
     (\<forall>w'. w' \<noteq> w \<longrightarrow> allocated w' s' dev i = allocated w' s dev i)"

lemma map_clear_spec:
  assumes inv: "fs_inv s dev i n" and k: "k < 512 * map_len w (master_tab s ! i)"
    and p: "map_ptr w (master_tab s ! i) = map_start w (master_tab s ! i) + of_nat (k div 512)"
  shows "\<exists>s'. map_clear w s i (of_nat (k mod 512)) = Some (INODE_OK, s') \<and> fs_inv s' dev i n \<and>
    outside_kept s dev i s' \<and> allocated w s' dev i = allocated w s dev i - {k} \<and> master_tab s' = master_tab s \<and>
    (\<forall>w'. recorded w' s' dev i = recorded w' s dev i) \<and>
    (\<forall>w'. w' \<noteq> w \<longrightarrow> allocated w' s' dev i = allocated w' s dev i)"
proof -
  let ?m = "master_tab s ! i" and ?b = "k mod 512" and ?mem = "map_memory w s ! i"
  note d = fs_invD [OF inv]
  have ub: "unat (of_nat ?b :: u32) = ?b" by (rule unat_of_nat32) (simp add: less_trans [OF mod_less_divisor])
  have len: "length ?mem = 512" using d(8) [of w] by (simp add: map_ok_def Let_def)
  define s' where "s' = set_memory w i (bit_set ?mem ?b 0) s"
  have s': "fs_cache s' = fs_cache s" "master_tab s' = master_tab s"
    "\<And>w'. map_memory w' s' ! i = (if w' = w then bit_set ?mem ?b 0 else map_memory w' s ! i)"
    "\<And>w'. length (map_memory w' s') = length (map_memory w' s)" "\<And>w'. map_base w' s' = map_base w' s"
    using d(12) by (auto simp: s'_def)
  have bit: "bit_get (bit_set ?mem ?b 0) j = (if j = ?b then 0 else bit_get ?mem j)" for j
    using len by (subst bit_get_bit_set) (auto simp: less_trans [OF mod_less_divisor])
  have ok: "map_ok w' s' dev i" for w'
    using d(8) [of w'] by (cases "w' = w"; intro map_okI [OF d(8) [of w']]) (auto simp: s' bit map_ok_def Let_def split: if_splits)
  have inv': "fs_inv s' dev i n"
    using ok d(1,4) by (intro fs_inv_keep [OF inv, where m' = ?m]) (simp_all add: s'(1,2))
  have rec: "recorded w' s' dev i = recorded w' s dev i" for w'
    by (simp add: recorded_def s')
  have other: "allocated w' s' dev i = allocated w' s dev i" if "w' \<noteq> w" for w'
    using that by (simp add: allocated_def s' Let_def)
  have "j = k \<longleftrightarrow> j mod 512 = k mod 512" if "j div 512 = k div 512" for j
    using that by (metis div_mult_mod_eq)
  moreover have "map_start w ?m + of_nat (j div 512) = map_ptr w ?m \<longleftrightarrow> j div 512 = k div 512" if "j < 512 * map_len w ?m" for j
    using map_blk_inj [OF d(7) blk_lt [OF that] blk_lt [OF k]] by (simp add: p)
  ultimately have "j \<in> allocated w s' dev i \<longleftrightarrow> j \<in> allocated w s dev i - {k}" for j
    by (auto simp: allocated_iff s' bit Let_def split: if_splits)
  then have al: "allocated w s' dev i = allocated w s dev i - {k}" by blast
  have out: "outside_kept s dev i s'" by (simp add: outside_kept_def s')
  show ?thesis
  proof (cases "bit_get ?mem ?b = 0")
    case True
    then have "k \<notin> allocated w s dev i" by (simp add: allocated_iff p)
    with True show ?thesis
      using inv d(11) [of w] ub by (simp add: map_clear_def outside_kept_def)
  next
    case False
    then have "map_clear w s i (of_nat ?b) = Some (INODE_OK, s')"
      using d(11) [of w] ub by (simp add: map_clear_def s'_def)
    then show ?thesis using inv' out al rec other s'(2) by blast
  qed
qed

lemma block_number:
  assumes "k < 2 ^ 32"
  shows "(first + of_nat k - first :: u32) div 512 = of_nat (k div 512)"
    "(first + of_nat k - first :: u32) mod 512 = of_nat (k mod 512)"
  using assms by (simp_all add: word_arith_nat_div word_arith_nat_mod unat_of_nat32)

lemma map_free_block_spec:
  assumes inv: "fs_inv s dev i (Suc n)" and k: "k < 512 * map_len w (master_tab s ! i)" "k < 2 ^ 32"
  shows "\<exists>s'. map_free_block w s dev (map_first w (master_tab s ! i) + of_nat k) = Some (INODE_OK, s') \<and>
    fs_inv s' dev i n \<and> freed w s dev i k s'"
proof -
  let ?m = "master_tab s ! i" and ?p = "map_start w (master_tab s ! i) + of_nat (k div 512)" and ?b = "of_nat (k mod 512) :: u32"
  note d = fs_invD [OF inv]
  note B = map_blk [OF d(7) blk_lt [OF k(1)]]
  have ub: "unat ?b < 512" by (subst unat_of_nat32) (simp_all add: less_trans [OF mod_less_divisor])
  have pb: "unat (map_start w ?m) \<le> unat ?p" "unat ?p < unat (map_end w ?m)" using B by linarith+
  note num = block_number [OF k(2), of "map_first w ?m"]
  show ?thesis
  proof (cases "?p = map_ptr w ?m")
    case True
    let ?s = "upd_master s i (set_mbit w ?b)"
    note mv = move_bit [OF inv ub, of w]
    have m: "master_tab ?s ! i = set_mbit w ?b ?m" using d(4) by simp
    obtain s' where s': "map_clear w ?s i ?b = Some (INODE_OK, s')" "fs_inv s' dev i (Suc n)" "outside_kept ?s dev i s'"
      "allocated w s' dev i = allocated w ?s dev i - {k}" "\<forall>w'. recorded w' s' dev i = recorded w' ?s dev i"
      "\<forall>w'. w' \<noteq> w \<longrightarrow> allocated w' s' dev i = allocated w' ?s dev i" "master_tab s' = master_tab ?s"
      using map_clear_spec [OF mv(1), of k w] k True by (auto simp: m)
    have "allocated w ?s dev i = allocated w s dev i"
      using d(4) by (auto simp: allocated_iff m Let_def)
    then have "freed w s dev i k s'"
      using mv(2) s'(3-7) True outside_kept_trans [of s dev i ?s s'] by (auto simp: freed_def moved_def m)
    moreover have "map_free_block w s dev (map_first w ?m + of_nat k) = Some (INODE_OK, s')"
      using d(6) True num s'(1) by (simp add: map_free_block_def map_ensure_open [OF inv] add.commute)
    ultimately show ?thesis using fs_inv_mono [OF s'(2)] by auto
  next
    case False
    obtain s1 where s1: "map_load w (upd_master s i (\<lambda>m. set_mbit w ?b (set_ptr w ?p m))) dev i = Some (BLOCK_OK, s1)"
      "fs_inv s1 dev i n" "moved w s dev i s1" "map_ptr w (master_tab s1 ! i) = ?p" "allocated w s1 dev i = recorded w s dev i"
      using load_moved [OF inv pb ub] by blast
    note g = moved_geom [OF s1(3)]
    obtain s' where s': "map_clear w s1 i ?b = Some (INODE_OK, s')" "fs_inv s' dev i n" "outside_kept s1 dev i s'"
      "allocated w s' dev i = allocated w s1 dev i - {k}" "\<forall>w'. recorded w' s' dev i = recorded w' s1 dev i"
      "\<forall>w'. w' \<noteq> w \<longrightarrow> allocated w' s' dev i = allocated w' s1 dev i" "master_tab s' = master_tab s1"
      using map_clear_spec [OF s1(2), of k w] k s1(4) by (auto simp: map_len_geom [OF g] same_geom_fields(1) [OF g])
    have "freed w s dev i k s'"
      using s1(3-5) s'(3-7) False outside_kept_trans [of s dev i s1 s'] by (auto simp: freed_def moved_def)
    moreover have "map_free_block w s dev (map_first w ?m + of_nat k) = Some (INODE_OK, s')"
      using d(6) False num s'(1) s1(1) by (simp add: map_free_block_def map_ensure_open [OF inv] add.commute)
    ultimately show ?thesis using s'(2) by auto
  qed
qed

end
