(* ===== verification/Block_Alloc.thy ===== *)
theory Block_Alloc
  imports Inode_Alloc
begin

text \<open>
  What the users of \<open>inode_get_data_block\<close>, \<open>inode_get_inode_block\<close> and their \<open>free\<close>
  counterparts may rely on, as a contract of block allocators: a block handed out was
  not in use and is in use afterwards, whatever else was taken and given back before.
  The contract is interpreted on both maps of \<open>fs/inode.c\<close>; making and opening a file
  system establishes it.
\<close>

section \<open>The contract of an allocator\<close>

datatype 'b alloc_op = Take | Give 'b

text \<open>A client that keeps a list of the blocks it holds and gives back only those.\<close>

fun alloc_run :: "('s \<Rightarrow> ('b option \<times> 's) option) \<Rightarrow> ('s \<Rightarrow> 'b \<Rightarrow> 's option) \<Rightarrow>
    's \<Rightarrow> 'b list \<Rightarrow> 'b alloc_op list \<Rightarrow> ('b list \<times> 's) option" where
  "alloc_run get give s held [] = Some (held, s)"
| "alloc_run get give s held (Take # ops) = do {
     (r, s') \<leftarrow> get s;
     alloc_run get give s' (case r of Some b \<Rightarrow> b # held | None \<Rightarrow> held) ops
   }"
| "alloc_run get give s held (Give b # ops) =
     (if b \<in> set held
      then do { s' \<leftarrow> give s b; alloc_run get give s' (remove1 b held) ops }
      else alloc_run get give s held ops)"

locale block_allocator =
  fixes get :: "'s \<Rightarrow> ('b option \<times> 's) option"
    and give :: "'s \<Rightarrow> 'b \<Rightarrow> 's option"
    and used :: "'s \<Rightarrow> 'b set"
    and inv :: "'s \<Rightarrow> nat \<Rightarrow> bool"
    and cost :: nat
  assumes get_fresh: "inv s (n + cost) \<Longrightarrow>
      \<exists>r s'. get s = Some (r, s') \<and> inv s' n \<and> used s \<subseteq> used s' \<and>
        (\<forall>b. r = Some b \<longrightarrow> b \<notin> used s \<and> b \<in> used s')"
    and give_back: "inv s (n + cost) \<Longrightarrow> b \<in> used s \<Longrightarrow>
      \<exists>s'. give s b = Some s' \<and> inv s' n \<and> used s - {b} \<subseteq> used s'"
    and inv_less: "inv s (n + m) \<Longrightarrow> inv s n"
begin

lemma run_distinct:
  assumes "inv s (n + length ops * cost)" "distinct held" "set held \<subseteq> used s"
  shows "\<exists>held' s'. alloc_run get give s held ops = Some (held', s') \<and> distinct held' \<and>
    set held' \<subseteq> used s' \<and> inv s' n"
  using assms
proof (induction ops arbitrary: s held)
  case Nil
  then show ?case by simp
next
  case (Cons op ops)
  have inv: "inv s ((n + length ops * cost) + cost)" using Cons.prems(1) by (simp add: algebra_simps)
  show ?case
  proof (cases op)
    case Take
    obtain r s' where s': "get s = Some (r, s')" "inv s' (n + length ops * cost)" "used s \<subseteq> used s'"
      "\<And>b. r = Some b \<Longrightarrow> b \<notin> used s \<and> b \<in> used s'"
      using get_fresh [OF inv] by blast
    let ?held = "case r of Some b \<Rightarrow> b # held | None \<Rightarrow> held"
    have "distinct ?held" "set ?held \<subseteq> used s'"
      using Cons.prems(2,3) s'(3,4) by (auto split: option.split)
    from Cons.IH [OF s'(2) this] s'(1) show ?thesis by (simp add: Take)
  next
    case (Give b)
    show ?thesis
    proof (cases "b \<in> set held")
      case True
      then have "b \<in> used s" using Cons.prems(3) by blast
      then obtain s' where s': "give s b = Some s'" "inv s' (n + length ops * cost)" "used s - {b} \<subseteq> used s'"
        using give_back [OF inv] by blast
      have "distinct (remove1 b held)" "set (remove1 b held) \<subseteq> used s'"
        using Cons.prems(2,3) s'(3) by auto
      from Cons.IH [OF s'(2) this] s'(1) True show ?thesis by (simp add: Give)
    next
      case False
      then show ?thesis using Cons.IH [OF inv_less [OF inv] Cons.prems(2,3)] by (simp add: Give)
    qed
  qed
qed

end

section \<open>The two maps keep the contract\<close>

definition get_block :: "(fsys \<Rightarrow> int \<Rightarrow> u32 \<Rightarrow> (inode_rtvl \<times> u32 \<times> fsys) option) \<Rightarrow> int \<Rightarrow> fsys \<Rightarrow> (u32 option \<times> fsys) option" where
  "get_block f dev s = do {
     (r, b, s') \<leftarrow> f s dev INODE_NULL;
     Some (if r = INODE_OK then Some b else None, s')
   }"

definition give_block :: "(fsys \<Rightarrow> int \<Rightarrow> u32 \<Rightarrow> (inode_rtvl \<times> fsys) option) \<Rightarrow> int \<Rightarrow> fsys \<Rightarrow> u32 \<Rightarrow> fsys option" where
  "give_block f dev s b = map_option snd (f s dev b)"

text \<open>The block numbers in use, and an open file system with maps of \<open>L\<close> blocks.\<close>

definition blocks_used :: "map_kind \<Rightarrow> int \<Rightarrow> nat \<Rightarrow> fsys \<Rightarrow> u32 set" where
  "blocks_used w dev i s = (\<lambda>k. map_first w (master_tab s ! i) + of_nat k) ` allocated w s dev i"

definition open_fs :: "map_kind \<Rightarrow> int \<Rightarrow> nat \<Rightarrow> nat \<Rightarrow> fsys \<Rightarrow> nat \<Rightarrow> bool" where
  "open_fs w dev i L s n \<longleftrightarrow> fs_inv s dev i n \<and> map_len w (master_tab s ! i) = L \<and> 512 * L \<le> 2 ^ 32"

lemma blocks_used_iff:
  assumes "open_fs w dev i L s n" "k < 512 * L"
  shows "map_first w (master_tab s ! i) + of_nat k \<in> blocks_used w dev i s \<longleftrightarrow> k \<in> allocated w s dev i"
proof
  assume "map_first w (master_tab s ! i) + of_nat k \<in> blocks_used w dev i s"
  then obtain j where j: "j \<in> allocated w s dev i" "(of_nat j :: u32) = of_nat k" by (auto simp: blocks_used_def)
  have "j < 2 ^ 32" "k < 2 ^ 32" using j(1) assms by (auto simp: open_fs_def allocated_iff)
  then have "j = k" using j(2) unat_of_nat32 by metis
  with j(1) show "k \<in> allocated w s dev i" by simp
qed (simp add: blocks_used_def)

lemma blocks_used_mono:
  assumes "same_geom (master_tab s ! i) (master_tab s' ! i)" "allocated w s dev i \<subseteq> allocated w s' dev i"
  shows "blocks_used w dev i s \<subseteq> blocks_used w dev i s'"
  using assms(2) same_geom_fields(3) [OF assms(1), of w] by (auto simp: blocks_used_def)

lemma open_fs_keep:
  "open_fs w dev i L s n \<Longrightarrow> fs_inv s' dev i n' \<Longrightarrow> same_geom (master_tab s ! i) (master_tab s' ! i) \<Longrightarrow> open_fs w dev i L s' n'"
  by (simp add: open_fs_def map_len_geom)

lemma map_get_fresh:
  assumes "open_fs w dev i L s (n + (2 + 2 * L))"
  shows "\<exists>r s'. get_block (map_get_block w) dev s = Some (r, s') \<and> open_fs w dev i L s' n \<and>
    blocks_used w dev i s \<subseteq> blocks_used w dev i s' \<and>
    (\<forall>b. r = Some b \<longrightarrow> b \<notin> blocks_used w dev i s \<and> b \<in> blocks_used w dev i s')"
proof -
  have inv: "fs_inv s dev i (n + (2 + 2 * map_len w (master_tab s ! i)))" using assms by (simp add: open_fs_def)
  obtain r blk s' where s': "map_get_block w s dev 0 = Some (r, blk, s')" "fs_inv s' dev i n"
    "scan_result w s dev i (\<lambda>k. True) r blk s'"
    using map_get_block_spec [OF inv] by blast
  then have g: "same_geom (master_tab s ! i) (master_tab s' ! i)" and sub: "allocated w s dev i \<subseteq> allocated w s' dev i"
    by (auto simp: scan_result_def outside_kept_def moved_def took_def)
  have "blk \<notin> blocks_used w dev i s \<and> blk \<in> blocks_used w dev i s'" if ok: "r = INODE_OK"
  proof -
    obtain k where k: "took w s dev i k s'" "blk = map_first w (master_tab s ! i) + of_nat k"
      using s'(3) ok by (auto simp: scan_result_def)
    then have "k < 512 * L" "k \<notin> allocated w s dev i" "k \<in> allocated w s' dev i"
      using assms by (auto simp: took_def open_fs_def)
    then show ?thesis
      using blocks_used_iff [OF assms] k(2) same_geom_fields(3) [OF g, of w] by (auto simp: blocks_used_def)
  qed
  then show ?thesis
    using s'(1) open_fs_keep [OF assms s'(2) g] blocks_used_mono [OF g sub] by (simp add: get_block_def)
qed

lemma map_give_back:
  assumes "open_fs w dev i L s (n + (2 + 2 * L))" "b \<in> blocks_used w dev i s"
  shows "\<exists>s'. give_block (map_free_block w) dev s b = Some s' \<and> open_fs w dev i L s' n \<and>
    blocks_used w dev i s - {b} \<subseteq> blocks_used w dev i s'"
proof -
  obtain k where k: "k \<in> allocated w s dev i" "b = map_first w (master_tab s ! i) + of_nat k"
    using assms(2) by (auto simp: blocks_used_def)
  have "k < 512 * map_len w (master_tab s ! i)" "k < 2 ^ 32" using k(1) assms(1) by (auto simp: open_fs_def allocated_iff)
  moreover have inv: "fs_inv s dev i (Suc n)" by (rule fs_inv_mono [of s dev i "n + (2 + 2 * L)"]) (use assms(1) in \<open>simp_all add: open_fs_def\<close>)
  ultimately obtain s' where s': "map_free_block w s dev b = Some (INODE_OK, s')" "fs_inv s' dev i n" "freed w s dev i k s'"
    using map_free_block_spec k(2) by blast
  then have g: "same_geom (master_tab s ! i) (master_tab s' ! i)" by (simp add: freed_def outside_kept_def)
  have "allocated w s dev i - {k} \<subseteq> allocated w s' dev i"
    using s'(3) allocated_recorded [OF inv, of w] by (auto simp: freed_def)
  then have "blocks_used w dev i s - {b} \<subseteq> blocks_used w dev i s'"
    using same_geom_fields(3) [OF g, of w] k(2) by (auto simp: blocks_used_def)
  then show ?thesis using s'(1) open_fs_keep [OF assms(1) s'(2) g] by (simp add: give_block_def)
qed

lemma open_fs_less: "open_fs w dev i L s (n + m) \<Longrightarrow> open_fs w dev i L s n"
  using fs_inv_mono [of s dev i "n + m" n] by (simp add: open_fs_def)

interpretation data_blocks: block_allocator "get_block inode_get_data_block dev" "give_block inode_free_data_block dev"
    "blocks_used BMAP dev i" "open_fs BMAP dev i L" "2 + 2 * L" for dev i L
  using map_get_fresh map_give_back open_fs_less
  by unfold_locales (simp_all add: inode_get_data_block_def [abs_def] inode_free_data_block_def [abs_def])

interpretation inode_blocks: block_allocator "get_block inode_get_inode_block dev" "give_block inode_free_inode_block dev"
    "blocks_used IMAP dev i" "open_fs IMAP dev i L" "2 + 2 * L" for dev i L
  using map_get_fresh map_give_back open_fs_less
  by unfold_locales (simp_all add: inode_get_inode_block_def [abs_def] inode_free_inode_block_def [abs_def])

section \<open>The layout of a new file system\<close>

text \<open>The sizes never wrap: a size in bytes has at most \<open>2 ^ 23\<close> blocks.\<close>

lemma fs_sizes:
  fixes sz :: u32
  defines "T \<equiv> unat sz div 512"
  shows "T < 2 ^ 23" "unat (fs_inodes sz) = T div 5" "unat (fs_blocks sz) = T * 4 div 5"
proof -
  have T: "T < 2 ^ 23" using unat_lt_word32 [of sz] unfolding T_def by (simp add: div_less_iff_less_mult del: unat_lt_word32)
  then show "T < 2 ^ 23" .
  have "unat (sz div 512 * 20) = T * 20" "unat (sz div 512 * 80) = T * 80"
    using T by (subst u32_mult_unat; simp add: unat_div T_def)+
  then show "unat (fs_inodes sz) = T div 5" "unat (fs_blocks sz) = T * 4 div 5"
    by (simp_all add: fs_inodes_def fs_blocks_def unat_div)
qed

lemma unat_map_blocks: "unat (map_blocks n) = max 1 (unat n div 4096)"
proof -
  have "unat (n div 8 div 512) = unat n div 4096" by (simp add: unat_div div_mult2_eq [symmetric])
  moreover have "n div 8 div 512 = 0 \<longleftrightarrow> unat (n div 8 div 512) = 0" by (simp only: unat_eq_0)
  ultimately show ?thesis by (auto simp: map_blocks_def Let_def max_def)
qed

lemma fs_sum:
  fixes sz start :: u32
  assumes "unat start \<le> 4096"
  shows "unat start + 1 + unat (map_blocks (fs_inodes sz)) + unat (map_blocks (fs_blocks sz)) + unat (fs_inodes sz)
    + unat (fs_blocks sz) < 2 ^ 25"
proof -
  have "unat (map_blocks (fs_inodes sz)) \<le> 1 + unat (fs_inodes sz)" "unat (map_blocks (fs_blocks sz)) \<le> 1 + unat (fs_blocks sz)"
    by (auto simp: unat_map_blocks max_def intro: le_SucI)
  moreover have "unat (fs_inodes sz) + unat (fs_blocks sz) \<le> 2 ^ 23"
    using fs_sizes [of sz] by simp
  ultimately show ?thesis using assms by simp
qed

lemma make_master_layout:
  fixes start sz :: u32 and m0 :: master_inode
  assumes "unat start \<le> 4096"
  defines "m \<equiv> make_master start sz m0"
  shows "block_start m = start" "unat (inode_map_start m) = unat start + 1"
    "unat (inode_map_end m) = unat (inode_map_start m) + max 1 (unat sz div 512 div 5 div 4096)"
    "bmap_map_start m = inode_map_end m"
    "unat (bmap_map_end m) = unat (bmap_map_start m) + max 1 (unat sz div 512 * 4 div 5 div 4096)"
    "inode_start m = bmap_map_end m" "unat (inode_end m) = unat (inode_start m) + unat sz div 512 div 5"
    "data_start m = inode_end m" "unat (data_end m) = unat (data_start m) + unat sz div 512 * 4 div 5"
    "unat (data_end m) < 2 ^ 25"
proof -
  note S = fs_sum [OF assms(1), of sz]
  show "block_start m = start" and b: "bmap_map_start m = inode_map_end m" and i: "inode_start m = bmap_map_end m"
    and dd: "data_start m = inode_end m"
    by (simp_all add: m_def make_master_def Let_def)
  show 1: "unat (inode_map_start m) = unat start + 1"
    using assms(1) by (simp add: m_def make_master_def Let_def u32_add_unat)
  have 2: "unat (inode_map_end m) = unat start + 1 + unat (map_blocks (fs_inodes sz))"
    using S 1 by (simp add: m_def make_master_def Let_def u32_add_unat)
  have 3: "unat (bmap_map_end m) = unat start + 1 + unat (map_blocks (fs_inodes sz)) + unat (map_blocks (fs_blocks sz))"
    using S 2 by (simp add: m_def make_master_def Let_def u32_add_unat)
  have 4: "unat (inode_end m) = unat (bmap_map_end m) + unat (fs_inodes sz)"
    using S 3 by (simp add: m_def make_master_def Let_def u32_add_unat)
  have 5: "unat (data_end m) = unat (inode_end m) + unat (fs_blocks sz)"
    using S 3 4 by (simp add: m_def make_master_def Let_def u32_add_unat)
  show "unat (inode_map_end m) = unat (inode_map_start m) + max 1 (unat sz div 512 div 5 div 4096)"
    unfolding 2 1 unat_map_blocks fs_sizes ..
  show "unat (bmap_map_end m) = unat (bmap_map_start m) + max 1 (unat sz div 512 * 4 div 5 div 4096)"
    unfolding b 3 2 unat_map_blocks fs_sizes ..
  show "unat (inode_end m) = unat (inode_start m) + unat sz div 512 div 5" unfolding i 4 fs_sizes ..
  show "unat (data_end m) = unat (data_start m) + unat sz div 512 * 4 div 5" unfolding dd 5 fs_sizes ..
  show "unat (data_end m) < 2 ^ 25" using S unfolding 5 4 3 .
qed

section \<open>Making and opening a file system\<close>

lemma dev_zero_spec:
  assumes "drive_ok d" "unat b \<le> CHS_LIMIT" "dev = 0 \<or> dev = 1"
  shows "\<exists>d'. dev_zero d dev a b = Some d' \<and> drive_ok d' \<and> (\<forall>dev' c. addr_ok dev' c \<longrightarrow>
    dsec d' dev' c = (if dev' = dev \<and> unat a \<le> unat c \<and> unat c < unat b then zeros DEV_BLOCK_SIZE else dsec d dev' c))"
  using assms
proof (induction d dev a b rule: dev_zero.induct)
  case (1 d dev a b)
  show ?case
  proof (cases "a < b")
    case True
    then have a: "unat a < unat b" by (simp add: word_less_nat_alt)
    with "1.prems" have ok: "addr_ok dev a" by (auto simp: addr_ok_def)
    obtain d1 where d1: "dev_write d dev a (zeros 512) = Some (DEV_OK, d1)" "drive_ok d1"
      "\<And>dev' c. addr_ok dev' c \<Longrightarrow> dsec d1 dev' c = (if dev' = dev \<and> c = a then zeros 512 else dsec d dev' c)"
      using dev_write_ok [OF "1.prems"(1) _ ok, of "zeros 512"] by auto
    have s: "unat (a + 1) = Suc (unat a)" using a "1.prems"(2) by (intro u32_Suc_unat) simp
    obtain d2 where d2: "dev_zero d1 dev (a + 1) b = Some d2" "drive_ok d2" "\<And>dev' c. addr_ok dev' c \<Longrightarrow>
        dsec d2 dev' c = (if dev' = dev \<and> unat (a + 1) \<le> unat c \<and> unat c < unat b then zeros 512 else dsec d1 dev' c)"
      using "1.IH" [OF True d1(1) refl d1(2) "1.prems"(2,3)] by blast
    have "dsec d2 dev' c = (if dev' = dev \<and> unat a \<le> unat c \<and> unat c < unat b then zeros 512 else dsec d dev' c)"
      if "addr_ok dev' c" for dev' c
    proof (cases "c = a")
      case True
      then show ?thesis using that a s by (simp add: d1(3) d2(3))
    next
      case False
      then have "unat c \<noteq> unat a" by (simp add: word_unat_eq_iff)
      then show ?thesis using that False s by (auto simp: d1(3) d2(3) Suc_le_eq)
    qed
    then show ?thesis using True d1(1) d2(1,2) by (subst dev_zero.simps) simp
  next
    case False
    then have "\<not> unat a < unat b" by (simp add: word_less_nat_alt)
    with False "1.prems" show ?thesis by (subst dev_zero.simps) auto
  qed
qed

text \<open>No device is open: the table is not initialised, or all its entries are free.\<close>

definition free_master :: master_inode where
  "free_master = zero_master\<lparr>m_dev := INODE_NOPOS\<rparr>"

definition no_open :: "fsys \<Rightarrow> bool" where
  "no_open s \<longleftrightarrow> init_master s \<longrightarrow> master_tab s = replicate INODE_NR_DEV free_master \<and>
     (\<forall>w. length (map_memory w s) = INODE_NR_DEV \<and> (\<forall>j < INODE_NR_DEV. length (map_memory w s ! j) = DEV_BLOCK_SIZE))"

lemma master_init_tab:
  assumes "no_open s"
  shows "master_tab (master_init s) = replicate INODE_NR_DEV free_master" "init_master (master_init s)"
    "length (map_memory w (master_init s)) = INODE_NR_DEV"
    "j < INODE_NR_DEV \<Longrightarrow> length (map_memory w (master_init s) ! j) = DEV_BLOCK_SIZE"
    "fs_cache (master_init s) = fs_cache s"
proof -
  have *: "master_tab (master_init s) = replicate INODE_NR_DEV free_master \<and> init_master (master_init s) \<and>
    length (map_memory w (master_init s)) = INODE_NR_DEV \<and>
    (\<forall>j < INODE_NR_DEV. length (map_memory w (master_init s) ! j) = DEV_BLOCK_SIZE) \<and> fs_cache (master_init s) = fs_cache s"
  proof (cases "init_master s")
    case True
    then have "master_init s = s" by (simp add: master_init_def)
    then show ?thesis using assms True unfolding no_open_def by simp
  next
    case False
    then show ?thesis by (cases w; simp add: master_init_def free_master_def)
  qed
  show "master_tab (master_init s) = replicate INODE_NR_DEV free_master" "init_master (master_init s)"
    "length (map_memory w (master_init s)) = INODE_NR_DEV" "fs_cache (master_init s) = fs_cache s"
    "j < INODE_NR_DEV \<Longrightarrow> length (map_memory w (master_init s) ! j) = DEV_BLOCK_SIZE"
    using * by blast+
qed

lemma first_from_0: "0 < n \<Longrightarrow> P 0 \<Longrightarrow> first_from P 0 n = Some 0"
  by (simp add: first_from.simps)

lemma m_dev_free [simp]: "m_dev free_master = INODE_NOPOS" "master_wf free_master"
  by (simp_all add: free_master_def master_wf_def zero_master_def read_master_def chunk_def)

text \<open>The first device of an empty table goes into entry 0.\<close>

lemma master_alloc_first:
  assumes "master_tab s = replicate INODE_NR_DEV free_master"
  shows "master_alloc s 0 = (Some 0, upd_master s 0 (\<lambda>m. m\<lparr>m_dev := 0\<rparr>))"
    "master_get (upd_master s 0 (\<lambda>m. m\<lparr>m_dev := 0\<rparr>)) 0 = Some 0"
proof -
  have "master_get s 0 = None" using assms by (auto simp: master_get_def first_from_None_iff)
  moreover have "first_from (\<lambda>i. m_dev (master_tab s ! i) = INODE_NOPOS) 0 INODE_NR_DEV = Some 0"
    using assms by (intro first_from_0) simp_all
  ultimately show "master_alloc s 0 = (Some 0, upd_master s 0 (\<lambda>m. m\<lparr>m_dev := 0\<rparr>))" by (simp add: master_alloc_def)
  show "master_get (upd_master s 0 (\<lambda>m. m\<lparr>m_dev := 0\<rparr>)) 0 = Some 0"
    using assms by (simp add: master_get_def first_from_0)
qed

lemma master_get_0:
  "0 < length (master_tab s) \<Longrightarrow> m_dev (master_tab s ! 0) = 0 \<Longrightarrow> master_get s 0 = Some 0"
  by (simp add: master_get_def first_from_0)

lemma replicate_update: "(replicate n x)[i := y, i := x] = replicate n x"
  by (cases "i < n") (simp_all add: list_update_same_conv list_update_beyond)

text \<open>The master inode \<open>inode_create_fs\<close> writes, and the drive it leaves.\<close>

definition new_master :: "u32 \<Rightarrow> u32 \<Rightarrow> master_inode" where
  "new_master start sz = make_master start sz (free_master\<lparr>m_dev := 0\<rparr>)"

definition fresh_drive :: "drive \<Rightarrow> u32 \<Rightarrow> u32 \<Rightarrow> drive \<Rightarrow> bool" where
  "fresh_drive d start sz d' \<longleftrightarrow> drive_ok d' \<and> (let m = new_master start sz in
     \<forall>dev' c. addr_ok dev' c \<longrightarrow> dsec d' dev' c =
       (if dev' = 0 \<and> c = start then master_image m
        else if dev' = 0 \<and> unat (inode_map_start m) \<le> unat c \<and> unat c < unat (inode_end m) then zeros DEV_BLOCK_SIZE
        else dsec d dev' c))"

lemma new_master_simps [simp]:
  "m_dev (new_master start sz) = 0" "master_wf (new_master start sz)" "magic (new_master start sz) = INODE_MAGIC"
  "init_fs (new_master start sz) = 1" "map_ptr w (new_master start sz) = 0"
  by (cases w; simp add: new_master_def make_master_def Let_def master_wf_def)+

lemma new_master_order:
  assumes "unat start \<le> 4096"
  shows "unat start < unat (inode_map_start (new_master start sz))"
    "unat (inode_map_start (new_master start sz)) < unat (inode_map_end (new_master start sz))"
    "unat (inode_map_end (new_master start sz)) < unat (bmap_map_end (new_master start sz))"
    "unat (bmap_map_end (new_master start sz)) \<le> unat (inode_end (new_master start sz))"
    "unat (inode_end (new_master start sz)) \<le> CHS_LIMIT"
proof -
  note L = make_master_layout [OF assms, of sz "free_master\<lparr>m_dev := 0\<rparr>", folded new_master_def]
  show "unat start < unat (inode_map_start (new_master start sz))" unfolding L(2) by simp
  show "unat (inode_map_start (new_master start sz)) < unat (inode_map_end (new_master start sz))" unfolding L(3) by simp
  show "unat (inode_map_end (new_master start sz)) < unat (bmap_map_end (new_master start sz))" unfolding L(5) L(4) by simp
  show "unat (bmap_map_end (new_master start sz)) \<le> unat (inode_end (new_master start sz))" unfolding L(7) L(6) by simp
  have "unat (inode_end (new_master start sz)) \<le> unat (data_end (new_master start sz))" unfolding L(9) L(8) by simp
  with L(10) show "unat (inode_end (new_master start sz)) \<le> CHS_LIMIT" by simp
qed

lemma create_drive:
  fixes start sz :: u32
  assumes "drive_ok d" "unat start \<le> 4096"
  defines "m \<equiv> new_master start sz"
  shows "\<exists>d1 d2 d3 d4. dev_write d 0 start (master_image m) = Some (DEV_OK, d1) \<and>
    dev_zero d1 0 (inode_map_start m) (inode_map_end m) = Some d2 \<and> dev_zero d2 0 (bmap_map_start m) (bmap_map_end m) = Some d3 \<and>
    dev_zero d3 0 (inode_start m) (inode_end m) = Some d4 \<and> fresh_drive d start sz d4"
proof -
  note L = make_master_layout [OF assms(2), of sz "free_master\<lparr>m_dev := 0\<rparr>", folded new_master_def, folded m_def]
  note o = new_master_order [OF assms(2), of sz, folded m_def]
  have lim: "unat (inode_end m) \<le> CHS_LIMIT" "unat (bmap_map_end m) \<le> CHS_LIMIT" "unat (inode_map_end m) \<le> CHS_LIMIT"
    using o by linarith+
  have ok: "addr_ok 0 start" using assms(2) by (simp add: addr_ok_def)
  obtain d1 where d1: "dev_write d 0 start (master_image m) = Some (DEV_OK, d1)" "drive_ok d1"
    "\<And>dev' c. addr_ok dev' c \<Longrightarrow> dsec d1 dev' c = (if dev' = 0 \<and> c = start then master_image m else dsec d dev' c)"
    using dev_write_ok [OF assms(1) _ ok, of "master_image m"] by (auto simp: m_def image_lengths)
  obtain d2 where d2: "dev_zero d1 0 (inode_map_start m) (inode_map_end m) = Some d2" "drive_ok d2"
    "\<And>dev' c. addr_ok dev' c \<Longrightarrow> dsec d2 dev' c = (if dev' = 0 \<and> unat (inode_map_start m) \<le> unat c \<and>
       unat c < unat (inode_map_end m) then zeros 512 else dsec d1 dev' c)"
    using dev_zero_spec [OF d1(2) lim(3), of 0 "inode_map_start m"] by auto
  obtain d3 where d3: "dev_zero d2 0 (bmap_map_start m) (bmap_map_end m) = Some d3" "drive_ok d3"
    "\<And>dev' c. addr_ok dev' c \<Longrightarrow> dsec d3 dev' c = (if dev' = 0 \<and> unat (bmap_map_start m) \<le> unat c \<and>
       unat c < unat (bmap_map_end m) then zeros 512 else dsec d2 dev' c)"
    using dev_zero_spec [OF d2(2) lim(2), of 0 "bmap_map_start m"] by auto
  obtain d4 where d4: "dev_zero d3 0 (inode_start m) (inode_end m) = Some d4" "drive_ok d4"
    "\<And>dev' c. addr_ok dev' c \<Longrightarrow> dsec d4 dev' c = (if dev' = 0 \<and> unat (inode_start m) \<le> unat c \<and>
       unat c < unat (inode_end m) then zeros 512 else dsec d3 dev' c)"
    using dev_zero_spec [OF d3(2) lim(1), of 0 "inode_start m"] by auto
  have "dsec d4 dev' c = (if dev' = 0 \<and> c = start then master_image m
      else if dev' = 0 \<and> unat (inode_map_start m) \<le> unat c \<and> unat c < unat (inode_end m) then zeros 512 else dsec d dev' c)"
    if "addr_ok dev' c" for dev' c
    using that o unfolding d4(3) [OF that] d3(3) [OF that] d2(3) [OF that] d1(3) [OF that] L(4,6) by auto
  then have "fresh_drive d start sz d4" using d4(2) by (simp add: fresh_drive_def Let_def m_def)
  then show ?thesis using d1(1) d2(1) d3(1) d4(1) by blast
qed

lemma create_fs_spec:
  assumes "no_open s" "drive_ok (bc_hw (fs_cache s))" "unat start \<le> 4096" "sz mod 512 = 0"
  shows "\<exists>s'. inode_create_fs s path start sz = Some (INODE_OK, s') \<and> no_open s' \<and> init_master s' \<and>
    \<not> bc_init (fs_cache s') \<and> fresh_drive (bc_hw (fs_cache s)) start sz (bc_hw (fs_cache s')) \<and>
    map_base w s' = map_base w (master_init s)"
proof -
  define t where "t = master_init s"
  note T = master_init_tab [OF assms(1), folded t_def]
  let ?u = "upd_master (upd_master t 0 (\<lambda>m. m\<lparr>m_dev := 0\<rparr>)) 0 (make_master start sz)"
  let ?m = "new_master start sz"
  have u: "master_tab ?u ! 0 = ?m" "master_tab ?u = (replicate INODE_NR_DEV free_master)[0 := ?m]" "fs_cache ?u = fs_cache s"
    using T by (simp_all add: new_master_def upd_master_tab)
  obtain d1 d2 d3 d4 where d: "dev_write (bc_hw (fs_cache s)) 0 start (master_image ?m) = Some (DEV_OK, d1)"
    "dev_zero d1 0 (inode_map_start ?m) (inode_map_end ?m) = Some d2" "dev_zero d2 0 (bmap_map_start ?m) (bmap_map_end ?m) = Some d3"
    "dev_zero d3 0 (inode_start ?m) (inode_end ?m) = Some d4" "fresh_drive (bc_hw (fs_cache s)) start sz d4"
    using create_drive [OF assms(2,3), of sz] by blast
  let ?v = "?u\<lparr>fs_cache := block_reinit ((fs_cache ?u)\<lparr>bc_hw := d4\<rparr>)\<rparr>"
  let ?s' = "master_free ?v 0"
  have "master_get ?v 0 = Some 0" using u by (intro master_get_0) simp_all
  then have s': "master_tab ?s' = replicate INODE_NR_DEV free_master" "fs_cache ?s' = fs_cache ?v"
    "init_master ?s' = init_master t" "\<And>w. map_memory w ?s' = map_memory w t" "\<And>w. map_base w ?s' = map_base w t"
    using u(2) replicate_update [of 16 free_master 0 ?m]
    by (simp_all add: master_free_def upd_master_tab free_master_def [symmetric])
  have "inode_create_fs s path start sz = Some (INODE_OK, ?s')"
    using assms(4) T u master_alloc_first [OF T(1)] d(1-4)
    by (simp add: inode_create_fs_def t_def [symmetric] dev_open_def Let_def del: upd_master_upd)
  moreover have "no_open ?s'" using s' T by (simp add: no_open_def)
  moreover have "\<not> bc_init (fs_cache ?s')" "bc_hw (fs_cache ?s') = d4" unfolding s'(2) by (simp_all add: block_reinit_def)
  ultimately show ?thesis using d(5) s'(3,5) T(2) t_def by auto
qed

text \<open>Opening it: the master inode is read back, both maps are empty.\<close>

definition opened :: "u32 \<Rightarrow> fsys \<Rightarrow> bool" where
  "opened sz s \<longleftrightarrow> fs_inv s 0 0 125 \<and>
     (\<forall>w. allocated w s 0 0 = {} \<and> recorded w s 0 0 = {} \<and>
        map_start w (master_tab s ! 0) = map_start w (new_master BLOCK_START sz) \<and>
        map_end w (master_tab s ! 0) = map_end w (new_master BLOCK_START sz) \<and>
        map_first w (master_tab s ! 0) = map_first w (new_master BLOCK_START sz) \<and>
        map_ptr w (master_tab s ! 0) = map_start w (master_tab s ! 0) \<and> map_pos w (master_tab s ! 0) = 0)"

lemma set_addr_fields [simp]:
  "map_start w' (set_addr w v m) = map_start w' m" "map_end w' (set_addr w v m) = map_end w' m"
  "map_first w' (set_addr w v m) = map_first w' m" "m_dev (set_addr w v m) = m_dev m"
  "block_start (set_addr w v m) = block_start m" "master_wf (set_addr w v m) = master_wf m"
  by (cases w; cases w'; simp add: master_wf_def)+

lemma master_wf_set [simp]: "master_wf (set_ptr w v m) = master_wf m" "master_wf (set_mbit w v m) = master_wf m"
  by (cases w; simp add: master_wf_def)+

text \<open>Opening one map whose pointer is 0: its first block is in memory.\<close>

lemma open_map_first:
  assumes "length (master_tab s) = INODE_NR_DEV" "map_ptr w (master_tab s ! 0) = 0" "cache_inv (fs_cache s) (Suc n)"
    "addr_ok 0 (map_start w (master_tab s ! 0))"
  obtains s' where "open_map w s 0 0 0 = Some (BLOCK_OK, s')" "cache_inv (fs_cache s') n"
    "\<And>dev' b'. addr_ok dev' b' \<Longrightarrow> view (fs_cache s') dev' b' = view (fs_cache s) dev' b'"
    "master_tab s' ! 0 = set_mbit w 0 (set_ptr w (map_start w (master_tab s ! 0)) (set_addr w (map_base w s) (master_tab s ! 0)))"
    "length (master_tab s') = INODE_NR_DEV" "\<And>w'. map_base w' s' = map_base w' s"
    "\<And>w'. map_memory w' s' = (if w' = w then (map_memory w s)[0 := view (fs_cache s) 0 (map_start w (master_tab s ! 0))] else map_memory w' s)"
proof -
  let ?f = "\<lambda>m. set_mbit w 0 (set_ptr w (map_start w m) (set_addr w (map_base w s) m))"
  let ?t = "upd_master s 0 ?f"
  have e: "open_map w s 0 0 0 = map_load w ?t 0 0"
    using assms(1,2) by (simp add: open_map_def map_attach_def upd_master_def)
  have m: "master_tab ?t ! 0 = ?f (master_tab s ! 0)" using assms(1) by simp
  have slot: "map_slot w ?t 0 = Some 0" by (rule map_slot_ok) (simp_all add: m)
  have ci: "cache_inv (fs_cache ?t) (Suc n)" and ad: "addr_ok 0 (map_ptr w (master_tab ?t ! 0))"
    using assms(3,4) by (simp_all add: m)
  obtain c' where "map_load w ?t 0 0 = Some (BLOCK_OK, set_memory w 0 (view (fs_cache ?t) 0 (map_ptr w (master_tab ?t ! 0))) (?t\<lparr>fs_cache := c'\<rparr>))"
    "cache_inv c' n" "\<And>dev' b'. addr_ok dev' b' \<Longrightarrow> view c' dev' b' = view (fs_cache ?t) dev' b'"
    using map_load_ok [OF slot ci ad] by blast
  then show thesis
    using assms(1) m by (intro that [of "set_memory w 0 (view (fs_cache ?t) 0 (map_ptr w (master_tab ?t ! 0))) (?t\<lparr>fs_cache := c'\<rparr>)"]) (simp_all add: e)
qed

lemma bit_get_zeros: "bit_get (zeros 512) (k mod 512) = 0"
proof -
  have "k mod 512 div 8 < 512" by (rule le_less_trans [OF div_le_dividend mod_less_divisor]) simp
  then show ?thesis by (simp add: bit_get_bit)
qed

lemma dev_open_spec:
  assumes "no_open s" "init_master s" "\<not> bc_init (fs_cache s)" "fresh_drive d BLOCK_START sz (bc_hw (fs_cache s))"
  shows "\<exists>s'. inode_dev_open s (Some path) 0 = Some (INODE_OK, 0, s') \<and> opened sz s'"
proof -
  let ?m = "new_master BLOCK_START sz" and ?c0 = "cache_reset (fs_cache s)"
  have hw: "drive_ok (bc_hw (fs_cache s))" using assms(4) by (simp add: fresh_drive_def)
  note V = cache_reset_wf(3) [OF hw]
  have ci0: "cache_inv ?c0 (Suc (Suc (Suc 125)))" using cache_reset_wf(1,2) [OF hw] by (simp add: cache_inv_def)
  define t where "t = upd_master (s\<lparr>fs_cache := ?c0\<rparr>) 0 (\<lambda>m. m\<lparr>m_dev := 0\<rparr>)"
  have tab: "master_tab s = replicate INODE_NR_DEV free_master" using assms(1,2) by (simp add: no_open_def)
  have t: "master_alloc (master_init (s\<lparr>fs_cache := ?c0\<rparr>)) 0 = (Some 0, t)" "master_get t 0 = Some 0" "fs_cache t = ?c0"
    "length (master_tab t) = 16"
    using master_alloc_first [of "s\<lparr>fs_cache := ?c0\<rparr>"] tab assms(2) by (simp_all add: t_def master_init_def)
  have a0: "addr_ok 0 BLOCK_START" by (simp add: addr_ok_def)
  obtain c1 where c1: "\<And>buf. block_read ?c0 0 BLOCK_START (Some (master_image (master_tab t ! 0))) = Some (BLOCK_OK, Some (view ?c0 0 BLOCK_START), c1)"
    "cache_inv c1 (Suc (Suc 125))" "\<And>dev' b'. addr_ok dev' b' \<Longrightarrow> view c1 dev' b' = view ?c0 dev' b'"
    using cache_read [OF ci0 a0] by blast
  have vm: "view ?c0 0 BLOCK_START = master_image ?m"
    using V [OF a0] assms(4) a0 by (simp add: fresh_drive_def Let_def)
  define u where "u = (upd_master t 0 (\<lambda>_. ?m))\<lparr>fs_cache := c1\<rparr>"
  have u: "master_tab u ! 0 = ?m" "fs_cache u = c1" "length (master_tab u) = 16" "master_get u 0 = Some 0"
    "\<And>w. map_base w u = map_base w s" "\<And>w. map_memory w u = map_memory w s"
    using t(4) by (simp_all add: u_def master_get_0) (simp_all add: t_def)
  have G: "geom_ok ?m" using new_master_order [of BLOCK_START sz] make_master_layout(1,4) [of BLOCK_START sz "free_master\<lparr>m_dev := 0\<rparr>"]
    by (simp add: geom_ok_def new_master_def [symmetric])
  have mlen: "length (map_memory w s) = 16" for w using assms(1,2) unfolding no_open_def by simp
  have ad: "addr_ok 0 (map_start w ?m)" for w
    using geom_bounds(2,3) [OF G, of w] by (simp add: addr_ok_def)
  obtain v where v: "open_map BMAP u 0 0 0 = Some (BLOCK_OK, v)" "cache_inv (fs_cache v) (Suc 125)"
    "\<And>dev' b'. addr_ok dev' b' \<Longrightarrow> view (fs_cache v) dev' b' = view c1 dev' b'"
    "master_tab v ! 0 = set_mbit BMAP 0 (set_ptr BMAP (map_start BMAP ?m) (set_addr BMAP (map_base BMAP s) ?m))"
    "length (master_tab v) = INODE_NR_DEV" "\<And>w'. map_base w' v = map_base w' s"
    "\<And>w'. map_memory w' v = (if w' = BMAP then (map_memory BMAP s)[0 := view c1 0 (map_start BMAP ?m)] else map_memory w' s)"
    using open_map_first [of u BMAP "Suc 125", unfolded u, OF refl new_master_simps(5) c1(2) ad] by blast
  have vp: "map_ptr IMAP (master_tab v ! 0) = 0" "map_start IMAP (master_tab v ! 0) = map_start IMAP ?m"
    by (simp_all only: v(4) map_fields set_fields set_addr_fields) simp_all
  obtain x where x: "open_map IMAP v 0 0 0 = Some (BLOCK_OK, x)" "cache_inv (fs_cache x) 125"
    "\<And>dev' b'. addr_ok dev' b' \<Longrightarrow> view (fs_cache x) dev' b' = view (fs_cache v) dev' b'"
    "master_tab x ! 0 = set_mbit IMAP 0 (set_ptr IMAP (map_start IMAP ?m) (set_addr IMAP (map_base IMAP s) (master_tab v ! 0)))"
    "length (master_tab x) = INODE_NR_DEV" "\<And>w'. map_base w' x = map_base w' s"
    "\<And>w'. map_memory w' x = (if w' = IMAP then (map_memory IMAP v)[0 := view (fs_cache v) 0 (map_start IMAP ?m)] else map_memory w' v)"
    using open_map_first [of v IMAP 125, unfolded vp v(6), OF v(5) refl v(2) ad] by blast
  have "master_get_mem_ptr u 0 = 0" using u(1,3) by (simp add: master_get_mem_ptr_def first_from_0)
  then have om: "open_maps u 0 0 = Some (INODE_OK, 0, x)"
    using v(1) x(1) by (simp add: open_maps_def)
  have "upd_master (t\<lparr>fs_cache := c1\<rparr>) 0 (\<lambda>m. read_master (master_image ?m)) = u"
    by (simp add: u_def read_master_image)
  then have "inode_dev_open s (Some path) 0 = Some (INODE_OK, 0, x)"
    using block_open_fresh [OF assms(3), of path 0] t(1,2) c1(1) om u(1)
    by (simp add: inode_dev_open_def Let_def t(3) vm del: cache_frame)
  moreover have "opened sz x"
  proof -
    let ?x = "master_tab x ! 0"
    have f: "map_ptr w ?x = map_start w ?m" "map_pos w ?x = 0" "map_addr w ?x = map_base w s" "map_start w ?x = map_start w ?m"
      "map_end w ?x = map_end w ?m" "map_first w ?x = map_first w ?m" "block_start ?x = block_start ?m" "m_dev ?x = 0"
      "master_wf ?x" for w
      by (cases w; simp add: x(4) v(4) del: map_ptr.simps map_pos.simps map_addr.simps map_start.simps map_end.simps map_first.simps
          set_ptr.simps set_mbit.simps set_addr.simps)+
    have z: "view c 0 (map_start w ?m + of_nat q) = zeros 512" if "q < map_len w ?m" "c = c1 \<or> c = fs_cache v \<or> c = fs_cache x" for c w q
    proof -
      let ?b = "map_start w ?m + of_nat q"
      note B = map_blk [OF G that(1)]
      have ok: "addr_ok 0 ?b" by (rule B(3)) simp
      have r: "unat (inode_map_start ?m) \<le> unat ?b" "unat ?b < unat (inode_end ?m)" "?b \<noteq> BLOCK_START"
        using B(1,2) new_master_order [of BLOCK_START sz] make_master_layout(4) [of BLOCK_START sz "free_master\<lparr>m_dev := 0\<rparr>", folded new_master_def]
        by (cases w; auto)+
      have "view c 0 ?b = view ?c0 0 ?b" using that(2) ok by (auto simp: c1(3) v(3) x(3))
      also have "\<dots> = dsec (bc_hw (fs_cache s)) 0 ?b" using ok by (rule V)
      also have "\<dots> = zeros 512" using assms(4) ok r by (simp add: fresh_drive_def Let_def)
      finally show ?thesis .
    qed
    have mem: "map_memory w x ! 0 = zeros 512" for w
    proof -
      have "0 < map_len w' ?m" for w' using geom_bounds(2) [OF G, of w'] by (simp add: map_len_def)
      then have "view c1 0 (map_start BMAP ?m) = zeros 512" "view (fs_cache v) 0 (map_start IMAP ?m) = zeros 512"
        using z [of 0 BMAP c1] z [of 0 IMAP "fs_cache v"] by auto
      then show ?thesis using mlen [of IMAP] mlen [of BMAP] by (cases w; simp add: x(7) v(7))
    qed
    have "geom_ok ?x" using G f(4,5) [of IMAP] f(4,5) [of BMAP] f(7,9) by (simp add: geom_ok_def)
    moreover have "length (map_memory w x) = 16" for w using mlen [of IMAP] mlen [of BMAP] by (cases w; simp add: x(7) v(7))
    then have "map_ok w x 0 0" for w
      using f(1-5) [of w] mem [of w] geom_bounds(2) [OF G, of w] mlen [of w] x(6) [of w]
      by (simp add: map_ok_def Let_def bit_get_bit)
    moreover have "master_get x 0 = Some 0" using x(5) f(8) by (intro master_get_0) simp_all
    ultimately have "fs_inv x 0 0 125" using x(2,5) by (simp add: fs_inv_def)
    moreover have "map_len w ?x = map_len w ?m" for w by (simp add: map_len_def f)
    moreover have "k \<notin> allocated w x 0 0" "k \<notin> recorded w x 0 0" for k w
      using z [of "k div 512" w "fs_cache x"] mem [of w] bit_get_zeros [of k] calculation
      by (auto simp: allocated_iff recorded_iff f blk_lt Let_def)
    ultimately show ?thesis by (auto simp: opened_def f)
  qed
  ultimately show ?thesis by blast
qed

section \<open>Properties\<close>

text \<open>A machine after boot, with a blank drive of unlimited size.\<close>

definition boot_fs :: fsys where
  "boot_fs = \<lparr>fs_cache = blank_cache, master_tab = [], master_bmap_memory = [], master_imap_memory = [],
     init_master = False, master_dev_tab = replicate MAX_DEV (None, 0), bmap_base = 0x104000, imap_base = 0x106000, fs_errno = 0\<rparr>"

lemma mkfs_open:
  assumes "no_open s" "drive_ok (bc_hw (fs_cache s))" "(sz - TWOMEG) mod 512 = 0"
  obtains s1 s2 where "inode_mkfs s path sz = Some (INODE_OK, s1)" "inode_dev_open s1 (Some path) 0 = Some (INODE_OK, 0, s2)"
    "opened (sz - TWOMEG) s2" "fresh_drive (bc_hw (fs_cache s)) BLOCK_START (sz - TWOMEG) (bc_hw (fs_cache s1))"
proof -
  obtain s1 where s1: "inode_mkfs s path sz = Some (INODE_OK, s1)" "no_open s1" "init_master s1" "\<not> bc_init (fs_cache s1)"
    "fresh_drive (bc_hw (fs_cache s)) BLOCK_START (sz - TWOMEG) (bc_hw (fs_cache s1))"
    using create_fs_spec [OF assms(1,2) _ assms(3), of BLOCK_START path] by (auto simp: inode_mkfs_def)
  then show thesis using dev_open_spec [OF s1(2-5), of path] that by blast
qed

lemma opened_len:
  assumes "opened sz s"
  shows "map_len IMAP (master_tab s ! 0) = max 1 (unat sz div 512 div 5 div 4096)"
    "map_len BMAP (master_tab s ! 0) = max 1 (unat sz div 512 * 4 div 5 div 4096)"
proof -
  note L = make_master_layout [of BLOCK_START sz "free_master\<lparr>m_dev := 0\<rparr>", folded new_master_def]
  have "map_start w (master_tab s ! 0) = map_start w (new_master BLOCK_START sz)"
    "map_end w (master_tab s ! 0) = map_end w (new_master BLOCK_START sz)" for w
    using assms unfolding opened_def by blast+
  then have "map_len w (master_tab s ! 0) = map_len w (new_master BLOCK_START sz)" for w by (simp add: map_len_def)
  moreover have "map_len IMAP (new_master BLOCK_START sz) = max 1 (unat sz div 512 div 5 div 4096)"
    "map_len BMAP (new_master BLOCK_START sz) = max 1 (unat sz div 512 * 4 div 5 div 4096)"
    using L(3,5) by (simp_all add: map_len_def)
  ultimately show "map_len IMAP (master_tab s ! 0) = max 1 (unat sz div 512 div 5 div 4096)"
    "map_len BMAP (master_tab s ! 0) = max 1 (unat sz div 512 * 4 div 5 div 4096)" by simp_all
qed

lemma boot_fs_ok: "no_open boot_fs" "drive_ok (bc_hw (fs_cache boot_fs))"
  by (simp_all add: no_open_def boot_fs_def)

lemma demo_fs:
  obtains s where "opened 512000 s" "fs_inv s 0 0 125" "map_len w (master_tab s ! 0) = 1" "allocated w s 0 0 = {}" "recorded w s 0 0 = {}"
proof -
  have "(2609152 - TWOMEG) mod 512 = (0 :: u32)" by simp
  then obtain s where s: "opened (2609152 - TWOMEG) s"
    using mkfs_open [OF boot_fs_ok] by metis
  then have o: "opened 512000 s" by simp
  then show thesis using opened_len [OF o] that [of s] by (cases w) (simp_all add: opened_def)
qed

text \<open>
  C8. Allocating and freeing data blocks never hands out a block that is in use: whatever
  a client takes and gives back, \<open>inode_get_data_block\<close> and \<open>inode_free_data_block\<close> return
  within the room of the cache, the blocks the client holds are pairwise different, and
  all of them are marked in the map.
\<close>

theorem data_blocks_distinct:
  assumes "fs_inv s dev i (n + length ops * (2 + 2 * map_len BMAP (master_tab s ! i)))"
    and "512 * map_len BMAP (master_tab s ! i) \<le> 2 ^ 32"
  shows "\<exists>held s'. alloc_run (get_block inode_get_data_block dev) (give_block inode_free_data_block dev) s [] ops = Some (held, s') \<and>
    distinct held \<and> set held \<subseteq> blocks_used BMAP dev i s' \<and> fs_inv s' dev i n"
  using data_blocks.run_distinct [of dev i "map_len BMAP (master_tab s ! i)" s n ops "[]"] assms
  by (auto simp: open_fs_def)

theorem data_blocks_distinct_witness:
  "\<exists>s held s'. alloc_run (get_block inode_get_data_block 0) (give_block inode_free_data_block 0) s [] (replicate 20 Take) = Some (held, s') \<and>
     distinct held \<and> fs_inv s' 0 0 0"
proof -
  obtain s where s: "fs_inv s 0 0 125" "map_len BMAP (master_tab s ! 0) = 1" using demo_fs by metis
  then have "fs_inv s 0 0 (0 + length (replicate 20 Take) * (2 + 2 * map_len BMAP (master_tab s ! 0)))"
    using fs_inv_mono [OF s(1), of 80] by simp
  from data_blocks_distinct [OF this] s(2) show ?thesis by auto
qed

text \<open>
  The same for inode blocks: \<open>inode_get_inode_block\<close> and \<open>inode_free_inode_block\<close>.
\<close>

theorem inode_blocks_distinct:
  assumes "fs_inv s dev i (n + length ops * (2 + 2 * map_len IMAP (master_tab s ! i)))"
    and "512 * map_len IMAP (master_tab s ! i) \<le> 2 ^ 32"
  shows "\<exists>held s'. alloc_run (get_block inode_get_inode_block dev) (give_block inode_free_inode_block dev) s [] ops = Some (held, s') \<and>
    distinct held \<and> set held \<subseteq> blocks_used IMAP dev i s' \<and> fs_inv s' dev i n"
  using inode_blocks.run_distinct [of dev i "map_len IMAP (master_tab s ! i)" s n ops "[]"] assms
  by (auto simp: open_fs_def)

theorem inode_blocks_distinct_witness:
  "\<exists>s held s'. alloc_run (get_block inode_get_inode_block 0) (give_block inode_free_inode_block 0) s [] (replicate 20 Take) = Some (held, s') \<and>
     distinct held \<and> fs_inv s' 0 0 0"
proof -
  obtain s where s: "fs_inv s 0 0 125" "map_len IMAP (master_tab s ! 0) = 1" using demo_fs by metis
  then have "fs_inv s 0 0 (0 + length (replicate 20 Take) * (2 + 2 * map_len IMAP (master_tab s ! 0)))"
    using fs_inv_mono [OF s(1), of 80] by simp
  from inode_blocks_distinct [OF this] s(2) show ?thesis by auto
qed

text \<open>
  C9. An allocation fails only when the map is full: as long as one of the map's numbers
  is not recorded as allocated, \<open>inode_get_data_block\<close> returns \<open>INODE_OK\<close> with a block
  that was free, sets its bit, and writes the map, so that the device shows what the
  running system sees; the inode map and every block outside the header stay as they were.
\<close>

theorem get_data_block_complete:
  assumes "fs_inv s dev i (n + (2 + 2 * map_len BMAP (master_tab s ! i)))"
    and "k0 < 512 * map_len BMAP (master_tab s ! i)" "k0 \<notin> recorded BMAP s dev i"
  shows "\<exists>k s'. inode_get_data_block s dev blk = Some (INODE_OK, data_start (master_tab s ! i) + of_nat k, s') \<and>
    took BMAP s dev i k s' \<and> outside_kept s dev i s' \<and> fs_inv s' dev i n"
  using map_get_block_spec [OF assms(1), of blk] assms(2,3)
  by (auto simp: scan_result_def inode_get_data_block_def)

theorem get_data_block_complete_witness:
  "\<exists>s k s'. inode_get_data_block s 0 0 = Some (INODE_OK, data_start (master_tab s ! 0) + of_nat k, s') \<and> took BMAP s 0 0 k s'"
proof -
  obtain s where s: "fs_inv s 0 0 125" "map_len BMAP (master_tab s ! 0) = 1" "recorded BMAP s 0 0 = {}"
    using demo_fs by metis
  then have "fs_inv s 0 0 (121 + (2 + 2 * map_len BMAP (master_tab s ! 0)))" by simp
  from get_data_block_complete [OF this, of 0 0] s show ?thesis by auto
qed

text \<open>
  C13. A new file system opens: after \<open>inode_mkfs\<close> on a working drive \<open>inode_dev_open\<close>
  returns \<open>INODE_OK\<close> on device 0 with both maps empty, and \<open>inode_mkfs\<close> changed no block
  of the drive but those from the master inode to the end of the inodes.
\<close>

theorem mkfs_then_open:
  assumes "no_open s" "drive_ok (bc_hw (fs_cache s))" "(sz - TWOMEG) mod 512 = 0"
  shows "\<exists>s1 s2. inode_mkfs s path sz = Some (INODE_OK, s1) \<and> inode_dev_open s1 (Some path) 0 = Some (INODE_OK, 0, s2) \<and>
    opened (sz - TWOMEG) s2 \<and>
    (\<forall>dev b. addr_ok dev b \<longrightarrow> dev \<noteq> 0 \<or> b < BLOCK_START \<or> inode_end (new_master BLOCK_START (sz - TWOMEG)) \<le> b \<longrightarrow>
       dsec (bc_hw (fs_cache s1)) dev b = dsec (bc_hw (fs_cache s)) dev b)"
proof -
  obtain s1 s2 where s: "inode_mkfs s path sz = Some (INODE_OK, s1)" "inode_dev_open s1 (Some path) 0 = Some (INODE_OK, 0, s2)"
    "opened (sz - TWOMEG) s2" "fresh_drive (bc_hw (fs_cache s)) BLOCK_START (sz - TWOMEG) (bc_hw (fs_cache s1))"
    using mkfs_open [OF assms] by metis
  note o = new_master_order [of BLOCK_START "sz - TWOMEG"]
  have "dsec (bc_hw (fs_cache s1)) dev b = dsec (bc_hw (fs_cache s)) dev b"
    if "addr_ok dev b" "dev \<noteq> 0 \<or> b < BLOCK_START \<or> inode_end (new_master BLOCK_START (sz - TWOMEG)) \<le> b" for dev b
    using s(4) that o by (auto simp: fresh_drive_def Let_def word_less_nat_alt word_le_nat_alt)
  then show ?thesis using s(1-3) by blast
qed

theorem mkfs_then_open_witness:
  "\<exists>s1 s2. inode_mkfs boot_fs [] 2609152 = Some (INODE_OK, s1) \<and> inode_dev_open s1 (Some []) 0 = Some (INODE_OK, 0, s2) \<and>
     allocated BMAP s2 0 0 = {}"
proof -
  have "(2609152 - TWOMEG) mod 512 = (0 :: u32)" by simp
  from mkfs_then_open [OF boot_fs_ok this, of "[]"] show ?thesis by (auto simp: opened_def)
qed

text \<open>
  Freed blocks can be lost: a block whose map block is in memory is freed, then a block
  of another map block; the first bit was cleared only in memory and was never written, so
  the first block is allocated again, and no one holds it.
\<close>

theorem free_forgotten:
  assumes "fs_inv s dev i (Suc (Suc n))" "k < 512 * map_len BMAP (master_tab s ! i)" "512 * map_len BMAP (master_tab s ! i) \<le> 2 ^ 32"
    and "bmap_ptr (master_tab s ! i) = bmap_map_start (master_tab s ! i) + of_nat (k div 512)" "k \<in> allocated BMAP s dev i"
    and "k' < 512 * map_len BMAP (master_tab s ! i)" "k' div 512 \<noteq> k div 512"
  shows "\<exists>s1 s2. inode_free_data_block s dev (data_start (master_tab s ! i) + of_nat k) = Some (INODE_OK, s1) \<and>
    k \<notin> allocated BMAP s1 dev i \<and>
    inode_free_data_block s1 dev (data_start (master_tab s ! i) + of_nat k') = Some (INODE_OK, s2) \<and> k \<in> allocated BMAP s2 dev i"
proof -
  note d = fs_invD [OF assms(1)]
  have lt: "k < 2 ^ 32" "k' < 2 ^ 32" using assms(2,3,6) by linarith+
  obtain s1 where s1: "map_free_block BMAP s dev (data_start (master_tab s ! i) + of_nat k) = Some (INODE_OK, s1)"
    "fs_inv s1 dev i (Suc n)" "freed BMAP s dev i k s1"
    using map_free_block_spec [OF assms(1,2) lt(1)] by auto
  have g: "same_geom (master_tab s ! i) (master_tab s1 ! i)" using s1(3) by (simp add: freed_def outside_kept_def)
  have L: "map_len BMAP (master_tab s1 ! i) = map_len BMAP (master_tab s ! i)"
    "map_first BMAP (master_tab s1 ! i) = data_start (master_tab s ! i)"
    using map_len_geom [OF g] same_geom_fields(3) [OF g, of BMAP] by simp_all
  obtain s2 where s2: "map_free_block BMAP s1 dev (data_start (master_tab s ! i) + of_nat k') = Some (INODE_OK, s2)"
    "freed BMAP s1 dev i k' s2"
    using map_free_block_spec [OF s1(2), of k' BMAP, unfolded L, OF assms(6) lt(2)] by blast
  have "map_start BMAP (master_tab s1 ! i) + of_nat (k' div 512) \<noteq> map_start BMAP (master_tab s1 ! i) + of_nat (k div 512)"
    using map_blk_inj [OF d(7) blk_lt [OF assms(6)] blk_lt [OF assms(2)]] assms(7) same_geom_fields(1) [OF g, of BMAP] by simp
  then have ptr: "map_ptr BMAP (master_tab s1 ! i) \<noteq> map_start BMAP (master_tab s1 ! i) + of_nat (k' div 512)"
    using s1(3) same_geom_fields(1) [OF g, of BMAP] by (simp add: freed_def)
  have "k \<in> recorded BMAP s dev i" using assms(5) allocated_recorded [OF assms(1)] by blast
  then have "k \<in> allocated BMAP s2 dev i" using s1(3) s2(2) assms(7) ptr by (auto simp: freed_def)
  moreover have "k \<notin> allocated BMAP s1 dev i" using s1(3) by (auto simp: freed_def)
  ultimately show ?thesis using s1(1) s2(1) by (auto simp: inode_free_data_block_def)
qed

theorem free_forgotten_witness:
  "\<exists>s k k' s1 s2. inode_free_data_block s 0 (data_start (master_tab s ! 0) + of_nat k) = Some (INODE_OK, s1) \<and>
     inode_free_data_block s1 0 (data_start (master_tab s ! 0) + of_nat k') = Some (INODE_OK, s2) \<and> k \<in> allocated BMAP s2 0 0"
proof -
  have "(7340032 - TWOMEG) mod 512 = (0 :: u32)" by simp
  then obtain s0 where o: "opened (7340032 - TWOMEG) s0" using mkfs_open [OF boot_fs_ok] by metis
  have L: "map_len BMAP (master_tab s0 ! 0) = 2" using opened_len(2) [OF o] by simp
  have "fs_inv s0 0 0 (119 + (2 + 2 * map_len BMAP (master_tab s0 ! 0)))" "recorded BMAP s0 0 0 = {}"
    using o L by (simp_all add: opened_def)
  then obtain k s where s: "took BMAP s0 0 0 k s" "outside_kept s0 0 0 s" "fs_inv s 0 0 119"
    using map_get_block_spec [of s0 0 0 119 BMAP 0] L by (fastforce simp: scan_result_def)
  have g: "same_geom (master_tab s0 ! 0) (master_tab s ! 0)" using s(2) by (simp add: outside_kept_def)
  have k: "k < 1024" "k \<in> allocated BMAP s 0 0" "map_len BMAP (master_tab s ! 0) = 2"
    "map_ptr BMAP (master_tab s ! 0) = map_start BMAP (master_tab s ! 0) + of_nat (k div 512)"
    using s(1) L map_len_geom [OF g, of BMAP] same_geom_fields(1) [OF g, of BMAP] by (auto simp: took_def)
  obtain k' where k': "k' < (1024 :: nat)" "k' div 512 \<noteq> k div 512"
  proof (cases "k div 512 = 0")
    case True
    then show thesis by (intro that [of 512]) simp_all
  next
    case False
    then show thesis by (intro that [of 0]) simp_all
  qed
  have "fs_inv s 0 0 (Suc (Suc 117))" using s(3) by simp
  from free_forgotten [OF this, of k k'] k k' show ?thesis by fastforce
qed

text \<open>
  The layout runs past the size it was given: a new file system of \<open>5 t\<close> blocks ends
  at least three blocks after its last block, since the master inode and the maps are
  not taken off the 20% of inodes and 80% of data.
\<close>

theorem layout_exceeds_size:
  assumes "unat sz = 512 * (5 * t)"
  shows "unat (data_end (make_master BLOCK_START sz m)) \<ge> unat BLOCK_START + 5 * t + 3"
  using make_master_layout [of BLOCK_START sz m] assms by simp linarith

theorem layout_exceeds_size_witness: "unat (data_end (make_master BLOCK_START 512000 zero_master)) \<ge> 4096 + 1000 + 3"
  using layout_exceeds_size [of 512000 200 zero_master] by simp

text \<open>
  In a small file system the inode map covers more numbers than there are inodes: when
  the inodes are all taken, \<open>inode_get_inode_block\<close> goes on and returns a block at or after
  \<open>data_start\<close>, one that \<open>inode_get_data_block\<close> hands out as well.
\<close>

theorem inode_block_in_data:
  assumes "fs_inv s dev i (n + (2 + 2 * map_len IMAP (master_tab s ! i)))"
    and "{..<t} \<subseteq> allocated IMAP s dev i" "t < 512 * map_len IMAP (master_tab s ! i)" "t \<notin> recorded IMAP s dev i"
    and "unat (data_start (master_tab s ! i)) = unat (inode_start (master_tab s ! i)) + t"
    and "unat (data_start (master_tab s ! i)) + 512 * map_len IMAP (master_tab s ! i) < 2 ^ 32"
  shows "\<exists>b s'. inode_get_inode_block s dev blk = Some (INODE_OK, b, s') \<and> data_start (master_tab s ! i) \<le> b"
proof -
  obtain k s' where k: "map_get_block IMAP s dev blk = Some (INODE_OK, inode_start (master_tab s ! i) + of_nat k, s')"
    "took IMAP s dev i k s'"
    using map_get_block_spec [OF assms(1), of blk] assms(3,4) by (auto simp: scan_result_def)
  then have "t \<le> k" "k < 512 * map_len IMAP (master_tab s ! i)" using assms(2) by (auto simp: took_def not_less [symmetric])
  moreover from this have "unat (inode_start (master_tab s ! i) + of_nat k) = unat (inode_start (master_tab s ! i)) + k"
    using assms(5,6) by (subst u32_add_unat) (simp_all add: unat_of_nat32)
  ultimately show ?thesis
    using k(1) assms(5) by (auto simp: inode_get_inode_block_def word_le_nat_alt)
qed

text \<open>The first allocation of a new file system takes number 0.\<close>

lemma first_get:
  assumes "opened sz s"
  obtains s' where "took w s 0 0 0 s'" "outside_kept s 0 0 s'" "fs_inv s' 0 0 123"
proof -
  let ?m = "master_tab s ! 0"
  have o: "fs_inv s 0 0 (Suc (Suc 123))" "allocated w s 0 0 = {}" "map_ptr w ?m = map_start w ?m" "map_pos w ?m = 0"
    using assms by (simp_all add: opened_def)
  have len: "0 < map_len w ?m" using geom_bounds(2) [OF fs_invD(7) [OF o(1)], of w] by (simp add: map_len_def)
  then have "0 \<notin> allocated w s 0 0" using o(2) by simp
  then have "bit_get (map_memory w s ! 0) 0 \<noteq> 1" using len o(3) by (simp add: allocated_iff)
  then have free: "bit_get (map_memory w s ! 0) (unat (0 :: u32)) = 0" using bit_get_01 [of "map_memory w s ! 0" 0] by simp
  have u0: "unat (0 :: u32) < 512" and p0: "map_ptr w ?m = map_start w ?m + of_nat 0" using o(3) by simp_all
  obtain s' where "fs_inv s' 0 0 123" "took w s 0 0 (512 * 0 + unat (0 :: u32)) s'" "outside_kept s 0 0 s'"
    using take_block [OF o(1) u0 free len p0] by blast
  then show thesis by (intro that [of s']) simp_all
qed

theorem inode_block_in_data_witness:
  "\<exists>s b s'. inode_get_inode_block s 0 0 = Some (INODE_OK, b, s') \<and> data_start (master_tab s ! 0) \<le> b"
proof -
  have "(2099712 - TWOMEG) mod 512 = (0 :: u32)" by simp
  then obtain s0 where "opened (2099712 - TWOMEG) s0" using mkfs_open [OF boot_fs_ok] by metis
  then have o: "opened 2560 s0" by simp
  obtain s where s: "took IMAP s0 0 0 0 s" "outside_kept s0 0 0 s" "fs_inv s 0 0 123" using first_get [OF o] by blast
  have g: "same_geom (master_tab s0 ! 0) (master_tab s ! 0)" using s(2) by (simp add: outside_kept_def)
  have L: "map_len IMAP (master_tab s ! 0) = 1" using opened_len(1) [OF o] map_len_geom [OF g, of IMAP] by simp
  have "map_first w (master_tab s ! 0) = map_first w (new_master BLOCK_START 2560)" for w
    using o same_geom_fields(3) [OF g, of w] unfolding opened_def by simp
  from this [of IMAP] this [of BMAP] have "data_start (master_tab s ! 0) = inode_end (new_master BLOCK_START 2560)"
    "inode_start (master_tab s ! 0) = inode_start (new_master BLOCK_START 2560)"
    using make_master_layout(8) [of BLOCK_START 2560 "free_master\<lparr>m_dev := 0\<rparr>", folded new_master_def] by simp_all
  then have d: "unat (data_start (master_tab s ! 0)) = unat (inode_start (master_tab s ! 0)) + 1"
    "unat (data_start (master_tab s ! 0)) < 2 ^ 25"
    using make_master_layout(7,8,9,10) [of BLOCK_START 2560 "free_master\<lparr>m_dev := 0\<rparr>", folded new_master_def] by simp_all
  have a: "{..<1} \<subseteq> allocated IMAP s 0 0" "1 \<notin> recorded IMAP s 0 0"
    using s(1) o by (auto simp: took_def opened_def)
  have "fs_inv s 0 0 (119 + (2 + 2 * map_len IMAP (master_tab s ! 0)))" using s(3) L by simp
  from inode_block_in_data [OF this a(1) _ a(2) d(1), of 0] d(2) L show ?thesis by auto
qed

end
