(* ===== verification/File_IO.thy ===== *)
theory File_IO
  imports Block_Alloc
begin

text \<open>
  Reading and writing files (\<open>fs/file.c\<close>). The data of a file is reached through a chain
  of block maps: \<open>inode->next\<close> is the first, each holds the numbers of 127 data blocks
  and the number of the next map. \<open>file_read_write\<close> does both directions, block by
  block, and appends map and data blocks when it runs past the end.

  The inode is passed and returned by value; the user's buffer is a list of bytes.
\<close>


datatype file_rtvl = FILE_OK | FILE_FAIL

section \<open>Block I/O with errno\<close>

text \<open>Every block operation of \<open>file.c\<close> that fails sets \<open>errno\<close> to \<open>EACCES\<close> before it returns.\<close>

definition fs_read :: "fsys \<Rightarrow> int \<Rightarrow> u32 \<Rightarrow> bytes \<Rightarrow> (file_rtvl \<times> bytes \<times> fsys) option" where
  "fs_read s dev b old = do {
     (r, buf, c) \<leftarrow> block_read (fs_cache s) dev b (Some old);
     let s = s\<lparr>fs_cache := c\<rparr>;
     Some (if r \<noteq> BLOCK_OK then (FILE_FAIL, old, s\<lparr>fs_errno := EACCES\<rparr>)
           else (FILE_OK, case buf of Some x \<Rightarrow> x | None \<Rightarrow> old, s))
   }"

definition fs_write :: "fsys \<Rightarrow> int \<Rightarrow> u32 \<Rightarrow> bytes \<Rightarrow> (file_rtvl \<times> fsys) option" where
  "fs_write s dev b data = do {
     (r, c) \<leftarrow> block_write (fs_cache s) dev b data;
     let s = s\<lparr>fs_cache := c\<rparr>;
     Some (if r \<noteq> BLOCK_OK then (FILE_FAIL, s\<lparr>fs_errno := EACCES\<rparr>) else (FILE_OK, s))
   }"

definition zero_bmap :: block_map where
  "zero_bmap = read_bmap (zeros DEV_BLOCK_SIZE)"

section \<open>Growing a file\<close>

text \<open>The new map block is linked from \<open>bmap\<close>, whose block on disk is \<open>cur\<close>.\<close>

definition file_add_one_bmap_block :: "fsys \<Rightarrow> int \<Rightarrow> u32 \<Rightarrow> block_map \<Rightarrow> (file_rtvl \<times> block_map \<times> fsys) option" where
  "file_add_one_bmap_block s dev cur bm = do {
     (r, b, s) \<leftarrow> inode_get_data_block s dev 0;
     if r \<noteq> INODE_OK then Some (FILE_FAIL, bm, s\<lparr>fs_errno := ENOSPC\<rparr>)
     else do {
       let bm = bm\<lparr>bm_next := b\<rparr>;
       (r, s) \<leftarrow> fs_write s dev b (bmap_image zero_bmap);
       if r \<noteq> FILE_OK then Some (FILE_FAIL, bm, s)
       else do {
         (r, s) \<leftarrow> fs_write s dev cur (bmap_image bm);
         Some (r, bm, s)
       }
     }
   }"

definition file_add_one_data_block :: "fsys \<Rightarrow> int \<Rightarrow> u32 \<Rightarrow> block_map \<Rightarrow> u32 \<Rightarrow> (file_rtvl \<times> block_map \<times> fsys) option" where
  "file_add_one_data_block s dev cur bm ib = do {
     (r, b, s) \<leftarrow> inode_get_data_block s dev 0;
     if r \<noteq> INODE_OK then Some (FILE_FAIL, bm, s\<lparr>fs_errno := ENOSPC\<rparr>)
     else do {
       let bm = bm\<lparr>bm_blocks := (bm_blocks bm)[unat ib := b]\<rparr>;
       (r, s) \<leftarrow> fs_write s dev b (zeros DEV_BLOCK_SIZE);
       if r \<noteq> FILE_OK then Some (FILE_FAIL, bm, s)
       else do {
         (r, s) \<leftarrow> fs_write s dev cur (bmap_image bm);
         Some (r, bm, s)
       }
     }
   }"

section \<open>The transfer loop\<close>

text \<open>The variables of \<open>file_read_write\<close> that change in its loop.\<close>

record rwst =
  rw_i :: u32
  rw_byte :: u32
  rw_iblock :: u32
  rw_start :: u32
  rw_current :: u32
  rw_bmap :: block_map
  rw_dptr :: bytes
  rw_data :: bytes
  rw_flag :: bool
  rw_done :: u64
  rw_fs :: fsys

text \<open>Moving to the next map when the index wraps, adding one at the end of the chain.\<close>

definition next_map :: "int \<Rightarrow> rwst \<Rightarrow> (file_rtvl \<times> rwst) option" where
  "next_map dev st = do {
     (r, bm, s) \<leftarrow> (if bm_next (rw_bmap st) = INODE_NULL
                    then file_add_one_bmap_block (rw_fs st) dev (rw_current st) (rw_bmap st)
                    else Some (FILE_OK, rw_bmap st, rw_fs st));
     let st = st\<lparr>rw_bmap := bm, rw_fs := s\<rparr>;
     if r \<noteq> FILE_OK then Some (FILE_FAIL, st)
     else do {
       let st = st\<lparr>rw_current := bm_next bm\<rparr>;
       (r, buf, s) \<leftarrow> fs_read s dev (bm_next bm) (bmap_image zero_bmap);
       let st = st\<lparr>rw_fs := s\<rparr>;
       if r \<noteq> FILE_OK then Some (FILE_FAIL, st) else Some (FILE_OK, st\<lparr>rw_bmap := read_bmap buf\<rparr>)
     }
   }"

text \<open>The block at the index of the map, adding one when there is none, and reading it.\<close>

definition load_data :: "int \<Rightarrow> rwst \<Rightarrow> (file_rtvl \<times> rwst) option" where
  "load_data dev st = do {
     let start = bm_blocks (rw_bmap st) ! unat (rw_iblock st);
     (r, bm, s) \<leftarrow> (if start = INODE_NULL
                    then file_add_one_data_block (rw_fs st) dev (rw_current st) (rw_bmap st) (rw_iblock st)
                    else Some (FILE_OK, rw_bmap st, rw_fs st));
     let st = st\<lparr>rw_bmap := bm, rw_fs := s\<rparr>;
     if r \<noteq> FILE_OK then Some (FILE_FAIL, st\<lparr>rw_start := start\<rparr>)
     else do {
       let start = bm_blocks bm ! unat (rw_iblock st);
       let st = st\<lparr>rw_start := start\<rparr>;
       (r, buf, s) \<leftarrow> fs_read s dev start (rw_dptr st);
       Some (r, st\<lparr>rw_fs := s, rw_dptr := buf\<rparr>)
     }
   }"

definition next_block :: "bool \<Rightarrow> u64 \<Rightarrow> int \<Rightarrow> rwst \<Rightarrow> (file_rtvl \<times> rwst) option" where
  "next_block reading sz dev st = do {
     (r, st) \<leftarrow> (if \<not> reading \<or> rw_done st \<ge> sz
                 then do {
                   (r, s) \<leftarrow> fs_write (rw_fs st) dev (rw_start st) (rw_dptr st);
                   Some (r, st\<lparr>rw_flag := False, rw_fs := s\<rparr>)
                 }
                 else Some (FILE_OK, st));
     if r \<noteq> FILE_OK then Some (FILE_FAIL, st)
     else do {
       let st = st\<lparr>rw_iblock := (rw_iblock st + 1) mod 127\<rparr>;
       (r, st) \<leftarrow> (if rw_iblock st = 0 then next_map dev st else Some (FILE_OK, st));
       if r \<noteq> FILE_OK then Some (FILE_FAIL, st) else load_data dev st
     }
   }"

text \<open>One byte, and the next block at a block boundary.\<close>

definition rw_byte_step :: "bool \<Rightarrow> u64 \<Rightarrow> rwst \<Rightarrow> rwst" where
  "rw_byte_step reading sz st =
     (let i = unat (rw_i st); b = unat (rw_byte st);
          st = (if reading
                then if rw_done st \<ge> sz
                     then st\<lparr>rw_data := (rw_data st)[i := 0], rw_dptr := (rw_dptr st)[b := 0]\<rparr>
                     else st\<lparr>rw_data := (rw_data st)[i := rw_dptr st ! b]\<rparr>
                else st\<lparr>rw_flag := True, rw_dptr := (rw_dptr st)[b := rw_data st ! i]\<rparr>)
      in st\<lparr>rw_i := rw_i st + 1, rw_done := ucast (rw_i st + 1), rw_byte := (rw_byte st + 1) mod 512\<rparr>)"

definition rw_step :: "bool \<Rightarrow> u64 \<Rightarrow> int \<Rightarrow> rwst \<Rightarrow> (file_rtvl \<times> rwst) option" where
  "rw_step reading sz dev st =
     (let st = rw_byte_step reading sz st in
      if rw_byte st = 0 then next_block reading sz dev st else Some (FILE_OK, st))"

text \<open>\<open>do \<lbrace> ...; length--; \<rbrace> while (length)\<close> with \<open>length\<close> not 0: \<open>length\<close> iterations.\<close>

primrec rw_loop :: "nat \<Rightarrow> bool \<Rightarrow> u64 \<Rightarrow> int \<Rightarrow> rwst \<Rightarrow> (file_rtvl \<times> rwst) option" where
  "rw_loop 0 reading sz dev st = Some (FILE_OK, st)"
| "rw_loop (Suc n) reading sz dev st = do {
     (r, st) \<leftarrow> rw_step reading sz dev st;
     if r \<noteq> FILE_OK then Some (FILE_FAIL, st) else rw_loop n reading sz dev st
   }"

section \<open>Finding the position\<close>

text \<open>
  The result of each case: the inode (its \<open>next\<close> may be new), \<open>start\<close>, \<open>current\<close>,
  \<open>iblock\<close>, the map in memory, and the state.
\<close>

type_synonym seat = "inode \<times> u32 \<times> u32 \<times> u32 \<times> block_map \<times> fsys"

text \<open>A file with no blocks: a map block and a data block are allocated for it.\<close>

definition seat_new :: "fsys \<Rightarrow> int \<Rightarrow> inode \<Rightarrow> (file_rtvl \<times> seat) option" where
  "seat_new s dev i = do {
     (r, b, s) \<leftarrow> inode_get_data_block s dev 0;
     if r \<noteq> INODE_OK then Some (FILE_FAIL, i, 0, 0, 0, zero_bmap, s)
     else do {
       let i = i\<lparr>i_next := b\<rparr>;
       (r, s) \<leftarrow> fs_write s dev (self i) (inode_image i);
       if r \<noteq> FILE_OK then Some (FILE_FAIL, i, 0, 0, 0, zero_bmap, s) else do {
       (r, s) \<leftarrow> fs_write s dev (i_next i) (zeros DEV_BLOCK_SIZE);
       if r \<noteq> FILE_OK then Some (FILE_FAIL, i, 0, 0, 0, zero_bmap, s) else do {
       (r, buf, s) \<leftarrow> fs_read s dev (i_next i) (bmap_image zero_bmap);
       let bm = read_bmap buf;
       if r \<noteq> FILE_OK then Some (FILE_FAIL, i, 0, 0, 0, bm, s) else do {
       (r, b, s) \<leftarrow> inode_get_data_block s dev b;
       if r \<noteq> INODE_OK then Some (FILE_FAIL, i, 0, 0, 0, bm, s\<lparr>fs_errno := EACCES\<rparr>) else do {
       let bm = bm\<lparr>bm_blocks := (bm_blocks bm)[0 := b]\<rparr>;
       (r, s) \<leftarrow> fs_write s dev (i_next i) (bmap_image bm);
       Some (r, i, b, i_next i, 0, bm, s)
     }}}}}
   }"

definition seat_first :: "fsys \<Rightarrow> int \<Rightarrow> inode \<Rightarrow> (file_rtvl \<times> seat) option" where
  "seat_first s dev i = do {
     (r, buf, s) \<leftarrow> fs_read s dev (i_next i) (bmap_image zero_bmap);
     let bm = read_bmap buf;
     Some (r, i, bm_blocks bm ! 0, i_next i, 0, bm, s)
   }"

definition seat_stored :: "fsys \<Rightarrow> int \<Rightarrow> inode \<Rightarrow> (file_rtvl \<times> seat) option" where
  "seat_stored s dev i = do {
     (r, buf, s) \<leftarrow> fs_read s dev (current_parent i) (bmap_image zero_bmap);
     Some (r, i, current i, current_parent i, iblock i, read_bmap buf, s)
   }"

text \<open>Following the chain of maps; the map in memory starts with \<open>next\<close> set to the first map.\<close>

primrec scan_maps :: "nat \<Rightarrow> fsys \<Rightarrow> int \<Rightarrow> u32 \<Rightarrow> block_map \<Rightarrow> (file_rtvl \<times> u32 \<times> block_map \<times> fsys) option" where
  "scan_maps 0 s dev cur bm = Some (FILE_OK, cur, bm, s)"
| "scan_maps (Suc n) s dev cur bm = do {
     (r, buf, s) \<leftarrow> fs_read s dev (bm_next bm) (bmap_image zero_bmap);
     if r \<noteq> FILE_OK then Some (FILE_FAIL, bm_next bm, bm, s)
     else scan_maps n s dev (bm_next bm) (read_bmap buf)
   }"

definition seat_scan :: "fsys \<Rightarrow> int \<Rightarrow> inode \<Rightarrow> u32 \<Rightarrow> u32 \<Rightarrow> (file_rtvl \<times> seat) option" where
  "seat_scan s dev i iter ib = do {
     (r, cur, bm, s) \<leftarrow> scan_maps (unat iter) s dev 0 (zero_bmap\<lparr>bm_next := i_next i\<rparr>);
     Some (r, i, bm_blocks bm ! unat ib, cur, ib, bm, s)
   }"

text \<open>The arithmetic at the top of the function: which map, which entry, which byte.\<close>

definition pos_block :: "u64 \<Rightarrow> u32" where
  "pos_block pos = ucast (pos div 512) + (if pos mod 512 \<noteq> 0 then 1 else 0) + (if pos = 0 then 1 else 0)"

definition pos_iter :: "u64 \<Rightarrow> u32" where
  "pos_iter pos = pos_block pos div 127 + (if pos_block pos mod 127 \<noteq> 0 then 1 else 0)"

definition pos_iblock :: "u64 \<Rightarrow> u32" where
  "pos_iblock pos = ucast (pos div 512) mod 127"

definition pos_byte :: "u64 \<Rightarrow> u32" where
  "pos_byte pos = ucast pos mod 512"

definition find_seat :: "fsys \<Rightarrow> int \<Rightarrow> inode \<Rightarrow> u64 \<Rightarrow> (file_rtvl \<times> seat) option" where
  "find_seat s dev i pos =
     (if i_next i = INODE_NULL then seat_new s dev i
      else if i_pos i = 0 \<and> current i = INODE_NULL then seat_first s dev i
      else if i_pos i = pos \<and> current i \<noteq> INODE_NULL \<and> iblock i \<noteq> INODE_NOPOS then seat_stored s dev i
      else seat_scan s dev i (pos_iter pos) (pos_iblock pos))"

section \<open>file\_read\_write\<close>

text \<open>The return value, the inode, the user's buffer, \<open>*bytes_processed\<close> and the state.\<close>

definition rw_finish :: "int \<Rightarrow> inode \<Rightarrow> u64 \<Rightarrow> rwst \<Rightarrow> (file_rtvl \<times> inode \<times> bytes \<times> u64 \<times> fsys) option" where
  "rw_finish dev i pos st = do {
     (r, s) \<leftarrow> (if rw_flag st then fs_write (rw_fs st) dev (rw_start st) (rw_dptr st) else Some (FILE_OK, rw_fs st));
     if r \<noteq> FILE_OK then Some (FILE_FAIL, i, rw_data st, rw_done st, s)
     else do {
       let e = pos + rw_done st;
       let i = i\<lparr>i_pos := e, i_size := (if i_size i < e then e else i_size i),
                current := rw_start st, current_parent := rw_current st, iblock := rw_iblock st\<rparr>;
       (r, s) \<leftarrow> fs_write s dev (self i) (inode_image i);
       Some (r, i, rw_data st, rw_done st, s)
     }
   }"

definition file_read_write ::
    "fsys \<Rightarrow> inode \<Rightarrow> u64 \<Rightarrow> u64 \<Rightarrow> bytes \<Rightarrow> bool \<Rightarrow> u64 \<Rightarrow> (file_rtvl \<times> inode \<times> bytes \<times> u64 \<times> fsys) option" where
  "file_read_write s i pos len data reading bp =
     (if len = 0 then Some (FILE_OK, i, data, 0, s)
      else
        let dev = sint (i_dev i) in do {
        (r, i, start, cur, ib, bm, s) \<leftarrow> find_seat s dev i pos;
        if r \<noteq> FILE_OK then Some (FILE_FAIL, i, data, bp, s)
        else do {
          (r, dptr, s) \<leftarrow> fs_read s dev start (zeros DEV_BLOCK_SIZE);
          if r \<noteq> FILE_OK then Some (FILE_FAIL, i, data, bp, s)
          else do {
            (r, st) \<leftarrow> rw_loop (unat len) reading (i_size i) dev
              \<lparr>rw_i = 0, rw_byte = pos_byte pos, rw_iblock = ib, rw_start = start, rw_current = cur, rw_bmap = bm,
               rw_dptr = dptr, rw_data = data, rw_flag = False, rw_done = 0, rw_fs = s\<rparr>;
            if r \<noteq> FILE_OK then Some (FILE_FAIL, i, rw_data st, rw_done st, rw_fs st)
            else rw_finish dev i pos st
          }
        }
      })"

end
