(* ===== verification/File_Content.thy ===== *)
theory File_Content
  imports File_IO "HOL-Library.Sublist"
begin

text \<open>
  What \<open>file_read_write\<close> does to the contents of a file. The blocks of a file are two
  lists, its block maps and its data blocks, tied to the disk by \<open>file_ok\<close>; its contents
  are a function from positions to bytes. Each step of the code is shown to keep the first
  and to have the expected effect on the second.
\<close>

section \<open>Steps on an open file system\<close>

text \<open>
  The data region lies after the header and below the end of the drive; \<open>fio s dev i n a\<close>
  says the file system is open with cache room for \<open>n\<close> operations and \<open>a\<close> free data blocks.
\<close>

definition data_room :: "master_inode \<Rightarrow> bool" where
  "data_room m \<longleftrightarrow> unat (bmap_map_end m) \<le> unat (data_start m) \<and> unat (data_start m) + 512 * map_len BMAP m \<le> CHS_LIMIT"

definition fio :: "fsys \<Rightarrow> int \<Rightarrow> nat \<Rightarrow> nat \<Rightarrow> nat \<Rightarrow> bool" where
  "fio s dev i n a \<longleftrightarrow> fs_inv s dev i n \<and> data_room (master_tab s ! i) \<and>
     card (recorded BMAP s dev i) + a \<le> 512 * map_len BMAP (master_tab s ! i)"

abbreviation get_cost :: "fsys \<Rightarrow> nat \<Rightarrow> nat" where
  "get_cost s i \<equiv> 2 + 2 * map_len BMAP (master_tab s ! i)"

text \<open>Blocks the header does not reach.\<close>

definition outside :: "fsys \<Rightarrow> int \<Rightarrow> nat \<Rightarrow> u32 \<Rightarrow> bool" where
  "outside s dev i b \<longleftrightarrow> addr_ok dev b \<and> unat (bmap_map_end (master_tab s ! i)) \<le> unat b"

lemma fio_mono: "fio s dev i n a \<Longrightarrow> n' \<le> n \<Longrightarrow> a' \<le> a \<Longrightarrow> fio s dev i n' a'"
  using fs_inv_mono by (auto simp: fio_def)

lemma recorded_finite [simp]: "finite (recorded w s dev i)"
  by (rule finite_subset [of _ "{..<512 * map_len w (master_tab s ! i)}"]) (auto simp: recorded_iff)

lemma used_outside:
  assumes "fio s dev i n a" "b \<in> blocks_used BMAP dev i s"
  shows "outside s dev i b" "unat (data_start (master_tab s ! i)) \<le> unat b" "b \<noteq> 0"
proof -
  let ?m = "master_tab s ! i"
  obtain k where k: "k \<in> allocated BMAP s dev i" "b = data_start ?m + of_nat k"
    using assms(2) by (auto simp: blocks_used_def)
  have r: "data_room ?m" "fs_inv s dev i n" using assms(1) by (simp_all add: fio_def)
  have "k < 512 * map_len BMAP ?m" using k(1) by (simp add: allocated_iff)
  then have l: "unat (data_start ?m) + k < CHS_LIMIT" using r(1) by (simp add: data_room_def)
  have "unat b = unat (data_start ?m) + k"
    unfolding k(2) using l by (subst u32_add_unat) (simp_all add: unat_of_nat32)
  moreover have "0 < unat (bmap_map_end ?m)" using geom_bounds [OF fs_invD(7) [OF r(2)], of BMAP] by simp
  ultimately show "outside s dev i b" "unat (data_start ?m) \<le> unat b" "b \<noteq> 0"
    using l r(1) fs_invD(2) [OF r(2)] by (auto simp: outside_def addr_ok_def data_room_def)
qed

lemma outside_geom:
  "same_geom (master_tab s ! i) (master_tab s' ! i) \<Longrightarrow> outside s' dev i b = outside s dev i b"
  using same_geom_fields(2) [of "master_tab s ! i" "master_tab s' ! i" BMAP] by (simp add: outside_def)

lemma data_room_geom: "same_geom m m' \<Longrightarrow> data_room m' = data_room m"
  using same_geom_fields(2,3) [of m m' BMAP] map_len_geom [of m m' BMAP] by (simp add: data_room_def)

text \<open>Allocating a data block.\<close>

lemma get_step:
  assumes "fio s dev i (n + get_cost s i) (Suc a)"
  obtains b s' where "\<And>x. inode_get_data_block s dev x = Some (INODE_OK, b, s')" "fio s' dev i n a"
    "b \<notin> blocks_used BMAP dev i s" "insert b (blocks_used BMAP dev i s) \<subseteq> blocks_used BMAP dev i s'"
    "same_geom (master_tab s ! i) (master_tab s' ! i)"
    "\<And>c. outside s dev i c \<Longrightarrow> view (fs_cache s') dev c = view (fs_cache s) dev c"
proof -
  let ?m = "master_tab s ! i" and ?L = "map_len BMAP (master_tab s ! i)"
  have inv: "fs_inv s dev i (n + get_cost s i)" and dr: "data_room ?m"
    and fr: "card (recorded BMAP s dev i) + Suc a \<le> 512 * ?L" using assms by (simp_all add: fio_def)
  have op: "open_fs BMAP dev i ?L s (n + get_cost s i)" using inv dr by (simp add: open_fs_def data_room_def)
  have "\<not> {..<512 * ?L} \<subseteq> recorded BMAP s dev i"
    using card_mono [OF recorded_finite, of "{..<512 * ?L}" BMAP s dev i] fr by (simp only: card_lessThan) linarith
  then obtain k0 where k0: "k0 < 512 * ?L" "k0 \<notin> recorded BMAP s dev i" by blast
  obtain r blk s' where s': "map_get_block BMAP s dev 0 = Some (r, blk, s')" "fs_inv s' dev i n"
    "scan_result BMAP s dev i (\<lambda>k. True) r blk s'"
    using map_get_block_spec [OF inv] by blast
  then obtain k where k: "r = INODE_OK" "took BMAP s dev i k s'" "blk = data_start ?m + of_nat k" "outside_kept s dev i s'"
    using k0 unfolding scan_result_def map_first.simps by blast
  have g: "same_geom ?m (master_tab s' ! i)" using k(4) by (simp add: outside_kept_def)
  have e: "inode_get_data_block s dev x = Some (INODE_OK, blk, s')" for x
    using s'(1) k(1) fs_invD(6) [OF inv] by (simp add: inode_get_data_block_def map_get_block_def)
  have "recorded BMAP s' dev i \<subseteq> insert k (recorded BMAP s dev i)" using k(2) by (simp add: took_def)
  then have "card (recorded BMAP s' dev i) \<le> card (insert k (recorded BMAP s dev i))" by (intro card_mono) simp_all
  also have "\<dots> \<le> Suc (card (recorded BMAP s dev i))" by (simp add: card_insert_if)
  finally have "card (recorded BMAP s' dev i) \<le> Suc (card (recorded BMAP s dev i))" .
  then have "fio s' dev i n a"
    using s'(2) dr fr data_room_geom [OF g] map_len_geom [OF g] by (simp add: fio_def)
  moreover have "blk \<notin> blocks_used BMAP dev i s" "insert blk (blocks_used BMAP dev i s) \<subseteq> blocks_used BMAP dev i s'"
    using map_get_fresh [OF op] s'(1) k(1) by (auto simp: get_block_def)
  moreover have "view (fs_cache s') dev c = view (fs_cache s) dev c" if "outside s dev i c" for c
    using k(4) that by (auto simp: outside_kept_def outside_def)
  ultimately show thesis using that e g by blast
qed

text \<open>A change of the cache that keeps the blocks of the header.\<close>

lemma keep_header:
  assumes "fio s dev i m a" "cache_inv c n"
    and "\<And>b. addr_ok dev b \<Longrightarrow> unat b < unat (bmap_map_end (master_tab s ! i)) \<Longrightarrow> view c dev b = view (fs_cache s) dev b"
  shows "fio (s\<lparr>fs_cache := c\<rparr>) dev i n a" "blocks_used BMAP dev i (s\<lparr>fs_cache := c\<rparr>) = blocks_used BMAP dev i s"
    "allocated w (s\<lparr>fs_cache := c\<rparr>) dev i = allocated w s dev i" "recorded w (s\<lparr>fs_cache := c\<rparr>) dev i = recorded w s dev i"
proof -
  let ?s = "s\<lparr>fs_cache := c\<rparr>" and ?m = "master_tab s ! i"
  have inv: "fs_inv s dev i m" using assms(1) by (simp add: fio_def)
  note d = fs_invD [OF inv]
  have mem [simp]: "map_memory w ?s = map_memory w s" "map_base w ?s = map_base w s" for w by (cases w; simp)+
  have hdr: "unat (map_end w ?m) \<le> unat (bmap_map_end ?m)" for w using d(7) by (cases w; simp add: geom_ok_def)
  have v: "view c dev p = view (fs_cache s) dev p" if h: "addr_ok dev p" "unat p < unat (map_end w ?m)" for w p
    using assms(3) [OF h(1)] h(2) hdr [of w] by simp
  have "map_ok w ?s dev i" for w
    using d(8) [of w] v [OF d(10) [of w], of w] by (simp add: map_ok_def Let_def)
  then have "fs_inv ?s dev i n" using assms(2) by (intro fs_inv_keep [OF inv, of _ _ ?m]) simp_all
  moreover have vk: "view c dev (map_start w ?m + of_nat (k div 512)) = view (fs_cache s) dev (map_start w ?m + of_nat (k div 512))"
    if h: "k < 512 * map_len w ?m" for w k
    using map_blk [OF d(7) blk_lt [OF h]] d(2) by (intro v [of _ w]) simp_all
  then have same: "recorded w ?s dev i = recorded w s dev i" "allocated w ?s dev i = allocated w s dev i" for w
    by (auto simp: set_eq_iff recorded_iff allocated_iff Let_def)
  ultimately show "fio ?s dev i n a" "blocks_used BMAP dev i ?s = blocks_used BMAP dev i s"
    using assms(1) by (simp_all add: fio_def blocks_used_def)
  show "allocated w ?s dev i = allocated w s dev i" "recorded w ?s dev i = recorded w s dev i" by (rule same)+
qed

text \<open>Reading and writing a block outside the header.\<close>

lemma read_step:
  assumes "fio s dev i (Suc n) a" "addr_ok dev b"
  obtains s' where "fs_read s dev b old = Some (FILE_OK, view (fs_cache s) dev b, s')"
    "fio s' dev i n a" "master_tab s' = master_tab s" "blocks_used BMAP dev i s' = blocks_used BMAP dev i s"
    "\<And>dev' c. addr_ok dev' c \<Longrightarrow> view (fs_cache s') dev' c = view (fs_cache s) dev' c"
proof -
  have c: "cache_inv (fs_cache s) (Suc n)" using assms(1) by (simp add: fio_def fs_inv_def)
  obtain c' where c': "block_read (fs_cache s) dev b (Some old) = Some (BLOCK_OK, Some (view (fs_cache s) dev b), c')" "cache_inv c' n"
    "\<And>dev' b'. addr_ok dev' b' \<Longrightarrow> view c' dev' b' = view (fs_cache s) dev' b'"
    using cache_read [OF c assms(2)] by blast
  have v: "view c' dev x = view (fs_cache s) dev x" if "addr_ok dev x" "unat x < unat (bmap_map_end (master_tab s ! i))" for x
    using c'(3) that(1) by blast
  show thesis
    using keep_header [OF assms(1) c'(2) v] c'(1,3) by (intro that [of "s\<lparr>fs_cache := c'\<rparr>"]) (simp_all add: fs_read_def)
qed

lemma write_step:
  assumes "fio s dev i (Suc n) a" "outside s dev i b" "length d = DEV_BLOCK_SIZE"
  obtains s' where "fs_write s dev b d = Some (FILE_OK, s')" "fio s' dev i n a"
    "master_tab s' = master_tab s" "blocks_used BMAP dev i s' = blocks_used BMAP dev i s"
    "\<And>dev' c. addr_ok dev' c \<Longrightarrow> view (fs_cache s') dev' c = (if dev' = dev \<and> c = b then d else view (fs_cache s) dev' c)"
proof -
  have c: "cache_inv (fs_cache s) (Suc n)" and a: "addr_ok dev b" and o: "unat (bmap_map_end (master_tab s ! i)) \<le> unat b"
    using assms(1,2) by (simp_all add: fio_def fs_inv_def outside_def)
  obtain c' where c': "block_write (fs_cache s) dev b d = Some (BLOCK_OK, c')" "cache_inv c' n"
    "\<And>dev' b'. addr_ok dev' b' \<Longrightarrow> view c' dev' b' = (if dev' = dev \<and> b' = b then d else view (fs_cache s) dev' b')"
    using cache_write [OF c a assms(3)] by blast
  have v: "view c' dev x = view (fs_cache s) dev x" if h: "addr_ok dev x" "unat x < unat (bmap_map_end (master_tab s ! i))" for x
    using c'(3) [OF h(1)] h(2) o by auto
  show thesis
    using keep_header [OF assms(1) c'(2) v] c'(1,3) by (intro that [of "s\<lparr>fs_cache := c'\<rparr>"]) (simp_all add: fs_write_def)
qed

section \<open>The blocks of a file\<close>

text \<open>The entries of map number \<open>k\<close> of a file with maps \<open>ms\<close> and data blocks \<open>es\<close>.\<close>

definition bmap_of :: "u32 list \<Rightarrow> u32 list \<Rightarrow> nat \<Rightarrow> block_map" where
  "bmap_of ms es k = \<lparr>bm_next = (if Suc k < length ms then ms ! Suc k else INODE_NULL),
     bm_blocks = map (\<lambda>j. if 127 * k + j < length es then es ! (127 * k + j) else INODE_NULL) [0..<127]\<rparr>"

definition file_ok :: "(u32 \<Rightarrow> bytes) \<Rightarrow> u32 \<Rightarrow> u32 list \<Rightarrow> u32 list \<Rightarrow> bool" where
  "file_ok v h ms es \<longleftrightarrow> ms \<noteq> [] \<and> h = hd ms \<and> distinct (ms @ es) \<and> INODE_NULL \<notin> set (ms @ es) \<and>
     127 * (length ms - 1) \<le> length es \<and> length es \<le> 127 * length ms \<and>
     (\<forall>k < length ms. read_bmap (v (ms ! k)) = bmap_of ms es k)"

text \<open>The byte at a position; a file has no bytes past its last block.\<close>

definition fbyte :: "(u32 \<Rightarrow> bytes) \<Rightarrow> u32 list \<Rightarrow> nat \<Rightarrow> u8" where
  "fbyte v es x = (if x < 512 * length es then v (es ! (x div 512)) ! (x mod 512) else 0)"

lemma bmap_of_wf [simp]: "bmap_wf (bmap_of ms es k)"
  by (simp add: bmap_of_def bmap_wf_def)

lemma bmap_of_next [simp]: "bm_next (bmap_of ms es k) = (if Suc k < length ms then ms ! Suc k else INODE_NULL)"
  by (simp add: bmap_of_def)

lemma bmap_of_block:
  "q div 127 = k \<Longrightarrow> bm_blocks (bmap_of ms es k) ! (q mod 127) = (if q < length es then es ! q else INODE_NULL)"
  by (auto simp: bmap_of_def)

lemma zero_bmap_eq: "zero_bmap = \<lparr>bm_next = 0, bm_blocks = replicate 127 0\<rparr>"
proof -
  have "(push_bit 8 ^^ n) (0 :: u32) = 0" for n by (induction n) simp_all
  then have "fld (zeros 512) k 4 = (0 :: u32)" if "k + 4 \<le> 512" for k
    using that by (simp add: fld_def chunk_def zeros_def le_word_def)
  then show ?thesis
    by (simp add: zero_bmap_def read_bmap_def) (auto intro!: nth_equalityI)
qed

lemma zero_bmap_wf [simp]: "bmap_wf zero_bmap"
  by (simp add: zero_bmap_eq bmap_wf_def)

text \<open>Adding a data block changes one entry of the last map; adding a map links it to the last one.\<close>

lemma bmap_of_add_data:
  assumes "k = length es div 127"
  shows "bmap_of ms (es @ [b]) k = (bmap_of ms es k)\<lparr>bm_blocks := (bm_blocks (bmap_of ms es k))[length es mod 127 := b]\<rparr>"
    "k' < k \<Longrightarrow> bmap_of ms (es @ [b]) k' = bmap_of ms es k'"
proof -
  have e: "127 * k + length es mod 127 = length es" unfolding assms by simp
  show "bmap_of ms (es @ [b]) k = (bmap_of ms es k)\<lparr>bm_blocks := (bm_blocks (bmap_of ms es k))[length es mod 127 := b]\<rparr>"
    using e by (auto simp: bmap_of_def nth_append nth_list_update intro!: nth_equalityI)
  assume "k' < k"
  then have "127 * k' + j < length es" if "j < 127" for j using e that by linarith
  then show "bmap_of ms (es @ [b]) k' = bmap_of ms es k'"
    by (simp add: bmap_of_def nth_append less_SucI)
qed

lemma bmap_of_add_map:
  assumes "length es \<le> 127 * length ms" "ms \<noteq> []"
  shows "bmap_of (ms @ [b]) es (length ms - 1) = (bmap_of ms es (length ms - 1))\<lparr>bm_next := b\<rparr>"
    "bmap_of (ms @ [b]) es (length ms) = zero_bmap"
    "Suc k < length ms \<Longrightarrow> bmap_of (ms @ [b]) es k = bmap_of ms es k"
proof -
  have "Suc (length ms - 1) = length ms" using assms(2) by (cases ms) simp_all
  then show "bmap_of (ms @ [b]) es (length ms - 1) = (bmap_of ms es (length ms - 1))\<lparr>bm_next := b\<rparr>"
    by (simp add: bmap_of_def nth_append)
  show "bmap_of (ms @ [b]) es (length ms) = zero_bmap"
    using assms(1) by (auto simp: bmap_of_def zero_bmap_eq intro!: nth_equalityI)
qed (simp add: bmap_of_def nth_append)

lemma file_ok_frame:
  assumes "file_ok v h ms es" "\<And>b. b \<in> set ms \<Longrightarrow> v' b = v b"
  shows "file_ok v' h ms es"
  using assms by (simp add: file_ok_def)

lemma fbyte_frame: "(\<And>b. b \<in> set es \<Longrightarrow> v' b = v b) \<Longrightarrow> fbyte v' es = fbyte v es"
  by (auto simp: fbyte_def fun_eq_iff)

text \<open>One byte of one block changes one byte of the file.\<close>

lemma fbyte_upd:
  assumes "distinct es" "q < length es" "b < 512" "length d = 512"
  shows "fbyte (v(es ! q := d[b := y])) es = (fbyte (v(es ! q := d)) es)(512 * q + b := y)"
proof
  fix x
  have "512 * q + b < 512 * length es" using assms(2,3) by linarith
  moreover have "es ! (x div 512) = es ! q \<longleftrightarrow> x div 512 = q" if "x < 512 * length es"
    using assms(1,2) that by (simp add: nth_eq_iff_index_eq less_mult_imp_div_less mult.commute)
  moreover have "x = 512 * q + b \<longleftrightarrow> x div 512 = q \<and> x mod 512 = b" using assms(3) by auto
  ultimately show "fbyte (v(es ! q := d[b := y])) es x = ((fbyte (v(es ! q := d)) es)(512 * q + b := y)) x"
    using assms(3,4) by (auto simp: fbyte_def)
qed

lemma fbyte_at:
  assumes "q < length es" "b < 512"
  shows "fbyte v es (512 * q + b) = v (es ! q) ! b"
proof -
  have "512 * q + b < 512 * length es" using assms by linarith
  then show ?thesis using assms(2) by (simp add: fbyte_def)
qed

text \<open>A zeroed block at the end reads as the end of the file did.\<close>

lemma fbyte_append:
  assumes "v b = zeros 512"
  shows "fbyte v (es @ [b]) = fbyte v es"
proof
  fix x
  have "x div 512 < length es" if "x < 512 * length es" using that by (simp add: less_mult_imp_div_less mult.commute)
  moreover have "x div 512 = length es" if "\<not> x < 512 * length es" "x < 512 + 512 * length es"
    using that by (intro div_nat_eqI) simp_all
  ultimately show "fbyte v (es @ [b]) x = fbyte v es x"
    using assms by (auto simp: fbyte_def nth_append zeros_def)
qed

section \<open>A file on an open file system\<close>

definition file_at :: "fsys \<Rightarrow> int \<Rightarrow> nat \<Rightarrow> nat \<Rightarrow> nat \<Rightarrow> u32 \<Rightarrow> u32 list \<Rightarrow> u32 list \<Rightarrow> bool" where
  "file_at s dev i n a h ms es \<longleftrightarrow> fio s dev i n a \<and> file_ok (view (fs_cache s) dev) h ms es \<and>
     set (ms @ es) \<subseteq> blocks_used BMAP dev i s"

text \<open>
  How a file may change: it grows by blocks that were free, and no block outside the header
  but its own is written.
\<close>

definition grown :: "int \<Rightarrow> nat \<Rightarrow> fsys \<Rightarrow> u32 list \<Rightarrow> u32 list \<Rightarrow> fsys \<Rightarrow> u32 list \<Rightarrow> u32 list \<Rightarrow> bool" where
  "grown dev i s ms es s' ms' es' \<longleftrightarrow>
     same_geom (master_tab s ! i) (master_tab s' ! i) \<and> prefix ms ms' \<and> prefix es es' \<and>
     blocks_used BMAP dev i s \<subseteq> blocks_used BMAP dev i s' \<and>
     (set (ms' @ es') - set (ms @ es)) \<inter> blocks_used BMAP dev i s = {} \<and>
     (\<forall>c. outside s dev i c \<longrightarrow> c \<notin> set (ms' @ es') \<longrightarrow> view (fs_cache s') dev c = view (fs_cache s) dev c)"

lemma grown_refl [simp]: "grown dev i s ms es s ms es"
  by (simp add: grown_def same_geom_def)

lemma grown_trans:
  assumes "grown dev i s ms es s1 ms1 es1" "grown dev i s1 ms1 es1 s2 ms2 es2"
  shows "grown dev i s ms es s2 ms2 es2"
proof -
  note a = assms [unfolded grown_def]
  have g: "same_geom (master_tab s ! i) (master_tab s2 ! i)" using a same_geom_trans by blast
  have sub: "set (ms1 @ es1) \<subseteq> set (ms2 @ es2)"
    using a(2) set_mono_prefix [of ms1 ms2] set_mono_prefix [of es1 es2] by auto
  have o: "outside s1 dev i c = outside s dev i c" for c using a(1) outside_geom by blast
  have "view (fs_cache s2) dev c = view (fs_cache s) dev c" if "outside s dev i c" "c \<notin> set (ms2 @ es2)" for c
  proof -
    have "view (fs_cache s2) dev c = view (fs_cache s1) dev c" using a(2) that o by blast
    also have "\<dots> = view (fs_cache s) dev c" using a(1) that sub by blast
    finally show ?thesis .
  qed
  moreover have "(set (ms2 @ es2) - set (ms @ es)) \<inter> blocks_used BMAP dev i s = {}" using a by blast
  ultimately show ?thesis unfolding grown_def using a g prefix_order.order_trans by blast
qed

lemma grown_keep:
  assumes "master_tab s' = master_tab s" "blocks_used BMAP dev i s' = blocks_used BMAP dev i s"
    "\<And>c. outside s dev i c \<Longrightarrow> c \<notin> set (ms @ es) \<Longrightarrow> view (fs_cache s') dev c = view (fs_cache s) dev c"
  shows "grown dev i s ms es s' ms es"
  using assms by (auto simp: grown_def same_geom_def)

lemma file_atD:
  assumes "file_at s dev i n a h ms es"
  shows "fio s dev i n a" "file_ok (view (fs_cache s) dev) h ms es" "set (ms @ es) \<subseteq> blocks_used BMAP dev i s"
    "\<And>b. b \<in> set (ms @ es) \<Longrightarrow> outside s dev i b" "\<And>b. b \<in> set (ms @ es) \<Longrightarrow> addr_ok dev b"
    "cache_inv (fs_cache s) n" "distinct (ms @ es)" "ms \<noteq> []" "h = ms ! 0"
proof -
  show 1: "fio s dev i n a" "file_ok (view (fs_cache s) dev) h ms es" and 2: "set (ms @ es) \<subseteq> blocks_used BMAP dev i s"
    using assms by (simp_all add: file_at_def)
  show "outside s dev i b" if "b \<in> set (ms @ es)" for b using used_outside(1) [OF 1(1)] that 2 by blast
  then show "addr_ok dev b" if "b \<in> set (ms @ es)" for b using that by (simp add: outside_def)
qed (use assms in \<open>simp_all add: file_at_def fio_def fs_inv_def file_ok_def hd_conv_nth\<close>)

lemma file_at_mono: "file_at s dev i n a h ms es \<Longrightarrow> n' \<le> n \<Longrightarrow> a' \<le> a \<Longrightarrow> file_at s dev i n' a' h ms es"
  using fio_mono by (auto simp: file_at_def)

lemma file_map:
  assumes "file_at s dev i n a h ms es" "k < length ms"
  shows "read_bmap (view (fs_cache s) dev (ms ! k)) = bmap_of ms es k"
  using assms by (simp add: file_at_def file_ok_def)

text \<open>Where a data block is listed.\<close>

lemma map_index: "file_ok v h ms es \<Longrightarrow> q < length es \<Longrightarrow> q div 127 < length ms"
  by (simp add: file_ok_def less_mult_imp_div_less mult.commute)

lemma map_last: "file_ok v h ms es \<Longrightarrow> length es < 127 * length ms \<Longrightarrow> length es div 127 = length ms - 1"
  unfolding file_ok_def by (intro div_nat_eqI) (cases ms; simp)+

text \<open>Reading any block, and writing a data block.\<close>

lemma file_read_step:
  assumes "file_at s dev i (Suc n) a h ms es" "addr_ok dev b"
  obtains s' where "fs_read s dev b old = Some (FILE_OK, view (fs_cache s) dev b, s')" "file_at s' dev i n a h ms es"
    "grown dev i s ms es s' ms es" "\<And>c. addr_ok dev c \<Longrightarrow> view (fs_cache s') dev c = view (fs_cache s) dev c"
proof -
  note f = file_atD [OF assms(1)]
  obtain s' where s': "fs_read s dev b old = Some (FILE_OK, view (fs_cache s) dev b, s')"
    "fio s' dev i n a" "master_tab s' = master_tab s" "blocks_used BMAP dev i s' = blocks_used BMAP dev i s"
    "\<And>dev' c. addr_ok dev' c \<Longrightarrow> view (fs_cache s') dev' c = view (fs_cache s) dev' c"
    using read_step [OF f(1) assms(2)] by blast
  have "file_ok (view (fs_cache s') dev) h ms es" using file_ok_frame [OF f(2)] s'(5) f(5) by simp
  then have "file_at s' dev i n a h ms es" using s'(2,4) f(3) by (simp add: file_at_def)
  moreover have "grown dev i s ms es s' ms es" using s'(3-5) by (intro grown_keep) (simp_all add: outside_def)
  ultimately show thesis using that s'(1,5) by blast
qed

lemma file_write_step:
  assumes "file_at s dev i (Suc n) a h ms es" "b \<in> set es" "length d = 512"
  obtains s' where "fs_write s dev b d = Some (FILE_OK, s')" "file_at s' dev i n a h ms es" "grown dev i s ms es s' ms es"
    "\<And>c. addr_ok dev c \<Longrightarrow> view (fs_cache s') dev c = ((view (fs_cache s) dev)(b := d)) c"
proof -
  note f = file_atD [OF assms(1)]
  have b: "outside s dev i b" using f(4) assms(2) by simp
  have d: "length d = DEV_BLOCK_SIZE" using assms(3) by simp
  obtain s' where s': "fs_write s dev b d = Some (FILE_OK, s')" "fio s' dev i n a"
    "master_tab s' = master_tab s" "blocks_used BMAP dev i s' = blocks_used BMAP dev i s"
    "\<And>dev' c. addr_ok dev' c \<Longrightarrow> view (fs_cache s') dev' c = (if dev' = dev \<and> c = b then d else view (fs_cache s) dev' c)"
    using write_step [OF f(1) b d] by blast
  have nb: "b \<notin> set ms" using f(7) assms(2) by auto
  have "file_ok (view (fs_cache s') dev) h ms es"
    by (rule file_ok_frame [OF f(2)]) (use s'(5) f(5) nb in auto)
  then have "file_at s' dev i n a h ms es" using s'(2,4) f(3) by (simp add: file_at_def)
  moreover have "grown dev i s ms es s' ms es"
    by (rule grown_keep [OF s'(3,4)]) (use s'(5) assms(2) in \<open>auto simp: outside_def\<close>)
  moreover have "view (fs_cache s') dev c = ((view (fs_cache s) dev)(b := d)) c" if "addr_ok dev c" for c
    using s'(5) [OF that] by simp
  ultimately show thesis using that s'(1) by blast
qed

section \<open>Growing a file\<close>

text \<open>Writing a fresh block and then the map it is listed in.\<close>

lemma fresh_pair:
  assumes inv: "fio s dev i (n + (get_cost s i + 2)) (Suc a)" and cur: "outside s dev i cur" "cur \<in> blocks_used BMAP dev i s"
    and len: "length z = 512" "\<And>b. length (mp b) = 512"
  obtains b s1 s2 s3 where "\<And>x. inode_get_data_block s dev x = Some (INODE_OK, b, s1)"
    "fs_write s1 dev b z = Some (FILE_OK, s2)" "fs_write s2 dev cur (mp b) = Some (FILE_OK, s3)"
    "fio s3 dev i n a" "b \<notin> blocks_used BMAP dev i s" "insert b (blocks_used BMAP dev i s) \<subseteq> blocks_used BMAP dev i s3"
    "same_geom (master_tab s ! i) (master_tab s3 ! i)"
    "\<And>c. outside s dev i c \<Longrightarrow> view (fs_cache s3) dev c = ((view (fs_cache s) dev)(b := z, cur := mp b)) c"
proof -
  have inv': "fio s dev i (Suc (Suc n) + get_cost s i) (Suc a)" using inv by (simp add: ac_simps)
  obtain b s1 where s1: "\<And>x. inode_get_data_block s dev x = Some (INODE_OK, b, s1)" "fio s1 dev i (Suc (Suc n)) a"
    "b \<notin> blocks_used BMAP dev i s" "insert b (blocks_used BMAP dev i s) \<subseteq> blocks_used BMAP dev i s1"
    "same_geom (master_tab s ! i) (master_tab s1 ! i)"
    "\<And>c. outside s dev i c \<Longrightarrow> view (fs_cache s1) dev c = view (fs_cache s) dev c"
    using get_step [OF inv'] by blast
  have bo: "outside s1 dev i b" using used_outside(1) [OF s1(2)] s1(4) by blast
  have z: "length z = DEV_BLOCK_SIZE" "length (mp b) = DEV_BLOCK_SIZE" using len by simp_all
  obtain s2 where s2: "fs_write s1 dev b z = Some (FILE_OK, s2)" "fio s2 dev i (Suc n) a"
    "master_tab s2 = master_tab s1" "blocks_used BMAP dev i s2 = blocks_used BMAP dev i s1"
    "\<And>dev' c. addr_ok dev' c \<Longrightarrow> view (fs_cache s2) dev' c = (if dev' = dev \<and> c = b then z else view (fs_cache s1) dev' c)"
    using write_step [OF s1(2) bo z(1)] by blast
  have "outside s1 dev i cur" using cur(1) outside_geom [OF s1(5)] by blast
  then have co: "outside s2 dev i cur" using s2(3) by (simp add: outside_def)
  obtain s3 where s3: "fs_write s2 dev cur (mp b) = Some (FILE_OK, s3)" "fio s3 dev i n a"
    "master_tab s3 = master_tab s2" "blocks_used BMAP dev i s3 = blocks_used BMAP dev i s2"
    "\<And>dev' c. addr_ok dev' c \<Longrightarrow> view (fs_cache s3) dev' c = (if dev' = dev \<and> c = cur then mp b else view (fs_cache s2) dev' c)"
    using write_step [OF s2(2) co z(2)] by blast
  have "view (fs_cache s3) dev c = ((view (fs_cache s) dev)(b := z, cur := mp b)) c" if h: "outside s dev i c" for c
  proof -
    have c: "addr_ok dev c" using h by (simp add: outside_def)
    show ?thesis using s2(5) [OF c] s3(5) [OF c] s1(6) [OF h] by simp
  qed
  moreover have "insert b (blocks_used BMAP dev i s) \<subseteq> blocks_used BMAP dev i s3"
    "same_geom (master_tab s ! i) (master_tab s3 ! i)" using s1(4,5) s2(3,4) s3(3,4) by simp_all
  ultimately show thesis using that [OF s1(1) s2(1) s3(1,2) s1(3)] by blast
qed

lemma grown_fresh:
  assumes "same_geom (master_tab s ! i) (master_tab s' ! i)" "insert b (blocks_used BMAP dev i s) \<subseteq> blocks_used BMAP dev i s'"
    "b \<notin> blocks_used BMAP dev i s" "cur \<in> set ms"
    "\<And>c. outside s dev i c \<Longrightarrow> view (fs_cache s') dev c = ((view (fs_cache s) dev)(b := z, cur := y)) c"
    "ms' = ms \<and> es' = es @ [b] \<or> ms' = ms @ [b] \<and> es' = es"
  shows "grown dev i s ms es s' ms' es'"
  unfolding grown_def using assms by (auto simp: prefix_def)

lemma add_data_step:
  assumes f: "file_at s dev i (n + (get_cost s i + 2)) (Suc a) h ms es" and k: "length es < 127 * length ms" "k = length es div 127"
  obtains b s' where
    "file_add_one_data_block s dev (ms ! k) (bmap_of ms es k) (of_nat (length es mod 127)) =
       Some (FILE_OK, bmap_of ms (es @ [b]) k, s')"
    "file_at s' dev i n a h ms (es @ [b])" "grown dev i s ms es s' ms (es @ [b])" "view (fs_cache s') dev b = zeros 512"
    "\<And>c. c \<in> set es \<Longrightarrow> view (fs_cache s') dev c = view (fs_cache s) dev c"
proof -
  note d = file_atD [OF f]
  have kl: "k = length ms - 1" "k < length ms" using map_last [OF d(2) k(1)] k(2) d(8) by simp_all
  then have cur: "ms ! k \<in> set ms" by simp
  let ?mp = "\<lambda>b. bmap_image (bmap_of ms (es @ [b]) k)"
  have ln: "length (zeros 512) = 512" "\<And>b. length (?mp b) = 512" by (simp_all add: image_lengths)
  have c1: "outside s dev i (ms ! k)" "ms ! k \<in> blocks_used BMAP dev i s" using d(3,4) cur by auto
  obtain b s1 s2 s3 where s: "\<And>x. inode_get_data_block s dev x = Some (INODE_OK, b, s1)"
    "fs_write s1 dev b (zeros 512) = Some (FILE_OK, s2)" "fs_write s2 dev (ms ! k) (?mp b) = Some (FILE_OK, s3)"
    "fio s3 dev i n a" "b \<notin> blocks_used BMAP dev i s" "insert b (blocks_used BMAP dev i s) \<subseteq> blocks_used BMAP dev i s3"
    "same_geom (master_tab s ! i) (master_tab s3 ! i)"
    "\<And>c. outside s dev i c \<Longrightarrow> view (fs_cache s3) dev c = ((view (fs_cache s) dev)(b := zeros 512, ms ! k := ?mp b)) c"
    by (rule fresh_pair [OF d(1) c1 ln]) blast
  have b3: "b \<in> blocks_used BMAP dev i s3" using s(6) by blast
  have b: "b \<notin> set (ms @ es)" "b \<noteq> 0" "outside s dev i b"
    using s(5) d(3) used_outside(1,3) [OF s(4) b3] by (blast, simp, simp add: outside_geom [OF s(7)])
  have v: "view (fs_cache s3) dev c = ((view (fs_cache s) dev)(b := zeros 512, ms ! k := ?mp b)) c" if "c \<in> insert b (set (ms @ es))" for c
    using s(8) b(3) d(4) that by blast
  have "read_bmap (view (fs_cache s3) dev (ms ! j)) = bmap_of ms (es @ [b]) j" if j: "j < length ms" for j
  proof (cases "j = k")
    case True then show ?thesis using v [of "ms ! k"] cur by (simp add: read_bmap_image)
  next
    case False
    then have "ms ! j \<noteq> ms ! k" "j < k" using d(7) j kl by (auto simp: nth_eq_iff_index_eq)
    then show ?thesis
      using v [of "ms ! j"] j b(1) file_map [OF f j] bmap_of_add_data(2) [OF k(2)] by (auto simp: fun_upd_def)
  qed
  then have "file_ok (view (fs_cache s3) dev) h ms (es @ [b])" using d(2) k(1) b by (simp add: file_ok_def)
  then have "file_at s3 dev i n a h ms (es @ [b])" using s(4,6) d(3) by (auto simp: file_at_def)
  moreover have "grown dev i s ms es s3 ms (es @ [b])" using grown_fresh [OF s(7,6,5) cur s(8)] by blast
  moreover have "view (fs_cache s3) dev b = zeros 512" using v [of b] b(1) cur by auto
  moreover have "view (fs_cache s3) dev c = view (fs_cache s) dev c" if "c \<in> set es" for c
    using v [of c] that b(1) d(7) cur by auto
  moreover have "file_add_one_data_block s dev (ms ! k) (bmap_of ms es k) (of_nat (length es mod 127)) =
      Some (FILE_OK, bmap_of ms (es @ [b]) k, s3)"
    using s(1-3) bmap_of_add_data(1) [OF k(2), of ms b] by (simp add: file_add_one_data_block_def unat_of_nat32)
  ultimately show thesis using that by blast
qed

lemma add_bmap_step:
  assumes f: "file_at s dev i (n + (get_cost s i + 2)) (Suc a) h ms es" and k: "length es = 127 * length ms"
  obtains b s' where
    "file_add_one_bmap_block s dev (ms ! (length ms - 1)) (bmap_of ms es (length ms - 1)) =
       Some (FILE_OK, bmap_of (ms @ [b]) es (length ms - 1), s')"
    "file_at s' dev i n a h (ms @ [b]) es" "grown dev i s ms es s' (ms @ [b]) es"
    "\<And>c. c \<in> set es \<Longrightarrow> view (fs_cache s') dev c = view (fs_cache s) dev c"
proof -
  note d = file_atD [OF f]
  let ?k = "length ms - 1"
  have kl: "?k < length ms" using d(8) by simp
  then have cur: "ms ! ?k \<in> set ms" by simp
  let ?mp = "\<lambda>b. bmap_image (bmap_of (ms @ [b]) es ?k)"
  have ln: "length (bmap_image zero_bmap) = 512" "\<And>b. length (?mp b) = 512" by (simp_all add: image_lengths)
  have c1: "outside s dev i (ms ! ?k)" "ms ! ?k \<in> blocks_used BMAP dev i s" using d(3,4) cur by auto
  note B = bmap_of_add_map [OF _ d(8), of es]
  obtain b s1 s2 s3 where s: "\<And>x. inode_get_data_block s dev x = Some (INODE_OK, b, s1)"
    "fs_write s1 dev b (bmap_image zero_bmap) = Some (FILE_OK, s2)" "fs_write s2 dev (ms ! ?k) (?mp b) = Some (FILE_OK, s3)"
    "fio s3 dev i n a" "b \<notin> blocks_used BMAP dev i s" "insert b (blocks_used BMAP dev i s) \<subseteq> blocks_used BMAP dev i s3"
    "same_geom (master_tab s ! i) (master_tab s3 ! i)"
    "\<And>c. outside s dev i c \<Longrightarrow> view (fs_cache s3) dev c = ((view (fs_cache s) dev)(b := bmap_image zero_bmap, ms ! ?k := ?mp b)) c"
    by (rule fresh_pair [OF d(1) c1 ln]) blast
  have b3: "b \<in> blocks_used BMAP dev i s3" using s(6) by blast
  have b: "b \<notin> set (ms @ es)" "b \<noteq> 0" "outside s dev i b"
    using s(5) d(3) used_outside(1,3) [OF s(4) b3] by (blast, simp, simp add: outside_geom [OF s(7)])
  have v: "view (fs_cache s3) dev c = ((view (fs_cache s) dev)(b := bmap_image zero_bmap, ms ! ?k := ?mp b)) c" if "c \<in> insert b (set (ms @ es))" for c
    using s(8) b(3) d(4) that by blast
  have "read_bmap (view (fs_cache s3) dev ((ms @ [b]) ! j)) = bmap_of (ms @ [b]) es j" if j: "j < Suc (length ms)" for j
  proof -
    consider "j = length ms" | "j = ?k" "j < length ms" | "Suc j < length ms" using j by linarith
    then show ?thesis
    proof cases
      case 1
      then show ?thesis using v [of b] b(1) cur B(2) k by (auto simp: read_bmap_image)
    next
      case 2
      then show ?thesis using v [of "ms ! ?k"] cur by (simp add: nth_append read_bmap_image)
    next
      case 3
      then have "ms ! j \<noteq> ms ! ?k" "j < length ms" using d(7) kl by (auto simp: nth_eq_iff_index_eq)
      then show ?thesis
        using v [of "ms ! j"] b(1) file_map [OF f, of j] B(3) [OF _ 3] k by (auto simp: nth_append fun_upd_def)
    qed
  qed
  then have "file_ok (view (fs_cache s3) dev) h (ms @ [b]) es" using d(2) k b by (auto simp: file_ok_def)
  then have "file_at s3 dev i n a h (ms @ [b]) es" using s(4,6) d(3) by (auto simp: file_at_def)
  moreover have "grown dev i s ms es s3 (ms @ [b]) es" using grown_fresh [OF s(7,6,5) cur s(8)] by blast
  moreover have "view (fs_cache s3) dev c = view (fs_cache s) dev c" if "c \<in> set es" for c
    using v [of c] that b(1) d(7) cur by auto
  moreover have "file_add_one_bmap_block s dev (ms ! ?k) (bmap_of ms es ?k) = Some (FILE_OK, bmap_of (ms @ [b]) es ?k, s3)"
    using s(1-3) B(1) [of b] k by (simp add: file_add_one_bmap_block_def)
  ultimately show thesis using that by blast
qed

section \<open>Moving to the next block\<close>

lemma grown_cost: "grown dev i s ms es s' ms' es' \<Longrightarrow> map_len BMAP (master_tab s' ! i) = map_len BMAP (master_tab s ! i)"
  by (simp add: grown_def map_len_geom)

lemma file_null: "file_ok v h ms es \<Longrightarrow> b \<in> set (ms @ es) \<Longrightarrow> b \<noteq> INODE_NULL"
  by (auto simp: file_ok_def)

lemma unat_mod_127 [simp]: "unat (of_nat (q mod 127) :: u32) = q mod 127"
  using mod_less_divisor [of 127 q] by (intro unat_of_nat32) simp

lemma load_data_ok:
  assumes f: "file_at (rw_fs st) dev i (Suc n + (get_cost (rw_fs st) i + 2)) (Suc a) h ms es"
    and q: "q \<le> length es" "q < 127 * length ms"
    and st: "rw_current st = ms ! (q div 127)" "rw_iblock st = of_nat (q mod 127)" "rw_bmap st = bmap_of ms es (q div 127)"
  obtains es' s' where
    "load_data dev st = Some (FILE_OK, st\<lparr>rw_start := es' ! q, rw_bmap := bmap_of ms es' (q div 127),
       rw_dptr := view (fs_cache s') dev (es' ! q), rw_fs := s'\<rparr>)"
    "file_at s' dev i n a h ms es'" "q < length es'" "grown dev i (rw_fs st) ms es s' ms es'"
    "fbyte (view (fs_cache s') dev) es' = fbyte (view (fs_cache (rw_fs st)) dev) es"
proof -
  let ?k = "q div 127"
  obtain es1 s1 where s1: "(if bm_blocks (rw_bmap st) ! unat (rw_iblock st) = INODE_NULL
      then file_add_one_data_block (rw_fs st) dev (rw_current st) (rw_bmap st) (rw_iblock st)
      else Some (FILE_OK, rw_bmap st, rw_fs st)) = Some (FILE_OK, bmap_of ms es1 ?k, s1)"
    "file_at s1 dev i (Suc n) a h ms es1" "q < length es1" "grown dev i (rw_fs st) ms es s1 ms es1"
    "fbyte (view (fs_cache s1) dev) es1 = fbyte (view (fs_cache (rw_fs st)) dev) es"
  proof (cases "q < length es")
    case True
    then have "bm_blocks (rw_bmap st) ! unat (rw_iblock st) \<noteq> INODE_NULL"
      using st file_null [OF file_atD(2) [OF f], of "es ! q"] by (simp add: bmap_of_block)
    then show thesis using that [of es "rw_fs st"] True st file_at_mono [OF f] by simp
  next
    case False
    then have e: "q = length es" "length es < 127 * length ms" using q by simp_all
    have z: "bm_blocks (rw_bmap st) ! unat (rw_iblock st) = INODE_NULL" using st e by (simp add: bmap_of_block)
    obtain b s' where b: "file_add_one_data_block (rw_fs st) dev (ms ! ?k) (bmap_of ms es ?k) (of_nat (length es mod 127)) =
        Some (FILE_OK, bmap_of ms (es @ [b]) ?k, s')"
      "file_at s' dev i (Suc n) a h ms (es @ [b])" "grown dev i (rw_fs st) ms es s' ms (es @ [b])" "view (fs_cache s') dev b = zeros 512"
      "\<And>c. c \<in> set es \<Longrightarrow> view (fs_cache s') dev c = view (fs_cache (rw_fs st)) dev c"
      by (rule add_data_step [OF f e(2)]) (use e(1) in auto)
    have "fbyte (view (fs_cache s') dev) (es @ [b]) = fbyte (view (fs_cache (rw_fs st)) dev) es"
      unfolding fbyte_append [of "view (fs_cache s') dev", OF b(4)] using b(5) by (rule fbyte_frame)
    then show thesis using that [of "es @ [b]" s'] b(1-3) z st e(1) by simp
  qed
  have a: "es1 ! q \<in> set (ms @ es1)" using s1(3) by simp
  obtain s' where s': "fs_read s1 dev (es1 ! q) (rw_dptr st) = Some (FILE_OK, view (fs_cache s1) dev (es1 ! q), s')"
    "file_at s' dev i n a h ms es1" "grown dev i s1 ms es1 s' ms es1"
    "\<And>c. addr_ok dev c \<Longrightarrow> view (fs_cache s') dev c = view (fs_cache s1) dev c"
    by (rule file_read_step [OF s1(2) file_atD(5) [OF s1(2) a]]) blast
  have v: "view (fs_cache s') dev c = view (fs_cache s1) dev c" if "c \<in> set es1" for c
    using s'(4) file_atD(5) [OF s1(2)] that by simp
  then have "fbyte (view (fs_cache s') dev) es1 = fbyte (view (fs_cache (rw_fs st)) dev) es"
    using fbyte_frame [of es1] s1(5) by metis
  moreover have "load_data dev st = Some (FILE_OK, st\<lparr>rw_start := es1 ! q, rw_bmap := bmap_of ms es1 ?k,
       rw_dptr := view (fs_cache s') dev (es1 ! q), rw_fs := s'\<rparr>)"
    using s1(1,3) s'(1) st(2) v [of "es1 ! q"] by (simp add: load_data_def Let_def bmap_of_block)
  ultimately show thesis using that s'(2) s1(3) grown_trans [OF s1(4) s'(3)] by blast
qed

lemma next_map_ok:
  assumes f: "file_at (rw_fs st) dev i (Suc n + (get_cost (rw_fs st) i + 2)) (Suc a) h ms es"
    and q: "q < length es" "Suc q = 127 * Suc (q div 127)"
    and st: "rw_current st = ms ! (q div 127)" "rw_bmap st = bmap_of ms es (q div 127)"
  obtains ms' s' where
    "next_map dev st = Some (FILE_OK, st\<lparr>rw_current := ms' ! Suc (q div 127), rw_bmap := bmap_of ms' es (Suc (q div 127)), rw_fs := s'\<rparr>)"
    "file_at s' dev i n a h ms' es" "Suc (q div 127) < length ms'" "grown dev i (rw_fs st) ms es s' ms' es"
    "\<And>c. c \<in> set es \<Longrightarrow> view (fs_cache s') dev c = view (fs_cache (rw_fs st)) dev c"
proof -
  let ?k = "q div 127"
  have k: "?k < length ms" using map_index [OF file_atD(2) [OF f] q(1)] .
  obtain ms1 s1 where s1: "(if bm_next (rw_bmap st) = INODE_NULL
      then file_add_one_bmap_block (rw_fs st) dev (rw_current st) (rw_bmap st)
      else Some (FILE_OK, rw_bmap st, rw_fs st)) = Some (FILE_OK, bmap_of ms1 es ?k, s1)"
    "file_at s1 dev i (Suc n) a h ms1 es" "Suc ?k < length ms1" "grown dev i (rw_fs st) ms es s1 ms1 es"
    "\<And>c. c \<in> set es \<Longrightarrow> view (fs_cache s1) dev c = view (fs_cache (rw_fs st)) dev c"
  proof (cases "Suc ?k < length ms")
    case True
    then have "bm_next (rw_bmap st) \<noteq> INODE_NULL"
      using st file_null [OF file_atD(2) [OF f], of "ms ! Suc ?k"] by simp
    then show thesis using that [of ms "rw_fs st"] True st file_at_mono [OF f] by simp
  next
    case False
    then have e: "Suc ?k = length ms" using k by simp
    then have l: "length es = 127 * length ms" using q file_atD(2) [OF f] by (simp add: file_ok_def)
    have lk: "length ms - 1 = ?k" using e by simp
    obtain b s' where b: "file_add_one_bmap_block (rw_fs st) dev (ms ! ?k) (bmap_of ms es ?k) =
        Some (FILE_OK, bmap_of (ms @ [b]) es ?k, s')"
      "file_at s' dev i (Suc n) a h (ms @ [b]) es" "grown dev i (rw_fs st) ms es s' (ms @ [b]) es"
      "\<And>c. c \<in> set es \<Longrightarrow> view (fs_cache s') dev c = view (fs_cache (rw_fs st)) dev c"
      by (rule add_bmap_step [OF f l, unfolded lk]) blast
    then show thesis using that [of "ms @ [b]" s'] st e by simp
  qed
  have a: "ms1 ! Suc ?k \<in> set (ms1 @ es)" using s1(3) by simp
  obtain s' where s': "fs_read s1 dev (ms1 ! Suc ?k) (bmap_image zero_bmap) = Some (FILE_OK, view (fs_cache s1) dev (ms1 ! Suc ?k), s')"
    "file_at s' dev i n a h ms1 es" "grown dev i s1 ms1 es s' ms1 es"
    "\<And>c. addr_ok dev c \<Longrightarrow> view (fs_cache s') dev c = view (fs_cache s1) dev c"
    by (rule file_read_step [OF s1(2) file_atD(5) [OF s1(2) a]]) blast
  have "view (fs_cache s') dev c = view (fs_cache (rw_fs st)) dev c" if "c \<in> set es" for c
    using s'(4) s1(5) file_atD(5) [OF s1(2)] that by simp
  moreover have "next_map dev st = Some (FILE_OK, st\<lparr>rw_current := ms1 ! Suc ?k, rw_bmap := bmap_of ms1 es (Suc ?k), rw_fs := s'\<rparr>)"
    using s1(1,3) s'(1) file_map [OF s1(2,3)] by (simp add: next_map_def Let_def)
  ultimately show thesis using that s'(2) s1(3) grown_trans [OF s1(4) s'(3)] by blast
qed

section \<open>The transfer loop\<close>

text \<open>
  The loop is at data block \<open>q\<close> of the file. Its bytes are those on the disk, with the
  block in \<open>dptr\<close> in place of the one it was read from.
\<close>

definition rw_ok :: "int \<Rightarrow> nat \<Rightarrow> u32 \<Rightarrow> nat \<Rightarrow> nat \<Rightarrow> u32 list \<Rightarrow> u32 list \<Rightarrow> nat \<Rightarrow> rwst \<Rightarrow> bool" where
  "rw_ok dev i h n a ms es q st \<longleftrightarrow> file_at (rw_fs st) dev i n a h ms es \<and> q < length es \<and>
     rw_start st = es ! q \<and> rw_current st = ms ! (q div 127) \<and> rw_iblock st = of_nat (q mod 127) \<and>
     rw_bmap st = bmap_of ms es (q div 127) \<and> length (rw_dptr st) = 512"

abbreviation rw_view :: "int \<Rightarrow> rwst \<Rightarrow> u32 \<Rightarrow> bytes" where
  "rw_view dev st \<equiv> view (fs_cache (rw_fs st)) dev"

definition rw_bytes :: "int \<Rightarrow> u32 list \<Rightarrow> rwst \<Rightarrow> nat \<Rightarrow> u8" where
  "rw_bytes dev es st = fbyte ((rw_view dev st)(rw_start st := rw_dptr st)) es"

abbreviation block_cost :: "fsys \<Rightarrow> nat \<Rightarrow> nat" where
  "block_cost s i \<equiv> 2 * get_cost s i + 7"

lemma rw_ok_mono: "rw_ok dev i h n a ms es q st \<Longrightarrow> n' \<le> n \<Longrightarrow> a' \<le> a \<Longrightarrow> rw_ok dev i h n' a' ms es q st"
  using file_at_mono by (auto simp: rw_ok_def)

lemma rw_bytes_clean: "rw_dptr st = rw_view dev st (rw_start st) \<Longrightarrow> rw_bytes dev es st = fbyte (rw_view dev st) es"
  by (simp add: rw_bytes_def)

lemma flush_ok:
  assumes st: "rw_ok dev i h (Suc n) a ms es q st" and fl: "fl \<or> rw_dptr st = rw_view dev st (rw_start st)"
  obtains s' where
    "(if fl then do { (r, s) \<leftarrow> fs_write (rw_fs st) dev (rw_start st) (rw_dptr st); Some (r, st\<lparr>rw_flag := False, rw_fs := s\<rparr>) }
      else Some (FILE_OK, st)) = Some (FILE_OK, st\<lparr>rw_flag := \<not> fl \<and> rw_flag st, rw_fs := s'\<rparr>)"
    "file_at s' dev i n a h ms es" "grown dev i (rw_fs st) ms es s' ms es"
    "fbyte (view (fs_cache s') dev) es = rw_bytes dev es st"
proof (cases fl)
  case True
  have f: "file_at (rw_fs st) dev i (Suc n) a h ms es" and b: "rw_start st \<in> set es" "length (rw_dptr st) = 512"
    using st by (simp_all add: rw_ok_def)
  obtain s' where s': "fs_write (rw_fs st) dev (rw_start st) (rw_dptr st) = Some (FILE_OK, s')" "file_at s' dev i n a h ms es"
    "grown dev i (rw_fs st) ms es s' ms es"
    "\<And>c. addr_ok dev c \<Longrightarrow> view (fs_cache s') dev c = ((rw_view dev st)(rw_start st := rw_dptr st)) c"
    by (rule file_write_step [OF f b]) blast
  have "fbyte (view (fs_cache s') dev) es = rw_bytes dev es st"
    unfolding rw_bytes_def using s'(4) file_atD(5) [OF f] by (intro fbyte_frame) simp
  then show thesis using that s'(1-3) True by simp
next
  case False
  then show thesis using that [of "rw_fs st"] st fl file_at_mono [of "rw_fs st" dev i "Suc n" a h ms es n a] rw_bytes_clean
    by (simp add: rw_ok_def)
qed

lemma next_block_ok:
  assumes st: "rw_ok dev i h (n + block_cost (rw_fs st) i) (Suc (Suc a)) ms es q st"
    and fl: "\<not> reading \<or> rw_done st \<ge> sz \<or> rw_dptr st = rw_view dev st (rw_start st)"
  obtains ms' es' st' where "next_block reading sz dev st = Some (FILE_OK, st')" "rw_ok dev i h n a ms' es' (Suc q) st'"
    "grown dev i (rw_fs st) ms es (rw_fs st') ms' es'" "rw_bytes dev es' st' = rw_bytes dev es st"
    "rw_dptr st' = rw_view dev st' (rw_start st')"
    "rw_i st' = rw_i st" "rw_byte st' = rw_byte st" "rw_data st' = rw_data st" "rw_done st' = rw_done st"
    "rw_flag st' = (\<not> (\<not> reading \<or> rw_done st \<ge> sz) \<and> rw_flag st)"
proof -
  let ?fl = "\<not> reading \<or> rw_done st \<ge> sz" and ?c = "get_cost (rw_fs st) i" and ?k = "Suc q div 127"
  have q: "q < length es" and s0: "rw_current st = ms ! (q div 127)" "rw_bmap st = bmap_of ms es (q div 127)" "rw_iblock st = of_nat (q mod 127)"
    using st by (simp_all add: rw_ok_def)
  have st0: "rw_ok dev i h (Suc (Suc (Suc n + (?c + 2)) + (?c + 2))) (Suc (Suc a)) ms es q st"
    by (rule rw_ok_mono [OF st]) simp_all
  obtain s1 where s1: "(if ?fl then do { (r, s) \<leftarrow> fs_write (rw_fs st) dev (rw_start st) (rw_dptr st); Some (r, st\<lparr>rw_flag := False, rw_fs := s\<rparr>) }
      else Some (FILE_OK, st)) = Some (FILE_OK, st\<lparr>rw_flag := \<not> ?fl \<and> rw_flag st, rw_fs := s1\<rparr>)"
    "file_at s1 dev i (Suc (Suc n + (?c + 2)) + (?c + 2)) (Suc (Suc a)) h ms es" "grown dev i (rw_fs st) ms es s1 ms es"
    "fbyte (view (fs_cache s1) dev) es = rw_bytes dev es st"
    by (rule flush_ok [OF st0, of ?fl]) (use fl in blast)+
  let ?ib = "(of_nat (q mod 127) + 1) mod 127 :: u32"
  have "unat ?ib = (q mod 127 + 1) mod 127"
    by (simp add: unat_mod u32_add_unat)
  also have "\<dots> = Suc q mod 127" by (simp add: mod_Suc_eq)
  finally have ib: "?ib = of_nat (Suc q mod 127)" by (simp add: word_unat_eq_iff)
  define st1 where "st1 = st\<lparr>rw_flag := \<not> ?fl \<and> rw_flag st, rw_fs := s1, rw_iblock := of_nat (Suc q mod 127)\<rparr>"
  have st1: "(rw_iblock st + 1) mod 127 = rw_iblock st1"
    "rw_iblock st1 = x \<Longrightarrow> st\<lparr>rw_flag := reading \<and> \<not> rw_done st \<ge> sz \<and> rw_flag st, rw_fs := s1, rw_iblock := x\<rparr> = st1" for x
    by (auto simp: st1_def ib s0(3))
  obtain ms2 s2 where s2: "(if rw_iblock st1 = 0 then next_map dev st1 else Some (FILE_OK, st1)) =
      Some (FILE_OK, st1\<lparr>rw_current := ms2 ! ?k, rw_bmap := bmap_of ms2 es ?k, rw_fs := s2\<rparr>)"
    "file_at s2 dev i (Suc n + (?c + 2)) (Suc a) h ms2 es" "grown dev i s1 ms es s2 ms2 es" "Suc q < 127 * length ms2"
    "\<And>c. c \<in> set es \<Longrightarrow> view (fs_cache s2) dev c = view (fs_cache s1) dev c"
  proof (cases "Suc q mod 127 = 0")
    case True
    have k2: "?k = Suc (q div 127)" using True by (simp add: div_Suc)
    then have k: "Suc q = 127 * Suc (q div 127)" "?k = Suc (q div 127)"
      using mult_div_mod_eq [of 127 "Suc q"] unfolding True by simp_all
    have f: "file_at (rw_fs st1) dev i (Suc (Suc n + (?c + 2)) + (get_cost (rw_fs st1) i + 2)) (Suc (Suc a)) h ms es"
      using s1(2) grown_cost [OF s1(3)] by (simp add: st1_def)
    have c1: "rw_current st1 = ms ! (q div 127)" "rw_bmap st1 = bmap_of ms es (q div 127)" using s0 by (simp_all add: st1_def)
    obtain ms' s' where nm:
      "next_map dev st1 = Some (FILE_OK, st1\<lparr>rw_current := ms' ! Suc (q div 127), rw_bmap := bmap_of ms' es (Suc (q div 127)), rw_fs := s'\<rparr>)"
      "file_at s' dev i (Suc n + (?c + 2)) (Suc a) h ms' es" "Suc (q div 127) < length ms'" "grown dev i (rw_fs st1) ms es s' ms' es"
      "\<And>c. c \<in> set es \<Longrightarrow> view (fs_cache s') dev c = view (fs_cache (rw_fs st1)) dev c"
      by (rule next_map_ok [OF f q k(1) c1]) blast
    have "rw_iblock st1 = 0" "rw_fs st1 = s1" using True by (simp_all add: st1_def)
    then show thesis using nm k by (intro that [of s' ms']) simp_all
  next
    case False
    then have k: "?k = q div 127" by (simp add: div_Suc)
    then have "?k < length ms" using map_index [OF file_atD(2) [OF s1(2)] q] by simp
    then have "Suc q < 127 * length ms" by (simp add: div_less_iff_less_mult mult.commute)
    moreover have "(of_nat (Suc q mod 127) :: u32) \<noteq> 0" using False by (simp add: word_unat_eq_iff)
    moreover have "file_at s1 dev i (Suc n + (?c + 2)) (Suc a) h ms es" by (rule file_at_mono [OF s1(2)]) simp_all
    ultimately show thesis using that [of s1 ms] s0 k by (simp add: st1_def)
  qed
  define st2 where "st2 = st1\<lparr>rw_current := ms2 ! ?k, rw_bmap := bmap_of ms2 es ?k, rw_fs := s2\<rparr>"
  have f2: "file_at (rw_fs st2) dev i (Suc n + (get_cost (rw_fs st2) i + 2)) (Suc a) h ms2 es"
    using s2(2) grown_cost [OF grown_trans [OF s1(3) s2(3)]] by (simp add: st2_def)
  have c2: "rw_current st2 = ms2 ! ?k" "rw_iblock st2 = of_nat (Suc q mod 127)" "rw_bmap st2 = bmap_of ms2 es ?k"
    by (simp_all add: st2_def st1_def)
  have q2: "Suc q \<le> length es" using q by simp
  obtain es3 s3 where s3: "load_data dev st2 = Some (FILE_OK, st2\<lparr>rw_start := es3 ! Suc q, rw_bmap := bmap_of ms2 es3 ?k,
       rw_dptr := view (fs_cache s3) dev (es3 ! Suc q), rw_fs := s3\<rparr>)"
    "file_at s3 dev i n a h ms2 es3" "Suc q < length es3" "grown dev i (rw_fs st2) ms2 es s3 ms2 es3"
    "fbyte (view (fs_cache s3) dev) es3 = fbyte (view (fs_cache (rw_fs st2)) dev) es"
    by (rule load_data_ok [OF f2 q2 s2(4) c2]) blast
  define st3 where "st3 = st2\<lparr>rw_start := es3 ! Suc q, rw_bmap := bmap_of ms2 es3 ?k,
       rw_dptr := view (fs_cache s3) dev (es3 ! Suc q), rw_fs := s3\<rparr>"
  have "next_block reading sz dev st = Some (FILE_OK, st3)"
    unfolding next_block_def s1(1) using s2(1) s3(1) st1(2) [of 0] st1(2) [of "rw_iblock st1"]
    by (cases "rw_iblock st1 = 0") (simp_all add: Let_def st1(1) st2_def [symmetric] st3_def [symmetric])
  moreover have "length (view (fs_cache s3) dev (es3 ! Suc q)) = 512"
    using file_atD(6) [OF s3(2)] length_view by (simp add: cache_inv_def)
  then have "rw_ok dev i h n a ms2 es3 (Suc q) st3"
    using s3(2,3) by (simp add: rw_ok_def st3_def st2_def st1_def)
  moreover have "grown dev i (rw_fs st) ms es (rw_fs st3) ms2 es3"
    using grown_trans [OF grown_trans [OF s1(3) s2(3)]] s3(4) by (simp add: st3_def st2_def)
  moreover have cl: "rw_dptr st3 = rw_view dev st3 (rw_start st3)" by (simp add: st3_def)
  moreover have "rw_bytes dev es3 st3 = rw_bytes dev es st"
    using rw_bytes_clean [OF cl] s3(5) s1(4) fbyte_frame [of es, OF s2(5)] by (simp add: st3_def st2_def)
  ultimately show thesis by (intro that [of st3 ms2 es3]) (simp_all add: st3_def st2_def st1_def)
qed

lemma advance_ok:
  assumes st: "rw_ok dev i h (n + block_cost (rw_fs st) i * c) (a + 2 * c) ms es q st" and c: "c = (if rw_byte st = 0 then 1 else 0)"
    and fl: "rw_byte st = 0 \<Longrightarrow> \<not> reading \<or> rw_done st \<ge> sz \<or> rw_dptr st = rw_view dev st (rw_start st)"
  obtains ms' es' st' where
    "(if rw_byte st = 0 then next_block reading sz dev st else Some (FILE_OK, st)) = Some (FILE_OK, st')"
    "rw_ok dev i h n a ms' es' (q + c) st'" "grown dev i (rw_fs st) ms es (rw_fs st') ms' es'"
    "rw_bytes dev es' st' = rw_bytes dev es st"
    "rw_i st' = rw_i st" "rw_byte st' = rw_byte st" "rw_data st' = rw_data st" "rw_done st' = rw_done st"
    "rw_flag st' \<Longrightarrow> rw_flag st"
    "st' = st \<and> es' = es \<or> rw_dptr st' = rw_view dev st' (rw_start st')"
proof (cases "rw_byte st = 0")
  case True
  then have "c = 1" by (simp add: c)
  then have st0: "rw_ok dev i h (n + block_cost (rw_fs st) i) (Suc (Suc a)) ms es q st" using st by (simp add: ac_simps)
  obtain ms' es' st' where s: "next_block reading sz dev st = Some (FILE_OK, st')" "rw_ok dev i h n a ms' es' (Suc q) st'"
    "grown dev i (rw_fs st) ms es (rw_fs st') ms' es'" "rw_bytes dev es' st' = rw_bytes dev es st"
    "rw_dptr st' = rw_view dev st' (rw_start st')"
    "rw_i st' = rw_i st" "rw_byte st' = rw_byte st" "rw_data st' = rw_data st" "rw_done st' = rw_done st"
    "rw_flag st' = (\<not> (\<not> reading \<or> rw_done st \<ge> sz) \<and> rw_flag st)"
    by (rule next_block_ok [OF st0 fl [OF True]]) blast
  show thesis using s True \<open>c = 1\<close> by (intro that [of st' ms' es']) simp_all
next
  case False
  then show thesis using st c by (intro that [of st ms es]) simp_all
qed

lemma mod_512_step:
  assumes "unat b < 512"
  shows "unat ((b + 1) mod 512 :: u32) = (unat b + 1) mod 512" "(b + 1) mod 512 = (0 :: u32) \<longleftrightarrow> unat b = 511"
    "(if (b + 1) mod 512 = (0 :: u32) then 1 else 0) = (unat b + 1) div 512"
proof -
  show 1: "unat ((b + 1) mod 512) = (unat b + 1) mod 512" using assms by (simp add: unat_mod u32_add_unat)
  show 2: "(b + 1) mod 512 = 0 \<longleftrightarrow> unat b = 511" unfolding word_unat_eq_iff 1 using assms by (auto simp: mod_Suc)
  show "(if (b + 1) mod 512 = 0 then 1 else 0) = (unat b + 1) div 512" unfolding 2 using assms by auto
qed

text \<open>Writing: the bytes stored so far, and a block that was changed is marked for writing.\<close>

definition wr_inv :: "int \<Rightarrow> nat \<Rightarrow> u32 \<Rightarrow> nat \<Rightarrow> nat \<Rightarrow> nat \<Rightarrow> bytes \<Rightarrow> (nat \<Rightarrow> u8) \<Rightarrow> u32 list \<Rightarrow> u32 list \<Rightarrow> nat \<Rightarrow> rwst \<Rightarrow> bool" where
  "wr_inv dev i h n a pos D B ms es q st \<longleftrightarrow> rw_ok dev i h n a ms es q st \<and> unat (rw_byte st) < 512 \<and>
     512 * q + unat (rw_byte st) = pos + unat (rw_i st) \<and> rw_done st = ucast (rw_i st) \<and> rw_data st = D \<and>
     (rw_flag st \<or> rw_dptr st = rw_view dev st (rw_start st)) \<and>
     rw_bytes dev es st = (\<lambda>x. if pos \<le> x \<and> x < pos + unat (rw_i st) then D ! (x - pos) else B x)"

lemma file_ok_distinct: "file_ok v h ms es \<Longrightarrow> distinct es"
  by (simp add: file_ok_def)

lemma rw_bytes_put:
  assumes "rw_ok dev i h n a ms es q st" "unat b < 512"
  shows "rw_bytes dev es (st\<lparr>rw_dptr := (rw_dptr st)[unat b := y]\<rparr>) = (rw_bytes dev es st)(512 * q + unat b := y)"
    "rw_bytes dev es st (512 * q + unat b) = rw_dptr st ! unat b"
  using assms fbyte_upd [of es q "unat b" "rw_dptr st" "rw_view dev st" y]
    fbyte_at [of q es "unat b" "(rw_view dev st)(es ! q := rw_dptr st)"] file_atD(2) [THEN file_ok_distinct]
  by (auto simp: rw_ok_def rw_bytes_def)

lemma write_step_ok:
  assumes inv: "wr_inv dev i h (n + block_cost (rw_fs st) i * c) (a + 2 * c) pos D B ms es q st"
    and c: "c = (unat (rw_byte st) + 1) div 512" and D: "unat (rw_i st) < length D" "length D < 2 ^ 32"
  obtains ms' es' q' st' where "rw_step False sz dev st = Some (FILE_OK, st')" "wr_inv dev i h n a pos D B ms' es' q' st'"
    "grown dev i (rw_fs st) ms es (rw_fs st') ms' es'" "unat (rw_i st') = Suc (unat (rw_i st))"
    "unat (rw_byte st') = (unat (rw_byte st) + 1) mod 512"
proof -
  let ?b = "rw_byte st" and ?i = "rw_i st"
  have w: "rw_ok dev i h (n + block_cost (rw_fs st) i * c) (a + 2 * c) ms es q st" "unat ?b < 512"
    "512 * q + unat ?b = pos + unat ?i" "rw_data st = D"
    "rw_bytes dev es st = (\<lambda>x. if pos \<le> x \<and> x < pos + unat ?i then D ! (x - pos) else B x)"
    using inv by (simp_all add: wr_inv_def)
  note m = mod_512_step [OF w(2)]
  define st1 where "st1 = rw_byte_step False sz st"
  have s1: "st1 = st\<lparr>rw_flag := True, rw_dptr := (rw_dptr st)[unat ?b := D ! unat ?i], rw_i := ?i + 1,
      rw_done := ucast (?i + 1), rw_byte := (?b + 1) mod 512\<rparr>"
    by (simp add: st1_def rw_byte_step_def Let_def w(4))
  have r1: "rw_ok dev i h (n + block_cost (rw_fs st1) i * c) (a + 2 * c) ms es q st1"
    using w(1) by (simp add: rw_ok_def s1)
  have c1: "c = (if rw_byte st1 = 0 then 1 else 0)" using m(3) c by (simp add: s1)
  have i1: "unat (?i + 1) = Suc (unat ?i)" using u32_suc [OF D] .
  obtain ms' es' st' where s: "(if rw_byte st1 = 0 then next_block False sz dev st1 else Some (FILE_OK, st1)) = Some (FILE_OK, st')"
    "rw_ok dev i h n a ms' es' (q + c) st'" "grown dev i (rw_fs st1) ms es (rw_fs st') ms' es'"
    "rw_bytes dev es' st' = rw_bytes dev es st1"
    "rw_i st' = rw_i st1" "rw_byte st' = rw_byte st1" "rw_data st' = rw_data st1" "rw_done st' = rw_done st1"
    "rw_flag st' \<Longrightarrow> rw_flag st1"
    "st' = st1 \<and> es' = es \<or> rw_dptr st' = rw_view dev st' (rw_start st')"
    by (rule advance_ok [OF r1 c1, of False sz]) blast+
  have "rw_bytes dev es st1 = (rw_bytes dev es st)(pos + unat ?i := D ! unat ?i)"
    using rw_bytes_put(1) [OF w(1,2), of "D ! unat ?i"] w(3) by (simp add: s1 rw_bytes_def)
  also have "\<dots> = (\<lambda>x. if pos \<le> x \<and> x < pos + Suc (unat ?i) then D ! (x - pos) else B x)"
    unfolding w(5) by (auto simp: fun_eq_iff less_Suc_eq)
  finally have B: "rw_bytes dev es' st' = (\<lambda>x. if pos \<le> x \<and> x < pos + unat (rw_i st') then D ! (x - pos) else B x)"
    using s(4,5) i1 by (simp add: s1)
  have "512 * (q + c) + (unat ?b + 1) mod 512 = pos + Suc (unat ?i)"
    using w(3) mult_div_mod_eq [of 512 "unat ?b + 1"] by (simp add: c)
  moreover have "rw_flag st1" by (simp add: s1)
  then have "rw_flag st' \<or> rw_dptr st' = rw_view dev st' (rw_start st')" using s(10) by blast
  ultimately have "wr_inv dev i h n a pos D B ms' es' (q + c) st'"
    using s(2,5-8) B w(4) m(1) i1 by (simp add: wr_inv_def s1)
  moreover have "rw_step False sz dev st = Some (FILE_OK, st')" using s(1) unfolding rw_step_def Let_def st1_def .
  ultimately show thesis using s(3,5,6) i1 m(1) by (intro that [of st' ms' es' "q + c"]) (simp_all add: s1)
qed

lemma count_step: "(b + Suc m) div 512 = (b + 1) div 512 + ((b + 1) mod 512 + m) div (512 :: nat)"
proof -
  have "b + Suc m = 512 * ((b + 1) div 512) + ((b + 1) mod 512 + m)" using mult_div_mod_eq [of 512 "b + 1"] by simp
  then show ?thesis by (simp only: div_mult_self4 zero_neq_numeral not_False_eq_True)
qed

lemma write_loop_ok:
  assumes "wr_inv dev i h (n + block_cost (rw_fs st) i * ((unat (rw_byte st) + m) div 512)) (a + 2 * ((unat (rw_byte st) + m) div 512)) pos D B ms es q st"
    and "unat (rw_i st) + m \<le> length D" "length D < 2 ^ 32"
  shows "\<exists>ms' es' q' st'. rw_loop m False sz dev st = Some (FILE_OK, st') \<and> wr_inv dev i h n a pos D B ms' es' q' st' \<and>
    grown dev i (rw_fs st) ms es (rw_fs st') ms' es' \<and> unat (rw_i st') = unat (rw_i st) + m"
  using assms
proof (induction m arbitrary: st ms es q)
  case 0
  have "unat (rw_byte st) < 512" using 0(1) by (simp add: wr_inv_def)
  then have "wr_inv dev i h n a pos D B ms es q st" using 0(1) by simp
  then show ?case by (auto intro: grown_refl)
next
  case (Suc m)
  let ?K = "block_cost (rw_fs st) i" and ?c = "(unat (rw_byte st) + 1) div 512" and ?r = "((unat (rw_byte st) + 1) mod 512 + m) div 512"
  have inv: "wr_inv dev i h ((n + ?K * ?r) + ?K * ?c) ((a + 2 * ?r) + 2 * ?c) pos D B ms es q st"
    using Suc.prems(1) unfolding count_step by (simp add: algebra_simps)
  have i: "unat (rw_i st) < length D" using Suc.prems(2) by simp
  obtain ms1 es1 q1 st1 where s1: "rw_step False sz dev st = Some (FILE_OK, st1)" "wr_inv dev i h (n + ?K * ?r) (a + 2 * ?r) pos D B ms1 es1 q1 st1"
    "grown dev i (rw_fs st) ms es (rw_fs st1) ms1 es1" "unat (rw_i st1) = Suc (unat (rw_i st))"
    "unat (rw_byte st1) = (unat (rw_byte st) + 1) mod 512"
    by (rule write_step_ok [OF inv refl i Suc.prems(3), of sz]) blast
  have "wr_inv dev i h (n + block_cost (rw_fs st1) i * ((unat (rw_byte st1) + m) div 512)) (a + 2 * ((unat (rw_byte st1) + m) div 512)) pos D B ms1 es1 q1 st1"
    using s1(2) grown_cost [OF s1(3)] by (simp add: s1(5))
  moreover have "unat (rw_i st1) + m \<le> length D" using Suc.prems(2) s1(4) by simp
  ultimately obtain ms' es' q' st' where st': "rw_loop m False sz dev st1 = Some (FILE_OK, st')" "wr_inv dev i h n a pos D B ms' es' q' st'"
    "grown dev i (rw_fs st1) ms1 es1 (rw_fs st') ms' es'" "unat (rw_i st') = unat (rw_i st1) + m"
    using Suc.IH Suc.prems(3) by blast
  have "rw_loop (Suc m) False sz dev st = Some (FILE_OK, st')" "unat (rw_i st') = unat (rw_i st) + Suc m"
    using s1(1,4) st'(1,4) by simp_all
  then show ?case using st'(2) grown_trans [OF s1(3) st'(3)] by blast
qed

text \<open>
  Reading: the bytes returned so far; past \<open>size\<close> bytes the loop returns 0 and clears the
  block it is in, so only the bytes before that are known to stay.
\<close>

definition rd_inv :: "int \<Rightarrow> nat \<Rightarrow> u32 \<Rightarrow> nat \<Rightarrow> nat \<Rightarrow> nat \<Rightarrow> u64 \<Rightarrow> nat \<Rightarrow> (nat \<Rightarrow> u8) \<Rightarrow> u32 list \<Rightarrow> u32 list \<Rightarrow> nat \<Rightarrow> rwst \<Rightarrow> bool" where
  "rd_inv dev i h n a pos sz L B ms es q st \<longleftrightarrow> rw_ok dev i h n a ms es q st \<and> unat (rw_byte st) < 512 \<and>
     512 * q + unat (rw_byte st) = pos + unat (rw_i st) \<and> rw_done st = ucast (rw_i st) \<and> length (rw_data st) = L \<and>
     \<not> rw_flag st \<and> (sz \<le> rw_done st \<or> rw_dptr st = rw_view dev st (rw_start st)) \<and>
     (\<forall>j < unat (rw_i st). rw_data st ! j = (if j < unat sz then B (pos + j) else 0)) \<and>
     (\<forall>x < pos + unat sz. rw_bytes dev es st x = B x \<and> fbyte (rw_view dev st) es x = B x)"

lemma ucast_suc:
  assumes "unat (x :: u32) < n" "n < 2 ^ 32"
  shows "unat (ucast (x + 1) :: u64) = Suc (unat x)" "unat (ucast x :: u64) = unat x"
  using u32_suc [OF assms] assms by (simp_all add: unsigned_ucast_eq take_bit_nat_eq_self)

lemma read_byte:
  assumes "rd_inv dev i h n a pos sz L B ms es q st" "unat (rw_i st) < L" "L < 2 ^ 32"
  defines "st1 \<equiv> rw_byte_step True sz st"
  shows "rw_ok dev i h n a ms es q st1" "rw_fs st1 = rw_fs st" "rw_start st1 = rw_start st" "\<not> rw_flag st1"
    "rw_i st1 = rw_i st + 1" "rw_byte st1 = (rw_byte st + 1) mod 512" "rw_done st1 = ucast (rw_i st + 1)"
    "length (rw_data st1) = L" "\<forall>j < Suc (unat (rw_i st)). rw_data st1 ! j = (if j < unat sz then B (pos + j) else 0)"
    "\<forall>x < pos + unat sz. rw_bytes dev es st1 x = B x"
    "sz \<le> rw_done st1 \<or> rw_dptr st1 = rw_view dev st1 (rw_start st1)"
proof -
  let ?b = "rw_byte st" and ?i = "rw_i st"
  have w: "rw_ok dev i h n a ms es q st" "unat ?b < 512" "512 * q + unat ?b = pos + unat ?i" "rw_done st = ucast ?i"
    "length (rw_data st) = L" "\<not> rw_flag st" "sz \<le> rw_done st \<or> rw_dptr st = rw_view dev st (rw_start st)"
    "\<forall>j < unat ?i. rw_data st ! j = (if j < unat sz then B (pos + j) else 0)" "\<forall>x < pos + unat sz. rw_bytes dev es st x = B x"
    using assms(1) unfolding rd_inv_def by blast+
  note u = ucast_suc [OF assms(2,3)]
  define past where "past \<longleftrightarrow> sz \<le> rw_done st"
  have p: "past \<longleftrightarrow> unat sz \<le> unat ?i" by (simp add: past_def word_le_nat_alt w(4) u(2))
  have s1: "st1 = st\<lparr>rw_data := (rw_data st)[unat ?i := if past then 0 else rw_dptr st ! unat ?b],
      rw_dptr := (if past then (rw_dptr st)[unat ?b := 0] else rw_dptr st), rw_i := ?i + 1,
      rw_done := ucast (?i + 1), rw_byte := (?b + 1) mod 512\<rparr>"
    by (simp add: st1_def rw_byte_step_def Let_def past_def)
  show "rw_ok dev i h n a ms es q st1" using w(1) by (simp add: rw_ok_def s1)
  show "rw_fs st1 = rw_fs st" "rw_start st1 = rw_start st" "\<not> rw_flag st1" "rw_i st1 = ?i + 1"
    "rw_byte st1 = (?b + 1) mod 512" "rw_done st1 = ucast (?i + 1)" "length (rw_data st1) = L"
    using w(5,6) by (simp_all add: s1)
  note P = rw_bytes_put [OF w(1,2)]
  have "rw_dptr st ! unat ?b = B (pos + unat ?i)" if "\<not> past"
    using P(2) w(3,9) that p by simp
  then show "\<forall>j < Suc (unat ?i). rw_data st1 ! j = (if j < unat sz then B (pos + j) else 0)"
    using w(5,8) assms(2) p by (auto simp: s1 less_Suc_eq nth_list_update)
  have "rw_bytes dev es st1 = (if past then (rw_bytes dev es st)(pos + unat ?i := 0) else rw_bytes dev es st)"
    using P(1) [of 0] w(3) by (simp add: s1 rw_bytes_def)
  then show "\<forall>x < pos + unat sz. rw_bytes dev es st1 x = B x" using w(9) p by auto
  have "sz \<le> ucast (?i + 1)" if past using that p u(1) by (simp add: word_le_nat_alt)
  then show "sz \<le> rw_done st1 \<or> rw_dptr st1 = rw_view dev st1 (rw_start st1)" using w(7) past_def by (auto simp: s1)
qed

lemma read_step_ok:
  assumes inv: "rd_inv dev i h (n + block_cost (rw_fs st) i * c) (a + 2 * c) pos sz L B ms es q st"
    and c: "c = (unat (rw_byte st) + 1) div 512" and L: "unat (rw_i st) < L" "L < 2 ^ 32"
  obtains ms' es' q' st' where "rw_step True sz dev st = Some (FILE_OK, st')" "rd_inv dev i h n a pos sz L B ms' es' q' st'"
    "grown dev i (rw_fs st) ms es (rw_fs st') ms' es'" "unat (rw_i st') = Suc (unat (rw_i st))"
    "unat (rw_byte st') = (unat (rw_byte st) + 1) mod 512"
proof -
  have w: "unat (rw_byte st) < 512" "512 * q + unat (rw_byte st) = pos + unat (rw_i st)"
    "\<forall>x < pos + unat sz. fbyte (rw_view dev st) es x = B x" using inv by (simp_all add: rd_inv_def)
  note m = mod_512_step [OF w(1)] and i1 = u32_suc [OF L]
  define st1 where "st1 = rw_byte_step True sz st"
  note s1 = read_byte [OF inv L, folded st1_def]
  have r1: "rw_ok dev i h (n + block_cost (rw_fs st1) i * c) (a + 2 * c) ms es q st1" using s1(1,2) by simp
  have c1: "c = (if rw_byte st1 = 0 then 1 else 0)" using m(3) c s1(6) by simp
  obtain ms' es' st' where s: "(if rw_byte st1 = 0 then next_block True sz dev st1 else Some (FILE_OK, st1)) = Some (FILE_OK, st')"
    "rw_ok dev i h n a ms' es' (q + c) st'" "grown dev i (rw_fs st1) ms es (rw_fs st') ms' es'"
    "rw_bytes dev es' st' = rw_bytes dev es st1"
    "rw_i st' = rw_i st1" "rw_byte st' = rw_byte st1" "rw_data st' = rw_data st1" "rw_done st' = rw_done st1"
    "rw_flag st' \<Longrightarrow> rw_flag st1"
    "st' = st1 \<and> es' = es \<or> rw_dptr st' = rw_view dev st' (rw_start st')"
    by (rule advance_ok [OF r1 c1, of True sz]) (use s1(11) in blast)+
  have "\<forall>x < pos + unat sz. fbyte (rw_view dev st') es' x = B x"
    using s(10) w(3) s1(2,10) s(4) rw_bytes_clean [of st' dev es'] by auto
  moreover have "512 * (q + c) + (unat (rw_byte st) + 1) mod 512 = pos + Suc (unat (rw_i st))"
    using w(2) mult_div_mod_eq [of 512 "unat (rw_byte st) + 1"] by (simp add: c)
  moreover have "sz \<le> rw_done st' \<or> rw_dptr st' = rw_view dev st' (rw_start st')" using s(8,10) s1(11) by metis
  moreover have "\<not> rw_flag st'" using s(9) s1(4) by blast
  ultimately have "rd_inv dev i h n a pos sz L B ms' es' (q + c) st'"
    using s(2,4-8) s1(4-10) m(1) i1 by (simp add: rd_inv_def)
  moreover have "rw_step True sz dev st = Some (FILE_OK, st')" using s(1) unfolding rw_step_def Let_def st1_def .
  ultimately show thesis using s(3,5,6) s1(2,5,6) i1 m(1) by (intro that [of st' ms' es' "q + c"]) simp_all
qed

lemma read_loop_ok:
  assumes "rd_inv dev i h (n + block_cost (rw_fs st) i * ((unat (rw_byte st) + m) div 512)) (a + 2 * ((unat (rw_byte st) + m) div 512)) pos sz L B ms es q st"
    and "unat (rw_i st) + m \<le> L" "L < 2 ^ 32"
  shows "\<exists>ms' es' q' st'. rw_loop m True sz dev st = Some (FILE_OK, st') \<and> rd_inv dev i h n a pos sz L B ms' es' q' st' \<and>
    grown dev i (rw_fs st) ms es (rw_fs st') ms' es' \<and> unat (rw_i st') = unat (rw_i st) + m"
  using assms
proof (induction m arbitrary: st ms es q)
  case 0
  have "unat (rw_byte st) < 512" using 0(1) by (simp add: rd_inv_def)
  then have "rd_inv dev i h n a pos sz L B ms es q st" using 0(1) by simp
  then show ?case by (auto intro: grown_refl)
next
  case (Suc m)
  let ?K = "block_cost (rw_fs st) i" and ?c = "(unat (rw_byte st) + 1) div 512" and ?r = "((unat (rw_byte st) + 1) mod 512 + m) div 512"
  have inv: "rd_inv dev i h ((n + ?K * ?r) + ?K * ?c) ((a + 2 * ?r) + 2 * ?c) pos sz L B ms es q st"
    using Suc.prems(1) unfolding count_step by (simp add: algebra_simps)
  have i: "unat (rw_i st) < L" using Suc.prems(2) by simp
  obtain ms1 es1 q1 st1 where s1: "rw_step True sz dev st = Some (FILE_OK, st1)" "rd_inv dev i h (n + ?K * ?r) (a + 2 * ?r) pos sz L B ms1 es1 q1 st1"
    "grown dev i (rw_fs st) ms es (rw_fs st1) ms1 es1" "unat (rw_i st1) = Suc (unat (rw_i st))"
    "unat (rw_byte st1) = (unat (rw_byte st) + 1) mod 512"
    by (rule read_step_ok [OF inv refl i Suc.prems(3)]) blast
  have "rd_inv dev i h (n + block_cost (rw_fs st1) i * ((unat (rw_byte st1) + m) div 512)) (a + 2 * ((unat (rw_byte st1) + m) div 512)) pos sz L B ms1 es1 q1 st1"
    using s1(2) grown_cost [OF s1(3)] by (simp add: s1(5))
  moreover have "unat (rw_i st1) + m \<le> L" using Suc.prems(2) s1(4) by simp
  ultimately obtain ms' es' q' st' where st': "rw_loop m True sz dev st1 = Some (FILE_OK, st')" "rd_inv dev i h n a pos sz L B ms' es' q' st'"
    "grown dev i (rw_fs st1) ms1 es1 (rw_fs st') ms' es'" "unat (rw_i st') = unat (rw_i st1) + m"
    using Suc.IH Suc.prems(3) by blast
  have "rw_loop (Suc m) True sz dev st = Some (FILE_OK, st')" "unat (rw_i st') = unat (rw_i st) + Suc m"
    using s1(1,4) st'(1,4) by simp_all
  then show ?case using st'(2) grown_trans [OF s1(3) st'(3)] by blast
qed

section \<open>Finding the position\<close>

text \<open>
  An inode that was used before has in it where its position is: \<open>current\<close> is the data
  block, \<open>current_parent\<close> the map that lists it, \<open>iblock\<close> its place there.
\<close>

definition seated :: "inode \<Rightarrow> u32 list \<Rightarrow> u32 list \<Rightarrow> bool" where
  "seated fi ms es \<longleftrightarrow> (let q = unat (i_pos fi) div 512 in q < length es \<and> current fi = es ! q \<and> current fi \<noteq> INODE_NULL \<and>
     current_parent fi = ms ! (q div 127) \<and> iblock fi = of_nat (q mod 127))"

text \<open>
  The positions \<open>file_read_write\<close> finds: those in the first block for an inode not used yet;
  otherwise the stored one and any other within the blocks of the file that is not a
  multiple of the 127 * 512 bytes of a map, 0 apart.
\<close>

definition seekable :: "inode \<Rightarrow> u64 \<Rightarrow> u32 list \<Rightarrow> u32 list \<Rightarrow> bool" where
  "seekable fi pos ms es \<longleftrightarrow> unat pos div 512 < length es \<and>
     (if i_pos fi = 0 \<and> current fi = INODE_NULL then unat pos < 512
      else if i_pos fi = pos \<and> current fi \<noteq> INODE_NULL \<and> iblock fi \<noteq> INODE_NOPOS then seated fi ms es
      else pos = 0 \<or> unat pos mod 65024 \<noteq> 0)"

lemma u64_div_512: "unat pos < 2 ^ 32 \<Longrightarrow> ucast (pos div 512) = (of_nat (unat (pos :: u64) div 512) :: u32)"
  by (simp add: word_unat_eq_iff unsigned_ucast_eq unat_div take_bit_nat_eq_self unat_of_nat32)

lemma pos_block_unat:
  assumes "unat pos < 2 ^ 32"
  shows "unat (pos_block pos) = unat pos div 512 + (if unat pos mod 512 \<noteq> 0 \<or> pos = 0 then 1 else 0)"
proof -
  have "pos mod 512 = 0 \<longleftrightarrow> unat pos mod 512 = 0" by (simp add: word_unat_eq_iff unat_mod)
  moreover have "pos = 0 \<longleftrightarrow> unat pos = 0" by (simp add: word_unat_eq_iff)
  moreover have "unat (of_nat (unat pos div 512) :: u32) = unat pos div 512" using assms by (intro unat_of_nat32) simp
  moreover have "unat (of_nat (unat pos div 512) + 1 :: u32) = unat pos div 512 + 1"
    using assms by (subst u32_add_unat) (simp_all add: unat_of_nat32)
  ultimately show ?thesis unfolding pos_block_def u64_div_512 [OF assms] by auto
qed

lemma pos_iter_unat:
  assumes "unat pos < 2 ^ 32"
  shows "unat (pos_iter pos) = unat (pos_block pos) div 127 + (if unat (pos_block pos) mod 127 \<noteq> 0 then 1 else 0)"
proof -
  have "pos_block pos mod 127 = 0 \<longleftrightarrow> unat (pos_block pos) mod 127 = 0" by (simp add: word_unat_eq_iff unat_mod)
  moreover have "unat (pos_block pos div 127 + 1) = unat (pos_block pos) div 127 + 1"
  proof -
    have "unat (pos_block pos) div 127 + 1 < 2 ^ 32"
      using div_le_mono [OF less_imp_le [OF unat_lt_word32 [of "pos_block pos"]], of 127] by simp
    then show ?thesis by (subst u32_add_unat) (simp_all add: unat_div)
  qed
  ultimately show ?thesis by (simp add: pos_iter_def unat_div)
qed

text \<open>The number of maps to follow, away from the multiples of a map's size.\<close>

lemma pos_iter_ok:
  assumes "unat pos < 2 ^ 32" "pos = 0 \<or> unat pos mod 65024 \<noteq> 0"
  shows "unat (pos_iter pos) = unat pos div 512 div 127 + 1"
proof (cases "unat pos mod 512 \<noteq> 0 \<or> pos = 0")
  case True
  then have "unat (pos_block pos) = Suc (unat pos div 512)" using pos_block_unat [OF assms(1)] by simp
  then show ?thesis unfolding pos_iter_unat [OF assms(1)] by (simp add: div_Suc)
next
  case False
  then have "unat (pos_block pos) = unat pos div 512" using pos_block_unat [OF assms(1)] by simp
  moreover have "unat pos mod 65024 = 512 * (unat pos div 512 mod 127) + unat pos mod 512"
    using mod_mult2_eq [of "unat pos" 512 127] by simp
  then have "unat pos div 512 mod 127 \<noteq> 0" using False assms(2) by simp
  ultimately show ?thesis unfolding pos_iter_unat [OF assms(1)] by simp
qed

lemma pos_iblock_ok: "unat pos < 2 ^ 32 \<Longrightarrow> pos_iblock pos = of_nat (unat pos div 512 mod 127)"
  unfolding pos_iblock_def by (subst u64_div_512) (simp_all add: word_unat_eq_iff unat_mod unat_of_nat32)

lemma pos_byte_ok: "unat pos < 2 ^ 32 \<Longrightarrow> unat (pos_byte pos) = unat pos mod 512"
  by (simp add: pos_byte_def unat_mod unsigned_ucast_eq take_bit_nat_eq_self)

lemma scan_maps_ok:
  assumes "file_at s dev i (n + m) a h ms es" "k + m \<le> length ms" "0 < m \<Longrightarrow> bm_next bm = ms ! k"
    "m = 0 \<Longrightarrow> cur = ms ! (k - 1) \<and> bm = bmap_of ms es (k - 1)"
  shows "\<exists>s'. scan_maps m s dev cur bm = Some (FILE_OK, ms ! (k + m - 1), bmap_of ms es (k + m - 1), s') \<and>
    file_at s' dev i n a h ms es \<and> grown dev i s ms es s' ms es \<and> (\<forall>c. addr_ok dev c \<longrightarrow> view (fs_cache s') dev c = view (fs_cache s) dev c)"
  using assms
proof (induction m arbitrary: s k cur bm)
  case 0
  then show ?case by simp
next
  case (Suc m)
  have k: "k < length ms" "bm_next bm = ms ! k" using Suc.prems(2,3) by simp_all
  have f: "file_at s dev i (Suc (n + m)) a h ms es" using Suc.prems(1) by simp
  have a: "addr_ok dev (ms ! k)" using file_atD(5) [OF f] k(1) by simp
  obtain s1 where s1: "fs_read s dev (ms ! k) (bmap_image zero_bmap) = Some (FILE_OK, view (fs_cache s) dev (ms ! k), s1)"
    "file_at s1 dev i (n + m) a h ms es" "grown dev i s ms es s1 ms es"
    "\<And>c. addr_ok dev c \<Longrightarrow> view (fs_cache s1) dev c = view (fs_cache s) dev c"
    by (rule file_read_step [OF f a]) blast
  have b: "read_bmap (view (fs_cache s) dev (ms ! k)) = bmap_of ms es k" by (rule file_map [OF f k(1)])
  obtain s' where s': "scan_maps m s1 dev (ms ! k) (bmap_of ms es k) = Some (FILE_OK, ms ! (Suc k + m - 1), bmap_of ms es (Suc k + m - 1), s')"
    "file_at s' dev i n a h ms es" "grown dev i s1 ms es s' ms es"
    "\<forall>c. addr_ok dev c \<longrightarrow> view (fs_cache s') dev c = view (fs_cache s1) dev c"
    using Suc.IH [OF s1(2), of "Suc k" "bmap_of ms es k" "ms ! k"] Suc.prems(2) by auto
  have "scan_maps (Suc m) s dev cur bm = Some (FILE_OK, ms ! (k + Suc m - 1), bmap_of ms es (k + Suc m - 1), s')"
    using s1(1) s'(1) b k(2) by simp
  then show ?case using s'(2,4) s1(4) grown_trans [OF s1(3) s'(3)] by auto
qed

lemma seat_ok:
  assumes f: "file_at s dev i (n + Suc (unat pos div 512 div 127)) a (i_next fi) ms es" and sk: "seekable fi pos ms es" and p: "unat pos < 2 ^ 32"
  defines "q \<equiv> unat pos div 512"
  obtains s' where
    "find_seat s dev fi pos = Some (FILE_OK, fi, es ! q, ms ! (q div 127), of_nat (q mod 127), bmap_of ms es (q div 127), s')"
    "file_at s' dev i n a (i_next fi) ms es" "grown dev i s ms es s' ms es"
    "\<And>c. addr_ok dev c \<Longrightarrow> view (fs_cache s') dev c = view (fs_cache s) dev c"
proof -
  note result = that and d = file_atD [OF f]
  have q: "q < length es" "q div 127 < length ms" using sk map_index [OF d(2)] by (auto simp: seekable_def q_def)
  have h: "i_next fi \<noteq> INODE_NULL" "i_next fi = ms ! 0" using file_null [OF d(2), of "ms ! 0"] d(8,9) by simp_all
  have f1: "file_at s dev i (Suc n) a (i_next fi) ms es" by (rule file_at_mono [OF f]) simp_all
  have rd: thesis if m: "m = q div 127" and e: "\<And>buf s'. fs_read s dev (ms ! m) (bmap_image zero_bmap) = Some (FILE_OK, buf, s') \<Longrightarrow>
      read_bmap buf = bmap_of ms es m \<Longrightarrow>
      find_seat s dev fi pos = Some (FILE_OK, fi, es ! q, ms ! m, of_nat (q mod 127), bmap_of ms es m, s')" for m
  proof -
    have ad: "addr_ok dev (ms ! m)" using d(5) m q(2) by simp
    obtain s' where s': "fs_read s dev (ms ! m) (bmap_image zero_bmap) = Some (FILE_OK, view (fs_cache s) dev (ms ! m), s')"
      "file_at s' dev i n a (i_next fi) ms es" "grown dev i s ms es s' ms es"
      "\<And>c. addr_ok dev c \<Longrightarrow> view (fs_cache s') dev c = view (fs_cache s) dev c"
      by (rule file_read_step [OF f1 ad]) blast
    have "read_bmap (view (fs_cache s) dev (ms ! m)) = bmap_of ms es m" using file_map [OF f] m q(2) by simp
    then show thesis using result [of s'] e [OF s'(1)] s'(2-4) m by blast
  qed
  let ?st = "i_pos fi = pos \<and> current fi \<noteq> INODE_NULL \<and> iblock fi \<noteq> INODE_NOPOS"
  consider "i_pos fi = 0 \<and> current fi = INODE_NULL" | "\<not> (i_pos fi = 0 \<and> current fi = INODE_NULL)" ?st
    | "\<not> (i_pos fi = 0 \<and> current fi = INODE_NULL)" "\<not> ?st" by blast
  then show thesis
  proof cases
    case 1
    then have q0: "q = 0" using sk by (simp add: seekable_def q_def)
    have b0: "bm_blocks (bmap_of ms es 0) ! 0 = es ! 0" using q q0 by (simp add: bmap_of_def)
    show thesis
      by (rule rd [of 0]) (use 1 q0 h b0 in \<open>simp_all add: find_seat_def seat_first_def Let_def\<close>)
  next
    case 2
    then have st: "current fi = es ! q" "current fi \<noteq> INODE_NULL" "current_parent fi = ms ! (q div 127)" "iblock fi = of_nat (q mod 127)"
      using sk by (auto simp: seekable_def seated_def Let_def q_def)
    have "(of_nat (q mod 127) :: u32) \<noteq> 4294967295" by (simp add: word_unat_eq_iff)
    then show thesis
      using st 2 h by (intro rd [of "q div 127"]) (simp_all add: find_seat_def seat_stored_def Let_def)
  next
    case 3
    then have "pos = 0 \<or> unat pos mod 65024 \<noteq> 0" using sk unfolding seekable_def by argo
    then have it: "unat (pos_iter pos) = Suc (q div 127)" and ib: "pos_iblock pos = of_nat (q mod 127)"
      using pos_iter_ok [OF p] pos_iblock_ok [OF p] by (simp_all add: q_def)
    have fs: "file_at s dev i (n + Suc (q div 127)) a (i_next fi) ms es" using f by (simp add: q_def)
    obtain s' where s': "scan_maps (Suc (q div 127)) s dev 0 (zero_bmap\<lparr>bm_next := i_next fi\<rparr>) =
        Some (FILE_OK, ms ! (q div 127), bmap_of ms es (q div 127), s')"
      "file_at s' dev i n a (i_next fi) ms es" "grown dev i s ms es s' ms es"
      "\<forall>c. addr_ok dev c \<longrightarrow> view (fs_cache s') dev c = view (fs_cache s) dev c"
      using scan_maps_ok [OF fs, of 0 "zero_bmap\<lparr>bm_next := i_next fi\<rparr>" 0] q(2) h(2) by auto
    have "find_seat s dev fi pos = Some (FILE_OK, fi, es ! q, ms ! (q div 127), of_nat (q mod 127), bmap_of ms es (q div 127), s')"
      using 3 h(1) s'(1) it ib q(1) by (auto simp: find_seat_def seat_scan_def bmap_of_block simp del: scan_maps.simps)
    then show thesis using that s'(2-4) by blast
  qed
qed

text \<open>A file with no blocks gets one map and one data block; the data block is not cleared.\<close>

lemma seat_new_ok:
  assumes inv: "fio s dev i (n + (2 * get_cost s i + 4)) (Suc (Suc a))" and fi: "i_next fi = INODE_NULL" "inode_wf fi"
    and self: "outside s dev i (self fi)" "unat (self fi) < unat (data_start (master_tab s ! i))"
  obtains b e s' where "find_seat s dev fi pos = Some (FILE_OK, fi\<lparr>i_next := b\<rparr>, e, b, 0, bmap_of [b] [e] 0, s')"
    "file_at s' dev i n a b [b] [e]" "same_geom (master_tab s ! i) (master_tab s' ! i)"
    "blocks_used BMAP dev i s \<subseteq> blocks_used BMAP dev i s'" "{b, e} \<inter> blocks_used BMAP dev i s = {}"
    "\<And>c. outside s dev i c \<Longrightarrow> c \<notin> {b, e, self fi} \<Longrightarrow> view (fs_cache s') dev c = view (fs_cache s) dev c"
proof -
  have i1: "fio s dev i (Suc (Suc (Suc (Suc n + get_cost s i))) + get_cost s i) (Suc (Suc a))"
    by (rule fio_mono [OF inv]) simp_all
  obtain b s1 where s1: "\<And>x. inode_get_data_block s dev x = Some (INODE_OK, b, s1)" "fio s1 dev i (Suc (Suc (Suc (Suc n + get_cost s i)))) (Suc a)"
    "b \<notin> blocks_used BMAP dev i s" "insert b (blocks_used BMAP dev i s) \<subseteq> blocks_used BMAP dev i s1"
    "same_geom (master_tab s ! i) (master_tab s1 ! i)"
    "\<And>c. outside s dev i c \<Longrightarrow> view (fs_cache s1) dev c = view (fs_cache s) dev c"
    by (rule get_step [OF i1]) blast
  let ?fi = "fi\<lparr>i_next := b\<rparr>"
  have ln: "length (inode_image ?fi) = DEV_BLOCK_SIZE" "length (zeros 512) = DEV_BLOCK_SIZE" using fi(2) by (simp_all add: image_lengths inode_wf_def)
  have o1: "outside s1 dev i c = outside s dev i c" for c by (rule outside_geom [OF s1(5)])
  have so: "outside s1 dev i (self fi)" using self(1) o1 by blast
  obtain s2 where s2: "fs_write s1 dev (self fi) (inode_image ?fi) = Some (FILE_OK, s2)" "fio s2 dev i (Suc (Suc (Suc n + get_cost s i))) (Suc a)"
    "master_tab s2 = master_tab s1" "blocks_used BMAP dev i s2 = blocks_used BMAP dev i s1"
    "\<And>dev' c. addr_ok dev' c \<Longrightarrow> view (fs_cache s2) dev' c = (if dev' = dev \<and> c = self fi then inode_image ?fi else view (fs_cache s1) dev' c)"
    by (rule write_step [OF s1(2) so ln(1)]) blast
  have b2: "b \<in> blocks_used BMAP dev i s2" using s1(4) s2(4) by blast
  note bo = used_outside [OF s2(2) b2]
  obtain s3 where s3: "fs_write s2 dev b (zeros 512) = Some (FILE_OK, s3)" "fio s3 dev i (Suc (Suc n + get_cost s i)) (Suc a)"
    "master_tab s3 = master_tab s2" "blocks_used BMAP dev i s3 = blocks_used BMAP dev i s2"
    "\<And>dev' c. addr_ok dev' c \<Longrightarrow> view (fs_cache s3) dev' c = (if dev' = dev \<and> c = b then zeros 512 else view (fs_cache s2) dev' c)"
    by (rule write_step [OF s2(2) bo(1) ln(2)]) blast
  have ba: "addr_ok dev b" using bo(1) by (simp add: outside_def)
  obtain s4 where s4: "fs_read s3 dev b (bmap_image zero_bmap) = Some (FILE_OK, view (fs_cache s3) dev b, s4)"
    "fio s4 dev i (Suc n + get_cost s i) (Suc a)" "master_tab s4 = master_tab s3" "blocks_used BMAP dev i s4 = blocks_used BMAP dev i s3"
    "\<And>dev' c. addr_ok dev' c \<Longrightarrow> view (fs_cache s4) dev' c = view (fs_cache s3) dev' c"
    by (rule read_step [OF s3(2) ba]) blast
  have zb: "read_bmap (view (fs_cache s3) dev b) = zero_bmap" using s3(5) [OF ba] by (simp add: zero_bmap_def)
  have i4: "fio s4 dev i (Suc n + get_cost s4 i) (Suc a)" using s4(2,3) s3(3) s2(3) map_len_geom [OF s1(5), of BMAP] by simp
  obtain e s5 where s5: "\<And>x. inode_get_data_block s4 dev x = Some (INODE_OK, e, s5)" "fio s5 dev i (Suc n) a"
    "e \<notin> blocks_used BMAP dev i s4" "insert e (blocks_used BMAP dev i s4) \<subseteq> blocks_used BMAP dev i s5"
    "same_geom (master_tab s4 ! i) (master_tab s5 ! i)"
    "\<And>c. outside s4 dev i c \<Longrightarrow> view (fs_cache s5) dev c = view (fs_cache s4) dev c"
    by (rule get_step [OF i4]) blast
  have bm: "zero_bmap\<lparr>bm_blocks := (bm_blocks zero_bmap)[0 := e]\<rparr> = bmap_of [b] [e] 0"
    by (auto simp: zero_bmap_eq bmap_of_def nth_list_update intro!: nth_equalityI)
  have b5: "b \<in> blocks_used BMAP dev i s5" using b2 s3(4) s4(4) s5(4) by blast
  have lm: "length (bmap_image (bmap_of [b] [e] 0)) = DEV_BLOCK_SIZE" by (simp add: image_lengths)
  obtain s6 where s6: "fs_write s5 dev b (bmap_image (bmap_of [b] [e] 0)) = Some (FILE_OK, s6)" "fio s6 dev i n a"
    "master_tab s6 = master_tab s5" "blocks_used BMAP dev i s6 = blocks_used BMAP dev i s5"
    "\<And>dev' c. addr_ok dev' c \<Longrightarrow> view (fs_cache s6) dev' c = (if dev' = dev \<and> c = b then bmap_image (bmap_of [b] [e] 0) else view (fs_cache s5) dev' c)"
    by (rule write_step [OF s5(2) used_outside(1) [OF s5(2) b5] lm]) blast
  have seat: "find_seat s dev fi pos = Some (FILE_OK, ?fi, e, b, 0, bmap_of [b] [e] 0, s6)"
    using s1(1) s2(1) s3(1) s4(1) s5(1) s6(1) zb bm fi(1) by (simp add: find_seat_def seat_new_def Let_def)
  have eb: "e \<noteq> b" "e \<noteq> 0" using s5(3,4) b2 s3(4) s4(4) used_outside(3) [OF s5(2), of e] by auto
  have "read_bmap (view (fs_cache s6) dev b) = bmap_of [b] [e] 0" using s6(5) [OF ba] by (simp add: read_bmap_image)
  then have "file_ok (view (fs_cache s6) dev) b [b] [e]" using eb bo(3) by (simp add: file_ok_def)
  then have "file_at s6 dev i n a b [b] [e]" using s6(2,4) b5 s5(4) by (simp add: file_at_def)
  moreover have "same_geom (master_tab s ! i) (master_tab s6 ! i)"
    using same_geom_trans [OF s1(5), of "master_tab s5 ! i"] s5(5) s2(3) s3(3) s4(3) s6(3) by simp
  moreover have "blocks_used BMAP dev i s \<subseteq> blocks_used BMAP dev i s6" "{b, e} \<inter> blocks_used BMAP dev i s = {}"
    using s1(3,4) s2(4) s3(4) s4(4) s5(3,4) s6(4) by blast+
  moreover have "view (fs_cache s6) dev c = view (fs_cache s) dev c" if c: "outside s dev i c" "c \<notin> {b, e, self fi}" for c
  proof -
    have ad: "addr_ok dev c" using c(1) by (simp add: outside_def)
    have o4: "outside s4 dev i c" using c(1) o1 [of c] s2(3) s3(3) s4(3) by (simp add: outside_def)
    show ?thesis using s6(5) [OF ad] s5(6) [OF o4] s4(5) [OF ad] s3(5) [OF ad] s2(5) [OF ad] s1(6) [OF c(1)] c(2) by simp
  qed
  ultimately show thesis using that seat by blast
qed

section \<open>The whole transfer\<close>

text \<open>The inode \<open>fi\<close> of a file, held in memory; its own block lies before the data region.\<close>

definition inode_at :: "fsys \<Rightarrow> int \<Rightarrow> nat \<Rightarrow> inode \<Rightarrow> bool" where
  "inode_at s dev i fi \<longleftrightarrow> sint (i_dev fi) = dev \<and> inode_wf fi \<and> outside s dev i (self fi) \<and>
     unat (self fi) < unat (data_start (master_tab s ! i))"

definition held :: "fsys \<Rightarrow> int \<Rightarrow> nat \<Rightarrow> nat \<Rightarrow> nat \<Rightarrow> inode \<Rightarrow> u32 list \<Rightarrow> u32 list \<Rightarrow> bool" where
  "held s dev i n a fi ms es \<longleftrightarrow> inode_at s dev i fi \<and> file_at s dev i n a (i_next fi) ms es"

text \<open>The inode after a transfer that ends at \<open>e\<close>.\<close>

definition moved_to :: "inode \<Rightarrow> u64 \<Rightarrow> u32 list \<Rightarrow> u32 list \<Rightarrow> inode \<Rightarrow> bool" where
  "moved_to fi e ms es fi' \<longleftrightarrow> seated fi' ms es \<and>
     fi' = fi\<lparr>i_next := i_next fi', i_pos := e, i_size := max (i_size fi) e,
              current := current fi', current_parent := current_parent fi', iblock := iblock fi'\<rparr>"

text \<open>New blocks of the file were free, and nothing but its blocks and its inode is written.\<close>

definition only_touched :: "int \<Rightarrow> nat \<Rightarrow> fsys \<Rightarrow> inode \<Rightarrow> u32 list \<Rightarrow> u32 list \<Rightarrow> fsys \<Rightarrow> u32 list \<Rightarrow> u32 list \<Rightarrow> bool" where
  "only_touched dev i s fi ms es s' ms' es' \<longleftrightarrow>
     same_geom (master_tab s ! i) (master_tab s' ! i) \<and> prefix ms ms' \<and> prefix es es' \<and>
     blocks_used BMAP dev i s \<subseteq> blocks_used BMAP dev i s' \<and>
     (set (ms' @ es') - set (ms @ es)) \<inter> blocks_used BMAP dev i s = {} \<and>
     (\<forall>c. outside s dev i c \<longrightarrow> c \<noteq> self fi \<longrightarrow> c \<notin> set (ms' @ es') \<longrightarrow> view (fs_cache s') dev c = view (fs_cache s) dev c)"

lemma grown_touched: "grown dev i s ms es s' ms' es' \<Longrightarrow> only_touched dev i s fi ms es s' ms' es'"
  by (auto simp: grown_def only_touched_def)

lemma touched_trans:
  assumes "only_touched dev i s fi ms es s1 ms1 es1" "only_touched dev i s1 fi ms1 es1 s2 ms2 es2"
  shows "only_touched dev i s fi ms es s2 ms2 es2"
proof -
  note a = assms [unfolded only_touched_def]
  have g: "same_geom (master_tab s ! i) (master_tab s2 ! i)" using a same_geom_trans by blast
  have sub: "set (ms1 @ es1) \<subseteq> set (ms2 @ es2)"
    using a(2) set_mono_prefix [of ms1 ms2] set_mono_prefix [of es1 es2] by auto
  have o: "outside s1 dev i c = outside s dev i c" for c using a(1) outside_geom by blast
  have "view (fs_cache s2) dev c = view (fs_cache s) dev c" if h: "outside s dev i c" "c \<noteq> self fi" "c \<notin> set (ms2 @ es2)" for c
  proof -
    have "view (fs_cache s2) dev c = view (fs_cache s1) dev c" using a(2) h o by blast
    also have "\<dots> = view (fs_cache s) dev c" using a(1) h sub by blast
    finally show ?thesis .
  qed
  moreover have "(set (ms2 @ es2) - set (ms @ es)) \<inter> blocks_used BMAP dev i s = {}" using a by blast
  ultimately show ?thesis unfolding only_touched_def using a g prefix_order.order_trans by blast
qed

lemma inode_at_geom: "same_geom (master_tab s ! i) (master_tab s' ! i) \<Longrightarrow> inode_at s dev i fi \<Longrightarrow> inode_at s' dev i fi"
  using same_geom_fields(3) [of "master_tab s ! i" "master_tab s' ! i" BMAP] by (simp add: inode_at_def outside_geom)

lemma self_fresh:
  assumes "inode_at s dev i fi" "fio s dev i n a" shows "self fi \<notin> blocks_used BMAP dev i s"
  using assms used_outside(2) [OF assms(2), of "self fi"] by (auto simp: inode_at_def)

text \<open>Writing the inode into its block.\<close>

lemma write_inode_step:
  assumes "inode_at s dev i fi" "file_at s dev i (Suc n) a h ms es" "inode_wf fi'" "self fi' = self fi"
  obtains s' where "fs_write s dev (self fi) (inode_image fi') = Some (FILE_OK, s')" "file_at s' dev i n a h ms es"
    "only_touched dev i s fi ms es s' ms es" "view (fs_cache s') dev (self fi) = inode_image fi'"
    "fbyte (view (fs_cache s') dev) es = fbyte (view (fs_cache s) dev) es"
proof -
  note f = file_atD [OF assms(2)]
  have so: "outside s dev i (self fi)" using assms(1) by (simp add: inode_at_def)
  have ln: "length (inode_image fi') = DEV_BLOCK_SIZE" using assms(3) by (simp add: image_lengths)
  obtain s' where s': "fs_write s dev (self fi) (inode_image fi') = Some (FILE_OK, s')" "fio s' dev i n a"
    "master_tab s' = master_tab s" "blocks_used BMAP dev i s' = blocks_used BMAP dev i s"
    "\<And>dev' c. addr_ok dev' c \<Longrightarrow> view (fs_cache s') dev' c = (if dev' = dev \<and> c = self fi then inode_image fi' else view (fs_cache s) dev' c)"
    by (rule write_step [OF f(1) so ln]) blast
  have v: "view (fs_cache s') dev b = view (fs_cache s) dev b" if "b \<in> set (ms @ es)" for b
    using s'(5) [OF f(5) [OF that]] self_fresh [OF assms(1) f(1)] f(3) that by auto
  have "file_at s' dev i n a h ms es" using s'(2,4) f(3) file_ok_frame [OF f(2)] v by (simp add: file_at_def)
  moreover have "only_touched dev i s fi ms es s' ms es"
    using s'(3-5) by (auto simp: only_touched_def same_geom_def outside_def)
  moreover have "view (fs_cache s') dev (self fi) = inode_image fi'" using s'(5) [of dev "self fi"] so by (simp add: outside_def)
  moreover have "fbyte (view (fs_cache s') dev) es = fbyte (view (fs_cache s) dev) es" using v by (intro fbyte_frame) simp
  ultimately show thesis using that s'(1) by blast
qed

text \<open>The end of the function.\<close>

lemma finish_ok:
  assumes st: "rw_ok dev i h (Suc (Suc n)) a ms es q st" and fi: "inode_at (rw_fs st) dev i fi"
    and q: "q = unat (pos + rw_done st) div 512"
  obtains fi' s' where "rw_finish dev fi pos st = Some (FILE_OK, fi', rw_data st, rw_done st, s')"
    "file_at s' dev i n a h ms es" "moved_to fi (pos + rw_done st) ms es fi'" "i_next fi' = i_next fi"
    "only_touched dev i (rw_fs st) fi ms es s' ms es" "view (fs_cache s') dev (self fi) = inode_image fi'"
    "fbyte (view (fs_cache s') dev) es = (if rw_flag st then rw_bytes dev es st else fbyte (rw_view dev st) es)"
proof -
  have f: "file_at (rw_fs st) dev i (Suc (Suc n)) a h ms es" and b: "rw_start st \<in> set es" "length (rw_dptr st) = 512" and ql: "q < length es"
    and s: "rw_start st = es ! q" "rw_current st = ms ! (q div 127)" "rw_iblock st = of_nat (q mod 127)"
    using st by (simp_all add: rw_ok_def)
  obtain s1 where s1: "(if rw_flag st then fs_write (rw_fs st) dev (rw_start st) (rw_dptr st) else Some (FILE_OK, rw_fs st)) = Some (FILE_OK, s1)"
    "file_at s1 dev i (Suc n) a h ms es" "grown dev i (rw_fs st) ms es s1 ms es"
    "fbyte (view (fs_cache s1) dev) es = (if rw_flag st then rw_bytes dev es st else fbyte (rw_view dev st) es)"
  proof (cases "rw_flag st")
    case True
    obtain s' where s': "fs_write (rw_fs st) dev (rw_start st) (rw_dptr st) = Some (FILE_OK, s')" "file_at s' dev i (Suc n) a h ms es"
      "grown dev i (rw_fs st) ms es s' ms es"
      "\<And>c. addr_ok dev c \<Longrightarrow> view (fs_cache s') dev c = ((rw_view dev st)(rw_start st := rw_dptr st)) c"
      by (rule file_write_step [OF f b]) blast
    have "fbyte (view (fs_cache s') dev) es = rw_bytes dev es st"
      unfolding rw_bytes_def using s'(4) file_atD(5) [OF f] by (intro fbyte_frame) simp
    then show thesis using that [of s'] s'(1-3) True by simp
  next
    case False
    then show thesis using that [of "rw_fs st"] file_at_mono [OF f] by simp
  qed
  let ?e = "pos + rw_done st"
  define fi' where "fi' = fi\<lparr>i_pos := ?e, i_size := (if i_size fi < ?e then ?e else i_size fi),
      current := rw_start st, current_parent := rw_current st, iblock := rw_iblock st\<rparr>"
  have "same_geom (master_tab (rw_fs st) ! i) (master_tab s1 ! i)" using s1(3) by (simp add: grown_def)
  then have fi1: "inode_at s1 dev i fi" using inode_at_geom fi by blast
  have wf: "inode_wf fi'" "self fi' = self fi" "i_next fi' = i_next fi" using fi by (simp_all add: fi'_def inode_at_def inode_wf_def)
  obtain s2 where s2: "fs_write s1 dev (self fi) (inode_image fi') = Some (FILE_OK, s2)" "file_at s2 dev i n a h ms es"
    "only_touched dev i s1 fi ms es s2 ms es" "view (fs_cache s2) dev (self fi) = inode_image fi'"
    "fbyte (view (fs_cache s2) dev) es = fbyte (view (fs_cache s1) dev) es"
    by (rule write_inode_step [OF fi1 s1(2) wf(1,2)]) blast
  have "rw_finish dev fi pos st = Some (FILE_OK, fi', rw_data st, rw_done st, s2)"
    unfolding rw_finish_def s1(1) Let_def using s2(1) wf(2) by (simp flip: fi'_def)
  moreover have "seated fi' ms es"
    using ql s b(1) file_null [OF file_atD(2) [OF f], of "rw_start st"] q by (simp add: seated_def Let_def fi'_def)
  moreover have "(if i_size fi < ?e then ?e else i_size fi) = max (i_size fi) ?e" by (auto simp: max_def)
  ultimately have "rw_finish dev fi pos st = Some (FILE_OK, fi', rw_data st, rw_done st, s2)" "moved_to fi ?e ms es fi'"
    by (simp_all add: moved_to_def) (simp add: fi'_def)
  moreover have "only_touched dev i (rw_fs st) fi ms es s2 ms es" using touched_trans [OF grown_touched [OF s1(3)] s2(3)] .
  ultimately show thesis using that [of fi' s2] s2(2,4,5) s1(4) wf(3) by simp
qed

text \<open>The number of block boundaries a transfer crosses, and the block operations it may need.\<close>

definition rw_blocks :: "u64 \<Rightarrow> u64 \<Rightarrow> nat" where
  "rw_blocks pos len = (unat pos mod 512 + unat len) div 512"

definition rw_cost :: "fsys \<Rightarrow> nat \<Rightarrow> u64 \<Rightarrow> u64 \<Rightarrow> nat" where
  "rw_cost s i pos len = block_cost s i * rw_blocks pos len + 3"

lemma moved_inode_at:
  assumes "moved_to fi e ms es fi'" "inode_at s dev i fi"
  shows "inode_at s dev i fi'"
proof -
  have "inode_at s dev i (fi\<lparr>i_next := x1, i_pos := x2, i_size := x3, current := x4, current_parent := x5, iblock := x6\<rparr>)"
    for x1 x2 x3 x4 x5 x6 using assms(2) by (simp add: inode_at_def inode_wf_def)
  then show ?thesis using assms(1) unfolding moved_to_def by metis
qed

text \<open>The first block is in memory.\<close>

lemma begin_ok:
  assumes f: "file_at s dev i (Suc n) a h ms es" and q: "q < length es" "q = unat pos div 512" and p: "unat pos < 2 ^ 32"
  obtains st where "fs_read s dev (es ! q) (zeros DEV_BLOCK_SIZE) = Some (FILE_OK, rw_dptr st, rw_fs st)"
    "st = \<lparr>rw_i = 0, rw_byte = pos_byte pos, rw_iblock = of_nat (q mod 127), rw_start = es ! q, rw_current = ms ! (q div 127),
       rw_bmap = bmap_of ms es (q div 127), rw_dptr = rw_dptr st, rw_data = data, rw_flag = False, rw_done = 0, rw_fs = rw_fs st\<rparr>"
    "rw_ok dev i h n a ms es q st" "unat (rw_byte st) = unat pos mod 512" "rw_dptr st = rw_view dev st (rw_start st)"
    "grown dev i s ms es (rw_fs st) ms es" "rw_bytes dev es st = fbyte (view (fs_cache s) dev) es"
    "fbyte (rw_view dev st) es = fbyte (view (fs_cache s) dev) es"
proof -
  have e: "es ! q \<in> set (ms @ es)" using q(1) by simp
  obtain s' where s': "fs_read s dev (es ! q) (zeros DEV_BLOCK_SIZE) = Some (FILE_OK, view (fs_cache s) dev (es ! q), s')" "file_at s' dev i n a h ms es"
    "grown dev i s ms es s' ms es" "\<And>c. addr_ok dev c \<Longrightarrow> view (fs_cache s') dev c = view (fs_cache s) dev c"
    by (rule file_read_step [OF f file_atD(5) [OF f e]]) blast
  have v: "view (fs_cache s') dev c = view (fs_cache s) dev c" if "c \<in> set (ms @ es)" for c using s'(4) file_atD(5) [OF f] that by blast
  define st where "st = \<lparr>rw_i = 0, rw_byte = pos_byte pos, rw_iblock = of_nat (q mod 127), rw_start = es ! q, rw_current = ms ! (q div 127),
       rw_bmap = bmap_of ms es (q div 127), rw_dptr = view (fs_cache s) dev (es ! q), rw_data = data, rw_flag = False, rw_done = 0, rw_fs = s'\<rparr>"
  have cl: "rw_dptr st = rw_view dev st (rw_start st)" using v [OF e] by (simp add: st_def)
  have F: "fbyte (rw_view dev st) es = fbyte (view (fs_cache s) dev) es" using v by (intro fbyte_frame) (simp add: st_def)
  have "length (view (fs_cache s) dev (es ! q)) = 512" using file_atD(6) [OF f] length_view by (simp add: cache_inv_def)
  then have "rw_ok dev i h n a ms es q st" using s'(2) q(1) by (simp add: rw_ok_def st_def)
  then show thesis
    using s'(1,3) pos_byte_ok [OF p] cl F rw_bytes_clean [OF cl, of es] by (intro that [of st]) (simp_all add: st_def)
qed

text \<open>The state the loop ends in: the whole length is processed.\<close>

lemma loop_end:
  assumes "unat (rw_i st) = unat len" "rw_done st = ucast (rw_i st)" "unat pos + unat len < 2 ^ 32"
    "512 * q + unat (rw_byte st) = unat pos + unat (rw_i st)" "unat (rw_byte st) < 512"
  shows "rw_done st = len" "q = unat (pos + rw_done st) div 512" "unat (pos + len) = unat pos + unat len"
proof -
  have "unat (ucast (rw_i st) :: u64) = unat (rw_i st)" by (simp add: unsigned_ucast_eq take_bit_nat_eq_self order_less_trans [OF unat_lt_word32])
  then show 1: "rw_done st = len" using assms(1,2) by (simp add: word_unat_eq_iff)
  show 2: "unat (pos + len) = unat pos + unat len" using assms(3) by (simp add: unat_word_ariths)
  have "unat pos + unat len = 512 * q + unat (rw_byte st)" using assms(1,4) by simp
  then show "q = unat (pos + rw_done st) div 512" unfolding 1 2 using assms(5) by simp
qed

lemma write_body:
  assumes seat: "find_seat s dev fi pos = Some (FILE_OK, fi1, es ! q, ms ! (q div 127), of_nat (q mod 127), bmap_of ms es (q div 127), s1)"
    and f: "file_at s1 dev i (n + rw_cost s1 i pos len) (a + 2 * rw_blocks pos len) (i_next fi1) ms es"
    and q: "q = unat pos div 512" "q < length es" and fi1: "inode_at s1 dev i fi1" and dev: "sint (i_dev fi) = dev"
    and len: "len \<noteq> 0" "unat pos + unat len < 2 ^ 32" "length data = unat len"
  shows "\<exists>fi' ms' es' s'. file_read_write s fi pos len data False bp = Some (FILE_OK, fi', data, len, s') \<and>
    held s' dev i n a fi' ms' es' \<and> moved_to fi1 (pos + len) ms' es' fi' \<and> only_touched dev i s1 fi1 ms es s' ms' es' \<and>
    view (fs_cache s') dev (self fi1) = inode_image fi' \<and>
    fbyte (view (fs_cache s') dev) es' = (\<lambda>x. if unat pos \<le> x \<and> x < unat pos + unat len then data ! (x - unat pos)
      else fbyte (view (fs_cache s1) dev) es x)"
proof -
  let ?c = "rw_blocks pos len" and ?B = "fbyte (view (fs_cache s1) dev) es"
  have p: "unat pos < 2 ^ 32" using len(2) by simp
  have f1: "file_at s1 dev i (Suc (Suc (Suc n) + block_cost s1 i * ?c)) (a + 2 * ?c) (i_next fi1) ms es"
    by (rule file_at_mono [OF f]) (simp_all add: rw_cost_def)
  obtain st where st: "fs_read s1 dev (es ! q) (zeros DEV_BLOCK_SIZE) = Some (FILE_OK, rw_dptr st, rw_fs st)"
    "st = \<lparr>rw_i = 0, rw_byte = pos_byte pos, rw_iblock = of_nat (q mod 127), rw_start = es ! q, rw_current = ms ! (q div 127),
       rw_bmap = bmap_of ms es (q div 127), rw_dptr = rw_dptr st, rw_data = data, rw_flag = False, rw_done = 0, rw_fs = rw_fs st\<rparr>"
    "rw_ok dev i (i_next fi1) (Suc (Suc n) + block_cost s1 i * ?c) (a + 2 * ?c) ms es q st" "unat (rw_byte st) = unat pos mod 512"
    "rw_dptr st = rw_view dev st (rw_start st)" "grown dev i s1 ms es (rw_fs st) ms es" "rw_bytes dev es st = ?B"
    "fbyte (rw_view dev st) es = ?B"
    by (rule begin_ok [OF f1 q(2,1) p, of data]) blast
  have z: "rw_i st = 0" "rw_done st = 0" "rw_data st = data" "\<not> rw_flag st" by (subst st(2); simp)+
  have b: "unat (rw_byte st) < 512" "512 * q + unat (rw_byte st) = unat pos" using st(4) q(1) by simp_all
  have inv: "wr_inv dev i (i_next fi1) (Suc (Suc n) + block_cost (rw_fs st) i * ((unat (rw_byte st) + unat len) div 512))
      (a + 2 * ((unat (rw_byte st) + unat len) div 512)) (unat pos) data ?B ms es q st"
    using st(3,5,7) z b grown_cost [OF st(6)] by (auto simp: wr_inv_def rw_blocks_def st(4) fun_eq_iff)
  have i0: "unat (rw_i st) + unat len \<le> length data" "length data < 2 ^ 32" using z len by simp_all
  obtain ms' es' q' st' where s': "rw_loop (unat len) False (i_size fi1) dev st = Some (FILE_OK, st')"
    "wr_inv dev i (i_next fi1) (Suc (Suc n)) a (unat pos) data ?B ms' es' q' st'"
    "grown dev i (rw_fs st) ms es (rw_fs st') ms' es'" "unat (rw_i st') = unat (rw_i st) + unat len"
    using write_loop_ok [OF inv i0] by blast
  have w: "rw_ok dev i (i_next fi1) (Suc (Suc n)) a ms' es' q' st'" "rw_data st' = data"
    "rw_flag st' \<or> rw_dptr st' = rw_view dev st' (rw_start st')"
    "rw_bytes dev es' st' = (\<lambda>x. if unat pos \<le> x \<and> x < unat pos + unat len then data ! (x - unat pos) else ?B x)"
    using s'(2,4) z(1) by (simp_all add: wr_inv_def)
  have E: "rw_done st' = len" "q' = unat (pos + rw_done st') div 512" "unat (pos + len) = unat pos + unat len"
    by (rule loop_end [of st' len pos q']; use s'(2,4) z(1) len(2) in \<open>simp add: wr_inv_def\<close>)+
  note g = grown_trans [OF st(6) s'(3)]
  have fi2: "inode_at (rw_fs st') dev i fi1" using inode_at_geom fi1 g unfolding grown_def by blast
  obtain fi' s2 where s2: "rw_finish dev fi1 pos st' = Some (FILE_OK, fi', rw_data st', rw_done st', s2)"
    "file_at s2 dev i n a (i_next fi1) ms' es'" "moved_to fi1 (pos + rw_done st') ms' es' fi'" "i_next fi' = i_next fi1"
    "only_touched dev i (rw_fs st') fi1 ms' es' s2 ms' es'" "view (fs_cache s2) dev (self fi1) = inode_image fi'"
    "fbyte (view (fs_cache s2) dev) es' = (if rw_flag st' then rw_bytes dev es' st' else fbyte (rw_view dev st') es')"
    by (rule finish_ok [OF w(1) fi2 E(2)]) blast
  have t: "only_touched dev i s1 fi1 ms es s2 ms' es'" by (rule touched_trans [OF grown_touched [OF g] s2(5)])
  have "inode_at s2 dev i fi1" using inode_at_geom fi1 t unfolding only_touched_def by blast
  then have "inode_at s2 dev i fi'" by (rule moved_inode_at [OF s2(3)])
  then have "held s2 dev i n a fi' ms' es'" using s2(2,4) by (simp add: held_def)
  moreover have "file_read_write s fi pos len data False bp = Some (FILE_OK, fi', data, len, s2)"
    using len(1) seat st(1) s'(1) s2(1) w(2) E(1) unfolding file_read_write_def dev
    by (simp add: Let_def flip: st(2))
  moreover have "fbyte (view (fs_cache s2) dev) es' = rw_bytes dev es' st'" using s2(7) w(3) rw_bytes_clean [of st' dev es'] by auto
  ultimately show ?thesis
    using s2(3,6) t w(4) E(1) by (intro exI [of _ fi'] exI [of _ ms'] exI [of _ es'] exI [of _ s2]) simp
qed

lemma read_body:
  assumes seat: "find_seat s dev fi pos = Some (FILE_OK, fi1, es ! q, ms ! (q div 127), of_nat (q mod 127), bmap_of ms es (q div 127), s1)"
    and f: "file_at s1 dev i (n + rw_cost s1 i pos len) (a + 2 * rw_blocks pos len) (i_next fi1) ms es"
    and q: "q = unat pos div 512" "q < length es" and fi1: "inode_at s1 dev i fi1" and dev: "sint (i_dev fi) = dev"
    and len: "len \<noteq> 0" "unat pos + unat len < 2 ^ 32" "length data = unat len"
  shows "\<exists>fi' ms' es' s' d. file_read_write s fi pos len data True bp = Some (FILE_OK, fi', d, len, s') \<and>
    held s' dev i n a fi' ms' es' \<and> moved_to fi1 (pos + len) ms' es' fi' \<and> only_touched dev i s1 fi1 ms es s' ms' es' \<and>
    view (fs_cache s') dev (self fi1) = inode_image fi' \<and>
    d = map (\<lambda>j. if j < unat (i_size fi1) then fbyte (view (fs_cache s1) dev) es (unat pos + j) else 0) [0..<unat len] \<and>
    (\<forall>x < unat pos + unat (i_size fi1). fbyte (view (fs_cache s') dev) es' x = fbyte (view (fs_cache s1) dev) es x)"
proof -
  let ?c = "rw_blocks pos len" and ?B = "fbyte (view (fs_cache s1) dev) es" and ?sz = "i_size fi1"
  have p: "unat pos < 2 ^ 32" using len(2) by simp
  have f1: "file_at s1 dev i (Suc (Suc (Suc n) + block_cost s1 i * ?c)) (a + 2 * ?c) (i_next fi1) ms es"
    by (rule file_at_mono [OF f]) (simp_all add: rw_cost_def)
  obtain st where st: "fs_read s1 dev (es ! q) (zeros DEV_BLOCK_SIZE) = Some (FILE_OK, rw_dptr st, rw_fs st)"
    "st = \<lparr>rw_i = 0, rw_byte = pos_byte pos, rw_iblock = of_nat (q mod 127), rw_start = es ! q, rw_current = ms ! (q div 127),
       rw_bmap = bmap_of ms es (q div 127), rw_dptr = rw_dptr st, rw_data = data, rw_flag = False, rw_done = 0, rw_fs = rw_fs st\<rparr>"
    "rw_ok dev i (i_next fi1) (Suc (Suc n) + block_cost s1 i * ?c) (a + 2 * ?c) ms es q st" "unat (rw_byte st) = unat pos mod 512"
    "rw_dptr st = rw_view dev st (rw_start st)" "grown dev i s1 ms es (rw_fs st) ms es" "rw_bytes dev es st = ?B"
    "fbyte (rw_view dev st) es = ?B"
    by (rule begin_ok [OF f1 q(2,1) p, of data]) blast
  have z: "rw_i st = 0" "rw_done st = 0" "rw_data st = data" "\<not> rw_flag st" by (subst st(2); simp)+
  have b: "unat (rw_byte st) < 512" "512 * q + unat (rw_byte st) = unat pos" using st(4) q(1) by simp_all
  have inv: "rd_inv dev i (i_next fi1) (Suc (Suc n) + block_cost (rw_fs st) i * ((unat (rw_byte st) + unat len) div 512))
      (a + 2 * ((unat (rw_byte st) + unat len) div 512)) (unat pos) ?sz (unat len) ?B ms es q st"
    using st(3,5,7,8) z b len(3) grown_cost [OF st(6)] by (simp add: rd_inv_def rw_blocks_def st(4))
  have i0: "unat (rw_i st) + unat len \<le> unat len" "unat len < 2 ^ 32" using z len by simp_all
  obtain ms' es' q' st' where s': "rw_loop (unat len) True ?sz dev st = Some (FILE_OK, st')"
    "rd_inv dev i (i_next fi1) (Suc (Suc n)) a (unat pos) ?sz (unat len) ?B ms' es' q' st'"
    "grown dev i (rw_fs st) ms es (rw_fs st') ms' es'" "unat (rw_i st') = unat (rw_i st) + unat len"
    using read_loop_ok [OF inv i0] by blast
  have w: "rw_ok dev i (i_next fi1) (Suc (Suc n)) a ms' es' q' st'" "length (rw_data st') = unat len" "\<not> rw_flag st'"
    "\<forall>j < unat len. rw_data st' ! j = (if j < unat ?sz then ?B (unat pos + j) else 0)"
    "\<forall>x < unat pos + unat ?sz. fbyte (rw_view dev st') es' x = ?B x"
    using s'(2,4) z(1) by (simp_all add: rd_inv_def)
  have E: "rw_done st' = len" "q' = unat (pos + rw_done st') div 512" "unat (pos + len) = unat pos + unat len"
    by (rule loop_end [of st' len pos q']; use s'(2,4) z(1) len(2) in \<open>simp add: rd_inv_def\<close>)+
  note g = grown_trans [OF st(6) s'(3)]
  have fi2: "inode_at (rw_fs st') dev i fi1" using inode_at_geom fi1 g unfolding grown_def by blast
  obtain fi' s2 where s2: "rw_finish dev fi1 pos st' = Some (FILE_OK, fi', rw_data st', rw_done st', s2)"
    "file_at s2 dev i n a (i_next fi1) ms' es'" "moved_to fi1 (pos + rw_done st') ms' es' fi'" "i_next fi' = i_next fi1"
    "only_touched dev i (rw_fs st') fi1 ms' es' s2 ms' es'" "view (fs_cache s2) dev (self fi1) = inode_image fi'"
    "fbyte (view (fs_cache s2) dev) es' = (if rw_flag st' then rw_bytes dev es' st' else fbyte (rw_view dev st') es')"
    by (rule finish_ok [OF w(1) fi2 E(2)]) blast
  have t: "only_touched dev i s1 fi1 ms es s2 ms' es'" by (rule touched_trans [OF grown_touched [OF g] s2(5)])
  have "inode_at s2 dev i fi1" using inode_at_geom fi1 t unfolding only_touched_def by blast
  then have "inode_at s2 dev i fi'" by (rule moved_inode_at [OF s2(3)])
  then have "held s2 dev i n a fi' ms' es'" using s2(2,4) by (simp add: held_def)
  moreover have "file_read_write s fi pos len data True bp = Some (FILE_OK, fi', rw_data st', len, s2)"
    using len(1) seat st(1) s'(1) s2(1) E(1) unfolding file_read_write_def dev
    by (simp add: Let_def flip: st(2))
  moreover have "rw_data st' = map (\<lambda>j. if j < unat ?sz then ?B (unat pos + j) else 0) [0..<unat len]"
    using w(2,4) by (intro nth_equalityI) simp_all
  ultimately show ?thesis
    using s2(3,6,7) t w(3,5) E(1)
    by (intro exI [of _ fi'] exI [of _ ms'] exI [of _ es'] exI [of _ s2] exI [of _ "rw_data st'"]) simp
qed

end
