(* ===== verification/File_Properties.thy ===== *)
theory File_Properties
  imports File_Content
begin

text \<open>
  What a call of \<open>file_read_write\<close> does, from the steps of \<open>File_Content\<close>: writing, reading,
  the first write to a file, and reading back what was written.

  The hypotheses on resources are those of the buffer cache and the allocator: \<open>held s dev i n a\<close>
  says that \<open>n\<close> cache slots can still be replaced without writing one back and that \<open>a\<close> data
  blocks are free. A transfer uses \<open>io_cost\<close> slots at most and two blocks for each block
  boundary it crosses.
\<close>

definition io_cost :: "fsys \<Rightarrow> nat \<Rightarrow> u64 \<Rightarrow> u64 \<Rightarrow> nat" where
  "io_cost s i pos len = rw_cost s i pos len + Suc (unat pos div 512 div 127)"

section \<open>Reading and writing files\<close>

text \<open>From a held file to the first byte of the transfer.\<close>

lemma held_seat:
  assumes h: "held s dev i (n + io_cost s i pos len) (a + 2 * rw_blocks pos len) fi ms es"
    and sk: "seekable fi pos ms es" and p: "unat pos < 2 ^ 32"
  defines "q \<equiv> unat pos div 512"
  obtains s1 where
    "find_seat s dev fi pos = Some (FILE_OK, fi, es ! q, ms ! (q div 127), of_nat (q mod 127), bmap_of ms es (q div 127), s1)"
    "file_at s1 dev i (n + rw_cost s1 i pos len) (a + 2 * rw_blocks pos len) (i_next fi) ms es" "q < length es"
    "inode_at s1 dev i fi" "sint (i_dev fi) = dev" "only_touched dev i s fi ms es s1 ms es"
    "fbyte (view (fs_cache s1) dev) es = fbyte (view (fs_cache s) dev) es"
proof -
  have f: "file_at s dev i (n + rw_cost s i pos len + Suc (unat pos div 512 div 127)) (a + 2 * rw_blocks pos len) (i_next fi) ms es"
    and ia: "inode_at s dev i fi" using h by (simp_all add: held_def io_cost_def ac_simps)
  obtain s1 where s1: "find_seat s dev fi pos = Some (FILE_OK, fi, es ! q, ms ! (q div 127), of_nat (q mod 127), bmap_of ms es (q div 127), s1)"
    "file_at s1 dev i (n + rw_cost s i pos len) (a + 2 * rw_blocks pos len) (i_next fi) ms es" "grown dev i s ms es s1 ms es"
    "\<And>c. addr_ok dev c \<Longrightarrow> view (fs_cache s1) dev c = view (fs_cache s) dev c"
    unfolding q_def by (rule seat_ok [OF f sk p]) blast
  have "fbyte (view (fs_cache s1) dev) es = fbyte (view (fs_cache s) dev) es"
    using s1(4) file_atD(5) [OF f] by (intro fbyte_frame) simp
  moreover have "inode_at s1 dev i fi" using inode_at_geom ia s1(3) unfolding grown_def by blast
  moreover have "rw_cost s1 i pos len = rw_cost s i pos len" using grown_cost [OF s1(3)] by (simp add: rw_cost_def)
  moreover have "sint (i_dev fi) = dev" "q < length es" using ia sk by (simp_all add: inode_at_def seekable_def q_def)
  ultimately show thesis using that s1(1,2) grown_touched [OF s1(3), of fi] by simp
qed

text \<open>A write to a file that is held in memory.\<close>

lemma write_held:
  assumes "held s dev i (n + io_cost s i pos len) (a + 2 * rw_blocks pos len) fi ms es"
    and "seekable fi pos ms es" "len \<noteq> 0" "unat pos + unat len < 2 ^ 32" "length data = unat len"
  shows "\<exists>fi' ms' es' s'. file_read_write s fi pos len data False bp = Some (FILE_OK, fi', data, len, s') \<and>
    held s' dev i n a fi' ms' es' \<and> moved_to fi (pos + len) ms' es' fi' \<and> only_touched dev i s fi ms es s' ms' es' \<and>
    view (fs_cache s') dev (self fi) = inode_image fi' \<and>
    fbyte (view (fs_cache s') dev) es' = (\<lambda>x. if unat pos \<le> x \<and> x < unat pos + unat len then data ! (x - unat pos)
      else fbyte (view (fs_cache s) dev) es x)"
proof -
  let ?q = "unat pos div 512"
  have p: "unat pos < 2 ^ 32" using assms(4) by simp
  obtain s1 where s1:
    "find_seat s dev fi pos = Some (FILE_OK, fi, es ! ?q, ms ! (?q div 127), of_nat (?q mod 127), bmap_of ms es (?q div 127), s1)"
    "file_at s1 dev i (n + rw_cost s1 i pos len) (a + 2 * rw_blocks pos len) (i_next fi) ms es" "?q < length es"
    "inode_at s1 dev i fi" "sint (i_dev fi) = dev" "only_touched dev i s fi ms es s1 ms es"
    "fbyte (view (fs_cache s1) dev) es = fbyte (view (fs_cache s) dev) es"
    by (rule held_seat [OF assms(1,2) p]) blast
  show ?thesis
    using write_body [OF s1(1,2) refl s1(3-5) assms(3-5), of bp] touched_trans [OF s1(6)] unfolding s1(7) by blast
qed

text \<open>
  C2. Writing to a file: the call succeeds, the bytes from \<open>pos\<close> on become those of the
  buffer and every other byte of the file stays, the inode gets the new position and, if
  the file grew, the new size, and is written to its block. Blocks added to the file were
  free, and outside the allocation maps nothing is written but the file's own blocks and
  its inode.
\<close>

theorem file_write_correct:
  assumes "held s dev i (n + io_cost s i pos len) (a + 2 * rw_blocks pos len) fi ms es"
    and "seekable fi pos ms es" "len \<noteq> 0" "unat pos + unat len < 2 ^ 32" "length data = unat len"
  shows "\<exists>fi' ms' es' s'. file_read_write s fi pos len data False bp = Some (FILE_OK, fi', data, len, s') \<and>
    held s' dev i n a fi' ms' es' \<and> moved_to fi (pos + len) ms' es' fi' \<and> only_touched dev i s fi ms es s' ms' es' \<and>
    view (fs_cache s') dev (self fi) = inode_image fi' \<and>
    fbyte (view (fs_cache s') dev) es' = (\<lambda>x. if unat pos \<le> x \<and> x < unat pos + unat len then data ! (x - unat pos)
      else fbyte (view (fs_cache s) dev) es x)"
  by (rule write_held [OF assms])

text \<open>A read of a file that is held in memory.\<close>

lemma read_held:
  assumes "held s dev i (n + io_cost s i pos len) (a + 2 * rw_blocks pos len) fi ms es"
    and "seekable fi pos ms es" "len \<noteq> 0" "unat pos + unat len < 2 ^ 32" "length data = unat len"
  shows "\<exists>fi' ms' es' s' d. file_read_write s fi pos len data True bp = Some (FILE_OK, fi', d, len, s') \<and>
    held s' dev i n a fi' ms' es' \<and> moved_to fi (pos + len) ms' es' fi' \<and> only_touched dev i s fi ms es s' ms' es' \<and>
    view (fs_cache s') dev (self fi) = inode_image fi' \<and>
    d = map (\<lambda>j. if j < unat (i_size fi) then fbyte (view (fs_cache s) dev) es (unat pos + j) else 0) [0..<unat len] \<and>
    (\<forall>x < unat pos + unat (i_size fi). fbyte (view (fs_cache s') dev) es' x = fbyte (view (fs_cache s) dev) es x)"
proof -
  let ?q = "unat pos div 512"
  have p: "unat pos < 2 ^ 32" using assms(4) by simp
  obtain s1 where s1:
    "find_seat s dev fi pos = Some (FILE_OK, fi, es ! ?q, ms ! (?q div 127), of_nat (?q mod 127), bmap_of ms es (?q div 127), s1)"
    "file_at s1 dev i (n + rw_cost s1 i pos len) (a + 2 * rw_blocks pos len) (i_next fi) ms es" "?q < length es"
    "inode_at s1 dev i fi" "sint (i_dev fi) = dev" "only_touched dev i s fi ms es s1 ms es"
    "fbyte (view (fs_cache s1) dev) es = fbyte (view (fs_cache s) dev) es"
    by (rule held_seat [OF assms(1,2) p]) blast
  show ?thesis
    using read_body [OF s1(1,2) refl s1(3-5) assms(3-5), of bp] touched_trans [OF s1(6)] unfolding s1(7) by blast
qed

text \<open>
  C3. Reading a file: the call succeeds, and byte \<open>j\<close> of the result is what the blocks of the file
  hold at \<open>pos + j\<close> for \<open>j\<close> below the size of the file, and 0 from there on. The code compares the size with
  the number of bytes read in this call and not with the position, so with \<open>pos > 0\<close> the bytes
  from the size of the file to \<open>pos + size\<close> are whatever its blocks hold, not 0. The call always reports the
  whole length, the file grows to \<open>pos + len\<close> if it was shorter, its position is \<open>pos + len\<close>, and its
  contents before \<open>pos + size\<close> stay.
\<close>

theorem file_read_correct:
  assumes "held s dev i (n + io_cost s i pos len) (a + 2 * rw_blocks pos len) fi ms es"
    and "seekable fi pos ms es" "len \<noteq> 0" "unat pos + unat len < 2 ^ 32" "length data = unat len"
  shows "\<exists>fi' ms' es' s' d. file_read_write s fi pos len data True bp = Some (FILE_OK, fi', d, len, s') \<and>
    held s' dev i n a fi' ms' es' \<and> moved_to fi (pos + len) ms' es' fi' \<and> only_touched dev i s fi ms es s' ms' es' \<and>
    view (fs_cache s') dev (self fi) = inode_image fi' \<and>
    d = map (\<lambda>j. if j < unat (i_size fi) then fbyte (view (fs_cache s) dev) es (unat pos + j) else 0) [0..<unat len] \<and>
    (\<forall>x < unat pos + unat (i_size fi). fbyte (view (fs_cache s') dev) es' x = fbyte (view (fs_cache s) dev) es x)"
  by (rule read_held [OF assms])

section \<open>The first write to a file\<close>

lemma moved_next:
  assumes "moved_to (fi\<lparr>i_next := b\<rparr>) e ms es fi'"
  shows "moved_to fi e ms es fi'"
  using assms unfolding moved_to_def by simp

lemma moved_size:
  assumes "moved_to fi e ms es fi'"
  shows "i_size fi' = max (i_size fi) e" "i_pos fi' = e" "self fi' = self fi" "seated fi' ms es"
proof -
  from assms have e: "fi' = fi\<lparr>i_next := i_next fi', i_pos := e, i_size := max (i_size fi) e,
      current := current fi', current_parent := current_parent fi', iblock := iblock fi'\<rparr>" and "seated fi' ms es"
    unfolding moved_to_def by blast+
  then show "seated fi' ms es" by simp
  show "i_size fi' = max (i_size fi) e" "i_pos fi' = e" "self fi' = self fi"
    using arg_cong [OF e, of i_size] arg_cong [OF e, of i_pos] arg_cong [OF e, of self] by simp_all
qed

lemma new_write:
  assumes inv: "fio s dev i (n + (rw_cost s i pos len + (2 * get_cost s i + 4))) (Suc (Suc (a + 2 * rw_blocks pos len)))"
    and fi: "inode_at s dev i fi" "i_next fi = INODE_NULL" "unat pos < 512"
    and len: "len \<noteq> 0" "unat pos + unat len < 2 ^ 32" "length data = unat len"
  shows "\<exists>fi' ms' es' s'. file_read_write s fi pos len data False bp = Some (FILE_OK, fi', data, len, s') \<and>
    held s' dev i n a fi' ms' es' \<and> moved_to fi (pos + len) ms' es' fi' \<and> only_touched dev i s fi [] [] s' ms' es' \<and>
    view (fs_cache s') dev (self fi) = inode_image fi' \<and>
    (\<forall>j < unat len. fbyte (view (fs_cache s') dev) es' (unat pos + j) = data ! j)"
proof -
  have i1: "fio s dev i (n + rw_cost s i pos len + (2 * get_cost s i + 4)) (Suc (Suc (a + 2 * rw_blocks pos len)))"
    using inv by (simp add: ac_simps)
  have f: "inode_wf fi" "outside s dev i (self fi)" "unat (self fi) < unat (data_start (master_tab s ! i))" "sint (i_dev fi) = dev"
    using fi(1) by (simp_all add: inode_at_def)
  obtain b e s1 where s1: "find_seat s dev fi pos = Some (FILE_OK, fi\<lparr>i_next := b\<rparr>, e, b, 0, bmap_of [b] [e] 0, s1)"
    "file_at s1 dev i (n + rw_cost s i pos len) (a + 2 * rw_blocks pos len) b [b] [e]" "same_geom (master_tab s ! i) (master_tab s1 ! i)"
    "blocks_used BMAP dev i s \<subseteq> blocks_used BMAP dev i s1" "{b, e} \<inter> blocks_used BMAP dev i s = {}"
    "\<And>c. outside s dev i c \<Longrightarrow> c \<notin> {b, e, self fi} \<Longrightarrow> view (fs_cache s1) dev c = view (fs_cache s) dev c"
    by (rule seat_new_ok [OF i1 fi(2) f(1-3)]) blast
  let ?fi = "fi\<lparr>i_next := b\<rparr>"
  have q: "unat pos div 512 = 0" using fi(3) by simp
  have "inode_at s1 dev i fi" by (rule inode_at_geom [OF s1(3) fi(1)])
  then have ia: "inode_at s1 dev i ?fi" by (simp add: inode_at_def inode_wf_def)
  have f1: "file_at s1 dev i (n + rw_cost s1 i pos len) (a + 2 * rw_blocks pos len) (i_next ?fi) [b] [e]"
    using s1(2) map_len_geom [OF s1(3), of BMAP] by (simp add: rw_cost_def)
  have seat: "find_seat s dev fi pos = Some (FILE_OK, ?fi, [e] ! 0, [b] ! (0 div 127), of_nat (0 mod 127), bmap_of [b] [e] (0 div 127), s1)"
    using s1(1) by simp
  have q0: "0 = unat pos div 512" "0 < length [e]" using q by simp_all
  obtain fi' ms' es' s' where w: "file_read_write s fi pos len data False bp = Some (FILE_OK, fi', data, len, s')"
    "held s' dev i n a fi' ms' es'" "moved_to ?fi (pos + len) ms' es' fi'" "only_touched dev i s1 ?fi [b] [e] s' ms' es'"
    "view (fs_cache s') dev (self ?fi) = inode_image fi'"
    "fbyte (view (fs_cache s') dev) es' = (\<lambda>x. if unat pos \<le> x \<and> x < unat pos + unat len then data ! (x - unat pos)
      else fbyte (view (fs_cache s1) dev) [e] x)"
    using write_body [OF seat f1 q0 ia f(4) len, of bp] by blast
  have "only_touched dev i s fi [] [] s1 [b] [e]" using s1(3-6) by (auto simp: only_touched_def)
  moreover have "only_touched dev i s1 fi [b] [e] s' ms' es'" using w(4) by (simp add: only_touched_def)
  ultimately have "only_touched dev i s fi [] [] s' ms' es'" by (rule touched_trans)
  then show ?thesis using w(1,2,5,6) moved_next [OF w(3)] by (intro exI [of _ fi'] exI [of _ ms'] exI [of _ es'] exI [of _ s']) simp
qed

text \<open>
  C4. The first write to a file that has no blocks: the call succeeds, allocates a block map
  and the data blocks, all of them free before, and the bytes from \<open>pos\<close> on are those of the
  buffer. Only positions in the first block are found.
\<close>

theorem file_first_write:
  assumes "fio s dev i (n + (rw_cost s i pos len + (2 * get_cost s i + 4))) (Suc (Suc (a + 2 * rw_blocks pos len)))"
    and "inode_at s dev i fi" "i_next fi = INODE_NULL" "unat pos < 512"
    and "len \<noteq> 0" "unat pos + unat len < 2 ^ 32" "length data = unat len"
  shows "\<exists>fi' ms' es' s'. file_read_write s fi pos len data False bp = Some (FILE_OK, fi', data, len, s') \<and>
    held s' dev i n a fi' ms' es' \<and> moved_to fi (pos + len) ms' es' fi' \<and> only_touched dev i s fi [] [] s' ms' es' \<and>
    view (fs_cache s') dev (self fi) = inode_image fi' \<and>
    (\<forall>j < unat len. fbyte (view (fs_cache s') dev) es' (unat pos + j) = data ! j)"
  by (rule new_write [OF assms])

text \<open>After a transfer any position of the file is found that is not at the start of a map.\<close>

lemma moved_seekable:
  assumes "moved_to fi e ms es fi'" "unat pos div 512 < length es" "pos = e \<or> pos = 0 \<or> unat pos mod 65024 \<noteq> 0"
  shows "seekable fi' pos ms es"
  using moved_size(2,4) [OF assms(1)] assms(2,3) by (auto simp: seekable_def seated_def Let_def)

lemma touched_cost:
  assumes "only_touched dev i s fi ms es s' ms' es'"
  shows "io_cost s' i pos len = io_cost s i pos len" "rw_cost s' i pos len = rw_cost s i pos len"
  using assms map_len_geom [of "master_tab s ! i" "master_tab s' ! i" BMAP]
  by (simp_all add: io_cost_def rw_cost_def only_touched_def)

text \<open>What is in the file at \<open>pos\<close> is read, when the size of the file allows it.\<close>

lemma read_back:
  assumes h: "held s dev i (n + io_cost s i pos len) (a + 2 * rw_blocks pos len) fi ms es" and sk: "seekable fi pos ms es"
    and len: "len \<noteq> 0" "unat pos + unat len < 2 ^ 32" "length buf = unat len" and sz: "len \<le> i_size fi"
    and d: "length d = unat len" "\<And>j. j < unat len \<Longrightarrow> fbyte (view (fs_cache s) dev) es (unat pos + j) = d ! j"
  shows "\<exists>fi' s'. file_read_write s fi pos len buf True bp = Some (FILE_OK, fi', d, len, s')"
proof -
  have p: "unat pos < 2 ^ 32" using len(2) by simp
  obtain s1 where s1: "find_seat s dev fi pos = Some (FILE_OK, fi, es ! (unat pos div 512), ms ! (unat pos div 512 div 127),
      of_nat (unat pos div 512 mod 127), bmap_of ms es (unat pos div 512 div 127), s1)"
    "file_at s1 dev i (n + rw_cost s1 i pos len) (a + 2 * rw_blocks pos len) (i_next fi) ms es" "unat pos div 512 < length es"
    "inode_at s1 dev i fi" "sint (i_dev fi) = dev" "only_touched dev i s fi ms es s1 ms es"
    "fbyte (view (fs_cache s1) dev) es = fbyte (view (fs_cache s) dev) es"
    by (rule held_seat [OF h sk p]) blast
  have "map (\<lambda>j. if j < unat (i_size fi) then fbyte (view (fs_cache s) dev) es (unat pos + j) else 0) [0..<unat len] = d"
    using d sz by (intro nth_equalityI) (auto simp: word_le_nat_alt)
  then show ?thesis using read_body [OF s1(1,2) refl s1(3-5) len, of bp] unfolding s1(7) by blast
qed

text \<open>
  C1. What is written to a file is read back from it: a write at \<open>pos\<close> followed by a read of
  the same length at the same position returns the buffer that was written. The position
  must not be the start of a block map other than the first.
\<close>

theorem file_write_read:
  assumes h: "held s dev i (n + 2 * io_cost s i pos len) (a + 4 * rw_blocks pos len) fi ms es" and sk: "seekable fi pos ms es"
    and len: "len \<noteq> 0" "unat pos + unat len < 2 ^ 32" "length data = unat len" "length buf = unat len"
    and pos: "pos = 0 \<or> unat pos mod 65024 \<noteq> 0"
  shows "\<exists>fi1 s1 fi2 s2. file_read_write s fi pos len data False 0 = Some (FILE_OK, fi1, data, len, s1) \<and>
    file_read_write s1 fi1 pos len buf True 0 = Some (FILE_OK, fi2, data, len, s2)"
proof -
  have h': "held s dev i ((n + io_cost s i pos len) + io_cost s i pos len) ((a + 2 * rw_blocks pos len) + 2 * rw_blocks pos len) fi ms es"
    using h by (simp add: mult_2 ac_simps)
  obtain fi1 ms1 es1 s1 where w: "file_read_write s fi pos len data False 0 = Some (FILE_OK, fi1, data, len, s1)"
    "held s1 dev i (n + io_cost s i pos len) (a + 2 * rw_blocks pos len) fi1 ms1 es1" "moved_to fi (pos + len) ms1 es1 fi1"
    "only_touched dev i s fi ms es s1 ms1 es1"
    "fbyte (view (fs_cache s1) dev) es1 = (\<lambda>x. if unat pos \<le> x \<and> x < unat pos + unat len then data ! (x - unat pos)
      else fbyte (view (fs_cache s) dev) es x)"
    using write_held [OF h' sk len(1-3), of 0] by blast
  note t = w(4)
  have "length es \<le> length es1" using t prefix_length_le by (auto simp: only_touched_def)
  then have sk1: "seekable fi1 pos ms1 es1" using sk pos by (intro moved_seekable [OF w(3)]) (auto simp: seekable_def)
  have h1: "held s1 dev i (n + io_cost s1 i pos len) (a + 2 * rw_blocks pos len) fi1 ms1 es1"
    using w(2) touched_cost(1) [OF t] by simp
  have "unat (pos + len) = unat pos + unat len" using len(2) by (simp add: unat_word_ariths)
  then have "len \<le> pos + len" by (simp add: word_le_nat_alt)
  then have sz: "len \<le> i_size fi1" unfolding moved_size(1) [OF w(3)] by (rule order_trans) (rule max.cobounded2)
  show ?thesis using w(1) read_back [OF h1 sk1 len(1,2,4) sz len(3), of 0] w(5) by auto
qed

section \<open>A small file\<close>

text \<open>
  A file system of 512000 bytes made and opened on an empty drive, and an inode for a new
  file in its first inode block; three bytes are written to it.
\<close>

definition demo_inode :: inode where
  "demo_inode = (read_inode (zeros 512))\<lparr>self := 4099\<rparr>"

lemma le_word_zeros: "le_word (replicate n 0) = (0 :: 'a::len word)"
  by (induction n) (simp_all add: le_word_def)

lemma fld_zeros: "fld (zeros n) k m = (0 :: 'a::len word)"
  by (simp add: fld_def chunk_def zeros_def le_word_zeros)

lemma opened_fio:
  assumes o: "opened 512000 s"
  shows "fio s 0 0 125 512" "map_len BMAP (master_tab s ! 0) = 1" "unat (bmap_map_end (master_tab s ! 0)) = 4099"
    "unat (data_start (master_tab s ! 0)) = 4299"
proof -
  note L = make_master_layout [of BLOCK_START 512000 "free_master\<lparr>m_dev := 0\<rparr>", folded new_master_def]
  have "map_end BMAP (master_tab s ! 0) = map_end BMAP (new_master BLOCK_START 512000)"
    "map_first BMAP (master_tab s ! 0) = map_first BMAP (new_master BLOCK_START 512000)"
    using o unfolding opened_def by blast+
  then show e: "unat (bmap_map_end (master_tab s ! 0)) = 4099" "unat (data_start (master_tab s ! 0)) = 4299"
    using L(2-8) by simp_all
  show m: "map_len BMAP (master_tab s ! 0) = 1" using opened_len(2) [OF o] by simp
  have "fs_inv s 0 0 125" "recorded BMAP s 0 0 = {}" using o by (simp_all add: opened_def)
  then show "fio s 0 0 125 512" using e m by (simp add: fio_def data_room_def)
qed

lemma demo_inode_at:
  assumes o: "opened 512000 s"
  shows "inode_at s 0 0 demo_inode" "i_next demo_inode = INODE_NULL"
  using opened_fio(3,4) [OF o]
  by (simp_all add: inode_at_def outside_def addr_ok_def demo_inode_def read_inode_def inode_wf_def fld_zeros chunk_def)

lemma demo_file:
  obtains s fi ms es where "held s 0 0 110 500 fi ms es" "moved_to demo_inode 3 ms es fi" "map_len BMAP (master_tab s ! 0) = 1"
    "\<And>j. j < 3 \<Longrightarrow> fbyte (view (fs_cache s) 0) es j = [1, 2, 3] ! j"
proof -
  obtain s where o: "opened 512000 s" using demo_fs by blast
  note f = opened_fio [OF o]
  have "fio s 0 0 (110 + (rw_cost s 0 0 3 + (2 * get_cost s 0 + 4))) (Suc (Suc (500 + 2 * rw_blocks 0 3)))"
    by (rule fio_mono [OF f(1)]) (simp_all add: rw_cost_def rw_blocks_def f(2))
  then obtain fi ms es s' where w: "held s' 0 0 110 500 fi ms es" "moved_to demo_inode 3 ms es fi"
    "only_touched 0 0 s demo_inode [] [] s' ms es" "\<forall>j < unat (3 :: u64). fbyte (view (fs_cache s') 0) es (unat (0 :: u64) + j) = [1, 2, 3] ! j"
    using new_write [of s 0 0 110 0 3 500 demo_inode "[1, 2, 3]" 0] demo_inode_at [OF o] by auto
  have "map_len BMAP (master_tab s' ! 0) = 1" using f(2) w(3) map_len_geom [of "master_tab s ! 0" "master_tab s' ! 0" BMAP] by (simp add: only_touched_def)
  then show thesis using that w by auto
qed

theorem file_first_write_witness:
  "\<exists>s fi' s' es. file_read_write s demo_inode 10 2 [7, 8] False 0 = Some (FILE_OK, fi', [7, 8], 2, s') \<and> i_size fi' = 12 \<and>
     fbyte (view (fs_cache s') 0) es 11 = 8"
proof -
  obtain s where o: "opened 512000 s" using demo_fs by blast
  note f = opened_fio [OF o]
  have "fio s 0 0 (100 + (rw_cost s 0 10 2 + (2 * get_cost s 0 + 4))) (Suc (Suc (500 + 2 * rw_blocks 10 2)))"
    by (rule fio_mono [OF f(1)]) (simp_all add: rw_cost_def rw_blocks_def f(2))
  then obtain fi' ms' es' s' where w: "file_read_write s demo_inode 10 2 [7, 8] False 0 = Some (FILE_OK, fi', [7, 8], 2, s')"
    "moved_to demo_inode 12 ms' es' fi'" "\<forall>j < unat (2 :: u64). fbyte (view (fs_cache s') 0) es' (unat (10 :: u64) + j) = [7, 8] ! j"
    using file_first_write [of s 0 0 100 10 2 500 demo_inode "[7, 8]" 0] demo_inode_at [OF o] by auto
  have "i_size demo_inode = 0" by (simp add: demo_inode_def read_inode_def fld_zeros)
  then have "i_size fi' = 12" using moved_size(1) [OF w(2)] by simp
  moreover have "fbyte (view (fs_cache s') 0) es' 11 = 8" using spec [OF w(3), of 1] by simp
  ultimately show ?thesis using w(1) by blast
qed

lemma demo_seek:
  assumes "held s 0 0 n a fi ms es" "moved_to demo_inode 3 ms es fi" "unat pos < 512"
  shows "seekable fi pos ms es"
proof (rule moved_seekable [OF assms(2)])
  show "unat pos div 512 < length es" using moved_size(2,4) [OF assms(2)] assms(3) by (simp add: seated_def Let_def)
  show "pos = 3 \<or> pos = 0 \<or> unat pos mod 65024 \<noteq> 0" using assms(3) by (auto simp: word_unat_eq_iff)
qed

theorem file_write_correct_witness:
  "\<exists>s fi fi' s' es. file_read_write s fi 1 2 [7, 8] False 0 = Some (FILE_OK, fi', [7, 8], 2, s') \<and> i_size fi' = 3 \<and>
     fbyte (view (fs_cache s') 0) es 0 = 1 \<and> fbyte (view (fs_cache s') 0) es 1 = 7"
proof -
  obtain s fi ms es where d: "held s 0 0 110 500 fi ms es" "moved_to demo_inode 3 ms es fi" "map_len BMAP (master_tab s ! 0) = 1"
    "\<And>j. j < 3 \<Longrightarrow> fbyte (view (fs_cache s) 0) es j = [1, 2, 3] ! j" by (rule demo_file) blast
  have "held s 0 0 (106 + io_cost s 0 1 2) (500 + 2 * rw_blocks 1 2) fi ms es"
    using d(1) by (simp add: io_cost_def rw_cost_def rw_blocks_def)
  moreover have "seekable fi 1 ms es" using demo_seek [OF d(1,2), of 1] by simp
  ultimately obtain fi' ms' es' s' where w: "file_read_write s fi 1 2 [7, 8] False 0 = Some (FILE_OK, fi', [7, 8], 2, s')"
    "moved_to fi 3 ms' es' fi'"
    "fbyte (view (fs_cache s') 0) es' = (\<lambda>x. if unat (1 :: u64) \<le> x \<and> x < unat (1 :: u64) + unat (2 :: u64) then [7, 8] ! (x - unat (1 :: u64))
      else fbyte (view (fs_cache s) 0) es x)"
    using file_write_correct [of s 0 0 106 1 2 500 fi ms es "[7, 8]" 0] by auto
  have "i_size fi' = 3"
    using moved_size(1) [OF w(2)] moved_size(1) [OF d(2)] by (simp add: demo_inode_def read_inode_def fld_zeros)
  then show ?thesis using w(1,3) d(4) [of 0] by (intro exI [of _ s] exI [of _ fi] exI [of _ fi'] exI [of _ s'] exI [of _ es']) simp
qed

theorem file_read_correct_witness:
  "\<exists>s fi fi' s'. file_read_write s fi 0 5 [0, 0, 0, 0, 0] True 0 = Some (FILE_OK, fi', [1, 2, 3, 0, 0], 5, s') \<and>
     i_size fi = 3 \<and> i_size fi' = 5"
proof -
  obtain s fi ms es where d: "held s 0 0 110 500 fi ms es" "moved_to demo_inode 3 ms es fi" "map_len BMAP (master_tab s ! 0) = 1"
    "\<And>j. j < 3 \<Longrightarrow> fbyte (view (fs_cache s) 0) es j = [1, 2, 3] ! j" by (rule demo_file) blast
  have "held s 0 0 (106 + io_cost s 0 0 5) (500 + 2 * rw_blocks 0 5) fi ms es"
    using d(1) by (simp add: io_cost_def rw_cost_def rw_blocks_def)
  moreover have "seekable fi 0 ms es" using demo_seek [OF d(1,2), of 0] by simp
  ultimately obtain fi' ms' es' s' x where w: "file_read_write s fi 0 5 [0, 0, 0, 0, 0] True 0 = Some (FILE_OK, fi', x, 5, s')"
    "moved_to fi 5 ms' es' fi'"
    "x = map (\<lambda>j. if j < unat (i_size fi) then fbyte (view (fs_cache s) 0) es (unat (0 :: u64) + j) else 0) [0..<unat (5 :: u64)]"
    using file_read_correct [of s 0 0 106 0 5 500 fi ms es "[0, 0, 0, 0, 0]" 0] by auto
  have z: "i_size fi = 3" "i_size fi' = 5"
    using moved_size(1) [OF w(2)] moved_size(1) [OF d(2)] by (simp_all add: demo_inode_def read_inode_def fld_zeros)
  have "x = [1, 2, 3, 0, 0]" using w(3) d(4) z(1) by (simp add: upt_rec)
  then show ?thesis using w(1) z by blast
qed

theorem file_write_read_witness:
  "\<exists>s fi fi1 s1 fi2 s2. file_read_write s fi 2 3 [7, 8, 9] False 0 = Some (FILE_OK, fi1, [7, 8, 9], 3, s1) \<and>
     file_read_write s1 fi1 2 3 [0, 0, 0] True 0 = Some (FILE_OK, fi2, [7, 8, 9], 3, s2)"
proof -
  obtain s fi ms es where d: "held s 0 0 110 500 fi ms es" "moved_to demo_inode 3 ms es fi" "map_len BMAP (master_tab s ! 0) = 1"
    by (rule demo_file) blast
  have "held s 0 0 (102 + 2 * io_cost s 0 2 3) (500 + 4 * rw_blocks 2 3) fi ms es"
    using d(1) by (simp add: io_cost_def rw_cost_def rw_blocks_def)
  moreover have "seekable fi 2 ms es" using demo_seek [OF d(1,2), of 2] by simp
  ultimately have "\<exists>fi1 s1 fi2 s2. file_read_write s fi 2 3 [7, 8, 9] False 0 = Some (FILE_OK, fi1, [7, 8, 9], 3, s1) \<and>
      file_read_write s1 fi1 2 3 [0, 0, 0] True 0 = Some (FILE_OK, fi2, [7, 8, 9], 3, s2)"
    using file_write_read [of s 0 0 102 2 3 500 fi ms es "[7, 8, 9]" "[0, 0, 0]"] by simp
  then show ?thesis by blast
qed

text \<open>
  At a position that is a multiple of the 65024 bytes of a map, other than 0, the scan stops
  one map too early: entry 0 of the map before is taken for the block.
\<close>

theorem seek_stops_early:
  assumes "unat pos < 2 ^ 32" "pos \<noteq> 0" "unat pos mod 65024 = 0"
  shows "unat (pos_iter pos) = unat pos div 512 div 127" "pos_iblock pos = 0"
proof -
  have e: "unat pos mod 65024 = 512 * (unat pos div 512 mod 127) + unat pos mod 512"
    using mod_mult2_eq [of "unat pos" 512 127] by simp
  then have m: "unat pos mod 512 = 0" "unat pos div 512 mod 127 = 0" using assms(3) by simp_all
  then have "unat (pos_block pos) = unat pos div 512" using pos_block_unat [OF assms(1)] assms(2) by simp
  then show "unat (pos_iter pos) = unat pos div 512 div 127" using pos_iter_unat [OF assms(1)] m(2) by simp
  show "pos_iblock pos = 0" using pos_iblock_ok [OF assms(1)] m(2) by simp
qed

end
