(* ===== verification/Permissions.thy ===== *)
theory Permissions
  imports Inode_Alloc
begin

text \<open>
  Permissions and time stamps of inodes (\<open>fs/inode.c\<close>): the conversion between the nine
  flags of an inode and the Unix mode bits, the access check, and the time stamps. The
  time of day, \<open>ktime (0)\<close>, is an argument.
\<close>

abbreviation (input) S_IRUSR :: u32 where "S_IRUSR \<equiv> 256"
abbreviation (input) S_IWUSR :: u32 where "S_IWUSR \<equiv> 128"
abbreviation (input) S_IXUSR :: u32 where "S_IXUSR \<equiv> 64"
abbreviation (input) S_IRGRP :: u32 where "S_IRGRP \<equiv> 32"
abbreviation (input) S_IWGRP :: u32 where "S_IWGRP \<equiv> 16"
abbreviation (input) S_IXGRP :: u32 where "S_IXGRP \<equiv> 8"
abbreviation (input) S_IROTH :: u32 where "S_IROTH \<equiv> 4"
abbreviation (input) S_IWOTH :: u32 where "S_IWOTH \<equiv> 2"
abbreviation (input) S_IXOTH :: u32 where "S_IXOTH \<equiv> 1"
abbreviation (input) S_IRWXU :: u32 where "S_IRWXU \<equiv> 448"
abbreviation (input) S_IFREG :: u32 where "S_IFREG \<equiv> 32768"
abbreviation (input) S_IFDIR :: u32 where "S_IFDIR \<equiv> 16384"
abbreviation (input) S_IFLNK :: u32 where "S_IFLNK \<equiv> 40960"

section \<open>Time stamps\<close>

text \<open>\<open>inode_set_parent_mod_time\<close> changes a copy of the parent and does not write it back.\<close>

definition inode_set_parent_mod_time :: "u32 \<Rightarrow> fsys \<Rightarrow> int \<Rightarrow> u32 \<Rightarrow> (inode_rtvl \<times> fsys) option" where
  "inode_set_parent_mod_time now s dev par = do {
     (r, buf, c) \<leftarrow> block_read (fs_cache s) dev par (Some (zeros DEV_BLOCK_SIZE));
     Some (if r \<noteq> BLOCK_OK then INODE_FAIL else INODE_OK, s\<lparr>fs_cache := c\<rparr>)
   }"

definition inode_set_timestamps :: "u32 \<Rightarrow> inode \<Rightarrow> inode" where
  "inode_set_timestamps now i = i\<lparr>create_time := now, modified_time := now, accessed_time := now\<rparr>"

section \<open>Mode bits\<close>

definition inode_get_permissions :: "inode \<Rightarrow> u32" where
  "inode_get_permissions i =
     (let p = 0;
          p = (if user_read i \<noteq> 0 then p OR S_IRUSR else p);
          p = (if user_write i \<noteq> 0 then p OR S_IWUSR else p);
          p = (if user_execute i \<noteq> 0 then p OR S_IXUSR else p);
          p = (if group_read i \<noteq> 0 then p OR S_IRGRP else p);
          p = (if group_write i \<noteq> 0 then p OR S_IWGRP else p);
          p = (if group_execute i \<noteq> 0 then p OR S_IXGRP else p);
          p = (if world_read i \<noteq> 0 then p OR S_IROTH else p);
          p = (if world_write i \<noteq> 0 then p OR S_IWOTH else p);
          p = (if world_execute i \<noteq> 0 then p OR S_IXOTH else p);
          p = (if is_directory i \<noteq> 0 then p OR S_IFDIR else p);
          p = (if is_symlink i \<noteq> 0 then p OR S_IFLNK else p)
      in if is_hardlink i \<noteq> 0 \<or> is_file i \<noteq> 0 then p OR S_IFREG else p)"

definition inode_get_mode :: "u32 \<Rightarrow> u32 \<Rightarrow> inode_mode" where
  "inode_get_mode perm umask =
     (let p = perm OR umask; r = (S_IRUSR AND p \<noteq> 0); w = (S_IWUSR AND p \<noteq> 0); x = (S_IXUSR AND p \<noteq> 0) in
      if r \<and> w \<and> x then INODE_RWX
      else if w \<and> x then INODE_WX
      else if r \<and> x then INODE_RX
      else if r \<and> w then INODE_RW
      else if x then INODE_EXECUTE
      else if w then INODE_WRITE
      else if r then INODE_READ
      else INODE_INVALID_MODE)"

text \<open>One iteration per class of users: user, group, world.\<close>

fun mode_from_all :: "nat \<Rightarrow> u32 \<Rightarrow> inode_mode" where
  "mode_from_all iter p =
     (let r = (S_IRUSR AND p \<noteq> 0); w = (S_IWUSR AND p \<noteq> 0); x = (S_IXUSR AND p \<noteq> 0) in
      if S_IRWXU AND p \<noteq> 0 then INODE_RWX
      else if w \<and> x then INODE_WX
      else if r \<and> x then INODE_RX
      else if r \<and> w then INODE_RW
      else if x then INODE_EXECUTE
      else if w then INODE_WRITE
      else if r then INODE_READ
      else case iter of 0 \<Rightarrow> INODE_INVALID_MODE | Suc n \<Rightarrow> mode_from_all n (push_bit 3 p))"

declare mode_from_all.simps [simp del]

definition inode_get_mode_from_all :: "u32 \<Rightarrow> u32 \<Rightarrow> inode_mode" where
  "inode_get_mode_from_all perm umask = mode_from_all 2 (perm OR umask)"

text \<open>The three flags each mode stands for, as the assignments of \<open>inode_set_permissions\<close> have them.\<close>

fun mode_flags :: "inode_mode \<Rightarrow> u8 \<times> u8 \<times> u8" where
  "mode_flags INODE_READ = (1, 0, 0)"
| "mode_flags INODE_WRITE = (0, 1, 0)"
| "mode_flags INODE_EXECUTE = (0, 0, 1)"
| "mode_flags INODE_RW = (1, 1, 0)"
| "mode_flags INODE_RX = (1, 0, 1)"
| "mode_flags INODE_WX = (0, 1, 1)"
| "mode_flags INODE_RWX = (1, 1, 1)"
| "mode_flags _ = (0, 0, 0)"

definition inode_set_permissions :: "inode \<Rightarrow> u32 \<Rightarrow> u32 \<Rightarrow> inode" where
  "inode_set_permissions i perm umask =
     (let (r, w, x) = mode_flags (inode_get_mode perm umask);
          i = i\<lparr>user_read := r, user_write := w, user_execute := x\<rparr>;
          perm = push_bit 3 perm;
          (r, w, x) = mode_flags (inode_get_mode perm umask);
          i = i\<lparr>group_read := r, group_write := w, group_execute := x\<rparr>;
          perm = push_bit 3 perm;
          (r, w, x) = mode_flags (inode_get_mode perm umask)
      in i\<lparr>world_read := r, world_write := w, world_execute := x\<rparr>)"

section \<open>The access check\<close>

text \<open>Owner, then group, then world: one class that grants the access is enough.\<close>

definition class_check :: "inode \<Rightarrow> u32 \<Rightarrow> u32 \<Rightarrow> bool \<Rightarrow> bool \<Rightarrow> bool \<Rightarrow> bool" where
  "class_check i grp own r w x =
     (if own = i_owner i \<and> (r \<longrightarrow> user_read i \<noteq> 0) \<and> (w \<longrightarrow> user_write i \<noteq> 0) \<and> (x \<longrightarrow> user_execute i \<noteq> 0) then True
      else if grp = i_group i \<and> (r \<longrightarrow> group_read i \<noteq> 0) \<and> (w \<longrightarrow> group_write i \<noteq> 0) \<and> (x \<longrightarrow> group_execute i \<noteq> 0) then True
      else (r \<longrightarrow> world_read i \<noteq> 0) \<and> (w \<longrightarrow> world_write i \<noteq> 0) \<and> (x \<longrightarrow> world_execute i \<noteq> 0))"

definition inode_check_permissions :: "inode \<Rightarrow> u32 \<Rightarrow> u32 \<Rightarrow> u32 \<Rightarrow> u32 \<Rightarrow> inode_mode \<Rightarrow> bool" where
  "inode_check_permissions i perm umask grp own mode =
     (case mode of
        INODE_DONTCHECKPERMS \<Rightarrow> True
      | INODE_READ \<Rightarrow> class_check i grp own True False False
      | INODE_WRITE \<Rightarrow> class_check i grp own False True False
      | INODE_EXECUTE \<Rightarrow> class_check i grp own False False True
      | INODE_RW \<Rightarrow> class_check i grp own True True False
      | INODE_RX \<Rightarrow> class_check i grp own True False True
      | INODE_WX \<Rightarrow> class_check i grp own False True True
      | INODE_RWX \<Rightarrow> class_check i grp own True True True
      | _ \<Rightarrow> False)"

section \<open>Properties\<close>

text \<open>The constants, as single bits.\<close>

lemma and_bit32: "(x :: u32) AND push_bit k 1 \<noteq> 0 \<longleftrightarrow> bit x k"
proof -
  have "x AND push_bit k 1 = (if bit x k then push_bit k 1 else 0)"
    by (rule bit_word_eqI) (auto simp: bit_simps)
  moreover have "bit x k \<Longrightarrow> push_bit k (1::u32) \<noteq> 0"
    using bit_imp_le_length [of x k] by (simp add: push_bit_eq_mult)
  ultimately show ?thesis by auto
qed

lemma mode_bits: "(256 AND p \<noteq> 0) = bit p 8" "(128 AND p \<noteq> 0) = bit p 7" "(64 AND p \<noteq> 0) = bit (p :: u32) 6"
  using and_bit32 [of p 8] and_bit32 [of p 7] and_bit32 [of p 6] by (simp_all add: and.commute)

text \<open>The flags a permission word sets are the bits of the word.\<close>

lemma mode_flags_bits:
  "mode_flags (inode_get_mode perm 0) = (of_bool (bit perm 8), of_bool (bit perm 7), of_bool (bit perm 6))"
  by (simp add: inode_get_mode_def mode_bits Let_def)

lemma mode_flags_mask:
  "mode_flags (inode_get_mode perm um) =
     (of_bool (bit perm 8 \<or> bit um 8), of_bool (bit perm 7 \<or> bit um 7), of_bool (bit perm 6 \<or> bit um 6))"
  by (simp add: inode_get_mode_def mode_bits Let_def bit_or_iff)

lemma set_permissions_flags:
  "inode_set_permissions i perm um =
     i\<lparr>user_read := of_bool (bit perm 8 \<or> bit um 8), user_write := of_bool (bit perm 7 \<or> bit um 7),
       user_execute := of_bool (bit perm 6 \<or> bit um 6), group_read := of_bool (bit perm 5 \<or> bit um 8),
       group_write := of_bool (bit perm 4 \<or> bit um 7), group_execute := of_bool (bit perm 3 \<or> bit um 6),
       world_read := of_bool (bit perm 2 \<or> bit um 8), world_write := of_bool (bit perm 1 \<or> bit um 7),
       world_execute := of_bool (bit perm 0 \<or> bit um 6)\<rparr>"
  by (simp add: inode_set_permissions_def mode_flags_mask Let_def bit_simps)

lemma or_if: "(if c then p OR k else p) = p OR (if c then k else (0 :: u32))"
  by simp

lemma get_permissions_or:
  "inode_get_permissions i =
     (if user_read i \<noteq> 0 then 256 else 0) OR (if user_write i \<noteq> 0 then 128 else 0) OR
     (if user_execute i \<noteq> 0 then 64 else 0) OR (if group_read i \<noteq> 0 then 32 else 0) OR
     (if group_write i \<noteq> 0 then 16 else 0) OR (if group_execute i \<noteq> 0 then 8 else 0) OR
     (if world_read i \<noteq> 0 then 4 else 0) OR (if world_write i \<noteq> 0 then 2 else 0) OR
     (if world_execute i \<noteq> 0 then 1 else 0) OR (if is_directory i \<noteq> 0 then 16384 else 0) OR
     (if is_symlink i \<noteq> 0 then 40960 else 0) OR (if is_hardlink i \<noteq> 0 \<or> is_file i \<noteq> 0 then 32768 else 0)"
  unfolding inode_get_permissions_def or_if Let_def by (simp only: or.left_neutral or.assoc)

lemma bit_if: "bit (if c then a else b) n = (if c then bit a n else bit b n)"
  by simp

lemma bit_const9:
  "bit (inode_get_permissions i) 8 = (user_read i \<noteq> 0)" "bit (inode_get_permissions i) 7 = (user_write i \<noteq> 0)"
  "bit (inode_get_permissions i) 6 = (user_execute i \<noteq> 0)" "bit (inode_get_permissions i) 5 = (group_read i \<noteq> 0)"
  "bit (inode_get_permissions i) 4 = (group_write i \<noteq> 0)" "bit (inode_get_permissions i) 3 = (group_execute i \<noteq> 0)"
  "bit (inode_get_permissions i) 2 = (world_read i \<noteq> 0)" "bit (inode_get_permissions i) 1 = (world_write i \<noteq> 0)"
  "bit (inode_get_permissions i) 0 = (world_execute i \<noteq> 0)"
  unfolding get_permissions_or bit_or_iff bit_if by simp_all

lemma and_511_eqI:
  assumes "\<And>k. k < 9 \<Longrightarrow> bit a k = bit (b :: u32) k"
  shows "a AND 511 = b AND 511"
proof (rule bit_word_eqI)
  fix n assume "n < LENGTH(32)"
  have "bit (511 :: u32) n \<longleftrightarrow> n < 9"
  proof -
    have "(511 :: u32) = mask 9" by (simp add: mask_eq_exp_minus_1)
    then show ?thesis using \<open>n < LENGTH(32)\<close> by (simp only: bit_mask_iff) auto
  qed
  then show "bit (a AND 511) n = bit (b AND 511) n" using assms [of n] by (auto simp: bit_and_iff)
qed

lemma less_9: "(k :: nat) < 9 \<Longrightarrow> k = 0 \<or> k = 1 \<or> k = 2 \<or> k = 3 \<or> k = 4 \<or> k = 5 \<or> k = 6 \<or> k = 7 \<or> k = 8"
  by linarith

text \<open>What a umask adds to a mode: its user bits, in each of the three classes.\<close>

definition umask_bits :: "u32 \<Rightarrow> u32" where
  "umask_bits um = (let u = um AND S_IRWXU in u OR drop_bit 3 u OR drop_bit 6 u)"

lemma bit_448: "k < 9 \<Longrightarrow> bit (448 :: u32) k \<longleftrightarrow> 6 \<le> k"
  by (drule less_9) (elim disjE, simp_all)

lemma umask_bits_bit: "k < 9 \<Longrightarrow> bit (umask_bits um) k \<longleftrightarrow> bit um (6 + k mod 3)"
  by (drule less_9) (elim disjE, simp_all add: umask_bits_def Let_def bit_simps bit_448)

lemma permissions_set:
  "inode_get_permissions (inode_set_permissions i perm um) AND 511 = (perm OR umask_bits um) AND 511"
proof (rule and_511_eqI)
  fix k :: nat assume k: "k < 9"
  have "bit (perm OR umask_bits um) k \<longleftrightarrow> bit perm k \<or> bit um (6 + k mod 3)"
    using umask_bits_bit [OF k] by (simp add: bit_or_iff)
  with less_9 [OF k] show "bit (inode_get_permissions (inode_set_permissions i perm um)) k = bit (perm OR umask_bits um) k"
    by (elim disjE) (simp_all add: bit_const9 bit_const9(8) [unfolded One_nat_def] set_permissions_flags)
qed

lemma permissions_kept:
  "inode_get_permissions (inode_set_permissions i perm 0) AND 511 = perm AND 511"
  using permissions_set [of i perm 0] by (simp add: umask_bits_def)

text \<open>
  Setting the permissions of an inode and reading them back gives the same nine mode
  bits, whatever the inode had before.
\<close>

theorem perms_roundtrip:
  "inode_get_permissions (inode_set_permissions i perm 0) AND 511 = perm AND 511"
  by (rule permissions_kept)

text \<open>
  The umask is added to the permissions instead of being taken off them, and only its
  user bits count, for every class: with a umask of 0777 every access is granted.
\<close>

theorem umask_grants: "inode_get_permissions (inode_set_permissions i perm 511) AND 511 = 511 AND 511"
proof (rule and_511_eqI)
  fix k :: nat assume "k < 9"
  from less_9 [OF this] show "bit (inode_get_permissions (inode_set_permissions i perm 511)) k = bit (511 :: u32) k"
    by (elim disjE) (simp_all add: bit_const9 bit_const9(8) [unfolded One_nat_def] set_permissions_flags)
qed

text \<open>
  C26. The access check decides by the mode and the umask of the last setting of the permissions:
  access is granted exactly if a class of users the caller belongs to (owner, group, or everyone)
  has all the bits the access needs, each from the class's own bits of the mode or from the user
  bits of the umask, which the code adds to every class. With a umask of 0 the mode alone decides.
  The bits of a class of the mode are never mixed with those of another.
\<close>

theorem access_by_mode_bits:
  fixes perm um :: u32
  defines "grants \<equiv> \<lambda>ok k need. ok \<and> (\<forall>b \<in> need. bit perm (k + b) \<or> bit um (6 + b))"
  shows "inode_check_permissions (inode_set_permissions i perm um) p u g own mode \<longleftrightarrow>
    (case mode of
       INODE_DONTCHECKPERMS \<Rightarrow> True
     | INODE_READ \<Rightarrow> grants (own = i_owner i) 6 {2} \<or> grants (g = i_group i) 3 {2} \<or> grants True 0 {2}
     | INODE_WRITE \<Rightarrow> grants (own = i_owner i) 6 {1} \<or> grants (g = i_group i) 3 {1} \<or> grants True 0 {1}
     | INODE_EXECUTE \<Rightarrow> grants (own = i_owner i) 6 {0} \<or> grants (g = i_group i) 3 {0} \<or> grants True 0 {0}
     | INODE_RW \<Rightarrow> grants (own = i_owner i) 6 {2, 1} \<or> grants (g = i_group i) 3 {2, 1} \<or> grants True 0 {2, 1}
     | INODE_RX \<Rightarrow> grants (own = i_owner i) 6 {2, 0} \<or> grants (g = i_group i) 3 {2, 0} \<or> grants True 0 {2, 0}
     | INODE_WX \<Rightarrow> grants (own = i_owner i) 6 {1, 0} \<or> grants (g = i_group i) 3 {1, 0} \<or> grants True 0 {1, 0}
     | INODE_RWX \<Rightarrow> grants (own = i_owner i) 6 {2, 1, 0} \<or> grants (g = i_group i) 3 {2, 1, 0} \<or> grants True 0 {2, 1, 0}
     | _ \<Rightarrow> False)"
  by (cases mode) (auto simp: inode_check_permissions_def class_check_def set_permissions_flags grants_def)

theorem access_by_mode_bits_witness:
  "inode_check_permissions (inode_set_permissions ((read_inode (zeros 512))\<lparr>i_owner := 1, i_group := 1\<rparr>) 420 0) 0 0 7 9 INODE_READ \<and>
   \<not> inode_check_permissions (inode_set_permissions ((read_inode (zeros 512))\<lparr>i_owner := 1, i_group := 1\<rparr>) 420 0) 0 0 7 9 INODE_RW \<and>
   inode_check_permissions (inode_set_permissions ((read_inode (zeros 512))\<lparr>i_owner := 1, i_group := 1\<rparr>) 420 128) 0 0 7 9 INODE_RW"
  using access_by_mode_bits [of "(read_inode (zeros 512))\<lparr>i_owner := 1, i_group := 1\<rparr>" 420 0 0 0 7 9 INODE_READ]
    access_by_mode_bits [of "(read_inode (zeros 512))\<lparr>i_owner := 1, i_group := 1\<rparr>" 420 0 0 0 7 9 INODE_RW]
    access_by_mode_bits [of "(read_inode (zeros 512))\<lparr>i_owner := 1, i_group := 1\<rparr>" 420 128 0 0 7 9 INODE_RW]
  by simp

text \<open>\<open>inode_get_mode_from_all\<close> takes any one user bit for all three.\<close>

theorem mode_from_all_widens: "S_IRWXU AND perm \<noteq> 0 \<Longrightarrow> inode_get_mode_from_all perm 0 = INODE_RWX"
  by (simp add: inode_get_mode_from_all_def mode_from_all.simps)

end
