(* ===== verification/File_Desc.thy ===== *)
theory File_Desc
  imports File_Properties Permissions
begin

text \<open>
  The system calls on open files (\<open>fs/file.c\<close>): \<open>read\<close>, \<open>write\<close>, \<open>lseek\<close>, \<open>dup\<close>, \<open>dup2\<close>,
  \<open>close\<close>, \<open>fstat\<close>, \<open>fchmod\<close>, \<open>fchown\<close>, \<open>fchdir\<close>, \<open>sync\<close>, and what \<open>open\<close> does once it has the inode.

  A process has a table of inodes, \<open>file_tab\<close>, and a table of pointers into it, \<open>file_desc\<close>:
  here a descriptor holds the index of the inode, and two descriptors with the same index
  share it. The time of day, \<open>ktime (0)\<close>, is an argument.

  The test of a descriptor lets the number 1024 pass, one past the end of the table: the
  pointer is then the first word behind it. C leaves such an access undefined: \<open>None\<close> stands
  for every access to a table outside its bounds, as for a run that does not return, and what
  is said of the calls is said of the descriptors 0 to 1023 and of the numbers the test refuses.
\<close>

abbreviation (input) MAX_FILES :: nat where "MAX_FILES \<equiv> 1024"
abbreviation (input) SSIZE_MAX :: u64 where "SSIZE_MAX \<equiv> 2147483647"

record files =
  fl_fs :: fsys
  file_tab :: "inode list"
  file_desc :: "nat option list"
  cwd :: u32
  umask :: u32

definition zero_inode :: inode where
  "zero_inode = read_inode (zeros DEV_BLOCK_SIZE)"

definition set_errno :: "int \<Rightarrow> files \<Rightarrow> files" where
  "set_errno e F = F\<lparr>fl_fs := (fl_fs F)\<lparr>fs_errno := e\<rparr>\<rparr>"

definition file_ptr :: "files \<Rightarrow> int \<Rightarrow> nat option option" where
  "file_ptr F fd =
     (if fd < 0 \<or> fd > int MAX_FILES then Some None
      else if fd = int MAX_FILES then None
      else Some (file_desc F ! nat fd))"

definition put_file :: "files \<Rightarrow> nat \<Rightarrow> inode \<Rightarrow> fsys \<Rightarrow> files" where
  "put_file F k i s = F\<lparr>fl_fs := s, file_tab := (file_tab F)[k := i]\<rparr>"

section \<open>read and write\<close>

text \<open>
  When the position is past the end both calls first transfer the gap, in blocks from the
  end of the file on, with a buffer of zeros. \<open>file_read_write\<close> moves the end, and the
  position, with each of them.
\<close>

primrec pad_blocks :: "nat \<Rightarrow> bool \<Rightarrow> fsys \<Rightarrow> inode \<Rightarrow> bytes \<Rightarrow> u64 \<Rightarrow> u64 \<Rightarrow> (file_rtvl \<times> inode \<times> bytes \<times> u64 \<times> u64 \<times> fsys) option" where
  "pad_blocks 0 reading s i z tmp n = Some (FILE_OK, i, z, tmp, n, s)"
| "pad_blocks (Suc k) reading s i z tmp n = do {
     (r, i, z, tmp, s) \<leftarrow> file_read_write s i (i_size i) 512 z reading tmp;
     if r \<noteq> FILE_OK then Some (FILE_FAIL, i, z, tmp, n, s)
     else pad_blocks k reading s i z tmp (n + tmp)
   }"

definition pad_gap :: "bool \<Rightarrow> fsys \<Rightarrow> inode \<Rightarrow> (file_rtvl \<times> inode \<times> u64 \<times> fsys) option" where
  "pad_gap reading s i =
     (if i_pos i > i_size i
      then let iter = ucast ((i_pos i - i_size i) div 512) :: u32; m = ucast ((i_pos i - i_size i) mod 512) :: u32 in do {
        (r, i, z, tmp, n, s) \<leftarrow> pad_blocks (unat iter) reading s i (zeros DEV_BLOCK_SIZE) 0 0;
        if r \<noteq> FILE_OK \<or> m = 0 then Some (r, i, n, s)
        else do {
          (r, i, z, tmp, s) \<leftarrow> file_read_write s i (i_size i) (ucast m) z reading tmp;
          Some (r, i, n + tmp, s)
        }
      }
      else Some (FILE_OK, i, 0, s))"

definition transfer :: "bool \<Rightarrow> files \<Rightarrow> nat \<Rightarrow> inode \<Rightarrow> bytes \<Rightarrow> u32 \<Rightarrow> (int \<times> bytes \<times> files) option" where
  "transfer reading F k i buf count = do {
     (r, i, n1, s) \<leftarrow> pad_gap reading (fl_fs F) i;
     if r \<noteq> FILE_OK then Some (- 1, buf, put_file F k i s)
     else do {
       (r, i, buf, n, s) \<leftarrow> file_read_write s i (i_pos i) (ucast count) buf reading 0;
       Some (if r \<noteq> FILE_OK then - 1 else sint (ucast (n + n1) :: u32), buf, put_file F k i s)
     }
   }"

definition kread :: "u32 \<Rightarrow> files \<Rightarrow> int \<Rightarrow> bytes \<Rightarrow> u32 \<Rightarrow> (int \<times> bytes \<times> files) option" where
  "kread now F fd buf count = do {
     p \<leftarrow> file_ptr F fd;
     case p of
       None \<Rightarrow> Some (- 1, buf, F)
     | Some k \<Rightarrow> transfer True F k ((file_tab F ! k)\<lparr>accessed_time := now\<rparr>) buf count
   }"

definition kwrite :: "u32 \<Rightarrow> files \<Rightarrow> int \<Rightarrow> bytes \<Rightarrow> u32 \<Rightarrow> (int \<times> bytes \<times> files) option" where
  "kwrite now F fd buf count = do {
     p \<leftarrow> file_ptr F fd;
     case p of
       None \<Rightarrow> Some (- 1, buf, F)
     | Some k \<Rightarrow> transfer False F k ((file_tab F ! k)\<lparr>modified_time := now\<rparr>) buf count
   }"

section \<open>lseek\<close>

text \<open>\<open>off_t\<close> is unsigned: a negative offset arrives as a large positive one.\<close>

definition seek_pos :: "inode \<Rightarrow> u32 \<Rightarrow> int \<Rightarrow> u64 option" where
  "seek_pos i offset whence =
     (if whence = 0 then Some (ucast offset)
      else if whence = 1 then Some (let p = i_pos i + ucast offset in if p > SSIZE_MAX then SSIZE_MAX else p)
      else if whence = 2 then Some (i_size i + ucast offset)
      else None)"

definition klseek :: "files \<Rightarrow> int \<Rightarrow> u32 \<Rightarrow> int \<Rightarrow> (u32 \<times> files) option" where
  "klseek F fd offset whence = do {
     p \<leftarrow> file_ptr F fd;
     case p of
       None \<Rightarrow> Some (- 1, F)
     | Some k \<Rightarrow>
         case seek_pos (file_tab F ! k) offset whence of
           None \<Rightarrow> Some (- 1, F)
         | Some pos \<Rightarrow> do {
             let i = (file_tab F ! k)\<lparr>i_pos := pos, iblock := INODE_NOPOS\<rparr>;
             (r, s) \<leftarrow> fs_write (fl_fs F) (sint (i_dev i)) (self i) (inode_image i);
             Some (if r \<noteq> FILE_OK then - 1 else ucast pos, put_file F k i s)
           }
   }"

section \<open>close, dup, dup2\<close>

definition shared :: "files \<Rightarrow> nat \<Rightarrow> nat \<Rightarrow> bool" where
  "shared F fd k \<longleftrightarrow> first_from (\<lambda>j. file_desc F ! j = Some k \<and> j \<noteq> fd) 0 MAX_FILES \<noteq> None"

definition set_desc :: "files \<Rightarrow> nat \<Rightarrow> nat option \<Rightarrow> files" where
  "set_desc F fd p = F\<lparr>file_desc := (file_desc F)[fd := p]\<rparr>"

definition kclose :: "u32 \<Rightarrow> files \<Rightarrow> int \<Rightarrow> (int \<times> files) option" where
  "kclose now F fd = do {
     p \<leftarrow> file_ptr F fd;
     case p of
       None \<Rightarrow> Some (- 1, set_errno EBADF F)
     | Some k \<Rightarrow>
         if shared F (nat fd) k then Some (0, set_desc F (nat fd) None)
         else do {
           let i = file_tab F ! k;
           (r, c) \<leftarrow> block_sync (fs_cache (fl_fs F)) (sint (i_dev i));
           let s = (fl_fs F)\<lparr>fs_cache := c\<rparr>;
           if r \<noteq> BLOCK_OK then Some (- 1, F\<lparr>fl_fs := s\<lparr>fs_errno := EACCES\<rparr>\<rparr>)
           else do {
             let i = i\<lparr>o_mode := 0, current := INODE_NULL, current_parent := INODE_NULL, iblock := 0, i_pos := 0, accessed_time := now\<rparr>;
             (r, s) \<leftarrow> fs_write s (sint (i_dev i)) (self i) (inode_image i);
             if r \<noteq> FILE_OK then Some (- 1, put_file F k i s)
             else Some (0, set_desc (put_file F k zero_inode s) (nat fd) None)
           }
         }
   }"

definition kdup :: "files \<Rightarrow> int \<Rightarrow> (int \<times> files) option" where
  "kdup F fd = do {
     p \<leftarrow> file_ptr F fd;
     Some (case p of
       None \<Rightarrow> (- 1, set_errno EBADF F)
     | Some k \<Rightarrow>
         case first_from (\<lambda>j. file_desc F ! j = None) 0 MAX_FILES of
           Some j \<Rightarrow> (int j, set_desc F j (Some k))
         | None \<Rightarrow> (- 1, set_errno EMFILE F))
   }"

definition kdup2 :: "u32 \<Rightarrow> files \<Rightarrow> int \<Rightarrow> int \<Rightarrow> (int \<times> files) option" where
  "kdup2 now F fd newfd = do {
     p \<leftarrow> file_ptr F fd;
     case p of
       None \<Rightarrow> Some (- 1, set_errno EBADF F)
     | Some k \<Rightarrow>
         if newfd < 0 \<or> newfd > int MAX_FILES then Some (- 1, set_errno EBADF F)
         else do {
           q \<leftarrow> file_ptr F newfd;
           if q = Some k then Some (newfd, F)
           else do {
             (r, F) \<leftarrow> (if q \<noteq> None then kclose now F newfd else Some (0, F));
             if nat newfd < MAX_FILES then Some (newfd, set_desc F (nat newfd) (Some k)) else None
           }
         }
   }"

section \<open>fstat, fchmod, fchown, fchdir, sync\<close>

record stat =
  st_dev :: u32
  st_ino :: u32
  st_mode :: u32
  st_nlink :: u32
  st_uid :: u32
  st_gid :: u32
  st_rdev :: u32
  st_size :: u32
  st_blksize :: u32
  st_blocks :: u32
  st_atime :: u32
  st_mtime :: u32
  st_ctime :: u32

definition fill_stat :: "int \<Rightarrow> inode \<Rightarrow> stat" where
  "fill_stat dev i = \<lparr>st_dev = word_of_int dev, st_ino = self i, st_mode = inode_get_permissions i, st_nlink = refcount i,
     st_uid = i_owner i, st_gid = i_group i, st_rdev = 0, st_size = ucast (i_size i), st_blksize = 512,
     st_blocks = ucast (i_size i div 512 + (if i_size i mod 512 \<noteq> 0 then 1 else 0)),
     st_atime = accessed_time i, st_mtime = modified_time i, st_ctime = create_time i\<rparr>"

text \<open>The buffer is \<open>None\<close> for a null pointer.\<close>

definition kfstat :: "nat \<Rightarrow> files \<Rightarrow> int \<Rightarrow> stat option \<Rightarrow> (int \<times> stat option \<times> files) option" where
  "kfstat nl F fd buf = do {
     p \<leftarrow> file_ptr F fd;
     Some (case p of
       None \<Rightarrow> (- 1, buf, set_errno EBADF F)
     | Some k \<Rightarrow>
         if buf = None then (- 1, None, set_errno EINVAL F)
         else (0, Some (fill_stat (master_get_dev nl (fl_fs F)) (file_tab F ! k)), F))
   }"

text \<open>Both calls change the inode in the table and write it.\<close>

definition put_inode :: "files \<Rightarrow> nat \<Rightarrow> inode \<Rightarrow> (int \<times> files) option" where
  "put_inode F k i = do {
     (r, s) \<leftarrow> fs_write (fl_fs F) (sint (i_dev i)) (self i) (inode_image i);
     Some (if r \<noteq> FILE_OK then - 1 else 0, put_file F k i s)
   }"

definition kfchmod :: "u32 \<Rightarrow> files \<Rightarrow> int \<Rightarrow> u32 \<Rightarrow> (int \<times> files) option" where
  "kfchmod now F fd mode = do {
     p \<leftarrow> file_ptr F fd;
     case p of
       None \<Rightarrow> Some (- 1, set_errno EBADF F)
     | Some k \<Rightarrow> put_inode F k (inode_set_permissions ((file_tab F ! k)\<lparr>modified_time := now\<rparr>) mode (umask F))
   }"

definition kfchown :: "u32 \<Rightarrow> files \<Rightarrow> int \<Rightarrow> u32 \<Rightarrow> u32 \<Rightarrow> (int \<times> files) option" where
  "kfchown now F fd own grp = do {
     p \<leftarrow> file_ptr F fd;
     case p of
       None \<Rightarrow> Some (- 1, set_errno EBADF F)
     | Some k \<Rightarrow> put_inode F k ((file_tab F ! k)\<lparr>i_owner := own, i_group := grp, modified_time := now\<rparr>)
   }"

definition kfchdir :: "files \<Rightarrow> int \<Rightarrow> (int \<times> files) option" where
  "kfchdir F fd = do {
     p \<leftarrow> file_ptr F fd;
     Some (case p of None \<Rightarrow> (- 1, set_errno EBADF F) | Some k \<Rightarrow> (0, F\<lparr>cwd := self (file_tab F ! k)\<rparr>))
   }"

definition ksync :: "nat \<Rightarrow> files \<Rightarrow> files option" where
  "ksync nl F = do {
     (r, c) \<leftarrow> block_sync (fs_cache (fl_fs F)) (master_get_dev nl (fl_fs F));
     let F = F\<lparr>fl_fs := (fl_fs F)\<lparr>fs_cache := c\<rparr>\<rparr>;
     Some (if r \<noteq> BLOCK_OK then set_errno EACCES F else F)
   }"

section \<open>open\<close>

text \<open>
  Truncating: the blocks each map lists are freed and then the map itself, up to and
  including the map number 0 that ends the chain. The results of the calls are ignored.
\<close>

primrec free_all :: "u32 list \<Rightarrow> fsys \<Rightarrow> int \<Rightarrow> fsys option" where
  "free_all [] s dev = Some s"
| "free_all (b # bs) s dev = (if b \<noteq> INODE_NULL then do { (r, s) \<leftarrow> inode_free_data_block s dev b; free_all bs s dev } else free_all bs s dev)"

partial_function (option) trunc_loop :: "fsys \<Rightarrow> int \<Rightarrow> u32 \<Rightarrow> block_map \<Rightarrow> fsys option" where
  "trunc_loop s dev cur bm =
     (if cur = INODE_NULL then Some s
      else do {
        let cur = bm_next bm;
        (r, buf, c) \<leftarrow> block_read (fs_cache s) dev cur (Some (bmap_image bm));
        let bm = (if r \<noteq> BLOCK_OK then bm else case buf of Some x \<Rightarrow> read_bmap x | None \<Rightarrow> bm);
        s \<leftarrow> free_all (bm_blocks bm) (s\<lparr>fs_cache := c\<rparr>) dev;
        s \<leftarrow> free_all [cur] s dev;
        trunc_loop s dev cur bm
      })"

definition open_trunc :: "u32 \<Rightarrow> fsys \<Rightarrow> int \<Rightarrow> inode \<Rightarrow> (inode \<times> fsys) option" where
  "open_trunc now s dev i = do {
     s \<leftarrow> trunc_loop s dev (i_next i) (zero_bmap\<lparr>bm_next := i_next i\<rparr>);
     let i = i\<lparr>modified_time := now, i_pos := 0, i_size := 0, i_next := INODE_NULL\<rparr>;
     (r, c) \<leftarrow> block_write (fs_cache s) dev (self i) (inode_image i);
     Some (i, s\<lparr>fs_cache := c\<rparr>)
   }"

definition open_mode :: "u32 \<Rightarrow> inode \<Rightarrow> inode" where
  "open_mode flags i =
     (if flags AND 1 \<noteq> 0 then i\<lparr>o_mode := o_mode i OR 1\<rparr>
      else if flags AND 2 \<noteq> 0 then i\<lparr>o_mode := o_mode i OR 2\<rparr>
      else if flags AND 4 \<noteq> 0 then i\<lparr>o_mode := o_mode i OR 4\<rparr>
      else i)"

definition open_pos :: "u32 \<Rightarrow> int \<Rightarrow> inode \<Rightarrow> inode" where
  "open_pos flags dev i = i\<lparr>current := INODE_NULL, i_pos := (if flags AND 1024 \<noteq> 0 then i_size i else 0),
     current_parent := INODE_NULL, iblock := 0, i_dev := word_of_int dev\<rparr>"

text \<open>
  A free entry of the file table is one with an empty path. When no descriptor is free for
  the first such entry there is none for the later ones the loop goes on to.
\<close>

definition fd_alloc :: "files \<Rightarrow> (nat \<times> nat) option" where
  "fd_alloc F =
     (case first_from (\<lambda>k. cstr (i_path (file_tab F ! k)) = []) 0 MAX_FILES of
        None \<Rightarrow> None
      | Some k \<Rightarrow>
          case first_from (\<lambda>fd. file_desc F ! fd = None) 0 MAX_FILES of
            None \<Rightarrow> None
          | Some fd \<Rightarrow> Some (fd, k))"

text \<open>\<open>open\<close> once the inode has been found or created.\<close>

definition open_inode :: "u32 \<Rightarrow> files \<Rightarrow> int \<Rightarrow> u32 \<Rightarrow> inode \<Rightarrow> (int \<times> files) option" where
  "open_inode now F dev flags i = do {
     let i = i\<lparr>accessed_time := now\<rparr>;
     (i, s) \<leftarrow> (if flags AND 512 \<noteq> 0 then open_trunc now (fl_fs F) dev i else Some (i, fl_fs F));
     let i = open_pos flags dev (open_mode flags i);
     let F = F\<lparr>fl_fs := s\<rparr>;
     Some (case fd_alloc F of
       None \<Rightarrow> (- 1, set_errno EMFILE F)
     | Some (fd, k) \<Rightarrow> (int fd, set_desc (put_file F k i s) fd (Some k)))
   }"

section \<open>The tables\<close>

definition files_ok :: "files \<Rightarrow> bool" where
  "files_ok F \<longleftrightarrow> length (file_tab F) = MAX_FILES \<and> length (file_desc F) = MAX_FILES \<and>
     (\<forall>k. Some k \<in> set (file_desc F) \<longrightarrow> k < MAX_FILES)"

text \<open>The table of descriptors as a map.\<close>

definition fds :: "files \<Rightarrow> nat \<rightharpoonup> nat" where
  "fds F fd = (if fd < length (file_desc F) then file_desc F ! fd else None)"

lemma files_fields [simp]:
  "file_desc (put_file F k i s) = file_desc F" "file_desc (set_errno e F) = file_desc F" "file_tab (set_errno e F) = file_tab F"
  "file_tab (set_desc F fd p) = file_tab F" "fl_fs (set_desc F fd p) = fl_fs F" "file_desc (set_desc F fd p) = (file_desc F)[fd := p]"
  "file_tab (put_file F k i s) = (file_tab F)[k := i]" "fl_fs (put_file F k i s) = s" "cwd (put_file F k i s) = cwd F"
  by (simp_all add: put_file_def set_errno_def set_desc_def)

lemma files_ok_keep [simp]:
  "files_ok F \<Longrightarrow> files_ok (put_file F k i s)" "files_ok F \<Longrightarrow> files_ok (set_errno e F)" "files_ok F \<Longrightarrow> files_ok (F\<lparr>fl_fs := s\<rparr>)"
  by (simp_all add: files_ok_def)

lemma files_ok_desc:
  assumes "files_ok F" "\<And>k. p = Some k \<Longrightarrow> k < MAX_FILES"
  shows "files_ok (set_desc F fd p)"
  using assms set_update_subset_insert [of "file_desc F" fd p] by (auto simp: files_ok_def)

lemma fds_set: "fd < length (file_desc F) \<Longrightarrow> fds (set_desc F fd p) = (fds F)(fd := p)"
  by (auto simp: fds_def fun_eq_iff)

lemma fds_keep [simp]: "fds (put_file F k i s) = fds F" "fds (set_errno e F) = fds F" "fds (F\<lparr>fl_fs := s\<rparr>) = fds F"
  by (simp_all add: fds_def fun_eq_iff)

lemma file_ptr_cases:
  assumes "files_ok F" "file_ptr F fd = Some p"
  obtains (bad) "p = None" "fd < 0 \<or> fd > int MAX_FILES" | (fd) "0 \<le> fd" "nat fd < MAX_FILES" "p = fds F (nat fd)"
  using assms by (cases "fd < 0 \<or> fd > int MAX_FILES") (auto simp: file_ptr_def fds_def files_ok_def split: if_splits)

lemma file_ptr_range:
  assumes "files_ok F" "file_ptr F fd = Some (Some k)"
  shows "k < MAX_FILES"
proof -
  have "nat fd < length (file_desc F)" "file_desc F ! nat fd = Some k" using assms by (auto simp: file_ptr_def files_ok_def split: if_splits)
  then have "Some k \<in> set (file_desc F)" by (metis nth_mem)
  then show ?thesis using assms(1) by (simp add: files_ok_def)
qed

lemma kclose_ok:
  assumes ok: "files_ok F" and r: "kclose now F fd = Some (v, F')"
  shows "files_ok F'"
  using r ok by (auto simp: kclose_def Let_def split: bind_splits option.splits if_splits intro!: files_ok_desc)

section \<open>The calls as steps\<close>

inductive fd_step :: "files \<Rightarrow> files \<Rightarrow> bool" where
  rd: "kread now F fd buf n = Some (v, d, F') \<Longrightarrow> fd_step F F'"
| wr: "kwrite now F fd buf n = Some (v, d, F') \<Longrightarrow> fd_step F F'"
| seek: "klseek F fd off whence = Some (p, F') \<Longrightarrow> fd_step F F'"
| cl: "kclose now F fd = Some (v, F') \<Longrightarrow> fd_step F F'"
| dp: "kdup F fd = Some (v, F') \<Longrightarrow> fd_step F F'"
| dp2: "kdup2 now F fd newfd = Some (v, F') \<Longrightarrow> fd_step F F'"
| ch: "kfchmod now F fd mode = Some (v, F') \<Longrightarrow> fd_step F F'"
| ow: "kfchown now F fd own grp = Some (v, F') \<Longrightarrow> fd_step F F'"
| op: "open_inode now F dev flags i = Some (v, F') \<Longrightarrow> fd_step F F'"

lemma transfer_ok: "transfer b F k i buf n = Some (v, d, F') \<Longrightarrow> files_ok F \<Longrightarrow> files_ok F'"
  by (auto simp: transfer_def Let_def split: bind_splits if_splits)

lemma fd_alloc_range: "fd_alloc F = Some (fd, k) \<Longrightarrow> fd < MAX_FILES \<and> k < MAX_FILES"
  by (auto simp: fd_alloc_def split: option.splits dest!: first_from_SomeD)

lemma put_inode_ok: "put_inode F k i = Some (v, F') \<Longrightarrow> files_ok F \<Longrightarrow> files_ok F'"
  by (auto simp: put_inode_def split: bind_splits)

lemma open_inode_cases:
  assumes "open_inode now F dev flags i = Some (v, F')"
  obtains (full) s where "v = - 1" "F' = set_errno EMFILE (F\<lparr>fl_fs := s\<rparr>)"
  | (found) i' s fd k where "fd_alloc (F\<lparr>fl_fs := s\<rparr>) = Some (fd, k)" "v = int fd"
      "F' = set_desc (put_file F k (open_pos flags dev (open_mode flags i')) s) fd (Some k)"
      "(if flags AND 512 \<noteq> 0 then open_trunc now (fl_fs F) dev (i\<lparr>accessed_time := now\<rparr>)
        else Some (i\<lparr>accessed_time := now\<rparr>, fl_fs F)) = Some (i', s)"
proof -
  let ?r = "if flags AND 512 \<noteq> 0 then open_trunc now (fl_fs F) dev (i\<lparr>accessed_time := now\<rparr>) else Some (i\<lparr>accessed_time := now\<rparr>, fl_fs F)"
  obtain i1 s where r: "?r = Some (i1, s)" using assms unfolding open_inode_def Let_def by (cases ?r) auto
  have p: "put_file (F\<lparr>fl_fs := s\<rparr>) k x s = put_file F k x s" for k x by (simp add: put_file_def)
  have "(v, F') = (case fd_alloc (F\<lparr>fl_fs := s\<rparr>) of None \<Rightarrow> (- 1, set_errno EMFILE (F\<lparr>fl_fs := s\<rparr>))
      | Some (fd, k) \<Rightarrow> (int fd, set_desc (put_file F k (open_pos flags dev (open_mode flags i1)) s) fd (Some k)))"
    using assms unfolding open_inode_def Let_def r by (cases "fd_alloc (F\<lparr>fl_fs := s\<rparr>)") (auto simp: p)
  then show thesis
    using full [of s] found [of s _ _ i1, OF _ _ _ r] by (cases "fd_alloc (F\<lparr>fl_fs := s\<rparr>)") auto
qed

lemma open_inode_ok:
  assumes "files_ok F" "open_inode now F dev flags i = Some (v, F')"
  shows "files_ok F'"
  using assms(2)
proof (cases rule: open_inode_cases)
  case (full s)
  then show ?thesis using assms(1) by simp
next
  case (found i' s fd k)
  then show ?thesis using assms(1) fd_alloc_range [OF found(1)] by (auto intro!: files_ok_desc)
qed

lemma fd_step_ok:
  assumes "fd_step F F'" "files_ok F"
  shows "files_ok F'"
  using assms
proof cases
  case (rd now fd buf n v d)
  then show ?thesis using assms(2) by (auto simp: kread_def split: bind_splits option.splits dest: transfer_ok)
next
  case (wr now fd buf n v d)
  then show ?thesis using assms(2) by (auto simp: kwrite_def split: bind_splits option.splits dest: transfer_ok)
next
  case (seek fd off whence p)
  then show ?thesis using assms(2) by (auto simp: klseek_def Let_def split: bind_splits option.splits)
next
  case (cl now fd v)
  then show ?thesis using kclose_ok assms(2) by blast
next
  case (dp fd v)
  then show ?thesis using assms(2) by (auto simp: kdup_def split: bind_splits option.splits intro!: files_ok_desc dest: file_ptr_range)
next
  case (dp2 now fd newfd v)
  then show ?thesis
    using assms(2) by (auto simp: kdup2_def split: bind_splits option.splits if_splits intro!: files_ok_desc dest: file_ptr_range kclose_ok)
next
  case (ch now fd mode v)
  then show ?thesis using assms(2) by (auto simp: kfchmod_def split: bind_splits option.splits dest: put_inode_ok)
next
  case (ow now fd own grp v)
  then show ?thesis using assms(2) by (auto simp: kfchown_def split: bind_splits option.splits dest: put_inode_ok)
next
  case (op now dev flags i v)
  then show ?thesis using open_inode_ok assms(2) by blast
qed

section \<open>dup and close\<close>

lemma shared_iff: "files_ok F \<Longrightarrow> shared F fd k \<longleftrightarrow> (\<exists>j. j \<noteq> fd \<and> fds F j = Some k)"
  by (auto simp: shared_def first_from_None_iff fds_def files_ok_def split: if_splits)

lemma file_ptr_fds: "files_ok F \<Longrightarrow> fd < MAX_FILES \<Longrightarrow> file_ptr F (int fd) = Some (fds F fd)"
  by (simp add: file_ptr_def fds_def files_ok_def)

lemma kdup_spec:
  assumes ok: "files_ok F" and k: "fds F fd = Some k" and j: "j < MAX_FILES" "fds F j = None" "\<forall>l < j. fds F l \<noteq> None"
  shows "kdup F (int fd) = Some (int j, set_desc F j (Some k))"
proof -
  have fd: "fd < MAX_FILES" using k ok by (simp add: fds_def files_ok_def split: if_splits)
  have "first_from (\<lambda>j. file_desc F ! j = None) 0 MAX_FILES = Some j"
  proof -
    obtain m where m: "first_from (\<lambda>j. file_desc F ! j = None) 0 MAX_FILES = Some m"
      using j ok by (cases "first_from (\<lambda>j. file_desc F ! j = None) 0 MAX_FILES") (auto simp: first_from_None_iff fds_def files_ok_def)
    have "m < MAX_FILES" "file_desc F ! m = None" "\<forall>l < m. file_desc F ! l \<noteq> None" using first_from_SomeD [OF m] by auto
    then have "m = j" using j ok by (cases m j rule: linorder_cases) (auto simp: fds_def files_ok_def)
    then show ?thesis using m by simp
  qed
  then show ?thesis using file_ptr_fds [OF ok fd] k by (simp add: kdup_def)
qed

text \<open>
  C11: After \<open>dup\<close> both descriptors are the same open file: the call returns the lowest free
  descriptor, no other descriptor changes, and reading, writing and seeking through the new
  one is the same as through the old one, the shared position included.
\<close>

theorem kdup_shares:
  assumes "files_ok F" "fds F fd = Some k" "j < MAX_FILES" "fds F j = None" "\<forall>l < j. fds F l \<noteq> None"
  shows "\<exists>F'. kdup F (int fd) = Some (int j, F') \<and> files_ok F' \<and> fds F' = (fds F)(j \<mapsto> k) \<and>
    (\<forall>now buf n. kread now F' (int j) buf n = kread now F' (int fd) buf n \<and> kwrite now F' (int j) buf n = kwrite now F' (int fd) buf n) \<and>
    (\<forall>off whence. klseek F' (int j) off whence = klseek F' (int fd) off whence)"
proof -
  let ?F = "set_desc F j (Some k)"
  have fd: "fd < MAX_FILES" using assms(1,2) by (simp add: fds_def files_ok_def split: if_splits)
  have "k < MAX_FILES" using file_ptr_range [OF assms(1), of "int fd"] file_ptr_fds [OF assms(1) fd] assms(2) by simp
  then have ok: "files_ok ?F" using assms(1) by (intro files_ok_desc) simp_all
  have f: "fds ?F = (fds F)(j \<mapsto> k)" using assms(1,3) by (intro fds_set) (simp add: files_ok_def)
  have "file_ptr ?F (int j) = file_ptr ?F (int fd)"
    unfolding file_ptr_fds [OF ok fd] file_ptr_fds [OF ok assms(3)] f using assms(2) by simp
  then show ?thesis
    using kdup_spec [OF assms] ok f by (simp add: kread_def kwrite_def klseek_def)
qed

text \<open>
  \<open>close\<close> of one of several descriptors of a file only removes the descriptor; \<open>close\<close> of the
  last one also frees the entry of the file table. In both cases every other descriptor
  keeps its file, position included.
\<close>

theorem kclose_releases:
  assumes "files_ok F" "fds F fd = Some k" "kclose now F (int fd) = Some (0, F')"
  shows "files_ok F' \<and> fds F' = (fds F)(fd := None) \<and>
    (if \<exists>j. j \<noteq> fd \<and> fds F j = Some k then file_tab F' = file_tab F \<and> fl_fs F' = fl_fs F
     else file_tab F' ! k = zero_inode \<and> (\<forall>l. l \<noteq> k \<longrightarrow> file_tab F' ! l = file_tab F ! l))"
proof -
  have fd: "fd < MAX_FILES" using assms(1,2) by (simp add: fds_def files_ok_def split: if_splits)
  have p: "file_ptr F (int fd) = Some (Some k)" using file_ptr_fds [OF assms(1) fd] assms(2) by simp
  have k: "k < length (file_tab F)" using file_ptr_range [OF assms(1) p] assms(1) by (simp add: files_ok_def)
  have l: "fd < length (file_desc F)" using assms(1) fd by (simp add: files_ok_def)
  have s: "F' = (if shared F fd k then set_desc F fd None else F') \<and>
      (\<not> shared F fd k \<longrightarrow> (\<exists>s. F' = set_desc (put_file F k zero_inode s) fd None))"
    using assms(3) p by (auto simp: kclose_def Let_def split: bind_splits if_splits) blast
  show ?thesis
  proof (cases "shared F fd k")
    case True
    then show ?thesis using s shared_iff [OF assms(1), of fd k] fds_set [OF l] kclose_ok [OF assms(1,3)] by auto
  next
    case False
    then obtain s where F': "F' = set_desc (put_file F k zero_inode s) fd None" using s by blast
    have "fds F' = (fds F)(fd := None)" unfolding F' using fds_set [of fd "put_file F k zero_inode s" None] l by simp
    then show ?thesis using False shared_iff [OF assms(1), of fd k] kclose_ok [OF assms(1,3)] k F' by auto
  qed
qed

section \<open>Sizes of integers\<close>

lemma u32_to_u64 [simp]: "unat (ucast (c :: u32) :: u64) = unat c"
proof -
  have "unat c < 2 ^ 64" using unat_lt_word32 [of c] by (rule less_trans) simp
  then show ?thesis by (simp add: unsigned_ucast_eq take_bit_nat_eq_self)
qed

lemma u32_u64_u32 [simp]: "ucast (ucast (c :: u32) :: u64) = c"
  by (simp add: word_unat_eq_iff unsigned_ucast_eq take_bit_word_eq_self)

lemma u64_to_u32: "unat (p :: u64) < 2 ^ 32 \<Longrightarrow> unat (ucast p :: u32) = unat p"
  by (simp add: unsigned_ucast_eq take_bit_nat_eq_self)

lemma u64_u32_u64: "unat (p :: u64) < 2 ^ 32 \<Longrightarrow> ucast (ucast p :: u32) = p"
  by (simp add: word_unat_eq_iff u64_to_u32)

lemma sint_u32: 
  assumes "unat (c :: u32) < 2 ^ 31" shows "sint c = int (unat c)"
proof -
  have "int (unat c) < int (2 ^ 31)" using assms unfolding of_nat_less_iff .
  then have "uint c < 2 ^ 31" by simp
  moreover have "- 2147483648 \<le> uint c" using uint_ge_0 [of c] by linarith
  ultimately show ?thesis unfolding sint_uint by (subst signed_take_bit_int_eq_self) simp_all
qed

section \<open>Reading back through descriptors\<close>

text \<open>The times and the stored place of an inode do not matter for where its file is.\<close>

lemma held_times [simp]:
  "held s dev i n a (fi\<lparr>accessed_time := t\<rparr>) ms es = held s dev i n a fi ms es"
  "held s dev i n a (fi\<lparr>modified_time := t\<rparr>) ms es = held s dev i n a fi ms es"
  "held s dev i n a (fi\<lparr>i_pos := p, iblock := b\<rparr>) ms es = held s dev i n a fi ms es"
  by (simp_all add: held_def inode_at_def inode_wf_def)

lemma seekable_times [simp]:
  "seekable (fi\<lparr>accessed_time := t\<rparr>) pos ms es = seekable fi pos ms es"
  "seekable (fi\<lparr>modified_time := t\<rparr>) pos ms es = seekable fi pos ms es"
  by (simp_all add: seekable_def seated_def)

lemma touched_times [simp]:
  "only_touched dev i s (fi\<lparr>accessed_time := t\<rparr>) ms es s' ms' es' = only_touched dev i s fi ms es s' ms' es'"
  "only_touched dev i s (fi\<lparr>modified_time := t\<rparr>) ms es s' ms' es' = only_touched dev i s fi ms es s' ms' es'"
  by (simp_all add: only_touched_def)

text \<open>A transfer at a position inside the file is one call of \<open>file_read_write\<close>.\<close>

lemma transfer_inside:
  assumes "i_pos fi \<le> i_size fi" "unat count < 2 ^ 31"
    and "file_read_write (fl_fs F) fi (i_pos fi) (ucast count) buf reading 0 = Some (FILE_OK, fi', d, ucast count, s')"
  shows "transfer reading F k fi buf count = Some (int (unat count), d, put_file F k fi' s')"
proof -
  have "pad_gap reading (fl_fs F) fi = Some (FILE_OK, fi, 0, fl_fs F)" using assms(1) by (simp add: pad_gap_def leD)
  then show ?thesis using assms(3) sint_u32 [OF assms(2)] by (simp add: transfer_def)
qed

text \<open>Seeking to a position that is found from then on.\<close>

lemma klseek_set:
  assumes ok: "files_ok F" and k: "fds F fd = Some k" and h: "held (fl_fs F) dev i (Suc n) a (file_tab F ! k) ms es"
    and pos: "unat pos < 2 ^ 32" "unat pos div 512 < length es" "pos = 0 \<or> unat pos mod 65024 \<noteq> 0" and cur: "current (file_tab F ! k) \<noteq> INODE_NULL"
  obtains F' where "klseek F (int fd) (ucast pos) 0 = Some (ucast pos, F')" "file_desc F' = file_desc F"
    "file_tab F' = (file_tab F)[k := (file_tab F ! k)\<lparr>i_pos := pos, iblock := INODE_NOPOS\<rparr>]"
    "held (fl_fs F') dev i n a (file_tab F ! k) ms es" "only_touched dev i (fl_fs F) (file_tab F ! k) ms es (fl_fs F') ms es"
    "fbyte (view (fs_cache (fl_fs F')) dev) es = fbyte (view (fs_cache (fl_fs F)) dev) es"
    "seekable ((file_tab F ! k)\<lparr>i_pos := pos, iblock := INODE_NOPOS\<rparr>) pos ms es"
proof -
  let ?i = "file_tab F ! k" and ?i' = "(file_tab F ! k)\<lparr>i_pos := pos, iblock := INODE_NOPOS\<rparr>"
  have fd: "fd < MAX_FILES" using ok k by (simp add: fds_def files_ok_def split: if_splits)
  have p: "file_ptr F (int fd) = Some (Some k)" using file_ptr_fds [OF ok fd] k by simp
  have ia: "inode_at (fl_fs F) dev i ?i" and f: "file_at (fl_fs F) dev i (Suc n) a (i_next ?i) ms es" using h by (simp_all add: held_def)
  have d: "sint (i_dev ?i) = dev" and wf: "inode_wf ?i'" using ia by (simp_all add: inode_at_def inode_wf_def)
  obtain s' where s': "fs_write (fl_fs F) dev (self ?i) (inode_image ?i') = Some (FILE_OK, s')" "file_at s' dev i n a (i_next ?i) ms es"
    "only_touched dev i (fl_fs F) ?i ms es s' ms es" "fbyte (view (fs_cache s') dev) es = fbyte (view (fs_cache (fl_fs F)) dev) es"
    by (rule write_inode_step [OF ia f wf]) simp_all
  have e: "ucast (ucast pos :: u32) = pos" using u64_u32_u64 [OF pos(1)] .
  have "klseek F (int fd) (ucast pos) 0 = Some (ucast pos, put_file F k ?i' s')"
    using p s'(1) d by (simp add: klseek_def seek_pos_def e Let_def)
  moreover have "inode_at s' dev i ?i" using inode_at_geom ia s'(3) unfolding only_touched_def by blast
  ultimately show thesis using that [of "put_file F k ?i' s'"] s'(2-4) pos cur by (simp add: held_def seekable_def)
qed

text \<open>The table after a call on the file \<open>k\<close>.\<close>

lemma put_ok: "files_ok F \<Longrightarrow> fds F fd = Some k \<Longrightarrow> file_tab (put_file F k i s) ! k = i"
proof -
  assume ok: "files_ok F" and k: "fds F fd = Some k"
  then have "fd < MAX_FILES" by (simp add: fds_def files_ok_def split: if_splits)
  then have "k < length (file_tab F)" using file_ptr_range [OF ok, of "int fd" k] file_ptr_fds [OF ok, of fd] k ok by (simp add: files_ok_def)
  then show ?thesis by simp
qed

lemma kio_ptr:
  assumes "files_ok F" "fds F fd = Some k"
  shows "kread now F (int fd) buf n = transfer True F k ((file_tab F ! k)\<lparr>accessed_time := now\<rparr>) buf n"
    "kwrite now F (int fd) buf n = transfer False F k ((file_tab F ! k)\<lparr>modified_time := now\<rparr>) buf n"
proof -
  have "fd < MAX_FILES" using assms by (simp add: fds_def files_ok_def split: if_splits)
  then have "file_ptr F (int fd) = Some (Some k)" using file_ptr_fds [OF assms(1), of fd] assms(2) by simp
  then show "kread now F (int fd) buf n = transfer True F k ((file_tab F ! k)\<lparr>accessed_time := now\<rparr>) buf n"
    "kwrite now F (int fd) buf n = transfer False F k ((file_tab F ! k)\<lparr>modified_time := now\<rparr>) buf n"
    by (simp_all add: kread_def kwrite_def)
qed

text \<open>Writing at the position of the file, with the end of the file not before it.\<close>

lemma kwrite_inside:
  fixes count now :: u32 and F :: files and k :: nat
  defines "fi \<equiv> file_tab F ! k" and "len \<equiv> ucast count :: u64"
  assumes ok: "files_ok F" "fds F fd = Some k" and pos: "pos = i_pos fi" "pos \<le> i_size fi"
    and h: "held (fl_fs F) dev i (n + io_cost (fl_fs F) i pos len) (a + 2 * rw_blocks pos len) fi ms es" and sk: "seekable fi pos ms es"
    and count: "count \<noteq> 0" "unat pos + unat count < 2 ^ 31" "length data = unat count"
  obtains F1 fi1 ms1 es1 where "kwrite now F (int fd) data count = Some (int (unat count), data, F1)"
    "files_ok F1" "fds F1 = fds F" "k < length (file_tab F1)" "file_tab F1 ! k = fi1" "held (fl_fs F1) dev i n a fi1 ms1 es1"
    "only_touched dev i (fl_fs F) fi ms es (fl_fs F1) ms1 es1" "unat pos div 512 < length es1" "current fi1 \<noteq> INODE_NULL"
    "i_size fi1 = max (i_size fi) (pos + len)"
    "fbyte (view (fs_cache (fl_fs F1)) dev) es1 = (\<lambda>x. if unat pos \<le> x \<and> x < unat pos + unat count then data ! (x - unat pos)
      else fbyte (view (fs_cache (fl_fs F)) dev) es x)"
proof -
  let ?fi = "fi\<lparr>modified_time := now\<rparr>"
  have l: "len \<noteq> 0" "unat pos + unat len < 2 ^ 32" "length data = unat len" "unat count < 2 ^ 31"
    using count by (auto simp: word_unat_eq_iff len_def)
  have h1: "held (fl_fs F) dev i (n + io_cost (fl_fs F) i pos len) (a + 2 * rw_blocks pos len) ?fi ms es" "seekable ?fi pos ms es"
    using h sk by simp_all
  obtain fi1 ms1 es1 s1 where w: "file_read_write (fl_fs F) ?fi pos len data False 0 = Some (FILE_OK, fi1, data, len, s1)"
    "held s1 dev i n a fi1 ms1 es1" "moved_to ?fi (pos + len) ms1 es1 fi1" "only_touched dev i (fl_fs F) ?fi ms es s1 ms1 es1"
    "fbyte (view (fs_cache s1) dev) es1 = (\<lambda>x. if unat pos \<le> x \<and> x < unat pos + unat len then data ! (x - unat pos)
      else fbyte (view (fs_cache (fl_fs F)) dev) es x)"
    using write_held [OF h1 l(1-3), of 0] by blast
  define F1 where "F1 = put_file F k fi1 s1"
  have kw: "kwrite now F (int fd) data count = Some (int (unat count), data, F1)"
    unfolding kio_ptr(2) [OF ok] F1_def using pos w(1) l(4) by (intro transfer_inside) (simp_all add: fi_def len_def)
  have "fd < MAX_FILES" using ok by (simp add: fds_def files_ok_def split: if_splits)
  then have kl: "k < length (file_tab F1)" using file_ptr_range [OF ok(1), of "int fd" k] file_ptr_fds [OF ok(1)] ok by (simp add: files_ok_def F1_def)
  have "unat pos div 512 < length es1" using sk w(4) prefix_length_le [of es es1] by (auto simp: seekable_def only_touched_def)
  moreover have "current fi1 \<noteq> INODE_NULL" "i_size fi1 = max (i_size fi) (pos + len)"
    using moved_size(4) [OF w(3)] moved_size(1) [OF w(3)] unfolding seated_def Let_def by (blast, simp)
  moreover have "unat len = unat count" by (simp add: len_def)
  ultimately show thesis using that [OF kw _ _ kl] ok put_ok [OF ok] w(2,4,5) by (simp add: F1_def)
qed

text \<open>
  C5: What is written through a descriptor is read back through it: after \<open>write\<close> at the
  position of the file and \<open>lseek\<close> back to it, \<open>read\<close> of the same number of bytes returns the
  buffer that was written. All three calls return what they should. The position must be
  inside the file and not the start of a block map other than the first.
\<close>

theorem write_seek_read:
  fixes F :: files and i k :: nat and count :: u32 and now now' :: u32
  defines "fi \<equiv> file_tab F ! k"
  defines "pos \<equiv> i_pos fi"
  defines "c \<equiv> io_cost (fl_fs F) i pos (ucast count)"
  assumes ok: "files_ok F" "fds F fd = Some k"
    and h: "held (fl_fs F) dev i (Suc (n + 2 * c)) (a + 4 * rw_blocks pos (ucast count)) fi ms es" and sk: "seekable fi pos ms es"
    and pos: "pos \<le> i_size fi" "pos = 0 \<or> unat pos mod 65024 \<noteq> 0"
    and count: "count \<noteq> 0" "unat pos + unat count < 2 ^ 31" "length data = unat count" "length buf = unat count"
  shows "\<exists>F1 F2 F3. kwrite now F (int fd) data count = Some (int (unat count), data, F1) \<and>
    klseek F1 (int fd) (ucast pos) 0 = Some (ucast pos, F2) \<and>
    kread now' F2 (int fd) buf count = Some (int (unat count), data, F3)"
proof -
  let ?len = "ucast count :: u64" and ?r = "rw_blocks pos (ucast count)"
  have len: "?len \<noteq> 0" "unat pos + unat ?len < 2 ^ 32" "length data = unat ?len" "length buf = unat ?len" "unat count < 2 ^ 31" "unat pos < 2 ^ 32"
    using count by (auto simp: word_unat_eq_iff)
  have "Suc (n + 2 * c) = Suc (n + c) + c" "a + 4 * ?r = (a + 2 * ?r) + 2 * ?r" by simp_all
  then have h1: "held (fl_fs F) dev i (Suc (n + c) + c) ((a + 2 * ?r) + 2 * ?r) fi ms es" using h by metis
  obtain F1 fi1 ms1 es1 where w: "kwrite now F (int fd) data count = Some (int (unat count), data, F1)"
    "files_ok F1" "fds F1 = fds F" "k < length (file_tab F1)" "file_tab F1 ! k = fi1" "held (fl_fs F1) dev i (Suc (n + c)) (a + 2 * ?r) fi1 ms1 es1"
    "only_touched dev i (fl_fs F) fi ms es (fl_fs F1) ms1 es1" "unat pos div 512 < length es1" "current fi1 \<noteq> INODE_NULL"
    "i_size fi1 = max (i_size fi) (pos + ?len)"
    "fbyte (view (fs_cache (fl_fs F1)) dev) es1 = (\<lambda>x. if unat pos \<le> x \<and> x < unat pos + unat count then data ! (x - unat pos)
      else fbyte (view (fs_cache (fl_fs F)) dev) es x)"
    by (rule kwrite_inside [OF ok, of pos dev i "Suc (n + c)" count "a + 2 * ?r" ms es data now])
      (use pos(1) h1 sk count in \<open>simp_all add: fi_def pos_def c_def\<close>)
  have ok1: "fds F1 fd = Some k" using w(3) ok(2) by simp
  let ?fi2 = "fi1\<lparr>i_pos := pos, iblock := INODE_NOPOS\<rparr>"
  obtain F2 where F2: "klseek F1 (int fd) (ucast pos) 0 = Some (ucast pos, F2)" "file_desc F2 = file_desc F1" "file_tab F2 = (file_tab F1)[k := ?fi2]"
    "held (fl_fs F2) dev i (n + c) (a + 2 * ?r) fi1 ms1 es1" "only_touched dev i (fl_fs F1) fi1 ms1 es1 (fl_fs F2) ms1 es1"
    "fbyte (view (fs_cache (fl_fs F2)) dev) es1 = fbyte (view (fs_cache (fl_fs F1)) dev) es1" "seekable ?fi2 pos ms1 es1"
    using klseek_set [OF w(2) ok1, of dev i "n + c" "a + 2 * ?r" ms1 es1 pos] w(6,8,9) len(6) pos(2) unfolding w(5) by blast
  have "fds F2 = fds F1" using F2(2) by (simp add: fds_def fun_eq_iff)
  then have ok2: "files_ok F2" "fds F2 fd = Some k" "file_tab F2 ! k = ?fi2" using w(2,4) ok1 F2(2,3) by (simp_all add: files_ok_def)
  have "io_cost (fl_fs F2) i pos ?len = c" using touched_cost(1) [OF w(7)] touched_cost(1) [OF F2(5)] by (simp add: c_def)
  then have h2: "held (fl_fs F2) dev i (n + io_cost (fl_fs F2) i pos ?len) (a + 2 * ?r) (?fi2\<lparr>accessed_time := now'\<rparr>) ms1 es1" using F2(4) by simp
  have "unat (pos + ?len) = unat pos + unat ?len" using len(2) by (simp add: unat_word_ariths)
  then have "?len \<le> pos + ?len" "pos \<le> pos + ?len" by (simp_all add: word_le_nat_alt)
  then have sz: "?len \<le> i_size fi1" "pos \<le> i_size fi1" unfolding w(10) by (simp_all add: le_max_iff_disj)
  obtain fi3 s3 where r: "file_read_write (fl_fs F2) (?fi2\<lparr>accessed_time := now'\<rparr>) pos ?len buf True 0 = Some (FILE_OK, fi3, data, ?len, s3)"
    using read_back [OF h2 _ len(1,2,4) _ len(3), of 0] F2(6,7) w(11) sz(1) by auto
  have "kread now' F2 (int fd) buf count = Some (int (unat count), data, put_file F2 k fi3 s3)"
    unfolding kio_ptr(1) [OF ok2(1,2)] ok2(3) using r sz(2) len(5) by (intro transfer_inside) simp_all
  then show ?thesis using w(1) F2(1) by blast
qed

section \<open>Witnesses\<close>

text \<open>A process with one open file, at descriptor 0.\<close>

definition demo_files :: "fsys \<Rightarrow> inode \<Rightarrow> files" where
  "demo_files s fi = \<lparr>fl_fs = s, file_tab = (replicate 1024 zero_inode)[0 := fi], file_desc = (replicate 1024 None)[0 := Some 0], cwd = 0, umask = 0\<rparr>"

lemma demo_files_ok:
  "files_ok (demo_files s fi)" "fds (demo_files s fi) 0 = Some 0" "fds (demo_files s fi) (Suc j) = None"
  "file_tab (demo_files s fi) ! 0 = fi" "fl_fs (demo_files s fi) = s"
proof -
  have "k < 1024" if "Some k \<in> set ((replicate 1024 None)[0 := Some 0])" for k :: nat
    using that set_update_subset_insert [of "replicate 1024 None" 0 "Some 0"] by auto
  then show "files_ok (demo_files s fi)" by (simp add: files_ok_def demo_files_def)
  show "fds (demo_files s fi) 0 = Some 0" "fds (demo_files s fi) (Suc j) = None" "file_tab (demo_files s fi) ! 0 = fi" "fl_fs (demo_files s fi) = s"
    by (simp_all add: fds_def demo_files_def nth_list_update)
qed

lemma demo_dup: "kdup (demo_files s fi) 0 = Some (1, set_desc (demo_files s fi) 1 (Some 0))"
  using kdup_spec [OF demo_files_ok(1,2), where j = 1] demo_files_ok(2,3) [of s fi] by (auto simp: less_Suc_eq)

theorem kdup_shares_witness:
  "\<exists>F'. kdup (demo_files boot_fs zero_inode) 0 = Some (1, F') \<and> kread 5 F' 1 [0, 0] 2 = kread 5 F' 0 [0, 0] 2"
proof -
  have "\<forall>l < (1 :: nat). fds (demo_files boot_fs zero_inode) l \<noteq> None" using demo_files_ok(2) by simp
  then show ?thesis
    using kdup_shares [OF demo_files_ok(1,2) [of boot_fs zero_inode], where j = 1] demo_files_ok(3) [of boot_fs zero_inode 0] by auto
qed

theorem kclose_releases_witness:
  "\<exists>F'. kclose 5 (set_desc (demo_files boot_fs zero_inode) 1 (Some 0)) 1 = Some (0, F') \<and> fds F' 0 = Some 0 \<and> fds F' 1 = None"
proof -
  let ?F = "set_desc (demo_files boot_fs zero_inode) 1 (Some 0)"
  have f: "fds ?F = (fds (demo_files boot_fs zero_inode))(1 \<mapsto> 0)" by (rule fds_set) (simp add: demo_files_def)
  have ok: "files_ok ?F" by (rule files_ok_desc [OF demo_files_ok(1)]) simp
  have f1: "fds ?F 1 = Some 0" "fds ?F 0 = Some 0" using f demo_files_ok(2) by simp_all
  then have "shared ?F 1 0" using shared_iff [OF ok, of 1 0] by auto
  then have c: "kclose 5 ?F (int 1) = Some (0, set_desc ?F 1 None)"
    using file_ptr_fds [OF ok, of 1] f1 by (simp add: kclose_def)
  then show ?thesis using kclose_releases [OF ok f1(1) c] f1(2) by simp
qed

text \<open>
  The tables of a process stay well-formed under any sequence of the calls: every descriptor is
  free or points into the file table.
\<close>

lemma fd_calls_typed:
  assumes "fd_step\<^sup>*\<^sup>* F F'" "files_ok F"
  shows "files_ok F'"
  using assms by (induction rule: rtranclp_induct) (auto intro: fd_step_ok)

text \<open>
  \<open>dup2\<close> refuses a number outside the table, does nothing when both descriptors already share the
  file, and points a free descriptor to the file of the other.
\<close>

lemma kdup2_redirects:
  assumes ok: "files_ok F" "fds F fd = Some k"
  shows "j < 0 \<or> j > int MAX_FILES \<Longrightarrow> kdup2 now F (int fd) j = Some (- 1, set_errno EBADF F)"
    and "fds F n = Some k \<Longrightarrow> kdup2 now F (int fd) (int n) = Some (int n, F)"
    and "n < MAX_FILES \<Longrightarrow> fds F n = None \<Longrightarrow>
      \<exists>F'. kdup2 now F (int fd) (int n) = Some (int n, F') \<and> fds F' = (fds F)(n \<mapsto> k) \<and> file_tab F' = file_tab F \<and> fl_fs F' = fl_fs F"
proof -
  have fd: "fd < MAX_FILES" using ok by (simp add: fds_def files_ok_def split: if_splits)
  then have p: "file_ptr F (int fd) = Some (Some k)" using file_ptr_fds [OF ok(1)] ok(2) by simp
  then show "j < 0 \<or> j > int MAX_FILES \<Longrightarrow> kdup2 now F (int fd) j = Some (- 1, set_errno EBADF F)" by (auto simp: kdup2_def)
  show "kdup2 now F (int fd) (int n) = Some (int n, F)" if "fds F n = Some k"
  proof -
    have "n < MAX_FILES" using that ok(1) by (simp add: fds_def files_ok_def split: if_splits)
    then show ?thesis using p file_ptr_fds [OF ok(1), of n] that by (simp add: kdup2_def)
  qed
  show "\<exists>F'. kdup2 now F (int fd) (int n) = Some (int n, F') \<and> fds F' = (fds F)(n \<mapsto> k) \<and> file_tab F' = file_tab F \<and> fl_fs F' = fl_fs F"
    if n: "n < MAX_FILES" "fds F n = None"
  proof -
    have "n < length (file_desc F)" using n ok(1) by (simp add: files_ok_def)
    then show ?thesis using p file_ptr_fds [OF ok(1), of n] n fds_set [of n F "Some k"] by (simp add: kdup2_def)
  qed
qed

theorem write_seek_read_witness:
  "\<exists>F F1 F2 F3. kwrite 5 F 0 [7, 8] 2 = Some (2, [7, 8], F1) \<and> klseek F1 0 3 0 = Some (3, F2) \<and> kread 6 F2 0 [0, 0] 2 = Some (2, [7, 8], F3)"
proof -
  obtain s fi ms es where d: "held s 0 0 110 500 fi ms es" "moved_to demo_inode 3 ms es fi" "map_len BMAP (master_tab s ! 0) = 1"
    by (rule demo_file) blast
  have z: "i_pos fi = 3" "i_size fi = 3"
    using moved_size(1,2) [OF d(2)] by (simp_all add: demo_inode_def read_inode_def fld_zeros)
  have sk: "seekable fi 3 ms es" using demo_seek [OF d(1,2), of 3] by simp
  have h: "held s 0 0 (Suc (101 + 2 * io_cost s 0 3 2)) (500 + 4 * rw_blocks 3 2) fi ms es"
    using d(1,3) by (simp add: io_cost_def rw_cost_def rw_blocks_def)
  show ?thesis
    using write_seek_read [where i = 0 and F = "demo_files s fi" and k = 0 and count = 2 and fd = 0 and dev = 0 and n = 101 and a = 500
      and ms = ms and es = es and data = "[7, 8]" and buf = "[0, 0]" and now = 5 and now' = 6]
      demo_files_ok [of s fi] h sk z by fastforce
qed

text \<open>
  \<open>lseek\<close> relative to the position cannot go back: the offset is unsigned, so a negative one
  counts as more than \<open>2 ^ 31\<close> and the position is set to the largest value.
\<close>

lemma lseek_back_clamps:
  assumes "0 < d" "unat d \<le> unat (i_pos i)" "unat (i_pos i) < 2 ^ 31"
  shows "seek_pos i (- d) 1 = Some SSIZE_MAX"
proof -
  have "unat (0 - d) = 2 ^ 32 - unat d" using assms(1) by (subst unat_sub_if') (simp add: word_less_nat_alt)
  then have u: "unat (ucast (- d) :: u64) = 2 ^ 32 - unat d" by simp
  have "unat (i_pos i + ucast (- d)) = unat (i_pos i) + (2 ^ 32 - unat d)"
    unfolding unat_word_ariths u using assms(3) by simp
  then have "SSIZE_MAX < i_pos i + ucast (- d)" using assms by (simp add: word_less_nat_alt)
  then show ?thesis by (simp add: seek_pos_def Let_def)
qed

section \<open>open\<close>

text \<open>
  C10: \<open>open\<close>, once it has the inode, gives the file its own place, provided every open file has a
  path: the descriptor it returns is the lowest free one, it points to an entry of the file table
  no descriptor used, and no other descriptor or entry changes. The entry is the inode that was
  opened, with the time of access, the open mode, the device and the position set: the start of
  the file, or its end with \<open>O_APPEND\<close>. Without \<open>O_TRUNC\<close> the file system does not change; with it
  the file system is the one the truncation leaves and the inode has size 0 and no blocks.
\<close>

theorem open_gives_fresh:
  assumes "files_ok F" "\<forall>f k. fds F f = Some k \<longrightarrow> cstr (i_path (file_tab F ! k)) \<noteq> []"
    and "open_inode now F dev flags i = Some (int fd, F')"
  shows "fds F fd = None \<and> (\<forall>j < fd. fds F j \<noteq> None) \<and> (\<exists>k i'. fds F' = (fds F)(fd \<mapsto> k) \<and> k \<notin> ran (fds F) \<and>
    file_tab F' ! k = open_pos flags dev (open_mode flags i') \<and>
    i_pos (file_tab F' ! k) = (if flags AND 1024 \<noteq> 0 then i_size i' else 0) \<and>
    (\<forall>l. l \<noteq> k \<longrightarrow> file_tab F' ! l = file_tab F ! l) \<and>
    (if flags AND 512 = 0 then fl_fs F' = fl_fs F \<and> i' = i\<lparr>accessed_time := now\<rparr>
     else open_trunc now (fl_fs F) dev (i\<lparr>accessed_time := now\<rparr>) = Some (i', fl_fs F') \<and>
       i' = i\<lparr>accessed_time := now, modified_time := now, i_pos := 0, i_size := 0, i_next := INODE_NULL\<rparr>))"
proof -
  obtain i' s k where a: "fd_alloc (F\<lparr>fl_fs := s\<rparr>) = Some (fd, k)"
    and F': "F' = set_desc (put_file F k (open_pos flags dev (open_mode flags i')) s) fd (Some k)"
    and t: "(if flags AND 512 \<noteq> 0 then open_trunc now (fl_fs F) dev (i\<lparr>accessed_time := now\<rparr>)
      else Some (i\<lparr>accessed_time := now\<rparr>, fl_fs F)) = Some (i', s)"
    using assms(3) by (cases rule: open_inode_cases) auto
  have k: "k < MAX_FILES" "cstr (i_path (file_tab F ! k)) = []" and fd: "fd < MAX_FILES" "file_desc F ! fd = None"
      "\<forall>j < fd. file_desc F ! j \<noteq> None"
    using a by (auto simp: fd_alloc_def split: option.splits dest!: first_from_SomeD)
  have l: "fd < length (file_desc F)" "k < length (file_tab F)" using assms(1) fd(1) k(1) by (simp_all add: files_ok_def)
  have "fds F' = (fds F)(fd \<mapsto> k)"
    unfolding F' using fds_set [of fd "put_file F k (open_pos flags dev (open_mode flags i')) s"] l(1) by simp
  moreover have "k \<notin> ran (fds F)" using assms(2) k(2) by (auto simp: ran_def)
  moreover have "fds F fd = None" "\<forall>j < fd. fds F j \<noteq> None" using fd l(1) by (simp_all add: fds_def)
  moreover have "file_tab F' ! k = open_pos flags dev (open_mode flags i')" "\<forall>m. m \<noteq> k \<longrightarrow> file_tab F' ! m = file_tab F ! m"
    "fl_fs F' = s" unfolding F' using l(2) by simp_all
  moreover have "i_size (open_mode flags i') = i_size i'" by (simp add: open_mode_def)
  ultimately show ?thesis using t
    by (intro conjI exI [of _ k] exI [of _ i']) (auto simp: open_pos_def open_trunc_def Let_def split: bind_splits if_splits)
qed

text \<open>
  When a file is truncated the chain of maps is followed one step too far: block 0 of the
  device is read as a block map and the blocks it seems to list are freed.
\<close>

lemma truncate_frees_by_block_0:
  assumes "cur \<noteq> INODE_NULL" "bm_next bm = 0" "block_read (fs_cache s) dev 0 (Some (bmap_image bm)) = Some (BLOCK_OK, Some d, c)"
  shows "trunc_loop s dev cur bm = free_all (bm_blocks (read_bmap d)) (s\<lparr>fs_cache := c\<rparr>) dev"
  using assms by (subst trunc_loop.simps) (simp add: Let_def trunc_loop.simps [of _ dev 0])

section \<open>fchmod and fstat\<close>

text \<open>
  C12: What \<open>fchmod\<close> sets is what \<open>fstat\<close> reports, through any descriptor of the file, and it is in
  the inode on the device: the nine mode bits are those of the given mode together with the user
  bits of the umask of the process in all three classes, which the code adds (\<open>umask_bits\<close>). With
  a umask of 0 they are the mode's own.
\<close>

theorem fchmod_fstat:
  fixes mode :: u32
  assumes ok: "files_ok F" "fds F fd = Some k" "fds F fd' = Some k"
    and h: "held (fl_fs F) dev i (Suc n) a (file_tab F ! k) ms es"
  shows "\<exists>F' st. kfchmod now F (int fd) mode = Some (0, F') \<and> kfstat nl F' (int fd') (Some buf) = Some (0, Some st, F') \<and>
    st_mode st AND 511 = (mode OR umask_bits (umask F)) AND 511 \<and> st_mtime st = now \<and>
    inode_get_permissions (read_inode (view (fs_cache (fl_fs F')) dev (self (file_tab F ! k)))) AND 511 =
      (mode OR umask_bits (umask F)) AND 511"
proof -
  let ?i = "file_tab F ! k"
  let ?i' = "inode_set_permissions (?i\<lparr>modified_time := now\<rparr>) mode (umask F)"
  have fd: "fd < MAX_FILES" "fd' < MAX_FILES" using ok by (simp_all add: fds_def files_ok_def split: if_splits)
  have p: "file_ptr F (int fd) = Some (Some k)" "file_ptr F (int fd') = Some (Some k)" using file_ptr_fds [OF ok(1)] fd ok(2,3) by simp_all
  have ia: "inode_at (fl_fs F) dev i ?i" and f: "file_at (fl_fs F) dev i (Suc n) a (i_next ?i) ms es" using h by (simp_all add: held_def)
  have e: "i_dev ?i' = i_dev ?i" "self ?i' = self ?i" "modified_time ?i' = now" "inode_wf ?i' = inode_wf ?i"
    by (simp_all add: inode_set_permissions_def Let_def inode_wf_def split: prod.splits)
  have wf: "inode_wf ?i'" and d: "sint (i_dev ?i) = dev" using ia e(4) by (simp_all add: inode_at_def)
  obtain s' where s': "fs_write (fl_fs F) dev (self ?i) (inode_image ?i') = Some (FILE_OK, s')" "view (fs_cache s') dev (self ?i) = inode_image ?i'"
    by (rule write_inode_step [OF ia f wf e(2)]) blast
  have m: "inode_get_permissions ?i' AND 511 = (mode OR umask_bits (umask F)) AND 511" by (rule permissions_set)
  let ?F = "put_file F k ?i' s'"
  have "kfchmod now F (int fd) mode = Some (0, ?F)" using p(1) s'(1) d e by (simp add: kfchmod_def put_inode_def)
  moreover have "kfstat nl ?F (int fd') (Some buf) = Some (0, Some (fill_stat (master_get_dev nl s') ?i'), ?F)"
  proof -
    have "file_ptr ?F = file_ptr F" by (simp add: file_ptr_def fun_eq_iff)
    then have "file_ptr ?F (int fd') = Some (Some k)" using p(2) by simp
    then show ?thesis using put_ok [OF ok(1,2), of ?i' s'] by (simp add: kfstat_def)
  qed
  moreover have "read_inode (inode_image ?i') = ?i'" by (rule read_inode_image [OF wf])
  ultimately show ?thesis using m s'(2) e(3) by (simp add: fill_stat_def)
qed

theorem open_gives_fresh_witness:
  "\<exists>F'. open_inode 5 (demo_files boot_fs (zero_inode\<lparr>i_path := 47 # zeros 255\<rparr>)) 0 4 zero_inode = Some (1, F') \<and> fds F' 1 = Some 1"
proof -
  let ?i = "zero_inode\<lparr>i_path := 47 # zeros 255\<rparr>"
  let ?F = "demo_files boot_fs ?i"
  have z: "cstr (i_path zero_inode) = []" by (simp add: zero_inode_def read_inode_def cstr_def chunk_def zeros_def)
  have n: "cstr (i_path ?i) \<noteq> []" by (simp add: cstr_def)
  have p: "\<forall>f k. fds ?F f = Some k \<longrightarrow> cstr (i_path (file_tab ?F ! k)) \<noteq> []"
    using n by (auto simp: fds_def demo_files_def nth_list_update split: if_splits)
  have f: "first_from (\<lambda>k. cstr (i_path (file_tab ?F ! k)) = []) 0 1024 = Some 1" "first_from (\<lambda>fd. file_desc ?F ! fd = None) 0 1024 = Some 1"
    using n z by (simp_all add: first_from.simps demo_files_def nth_list_update)
  then have "fd_alloc ?F = Some (1, 1)" by (simp add: fd_alloc_def)
  then have o: "\<exists>F'. open_inode 5 ?F 0 4 zero_inode = Some (int 1, F')" by (simp add: open_inode_def Let_def demo_files_def)
  then obtain F' where F': "open_inode 5 ?F 0 4 zero_inode = Some (int 1, F')" by blast
  obtain k where k: "fds F' = (fds ?F)(1 \<mapsto> k)" "k \<notin> ran (fds ?F)" using open_gives_fresh [OF demo_files_ok(1) p F'] by blast
  have "F' = set_desc (put_file ?F 1 (open_pos 4 0 (open_mode 4 (zero_inode\<lparr>accessed_time := 5\<rparr>))) boot_fs) 1 (Some 1)"
    using F' \<open>fd_alloc ?F = Some (1, 1)\<close> by (simp add: open_inode_def Let_def demo_files_def)
  then have "fds F' 1 = Some 1" by (simp add: fds_def demo_files_def)
  then show ?thesis using F' by auto
qed

theorem fchmod_fstat_witness:
  "\<exists>F F' st. kfchmod 9 F 0 0x1A4 = Some (0, F') \<and> kfstat 0 F' 0 (Some (fill_stat 0 zero_inode)) = Some (0, Some st, F') \<and> st_mode st AND 511 = 0x1A4"
proof -
  obtain s fi ms es where d: "held s 0 0 110 500 fi ms es" by (rule demo_file) blast
  have "held (fl_fs (demo_files s fi)) 0 0 (Suc 109) 500 (file_tab (demo_files s fi) ! 0) ms es" using d demo_files_ok(4,5) by simp
  moreover have "umask_bits (umask (demo_files s fi)) = 0" by (simp add: demo_files_def umask_bits_def)
  ultimately show ?thesis
    using fchmod_fstat [OF demo_files_ok(1,2,2), where nl = 0 and now = 9 and mode = "0x1A4" and buf = "fill_stat 0 zero_inode"] by fastforce
qed

end
