(* ===== verification/Paths.thy ===== *)
theory Paths
  imports Inode_Layout
begin

text \<open>
  Path names (\<open>fs/paths.c\<close>). A path is the list of its characters before the NUL; \<open>get_next_path\<close> works
  in place on a buffer of \<open>MAX_PATH\<close> bytes, and the pointers it returns are indices of the buffer. \<open>None\<close> is
  an access outside a buffer.
\<close>

abbreviation slash :: u8 where "slash \<equiv> 0x2F"
abbreviation dot :: u8 where "dot \<equiv> 0x2E"

definition at :: "bytes \<Rightarrow> nat \<Rightarrow> u8 option" where
  "at buf i = (if i < length buf then Some (buf ! i) else None)"

section \<open>Operations\<close>

text \<open>\<open>push_front\<close>: \<open>Some None\<close> is NULL. With exactly \<open>MAX_PATH\<close> characters the NUL does not fit \<open>res_path\<close>.\<close>

definition push_front :: "bytes \<Rightarrow> bytes \<Rightarrow> bytes option option" where
  "push_front dst src =
     (if length dst + length src > MAX_PATH then Some None
      else if length dst + length src = MAX_PATH then None
      else Some (Some (src @ dst)))"

text \<open>\<open>while (path[i++] != 0);\<close>\<close>

function skip_end :: "bytes \<Rightarrow> nat \<Rightarrow> nat option" where
  "skip_end buf i = (if i < length buf then if buf ! i \<noteq> 0 then skip_end buf (Suc i) else Some (Suc i) else None)"
  by pat_completeness auto
termination
  by (relation "measure (\<lambda>(buf, i). length buf - i)") auto

declare skip_end.simps [simp del]

text \<open>
  The result is the index of the component, or \<open>None\<close> for NULL, the new \<open>*start\<close> and the buffer. The test
  for \<open>.\<close> reads one byte ahead and the test for \<open>..\<close> two, when the bytes before match.
\<close>

definition is_dot :: "bytes \<Rightarrow> nat \<Rightarrow> bool option" where
  "is_dot path i = do {
     c \<leftarrow> at path i;
     if c = dot then do { d \<leftarrow> at path (i + 1); Some (d = 0) } else Some False
   }"

definition is_dotdot :: "bytes \<Rightarrow> nat \<Rightarrow> bool option" where
  "is_dotdot path i = do {
     c \<leftarrow> at path i;
     if c = dot
     then do {
       d \<leftarrow> at path (i + 1);
       if d = dot then do { e \<leftarrow> at path (i + 2); Some (e = 0) } else Some False
     }
     else Some False
   }"

definition get_next_path :: "nat \<Rightarrow> bytes \<Rightarrow> (nat option \<times> nat \<times> bytes) option" where
  "get_next_path start path = do {
     d \<leftarrow> is_dot path start;
     if d then Some (Some start, start + 1, path)
     else do {
       dd \<leftarrow> is_dotdot path start;
       if dd then Some (Some start, start + 2, path)
       else case first_from (\<lambda>i. path ! i = slash) start MAX_PATH of
         Some i \<Rightarrow> Some (Some start, i, path[i := 0])
       | None \<Rightarrow> do {
           c \<leftarrow> at path start;
           if c \<noteq> 0 then do { i \<leftarrow> skip_end path start; Some (Some start, i, path) }
           else Some (None, start, path)
         }
     }
   }"

text \<open>The loop of every caller: the indices of all components, and the buffer at the end.\<close>

partial_function (option) path_loop :: "nat \<Rightarrow> bytes \<Rightarrow> (nat list \<times> bytes) option" where
  "path_loop start path = do {
     (p, start, path) \<leftarrow> get_next_path start path;
     case p of
       None \<Rightarrow> Some ([], path)
     | Some j \<Rightarrow> do { (tab, path) \<leftarrow> path_loop (start + 1) path; Some (j # tab, path) }
   }"

text \<open>A path in a cleared buffer, and the table of components as strings.\<close>

definition path_buf :: "bytes \<Rightarrow> bytes" where
  "path_buf s = s @ zeros (MAX_PATH - length s)"

definition path_tab :: "bytes \<Rightarrow> bytes list option" where
  "path_tab s = do { (tab, buf) \<leftarrow> path_loop 0 (path_buf s); Some (map (\<lambda>j. cstr (drop j buf)) tab) }"

text \<open>The first and the last slash; \<open>last\<close> is \<open>-1\<close> and \<open>first\<close> 0 when there is none.\<close>

definition last_slash :: "bytes \<Rightarrow> nat option" where
  "last_slash s = (case first_from (\<lambda>i. rev s ! i = slash) 0 (length s) of Some i \<Rightarrow> Some (length s - 1 - i) | None \<Rightarrow> None)"

definition first_slash :: "bytes \<Rightarrow> nat option" where
  "first_slash s = first_from (\<lambda>i. s ! i = slash) 0 (length s)"

text \<open>The buffer \<open>parent\<close> is unchanged when the path has no slash, and when only the last loop fails.\<close>

definition get_parent_dir :: "bytes \<Rightarrow> bytes \<Rightarrow> bytes" where
  "get_parent_dir path par =
     (if path = [dot] \<or> path = [dot, dot] then path
      else case last_slash path of
        None \<Rightarrow> par
      | Some l \<Rightarrow>
          if first_slash path = Some l then [slash]
          else case last_slash (take l path) of
            Some i \<Rightarrow> take (l - (i + 1)) (drop (i + 1) path)
          | None \<Rightarrow> par)"

definition get_parent_path :: "bytes \<Rightarrow> bytes \<Rightarrow> bytes" where
  "get_parent_path path par =
     (if path = [dot] \<or> path = [dot, dot] then path
      else case last_slash path of
        None \<Rightarrow> par
      | Some i \<Rightarrow>
          if i \<noteq> (case first_slash path of Some f \<Rightarrow> f | None \<Rightarrow> 0) then take i path else [slash])"

section \<open>Splitting a path\<close>

text \<open>What the loop means: the pieces between the slashes, without an empty piece at the end.\<close>

function split_path :: "bytes \<Rightarrow> bytes list" where
  "split_path s =
     (if s = [] then []
      else takeWhile (\<lambda>c. c \<noteq> slash) s # split_path (drop (Suc (length (takeWhile (\<lambda>c. c \<noteq> slash) s))) s))"
  by pat_completeness auto
termination
  by (relation "measure length") auto

declare split_path.simps [simp del]

text \<open>A buffer that holds \<open>s\<close> at its position \<open>k\<close>, with NULs behind it.\<close>

definition holds :: "bytes \<Rightarrow> nat \<Rightarrow> bytes \<Rightarrow> bool" where
  "holds buf k s \<longleftrightarrow> length buf = MAX_PATH \<and> nul_free s \<and> k + length s < MAX_PATH \<and>
     drop k buf = s @ zeros (MAX_PATH - k - length s)"

lemma holdsD:
  assumes "holds buf k s"
  shows "length buf = MAX_PATH" "nul_free s" "k + length s < MAX_PATH" "drop k buf = s @ zeros (MAX_PATH - k - length s)"
  using assms by (simp_all add: holds_def)

lemma holds_nth:
  assumes "holds buf k s" "k + i < MAX_PATH"
  shows "buf ! (k + i) = (if i < length s then s ! i else 0)" "at buf (k + i) = Some (if i < length s then s ! i else 0)"
proof -
  have "buf ! (k + i) = drop k buf ! i" using holdsD(1,3) [OF assms(1)] by (intro nth_drop [symmetric]) simp
  also have "\<dots> = (s @ zeros (MAX_PATH - k - length s)) ! i" unfolding holdsD(4) [OF assms(1)] ..
  also have "\<dots> = (if i < length s then s ! i else 0)" using assms(2) by (simp add: nth_append)
  finally show "buf ! (k + i) = (if i < length s then s ! i else 0)" .
  then show "at buf (k + i) = Some (if i < length s then s ! i else 0)"
    using assms by (simp add: at_def holds_def)
qed

lemma nul_free_nth: "nul_free s \<Longrightarrow> i < length s \<Longrightarrow> s ! i \<noteq> 0"
  by (metis nth_mem nul_free_def)

lemma dots_found:
  assumes h: "holds buf k s" and room: "k + length s \<le> 253"
  shows "is_dot buf k = Some (s = [dot])" "is_dotdot buf k = Some (s = [dot, dot])"
proof -
  have nf: "nul_free s" using h by (simp add: holds_def)
  have a: "at buf k = Some (if s = [] then 0 else s ! 0)" "at buf (k + 1) = Some (if 1 < length s then s ! 1 else 0)"
      "at buf (k + 2) = Some (if 2 < length s then s ! 2 else 0)"
    using holds_nth(2) [OF h, of 0] holds_nth(2) [OF h, of 1] holds_nth(2) [OF h, of 2] room by simp_all
  note nz = nul_free_nth [OF nf, of 1] nul_free_nth [OF nf, of 2]
  show "is_dot buf k = Some (s = [dot])"
    using a(1,2) nz(1) by (cases s rule: remdups_adj.cases) (auto simp: is_dot_def)
  show "is_dotdot buf k = Some (s = [dot, dot])"
  proof (cases s rule: remdups_adj.cases)
    case (3 x y xs)
    then show ?thesis using a nz by (cases xs) (auto simp: is_dotdot_def)
  qed (use a in \<open>auto simp: is_dotdot_def\<close>)
qed

lemma skip_end_holds:
  assumes h: "holds buf k s"
  shows "i \<le> length s \<Longrightarrow> skip_end buf (k + i) = Some (k + length s + 1)"
proof (induction "length s - i" arbitrary: i)
  case 0
  then have "i = length s" by simp
  then show ?case using holds_nth(1) [OF h, of i] h by (subst skip_end.simps) (auto simp: holds_def)
next
  case (Suc n)
  then have i: "i < length s" by simp
  have "skip_end buf (k + Suc i) = Some (k + length s + 1)" using Suc by (intro Suc.hyps(1)) auto
  moreover have "buf ! (k + i) \<noteq> 0" "k + i < length buf"
    using holds_nth(1) [OF h, of i] h i nul_free_nth [of s i] by (auto simp: holds_def)
  ultimately show ?case by (subst skip_end.simps) simp
qed

lemma takeWhile_short: "x \<in> set s \<Longrightarrow> length (takeWhile (\<lambda>c. c \<noteq> x) s) < length s"
  by (induction s) auto

lemma slash_found:
  assumes h: "holds buf k s" and c: "c = takeWhile (\<lambda>c. c \<noteq> slash) s"
  shows "first_from (\<lambda>i. buf ! i = slash) k MAX_PATH = (if slash \<in> set s then Some (k + length c) else None)"
proof -
  have below: "buf ! (k + i) \<noteq> slash" if "k + i < MAX_PATH" "i < length c \<or> slash \<notin> set s" for i
  proof (cases "i < length s")
    case True
    then have "s ! i \<noteq> slash"
      using that c by (metis (mono_tags, lifting) nth_mem set_takeWhileD takeWhile_nth)
    then show ?thesis using holds_nth(1) [OF h that(1)] True by simp
  next
    case False
    then show ?thesis using holds_nth(1) [OF h that(1)] by simp
  qed
  show ?thesis
  proof (cases "slash \<in> set s")
    case True
    then have lt: "length c < length s" and at_c: "s ! length c = slash"
      using c nth_length_takeWhile [of "\<lambda>c. c \<noteq> slash" s] takeWhile_short [of slash s] by auto
    have kb: "k + length s < MAX_PATH" using h by (simp add: holds_def)
    have "first_from (\<lambda>i. buf ! i = slash) k MAX_PATH = Some (k + length c)"
    proof (rule first_from_SomeI)
      show "buf ! (k + length c) = slash" using holds_nth(1) [OF h, of "length c"] lt at_c kb by simp
      show "\<not> buf ! j = slash" if "k \<le> j" "j < k + length c" for j
      proof -
        have "j - k < length c" using that by arith
        then show ?thesis using below [of "j - k"] that lt kb by simp
      qed
    qed (use lt kb in auto)
    then show ?thesis using True by simp
  next
    case False
    have "\<not> buf ! j = slash" if "k \<le> j" "j < MAX_PATH" for j using below [of "j - k"] that False by simp
    then have "first_from (\<lambda>i. buf ! i = slash) k MAX_PATH = None" unfolding first_from_None_iff by blast
    then show ?thesis using False by simp
  qed
qed

lemma get_next_end:
  assumes "holds buf k []"
  shows "get_next_path k buf = Some (None, k, buf)"
proof -
  have "at buf k = Some 0" using holds_nth(2) [OF assms, of 0] assms by (simp add: holds_def)
  then show ?thesis using slash_found [OF assms, of "[]"]
    by (simp add: get_next_path_def is_dot_def is_dotdot_def)
qed

lemma path_loop_end: "holds buf k [] \<Longrightarrow> path_loop k buf = Some ([], buf)"
  by (subst path_loop.simps) (simp add: get_next_end)

lemma holds_behind:
  assumes "holds buf k s" "k + length s \<le> j" "j < MAX_PATH"
  shows "holds buf j []"
proof -
  have "drop j buf = drop (j - k) (drop k buf)" using assms by simp
  also have "\<dots> = zeros (MAX_PATH - j)" using assms by (simp add: holds_def zeros_def)
  finally show ?thesis using assms by (simp add: holds_def nul_free_def)
qed

lemma holds_slash:
  assumes h: "holds buf k s" and c: "c = takeWhile (\<lambda>c. c \<noteq> slash) s" and sl: "slash \<in> set s"
  shows "holds (buf[k + length c := 0]) (Suc (k + length c)) (drop (Suc (length c)) s)"
proof -
  have lt: "length c < length s" using takeWhile_short [OF sl] c by simp
  have "drop (Suc (k + length c)) buf = drop (Suc (length c)) (drop k buf)" by (simp add: ac_simps)
  also have "\<dots> = drop (Suc (length c)) s @ zeros (MAX_PATH - k - length s)"
    unfolding holdsD(4) [OF h] using lt by simp
  finally have "drop (Suc (k + length c)) buf = drop (Suc (length c)) s @ zeros (MAX_PATH - k - length s)" .
  moreover have "nul_free (drop (Suc (length c)) s)"
    using h by (auto simp: holds_def nul_free_def dest: in_set_dropD)
  ultimately show ?thesis using holdsD(1,3) [OF h] lt unfolding holds_def by simp
qed

lemma component_string:
  assumes h: "holds buf k s" and c: "c = takeWhile (\<lambda>c. c \<noteq> slash) s" and room: "k + length c < MAX_PATH"
    and buf': "length buf' = length buf" "take (k + length c) buf' = take (k + length c) buf" "buf' ! (k + length c) = 0"
  shows "cstr (drop k buf') = c"
proof -
  have len: "length buf' = MAX_PATH" using h buf' by (simp add: holds_def)
  have "take (length c) (drop k buf') = take (length c) (drop k buf)"
    using arg_cong [OF buf'(2), of "drop k"] by (simp add: drop_take)
  also have "\<dots> = take (length c) s" unfolding holdsD(4) [OF h] using c by (simp add: length_takeWhile_le)
  also have "\<dots> = c" unfolding c by (rule takeWhile_eq_take [symmetric])
  finally have "drop k buf' = c @ drop (length c) (drop k buf')"
    using append_take_drop_id [of "length c" "drop k buf'"] by simp
  also have "drop (length c) (drop k buf') = 0 # drop (Suc (k + length c)) buf'"
    using buf'(3) room len Cons_nth_drop_Suc [of "k + length c" buf'] by (simp add: add.commute)
  finally have "drop k buf' = c @ 0 # drop (Suc (k + length c)) buf'" .
  moreover have "nul_free c" using h c by (auto simp: holds_def nul_free_def dest: set_takeWhileD)
  ultimately show ?thesis by (simp add: cstr_def nul_free_def takeWhile_tail takeWhile_append)
qed


text \<open>The loop on a buffer that holds \<open>s\<close> at \<open>k\<close>: the components of \<open>s\<close>; the bytes before \<open>k\<close> stay.\<close>

definition loop_ok :: "nat \<Rightarrow> bytes \<Rightarrow> bytes \<Rightarrow> bool" where
  "loop_ok k buf s \<longleftrightarrow> (\<exists>tab buf'. path_loop k buf = Some (tab, buf') \<and> length buf' = length buf \<and>
     take k buf' = take k buf \<and> map (\<lambda>j. cstr (drop j buf')) tab = split_path s)"

lemma split_path_Nil [simp]: "split_path [] = []"
  by (subst split_path.simps) simp

lemma take_less: "take n xs = take n ys \<Longrightarrow> m \<le> n \<Longrightarrow> take m xs = take m ys"
  by (metis min.absorb1 take_take)

text \<open>The last component ends at a NUL, and the loop goes on behind it.\<close>

lemma loop_last:
  assumes h: "holds buf k s" and s: "s \<noteq> []" "slash \<notin> set s" and room: "k + length s \<le> 253"
    and step: "get_next_path k buf = Some (Some k, j, buf)" "k + length s \<le> j" "j \<le> k + length s + 1"
  shows "loop_ok k buf s"
proof -
  have "path_loop (j + 1) buf = Some ([], buf)"
    using path_loop_end [OF holds_behind [OF h, of "j + 1"]] step(2,3) room by simp
  then have loop: "path_loop k buf = Some ([k], buf)" using step(1) by (subst path_loop.simps) simp
  have tw: "takeWhile (\<lambda>c. c \<noteq> slash) s = s" unfolding takeWhile_eq_all_conv using s(2) by blast
  note c = tw [symmetric]
  have "cstr (drop k buf) = s"
    using holds_nth(1) [OF h, of "length s"] room by (intro component_string [OF h c]) auto
  moreover have "split_path s = [s]" unfolding split_path.simps [of s] tw using s(1) by simp
  ultimately show ?thesis unfolding loop_ok_def using loop by (intro exI [of _ "[k]"] exI [of _ buf]) simp
qed

lemma path_loop_ok: "holds buf k s \<Longrightarrow> k + length s \<le> 253 \<Longrightarrow> loop_ok k buf s"
proof (induction s arbitrary: k buf rule: split_path.induct)
  case (1 s)
  note h = "1.prems"(1) and room = "1.prems"(2)
  define c where "c = takeWhile (\<lambda>c. c \<noteq> slash) s"
  consider (e) "s = []" | (one) "s = [dot]" | (two) "s = [dot, dot]"
    | (inner) "s \<noteq> []" "s \<noteq> [dot]" "s \<noteq> [dot, dot]" "slash \<in> set s"
    | (outer) "s \<noteq> []" "s \<noteq> [dot]" "s \<noteq> [dot, dot]" "slash \<notin> set s" by blast
  then show ?case
  proof cases
    case e
    then show ?thesis using path_loop_end h by (auto simp: loop_ok_def)
  next
    case one
    then show ?thesis using dots_found [OF h room] by (intro loop_last [OF h _ _ room, of "k + 1"]) (auto simp: get_next_path_def)
  next
    case two
    then show ?thesis using dots_found [OF h room] by (intro loop_last [OF h _ _ room, of "k + 2"]) (auto simp: get_next_path_def)
  next
    case outer
    have "skip_end buf k = Some (k + length s + 1)" using skip_end_holds [OF h, of 0] by simp
    moreover have "at buf k = Some (s ! 0)" "s ! 0 \<noteq> 0"
      using holds_nth(2) [OF h, of 0] room outer(1) nul_free_nth [OF holdsD(2) [OF h], of 0] by auto
    ultimately have "get_next_path k buf = Some (Some k, k + length s + 1, buf)"
      using outer dots_found [OF h room] slash_found [OF h c_def] by (simp add: get_next_path_def)
    then show ?thesis using outer by (intro loop_last [OF h _ _ room]) auto
  next
    case inner
    let ?k = "Suc (k + length c)" and ?buf = "buf[k + length c := 0]" and ?s = "drop (Suc (length c)) s"
    have lt: "length c < length s" using takeWhile_short [OF inner(4)] by (simp add: c_def)
    have len: "length buf = MAX_PATH" using holdsD(1) [OF h] .
    have "loop_ok ?k ?buf ?s"
      using "1.IH" [OF inner(1), of ?buf ?k] holds_slash [OF h c_def inner(4)] lt room by (simp add: c_def)
    then obtain tab buf' where rec: "path_loop ?k ?buf = Some (tab, buf')" "length buf' = length buf"
        "take ?k buf' = take ?k ?buf" "map (\<lambda>j. cstr (drop j buf')) tab = split_path ?s"
      unfolding loop_ok_def by auto
    have "get_next_path k buf = Some (Some k, k + length c, ?buf)"
      using inner dots_found [OF h room] slash_found [OF h c_def] by (simp add: get_next_path_def)
    then have "path_loop k buf = Some (k # tab, buf')" using rec(1) by (subst path_loop.simps) simp
    moreover have "take (k + length c) buf' = take (k + length c) buf"
      using take_less [OF rec(3), of "k + length c"] by simp
    moreover have "buf' ! (k + length c) = 0"
    proof -
      have "buf' ! (k + length c) = take ?k buf' ! (k + length c)" by simp
      also have "\<dots> = 0" unfolding rec(3) using lt room len by simp
      finally show ?thesis .
    qed
    ultimately show ?thesis unfolding loop_ok_def
      using rec(2,4) component_string [OF h c_def, of buf'] lt room len inner(1) take_less [of "k + length c" buf' buf k]
      by (intro exI [of _ "k # tab"] exI [of _ buf']) (auto simp: split_path.simps [of s] c_def)
  qed
qed

lemma path_tab_split:
  assumes "nul_free s" "length s \<le> 253"
  shows "path_tab s = Some (split_path s)"
proof -
  have "holds (path_buf s) 0 s" using assms by (simp add: holds_def path_buf_def)
  from path_loop_ok [OF this] show ?thesis using assms(2) by (auto simp: loop_ok_def path_tab_def)
qed

section \<open>Properties\<close>

text \<open>
  C20: The loop over \<open>get_next_path\<close> that every caller runs splits a path of up to 253 characters at its
  slashes: it ends, stays within the buffer of 256 bytes, and the strings at the pointers it collects
  are the pieces between the slashes, without an empty piece at the end.
\<close>

theorem get_next_path_splits:
  assumes "nul_free s" "length s \<le> 253"
  shows "path_tab s = Some (split_path s)"
  using assms by (rule path_tab_split)

theorem get_next_path_splits_witness:
  "path_tab (str ''/a/..'') = Some [[], str ''a'', str ''..'']"
  using get_next_path_splits [of "str ''/a/..''"] by (simp add: str_def nul_free_def split_path.simps)

end
