(* ===== verification/Realpath.thy ===== *)
theory Realpath
  imports Paths File_Properties
begin

text \<open>
  Absolute path names (\<open>fs/krealpath.c\<close>). A result is \<open>Inr\<close> the path in \<open>res_path\<close>, or \<open>Inl\<close> the error
  number stored through \<open>error\<close> when the function returns NULL. \<open>None\<close> is a run that does not come back: a
  loop in the parents of the current directory, a device without a master inode, or an access past the
  end of a buffer of \<open>MAX_PATH\<close> bytes.
\<close>

abbreviation (input) ENAMETOOLONG :: int where "ENAMETOOLONG \<equiv> 36"

section \<open>The operation\<close>

text \<open>The walk from the current directory up to the root, which puts the names together.\<close>

partial_function (option) cwd_loop :: "fsys \<Rightarrow> int \<Rightarrow> u32 \<Rightarrow> u32 \<Rightarrow> bytes \<Rightarrow> ((int + bytes) \<times> fsys) option" where
  "cwd_loop s dev root cur tmp =
     (if cur \<noteq> root
      then do {
        (r, buf, c) \<leftarrow> block_read (fs_cache s) dev cur (Some (zeros DEV_BLOCK_SIZE));
        let s = s\<lparr>fs_cache := c\<rparr>;
        if r \<noteq> BLOCK_OK then Some (Inl EINVAL, s)
        else do {
          let i = read_inode (case buf of Some x \<Rightarrow> x | None \<Rightarrow> []);
          t \<leftarrow> push_front tmp (cstr (i_path i));
          case t of
            None \<Rightarrow> Some (Inl EINVAL, s)
          | Some tmp \<Rightarrow> do {
              t \<leftarrow> push_front tmp [slash];
              case t of
                None \<Rightarrow> Some (Inl EINVAL, s)
              | Some tmp \<Rightarrow> cwd_loop s dev root (parent i) tmp
            }
        }
      }
      else Some (Inr tmp, s))"

definition add_slash :: "bytes \<Rightarrow> (int + bytes) option" where
  "add_slash tmp =
     (if length tmp + 1 > MAX_PATH then Some (Inl ENAMETOOLONG)
      else if length tmp + 1 = MAX_PATH then None
      else Some (Inr (tmp @ [slash])))"

text \<open>What is put in front of the path.\<close>

definition path_prefix :: "fsys \<Rightarrow> int \<Rightarrow> u32 \<Rightarrow> bytes \<Rightarrow> ((int + bytes) \<times> fsys) option" where
  "path_prefix s dev cwd path =
     (if (take 1 path = [dot] \<and> take 1 (drop 1 path) = [slash]) \<or> (take 1 path = [dot] \<and> take 1 (drop 1 path) = [dot]) \<or>
         take 1 path \<noteq> [slash]
      then do {
        m \<leftarrow> master_get s dev;
        (t, s) \<leftarrow> cwd_loop s dev (inode_start (master_tab s ! m)) cwd [];
        case t of
          Inl e \<Rightarrow> Some (Inl e, s)
        | Inr tmp \<Rightarrow> do {
            t \<leftarrow> add_slash tmp;
            case t of
              Inl e \<Rightarrow> Some (Inl e, s)
            | Inr tmp \<Rightarrow> do {
                t \<leftarrow> push_front [] tmp;
                Some (case t of None \<Rightarrow> Inl EINVAL | Some res \<Rightarrow> Inr res, s)
              }
          }
      }
      else Some (Inr [], s))"

text \<open>
  The loop over the components, with its look ahead: at \<open>..\<close> the inner loop takes all that follow, and
  each drops one component of \<open>gen_path\<close>, if there is one.
\<close>

function gen_path :: "bytes list \<Rightarrow> bytes list \<Rightarrow> bytes list" where
  "gen_path [] g = g"
| "gen_path (c # cs) g =
     (if c = [dot] then gen_path cs g
      else if c = [dot, dot]
      then let k = length (takeWhile (\<lambda>d. d = [dot, dot]) cs) in gen_path (drop k cs) (take (length g - Suc k) g)
      else gen_path cs (g @ [c]))"
  by pat_completeness auto
termination
  by (relation "measure (\<lambda>(cs, g). length cs)") auto

text \<open>The components with slashes between them.\<close>

primrec join_path :: "bytes list \<Rightarrow> bytes" where
  "join_path [] = []"
| "join_path (c # cs) = (if cs = [] then c else c @ slash # join_path cs)"

definition krealpath :: "fsys \<Rightarrow> int \<Rightarrow> u32 \<Rightarrow> bytes \<Rightarrow> ((int + bytes) \<times> fsys) option" where
  "krealpath s dev cwd path = do {
     (t, s) \<leftarrow> path_prefix s dev cwd path;
     case t of
       Inl e \<Rightarrow> Some (Inl e, s)
     | Inr res \<Rightarrow>
         if length res + length path > MAX_PATH then Some (Inl ENAMETOOLONG, s)
         else if length res + length path = MAX_PATH then None
         else do {
           tab \<leftarrow> path_tab (res @ path);
           let q = join_path (gen_path tab []);
           Some (Inr (if q = [] then [slash] else q), s)
         }
   }"

section \<open>Resolving dots\<close>

text \<open>
  What the loop means: one component after the other, \<open>.\<close> adds nothing, \<open>..\<close> takes the last name
  away and any other name is added.
\<close>

definition norm_step :: "bytes list \<Rightarrow> bytes \<Rightarrow> bytes list" where
  "norm_step g c = (if c = [dot] then g else if c = [dot, dot] then butlast g else g @ [c])"

lemma foldl_up: "foldl norm_step g (replicate k [dot, dot]) = take (length g - k) g"
proof (induction k arbitrary: g)
  case (Suc k)
  have "take (length g - 1 - k) (butlast g) = take (length g - Suc k) g"
    by (cases g rule: rev_cases) simp_all
  then show ?case using Suc by (simp add: norm_step_def)
qed simp

lemma gen_path_foldl: "gen_path cs g = foldl norm_step g cs"
proof (induction cs g rule: gen_path.induct)
  case (2 c cs g)
  show ?case
  proof (cases "c = [dot, dot]")
    case True
    define k where "k = length (takeWhile (\<lambda>d. d = [dot, dot]) cs)"
    have "takeWhile (\<lambda>d. d = [dot, dot]) cs = replicate k [dot, dot]"
      by (rule replicate_eqI) (auto simp: k_def dest: set_takeWhileD)
    then have cs: "cs = replicate k [dot, dot] @ drop k cs"
      by (metis append_take_drop_id k_def takeWhile_eq_take)
    have "gen_path (c # cs) g = gen_path (drop k cs) (take (length g - Suc k) g)"
      using True by (simp add: k_def Let_def)
    also have "\<dots> = foldl norm_step (take (length g - Suc k) g) (drop k cs)"
      using "2.IH"(2) [OF _ True k_def] True by simp
    also have "\<dots> = foldl norm_step (foldl norm_step g (replicate (Suc k) [dot, dot])) (drop k cs)"
      by (simp only: foldl_up)
    also have "\<dots> = foldl norm_step (norm_step g [dot, dot]) (replicate k [dot, dot] @ drop k cs)"
      by simp
    finally show ?thesis using cs True by simp
  next
    case False
    then show ?thesis using 2 by (simp add: norm_step_def)
  qed
qed simp

section \<open>Splitting and joining\<close>

lemma takeWhile_slash: "slash \<notin> set c \<Longrightarrow> takeWhile (\<lambda>d. d \<noteq> slash) (c @ slash # r) = c"
  by (induction c) auto

lemma split_path_slash: "slash \<notin> set c \<Longrightarrow> split_path (c @ slash # r) = c # split_path r"
  using takeWhile_slash [of c r] by (subst split_path.simps) simp

lemma split_path_single:
  assumes "slash \<notin> set c" "c \<noteq> []"
  shows "split_path c = [c]"
proof -
  have "takeWhile (\<lambda>d. d \<noteq> slash) c = c" unfolding takeWhile_eq_all_conv using assms(1) by blast
  note tw = this
  show ?thesis unfolding split_path.simps [of c] tw using assms(2) by simp
qed

lemma split_join:
  "\<forall>c \<in> set cs. slash \<notin> set c \<Longrightarrow> cs \<noteq> [] \<Longrightarrow> last cs \<noteq> [] \<Longrightarrow> split_path (join_path cs) = cs"
proof (induction cs)
  case (Cons c cs)
  then show ?case by (cases "cs = []") (simp_all add: split_path_single split_path_slash)
qed simp

lemma split_path_parts:
  "c \<in> set (split_path s) \<Longrightarrow> slash \<notin> set c \<and> set c \<subseteq> set s"
proof (induction s rule: split_path.induct)
  case (1 s)
  let ?c = "takeWhile (\<lambda>c. c \<noteq> slash) s"
  show ?case
  proof (cases "s = []")
    case False
    then have "c = ?c \<or> c \<in> set (split_path (drop (Suc (length ?c)) s))"
      using "1.prems" by (subst (asm) split_path.simps) simp
    then show ?thesis
    proof
      assume "c = ?c"
      then show ?thesis by (auto dest: set_takeWhileD)
    next
      assume "c \<in> set (split_path (drop (Suc (length ?c)) s))"
      then show ?thesis using "1.IH" [OF False] by (auto dest: in_set_dropD)
    qed
  qed (use "1.prems" in simp)
qed

lemma set_join: "set (join_path cs) \<subseteq> insert slash (\<Union>c \<in> set cs. set c)"
  by (induction cs) auto

text \<open>Characters of a list of components, with one for each slash.\<close>

definition total :: "bytes list \<Rightarrow> nat" where
  "total cs = (\<Sum>c \<leftarrow> cs. Suc (length c))"

lemma total_simps [simp]: "total [] = 0" "total (c # cs) = Suc (length c) + total cs" "total (as @ bs) = total as + total bs"
  by (simp_all add: total_def)

lemma length_join: "length (join_path cs) \<le> total cs - 1"
proof (induction cs)
  case (Cons c cs)
  then show ?case by (cases cs) auto
qed simp

lemma total_split: "total (split_path s) \<le> Suc (length s)"
proof (induction s rule: split_path.induct)
  case (1 s)
  let ?c = "takeWhile (\<lambda>c. c \<noteq> slash) s"
  show ?case
  proof (cases "s = []")
    case False
    have "length ?c \<le> length s" by (rule length_takeWhile_le)
    show ?thesis
    proof (cases "length ?c = length s")
      case True
      then show ?thesis using False by (subst split_path.simps) simp
    next
      case neq: False
      then show ?thesis using "1.IH" [OF False] False \<open>length ?c \<le> length s\<close> by (subst split_path.simps) simp
    qed
  qed simp
qed

lemma total_butlast: "total (butlast g) \<le> total g"
  by (cases g rule: rev_cases) simp_all

lemma total_norm: "total (foldl norm_step g cs) \<le> total g + total cs"
proof (induction cs arbitrary: g)
  case (Cons c cs)
  have "total (norm_step g c) \<le> total g + Suc (length c)"
    using total_butlast [of g] by (simp add: norm_step_def)
  then show ?case using Cons [of "norm_step g c"] by simp
qed simp

lemma norm_set: "c \<in> set (foldl norm_step g cs) \<Longrightarrow> c \<in> set g \<or> c \<in> set cs \<and> c \<noteq> [dot] \<and> c \<noteq> [dot, dot]"
proof (induction cs arbitrary: g)
  case (Cons d cs)
  have "c \<in> set (norm_step g d) \<or> c \<in> set cs \<and> c \<noteq> [dot] \<and> c \<noteq> [dot, dot]"
    using Cons.IH [of "norm_step g d"] Cons.prems by simp
  then show ?case by (auto simp: norm_step_def dest: in_set_butlastD split: if_splits)
qed simp

text \<open>The empty component of the root stays in front as long as no \<open>..\<close> removes it.\<close>

lemma norm_head:
  "[] \<notin> set cs \<Longrightarrow> [] \<notin> set (tl g) \<Longrightarrow> [] \<in> set (foldl norm_step g cs) \<Longrightarrow>
   \<exists>t. foldl norm_step g cs = [] # t \<and> [] \<notin> set t"
proof (induction cs arbitrary: g)
  case Nil
  then show ?case by (cases g) auto
next
  case (Cons c cs)
  have "[] \<notin> set (tl (norm_step g c))"
    using Cons.prems(1,2) by (cases g) (auto simp: norm_step_def dest: in_set_butlastD)
  then show ?case using Cons by simp
qed

lemma norm_plain:
  "\<forall>c \<in> set cs. c \<noteq> [dot] \<and> c \<noteq> [dot, dot] \<Longrightarrow> foldl norm_step g cs = g @ cs"
  by (induction cs arbitrary: g) (auto simp: norm_step_def)

section \<open>Absolute paths\<close>

lemma krealpath_absolute:
  assumes "nul_free p" "length p \<le> 253" "take 1 p = [slash]"
  shows "krealpath s dev cwd p =
    Some (Inr (let q = join_path (foldl norm_step [] (split_path p)) in if q = [] then [slash] else q), s)"
  using assms path_tab_split [OF assms(1,2)]
  by (cases p) (auto simp: krealpath_def path_prefix_def gen_path_foldl Let_def)

text \<open>A path that starts at the root, has no double slash and does not go above the root.\<close>

definition rooted :: "bytes \<Rightarrow> bool" where
  "rooted p \<longleftrightarrow> nul_free p \<and> length p \<le> 253 \<and> take 1 p = [slash] \<and> [] \<notin> set (tl (split_path p)) \<and>
     [] \<in> set (foldl norm_step [] (split_path p))"

lemma split_root: "take 1 p = [slash] \<Longrightarrow> split_path p = [] # split_path (tl p)"
  using split_path_slash [of "[]" "tl p"] by (cases p) auto

lemma rooted_gen:
  assumes "rooted p"
  obtains t where "foldl norm_step [] (split_path p) = [] # t" "[] \<notin> set t"
    "\<forall>c \<in> set t. slash \<notin> set c \<and> nul_free c \<and> c \<noteq> [dot] \<and> c \<noteq> [dot, dot]"
proof -
  have p: "split_path p = [] # split_path (tl p)" "[] \<notin> set (split_path (tl p))"
      "[] \<in> set (foldl norm_step [[]] (split_path (tl p)))" "nul_free p"
    using assms split_root [of p] by (simp_all add: rooted_def norm_step_def)
  obtain t where t: "foldl norm_step [[]] (split_path (tl p)) = [] # t" "[] \<notin> set t"
    using norm_head [of "split_path (tl p)" "[[]]"] p by auto
  have "slash \<notin> set c \<and> nul_free c \<and> c \<noteq> [dot] \<and> c \<noteq> [dot, dot]" if c: "c \<in> set t" for c
  proof -
    have "c \<in> set (split_path (tl p))" "c \<noteq> [dot]" "c \<noteq> [dot, dot]"
      using norm_set [of c "[[]]" "split_path (tl p)"] t c by auto
    then show ?thesis using split_path_parts [of c "tl p"] p(4)
      by (cases p) (auto simp: nul_free_def)
  qed
  then show thesis using t p(1) by (intro that [of t]) (auto simp: norm_step_def)
qed

text \<open>
  The names that are left of a path below the root once its components have been resolved from
  left to right, names without dots, and the absolute path of a list of names.
\<close>

definition comps :: "bytes \<Rightarrow> bytes list" where
  "comps p = tl (foldl norm_step [] (split_path p))"

definition plain :: "bytes list \<Rightarrow> bool" where
  "plain t \<longleftrightarrow> [] \<notin> set t \<and> (\<forall>c \<in> set t. slash \<notin> set c \<and> nul_free c \<and> c \<noteq> [dot] \<and> c \<noteq> [dot, dot])"

definition root_path :: "bytes list \<Rightarrow> bytes" where
  "root_path t = (if t = [] then [slash] else slash # join_path t)"

lemma split_root_path:
  assumes "plain t"
  shows "split_path (root_path t) = [] # t" "nul_free (root_path t)" "take 1 (root_path t) = [slash]"
proof -
  show "split_path (root_path t) = [] # t"
  proof (cases "t = []")
    case True
    then show ?thesis using split_path_slash [of "[]" "[]"] by (simp add: root_path_def)
  next
    case False
    then have "last t \<noteq> []" using assms last_in_set unfolding plain_def by metis
    then show ?thesis using False assms split_path_slash [of "[]" "join_path t"] split_join [of t]
      by (simp add: root_path_def plain_def)
  qed
  show "nul_free (root_path t)" using assms set_join [of t] by (auto simp: root_path_def plain_def nul_free_def)
  show "take 1 (root_path t) = [slash]" by (simp add: root_path_def)
qed

lemma krealpath_plain:
  assumes "plain t" "length (root_path t) \<le> 253"
  shows "krealpath s dev cwd (root_path t) = Some (Inr (root_path t), s)"
proof -
  note q = split_root_path [OF assms(1)]
  have "foldl norm_step [] (split_path (root_path t)) = [] # t"
    using norm_plain [of "[] # t" "[]"] assms(1) unfolding q(1) plain_def by simp
  then show ?thesis using krealpath_absolute [OF q(2) assms(2) q(3), of s dev cwd]
    by (simp add: root_path_def Let_def)
qed

lemma krealpath_rooted:
  assumes "rooted p"
  shows "krealpath s dev cwd p = Some (Inr (root_path (comps p)), s)" "plain (comps p)" "length (root_path (comps p)) \<le> length p"
proof -
  have p: "nul_free p" "length p \<le> 253" "take 1 p = [slash]" using assms by (simp_all add: rooted_def)
  obtain t where t: "foldl norm_step [] (split_path p) = [] # t" "[] \<notin> set t"
    "\<forall>c \<in> set t. slash \<notin> set c \<and> nul_free c \<and> c \<noteq> [dot] \<and> c \<noteq> [dot, dot]"
    by (rule rooted_gen [OF assms])
  have c: "comps p = t" by (simp add: comps_def t(1))
  show "krealpath s dev cwd p = Some (Inr (root_path (comps p)), s)"
    using krealpath_absolute [OF p, of s dev cwd] t(1) by (simp add: c root_path_def Let_def)
  show "plain (comps p)" using t(2,3) by (simp add: c plain_def)
  have "total ([] # t) \<le> Suc (length p)"
    using total_norm [of "[]" "split_path p"] total_split [of p] t(1) by simp
  then show "length (root_path (comps p)) \<le> length p"
    using length_join [of t] p(3) unfolding c by (cases t) (auto simp: root_path_def, cases p, auto)
qed

text \<open>
  C18: For an absolute path of at most 253 bytes without double slashes that does not go above the
  root \<open>krealpath\<close> returns, without reading the disk, the absolute path of the names that are left
  when its components are resolved from left to right, \<open>.\<close> dropped and each \<open>..\<close> taking away the
  name before it. That path has no \<open>.\<close>, no \<open>..\<close> and no empty component, is not longer than the
  given one, and is resolved to itself.
\<close>

theorem krealpath_normal:
  assumes "rooted p"
  shows "krealpath s dev cwd p = Some (Inr (root_path (comps p)), s) \<and> plain (comps p) \<and>
    split_path (root_path (comps p)) = [] # comps p \<and> length (root_path (comps p)) \<le> length p \<and>
    krealpath s dev cwd (root_path (comps p)) = Some (Inr (root_path (comps p)), s)"
proof -
  note q = krealpath_rooted [OF assms]
  have "length p \<le> 253" using assms by (simp add: rooted_def)
  then have "krealpath s dev cwd (root_path (comps p)) = Some (Inr (root_path (comps p)), s)"
    using q(3) by (intro krealpath_plain [OF q(2)]) simp
  then show ?thesis using q split_root_path [OF q(2)] by simp
qed

theorem krealpath_normal_witness:
  "krealpath boot_fs 0 0 (str ''/a/./b/../c'') = Some (Inr (str ''/a/c''), boot_fs) \<and>
   krealpath boot_fs 0 0 (str ''/a/c'') = Some (Inr (str ''/a/c''), boot_fs)"
proof -
  have "rooted (str ''/a/./b/../c'')"
    by (simp add: rooted_def nul_free_def str_def split_path.simps norm_step_def)
  moreover have "root_path (comps (str ''/a/./b/../c'')) = str ''/a/c''"
    by (simp add: root_path_def comps_def str_def split_path.simps norm_step_def join_path_def)
  ultimately show ?thesis using krealpath_normal [of "str ''/a/./b/../c''" boot_fs 0 0] by simp
qed

section \<open>Relative paths\<close>

text \<open>
  The directories from \<open>cur\<close> up to the root, by the names in their inodes, the lowest first; \<open>V\<close> is the
  content of the blocks of the device.
\<close>

primrec up_names :: "(u32 \<Rightarrow> bytes) \<Rightarrow> int \<Rightarrow> u32 \<Rightarrow> u32 \<Rightarrow> bytes list \<Rightarrow> bool" where
  "up_names V dev root cur [] \<longleftrightarrow> cur = root"
| "up_names V dev root cur (n # ns) \<longleftrightarrow> cur \<noteq> root \<and> addr_ok dev cur \<and> cstr (i_path (read_inode (V cur))) = n \<and>
     up_names V dev root (parent (read_inode (V cur))) ns"

lemma up_names_cong: "(\<And>b. addr_ok dev b \<Longrightarrow> V' b = V b) \<Longrightarrow> up_names V' dev root cur ns = up_names V dev root cur ns"
  by (induction ns arbitrary: cur) auto

definition dir_path :: "bytes list \<Rightarrow> bytes" where
  "dir_path ns = concat (map (\<lambda>n. slash # n) (rev ns))"

lemma cwd_loop_names:
  "cache_inv (fs_cache s) (n + length ns) \<Longrightarrow> up_names (view (fs_cache s) dev) dev root cur ns \<Longrightarrow>
   length (dir_path ns) + length tmp < MAX_PATH \<Longrightarrow>
   \<exists>c'. cwd_loop s dev root cur tmp = Some (Inr (dir_path ns @ tmp), s\<lparr>fs_cache := c'\<rparr>) \<and> cache_inv c' n \<and>
     (\<forall>dev' b. addr_ok dev' b \<longrightarrow> view c' dev' b = view (fs_cache s) dev' b)"
proof (induction ns arbitrary: s cur tmp)
  case Nil
  then show ?case by (subst cwd_loop.simps) (auto simp: dir_path_def intro!: exI [of _ "fs_cache s"])
next
  case (Cons m ns)
  let ?i = "read_inode (view (fs_cache s) dev cur)"
  have up: "cur \<noteq> root" "addr_ok dev cur" "cstr (i_path ?i) = m" "up_names (view (fs_cache s) dev) dev root (parent ?i) ns"
    using Cons.prems(2) by simp_all
  obtain c where c: "block_read (fs_cache s) dev cur (Some (zeros DEV_BLOCK_SIZE)) = Some (BLOCK_OK, Some (view (fs_cache s) dev cur), c)"
      "cache_inv c (n + length ns)" "\<And>dev' b'. addr_ok dev' b' \<Longrightarrow> view c dev' b' = view (fs_cache s) dev' b'"
    using cache_read [of "fs_cache s" "n + length ns" dev cur] Cons.prems(1) up(2) by auto
  have len: "length (dir_path ns) + length (slash # m @ tmp) < MAX_PATH" using Cons.prems(3) by (simp add: dir_path_def)
  have "up_names (view c dev) dev root (parent ?i) ns" using up(4) up_names_cong [of dev "view c dev" "view (fs_cache s) dev"] c(3) by simp
  then obtain c' where c': "cwd_loop (s\<lparr>fs_cache := c\<rparr>) dev root (parent ?i) (slash # m @ tmp) =
        Some (Inr (dir_path ns @ slash # m @ tmp), s\<lparr>fs_cache := c'\<rparr>)" "cache_inv c' n"
      "\<forall>dev' b. addr_ok dev' b \<longrightarrow> view c' dev' b = view c dev' b"
    using Cons.IH [of "s\<lparr>fs_cache := c\<rparr>" "parent ?i" "slash # m @ tmp"] c(2) len by auto
  have "cwd_loop s dev root cur tmp = Some (Inr (dir_path (m # ns) @ tmp), s\<lparr>fs_cache := c'\<rparr>)"
    using c(1) c'(1) up len by (subst cwd_loop.simps) (simp add: push_front_def dir_path_def)
  then show ?case using c'(2,3) c(3) by auto
qed

text \<open>
  C19: A relative path is resolved as the absolute path of the current directory, a slash, and the path:
  the names in the inodes from the current directory up to the root give the first part. Nothing on
  the disk changes.
\<close>

theorem krealpath_relative:
  assumes inv: "cache_inv (fs_cache s) (n + length ns)" and m: "master_get s dev = Some i"
    and up: "up_names (view (fs_cache s) dev) dev (inode_start (master_tab s ! i)) cwd ns"
    and p: "take 1 p \<noteq> [slash]" "nul_free (dir_path ns @ slash # p)" "length (dir_path ns) + length p \<le> 252"
  shows "\<exists>r c'. krealpath s dev cwd p = Some (r, s\<lparr>fs_cache := c'\<rparr>) \<and>
    krealpath s dev cwd (dir_path ns @ slash # p) = Some (r, s) \<and>
    (\<forall>dev' b. addr_ok dev' b \<longrightarrow> view c' dev' b = view (fs_cache s) dev' b)"
proof -
  obtain c' where c': "cwd_loop s dev (inode_start (master_tab s ! i)) cwd [] = Some (Inr (dir_path ns), s\<lparr>fs_cache := c'\<rparr>)"
      "\<forall>dev' b. addr_ok dev' b \<longrightarrow> view c' dev' b = view (fs_cache s) dev' b"
    using cwd_loop_names [OF inv up, of "[]"] p(3) by auto
  have pre: "path_prefix s dev cwd p = Some (Inr (dir_path ns @ [slash]), s\<lparr>fs_cache := c'\<rparr>)"
    using c'(1) m p(1,3) by (simp add: path_prefix_def add_slash_def push_front_def)
  have abs: "take 1 (dir_path ns @ slash # p) = [slash]"
    by (cases "rev ns") (simp_all add: dir_path_def)
  have tab: "path_tab (dir_path ns @ slash # p) = Some (split_path (dir_path ns @ slash # p))"
    using p by (intro path_tab_split) auto
  show ?thesis
    using pre tab p(3) krealpath_absolute [OF p(2) _ abs, of s dev cwd] c'(2)
    by (intro exI [of _ "Inr (let q = join_path (foldl norm_step [] (split_path (dir_path ns @ slash # p))) in if q = [] then [slash] else q)"]
        exI [of _ c']) (simp add: krealpath_def gen_path_foldl Let_def)
qed

text \<open>A directory \<open>a\<close> in block 4100 below the root.\<close>

definition demo_dir :: inode where
  "demo_dir = demo_inode\<lparr>self := 4100, parent := 4099, is_directory := 1, i_path := store_str (zeros MAX_PATH) [97]\<rparr>"

lemma demo_dir_wf: "inode_wf demo_dir"
  by (simp add: demo_dir_def demo_inode_def inode_wf_def read_inode_def chunk_def)

lemma demo_dir_path: "cstr (i_path demo_dir) = [97]" "parent demo_dir = 4099"
  by (simp_all add: demo_dir_def nul_free_def)

lemma demo_tree:
  obtains s where "fio s 0 0 124 512" "inode_start (master_tab s ! 0) = 4099" "view (fs_cache s) 0 4100 = inode_image demo_dir"
    "unat (bmap_map_end (master_tab s ! 0)) = 4099"
proof -
  obtain s where o: "opened 512000 s" using demo_fs by blast
  note f = opened_fio [OF o]
  note L = make_master_layout [of BLOCK_START 512000 "free_master\<lparr>m_dev := 0\<rparr>", folded new_master_def]
  have "map_first IMAP (master_tab s ! 0) = map_first IMAP (new_master BLOCK_START 512000)"
    using o unfolding opened_def by blast
  then have "inode_start (master_tab s ! 0) = 4099" using L by (simp add: word_unat_eq_iff)
  moreover have "outside s 0 0 4100" using f(3) by (simp add: outside_def addr_ok_def)
  moreover obtain s' where "fio s' 0 0 124 512" "master_tab s' = master_tab s"
      "\<And>dev' c. addr_ok dev' c \<Longrightarrow> view (fs_cache s') dev' c = (if dev' = 0 \<and> c = 4100 then inode_image demo_dir else view (fs_cache s) dev' c)"
    by (rule write_step [of s 0 0 124 512 4100 "inode_image demo_dir"])
      (use f(1) demo_dir_wf calculation(2) in \<open>auto simp: image_lengths\<close>)
  ultimately show thesis using f(3) by (intro that [of s']) (simp_all add: outside_def)
qed

theorem krealpath_relative_witness:
  "\<exists>s r c'. krealpath s 0 4100 (str ''b'') = Some (r, s\<lparr>fs_cache := c'\<rparr>) \<and> krealpath s 0 4100 (str ''/a/b'') = Some (r, s)"
proof -
  obtain s where s: "fio s 0 0 124 512" "inode_start (master_tab s ! 0) = 4099" "view (fs_cache s) 0 4100 = inode_image demo_dir"
    by (rule demo_tree)
  have i: "cache_inv (fs_cache s) (123 + length [[97]])" "master_get s 0 = Some 0"
    using s(1) by (simp_all add: fio_def fs_inv_def)
  have "up_names (view (fs_cache s) 0) 0 (inode_start (master_tab s ! 0)) 4100 [[97]]"
    using s(2,3) read_inode_image [OF demo_dir_wf] by (simp add: addr_ok_def demo_dir_path)
  from krealpath_relative [OF i this, of "str ''b''"] show ?thesis
    by (auto simp: str_def nul_free_def dir_path_def)
qed

section \<open>Above the root\<close>

text \<open>\<open>..\<close> at the root removes the empty component that stands for it: the result is not absolute.\<close>

lemma above_root: "krealpath s dev cwd (str ''/../a'') = Some (Inr (str ''a''), s)"
  using krealpath_absolute [of "str ''/../a''" s dev cwd]
  by (simp add: nul_free_def str_def split_path.simps norm_step_def)

end
