(* ===== verification/Namei.thy ===== *)
theory Namei
  imports Realpath Permissions
begin

text \<open>
  Looking up a path (\<open>inode_get\<close> of \<open>fs/inode.c\<close>) and symbolic links (\<open>kreadlink\<close> of \<open>fs/link.c\<close>).

  The two functions call each other; \<open>kreadlink\<close> counts its depth in the static variable \<open>nr_recursion\<close>
  and refuses more than \<open>MAX_RECURSION\<close> calls. Here \<open>inode_get_by\<close> takes the function for links as an
  argument, \<open>kreadlink\<close> is defined by recursion on a number of calls, and \<open>inode_get\<close> starts with
  \<open>MAX_RECURSION + 1\<close> of them, which the count never uses up (\<open>link_depth_bounded\<close>). The
  static counter \<open>nr_recursion\<close> is a natural number: it is raised before it is lowered and never exceeds
  \<open>MAX_RECURSION + 1\<close>. The time of day and the user and group of the current process are arguments.
\<close>

abbreviation (input) ENOENT :: int where "ENOENT \<equiv> 2"
abbreviation (input) ELOOP :: int where "ELOOP \<equiv> 40"
abbreviation (input) MAX_RECURSION :: nat where "MAX_RECURSION \<equiv> 1024"

record names =
  nm_fs :: fsys
  nr_recursion :: nat

record proc_ids =
  now :: u32
  p_group :: u32
  p_owner :: u32

definition nm_errno :: "int \<Rightarrow> names \<Rightarrow> names" where
  "nm_errno e N = N\<lparr>nm_fs := (nm_fs N)\<lparr>fs_errno := e\<rparr>\<rparr>"

text \<open>A block read, with \<open>errno\<close> as every caller sets it on failure.\<close>

definition nm_read :: "names \<Rightarrow> int \<Rightarrow> u32 \<Rightarrow> (bool \<times> bytes \<times> names) option" where
  "nm_read N dev b = do {
     (r, buf, s) \<leftarrow> fs_read (nm_fs N) dev b (zeros DEV_BLOCK_SIZE);
     Some (r = FILE_OK, buf, N\<lparr>nm_fs := s\<rparr>)
   }"

definition nm_write :: "names \<Rightarrow> int \<Rightarrow> u32 \<Rightarrow> bytes \<Rightarrow> (bool \<times> names) option" where
  "nm_write N dev b data = do {
     (r, s) \<leftarrow> fs_write (nm_fs N) dev b data;
     Some (r = FILE_OK, N\<lparr>nm_fs := s\<rparr>)
   }"

section \<open>Searching a directory\<close>

text \<open>The inner loop over the blocks of one map; \<open>found\<close> is 0 while the name is not found.\<close>

primrec scan_slots :: "u32 list \<Rightarrow> names \<Rightarrow> int \<Rightarrow> bytes \<Rightarrow> inode \<Rightarrow> (bool \<times> u32 \<times> inode \<times> names) option" where
  "scan_slots [] N dev name t = Some (True, INODE_NULL, t, N)"
| "scan_slots (b # bs) N dev name t =
     (if b \<noteq> INODE_NULL
      then do {
        (ok, buf, N) \<leftarrow> nm_read N dev b;
        if \<not> ok then Some (False, INODE_NULL, t, N)
        else let t = read_inode buf in
          if cstr (i_path t) = name then Some (True, b, t, N) else scan_slots bs N dev name t
      }
      else scan_slots bs N dev name t)"

text \<open>The outer loop over the maps, to the end of the list or until the name is found.\<close>

partial_function (option) scan_dir :: "names \<Rightarrow> int \<Rightarrow> bytes \<Rightarrow> u32 \<Rightarrow> inode \<Rightarrow>
    (bool \<times> u32 \<times> inode \<times> names) option" where
  "scan_dir N dev name nxt t = do {
     (ok, buf, N) \<leftarrow> nm_read N dev nxt;
     if \<not> ok then Some (False, INODE_NULL, t, N)
     else do {
       let bm = read_bmap buf;
       (ok, found, t, N) \<leftarrow> scan_slots (bm_blocks bm) N dev name t;
       if \<not> ok then Some (False, INODE_NULL, t, N)
       else if bm_next bm \<noteq> INODE_NULL \<and> found = INODE_NULL then scan_dir N dev name (bm_next bm) t
       else Some (True, found, t, N)
     }
   }"

section \<open>The root\<close>

text \<open>The root inode is made when the block for it does not hold one.\<close>

definition root_inode :: "u32 \<Rightarrow> int \<Rightarrow> u32 \<Rightarrow> inode \<Rightarrow> inode" where
  "root_inode t dev root i =
     (inode_set_timestamps t (inode_set_permissions (i\<lparr>i_path := store_str (i_path i) [slash], i_next := INODE_NULL\<rparr>) 511 0))
     \<lparr>is_directory := 1, i_dev := word_of_int dev, self := root, parent := root, i_group := 0, i_owner := 0\<rparr>"

definition load_root :: "u32 \<Rightarrow> names \<Rightarrow> int \<Rightarrow> u32 \<Rightarrow> (bool \<times> inode \<times> names) option" where
  "load_root t N dev root = do {
     (ok, buf, N) \<leftarrow> nm_read N dev root;
     let i = read_inode buf;
     if \<not> ok then Some (False, i, N)
     else if cstr (i_path i) = [slash] then Some (True, i, N)
     else do {
       let i = root_inode t dev root i;
       (r, b, s) \<leftarrow> inode_get_inode_block (nm_fs N) dev 0;
       let N = N\<lparr>nm_fs := s\<rparr>;
       if r \<noteq> INODE_OK then Some (False, i, nm_errno EACCES N)
       else if b \<noteq> root then Some (False, i, N)
       else do {
         (ok, N) \<leftarrow> nm_write N dev root (inode_image i);
         Some (ok, i, N)
       }
     }
   }"

section \<open>Walking the path\<close>

text \<open>The function that reads a link: the device and the block of the link to the block it leads to, or 0.\<close>

type_synonym readlink = "names \<Rightarrow> int \<Rightarrow> u32 \<Rightarrow> (u32 \<times> names) option"

text \<open>A parent that is a symbolic link is replaced by the directory it leads to.\<close>

definition follow_dir :: "readlink \<Rightarrow> names \<Rightarrow> int \<Rightarrow> inode \<Rightarrow> u32 \<Rightarrow> (bool \<times> inode \<times> u32 \<times> names) option" where
  "follow_dir rl N dev i par =
     (if is_symlink i \<noteq> 0
      then do {
        (b, N) \<leftarrow> rl N dev (self i);
        if b = INODE_NULL then Some (False, i, par, N)
        else do {
          (ok, buf, N) \<leftarrow> nm_read N dev b;
          let i = read_inode buf;
          if \<not> ok then Some (False, i, par, N)
          else if is_directory i = 0 then Some (False, i, par, nm_errno EACCES N)
          else Some (True, i, self i, N)
        }
      }
      else Some (True, i, par, N))"

text \<open>The inode at the end of the path; a link there is followed when \<open>do_readlink\<close> asks for it.\<close>

definition final_inode :: "readlink \<Rightarrow> proc_ids \<Rightarrow> names \<Rightarrow> int \<Rightarrow> bool \<Rightarrow> inode_mode \<Rightarrow> inode \<Rightarrow> inode \<Rightarrow>
    (inode_rtvl \<times> inode \<times> names) option" where
  "final_inode rl P N dev do_readlink mode t res = do {
     (ok, t, N) \<leftarrow>
       (if (is_symlink t \<noteq> 0 \<or> is_hardlink t \<noteq> 0) \<and> do_readlink
        then do {
          (b, N) \<leftarrow> rl N dev (self t);
          if b = INODE_NULL then Some (False, t, nm_errno ENOENT N)
          else do { (ok, buf, N) \<leftarrow> nm_read N dev b; Some (ok, read_inode buf, N) }
        }
        else Some (True, t, N));
     if \<not> ok then Some (INODE_FAIL, res, N)
     else if \<not> inode_check_permissions t 0 0 (p_group P) (p_owner P) mode then Some (INODE_FAIL, res, nm_errno EACCES N)
     else Some (INODE_OK, t, N)
   }"

text \<open>The loop over the components behind the root; \<open>res\<close> is \<open>*res_inode\<close>.\<close>

primrec walk_get :: "bytes list \<Rightarrow> readlink \<Rightarrow> proc_ids \<Rightarrow> names \<Rightarrow> int \<Rightarrow> bool \<Rightarrow> inode_mode \<Rightarrow> u32 \<Rightarrow> inode \<Rightarrow> inode \<Rightarrow>
    (inode_rtvl \<times> inode \<times> names) option" where
  "walk_get [] rl P N dev do_readlink mode par t res = Some (INODE_FAIL, res, N)"
| "walk_get (name # cs) rl P N dev do_readlink mode par t res = do {
     (ok, buf, N) \<leftarrow> nm_read N dev par;
     let i = read_inode buf;
     if \<not> ok then Some (INODE_FAIL, res, N)
     else if is_directory i \<noteq> 0 \<or> is_symlink i \<noteq> 0
     then do {
       (ok, i, par, N) \<leftarrow> follow_dir rl N dev i par;
       if \<not> ok then Some (INODE_FAIL, res, N)
       else if \<not> inode_check_permissions i 0 0 (p_group P) (p_owner P) INODE_RX then Some (INODE_FAIL, res, nm_errno EACCES N)
       else if i_next i = INODE_NULL then Some (INODE_FILE_NOT_FOUND, read_inode (zeros DEV_BLOCK_SIZE), nm_errno ENOENT N)
       else do {
         (ok, found, t, N) \<leftarrow> scan_dir N dev name (i_next i) t;
         if \<not> ok then Some (INODE_FAIL, res, N)
         else if found = INODE_NULL then Some (INODE_FILE_NOT_FOUND, res, nm_errno ENOENT N)
         else if cs = [] then final_inode rl P N dev do_readlink mode t res
         else walk_get cs rl P N dev do_readlink mode found t res
       }
     }
     else if cs \<noteq> [] then Some (INODE_FAIL, res, nm_errno (if is_file i \<noteq> 0 then ENOENT else EINVAL) N)
     else walk_get cs rl P N dev do_readlink mode par t res
   }"

text \<open>\<open>krealpath\<close> stores its error, or 0, in \<open>errno\<close>. The first component is \<open>/\<close> when it is empty.\<close>

definition real_tab :: "names \<Rightarrow> int \<Rightarrow> u32 \<Rightarrow> bytes \<Rightarrow> (bytes list option \<times> names) option" where
  "real_tab N dev cwd path = do {
     (r, s) \<leftarrow> krealpath (nm_fs N) dev cwd path;
     let N = N\<lparr>nm_fs := s\<rparr>;
     case r of
       Inl e \<Rightarrow> Some (None, nm_errno e N)
     | Inr q \<Rightarrow> do { tab \<leftarrow> path_tab q; Some (Some tab, nm_errno 0 N) }
   }"

definition inode_get_by :: "readlink \<Rightarrow> proc_ids \<Rightarrow> names \<Rightarrow> int \<Rightarrow> u32 \<Rightarrow> bytes \<Rightarrow> bool \<Rightarrow> inode_mode \<Rightarrow> inode \<Rightarrow>
    (inode_rtvl \<times> inode \<times> names) option" where
  "inode_get_by rl P N dev cwd path do_readlink mode res =
     (case master_get (nm_fs N) dev of
        None \<Rightarrow> Some (INODE_FAIL, res, nm_errno EINVAL N)
      | Some m \<Rightarrow>
          if length path > MAX_PATH then Some (INODE_FAIL, res, nm_errno ENAMETOOLONG N)
          else if length path = MAX_PATH then None
          else do {
            (tab, N) \<leftarrow> real_tab N dev cwd path;
            case tab of
              None \<Rightarrow> Some (INODE_FAIL, res, N)
            | Some tab \<Rightarrow> do {
                (ok, i, N) \<leftarrow> load_root (now P) N dev (inode_start (master_tab (nm_fs N) ! m));
                if \<not> ok then Some (INODE_FAIL, res, N)
                else if length tab = 1 \<and> (hd tab = [] \<or> hd tab = [slash]) then Some (INODE_OK, i, N)
                else walk_get (tl tab) rl P N dev do_readlink mode (self i) (read_inode (zeros DEV_BLOCK_SIZE)) res
              }
          })"

section \<open>Links\<close>

text \<open>On an error the count is not lowered again.\<close>

definition link_target :: "readlink \<Rightarrow> proc_ids \<Rightarrow> names \<Rightarrow> int \<Rightarrow> u32 \<Rightarrow> inode \<Rightarrow> bytes \<Rightarrow> (u32 \<times> names) option" where
  "link_target rl P N dev cur i path = do {
     (r, s) \<leftarrow> krealpath (nm_fs N) dev cur path;
     let N = N\<lparr>nm_fs := s\<rparr>;
     case r of
       Inl e \<Rightarrow> Some (INODE_NULL, nm_errno e N)
     | Inr q \<Rightarrow> do {
         (r, i, N) \<leftarrow> inode_get_by rl P (nm_errno 0 N) dev cur path True INODE_DONTCHECKPERMS i;
         if r \<noteq> INODE_OK then Some (INODE_NULL, nm_errno EINVAL N)
         else Some (self i, N\<lparr>nr_recursion := nr_recursion N - 1\<rparr>)
       }
   }"

primrec kreadlink :: "nat \<Rightarrow> proc_ids \<Rightarrow> readlink" where
  "kreadlink 0 P N dev cur = None"
| "kreadlink (Suc k) P N dev cur =
     (let N = N\<lparr>nr_recursion := nr_recursion N + 1\<rparr> in
      if nr_recursion N > MAX_RECURSION
      then Some (INODE_NULL, nm_errno ELOOP (N\<lparr>nr_recursion := nr_recursion N - 1\<rparr>))
      else do {
        (ok, buf, N) \<leftarrow> nm_read N dev cur;
        let i = read_inode buf;
        if \<not> ok then Some (INODE_NULL, N)
        else if \<not> (is_symlink i \<noteq> 0 \<or> is_hardlink i \<noteq> 0) then Some (INODE_NULL, nm_errno EINVAL N)
        else do {
          (ok, buf, N) \<leftarrow> nm_read N dev (i_next i);
          if \<not> ok then Some (INODE_NULL, N)
          else link_target (kreadlink k P) P N dev cur i (cstr (l_path (read_link buf)))
        }
      })"

definition inode_get :: "proc_ids \<Rightarrow> names \<Rightarrow> int \<Rightarrow> u32 \<Rightarrow> bytes \<Rightarrow> bool \<Rightarrow> inode_mode \<Rightarrow> inode \<Rightarrow>
    (inode_rtvl \<times> inode \<times> names) option" where
  "inode_get P = inode_get_by (kreadlink (Suc MAX_RECURSION) P) P"

text \<open>The number of the block of a path and of its directory; \<open>junk\<close> is what the local inode holds before it is set.\<close>

definition inode_get_block_number :: "proc_ids \<Rightarrow> names \<Rightarrow> int \<Rightarrow> u32 \<Rightarrow> bytes \<Rightarrow> inode \<Rightarrow> (u32 \<times> names) option" where
  "inode_get_block_number P N dev cwd path junk = do {
     (r, i, N) \<leftarrow> inode_get P N dev cwd path True INODE_DONTCHECKPERMS junk;
     Some (self i, N)
   }"

definition inode_get_parent_block_number :: "proc_ids \<Rightarrow> names \<Rightarrow> int \<Rightarrow> u32 \<Rightarrow> bytes \<Rightarrow> inode \<Rightarrow> (u32 \<times> names) option" where
  "inode_get_parent_block_number P N dev cwd path junk = do {
     (r, i, N) \<leftarrow> inode_get P N dev cwd path True INODE_DONTCHECKPERMS junk;
     Some (parent i, N)
   }"

section \<open>The depth of links is bounded\<close>

lemma nm_errno_fields [simp]:
  "nr_recursion (nm_errno e N) = nr_recursion N" "fs_cache (nm_fs (nm_errno e N)) = fs_cache (nm_fs N)"
  "master_tab (nm_fs (nm_errno e N)) = master_tab (nm_fs N)"
  by (simp_all add: nm_errno_def)

lemma nm_read_nr: "nm_read N dev b = Some (ok, buf, N') \<Longrightarrow> nr_recursion N' = nr_recursion N"
  by (auto simp: nm_read_def bind_eq_Some_conv)

lemma nm_write_nr: "nm_write N dev b d = Some (ok, N') \<Longrightarrow> nr_recursion N' = nr_recursion N"
  by (auto simp: nm_write_def bind_eq_Some_conv)

lemma scan_slots_nr: "scan_slots bs N dev name t = Some (ok, f, t', N') \<Longrightarrow> nr_recursion N' = nr_recursion N"
proof (induction bs arbitrary: N t)
  case (Cons b bs)
  then show ?case
    by (fastforce simp: bind_eq_Some_conv Let_def dest: nm_read_nr split: if_splits)
qed simp

lemma scan_dir_nr:
  assumes "scan_dir N dev name nxt t = Some r"
  shows "nr_recursion (snd (snd (snd r))) = nr_recursion N"
proof (rule scan_dir.raw_induct [OF _ assms, where P = "\<lambda>N dev name nxt t r. nr_recursion (snd (snd (snd r))) = nr_recursion N"])
  fix f N dev name nxt t r
  assume IH: "\<And>N dev name nxt t r. f N dev name nxt t = Some r \<Longrightarrow> nr_recursion (snd (snd (snd r))) = nr_recursion (N :: names)"
    and step: "do {
     (ok, buf, N) \<leftarrow> nm_read N dev nxt;
     if \<not> ok then Some (False, INODE_NULL, t, N)
     else do {
       let bm = read_bmap buf;
       (ok, found, t, N) \<leftarrow> scan_slots (bm_blocks bm) N dev name t;
       if \<not> ok then Some (False, INODE_NULL, t, N)
       else if bm_next bm \<noteq> INODE_NULL \<and> found = INODE_NULL then f N dev name (bm_next bm) t
       else Some (True, found, t, N)
     }
   } = Some r"
  show "nr_recursion (snd (snd (snd r))) = nr_recursion N"
    using step by (auto simp: bind_eq_Some_conv Let_def dest!: nm_read_nr scan_slots_nr IH split: if_splits)
qed

lemma load_root_nr: "load_root t N dev root = Some (ok, i, N') \<Longrightarrow> nr_recursion N' = nr_recursion N"
  by (auto simp: load_root_def bind_eq_Some_conv Let_def dest!: nm_read_nr nm_write_nr split: if_splits)

lemma real_tab_nr: "real_tab N dev cwd path = Some (tab, N') \<Longrightarrow> nr_recursion N' = nr_recursion N"
proof -
  assume "real_tab N dev cwd path = Some (tab, N')"
  then obtain r s where "krealpath (nm_fs N) dev cwd path = Some (r, s)"
      "(case r of Inl e \<Rightarrow> Some (None, nm_errno e (N\<lparr>nm_fs := s\<rparr>))
        | Inr q \<Rightarrow> do { tab \<leftarrow> path_tab q; Some (Some tab, nm_errno 0 (N\<lparr>nm_fs := s\<rparr>)) }) = Some (tab, N')"
    by (auto simp: real_tab_def bind_eq_Some_conv Let_def)
  then show ?thesis by (cases r) (auto simp: bind_eq_Some_conv)
qed

text \<open>Two functions for links that do the same, and do not lower the count, where it is at least \<open>r\<close>.\<close>

definition agree :: "nat \<Rightarrow> readlink \<Rightarrow> readlink \<Rightarrow> bool" where
  "agree r rl rl' \<longleftrightarrow> (\<forall>N dev b. r \<le> nr_recursion N \<longrightarrow> rl N dev b = rl' N dev b \<and>
     (\<forall>x N'. rl N dev b = Some (x, N') \<longrightarrow> r \<le> nr_recursion N'))"

lemma agreeD:
  assumes "agree r rl rl'" "r \<le> nr_recursion N"
  shows "rl' N dev b = rl N dev b" "rl N dev b = Some (x, N') \<Longrightarrow> r \<le> nr_recursion N'"
  using assms by (auto simp: agree_def)

lemma follow_dir_agree:
  assumes a: "agree r rl rl'" and N: "r \<le> nr_recursion N"
  shows "follow_dir rl' N dev i par = follow_dir rl N dev i par"
    "follow_dir rl N dev i par = Some (ok, i', par', N') \<Longrightarrow> r \<le> nr_recursion N'"
  using agreeD(1) [OF a N] N
  by (auto simp: follow_dir_def bind_eq_Some_conv Let_def dest!: nm_read_nr agreeD(2) [OF a N] split: if_splits)

lemma final_inode_agree:
  assumes a: "agree r rl rl'" and N: "r \<le> nr_recursion N"
  shows "final_inode rl' P N dev dr mode t res = final_inode rl P N dev dr mode t res"
    "final_inode rl P N dev dr mode t res = Some (x, i, N') \<Longrightarrow> r \<le> nr_recursion N'"
  using agreeD(1) [OF a N] N
  by (auto simp: final_inode_def bind_eq_Some_conv Let_def dest!: nm_read_nr agreeD(2) [OF a N] split: if_splits)

lemma walk_get_agree:
  assumes a: "agree r rl rl'"
  shows "r \<le> nr_recursion N \<Longrightarrow> walk_get cs rl' P N dev dr mode par t res = walk_get cs rl P N dev dr mode par t res \<and>
    (\<forall>x i N'. walk_get cs rl P N dev dr mode par t res = Some (x, i, N') \<longrightarrow> r \<le> nr_recursion N')"
proof (induction cs arbitrary: N par t)
  case (Cons name cs)
  show ?case
  proof (cases "nm_read N dev par")
    case (Some a)
    obtain ok buf N1 where r1: "nm_read N dev par = Some (ok, buf, N1)" using Some by (cases a) auto
    have n1: "r \<le> nr_recursion N1" using nm_read_nr [OF r1] Cons.prems by simp
    note f = follow_dir_agree [OF a n1]
    show ?thesis
    proof (cases "follow_dir rl N1 dev (read_inode buf) par")
      case None
      then show ?thesis using r1 f(1) n1 Cons.IH [OF n1] by (simp add: Let_def)
    next
      case (Some b)
      obtain ok2 i2 par2 N2 where r2: "follow_dir rl N1 dev (read_inode buf) par = Some (ok2, i2, par2, N2)"
        using Some by (cases b) auto
      have n2: "r \<le> nr_recursion N2" using f(2) [OF r2] .
      show ?thesis
      proof (cases "scan_dir N2 dev name (i_next i2) t")
        case None
        then show ?thesis using r1 r2 f(1) n1 n2 Cons.IH [OF n1] by (simp add: Let_def)
      next
        case (Some c)
        obtain ok3 found t3 N3 where r3: "scan_dir N2 dev name (i_next i2) t = Some (ok3, found, t3, N3)"
          using Some by (cases c) auto
        have n3: "r \<le> nr_recursion N3" using scan_dir_nr [OF r3] n2 by simp
        show ?thesis using r1 r2 r3 f(1) n1 n2 n3 Cons.IH [OF n1] Cons.IH [OF n3] final_inode_agree [OF a n3]
          by (auto simp: Let_def)
      qed
    qed
  qed simp
qed simp

lemma inode_get_by_agree:
  assumes a: "agree r rl rl'" and N: "r \<le> nr_recursion N"
  shows "inode_get_by rl' P N dev cwd path dr mode res = inode_get_by rl P N dev cwd path dr mode res"
    "inode_get_by rl P N dev cwd path dr mode res = Some (x, i, N') \<Longrightarrow> r \<le> nr_recursion N'"
proof -
  have *: "inode_get_by rl' P N dev cwd path dr mode res = inode_get_by rl P N dev cwd path dr mode res \<and>
    (\<forall>x i N'. inode_get_by rl P N dev cwd path dr mode res = Some (x, i, N') \<longrightarrow> r \<le> nr_recursion N')"
  proof (cases "real_tab N dev cwd path")
    case (Some b)
    obtain tab N1 where r1: "real_tab N dev cwd path = Some (tab, N1)" using Some by (cases b) auto
    have n1: "r \<le> nr_recursion N1" using real_tab_nr [OF r1] N by simp
    show ?thesis
    proof (cases "load_root (now P) N1 dev (inode_start (master_tab (nm_fs N1) ! the (master_get (nm_fs N) dev)))")
      case None
      then show ?thesis using r1 N n1 by (auto simp: inode_get_by_def split: option.split)
    next
      case (Some c)
      obtain ok i N2 where r2: "load_root (now P) N1 dev (inode_start (master_tab (nm_fs N1) ! the (master_get (nm_fs N) dev))) = Some (ok, i, N2)"
        using Some by (cases c) auto
      have n2: "r \<le> nr_recursion N2" using load_root_nr [OF r2] n1 by simp
      show ?thesis using r1 r2 N n1 n2 walk_get_agree [OF a n2]
        by (auto simp: inode_get_by_def split: option.split if_split_asm)
    qed
  qed (auto simp: inode_get_by_def N split: option.split)
  then show "inode_get_by rl' P N dev cwd path dr mode res = inode_get_by rl P N dev cwd path dr mode res"
    "inode_get_by rl P N dev cwd path dr mode res = Some (x, i, N') \<Longrightarrow> r \<le> nr_recursion N'" by blast+
qed

lemma link_target_agree:
  assumes a: "agree (Suc r) rl rl'" and N: "Suc r \<le> nr_recursion N"
  shows "link_target rl' P N dev cur i path = link_target rl P N dev cur i path \<and>
    (\<forall>x N'. link_target rl P N dev cur i path = Some (x, N') \<longrightarrow> r \<le> nr_recursion N')"
proof (cases "krealpath (nm_fs N) dev cur path")
  case (Some b)
  obtain q s where q: "krealpath (nm_fs N) dev cur path = Some (q, s)" using Some by (cases b) auto
  have n: "Suc r \<le> nr_recursion (nm_errno 0 (N\<lparr>nm_fs := s\<rparr>))" using N by simp
  show ?thesis
  proof (cases q)
    case (Inl e)
    then show ?thesis using q N by (simp add: link_target_def)
  next
    case (Inr p)
    show ?thesis
    proof (cases "inode_get_by rl P (nm_errno 0 (N\<lparr>nm_fs := s\<rparr>)) dev cur path True INODE_DONTCHECKPERMS i")
      case None
      then show ?thesis using q Inr inode_get_by_agree(1) [OF a n] by (simp add: link_target_def)
    next
      case (Some c)
      obtain x j N2 where g: "inode_get_by rl P (nm_errno 0 (N\<lparr>nm_fs := s\<rparr>)) dev cur path True INODE_DONTCHECKPERMS i = Some (x, j, N2)"
        using Some by (cases c) auto
      then show ?thesis using q Inr inode_get_by_agree(1) [OF a n] inode_get_by_agree(2) [OF a n g]
        by (auto simp: link_target_def)
    qed
  qed
qed (simp add: link_target_def)

lemma kreadlink_fuel:
  "0 < k \<Longrightarrow> 0 < k' \<Longrightarrow> MAX_RECURSION < r + k \<Longrightarrow> MAX_RECURSION < r + k' \<Longrightarrow> agree r (kreadlink k P) (kreadlink k' P)"
proof (induction k arbitrary: k' r)
  case (Suc k)
  obtain l where k': "k' = Suc l" using Suc.prems(2) by (cases k') auto
  have "kreadlink k' P N dev cur = kreadlink (Suc k) P N dev cur \<and>
      (\<forall>x N'. kreadlink (Suc k) P N dev cur = Some (x, N') \<longrightarrow> r \<le> nr_recursion N')"
    if N: "r \<le> nr_recursion N" for N dev cur
  proof (cases "nr_recursion N + 1 > MAX_RECURSION")
    case True
    then show ?thesis using N k' by (auto simp: Let_def)
  next
    case False
    let ?N = "N\<lparr>nr_recursion := nr_recursion N + 1\<rparr>"
    have a: "agree (Suc r) (kreadlink k P) (kreadlink l P)" using Suc k' N False by (intro Suc.IH) auto
    show ?thesis
    proof (cases "nm_read ?N dev cur")
      case None
      then show ?thesis using False k' by (simp add: Let_def)
    next
      case (Some b)
      obtain ok buf N1 where r1: "nm_read ?N dev cur = Some (ok, buf, N1)" using Some by (cases b) auto
      have n1: "Suc r \<le> nr_recursion N1" using nm_read_nr [OF r1] N by simp
      show ?thesis
      proof (cases "nm_read N1 dev (i_next (read_inode buf))")
        case None
        then show ?thesis using r1 n1 False k' by (auto simp: Let_def)
      next
        case (Some c)
        obtain ok2 buf2 N2 where r2: "nm_read N1 dev (i_next (read_inode buf)) = Some (ok2, buf2, N2)" using Some by (cases c) auto
        have n2: "Suc r \<le> nr_recursion N2" using nm_read_nr [OF r2] n1 by simp
        show ?thesis using r1 r2 n1 n2 False k' link_target_agree [OF a n2] by (auto simp: Let_def)
      qed
    qed
  qed
  then show ?case by (simp add: agree_def)
qed simp


text \<open>
  The number of calls \<open>kreadlink\<close> is given is no limit of its own: with \<open>MAX_RECURSION + 1\<close> of them or
  more \<open>inode_get\<close> does the same, because the count of the code stops the recursion first.
\<close>

lemma link_depth_bounded:
  assumes "MAX_RECURSION < k"
  shows "inode_get_by (kreadlink k P) P N dev cwd path do_readlink mode res = inode_get P N dev cwd path do_readlink mode res"
  unfolding inode_get_def using assms
  by (intro inode_get_by_agree(1) [of 0, OF kreadlink_fuel]) simp_all

section \<open>Directories\<close>

text \<open>
  The maps of a directory, linked from \<open>nxt\<close>, and their entries; \<open>V\<close> is the content of the blocks of the
  device. Entries and maps lie on the device.
\<close>

primrec dir_chain :: "(u32 \<Rightarrow> bytes) \<Rightarrow> int \<Rightarrow> u32 \<Rightarrow> u32 list \<Rightarrow> bool" where
  "dir_chain V dev nxt [] \<longleftrightarrow> nxt = INODE_NULL"
| "dir_chain V dev nxt (m # ms) \<longleftrightarrow> nxt = m \<and> m \<noteq> INODE_NULL \<and> addr_ok dev m \<and>
     (\<forall>b \<in> set (bm_blocks (read_bmap (V m))). b \<noteq> INODE_NULL \<longrightarrow> addr_ok dev b) \<and>
     dir_chain V dev (bm_next (read_bmap (V m))) ms"

definition entries :: "(u32 \<Rightarrow> bytes) \<Rightarrow> u32 list \<Rightarrow> u32 list" where
  "entries V ms = concat (map (\<lambda>m. filter (\<lambda>b. b \<noteq> INODE_NULL) (bm_blocks (read_bmap (V m)))) ms)"

definition name_of :: "(u32 \<Rightarrow> bytes) \<Rightarrow> u32 \<Rightarrow> bytes" where
  "name_of V b = cstr (i_path (read_inode (V b)))"

definition lookup :: "(u32 \<Rightarrow> bytes) \<Rightarrow> u32 list \<Rightarrow> bytes \<Rightarrow> u32 option" where
  "lookup V ms name = find (\<lambda>b. name_of V b = name) (entries V ms)"

text \<open>A look-up only changes the cache, and nothing a reader sees.\<close>

definition only_read :: "names \<Rightarrow> names \<Rightarrow> bool" where
  "only_read N N' \<longleftrightarrow> nr_recursion N' = nr_recursion N \<and>
     (\<exists>c e. nm_fs N' = (nm_fs N)\<lparr>fs_cache := c, fs_errno := e\<rparr>) \<and>
     (\<forall>dev b. addr_ok dev b \<longrightarrow> view (fs_cache (nm_fs N')) dev b = view (fs_cache (nm_fs N)) dev b)"

abbreviation nview :: "names \<Rightarrow> int \<Rightarrow> u32 \<Rightarrow> bytes" where
  "nview N dev \<equiv> view (fs_cache (nm_fs N)) dev"

abbreviation room_for :: "names \<Rightarrow> nat \<Rightarrow> bool" where
  "room_for N n \<equiv> cache_inv (fs_cache (nm_fs N)) n"

lemma only_read_refl [simp]: "only_read N N"
  unfolding only_read_def by (auto intro!: exI [of _ "fs_cache (nm_fs N)"] exI [of _ "fs_errno (nm_fs N)"])

lemma only_read_trans: "only_read N N1 \<Longrightarrow> only_read N1 N2 \<Longrightarrow> only_read N N2"
  unfolding only_read_def by fastforce

lemma only_read_errno: "only_read N N' \<Longrightarrow> only_read N (nm_errno e N')"
proof -
  assume o: "only_read N N'"
  then obtain c x where "nm_fs N' = (nm_fs N)\<lparr>fs_cache := c, fs_errno := x\<rparr>" unfolding only_read_def by blast
  then have "nm_fs (nm_errno e N') = (nm_fs N)\<lparr>fs_cache := c, fs_errno := e\<rparr>" by (simp add: nm_errno_def)
  then show ?thesis using o unfolding only_read_def by (metis nm_errno_fields(1,2))
qed

lemma only_read_view: "only_read N N' \<Longrightarrow> addr_ok dev b \<Longrightarrow> nview N' dev b = nview N dev b"
  unfolding only_read_def by blast

lemma cache_inv_mono: "cache_inv c n \<Longrightarrow> n' \<le> n \<Longrightarrow> cache_inv c n'"
  unfolding cache_inv_def by (auto simp: headroom_def)

lemma nm_read_ok:
  assumes "room_for N (Suc n)" "addr_ok dev b"
  obtains N' where "nm_read N dev b = Some (True, nview N dev b, N')" "room_for N' n" "only_read N N'"
proof -
  obtain c where c: "block_read (fs_cache (nm_fs N)) dev b (Some (zeros DEV_BLOCK_SIZE)) = Some (BLOCK_OK, Some (nview N dev b), c)"
      "cache_inv c n" "\<And>dev' b'. addr_ok dev' b' \<Longrightarrow> view c dev' b' = nview N dev' b'"
    by (rule cache_read [OF assms, of "zeros DEV_BLOCK_SIZE"]) blast
  let ?N = "N\<lparr>nm_fs := (nm_fs N)\<lparr>fs_cache := c\<rparr>\<rparr>"
  have "only_read N ?N" using c(3) unfolding only_read_def
    by (auto intro!: exI [of _ c] exI [of _ "fs_errno (nm_fs N)"])
  then show thesis using c by (intro that [of ?N]) (simp_all add: nm_read_def fs_read_def)
qed

lemma scan_slots_ok:
  "room_for N (n + length (filter (\<lambda>b. b \<noteq> INODE_NULL) bs)) \<Longrightarrow> \<forall>b \<in> set bs. b \<noteq> INODE_NULL \<longrightarrow> addr_ok dev b \<Longrightarrow>
   \<exists>t' N'. scan_slots bs N dev name t =
       Some (True, case find (\<lambda>b. name_of (nview N dev) b = name) (filter (\<lambda>b. b \<noteq> INODE_NULL) bs) of Some b \<Rightarrow> b | None \<Rightarrow> INODE_NULL, t', N') \<and>
     (\<forall>b. find (\<lambda>b. name_of (nview N dev) b = name) (filter (\<lambda>b. b \<noteq> INODE_NULL) bs) = Some b \<longrightarrow> t' = read_inode (nview N dev b)) \<and>
     room_for N' n \<and> only_read N N'"
proof (induction bs arbitrary: N t)
  case Nil
  then show ?case by (auto intro!: exI [of _ N])
next
  case (Cons b bs)
  show ?case
  proof (cases "b = INODE_NULL")
    case True
    then show ?thesis using Cons by simp
  next
    case False
    let ?k = "length (filter (\<lambda>b. b \<noteq> INODE_NULL) bs)"
    have ok: "room_for N (Suc (n + ?k))" "addr_ok dev b" using Cons.prems False by simp_all
    obtain N1 where r: "nm_read N dev b = Some (True, nview N dev b, N1)" "room_for N1 (n + ?k)" "only_read N N1"
      by (rule nm_read_ok [OF ok])
    show ?thesis
    proof (cases "name_of (nview N dev) b = name")
      case True
      have "room_for N1 n" using cache_inv_mono [OF r(2)] by simp
      then show ?thesis using True False r by (auto simp: name_of_def Let_def intro!: exI [of _ N1])
    next
      case neq: False
      have same: "find (\<lambda>b. name_of (nview N1 dev) b = name) (filter (\<lambda>b. b \<noteq> INODE_NULL) bs) =
          find (\<lambda>b. name_of (nview N dev) b = name) (filter (\<lambda>b. b \<noteq> INODE_NULL) bs)"
        using only_read_view [OF r(3)] Cons.prems(2) by (intro find_cong) (auto simp: name_of_def)
      obtain t' N' where s: "scan_slots bs N1 dev name (read_inode (nview N dev b)) =
          Some (True, case find (\<lambda>b. name_of (nview N dev) b = name) (filter (\<lambda>b. b \<noteq> INODE_NULL) bs) of Some b \<Rightarrow> b | None \<Rightarrow> INODE_NULL, t', N')"
          "\<forall>b. find (\<lambda>b. name_of (nview N1 dev) b = name) (filter (\<lambda>b. b \<noteq> INODE_NULL) bs) = Some b \<longrightarrow> t' = read_inode (nview N1 dev b)"
          "room_for N' n" "only_read N1 N'"
        using Cons.IH [OF r(2), of "read_inode (nview N dev b)"] Cons.prems(2) unfolding same by auto
      have "t' = read_inode (nview N dev b')"
        if f: "find (\<lambda>b. name_of (nview N dev) b = name) (filter (\<lambda>b. b \<noteq> INODE_NULL) bs) = Some b'" for b'
      proof -
        have "b' \<in> set bs" "b' \<noteq> INODE_NULL" using f by (auto simp: find_Some_iff dest!: nth_mem)
        then show ?thesis using s(2) f same only_read_view [OF r(3), of dev b'] Cons.prems(2) by auto
      qed
      then show ?thesis using False neq r(1) s(1,3) only_read_trans [OF r(3) s(4)]
        by (auto simp: name_of_def Let_def)
    qed
  qed
qed


lemma find_append: "find P (xs @ ys) = (case find P xs of Some x \<Rightarrow> Some x | None \<Rightarrow> find P ys)"
  by (induction xs) auto

lemma dir_chain_cong: "(\<And>b. addr_ok dev b \<Longrightarrow> V' b = V b) \<Longrightarrow> dir_chain V' dev nxt ms = dir_chain V dev nxt ms"
  by (induction ms arbitrary: nxt) auto

lemma dir_chain_maps: "dir_chain V dev nxt ms \<Longrightarrow> m \<in> set ms \<Longrightarrow> addr_ok dev m"
  by (induction ms arbitrary: nxt) auto

lemma dir_chain_entries: "dir_chain V dev nxt ms \<Longrightarrow> b \<in> set (entries V ms) \<Longrightarrow> addr_ok dev b \<and> b \<noteq> INODE_NULL"
  by (induction ms arbitrary: nxt) (auto simp: entries_def)

lemma lookup_cong:
  assumes "dir_chain V dev nxt ms" "\<And>b. addr_ok dev b \<Longrightarrow> V' b = V b"
  shows "entries V' ms = entries V ms" "lookup V' ms name = lookup V ms name"
proof -
  show e: "entries V' ms = entries V ms"
    unfolding entries_def by (intro arg_cong [of _ _ concat] map_cong refl) (simp add: dir_chain_maps [OF assms(1)] assms(2))
  show "lookup V' ms name = lookup V ms name"
    unfolding lookup_def e by (intro find_cong refl) (simp add: name_of_def dir_chain_entries [OF assms(1)] assms(2))
qed

lemma lookup_entry: "lookup V ms name = Some b \<Longrightarrow> b \<in> set (entries V ms) \<and> name_of V b = name"
  by (auto simp: lookup_def find_Some_iff)

abbreviation null_or :: "u32 option \<Rightarrow> u32" where
  "null_or r \<equiv> (case r of Some b \<Rightarrow> b | None \<Rightarrow> INODE_NULL)"

lemma scan_dir_ok:
  "room_for N (n + length ms + length (entries (nview N dev) ms)) \<Longrightarrow> dir_chain (nview N dev) dev nxt ms \<Longrightarrow> ms \<noteq> [] \<Longrightarrow>
   \<exists>t' N'. scan_dir N dev name nxt t = Some (True, null_or (lookup (nview N dev) ms name), t', N') \<and>
     (\<forall>b. lookup (nview N dev) ms name = Some b \<longrightarrow> t' = read_inode (nview N dev b)) \<and> room_for N' n \<and> only_read N N'"
proof (induction ms arbitrary: N nxt t)
  case (Cons m ms)
  let ?V = "nview N dev" and ?bm = "read_bmap (nview N dev m)"
  let ?es = "filter (\<lambda>b. b \<noteq> INODE_NULL) (bm_blocks ?bm)"
  have c: "nxt = m" "addr_ok dev m" "\<forall>b \<in> set (bm_blocks ?bm). b \<noteq> INODE_NULL \<longrightarrow> addr_ok dev b"
      "dir_chain ?V dev (bm_next ?bm) ms" using Cons.prems(2) by simp_all
  have len: "entries ?V (m # ms) = ?es @ entries ?V ms" by (simp add: entries_def)
  have room: "room_for N (Suc (n + length ms + length (entries ?V ms) + length ?es))" using Cons.prems(1) by (simp add: len add_ac)
  obtain N1 where r: "nm_read N dev m = Some (True, ?V m, N1)"
      "room_for N1 (n + length ms + length (entries ?V ms) + length ?es)" "only_read N N1"
    by (rule nm_read_ok [OF room c(2)])
  note v1 = only_read_view [OF r(3)]
  have f1: "find (\<lambda>b. name_of (nview N1 dev) b = name) ?es = find (\<lambda>b. name_of ?V b = name) ?es"
    using v1 c(3) by (intro find_cong) (auto simp: name_of_def)
  obtain t2 N2 where s: "scan_slots (bm_blocks ?bm) N1 dev name t = Some (True, null_or (find (\<lambda>b. name_of ?V b = name) ?es), t2, N2)"
      "\<forall>b. find (\<lambda>b. name_of ?V b = name) ?es = Some b \<longrightarrow> t2 = read_inode (nview N1 dev b)"
      "room_for N2 (n + length ms + length (entries ?V ms))" "only_read N1 N2"
    using scan_slots_ok [OF r(2) c(3), of name t] unfolding f1 by blast
  note o2 = only_read_trans [OF r(3) s(4)]
  have step: "scan_dir N dev name nxt t =
      (if bm_next ?bm \<noteq> INODE_NULL \<and> null_or (find (\<lambda>b. name_of ?V b = name) ?es) = INODE_NULL
       then scan_dir N2 dev name (bm_next ?bm) t2
       else Some (True, null_or (find (\<lambda>b. name_of ?V b = name) ?es), t2, N2))"
    using r(1) s(1) c(1) by (subst scan_dir.simps) (simp add: Let_def)
  show ?case
  proof (cases "find (\<lambda>b. name_of ?V b = name) ?es")
    case (Some b)
    have "b \<in> set (bm_blocks ?bm)" "b \<noteq> INODE_NULL" using Some by (auto simp: find_Some_iff dest!: nth_mem)
    then have "t2 = read_inode (?V b)" using s(2) Some v1 c(3) by auto
    moreover have "lookup ?V (m # ms) name = Some b" using Some by (simp add: lookup_def len find_append)
    moreover have "room_for N2 n" using cache_inv_mono [OF s(3)] by simp
    ultimately show ?thesis using step Some \<open>b \<noteq> INODE_NULL\<close> o2 by auto
  next
    case None
    have l: "lookup ?V (m # ms) name = lookup ?V ms name" using None by (simp add: lookup_def len find_append)
    show ?thesis
    proof (cases "ms = []")
      case True
      then have "bm_next ?bm = INODE_NULL" "lookup ?V ms name = None" using c(4) by (simp_all add: lookup_def entries_def)
      moreover have "room_for N2 n" using cache_inv_mono [OF s(3)] by simp
      ultimately show ?thesis using step None l o2 by auto
    next
      case False
      then have nz: "bm_next ?bm \<noteq> INODE_NULL" using c(4) by (cases ms) auto
      have v2: "nview N2 dev b = ?V b" if "addr_ok dev b" for b using only_read_view [OF o2 that] .
      have ch: "dir_chain (nview N2 dev) dev (bm_next ?bm) ms" using dir_chain_cong [of dev "nview N2 dev" ?V] v2 c(4) by simp
      note lk = lookup_cong [OF c(4), of "nview N2 dev"]
      obtain t' N' where "scan_dir N2 dev name (bm_next ?bm) t2 = Some (True, null_or (lookup ?V ms name), t', N')"
          "\<forall>b. lookup ?V ms name = Some b \<longrightarrow> t' = read_inode (nview N2 dev b)" "room_for N' n" "only_read N2 N'"
        using Cons.IH [OF _ ch False, of t2] s(3) lk v2 by (auto simp: add_ac)
      moreover have "addr_ok dev b" if "lookup ?V ms name = Some b" for b
        using lookup_entry [OF that] dir_chain_entries [OF c(4)] by blast
      ultimately show ?thesis using step None l nz v2 only_read_trans [OF o2] by auto
    qed
  qed
qed simp


section \<open>Paths through the tree\<close>

text \<open>A directory the process may search, and its maps within the reads \<open>K\<close> allows.\<close>

definition may_search :: "(u32 \<Rightarrow> bytes) \<Rightarrow> int \<Rightarrow> proc_ids \<Rightarrow> u32 \<Rightarrow> bool" where
  "may_search V dev P d \<longleftrightarrow> addr_ok dev d \<and> is_directory (read_inode (V d)) \<noteq> 0 \<and> is_symlink (read_inode (V d)) = 0 \<and>
     inode_check_permissions (read_inode (V d)) 0 0 (p_group P) (p_owner P) INODE_RX"

definition dir_maps :: "(u32 \<Rightarrow> bytes) \<Rightarrow> int \<Rightarrow> nat \<Rightarrow> u32 \<Rightarrow> u32 list \<Rightarrow> bool" where
  "dir_maps V dev K d ms \<longleftrightarrow> dir_chain V dev (i_next (read_inode (V d))) ms \<and> Suc (length ms + length (entries V ms)) \<le> K"

text \<open>The names \<open>cs\<close> lead from the directory \<open>d\<close> to the block \<open>b\<close>; they lead to a directory without the next name.\<close>

primrec leads :: "(u32 \<Rightarrow> bytes) \<Rightarrow> int \<Rightarrow> proc_ids \<Rightarrow> nat \<Rightarrow> u32 \<Rightarrow> bytes list \<Rightarrow> u32 \<Rightarrow> bool" where
  "leads V dev P K d [] b \<longleftrightarrow> d = b"
| "leads V dev P K d (c # cs) b \<longleftrightarrow> may_search V dev P d \<and>
     (\<exists>ms e. dir_maps V dev K d ms \<and> lookup V ms c = Some e \<and> leads V dev P K e cs b)"

primrec missing :: "(u32 \<Rightarrow> bytes) \<Rightarrow> int \<Rightarrow> proc_ids \<Rightarrow> nat \<Rightarrow> u32 \<Rightarrow> bytes list \<Rightarrow> bool" where
  "missing V dev P K d [] \<longleftrightarrow> False"
| "missing V dev P K d (c # cs) \<longleftrightarrow> may_search V dev P d \<and>
     (\<exists>ms. dir_maps V dev K d ms \<and> (case lookup V ms c of None \<Rightarrow> True | Some e \<Rightarrow> missing V dev P K e cs))"

lemma search_cong:
  assumes v: "\<And>b. addr_ok dev b \<Longrightarrow> V' b = V b"
  shows "may_search V' dev P d = may_search V dev P d" "addr_ok dev d \<Longrightarrow> dir_maps V' dev K d ms = dir_maps V dev K d ms"
    "addr_ok dev d \<Longrightarrow> dir_maps V dev K d ms \<Longrightarrow> lookup V' ms c = lookup V ms c"
proof -
  show "may_search V' dev P d = may_search V dev P d" using v [of d] by (auto simp: may_search_def)
  assume d: "addr_ok dev d"
  have e: "entries V' ms = entries V ms" if "dir_chain V dev nxt ms" for nxt using lookup_cong(1) [OF that v] .
  show "dir_maps V' dev K d ms = dir_maps V dev K d ms"
    using e dir_chain_cong [of dev V' V, OF v] v [OF d] by (auto simp: dir_maps_def)
  show "dir_maps V dev K d ms \<Longrightarrow> lookup V' ms c = lookup V ms c"
    using lookup_cong(2) [of V dev _ ms V', OF _ v] by (auto simp: dir_maps_def)
qed

lemma leads_cong:
  "(\<And>b. addr_ok dev b \<Longrightarrow> V' b = V b) \<Longrightarrow> leads V dev P K d cs b \<Longrightarrow> leads V' dev P K d cs b"
proof (induction cs arbitrary: d)
  case (Cons c cs)
  have s: "may_search V dev P d" and d: "addr_ok dev d" using Cons.prems(2) by (simp_all add: may_search_def)
  obtain ms e where m: "dir_maps V dev K d ms" "lookup V ms c = Some e" "leads V dev P K e cs b" using Cons.prems(2) by auto
  have "dir_maps V' dev K d ms" "lookup V' ms c = Some e" "may_search V' dev P d" "leads V' dev P K e cs b"
    using search_cong(1) [of dev V' V P d] search_cong(2) [of dev V' V d K ms] search_cong(3) [of dev V' V d K ms c] m s d Cons.IH [OF Cons.prems(1) m(3)] Cons.prems(1) by simp_all
  then show ?case by auto
qed simp

lemma missing_cong:
  "(\<And>b. addr_ok dev b \<Longrightarrow> V' b = V b) \<Longrightarrow> missing V dev P K d cs \<Longrightarrow> missing V' dev P K d cs"
proof (induction cs arbitrary: d)
  case (Cons c cs)
  have s: "may_search V dev P d" and d: "addr_ok dev d" using Cons.prems(2) by (simp_all add: may_search_def)
  obtain ms where m: "dir_maps V dev K d ms" "case lookup V ms c of None \<Rightarrow> True | Some e \<Rightarrow> missing V dev P K e cs"
    using Cons.prems(2) by auto
  have cg: "may_search V' dev P d" "dir_maps V' dev K d ms" "lookup V' ms c = lookup V ms c"
    using search_cong(1) [of dev V' V P d] search_cong(2) [of dev V' V d K ms] search_cong(3) [of dev V' V d K ms c] m s d Cons.prems(1) by simp_all
  have "case lookup V' ms c of None \<Rightarrow> True | Some e \<Rightarrow> missing V' dev P K e cs"
    using m(2) cg(3) Cons.IH [OF Cons.prems(1)] by (auto split: option.splits)
  then show ?case using cg(1,2) by auto
qed simp

text \<open>One step of the walk, from a directory the process may search.\<close>

lemma walk_step:
  assumes "may_search (nview N dev) dev P d" "dir_maps (nview N dev) dev K d ms" "room_for N (n + K)"
  obtains (gone) i N' where "lookup (nview N dev) ms c = None"
      "walk_get (c # cs) rl P N dev dr mode d t res = Some (INODE_FILE_NOT_FOUND, i, N')"
      "fs_errno (nm_fs N') = ENOENT" "room_for N' n" "only_read N N'"
    | (found) e N' where "lookup (nview N dev) ms c = Some e" "addr_ok dev e" "room_for N' n" "only_read N N'"
      "walk_get (c # cs) rl P N dev dr mode d t res =
        (if cs = [] then final_inode rl P N' dev dr mode (read_inode (nview N dev e)) res
         else walk_get cs rl P N' dev dr mode e (read_inode (nview N dev e)) res)"
proof -
  let ?V = "nview N dev" and ?i = "read_inode (nview N dev d)"
  have s: "addr_ok dev d" "is_directory ?i \<noteq> 0" "is_symlink ?i = 0"
      "inode_check_permissions ?i 0 0 (p_group P) (p_owner P) INODE_RX" using assms(1) by (simp_all add: may_search_def)
  have m: "dir_chain ?V dev (i_next ?i) ms" "Suc (length ms + length (entries ?V ms)) \<le> K" using assms(2) by (simp_all add: dir_maps_def)
  have room: "room_for N (Suc (n + length ms + length (entries ?V ms)))" by (rule cache_inv_mono [OF assms(3)]) (use m(2) in simp)
  obtain N1 where r: "nm_read N dev d = Some (True, ?V d, N1)" "room_for N1 (n + length ms + length (entries ?V ms))" "only_read N N1"
    by (rule nm_read_ok [OF room s(1)])
  have fol: "follow_dir rl N1 dev ?i d = Some (True, ?i, d, N1)" using s(3) by (simp add: follow_dir_def)
  show thesis
  proof (cases "ms = []")
    case True
    then have "i_next ?i = INODE_NULL" "lookup ?V ms c = None" using m(1) by (simp_all add: lookup_def entries_def)
    moreover have "room_for N1 n" by (rule cache_inv_mono [OF r(2)]) simp
    ultimately show thesis using r(1,3) fol s
      by (intro gone [of "read_inode (zeros DEV_BLOCK_SIZE)" "nm_errno ENOENT N1"]) (auto simp: Let_def nm_errno_def only_read_errno [unfolded nm_errno_def])
  next
    case False
    then have nz: "i_next ?i \<noteq> INODE_NULL" using m(1) by (cases ms) auto
    have v1: "nview N1 dev b = ?V b" if "addr_ok dev b" for b using only_read_view [OF r(3) that] .
    have lk: "entries (nview N1 dev) ms = entries ?V ms" "lookup (nview N1 dev) ms c = lookup ?V ms c"
      using lookup_cong [OF m(1), of "nview N1 dev"] v1 by auto
    have ch: "dir_chain (nview N1 dev) dev (i_next ?i) ms" using dir_chain_cong [of dev "nview N1 dev" ?V, OF v1] m(1) by simp
    obtain t2 N2 where sc: "scan_dir N1 dev c (i_next ?i) t = Some (True, null_or (lookup ?V ms c), t2, N2)"
        "\<forall>b. lookup ?V ms c = Some b \<longrightarrow> t2 = read_inode (nview N1 dev b)" "room_for N2 n" "only_read N1 N2"
      using scan_dir_ok [of N1 n ms dev "i_next ?i" c t] r(2) ch False unfolding lk by blast
    have o2: "only_read N N2" by (rule only_read_trans [OF r(3) sc(4)])
    show thesis
    proof (cases "lookup ?V ms c")
      case None
      then show thesis using r(1) fol s nz sc o2
        by (intro gone [of res "nm_errno ENOENT N2"]) (auto simp: Let_def nm_errno_def only_read_errno [unfolded nm_errno_def])
    next
      case (Some e)
      have e: "addr_ok dev e" "e \<noteq> INODE_NULL" using lookup_entry [OF Some] dir_chain_entries [OF m(1)] by blast+
      then have "t2 = read_inode (?V e)" using sc(2) Some v1 by simp
      then show thesis using r(1) fol s nz sc(1,3) o2 Some e by (intro found [of e N2]) (auto simp: Let_def)
    qed
  qed
qed

lemma leads_addr: "leads V dev P K d cs b \<Longrightarrow> addr_ok dev d \<Longrightarrow> addr_ok dev b"
proof (induction cs arbitrary: d)
  case (Cons c cs)
  obtain ms e where m: "dir_maps V dev K d ms" "lookup V ms c = Some e" "leads V dev P K e cs b" using Cons.prems(1) by auto
  have "addr_ok dev e" using lookup_entry [OF m(2)] m(1) dir_chain_entries unfolding dir_maps_def by blast
  then show ?case using Cons.IH [OF m(3)] by simp
qed simp

lemma walk_get_leads:
  assumes fin: "read_inode (nview N dev b) = fi" "\<not> (is_symlink fi \<noteq> 0 \<or> is_hardlink fi \<noteq> 0) \<or> \<not> dr"
    "inode_check_permissions fi 0 0 (p_group P) (p_owner P) mode"
  shows "leads (nview N dev) dev P K d cs b \<Longrightarrow> cs \<noteq> [] \<Longrightarrow> room_for N (n + K * length cs) \<Longrightarrow>
    \<exists>N'. walk_get cs rl P N dev dr mode d t res = Some (INODE_OK, fi, N') \<and> room_for N' n \<and> only_read N N'"
  using fin(1)
proof (induction cs arbitrary: N d t)
  case (Cons c cs)
  obtain ms e where s: "may_search (nview N dev) dev P d" "dir_maps (nview N dev) dev K d ms"
      "lookup (nview N dev) ms c = Some e" "leads (nview N dev) dev P K e cs b" using Cons.prems(1) by auto
  have room: "room_for N ((n + K * length cs) + K)" using Cons.prems(3) by (simp add: add_ac)
  show ?case
  proof (rule walk_step [OF s(1,2) room, of c cs rl dr mode t res])
    fix e' N' assume w: "lookup (nview N dev) ms c = Some e'" "addr_ok dev e'" "room_for N' (n + K * length cs)" "only_read N N'"
      "walk_get (c # cs) rl P N dev dr mode d t res =
        (if cs = [] then final_inode rl P N' dev dr mode (read_inode (nview N dev e')) res
         else walk_get cs rl P N' dev dr mode e' (read_inode (nview N dev e')) res)"
    have e': "e' = e" using w(1) s(3) by simp
    have v: "\<And>b. addr_ok dev b \<Longrightarrow> nview N' dev b = nview N dev b" using only_read_view [OF w(4)] .
    show ?case
    proof (cases "cs = []")
      case True
      then have "e = b" using s(4) by simp
      then have "final_inode rl P N' dev dr mode (read_inode (nview N dev e')) res = Some (INODE_OK, fi, N')"
        using fin(2,3) Cons.prems(4) e' by (auto simp: final_inode_def)
      then show ?thesis using w(3-5) True by auto
    next
      case False
      have l: "leads (nview N' dev) dev P K e cs b" using leads_cong [OF v s(4)] .
      have "addr_ok dev b" using leads_addr [OF s(4)] w(2) e' by simp
      then have "read_inode (nview N' dev b) = fi" using Cons.prems(4) v False by simp
      then obtain N2 where "walk_get cs rl P N' dev dr mode e (read_inode (nview N dev e')) res = Some (INODE_OK, fi, N2)"
          "room_for N2 n" "only_read N' N2"
        using Cons.IH [OF l False w(3)] by blast
      then show ?thesis using w(5) e' False only_read_trans [OF w(4)] by auto
    qed
  qed (use s(3) in simp)
qed simp

lemma walk_get_missing:
  "missing (nview N dev) dev P K d cs \<Longrightarrow> room_for N (n + K * length cs) \<Longrightarrow>
    \<exists>i N'. walk_get cs rl P N dev dr mode d t res = Some (INODE_FILE_NOT_FOUND, i, N') \<and> fs_errno (nm_fs N') = ENOENT \<and>
      room_for N' n \<and> only_read N N'"
proof (induction cs arbitrary: N d t)
  case (Cons c cs)
  obtain ms where s: "may_search (nview N dev) dev P d" "dir_maps (nview N dev) dev K d ms"
      "case lookup (nview N dev) ms c of None \<Rightarrow> True | Some e \<Rightarrow> missing (nview N dev) dev P K e cs" using Cons.prems(1) by auto
  have room: "room_for N ((n + K * length cs) + K)" using Cons.prems(2) by (simp add: add_ac)
  show ?case
  proof (rule walk_step [OF s(1,2) room, of c cs rl dr mode t res])
    fix i N' assume "walk_get (c # cs) rl P N dev dr mode d t res = Some (INODE_FILE_NOT_FOUND, i, N')"
      "fs_errno (nm_fs N') = ENOENT" "room_for N' (n + K * length cs)" "only_read N N'"
    then show ?case using cache_inv_mono [of "fs_cache (nm_fs N')" "n + K * length cs" n] by auto
  next
    fix e N' assume w: "lookup (nview N dev) ms c = Some e" "room_for N' (n + K * length cs)" "only_read N N'"
      "walk_get (c # cs) rl P N dev dr mode d t res =
        (if cs = [] then final_inode rl P N' dev dr mode (read_inode (nview N dev e)) res
         else walk_get cs rl P N' dev dr mode e (read_inode (nview N dev e)) res)"
    have m: "missing (nview N dev) dev P K e cs" using s(3) w(1) by simp
    then have ne: "cs \<noteq> []" by auto
    have "missing (nview N' dev) dev P K e cs" using missing_cong [OF only_read_view [OF w(3)] m] .
    then obtain i N2 where "walk_get cs rl P N' dev dr mode e (read_inode (nview N dev e)) res = Some (INODE_FILE_NOT_FOUND, i, N2)"
        "fs_errno (nm_fs N2) = ENOENT" "room_for N2 n" "only_read N' N2"
      using Cons.IH [OF _ w(2)] by blast
    then show ?case using w(4) ne only_read_trans [OF w(3)] by auto
  qed
qed simp

text \<open>The root directory of the device is there.\<close>

definition root_ok :: "(u32 \<Rightarrow> bytes) \<Rightarrow> int \<Rightarrow> u32 \<Rightarrow> bool" where
  "root_ok V dev root \<longleftrightarrow> addr_ok dev root \<and> name_of V root = [slash] \<and> self (read_inode (V root)) = root"

lemma root_start:
  assumes p: "rooted p" and ok: "root_ok (nview N dev) dev root" and room: "room_for N (Suc n)"
  obtains N' where "room_for N' n" "only_read N N'" "real_tab N dev cwd p = Some (Some ([] # comps p), nm_errno 0 N)"
    "load_root t (nm_errno 0 N) dev root = Some (True, read_inode (nview N dev root), N')"
proof -
  note q = krealpath_rooted [OF p]
  have len: "length p \<le> 253" using p by (simp add: rooted_def)
  have "path_tab (root_path (comps p)) = Some ([] # comps p)"
    using path_tab_split [OF split_root_path(2) [OF q(2)]] q(3) len split_root_path(1) [OF q(2)] by simp
  then have tab: "real_tab N dev cwd p = Some (Some ([] # comps p), nm_errno 0 N)"
    using q(1) by (simp add: real_tab_def nm_errno_def)
  let ?N = "nm_errno 0 N"
  have "room_for ?N (Suc n)" using room by simp
  moreover have r: "addr_ok dev root" "name_of (nview N dev) root = [slash]" using ok by (simp_all add: root_ok_def)
  ultimately obtain N1 where n1: "nm_read ?N dev root = Some (True, nview ?N dev root, N1)" "room_for N1 n" "only_read ?N N1"
    by (metis nm_read_ok)
  have "load_root t ?N dev root = Some (True, read_inode (nview N dev root), N1)"
    using n1(1) r(2) by (simp add: load_root_def name_of_def Let_def)
  moreover have "only_read N N1" using only_read_trans [OF only_read_errno [OF only_read_refl] n1(3)] .
  ultimately show thesis using that n1(2) tab by blast
qed

lemma inode_get_walk:
  assumes p: "rooted p" and m: "master_get (nm_fs N) dev = Some i" and root: "root = inode_start (master_tab (nm_fs N) ! i)"
    and ok: "root_ok (nview N dev) dev root" and room: "room_for N (Suc n)"
  obtains N' where "room_for N' n" "only_read N N'"
    "inode_get_by rl P N dev cwd p dr mode res =
      (if comps p = [] then Some (INODE_OK, read_inode (nview N dev root), N')
       else walk_get (comps p) rl P N' dev dr mode root (read_inode (zeros DEV_BLOCK_SIZE)) res)"
proof -
  obtain N1 where n1: "room_for N1 n" "only_read N N1" "real_tab N dev cwd p = Some (Some ([] # comps p), nm_errno 0 N)"
      "load_root (now P) (nm_errno 0 N) dev root = Some (True, read_inode (nview N dev root), N1)"
    by (rule root_start [OF p ok room])
  have "length p \<le> 253" "self (read_inode (nview N dev root)) = root" using p ok by (simp_all add: rooted_def root_ok_def)
  then show thesis using n1(3,4) m root by (intro that [OF n1(1,2)]) (simp add: inode_get_by_def)
qed

lemma inode_get_leads:
  assumes "rooted p" "comps p \<noteq> []" "master_get (nm_fs N) dev = Some i" "root_ok (nview N dev) dev (inode_start (master_tab (nm_fs N) ! i))"
    and "leads (nview N dev) dev P K (inode_start (master_tab (nm_fs N) ! i)) (comps p) b"
    and "is_symlink (read_inode (nview N dev b)) = 0" "is_hardlink (read_inode (nview N dev b)) = 0"
    and "inode_check_permissions (read_inode (nview N dev b)) 0 0 (p_group P) (p_owner P) mode"
    and "room_for N (Suc (n + K * length (comps p)))"
  shows "\<exists>N'. inode_get P N dev cwd p do_readlink mode res = Some (INODE_OK, read_inode (nview N dev b), N') \<and>
    only_read N N' \<and> room_for N' n"
proof -
  let ?root = "inode_start (master_tab (nm_fs N) ! i)" and ?rl = "kreadlink (Suc MAX_RECURSION) P"
  obtain N1 where n1: "room_for N1 (n + K * length (comps p))" "only_read N N1"
    "inode_get_by ?rl P N dev cwd p do_readlink mode res =
      (if comps p = [] then Some (INODE_OK, read_inode (nview N dev ?root), N1)
       else walk_get (comps p) ?rl P N1 dev do_readlink mode ?root (read_inode (zeros DEV_BLOCK_SIZE)) res)"
    by (rule inode_get_walk [OF assms(1,3) refl assms(4,9)])
  have a: "addr_ok dev b" using leads_addr [OF assms(5)] assms(4) by (simp add: root_ok_def)
  have v: "nview N1 dev b = nview N dev b" using only_read_view [OF n1(2) a] .
  have "leads (nview N1 dev) dev P K ?root (comps p) b" using leads_cong [OF only_read_view [OF n1(2)] assms(5)] .
  then obtain N2 where "walk_get (comps p) ?rl P N1 dev do_readlink mode ?root (read_inode (zeros DEV_BLOCK_SIZE)) res =
      Some (INODE_OK, read_inode (nview N dev b), N2)" "room_for N2 n" "only_read N1 N2"
    using walk_get_leads [of N1 dev b "read_inode (nview N dev b)" do_readlink P mode K ?root "comps p" n ?rl
        "read_inode (zeros DEV_BLOCK_SIZE)" res] assms(2,6-8) v n1(1) by auto
  then show ?thesis using n1(3) assms(2) only_read_trans [OF n1(2)] unfolding inode_get_def by auto
qed

section \<open>Properties\<close>

text \<open>
  C14: When the names of a path lead from the root through directories the process may search to an inode,
  and the process has the access it asks for, \<open>inode_get\<close> returns this inode: every directory on the way
  is searched through all its maps. Nothing a reader of the device sees changes.
\<close>

theorem inode_get_finds:
  assumes "rooted p" "comps p \<noteq> []" "master_get (nm_fs N) dev = Some i" "root_ok (nview N dev) dev (inode_start (master_tab (nm_fs N) ! i))"
    and "leads (nview N dev) dev P K (inode_start (master_tab (nm_fs N) ! i)) (comps p) b"
    and "is_symlink (read_inode (nview N dev b)) = 0" "is_hardlink (read_inode (nview N dev b)) = 0"
    and "inode_check_permissions (read_inode (nview N dev b)) 0 0 (p_group P) (p_owner P) mode"
    and "room_for N (Suc (n + K * length (comps p)))"
  shows "\<exists>N'. inode_get P N dev cwd p do_readlink mode res = Some (INODE_OK, read_inode (nview N dev b), N') \<and>
    only_read N N' \<and> room_for N' n"
  using assms by (rule inode_get_leads)

text \<open>
  C15: When the names of a path lead to a directory that has no entry of the next name, or no entries at
  all, \<open>inode_get\<close> returns \<open>INODE_FILE_NOT_FOUND\<close> with \<open>errno\<close> set to \<open>ENOENT\<close>, and changes nothing a reader
  sees.
\<close>

theorem inode_get_not_found:
  assumes "rooted p" "master_get (nm_fs N) dev = Some i" "root_ok (nview N dev) dev (inode_start (master_tab (nm_fs N) ! i))"
    and "missing (nview N dev) dev P K (inode_start (master_tab (nm_fs N) ! i)) (comps p)"
    and "room_for N (Suc (n + K * length (comps p)))"
  shows "\<exists>r N'. inode_get P N dev cwd p do_readlink mode res = Some (INODE_FILE_NOT_FOUND, r, N') \<and>
    fs_errno (nm_fs N') = ENOENT \<and> only_read N N' \<and> room_for N' n"
proof -
  let ?root = "inode_start (master_tab (nm_fs N) ! i)" and ?rl = "kreadlink (Suc MAX_RECURSION) P"
  obtain N1 where n1: "room_for N1 (n + K * length (comps p))" "only_read N N1"
    "inode_get_by ?rl P N dev cwd p do_readlink mode res =
      (if comps p = [] then Some (INODE_OK, read_inode (nview N dev ?root), N1)
       else walk_get (comps p) ?rl P N1 dev do_readlink mode ?root (read_inode (zeros DEV_BLOCK_SIZE)) res)"
    by (rule inode_get_walk [OF assms(1,2) refl assms(3,5)])
  have "missing (nview N1 dev) dev P K ?root (comps p)" using missing_cong [OF only_read_view [OF n1(2)] assms(4)] .
  moreover have "comps p \<noteq> []" using assms(4) by auto
  ultimately show ?thesis
    using walk_get_missing [of N1 dev P K ?root "comps p" n ?rl do_readlink mode "read_inode (zeros DEV_BLOCK_SIZE)" res]
      n1(1,3) only_read_trans [OF n1(2)] unfolding inode_get_def by auto
qed


subsection \<open>A small tree\<close>

text \<open>The root in block 4099, its only map in block 4300, and the directory \<open>a\<close> in block 4100.\<close>

definition demo_root :: inode where
  "demo_root = demo_inode\<lparr>self := 4099, parent := 4099, is_directory := 1, user_read := 1, user_write := 1, user_execute := 1,
     i_path := store_str (zeros MAX_PATH) [slash], i_next := 4300\<rparr>"

definition demo_map :: block_map where
  "demo_map = \<lparr>bm_next = 0, bm_blocks = 4100 # replicate 126 0\<rparr>"

lemma demo_tree_wf: "inode_wf demo_root" "bmap_wf demo_map"
  by (simp_all add: demo_root_def demo_inode_def inode_wf_def read_inode_def chunk_def demo_map_def bmap_wf_def)

definition root_process :: proc_ids where
  "root_process = \<lparr>now = 0, p_group = 0, p_owner = 0\<rparr>"

lemma demo_root_fields:
  "cstr (i_path demo_root) = [slash]" "self demo_root = 4099" "i_next demo_root = 4300" "is_directory demo_root = 1"
  "is_symlink demo_root = 0" "inode_check_permissions demo_root 0 0 0 0 INODE_RX"
  by (simp_all add: demo_root_def demo_inode_def nul_free_def inode_check_permissions_def class_check_def read_inode_def fld_zeros chunk_def)

lemma demo_names:
  obtains N where "room_for N 122" "master_get (nm_fs N) 0 = Some 0" "inode_start (master_tab (nm_fs N) ! 0) = 4099"
    "nview N 0 4099 = inode_image demo_root" "nview N 0 4300 = bmap_image demo_map" "nview N 0 4100 = inode_image demo_dir"
proof -
  obtain s where s: "fio s 0 0 124 512" "inode_start (master_tab s ! 0) = 4099" "view (fs_cache s) 0 4100 = inode_image demo_dir"
    "unat (bmap_map_end (master_tab s ! 0)) = 4099" by (rule demo_tree)
  have o: "outside s 0 0 4099" using s(4) by (simp add: outside_def addr_ok_def)
  obtain s1 where s1: "fio s1 0 0 123 512" "master_tab s1 = master_tab s"
      "\<And>dev' c. addr_ok dev' c \<Longrightarrow> view (fs_cache s1) dev' c = (if dev' = 0 \<and> c = 4099 then inode_image demo_root else view (fs_cache s) dev' c)"
    by (rule write_step [of s 0 0 123 512 4099 "inode_image demo_root"])
      (use s(1) o demo_tree_wf in \<open>auto simp: image_lengths\<close>)
  have o1: "outside s1 0 0 4300" using s(4) s1(2) by (simp add: outside_def addr_ok_def)
  obtain s2 where s2: "fio s2 0 0 122 512" "master_tab s2 = master_tab s1"
      "\<And>dev' c. addr_ok dev' c \<Longrightarrow> view (fs_cache s2) dev' c = (if dev' = 0 \<and> c = 4300 then bmap_image demo_map else view (fs_cache s1) dev' c)"
    by (rule write_step [of s1 0 0 122 512 4300 "bmap_image demo_map"])
      (use s1(1) o1 demo_tree_wf in \<open>auto simp: image_lengths\<close>)
  have a: "addr_ok 0 4099" "addr_ok 0 4300" "addr_ok 0 4100" by (simp_all add: addr_ok_def)
  show thesis
  proof (rule that [of "\<lparr>nm_fs = s2, nr_recursion = 0\<rparr>"])
    show "room_for \<lparr>nm_fs = s2, nr_recursion = 0\<rparr> 122" "master_get (nm_fs \<lparr>nm_fs = s2, nr_recursion = 0\<rparr>) 0 = Some 0"
      using s2(1) by (simp_all add: fio_def fs_inv_def)
  qed (use s s1 s2 a in simp_all)
qed

lemma demo_search:
  assumes "nview N 0 4099 = inode_image demo_root" "nview N 0 4300 = bmap_image demo_map" "nview N 0 4100 = inode_image demo_dir"
  shows "root_ok (nview N 0) 0 4099" "may_search (nview N 0) 0 root_process 4099" "dir_maps (nview N 0) 0 3 4099 [4300]"
    "lookup (nview N 0) [4300] [97] = Some 4100" "lookup (nview N 0) [4300] [98] = None"
proof -
  have r: "read_inode (nview N 0 4099) = demo_root" "read_bmap (nview N 0 4300) = demo_map" "read_inode (nview N 0 4100) = demo_dir"
    using assms read_inode_image read_bmap_image demo_tree_wf demo_dir_wf by metis+
  have e: "entries (nview N 0) [4300] = [4100]" by (simp add: entries_def r demo_map_def)
  show "root_ok (nview N 0) 0 4099" by (simp add: root_ok_def addr_ok_def name_of_def r demo_root_fields)
  show "may_search (nview N 0) 0 root_process 4099"
    using demo_root_fields by (simp add: may_search_def addr_ok_def r root_process_def)
  show "dir_maps (nview N 0) 0 3 4099 [4300]"
    using e by (simp add: dir_maps_def r demo_root_fields addr_ok_def) (simp add: demo_map_def)
  show "lookup (nview N 0) [4300] [97] = Some 4100" "lookup (nview N 0) [4300] [98] = None"
    by (simp_all add: lookup_def e name_of_def r demo_dir_path)
qed

lemma demo_paths:
  "rooted [slash, 97]" "comps [slash, 97] = [[97]]" "rooted [slash, 98]" "comps [slash, 98] = [[98]]"
  by (simp_all add: rooted_def nul_free_def split_path.simps norm_step_def comps_def)

theorem inode_get_finds_witness:
  "\<exists>N N'. inode_get root_process N 0 4099 [slash, 97] True INODE_DONTCHECKPERMS demo_inode = Some (INODE_OK, demo_dir, N')"
proof -
  obtain N where N: "room_for N 122" "master_get (nm_fs N) 0 = Some 0" "inode_start (master_tab (nm_fs N) ! 0) = 4099"
    "nview N 0 4099 = inode_image demo_root" "nview N 0 4300 = bmap_image demo_map" "nview N 0 4100 = inode_image demo_dir"
    by (rule demo_names)
  note d = demo_search [OF N(4-6)]
  have r: "read_inode (nview N 0 4100) = demo_dir" using N(6) read_inode_image [OF demo_dir_wf] by simp
  have l: "leads (nview N 0) 0 root_process 3 (inode_start (master_tab (nm_fs N) ! 0)) (comps [slash, 97]) 4100"
    using d N(3) by (auto simp: demo_paths)
  have room: "room_for N (Suc (100 + 3 * length (comps [slash, 97])))" by (rule cache_inv_mono [OF N(1)]) (simp add: demo_paths)
  have "is_symlink demo_dir = 0" "is_hardlink demo_dir = 0" "inode_check_permissions demo_dir 0 0 0 0 INODE_DONTCHECKPERMS"
    by (simp_all add: demo_dir_def demo_inode_def read_inode_def fld_zeros chunk_def inode_check_permissions_def)
  then show ?thesis
    using inode_get_finds [OF demo_paths(1) _ N(2) _ l _ _ _ room, of INODE_DONTCHECKPERMS 4099 True demo_inode] d(1) N(3)
    by (auto simp: r demo_paths root_process_def)
qed

theorem inode_get_not_found_witness:
  "\<exists>N r N'. inode_get root_process N 0 4099 [slash, 98] True INODE_READ demo_inode = Some (INODE_FILE_NOT_FOUND, r, N') \<and>
     fs_errno (nm_fs N') = ENOENT"
proof -
  obtain N where N: "room_for N 122" "master_get (nm_fs N) 0 = Some 0" "inode_start (master_tab (nm_fs N) ! 0) = 4099"
    "nview N 0 4099 = inode_image demo_root" "nview N 0 4300 = bmap_image demo_map" "nview N 0 4100 = inode_image demo_dir"
    by (rule demo_names)
  note d = demo_search [OF N(4-6)]
  have l: "missing (nview N 0) 0 root_process 3 (inode_start (master_tab (nm_fs N) ! 0)) (comps [slash, 98])"
    using d N(3) by (auto simp: demo_paths intro!: exI [of _ "[4300]"])
  have room: "room_for N (Suc (100 + 3 * length (comps [slash, 98])))" by (rule cache_inv_mono [OF N(1)]) (simp add: demo_paths)
  show ?thesis
    using inode_get_not_found [OF demo_paths(3) N(2) _ l room, of 4099 True INODE_READ demo_inode] d(1) N(3) by auto
qed

end
