(* ===== verification/Inode_Create.thy ===== *)
theory Inode_Create
  imports Namei
begin

text \<open>
  Making an inode (\<open>inode_create\<close> of \<open>fs/inode.c\<close>, \<open>klink\<close> of \<open>fs/link.c\<close>): a file, a directory, a symbolic
  or a hard link. The path is walked as in \<open>inode_get\<close>; the last component gets an entry in the first
  free place of the maps of its directory, or in a new map.
\<close>

abbreviation (input) EEXIST :: int where "EEXIST \<equiv> 17"

section \<open>The entry in the directory\<close>

text \<open>The first free place of a map gets the new block.\<close>

definition free_place :: "u32 list \<Rightarrow> nat option" where
  "free_place bs = first_from (\<lambda>j. bs ! j = INODE_NULL) 0 (length bs)"

text \<open>
  The loop over the maps of a directory: the result is whether it went well, the new inode block or 0, the
  map and its block. The map is written with the entry before the inode is.
\<close>

partial_function (option) place_loop :: "names \<Rightarrow> int \<Rightarrow> u32 \<Rightarrow> (bool \<times> u32 \<times> block_map \<times> u32 \<times> names) option" where
  "place_loop N dev cur = do {
     (ok, buf, N) \<leftarrow> nm_read N dev cur;
     let bm = read_bmap buf;
     if \<not> ok then Some (False, INODE_NULL, bm, cur, N)
     else case free_place (bm_blocks bm) of
       None \<Rightarrow> if bm_next bm \<noteq> INODE_NULL then place_loop N dev (bm_next bm) else Some (True, INODE_NULL, bm, cur, N)
     | Some j \<Rightarrow> do {
         (r, b, s) \<leftarrow> inode_get_inode_block (nm_fs N) dev 0;
         let N = N\<lparr>nm_fs := s\<rparr>;
         if r = INODE_FAIL then Some (False, INODE_NULL, bm, cur, nm_errno ENOSPC N)
         else do {
           let bm = bm\<lparr>bm_blocks := (bm_blocks bm)[j := b]\<rparr>;
           (ok, N) \<leftarrow> nm_write N dev cur (bmap_image bm);
           if \<not> ok then Some (False, b, bm, cur, N)
           else if bm_next bm \<noteq> INODE_NULL \<and> b = INODE_NULL then place_loop N dev (bm_next bm)
           else Some (True, b, bm, cur, N)
         }
       }
   }"

text \<open>A new map, behind the last one or as the first one of the directory, with the new inode in its first place.\<close>

definition new_map :: "names \<Rightarrow> int \<Rightarrow> inode \<Rightarrow> block_map \<Rightarrow> u32 \<Rightarrow> (bool \<times> u32 \<times> names) option" where
  "new_map N dev pi bm cur = do {
     (r, b, s) \<leftarrow> inode_get_data_block (nm_fs N) dev 0;
     let N = N\<lparr>nm_fs := s\<rparr>;
     if r = INODE_FAIL then Some (False, INODE_NULL, nm_errno ENOSPC N)
     else do {
       (ok, nxt, N) \<leftarrow>
         (if bm_next bm = INODE_NULL \<and> cur \<noteq> INODE_NULL
          then do { (ok, N) \<leftarrow> nm_write N dev cur (bmap_image (bm\<lparr>bm_next := b\<rparr>)); Some (ok, b, N) }
          else if cur = INODE_NULL
          then do { (ok, N) \<leftarrow> nm_write N dev (self pi) (inode_image (pi\<lparr>i_next := b\<rparr>)); Some (ok, b, N) }
          else Some (True, bm_next bm, N));
       if \<not> ok then Some (False, INODE_NULL, N)
       else do {
         (r, b, s) \<leftarrow> inode_get_inode_block (nm_fs N) dev b;
         let N = N\<lparr>nm_fs := s\<rparr>;
         if r = INODE_FAIL then Some (False, INODE_NULL, nm_errno ENOSPC N)
         else do {
           (ok, N) \<leftarrow> nm_write N dev nxt (bmap_image (zero_bmap\<lparr>bm_blocks := (bm_blocks zero_bmap)[0 := b]\<rparr>));
           Some (ok, b, N)
         }
       }
     }
   }"

definition add_entry :: "names \<Rightarrow> int \<Rightarrow> u32 \<Rightarrow> (bool \<times> u32 \<times> names) option" where
  "add_entry N dev par = do {
     (ok, buf, N) \<leftarrow> nm_read N dev par;
     let pi = read_inode buf;
     if \<not> ok then Some (False, INODE_NULL, N)
     else do {
       (ok, b, bm, cur, N) \<leftarrow>
         (if i_next pi \<noteq> INODE_NULL then place_loop N dev (i_next pi)
          else Some (True, INODE_NULL, zero_bmap, INODE_NULL, N));
       if \<not> ok then Some (False, INODE_NULL, N)
       else if b = INODE_NULL then new_map N dev pi bm cur
       else Some (True, b, N)
     }
   }"

section \<open>The inode\<close>

record create_args =
  c_mode :: inode_mode
  c_perm :: u32
  c_umask :: u32
  c_group :: u32
  c_owner :: u32

definition kind_flag :: "inode_mode \<Rightarrow> inode \<Rightarrow> inode" where
  "kind_flag m i =
     (case m of
        INODE_CREATE_FILE \<Rightarrow> i\<lparr>is_file := 1\<rparr>
      | INODE_CREATE_DIR \<Rightarrow> i\<lparr>is_directory := 1\<rparr>
      | INODE_CREATE_SYMLINK \<Rightarrow> i\<lparr>is_symlink := 1\<rparr>
      | _ \<Rightarrow> i\<lparr>is_hardlink := 1\<rparr>)"

text \<open>The inode is cleared after its device was set, so the device is 0.\<close>

definition new_inode :: "u32 \<Rightarrow> create_args \<Rightarrow> bytes \<Rightarrow> u32 \<Rightarrow> u32 \<Rightarrow> inode" where
  "new_inode t A name b par =
     (let i = read_inode (zeros DEV_BLOCK_SIZE);
          i = kind_flag (c_mode A) i;
          i = i\<lparr>i_path := store_str (i_path i) name\<rparr>;
          i = inode_set_timestamps t (inode_set_permissions i (c_perm A) (c_umask A)) in
      i\<lparr>self := b, parent := par, i_group := c_group A, i_owner := c_owner A\<rparr>)"

text \<open>The block of a link.\<close>

definition write_link :: "names \<Rightarrow> int \<Rightarrow> inode \<Rightarrow> bytes \<Rightarrow> u32 \<Rightarrow> (inode_rtvl \<times> names) option" where
  "write_link N dev i path b = do {
     (r, nx, s) \<leftarrow> inode_get_data_block (nm_fs N) dev (i_next i);
     let N = N\<lparr>nm_fs := s\<rparr>;
     if r \<noteq> INODE_OK then Some (INODE_FAIL, nm_errno ENOSPC N)
     else do {
       let l = read_link (zeros DEV_BLOCK_SIZE);
       (ok, N) \<leftarrow> nm_write N dev nx (link_image (l\<lparr>l_path := store_str (l_path l) path\<rparr>));
       if \<not> ok then Some (INODE_FAIL, N)
       else do {
         (ok, N) \<leftarrow> nm_write N dev b (inode_image (i\<lparr>i_next := nx\<rparr>));
         Some (if ok then INODE_OK else INODE_FAIL, N)
       }
     }
   }"

text \<open>The file a hard link leads to counts its links.\<close>

definition count_link :: "proc_ids \<Rightarrow> names \<Rightarrow> int \<Rightarrow> u32 \<Rightarrow> bytes \<Rightarrow> inode \<Rightarrow> (bool \<times> names) option" where
  "count_link P N dev par path t = do {
     (r, t, N) \<leftarrow> inode_get P N dev par path False INODE_DONTCHECKPERMS t;
     if r \<noteq> INODE_OK then Some (False, N)
     else if is_directory t \<noteq> 0 \<or> is_symlink t \<noteq> 0 \<or> is_hardlink t \<noteq> 0 then Some (False, nm_errno EACCES N)
     else nm_write N dev (self t) (inode_image (t\<lparr>refcount := refcount t + 1\<rparr>))
   }"

definition make_inode :: "proc_ids \<Rightarrow> names \<Rightarrow> int \<Rightarrow> create_args \<Rightarrow> bytes \<Rightarrow> bytes \<Rightarrow> u32 \<Rightarrow> u32 \<Rightarrow> inode \<Rightarrow> (inode_rtvl \<times> names) option" where
  "make_inode P N dev A name path b par t =
     (if c_mode A \<notin> {INODE_CREATE_FILE, INODE_CREATE_DIR, INODE_CREATE_SYMLINK, INODE_CREATE_HARDLINK}
      then Some (INODE_FAIL, nm_errno EINVAL N)
      else do {
        let i = new_inode (now P) A name b par;
        (r, s) \<leftarrow> inode_set_parent_mod_time (now P) (nm_fs N) dev par;
        let N = N\<lparr>nm_fs := s\<rparr>;
        if r \<noteq> INODE_OK then Some (INODE_FAIL, nm_errno EINVAL N)
        else if c_mode A = INODE_CREATE_SYMLINK then write_link N dev i path b
        else if c_mode A = INODE_CREATE_HARDLINK
        then do {
          (ok, N) \<leftarrow> count_link P N dev par path t;
          if \<not> ok then Some (INODE_FAIL, N) else write_link N dev i path b
        }
        else do {
          (ok, N) \<leftarrow> nm_write N dev b (inode_image i);
          Some (if ok then INODE_OK else INODE_FAIL, N)
        }
      })"

section \<open>The walk\<close>

text \<open>The last component: the directory must allow it and must not have the name yet.\<close>

definition create_last :: "proc_ids \<Rightarrow> names \<Rightarrow> int \<Rightarrow> create_args \<Rightarrow> bytes \<Rightarrow> bytes \<Rightarrow> inode \<Rightarrow> u32 \<Rightarrow> inode \<Rightarrow> (inode_rtvl \<times> names) option" where
  "create_last P N dev A name path i par t = do {
     (ok, i, par, N) \<leftarrow> follow_dir (kreadlink (Suc MAX_RECURSION) P) N dev i par;
     if \<not> ok then Some (INODE_FAIL, N)
     else if \<not> inode_check_permissions i (c_perm A) (c_umask A) (p_group P) (p_owner P) INODE_RWX
     then Some (INODE_FAIL, nm_errno EACCES N)
     else do {
       (ok, found, t, N) \<leftarrow>
         (if i_next i \<noteq> INODE_NULL then scan_dir N dev name (i_next i) t else Some (True, INODE_NULL, t, N));
       if \<not> ok then Some (INODE_FAIL, N)
       else if found \<noteq> INODE_NULL then Some (INODE_FAIL, nm_errno EEXIST N)
       else do {
         (ok, b, N) \<leftarrow> add_entry N dev par;
         if \<not> ok then Some (INODE_FAIL, N)
         else make_inode P N dev A name path b par t
       }
     }
   }"

primrec walk_create :: "bytes list \<Rightarrow> proc_ids \<Rightarrow> names \<Rightarrow> int \<Rightarrow> create_args \<Rightarrow> bytes \<Rightarrow> u32 \<Rightarrow> inode \<Rightarrow> (inode_rtvl \<times> names) option" where
  "walk_create [] P N dev A path par t = Some (INODE_OK, N)"
| "walk_create (name # cs) P N dev A path par t = do {
     (ok, buf, N) \<leftarrow> nm_read N dev par;
     let i = read_inode buf;
     if \<not> ok then Some (INODE_FAIL, N)
     else if \<not> (is_directory i \<noteq> 0 \<or> is_symlink i \<noteq> 0)
     then Some (INODE_FAIL, nm_errno (if is_file i \<noteq> 0 then ENOENT else EINVAL) N)
     else if cs = [] then create_last P N dev A name path i par t
     else do {
       (ok, i, par, N) \<leftarrow> follow_dir (kreadlink (Suc MAX_RECURSION) P) N dev i par;
       if \<not> ok then Some (INODE_FAIL, N)
       else if \<not> inode_check_permissions i (c_perm A) (c_umask A) (p_group P) (p_owner P) INODE_RX
       then Some (INODE_FAIL, nm_errno EACCES N)
       else if i_next i = INODE_NULL then Some (INODE_FILE_NOT_FOUND, nm_errno ENOENT N)
       else do {
         (ok, found, t, N) \<leftarrow> scan_dir N dev name (i_next i) t;
         if \<not> ok then Some (INODE_FAIL, N)
         else if found = INODE_NULL then Some (INODE_FILE_NOT_FOUND, nm_errno ENOENT N)
         else walk_create cs P N dev A path found t
       }
     }
   }"

text \<open>\<open>lpath\<close> is the path of a link; its absolute form is what the link holds.\<close>

definition real_link :: "names \<Rightarrow> int \<Rightarrow> u32 \<Rightarrow> bytes option \<Rightarrow> (bytes option \<times> names) option" where
  "real_link N dev cwd lpath =
     (case lpath of
        None \<Rightarrow> Some (Some [], N)
      | Some l \<Rightarrow> do {
          (r, s) \<leftarrow> krealpath (nm_fs N) dev cwd l;
          let N = N\<lparr>nm_fs := s\<rparr>;
          Some (case r of Inl e \<Rightarrow> (None, nm_errno e N) | Inr q \<Rightarrow> (Some q, nm_errno 0 N))
        })"

definition inode_create :: "proc_ids \<Rightarrow> names \<Rightarrow> int \<Rightarrow> u32 \<Rightarrow> bytes \<Rightarrow> create_args \<Rightarrow> bytes option \<Rightarrow> (inode_rtvl \<times> names) option" where
  "inode_create P N dev cwd path A lpath =
     (case master_get (nm_fs N) dev of
        None \<Rightarrow> Some (INODE_FAIL, nm_errno EINVAL N)
      | Some m \<Rightarrow>
          if lpath = None \<and> (c_mode A = INODE_CREATE_SYMLINK \<or> c_mode A = INODE_CREATE_HARDLINK)
          then Some (INODE_FAIL, nm_errno EINVAL N)
          else if length path > MAX_PATH then Some (INODE_FAIL, nm_errno ENAMETOOLONG N)
          else if (case lpath of Some l \<Rightarrow> length l > MAX_PATH | None \<Rightarrow> False) then Some (INODE_FAIL, nm_errno ENAMETOOLONG N)
          else if length path = MAX_PATH then None
          else do {
            (tab, N) \<leftarrow> real_tab N dev cwd path;
            case tab of
              None \<Rightarrow> Some (INODE_FAIL, N)
            | Some tab \<Rightarrow> do {
                (link, N) \<leftarrow> real_link N dev cwd lpath;
                case link of
                  None \<Rightarrow> Some (INODE_FAIL, N)
                | Some lp \<Rightarrow> do {
                    (ok, i, N) \<leftarrow> load_root (now P) N dev (inode_start (master_tab (nm_fs N) ! m));
                    if \<not> ok then Some (INODE_FAIL, N)
                    else walk_create (tl tab) P N dev A lp (self i) (read_inode (zeros DEV_BLOCK_SIZE))
                  }
              }
          })"

text \<open>\<open>klink\<close> makes a symbolic link.\<close>

definition klink :: "nat \<Rightarrow> proc_ids \<Rightarrow> u32 \<Rightarrow> u32 \<Rightarrow> names \<Rightarrow> bytes \<Rightarrow> bytes \<Rightarrow> (int \<times> names) option" where
  "klink nl P cwd umask N oldpath newpath = do {
     (r, N) \<leftarrow> inode_create P N (master_get_dev nl (nm_fs N)) cwd newpath
       \<lparr>c_mode = INODE_CREATE_SYMLINK, c_perm = 511, c_umask = umask, c_group = p_group P, c_owner = p_owner P\<rparr> (Some oldpath);
     Some (if r \<noteq> INODE_OK then - 1 else 0, N)
   }"

end
