(* ===== verification/Create_Spec.thy ===== *)
theory Create_Spec
  imports Inode_Create
begin

text \<open>
  What \<open>inode_create\<close> does to a directory. A step of the file system is described by the blocks it writes and the blocks it takes
  (\<open>after\<close>); \<open>add_entry\<close> puts one entry in the list of entries of the directory, in one of three ways (\<open>placed_added\<close>,
  \<open>append_added\<close>, \<open>first_added\<close>); the new inode is then found under its name and nothing else in use changes.
\<close>

section \<open>What a step leaves behind\<close>

text \<open>
  \<open>after N N' dev i D I B\<close>: the step from \<open>N\<close> to \<open>N'\<close> has written the blocks of \<open>D\<close> outside the header and taken
  the inode blocks \<open>I\<close> and the data blocks \<open>B\<close>.
\<close>

abbreviation nio :: "names \<Rightarrow> int \<Rightarrow> nat \<Rightarrow> nat \<Rightarrow> nat \<Rightarrow> bool" where
  "nio N dev i n a \<equiv> fio (nm_fs N) dev i n a"

abbreviation mst :: "names \<Rightarrow> nat \<Rightarrow> master_inode" where
  "mst N i \<equiv> master_tab (nm_fs N) ! i"

abbreviation used :: "map_kind \<Rightarrow> int \<Rightarrow> nat \<Rightarrow> names \<Rightarrow> u32 set" where
  "used w dev i N \<equiv> blocks_used w dev i (nm_fs N)"

definition after :: "names \<Rightarrow> names \<Rightarrow> int \<Rightarrow> nat \<Rightarrow> (u32 \<rightharpoonup> bytes) \<Rightarrow> u32 set \<Rightarrow> u32 set \<Rightarrow> bool" where
  "after N N' dev i D I B \<longleftrightarrow> same_geom (mst N i) (mst N' i) \<and>
     (\<forall>b. outside (nm_fs N) dev i b \<longrightarrow> nview N' dev b = (case D b of Some d \<Rightarrow> d | None \<Rightarrow> nview N dev b)) \<and>
     used IMAP dev i N \<union> I \<subseteq> used IMAP dev i N' \<and> used BMAP dev i N \<union> B \<subseteq> used BMAP dev i N' \<and>
     card (recorded IMAP (nm_fs N') dev i) \<le> card (recorded IMAP (nm_fs N) dev i) + card I"

lemma after_refl [simp]: "after N N dev i Map.empty {} {}"
  by (simp add: after_def same_geom_def)

lemma after_trans:
  assumes "after N N1 dev i D1 I1 B1" "after N1 N2 dev i D2 I2 B2" "finite I1" "I1 \<inter> I2 = {}" "finite I2"
  shows "after N N2 dev i (D1 ++ D2) (I1 \<union> I2) (B1 \<union> B2)"
proof -
  have o: "outside (nm_fs N1) dev i b = outside (nm_fs N) dev i b" for b
    using assms(1) outside_geom [of "nm_fs N" i "nm_fs N1"] by (simp add: after_def)
  have c: "card (I1 \<union> I2) = card I1 + card I2" using assms by (simp add: card_Un_disjoint)
  have "same_geom (mst N i) (mst N2 i)" using assms(1,2) same_geom_trans by (simp add: after_def) blast
  moreover have "nview N2 dev b = (case (D1 ++ D2) b of Some d \<Rightarrow> d | None \<Rightarrow> nview N dev b)" if "outside (nm_fs N) dev i b" for b
    using assms(1,2) that o [of b] by (auto simp: after_def map_add_def split: option.split)
  moreover have "used IMAP dev i N \<union> (I1 \<union> I2) \<subseteq> used IMAP dev i N2" "used BMAP dev i N \<union> (B1 \<union> B2) \<subseteq> used BMAP dev i N2"
    using assms(1,2) unfolding after_def by blast+
  moreover have "card (recorded IMAP (nm_fs N2) dev i) \<le> card (recorded IMAP (nm_fs N) dev i) + card (I1 \<union> I2)"
    using assms(1,2) c unfolding after_def by linarith
  ultimately show ?thesis unfolding after_def by blast
qed

lemma after_view: "after N N' dev i D I B \<Longrightarrow> outside (nm_fs N) dev i b \<Longrightarrow> D b = None \<Longrightarrow> nview N' dev b = nview N dev b"
  by (simp add: after_def)

lemma after_written: "after N N' dev i D I B \<Longrightarrow> outside (nm_fs N) dev i b \<Longrightarrow> D b = Some d \<Longrightarrow> nview N' dev b = d"
  by (simp add: after_def)

lemma after_outside: "after N N' dev i D I B \<Longrightarrow> outside (nm_fs N') dev i b = outside (nm_fs N) dev i b"
  using outside_geom [of "nm_fs N" i "nm_fs N'"] by (simp add: after_def)

lemma after_used: "after N N' dev i D I B \<Longrightarrow> b \<in> used w dev i N \<Longrightarrow> b \<in> used w dev i N'"
  by (cases w) (auto simp: after_def)

lemma cache_change:
  assumes "nio N dev i m a" "cache_inv c n"
    and "\<And>b. addr_ok dev b \<Longrightarrow> view c dev b = (case D b of Some d \<Rightarrow> d | None \<Rightarrow> nview N dev b)"
    and "\<And>b. D b \<noteq> None \<Longrightarrow> outside (nm_fs N) dev i b"
  shows "nio (N\<lparr>nm_fs := (nm_fs N)\<lparr>fs_cache := c\<rparr>\<rparr>) dev i n a" "after N (N\<lparr>nm_fs := (nm_fs N)\<lparr>fs_cache := c\<rparr>\<rparr>) dev i D {} {}"
proof -
  have v: "view c dev b = nview N dev b" if "addr_ok dev b" "unat b < unat (bmap_map_end (mst N i))" for b
    using assms(3) [OF that(1)] assms(4) [of b] that(2) by (cases "D b") (auto simp: outside_def)
  note k = keep_header [OF assms(1,2) v]
  show "nio (N\<lparr>nm_fs := (nm_fs N)\<lparr>fs_cache := c\<rparr>\<rparr>) dev i n a" using k(1) by simp
  show "after N (N\<lparr>nm_fs := (nm_fs N)\<lparr>fs_cache := c\<rparr>\<rparr>) dev i D {} {}"
    using k(3,4) assms(3) by (auto simp: after_def same_geom_def blocks_used_def outside_def)
qed

lemma nread:
  assumes "nio N dev i (Suc n) a" "addr_ok dev b"
  obtains N' where "nm_read N dev b = Some (True, nview N dev b, N')" "nio N' dev i n a" "after N N' dev i Map.empty {} {}"
proof -
  have c: "cache_inv (fs_cache (nm_fs N)) (Suc n)" using assms(1) by (simp add: fio_def fs_inv_def)
  obtain c' where c': "block_read (fs_cache (nm_fs N)) dev b (Some (zeros DEV_BLOCK_SIZE)) = Some (BLOCK_OK, Some (nview N dev b), c')"
      "cache_inv c' n" "\<And>dev' b'. addr_ok dev' b' \<Longrightarrow> view c' dev' b' = nview N dev' b'"
    by (rule cache_read [OF c assms(2), of "zeros DEV_BLOCK_SIZE"]) blast
  show thesis
    using cache_change [OF assms(1) c'(2), of Map.empty] c'(1,3)
    by (intro that [of "N\<lparr>nm_fs := (nm_fs N)\<lparr>fs_cache := c'\<rparr>\<rparr>"]) (simp_all add: nm_read_def fs_read_def)
qed

lemma nwrite:
  assumes "nio N dev i (Suc n) a" "outside (nm_fs N) dev i b" "length d = DEV_BLOCK_SIZE"
  obtains N' where "nm_write N dev b d = Some (True, N')" "nio N' dev i n a" "after N N' dev i [b \<mapsto> d] {} {}"
proof -
  have c: "cache_inv (fs_cache (nm_fs N)) (Suc n)" "addr_ok dev b" using assms(1,2) by (simp_all add: fio_def fs_inv_def outside_def)
  obtain c' where c': "block_write (fs_cache (nm_fs N)) dev b d = Some (BLOCK_OK, c')" "cache_inv c' n"
      "\<And>dev' b'. addr_ok dev' b' \<Longrightarrow> view c' dev' b' = (if dev' = dev \<and> b' = b then d else nview N dev' b')"
    using cache_write [OF c assms(3)] by blast
  have w: "view c' dev x = (case [b \<mapsto> d] x of Some e \<Rightarrow> e | None \<Rightarrow> nview N dev x)" if "addr_ok dev x" for x
    using c'(3) [OF that] by simp
  have o: "outside (nm_fs N) dev i x" if "[b \<mapsto> d] x \<noteq> None" for x using that assms(2) by (simp split: if_splits)
  show thesis
    using cache_change [OF assms(1) c'(2) w o] c'(1)
    by (intro that [of "N\<lparr>nm_fs := (nm_fs N)\<lparr>fs_cache := c'\<rparr>\<rparr>"]) (simp_all add: nm_write_def fs_write_def fun_upd_def)
qed

text \<open>Taking a data block and an inode block. The region of the inodes has a block for every bit of its map.\<close>

definition inode_room :: "master_inode \<Rightarrow> bool" where
  "inode_room m \<longleftrightarrow> unat (bmap_map_end m) \<le> unat (inode_start m) \<and>
     unat (inode_start m) + 512 * map_len IMAP m \<le> unat (data_start m)"

definition free_inodes :: "names \<Rightarrow> int \<Rightarrow> nat \<Rightarrow> nat \<Rightarrow> bool" where
  "free_inodes N dev i k \<longleftrightarrow> inode_room (mst N i) \<and> card (recorded IMAP (nm_fs N) dev i) + k \<le> 512 * map_len IMAP (mst N i)"

abbreviation iget_cost :: "names \<Rightarrow> nat \<Rightarrow> nat" where
  "iget_cost N i \<equiv> 2 + 2 * map_len IMAP (mst N i)"

abbreviation dget_cost :: "names \<Rightarrow> nat \<Rightarrow> nat" where
  "dget_cost N i \<equiv> 2 + 2 * map_len BMAP (mst N i)"

lemma inode_room_geom: "same_geom m m' \<Longrightarrow> inode_room m' = inode_room m"
  using same_geom_fields(2,3) [of m m' BMAP] same_geom_fields(2,3) [of m m' IMAP] map_len_geom [of m m' IMAP]
  by (simp add: inode_room_def)

lemma after_free:
  assumes "after N N' dev i D I B" "free_inodes N dev i (k + card I)"
  shows "free_inodes N' dev i k"
  using assms inode_room_geom [of "mst N i" "mst N' i"] map_len_geom [of "mst N i" "mst N' i" IMAP]
  by (simp add: after_def free_inodes_def)

lemma get_any:
  assumes inv: "fs_inv s dev i (n + (2 + 2 * map_len w (master_tab s ! i)))" and len: "512 * map_len w (master_tab s ! i) \<le> 2 ^ 32"
    and free: "card (recorded w s dev i) < 512 * map_len w (master_tab s ! i)"
  obtains b k s' where "\<And>x. map_get_block w s dev x = Some (INODE_OK, b, s')" "b = map_first w (master_tab s ! i) + of_nat k"
    "fs_inv s' dev i n" "took w s dev i k s'" "outside_kept s dev i s'"
    "b \<notin> blocks_used w dev i s" "b \<in> blocks_used w dev i s'" "\<And>w'. blocks_used w' dev i s \<subseteq> blocks_used w' dev i s'"
proof -
  let ?L = "map_len w (master_tab s ! i)"
  have "\<not> {..<512 * ?L} \<subseteq> recorded w s dev i"
    using card_mono [OF recorded_finite, of "{..<512 * ?L}" w s dev i] free by (simp only: card_lessThan) linarith
  then obtain k0 where k0: "k0 < 512 * ?L" "k0 \<notin> recorded w s dev i" by blast
  obtain r blk s' where s': "map_get_block w s dev 0 = Some (r, blk, s')" "fs_inv s' dev i n" "scan_result w s dev i (\<lambda>k. True) r blk s'"
    using map_get_block_spec [OF inv] by blast
  then obtain k where k: "r = INODE_OK" "took w s dev i k s'" "blk = map_first w (master_tab s ! i) + of_nat k" "outside_kept s dev i s'"
    using k0 unfolding scan_result_def by blast
  have e: "map_get_block w s dev x = Some (INODE_OK, blk, s')" for x
    using s'(1) k(1) fs_invD(6) [OF inv] by (simp add: map_get_block_def)
  have op: "open_fs w dev i ?L s (n + (2 + 2 * ?L))" using inv len by (simp add: open_fs_def)
  have b: "blk \<notin> blocks_used w dev i s" "blk \<in> blocks_used w dev i s'"
    using map_get_fresh [OF op] s'(1) k(1) by (auto simp: get_block_def)
  have g: "same_geom (master_tab s ! i) (master_tab s' ! i)" using k(4) by (simp add: outside_kept_def)
  have "allocated w' s dev i \<subseteq> allocated w' s' dev i" for w' using k(2) by (cases "w' = w") (auto simp: took_def)
  then have "blocks_used w' dev i s \<subseteq> blocks_used w' dev i s'" for w' using blocks_used_mono [OF g] by blast
  then show thesis using that [of blk s' k] e k s'(2) b by blast
qed

lemma took_recorded:
  assumes "took w s dev i k s'"
  shows "card (recorded w s' dev i) \<le> Suc (card (recorded w s dev i))" "w' \<noteq> w \<Longrightarrow> recorded w' s' dev i = recorded w' s dev i"
proof -
  have "recorded w s' dev i \<subseteq> insert k (recorded w s dev i)" using assms by (simp add: took_def)
  then have "card (recorded w s' dev i) \<le> card (insert k (recorded w s dev i))" by (intro card_mono) simp_all
  also have "\<dots> \<le> Suc (card (recorded w s dev i))" by (simp add: card_insert_if)
  finally show "card (recorded w s' dev i) \<le> Suc (card (recorded w s dev i))" .
qed (use assms in \<open>simp add: took_def\<close>)

lemma kept_after:
  assumes "outside_kept (nm_fs N) dev i s'" "took w (nm_fs N) dev i k s'" "b \<in> blocks_used w dev i s'"
    "\<And>w'. blocks_used w' dev i (nm_fs N) \<subseteq> blocks_used w' dev i s'"
  shows "after N (N\<lparr>nm_fs := s'\<rparr>) dev i Map.empty (if w = IMAP then {b} else {}) (if w = BMAP then {b} else {})"
  using assms(1,3) assms(4) [of IMAP] assms(4) [of BMAP] took_recorded [OF assms(2)]
  by (cases w) (auto simp: after_def outside_kept_def outside_def)

lemma dget:
  assumes "nio N dev i (n + dget_cost N i) (Suc a)"
  obtains b N' where "\<And>x. inode_get_data_block (nm_fs N) dev x = Some (INODE_OK, b, nm_fs N')" "N' = N\<lparr>nm_fs := nm_fs N'\<rparr>"
    "nio N' dev i n a" "after N N' dev i Map.empty {} {b}" "b \<notin> used BMAP dev i N"
proof -
  have f: "fs_inv (nm_fs N) dev i (n + dget_cost N i)" "data_room (mst N i)"
      "card (recorded BMAP (nm_fs N) dev i) < 512 * map_len BMAP (mst N i)" using assms by (simp_all add: fio_def)
  have l: "512 * map_len BMAP (mst N i) \<le> 2 ^ 32" using f(2) by (simp add: data_room_def)
  obtain b k s' where s: "\<And>x. map_get_block BMAP (nm_fs N) dev x = Some (INODE_OK, b, s')"
      "fs_inv s' dev i n" "took BMAP (nm_fs N) dev i k s'" "outside_kept (nm_fs N) dev i s'"
      "b \<notin> used BMAP dev i N" "b \<in> blocks_used BMAP dev i s'" "\<And>w'. used w' dev i N \<subseteq> blocks_used w' dev i s'"
    by (rule get_any [OF f(1) l f(3)]) blast
  have g: "same_geom (mst N i) (master_tab s' ! i)" using s(4) by (simp add: outside_kept_def)
  have "fio s' dev i n a"
    using s(2) f(2) assms took_recorded(1) [OF s(3)] data_room_geom [OF g] map_len_geom [OF g] by (simp add: fio_def)
  then show thesis using s kept_after [OF s(4,3,6,7)]
    by (intro that [of b "N\<lparr>nm_fs := s'\<rparr>"]) (simp_all add: inode_get_data_block_def)
qed

lemma used_inode:
  assumes "nio N dev i n a" "inode_room (mst N i)" "b \<in> used IMAP dev i N"
  shows "outside (nm_fs N) dev i b" "unat b < unat (data_start (mst N i))" "b \<noteq> 0"
proof -
  obtain k where k: "k \<in> allocated IMAP (nm_fs N) dev i" "b = inode_start (mst N i) + of_nat k"
    using assms(3) by (auto simp: blocks_used_def)
  have f: "fs_inv (nm_fs N) dev i n" "data_room (mst N i)" using assms(1) by (simp_all add: fio_def)
  have "k < 512 * map_len IMAP (mst N i)" using k(1) by (simp add: allocated_iff)
  then have l: "unat (inode_start (mst N i)) + k < unat (data_start (mst N i))" using assms(2) by (simp add: inode_room_def)
  have d: "unat (data_start (mst N i)) \<le> CHS_LIMIT" using f(2) by (simp add: data_room_def)
  have u: "unat b = unat (inode_start (mst N i)) + k"
    unfolding k(2) using l d by (subst u32_add_unat) (simp_all add: unat_of_nat32)
  have "0 < unat (bmap_map_end (mst N i))" using geom_bounds [OF fs_invD(7) [OF f(1)], of BMAP] by simp
  then show "outside (nm_fs N) dev i b" "unat b < unat (data_start (mst N i))" "b \<noteq> 0"
    using u l d assms(2) fs_invD(2) [OF f(1)] by (auto simp: outside_def addr_ok_def inode_room_def)
qed

lemma iget:
  assumes "nio N dev i (n + iget_cost N i) a" "free_inodes N dev i (Suc k)"
  obtains b N' where "\<And>x. inode_get_inode_block (nm_fs N) dev x = Some (INODE_OK, b, nm_fs N')" "N' = N\<lparr>nm_fs := nm_fs N'\<rparr>"
    "nio N' dev i n a" "after N N' dev i Map.empty {b} {}" "b \<notin> used IMAP dev i N" "free_inodes N' dev i k"
proof -
  have f: "fs_inv (nm_fs N) dev i (n + iget_cost N i)" "data_room (mst N i)" using assms(1) by (simp_all add: fio_def)
  have r: "inode_room (mst N i)" "card (recorded IMAP (nm_fs N) dev i) < 512 * map_len IMAP (mst N i)"
    using assms(2) by (simp_all add: free_inodes_def)
  have l: "512 * map_len IMAP (mst N i) \<le> 2 ^ 32" using r(1) f(2) by (simp add: data_room_def inode_room_def)
  obtain b j s' where s: "\<And>x. map_get_block IMAP (nm_fs N) dev x = Some (INODE_OK, b, s')"
      "fs_inv s' dev i n" "took IMAP (nm_fs N) dev i j s'" "outside_kept (nm_fs N) dev i s'"
      "b \<notin> used IMAP dev i N" "b \<in> blocks_used IMAP dev i s'" "\<And>w'. used w' dev i N \<subseteq> blocks_used w' dev i s'"
    by (rule get_any [OF f(1) l r(2)]) blast
  have g: "same_geom (mst N i) (master_tab s' ! i)" using s(4) by (simp add: outside_kept_def)
  have "fio s' dev i n a"
    using s(2) f(2) assms(1) took_recorded(2) [OF s(3), of BMAP] data_room_geom [OF g] map_len_geom [OF g] by (simp add: fio_def)
  moreover have a: "after N (N\<lparr>nm_fs := s'\<rparr>) dev i Map.empty {b} {}" using kept_after [OF s(4,3,6,7)] by simp
  moreover have "free_inodes (N\<lparr>nm_fs := s'\<rparr>) dev i k" using after_free [OF a, of k] assms(2) by simp
  ultimately show thesis using s
    by (intro that [of b "N\<lparr>nm_fs := s'\<rparr>"]) (simp_all add: inode_get_inode_block_def)
qed

section \<open>A new entry\<close>

lemma after_cost: "after N N' dev i D I B \<Longrightarrow> map_len w (mst N' i) = map_len w (mst N i)"
  using map_len_geom [of "mst N i" "mst N' i" w] by (simp add: after_def)

lemma after_step:
  assumes "after N N1 dev i Map.empty {} {}" "after N1 N2 dev i D I B" "finite I"
  shows "after N N2 dev i D I B"
  using after_trans [OF assms(1,2)] assms(3) by simp

lemma dir_chain_local: "(\<And>m. m \<in> set ms \<Longrightarrow> V' m = V m) \<Longrightarrow> dir_chain V' dev nxt ms = dir_chain V dev nxt ms"
  by (induction ms arbitrary: nxt) auto

lemma dir_chain_next: "dir_chain V dev nxt ms \<Longrightarrow> ms \<noteq> [] \<Longrightarrow> nxt = hd ms \<and> nxt \<noteq> INODE_NULL \<and> bm_next (read_bmap (V (last ms))) = INODE_NULL"
  by (induction ms arbitrary: nxt) auto

text \<open>The list \<open>es'\<close> is \<open>es\<close> with \<open>b\<close> put in.\<close>

definition inserted :: "'a \<Rightarrow> 'a list \<Rightarrow> 'a list \<Rightarrow> bool" where
  "inserted b es es' \<longleftrightarrow> (\<exists>xs ys. es = xs @ ys \<and> es' = xs @ b # ys)"

lemma inserted_around: "inserted b es es' \<Longrightarrow> inserted b (as @ es @ cs) (as @ es' @ cs)"
  unfolding inserted_def by (metis append.assoc append_Cons)

lemma inserted_slot:
  assumes "j < length bs" "bs ! j = INODE_NULL" "b \<noteq> INODE_NULL"
  shows "inserted b (filter (\<lambda>b. b \<noteq> INODE_NULL) bs) (filter (\<lambda>b. b \<noteq> INODE_NULL) (bs[j := b]))"
proof -
  have "bs = take j bs @ INODE_NULL # drop (Suc j) bs" using id_take_nth_drop [OF assms(1)] assms(2) by simp
  then have f: "filter (\<lambda>b. b \<noteq> INODE_NULL) bs = filter (\<lambda>b. b \<noteq> INODE_NULL) (take j bs) @ filter (\<lambda>b. b \<noteq> INODE_NULL) (drop (Suc j) bs)"
    by (metis (mono_tags, lifting) filter.simps(2) filter_append)
  have "filter (\<lambda>b. b \<noteq> INODE_NULL) (bs[j := b]) = filter (\<lambda>b. b \<noteq> INODE_NULL) (take j bs) @ b # filter (\<lambda>b. b \<noteq> INODE_NULL) (drop (Suc j) bs)"
    using upd_conv_take_nth_drop [OF assms(1), of b] assms(3) by simp
  then show ?thesis using f unfolding inserted_def by blast
qed

lemma inserted_find:
  assumes "inserted b es es'" "\<And>x. x \<in> set es \<Longrightarrow> Q x = P x" "Q b \<Longrightarrow> find P es = None"
  shows "find Q es' = (if Q b then Some b else find P es)"
proof -
  obtain xs ys where e: "es = xs @ ys" "es' = xs @ b # ys" using assms(1) unfolding inserted_def by blast
  have q: "find Q xs = find P xs" "find Q ys = find P ys" using assms(2) e(1) by (auto intro!: find_cong)
  show ?thesis using assms(3) q unfolding e by (auto simp: find_append split: option.splits)
qed

lemma entries_append: "entries V (ms @ ms') = entries V ms @ entries V ms'"
  by (simp add: entries_def)

lemma entries_local: "(\<And>m. m \<in> set ms \<Longrightarrow> V' m = V m) \<Longrightarrow> entries V' ms = entries V ms"
  unfolding entries_def by (intro arg_cong [of _ _ concat] map_cong) auto

lemma entries_single: "entries V [m] = filter (\<lambda>b. b \<noteq> INODE_NULL) (bm_blocks (read_bmap (V m)))"
  by (simp add: entries_def)

lemma free_place_None: "free_place bs = None \<longleftrightarrow> INODE_NULL \<notin> set bs"
  by (auto simp: free_place_def first_from_None_iff in_set_conv_nth)

lemma free_place_Some: "free_place bs = Some j \<Longrightarrow> j < length bs \<and> bs ! j = INODE_NULL"
  unfolding free_place_def by (drule first_from_SomeD) simp

text \<open>The loop over the maps: the first free place gets a new inode block, or every map is full.\<close>

abbreviation with_entry :: "(u32 \<Rightarrow> bytes) \<Rightarrow> u32 \<Rightarrow> nat \<Rightarrow> u32 \<Rightarrow> block_map" where
  "with_entry V m j b \<equiv> (read_bmap (V m))\<lparr>bm_blocks := (bm_blocks (read_bmap (V m)))[j := b]\<rparr>"

definition full_maps :: "names \<Rightarrow> int \<Rightarrow> nat \<Rightarrow> nat \<Rightarrow> nat \<Rightarrow> u32 \<Rightarrow> u32 list \<Rightarrow> bool" where
  "full_maps N dev i n a nxt ms \<longleftrightarrow> (\<exists>N'. place_loop N dev nxt =
       Some (True, INODE_NULL, read_bmap (nview N dev (last ms)), last ms, N') \<and>
     nio N' dev i n a \<and> after N N' dev i Map.empty {} {})"

definition placed :: "names \<Rightarrow> int \<Rightarrow> nat \<Rightarrow> nat \<Rightarrow> nat \<Rightarrow> u32 \<Rightarrow> u32 list \<Rightarrow> bool" where
  "placed N dev i n a nxt ms \<longleftrightarrow> (\<exists>m j b N'. m \<in> set ms \<and> j < length (bm_blocks (read_bmap (nview N dev m))) \<and>
     bm_blocks (read_bmap (nview N dev m)) ! j = INODE_NULL \<and> b \<noteq> INODE_NULL \<and> b \<notin> used IMAP dev i N \<and>
     place_loop N dev nxt = Some (True, b, with_entry (nview N dev) m j b, m, N') \<and>
     nio N' dev i n a \<and> after N N' dev i [m \<mapsto> bmap_image (with_entry (nview N dev) m j b)] {b} {})"

lemma read_bmap_wf: "nio N dev i n a \<Longrightarrow> bmap_wf (read_bmap (nview N dev m))"
  using bmap_image_read(2) [of "nview N dev m"] length_view by (simp add: fio_def fs_inv_def cache_inv_def)

lemma place_here:
  assumes f: "free_place (bm_blocks (read_bmap (nview N dev m))) = Some j" and m: "outside (nm_fs N) dev i m"
    and room: "nio N dev i (Suc (Suc n) + iget_cost N i) a" "free_inodes N dev i (Suc k)"
  shows "placed N dev i n a m (m # ms)"
proof -
  let ?V = "nview N dev"
  have m': "addr_ok dev m" using m by (simp add: outside_def)
  obtain N1 where r: "nm_read N dev m = Some (True, ?V m, N1)" "nio N1 dev i (Suc n + iget_cost N i) a" "after N N1 dev i Map.empty {} {}"
    by (rule nread [OF _ m']) (use room(1) in auto)
  have c1: "iget_cost N1 i = iget_cost N i" "free_inodes N1 dev i (Suc k)"
    using after_cost [OF r(3)] after_free [OF r(3)] room(2) by simp_all
  obtain b N2 where b: "\<And>x. inode_get_inode_block (nm_fs N1) dev x = Some (INODE_OK, b, nm_fs N2)" "N2 = N1\<lparr>nm_fs := nm_fs N2\<rparr>"
      "nio N2 dev i (Suc n) a" "after N1 N2 dev i Map.empty {b} {}" "b \<notin> used IMAP dev i N1"
    by (rule iget [of N1 dev i "Suc n" a k]) (use r(2) c1 in auto)
  let ?bm = "with_entry ?V m j b"
  have wf: "length (bmap_image ?bm) = DEV_BLOCK_SIZE" using read_bmap_wf [OF room(1), of m] by (simp add: image_lengths bmap_wf_def)
  have o2: "outside (nm_fs N2) dev i m" using after_outside [OF r(3)] after_outside [OF b(4)] m by simp
  obtain N3 where w: "nm_write N2 dev m (bmap_image ?bm) = Some (True, N3)" "nio N3 dev i n a" "after N2 N3 dev i [m \<mapsto> bmap_image ?bm] {} {}"
    by (rule nwrite [OF b(3) o2 wf])
  have a: "after N N3 dev i [m \<mapsto> bmap_image ?bm] {b} {}"
    using after_step [OF r(3) after_trans [OF b(4) w(3)]] by simp
  have ui: "b \<in> used IMAP dev i N2" "inode_room (mst N2 i)"
    using b(4) c1(2) inode_room_geom [of "mst N1 i" "mst N2 i"] by (auto simp: after_def free_inodes_def)
  have bz: "b \<noteq> INODE_NULL" "b \<notin> used IMAP dev i N"
    using used_inode(3) [OF b(3) ui(2,1)] b(5) after_used [OF r(3)] by auto
  have "place_loop N dev m = Some (True, b, ?bm, m, N3)"
    using r(1) b(1,2) w(1) f bz(1) by (simp add: place_loop.simps Let_def)
  then show ?thesis unfolding placed_def using bz a w(2) free_place_Some [OF f] by (intro exI [of _ m] exI [of _ j] exI [of _ b] exI [of _ N3]) simp
qed

lemma placed_later:
  assumes r: "nm_read N dev m = Some (True, nview N dev m, N1)" "after N N1 dev i Map.empty {} {}"
    and f: "free_place (bm_blocks (read_bmap (nview N dev m))) = None" "bm_next (read_bmap (nview N dev m)) = nxt" "nxt \<noteq> INODE_NULL"
    and v: "\<And>x. x \<in> set ms \<Longrightarrow> nview N1 dev x = nview N dev x" and ms: "ms \<noteq> []"
  shows "placed N1 dev i n a nxt ms \<Longrightarrow> placed N dev i n a m (m # ms)"
    "full_maps N1 dev i n a nxt ms \<Longrightarrow> full_maps N dev i n a m (m # ms)"
proof -
  have step: "place_loop N dev m = place_loop N1 dev nxt"
    using r(1) f by (subst place_loop.simps) (simp add: Let_def)
  show "full_maps N1 dev i n a nxt ms \<Longrightarrow> full_maps N dev i n a m (m # ms)"
    using v [of "last ms"] ms after_step [OF r(2)] unfolding full_maps_def step by auto
  assume "placed N1 dev i n a nxt ms"
  then obtain x j b N' where q: "x \<in> set ms" and q': "j < length (bm_blocks (read_bmap (nview N1 dev x))) \<and>
      bm_blocks (read_bmap (nview N1 dev x)) ! j = INODE_NULL \<and> b \<noteq> INODE_NULL \<and> b \<notin> used IMAP dev i N1 \<and>
      place_loop N1 dev nxt = Some (True, b, with_entry (nview N1 dev) x j b, x, N') \<and>
      nio N' dev i n a \<and> after N1 N' dev i [x \<mapsto> bmap_image (with_entry (nview N1 dev) x j b)] {b} {}"
    unfolding placed_def by blast
  note p = q' [unfolded v [OF q]]
  show "placed N dev i n a m (m # ms)"
    unfolding placed_def step
    using q p after_used [OF r(2), of b IMAP] after_step [OF r(2), of N' _ "{b}"]
    by (intro exI [of _ x] exI [of _ j] exI [of _ b] exI [of _ N']) auto
qed

lemma place_loop_ok:
  "dir_chain (nview N dev) dev nxt ms \<Longrightarrow> ms \<noteq> [] \<Longrightarrow> (\<And>m. m \<in> set ms \<Longrightarrow> outside (nm_fs N) dev i m) \<Longrightarrow>
   nio N dev i (Suc n + length ms + iget_cost N i) a \<Longrightarrow> free_inodes N dev i (Suc k) \<Longrightarrow>
   full_maps N dev i (Suc n + iget_cost N i) a nxt ms \<or> placed N dev i n a nxt ms"
proof (induction ms arbitrary: N nxt)
  case (Cons m ms)
  let ?V = "nview N dev"
  have c: "nxt = m" "addr_ok dev m" "dir_chain ?V dev (bm_next (read_bmap (?V m))) ms" "outside (nm_fs N) dev i m"
    using Cons.prems(1,3) by simp_all
  show ?case
  proof (cases "free_place (bm_blocks (read_bmap (?V m)))")
    case (Some j)
    have "nio N dev i (Suc (Suc n) + iget_cost N i) a" by (rule fio_mono [OF Cons.prems(4)]) simp_all
    then show ?thesis using place_here [OF Some c(4) _ Cons.prems(5)] c(1) by blast
  next
    case None
    obtain N1 where r: "nm_read N dev m = Some (True, ?V m, N1)" "nio N1 dev i (Suc n + length ms + iget_cost N i) a" "after N N1 dev i Map.empty {} {}"
      by (rule nread [OF _ c(2)]) (use Cons.prems(4) in auto)
    show ?thesis
    proof (cases "ms = []")
      case True
      then have "place_loop N dev nxt = Some (True, INODE_NULL, read_bmap (?V m), m, N1)"
        using None r(1) c by (subst place_loop.simps) (simp add: Let_def)
      then show ?thesis using True r(2,3) by (auto simp: full_maps_def)
    next
      case False
      have v: "nview N1 dev x = ?V x" if "x \<in> set ms" for x using after_view [OF r(3)] Cons.prems(3) that by simp
      have "full_maps N1 dev i (Suc n + iget_cost N1 i) a (bm_next (read_bmap (?V m))) ms \<or> placed N1 dev i n a (bm_next (read_bmap (?V m))) ms"
        using dir_chain_local [of ms "nview N1 dev" ?V] v c(3) False Cons.prems(3) after_outside [OF r(3)] r(2) after_cost [OF r(3)]
          after_free [OF r(3)] Cons.prems(5) by (intro Cons.IH) simp_all
      then show ?thesis
        using placed_later [OF r(1,3) None refl _ v False] dir_chain_next [OF c(3) False] c(1) after_cost [OF r(3)] by auto
    qed
  qed
qed simp

abbreviation first_entry :: "u32 \<Rightarrow> block_map" where
  "first_entry b \<equiv> zero_bmap\<lparr>bm_blocks := (bm_blocks zero_bmap)[0 := b]\<rparr>"

lemma first_entry_wf: "bmap_wf (first_entry b)"
  using zero_bmap_wf by (simp add: bmap_wf_def)

lemma new_block_used:
  assumes "after N N' dev i D I B" "nio N' dev i n a"
  shows "b \<in> B \<Longrightarrow> outside (nm_fs N') dev i b \<and> b \<noteq> 0"
    "b \<in> I \<Longrightarrow> inode_room (mst N i) \<Longrightarrow> outside (nm_fs N') dev i b \<and> b \<noteq> 0"
proof -
  show "b \<in> B \<Longrightarrow> outside (nm_fs N') dev i b \<and> b \<noteq> 0"
    using used_outside(1,3) [OF assms(2), of b] assms(1) unfolding after_def by blast
  assume "b \<in> I" "inode_room (mst N i)"
  then have "b \<in> used IMAP dev i N'" "inode_room (mst N' i)"
    using assms(1) inode_room_geom [of "mst N i" "mst N' i"] by (auto simp: after_def)
  then show "outside (nm_fs N') dev i b \<and> b \<noteq> 0" using used_inode(1,3) [OF assms(2)] by blast
qed

text \<open>A new map: the block \<open>t\<close> that leads to it is written, then the map with the new inode.\<close>

lemma new_map_ok:
  assumes room: "nio N dev i (Suc (Suc (n + iget_cost N i)) + dget_cost N i) (Suc a)" "free_inodes N dev i (Suc k)"
    and t: "outside (nm_fs N) dev i t" "\<And>x. length (td x) = DEV_BLOCK_SIZE"
    and link: "\<And>M x. (if bm_next bm = INODE_NULL \<and> cur \<noteq> INODE_NULL
          then do { (ok, M) \<leftarrow> nm_write M dev cur (bmap_image (bm\<lparr>bm_next := x\<rparr>)); Some (ok, x, M) }
          else if cur = INODE_NULL
          then do { (ok, M) \<leftarrow> nm_write M dev (self pi) (inode_image (pi\<lparr>i_next := x\<rparr>)); Some (ok, x, M) }
          else Some (True, bm_next bm, M)) = do { (ok, M) \<leftarrow> nm_write M dev t (td x); Some (ok, x, M) }"
  obtains x b N' where "new_map N dev pi bm cur = Some (True, b, N')" "nio N' dev i n a"
    "after N N' dev i [t \<mapsto> td x, x \<mapsto> bmap_image (first_entry b)] {b} {x}"
    "x \<notin> used BMAP dev i N" "x \<noteq> INODE_NULL" "b \<notin> used IMAP dev i N" "b \<noteq> INODE_NULL"
proof -
  obtain x N1 where x: "\<And>y. inode_get_data_block (nm_fs N) dev y = Some (INODE_OK, x, nm_fs N1)" "N1 = N\<lparr>nm_fs := nm_fs N1\<rparr>"
      "nio N1 dev i (Suc (Suc (n + iget_cost N i))) a" "after N N1 dev i Map.empty {} {x}" "x \<notin> used BMAP dev i N"
    by (rule dget [OF room(1)]) blast
  have t1: "outside (nm_fs N1) dev i t" using after_outside [OF x(4)] t(1) by simp
  obtain N2 where w: "nm_write N1 dev t (td x) = Some (True, N2)" "nio N2 dev i (Suc (n + iget_cost N i)) a" "after N1 N2 dev i [t \<mapsto> td x] {} {}"
    by (rule nwrite [OF x(3) t1 t(2)])
  have a2: "after N N2 dev i [t \<mapsto> td x] {} {x}" using after_trans [OF x(4) w(3)] by simp
  have c2: "iget_cost N2 i = iget_cost N i" "free_inodes N2 dev i (Suc k)"
    using after_cost [OF a2] after_free [OF a2] room(2) by simp_all
  obtain b N3 where b: "\<And>x. inode_get_inode_block (nm_fs N2) dev x = Some (INODE_OK, b, nm_fs N3)" "N3 = N2\<lparr>nm_fs := nm_fs N3\<rparr>"
      "nio N3 dev i (Suc n) a" "after N2 N3 dev i Map.empty {b} {}" "b \<notin> used IMAP dev i N2"
    by (rule iget [of N2 dev i "Suc n" a k]) (use w(2) c2 in auto)
  have a3: "after N N3 dev i [t \<mapsto> td x] {b} {x}" using after_trans [OF a2 b(4)] by simp
  have xo: "outside (nm_fs N3) dev i x" "x \<noteq> INODE_NULL" using new_block_used(1) [OF a3 b(3)] by simp_all
  obtain N4 where z: "nm_write N3 dev x (bmap_image (first_entry b)) = Some (True, N4)" "nio N4 dev i n a"
      "after N3 N4 dev i [x \<mapsto> bmap_image (first_entry b)] {} {}"
    by (rule nwrite [OF b(3) xo(1), of "bmap_image (first_entry b)"]) (simp add: image_lengths first_entry_wf)
  have a4: "after N N4 dev i [t \<mapsto> td x, x \<mapsto> bmap_image (first_entry b)] {b} {x}" using after_trans [OF a3 z(3)] by simp
  have nz: "b \<noteq> INODE_NULL" using new_block_used(2) [OF a4 z(2)] room(2) by (simp add: free_inodes_def)
  have "new_map N dev pi bm cur = Some (True, b, N4)"
    unfolding new_map_def link using x(1,2) w(1) b(1,2) z(1) by (simp add: Let_def)
  then show thesis using z(2) a4 x(5) xo(2) b(5) after_used [OF a2, of b IMAP] nz by (intro that [where x = x and b = b and N' = N4]) auto
qed

section \<open>The directory with its new entry\<close>

text \<open>
  \<open>dir_at\<close>: the directory inode \<open>d\<close> with the maps \<open>ms\<close>; the maps are data blocks in use, \<open>d\<close> and the entries are inode
  blocks in use.
\<close>

definition dir_at :: "names \<Rightarrow> int \<Rightarrow> nat \<Rightarrow> u32 \<Rightarrow> u32 list \<Rightarrow> bool" where
  "dir_at N dev i d ms \<longleftrightarrow> d \<in> used IMAP dev i N \<and> self (read_inode (nview N dev d)) = d \<and>
     dir_chain (nview N dev) dev (i_next (read_inode (nview N dev d))) ms \<and> distinct ms \<and>
     set ms \<subseteq> used BMAP dev i N \<and> set (entries (nview N dev) ms) \<subseteq> used IMAP dev i N"

lemma regions_apart:
  "nio N dev i n a \<Longrightarrow> inode_room (mst N i) \<Longrightarrow> x \<in> used IMAP dev i N \<Longrightarrow> y \<in> used BMAP dev i N \<Longrightarrow> x \<noteq> y"
  using used_inode(2) [of N dev i n a x] used_outside(2) [of "nm_fs N" dev i n a y] by fastforce

definition entry_added :: "names \<Rightarrow> names \<Rightarrow> int \<Rightarrow> nat \<Rightarrow> u32 \<Rightarrow> u32 list \<Rightarrow> u32 list \<Rightarrow> u32 \<Rightarrow> bool" where
  "entry_added N N' dev i d ms ms' b \<longleftrightarrow> b \<notin> used IMAP dev i N \<and> dir_at N' dev i d ms' \<and> length ms' \<le> Suc (length ms) \<and>
     inserted b (entries (nview N dev) ms) (entries (nview N' dev) ms') \<and>
     (\<exists>y. read_inode (nview N' dev d) = (read_inode (nview N dev d))\<lparr>i_next := y\<rparr>) \<and>
     (\<exists>D B. after N N' dev i D {b} B \<and> dom D \<inter> (used IMAP dev i N \<union> used BMAP dev i N) \<subseteq> insert d (set ms))"

lemma chain_update:
  "dir_chain V dev nxt ms \<Longrightarrow> (\<And>m. m \<in> set ms \<Longrightarrow> bm_next (read_bmap (V' m)) = bm_next (read_bmap (V m))) \<Longrightarrow>
   (\<And>m b. m \<in> set ms \<Longrightarrow> b \<in> set (bm_blocks (read_bmap (V' m))) \<Longrightarrow> b \<noteq> INODE_NULL \<Longrightarrow> addr_ok dev b) \<Longrightarrow> dir_chain V' dev nxt ms"
  by (induction ms arbitrary: nxt) auto

lemma chain_append:
  "dir_chain V dev nxt ms \<Longrightarrow> ms \<noteq> [] \<Longrightarrow> distinct ms \<Longrightarrow> (\<And>m. m \<in> set ms \<Longrightarrow> m \<noteq> last ms \<Longrightarrow> V' m = V m) \<Longrightarrow>
   read_bmap (V' (last ms)) = (read_bmap (V (last ms)))\<lparr>bm_next := x\<rparr> \<Longrightarrow> dir_chain V' dev x [x] \<Longrightarrow> dir_chain V' dev nxt (ms @ [x])"
proof (induction ms arbitrary: nxt)
  case (Cons m ms)
  show ?case
  proof (cases "ms = []")
    case False
    then have "V' m = V m" using Cons.prems(3) Cons.prems(4) [of m] by fastforce
    moreover have "dir_chain V' dev (bm_next (read_bmap (V m))) (ms @ [x])"
      using Cons.prems False by (intro Cons.IH) auto
    ultimately show ?thesis using Cons.prems(1) by simp
  qed (use Cons.prems in auto)
qed simp

lemma set_inserted: "inserted b es es' \<Longrightarrow> set es' = insert b (set es)"
  by (auto simp: inserted_def)

lemma entries_cong:
  "(\<And>m. m \<in> set ms \<Longrightarrow> bm_blocks (read_bmap (V' m)) = bm_blocks (read_bmap (V m))) \<Longrightarrow> entries V' ms = entries V ms"
  unfolding entries_def by (intro arg_cong [of _ _ concat] map_cong) auto

lemma entry_of_slot: "m \<in> set ms \<Longrightarrow> b \<in> set (bm_blocks (read_bmap (V m))) \<Longrightarrow> b \<noteq> INODE_NULL \<Longrightarrow> b \<in> set (entries V ms)"
  by (auto simp: entries_def)

lemma dir_atD:
  assumes "dir_at N dev i d ms" "nio N dev i n a" "inode_room (mst N i)"
  shows "outside (nm_fs N) dev i d" "m \<in> set ms \<Longrightarrow> outside (nm_fs N) dev i m" "m \<in> set ms \<Longrightarrow> m \<notin> used IMAP dev i N"
    "d \<notin> set ms" "d \<in> used IMAP dev i N" "set ms \<subseteq> used BMAP dev i N"
proof -
  show d: "d \<in> used IMAP dev i N" "set ms \<subseteq> used BMAP dev i N" using assms(1) by (simp_all add: dir_at_def)
  show "outside (nm_fs N) dev i d" using used_inode(1) [OF assms(2,3) d(1)] .
  show "m \<in> set ms \<Longrightarrow> outside (nm_fs N) dev i m" using used_outside(1) [OF assms(2)] d(2) by blast
  show m: "m \<in> set ms \<Longrightarrow> m \<notin> used IMAP dev i N" for m using regions_apart [OF assms(2,3)] d(2) by blast
  show "d \<notin> set ms" using m d(1) by blast
qed

lemma entry_addedI:
  assumes dir: "dir_at N dev i d ms" "nio N dev i n a" "inode_room (mst N i)" and a: "after N N' dev i D {b} B" "nio N' dev i n' a'"
    and D: "dom D \<inter> (used IMAP dev i N \<union> used BMAP dev i N) \<subseteq> insert d (set ms)" and b: "b \<notin> used IMAP dev i N"
    and d: "read_inode (nview N' dev d) = (read_inode (nview N dev d))\<lparr>i_next := y\<rparr>"
    and ms: "(\<And>e. e \<in> set (entries (nview N' dev) ms') \<Longrightarrow> addr_ok dev e) \<Longrightarrow> dir_chain (nview N' dev) dev y ms'"
      "distinct ms'" "set ms' \<subseteq> set ms \<union> B" "length ms' \<le> Suc (length ms)"
    and es: "inserted b (entries (nview N dev) ms) (entries (nview N' dev) ms')"
  shows "entry_added N N' dev i d ms ms' b"
proof -
  have r: "inode_room (mst N' i)" using a(1) dir(3) inode_room_geom [of "mst N i" "mst N' i"] by (simp add: after_def)
  have e: "set (entries (nview N' dev) ms') \<subseteq> used IMAP dev i N'"
    using set_inserted [OF es] dir(1) a(1) unfolding dir_at_def after_def by blast
  then have "addr_ok dev x" if "x \<in> set (entries (nview N' dev) ms')" for x
    using used_inode(1) [OF a(2) r, of x] that by (auto simp: outside_def)
  then have c: "dir_chain (nview N' dev) dev y ms'" using ms(1) by blast
  have u: "d \<in> used IMAP dev i N'" "set ms' \<subseteq> used BMAP dev i N'"
    using dir(1) a(1) ms(3) unfolding dir_at_def after_def by blast+
  then have "dir_at N' dev i d ms'" using c e d dir(1) ms(2) by (simp add: dir_at_def)
  then show ?thesis using b es d a(1) D ms(4) unfolding entry_added_def by blast
qed

lemma placed_added:
  assumes dir: "dir_at N dev i d ms" "nio N dev i n a" "inode_room (mst N i)" and m: "m \<in> set ms"
    and j: "j < length (bm_blocks (read_bmap (nview N dev m)))" "bm_blocks (read_bmap (nview N dev m)) ! j = INODE_NULL"
    and b: "b \<noteq> INODE_NULL" "b \<notin> used IMAP dev i N"
    and a: "after N N' dev i [m \<mapsto> bmap_image (with_entry (nview N dev) m j b)] {b} {}" "nio N' dev i n' a'"
  shows "entry_added N N' dev i d ms ms b"
proof (rule entry_addedI [OF dir a _ b(2)])
  let ?V = "nview N dev" and ?V' = "nview N' dev"
  note D = dir_atD [OF dir]
  have vm: "read_bmap (?V' m) = with_entry ?V m j b"
    using after_written [OF a(1) D(2) [OF m]] read_bmap_image read_bmap_wf [OF dir(2), of m] by (simp add: bmap_wf_def)
  have v: "?V' x = ?V x" if "x \<in> set ms" "x \<noteq> m" for x using after_view [OF a(1) D(2)] that by simp
  show "read_inode (?V' d) = (read_inode (?V d))\<lparr>i_next := i_next (read_inode (?V d))\<rparr>"
    using after_view [OF a(1) D(1)] D(4) m by (cases "d = m") auto
  show "dir_chain ?V' dev (i_next (read_inode (?V d))) ms" if "\<And>e. e \<in> set (entries ?V' ms) \<Longrightarrow> addr_ok dev e"
  proof (rule chain_update)
    show "dir_chain ?V dev (i_next (read_inode (?V d))) ms" using dir(1) by (simp add: dir_at_def)
    show "bm_next (read_bmap (?V' x)) = bm_next (read_bmap (?V x))" if "x \<in> set ms" for x using v [OF that] vm by (cases "x = m") auto
  qed (use entry_of_slot that in blast)
  show "distinct ms" "set ms \<subseteq> set ms \<union> {}" "length ms \<le> Suc (length ms)" using dir(1) by (simp_all add: dir_at_def)
  show "dom [m \<mapsto> bmap_image (with_entry ?V m j b)] \<inter> (used IMAP dev i N \<union> used BMAP dev i N) \<subseteq> insert d (set ms)" using m by auto
  obtain as cs where ms: "ms = as @ m # cs" using m by (metis split_list)
  then have out: "m \<notin> set as" "m \<notin> set cs" using dir(1) by (auto simp: dir_at_def)
  have "entries ?V' as = entries ?V as" "entries ?V' cs = entries ?V cs" using v out ms by (auto intro!: entries_local)
  moreover have "inserted b (entries ?V [m]) (entries ?V' [m])" using inserted_slot [OF j b(1)] by (simp add: entries_single vm)
  ultimately show "inserted b (entries ?V ms) (entries ?V' ms)"
    using inserted_around [of b "entries ?V [m]" "entries ?V' [m]" "entries ?V as" "entries ?V cs"]
      entries_append [of ?V as "[m] @ cs"] entries_append [of ?V' as "[m] @ cs"] entries_append [of ?V "[m]" cs] entries_append [of ?V' "[m]" cs] ms by simp
qed

text \<open>A new map \<open>x\<close> with the entry \<open>b\<close>.\<close>

lemma new_map_seen:
  assumes "after N N' dev i (D(x \<mapsto> bmap_image (first_entry b))) I B" "outside (nm_fs N') dev i x" "x \<noteq> INODE_NULL" "b \<noteq> INODE_NULL"
  shows "entries (nview N' dev) [x] = [b]" "addr_ok dev b \<Longrightarrow> dir_chain (nview N' dev) dev x [x]"
proof -
  have "outside (nm_fs N) dev i x" using assms(2) after_outside [OF assms(1)] by simp
  then have r: "read_bmap (nview N' dev x) = first_entry b"
    using after_written [OF assms(1), of x] read_bmap_image [OF first_entry_wf] by simp
  have "(replicate 127 (0 :: u32)) = 0 # replicate 126 0" using replicate_Suc [of 126 "0 :: u32"] by simp
  then have z: "bm_blocks (first_entry b) = b # replicate 126 0" by (simp add: zero_bmap_eq)
  show "entries (nview N' dev) [x] = [b]" unfolding entries_single r z using assms(4) by simp
  show "addr_ok dev b \<Longrightarrow> dir_chain (nview N' dev) dev x [x]"
    using assms(2,3) r z by (simp add: outside_def) (simp add: zero_bmap_def read_bmap_def fld_zeros)
qed

lemma append_added:
  assumes dir: "dir_at N dev i d ms" "nio N dev i n a" "inode_room (mst N i)" and ms: "ms \<noteq> []"
    and x: "x \<notin> used BMAP dev i N" "x \<noteq> INODE_NULL" and b: "b \<noteq> INODE_NULL" "b \<notin> used IMAP dev i N"
    and a: "after N N' dev i [last ms \<mapsto> bmap_image ((read_bmap (nview N dev (last ms)))\<lparr>bm_next := x\<rparr>), x \<mapsto> bmap_image (first_entry b)] {b} {x}" "nio N' dev i n' a'"
  shows "entry_added N N' dev i d ms (ms @ [x]) b"
proof (rule entry_addedI [OF dir a _ b(2)])
  let ?V = "nview N dev" and ?V' = "nview N' dev" and ?l = "last ms"
  note D = dir_atD [OF dir]
  have xo: "outside (nm_fs N') dev i x" using new_block_used(1) [OF a] by simp
  have xi: "x \<notin> set ms" "x \<notin> used IMAP dev i N" "?l \<in> set ms"
    using D(6) x(1) ms after_used [OF a(1), of x IMAP] regions_apart [OF a(2), of x x] a(1) dir(3) inode_room_geom [of "mst N i" "mst N' i"]
    by (auto simp: after_def)
  have vl: "read_bmap (?V' ?l) = (read_bmap (?V ?l))\<lparr>bm_next := x\<rparr>"
    using after_written [OF a(1) D(2) [OF xi(3)]] xi read_bmap_image read_bmap_wf [OF dir(2), of ?l] by (cases "?l = x") (auto simp: bmap_wf_def)
  have v: "?V' m = ?V m" if "m \<in> set ms" "m \<noteq> ?l" for m using after_view [OF a(1) D(2)] that xi(1) by (cases "m = x") auto
  have dn: "d \<noteq> ?l" "d \<noteq> x" using D(4,5) xi by auto
  show "read_inode (?V' d) = (read_inode (?V d))\<lparr>i_next := i_next (read_inode (?V d))\<rparr>" using after_view [OF a(1) D(1)] dn by simp
  note seen = new_map_seen [OF a(1) xo x(2) b(1)]
  have es: "entries ?V' ms = entries ?V ms" using v vl by (intro entries_cong) (metis block_map.select_convs(2) block_map.surjective block_map.update_convs(1))
  then have app: "entries ?V' (ms @ [x]) = entries ?V ms @ [b]" using seen(1) by (simp add: entries_append)
  show "dir_chain ?V' dev (i_next (read_inode (?V d))) (ms @ [x])" if "\<And>e. e \<in> set (entries ?V' (ms @ [x])) \<Longrightarrow> addr_ok dev e"
    using dir(1) seen(2) that app v vl ms by (intro chain_append [of ?V]) (simp_all add: dir_at_def)
  show "distinct (ms @ [x])" "set (ms @ [x]) \<subseteq> set ms \<union> {x}" "length (ms @ [x]) \<le> Suc (length ms)" using dir(1) xi(1) by (simp_all add: dir_at_def)
  show "dom [?l \<mapsto> bmap_image ((read_bmap (?V ?l))\<lparr>bm_next := x\<rparr>), x \<mapsto> bmap_image (first_entry b)] \<inter> (used IMAP dev i N \<union> used BMAP dev i N) \<subseteq> insert d (set ms)"
    using xi(2,3) x(1) by auto
  show "inserted b (entries ?V ms) (entries ?V' (ms @ [x]))" unfolding app inserted_def by (metis append_Nil2)
qed

lemma first_added:
  assumes dir: "dir_at N dev i d []" "nio N dev i n a" "inode_room (mst N i)"
    and x: "x \<notin> used BMAP dev i N" "x \<noteq> INODE_NULL" and b: "b \<noteq> INODE_NULL" "b \<notin> used IMAP dev i N"
    and a: "after N N' dev i [d \<mapsto> inode_image ((read_inode (nview N dev d))\<lparr>i_next := x\<rparr>), x \<mapsto> bmap_image (first_entry b)] {b} {x}" "nio N' dev i n' a'"
  shows "entry_added N N' dev i d [] [x] b"
proof (rule entry_addedI [OF dir a _ b(2)])
  let ?V = "nview N dev" and ?V' = "nview N' dev"
  note D = dir_atD [OF dir]
  have xo: "outside (nm_fs N') dev i x" using new_block_used(1) [OF a] by simp
  have xi: "x \<notin> used IMAP dev i N"
    using after_used [OF a(1), of x IMAP] regions_apart [OF a(2), of x x] a(1) dir(3) inode_room_geom [of "mst N i" "mst N' i"] by (auto simp: after_def)
  have "length (?V d) = 512" using dir(2) length_view by (simp add: fio_def fs_inv_def cache_inv_def)
  then have w: "inode_wf ((read_inode (?V d))\<lparr>i_next := x\<rparr>)" using inode_image_read(2) by (simp add: inode_wf_def)
  show "read_inode (?V' d) = (read_inode (?V d))\<lparr>i_next := x\<rparr>"
    using after_written [OF a(1) D(1)] xi D(5) read_inode_image [OF w] by (cases "d = x") auto
  note seen = new_map_seen [OF a(1) xo x(2) b(1)]
  show "dir_chain ?V' dev x [x]" if "\<And>e. e \<in> set (entries ?V' [x]) \<Longrightarrow> addr_ok dev e" using seen that by simp
  show "dom [d \<mapsto> inode_image ((read_inode (?V d))\<lparr>i_next := x\<rparr>), x \<mapsto> bmap_image (first_entry b)] \<inter> (used IMAP dev i N \<union> used BMAP dev i N) \<subseteq> insert d (set [])"
    using xi x(1) by auto
  show "inserted b (entries ?V []) (entries ?V' [x])" using seen(1) by (simp add: inserted_def entries_def)
qed simp_all

lemma dir_at_read:
  assumes "after N N1 dev i Map.empty {} {}" "dir_at N dev i d ms" "nio N dev i n a" "inode_room (mst N i)"
  shows "dir_at N1 dev i d ms" "nview N1 dev d = nview N dev d" "entries (nview N1 dev) ms = entries (nview N dev) ms"
    "m \<in> set ms \<Longrightarrow> nview N1 dev m = nview N dev m" "inode_room (mst N1 i)"
proof -
  note D = dir_atD [OF assms(2-4)]
  show v: "nview N1 dev d = nview N dev d" "\<And>m. m \<in> set ms \<Longrightarrow> nview N1 dev m = nview N dev m"
    using after_view [OF assms(1) D(1)] after_view [OF assms(1) D(2)] by simp_all
  then show e: "entries (nview N1 dev) ms = entries (nview N dev) ms" by (intro entries_local)
  show "inode_room (mst N1 i)" using assms(1,4) inode_room_geom [of "mst N i" "mst N1 i"] by (simp add: after_def)
  have "dir_chain (nview N1 dev) dev (i_next (read_inode (nview N1 dev d))) ms = dir_chain (nview N dev) dev (i_next (read_inode (nview N dev d))) ms"
    using v dir_chain_local [of ms "nview N1 dev" "nview N dev"] by simp
  then show "dir_at N1 dev i d ms" using assms(1,2) v(1) e unfolding dir_at_def after_def by auto
qed

lemma entry_added_step:
  assumes "after N N1 dev i Map.empty {} {}" "dir_at N dev i d ms" "nio N dev i n a" "inode_room (mst N i)" "entry_added N1 N' dev i d ms ms' b"
  shows "entry_added N N' dev i d ms ms' b"
proof -
  note R = dir_at_read [OF assms(1-4)]
  obtain D B where D: "after N1 N' dev i D {b} B" "dom D \<inter> (used IMAP dev i N1 \<union> used BMAP dev i N1) \<subseteq> insert d (set ms)"
    using assms(5) unfolding entry_added_def by blast
  have "after N N' dev i D {b} B" "dom D \<inter> (used IMAP dev i N \<union> used BMAP dev i N) \<subseteq> insert d (set ms)"
    using after_step [OF assms(1) D(1)] D(2) after_used [OF assms(1)] by blast+
  moreover have "b \<notin> used IMAP dev i N" using assms(5) after_used [OF assms(1), of b IMAP] by (auto simp: entry_added_def)
  ultimately show ?thesis using assms(5) R(2,3) unfolding entry_added_def by auto
qed

text \<open>A directory without maps, and one whose maps are full.\<close>

lemma new_first_map:
  assumes dir: "dir_at N dev i d []" and room: "nio N dev i (Suc (Suc (n + iget_cost N i)) + dget_cost N i) (Suc a)" "free_inodes N dev i (Suc k)"
  obtains x b N' where "new_map N dev (read_inode (nview N dev d)) zero_bmap INODE_NULL = Some (True, b, N')" "nio N' dev i n a"
    "entry_added N N' dev i d [] [x] b"
proof -
  let ?d = "read_inode (nview N dev d)"
  have ir: "inode_room (mst N i)" using room(2) by (simp add: free_inodes_def)
  note D = dir_atD [OF dir room(1) ir]
  have w: "length (inode_image (?d\<lparr>i_next := x\<rparr>)) = DEV_BLOCK_SIZE" for x
    using inode_image_read(2) [of "nview N dev d"] room(1) length_view by (simp add: image_lengths inode_wf_def fio_def fs_inv_def cache_inv_def)
  have self: "self ?d = d" using dir by (simp add: dir_at_def)
  obtain x b N' where x: "new_map N dev ?d zero_bmap INODE_NULL = Some (True, b, N')" "nio N' dev i n a"
      "after N N' dev i [d \<mapsto> inode_image (?d\<lparr>i_next := x\<rparr>), x \<mapsto> bmap_image (first_entry b)] {b} {x}"
      "x \<notin> used BMAP dev i N" "x \<noteq> INODE_NULL" "b \<notin> used IMAP dev i N" "b \<noteq> INODE_NULL"
    by (rule new_map_ok [OF room D(1) w, of zero_bmap INODE_NULL ?d]) (simp add: self, blast)
  then show thesis using first_added [OF dir room(1) ir x(4,5,7,6,3,2)] that by blast
qed

lemma new_last_map:
  assumes dir: "dir_at N dev i d ms" "ms \<noteq> []" and room: "nio N dev i (Suc (Suc (n + iget_cost N i)) + dget_cost N i) (Suc a)" "free_inodes N dev i (Suc k)"
  obtains x b N' where "new_map N dev pi (read_bmap (nview N dev (last ms))) (last ms) = Some (True, b, N')" "nio N' dev i n a"
    "entry_added N N' dev i d ms (ms @ [x]) b"
proof -
  let ?bm = "read_bmap (nview N dev (last ms))"
  have ir: "inode_room (mst N i)" using room(2) by (simp add: free_inodes_def)
  have l: "last ms \<in> set ms" using dir(2) by simp
  note D = dir_atD [OF dir(1) room(1) ir]
  have chain: "dir_chain (nview N dev) dev (i_next (read_inode (nview N dev d))) ms" using dir(1) by (simp add: dir_at_def)
  have bn: "bm_next ?bm = INODE_NULL" "last ms \<noteq> INODE_NULL"
    using dir_chain_next [OF chain dir(2)] used_outside(3) [OF room(1)] D(6) l by auto
  have w: "length (bmap_image (?bm\<lparr>bm_next := x\<rparr>)) = DEV_BLOCK_SIZE" for x
    using read_bmap_wf [OF room(1), of "last ms"] by (simp add: image_lengths bmap_wf_def)
  obtain x b N' where x: "new_map N dev pi ?bm (last ms) = Some (True, b, N')" "nio N' dev i n a"
      "after N N' dev i [last ms \<mapsto> bmap_image (?bm\<lparr>bm_next := x\<rparr>), x \<mapsto> bmap_image (first_entry b)] {b} {x}"
      "x \<notin> used BMAP dev i N" "x \<noteq> INODE_NULL" "b \<notin> used IMAP dev i N" "b \<noteq> INODE_NULL"
    by (rule new_map_ok [OF room D(2) [OF l] w, of ?bm "last ms" pi]) (simp add: bn, blast)
  then show thesis using append_added [OF dir(1) room(1) ir dir(2) x(4,5,7,6,3,2)] that by blast
qed

lemma add_entry_ok:
  assumes dir: "dir_at N dev i d ms"
    and room: "nio N dev i (Suc (Suc (Suc (n + length ms + iget_cost N i + dget_cost N i)))) (Suc a)" "free_inodes N dev i (Suc k)"
  obtains b ms' N' where "add_entry N dev d = Some (True, b, N')" "nio N' dev i n a" "entry_added N N' dev i d ms ms' b"
proof -
  let ?V = "nview N dev" and ?d = "read_inode (nview N dev d)" and ?n = "Suc (n + dget_cost N i)"
  have ir: "inode_room (mst N i)" using room(2) by (simp add: free_inodes_def)
  have chain: "dir_chain ?V dev (i_next ?d) ms" using dir by (simp add: dir_at_def)
  have da: "addr_ok dev d" using dir_atD(1) [OF dir room(1) ir] by (simp add: outside_def)
  have room': "nio N dev i (Suc (Suc ?n + length ms + iget_cost N i)) (Suc a)" by (rule fio_mono [OF room(1)]) simp_all
  obtain N1 where r: "nm_read N dev d = Some (True, ?V d, N1)" "nio N1 dev i (Suc ?n + length ms + iget_cost N i) (Suc a)" "after N N1 dev i Map.empty {} {}"
    by (rule nread [OF room' da])
  note R = dir_at_read [OF r(3) dir room(1) ir] and c = after_cost [OF r(3)]
  have f1: "free_inodes N1 dev i (Suc k)" using after_free [OF r(3)] room(2) by simp
  note done1 = that [OF _ _ entry_added_step [OF r(3) dir room(1) ir]]
  show thesis
  proof (cases "ms = []")
    case True
    have nr: "nio N1 dev i (Suc (Suc (n + iget_cost N1 i)) + dget_cost N1 i) (Suc a)" by (rule fio_mono [OF r(2)]) (simp_all add: c)
    obtain x b N' where x: "new_map N1 dev ?d zero_bmap INODE_NULL = Some (True, b, N')" "nio N' dev i n a" "entry_added N1 N' dev i d ms [x] b"
      by (rule new_first_map [OF R(1) [unfolded True] nr f1, unfolded R(2)]) (use True in blast)
    have "add_entry N dev d = Some (True, b, N')" using r(1) chain x(1) True by (simp add: add_entry_def Let_def)
    then show thesis using done1 x(2,3) by blast
  next
    case False
    have nx: "i_next ?d \<noteq> INODE_NULL" using dir_chain_next [OF chain False] by blast
    have "dir_chain (nview N1 dev) dev (i_next ?d) ms" using R(1,2) by (simp add: dir_at_def)
    then consider "full_maps N1 dev i (Suc ?n + iget_cost N1 i) (Suc a) (i_next ?d) ms" | "placed N1 dev i ?n (Suc a) (i_next ?d) ms"
      using place_loop_ok [OF _ False dir_atD(2) [OF R(1) r(2) R(5)], of "i_next ?d" ?n "Suc a" k] r(2) c f1 by auto
    then show thesis
    proof cases
      case 1
      then obtain N2 where f: "place_loop N1 dev (i_next ?d) = Some (True, INODE_NULL, read_bmap (nview N1 dev (last ms)), last ms, N2)"
          "nio N2 dev i (Suc ?n + iget_cost N1 i) (Suc a)" "after N1 N2 dev i Map.empty {} {}"
        unfolding full_maps_def by blast
      note R2 = dir_at_read [OF f(3) R(1) r(2) R(5)] and c2 = after_cost [OF f(3)]
      have nr: "nio N2 dev i (Suc (Suc (n + iget_cost N2 i)) + dget_cost N2 i) (Suc a)" by (rule fio_mono [OF f(2)]) (simp_all add: c c2)
      have f2: "free_inodes N2 dev i (Suc k)" using after_free [OF f(3)] f1 by simp
      obtain x b N' where x: "new_map N2 dev ?d (read_bmap (nview N2 dev (last ms))) (last ms) = Some (True, b, N')" "nio N' dev i n a"
          "entry_added N2 N' dev i d ms (ms @ [x]) b"
        by (rule new_last_map [OF R2(1) False nr f2])
      have "add_entry N dev d = Some (True, b, N')" using r(1) nx f(1) x(1) R2(4) [of "last ms"] False by (simp add: add_entry_def Let_def)
      then show thesis using done1 x(2) entry_added_step [OF f(3) R(1) r(2) R(5) x(3)] by blast
    next
      case 2
      then obtain m j b N' where p: "m \<in> set ms" "j < length (bm_blocks (read_bmap (nview N1 dev m)))"
          "bm_blocks (read_bmap (nview N1 dev m)) ! j = INODE_NULL" "b \<noteq> INODE_NULL" "b \<notin> used IMAP dev i N1"
          "place_loop N1 dev (i_next ?d) = Some (True, b, with_entry (nview N1 dev) m j b, m, N')" "nio N' dev i ?n (Suc a)"
          "after N1 N' dev i [m \<mapsto> bmap_image (with_entry (nview N1 dev) m j b)] {b} {}"
        unfolding placed_def by blast
      have "add_entry N dev d = Some (True, b, N')" using r(1) nx p(6,4) by (simp add: add_entry_def Let_def)
      moreover have "nio N' dev i n a" by (rule fio_mono [OF p(7)]) simp_all
      ultimately show thesis using done1 placed_added [OF R(1) r(2) R(5) p(1-5,8,7)] by blast
    qed
  qed
qed

section \<open>The new inode\<close>

lemma perms_keep:
  "self (inode_set_permissions i p u) = self i" "parent (inode_set_permissions i p u) = parent i" "i_path (inode_set_permissions i p u) = i_path i"
  "i_next (inode_set_permissions i p u) = i_next i" "i_align1 (inode_set_permissions i p u) = i_align1 i" "i_align2 (inode_set_permissions i p u) = i_align2 i"
  "i_pad (inode_set_permissions i p u) = i_pad i" "is_symlink (inode_set_permissions i p u) = is_symlink i"
  "is_hardlink (inode_set_permissions i p u) = is_hardlink i" "is_directory (inode_set_permissions i p u) = is_directory i" "is_file (inode_set_permissions i p u) = is_file i"
  by (simp_all add: inode_set_permissions_def Let_def split_beta)

abbreviation plain_mode :: "inode_mode \<Rightarrow> bool" where
  "plain_mode m \<equiv> m = INODE_CREATE_FILE \<or> m = INODE_CREATE_DIR"

definition name_ok :: "bytes \<Rightarrow> bool" where
  "name_ok c \<longleftrightarrow> nul_free c \<and> length c < MAX_PATH"

lemma new_inode_fields:
  assumes "name_ok c"
  shows "inode_wf (new_inode t A c b d)" "cstr (i_path (new_inode t A c b d)) = c" "self (new_inode t A c b d) = b"
    "parent (new_inode t A c b d) = d"
    "plain_mode (c_mode A) \<Longrightarrow> is_symlink (new_inode t A c b d) = 0 \<and> is_hardlink (new_inode t A c b d) = 0"
  using assms by (auto simp: new_inode_def kind_flag_def Let_def inode_wf_def inode_set_timestamps_def perms_keep name_ok_def
      read_inode_def chunk_def fld_zeros split: inode_mode.split)

lemma make_inode_ok:
  assumes room: "nio N dev i (Suc (Suc n)) a" and m: "plain_mode (c_mode A)" and c: "name_ok c"
    and o: "outside (nm_fs N) dev i b" "addr_ok dev d"
  obtains N' where "make_inode P N dev A c path b d t = Some (INODE_OK, N')" "nio N' dev i n a"
    "after N N' dev i [b \<mapsto> inode_image (new_inode (now P) A c b d)] {} {}"
proof -
  obtain N1 where r: "nm_read N dev d = Some (True, nview N dev d, N1)" "nio N1 dev i (Suc n) a" "after N N1 dev i Map.empty {} {}"
    by (rule nread [OF room o(2)])
  have p: "inode_set_parent_mod_time (now P) (nm_fs N) dev d = Some (INODE_OK, nm_fs N1)" "N\<lparr>nm_fs := nm_fs N1\<rparr> = N1"
    using r(1) by (auto simp: nm_read_def fs_read_def inode_set_parent_mod_time_def nm_errno_def split: bind_splits if_splits)
  have o1: "outside (nm_fs N1) dev i b" using after_outside [OF r(3)] o(1) by simp
  obtain N2 where w: "nm_write N1 dev b (inode_image (new_inode (now P) A c b d)) = Some (True, N2)" "nio N2 dev i n a"
      "after N1 N2 dev i [b \<mapsto> inode_image (new_inode (now P) A c b d)] {} {}"
    by (rule nwrite [OF r(2) o1, of "inode_image (new_inode (now P) A c b d)"]) (simp add: image_lengths new_inode_fields(1) [OF c])
  have "make_inode P N dev A c path b d t = Some (INODE_OK, N2)"
    using m p w(1) by (auto simp: make_inode_def Let_def)
  then show thesis using that w(2) after_step [OF r(3) w(3)] by simp
qed

text \<open>Reading a directory.\<close>

lemma errno_inv: "fio (s\<lparr>fs_errno := e\<rparr>) dev i n a = fio s dev i n a" "blocks_used w dev i (s\<lparr>fs_errno := e\<rparr>) = blocks_used w dev i s"
  "recorded w (s\<lparr>fs_errno := e\<rparr>) dev i = recorded w s dev i"
proof -
  have m: "map_memory w (s\<lparr>fs_errno := e\<rparr>) = map_memory w s" "map_base w (s\<lparr>fs_errno := e\<rparr>) = map_base w s" for w by (cases w; simp)+
  have a: "allocated w (s\<lparr>fs_errno := e\<rparr>) dev i = allocated w s dev i" for w by (rule set_eqI) (simp add: allocated_iff m Let_def)
  show r: "recorded w (s\<lparr>fs_errno := e\<rparr>) dev i = recorded w s dev i" for w by (rule set_eqI) (simp add: recorded_iff)
  show "blocks_used w dev i (s\<lparr>fs_errno := e\<rparr>) = blocks_used w dev i s" by (simp add: blocks_used_def a)
  have "map_ok w (s\<lparr>fs_errno := e\<rparr>) dev i = map_ok w s dev i" for w by (simp add: map_ok_def m Let_def)
  then show "fio (s\<lparr>fs_errno := e\<rparr>) dev i n a = fio s dev i n a" by (simp add: fio_def fs_inv_def r master_get_def)
qed

lemma only_read_after:
  assumes "only_read N N'" "nio N dev i m a" "room_for N' n"
  shows "nio N' dev i n a" "after N N' dev i Map.empty {} {}"
proof -
  obtain c e where c: "nm_fs N' = (nm_fs N)\<lparr>fs_cache := c, fs_errno := e\<rparr>" "\<And>b. addr_ok dev b \<Longrightarrow> view c dev b = nview N dev b"
    using assms(1) unfolding only_read_def by fastforce
  have k: "cache_inv c n" using assms(3) c(1) by simp
  note C = cache_change [OF assms(2) k, of Map.empty]
  have s: "nm_fs N' = ((nm_fs N)\<lparr>fs_cache := c\<rparr>)\<lparr>fs_errno := e\<rparr>" using c(1) by simp
  show "nio N' dev i n a" unfolding s errno_inv using C(1) c(2) by simp
  show "after N N' dev i Map.empty {} {}" using C(2) c(2) unfolding after_def s errno_inv outside_def by simp
qed

lemma scan_after:
  assumes dir: "dir_at N dev i d ms" "nio N dev i (n + length ms + length (entries (nview N dev) ms)) a" "inode_room (mst N i)"
    and none: "lookup (nview N dev) ms c = None"
  obtains t' N' where "(if i_next (read_inode (nview N dev d)) \<noteq> INODE_NULL then scan_dir N dev c (i_next (read_inode (nview N dev d))) t
      else Some (True, INODE_NULL, t, N)) = Some (True, INODE_NULL, t', N')" "nio N' dev i n a" "after N N' dev i Map.empty {} {}"
proof (cases "ms = []")
  case True
  then show thesis using dir that [of t N] by (simp add: dir_at_def entries_def)
next
  case False
  have ch: "dir_chain (nview N dev) dev (i_next (read_inode (nview N dev d))) ms" using dir(1) by (simp add: dir_at_def)
  have nz: "i_next (read_inode (nview N dev d)) \<noteq> INODE_NULL" using dir_chain_next [OF ch False] by blast
  have "room_for N (n + length ms + length (entries (nview N dev) ms))" using dir(2) by (simp add: fio_def fs_inv_def)
  from scan_dir_ok [OF this ch False, of c t] none obtain t' N' where
      "scan_dir N dev c (i_next (read_inode (nview N dev d))) t = Some (True, INODE_NULL, t', N')" "room_for N' n" "only_read N N'" by auto
  then show thesis using that [of t' N'] only_read_after [OF _ dir(2), of N' n] nz by simp
qed

section \<open>Creating a name\<close>

abbreviation create_cost :: "names \<Rightarrow> int \<Rightarrow> nat \<Rightarrow> u32 list \<Rightarrow> nat" where
  "create_cost N dev i ms \<equiv> 5 + 2 * length ms + length (entries (nview N dev) ms) + iget_cost N i + dget_cost N i"

text \<open>
  \<open>created\<close>: the directory \<open>d\<close> has the name \<open>c\<close> for the new inode \<open>b\<close>, every other name as before, and no other block in use
  has changed but the directory and its maps.
\<close>

definition created :: "names \<Rightarrow> names \<Rightarrow> int \<Rightarrow> nat \<Rightarrow> u32 \<Rightarrow> u32 list \<Rightarrow> bytes \<Rightarrow> inode \<Rightarrow> bool" where
  "created N N' dev i d ms c ino \<longleftrightarrow> same_geom (mst N i) (mst N' i) \<and> self ino \<notin> used IMAP dev i N \<and> read_inode (nview N' dev (self ino)) = ino \<and>
     (\<exists>ms'. dir_at N' dev i d ms' \<and> set (entries (nview N' dev) ms') = insert (self ino) (set (entries (nview N dev) ms)) \<and>
        length ms' \<le> Suc (length ms) \<and> length (entries (nview N' dev) ms') = Suc (length (entries (nview N dev) ms)) \<and>
        (\<forall>x. lookup (nview N' dev) ms' x = (if x = c then Some (self ino) else lookup (nview N dev) ms x))) \<and>
     (\<exists>y. read_inode (nview N' dev d) = (read_inode (nview N dev d))\<lparr>i_next := y\<rparr>) \<and>
     (\<forall>e \<in> used IMAP dev i N \<union> used BMAP dev i N. e = d \<or> e \<in> set ms \<or> nview N' dev e = nview N dev e)"

lemma inserted_length: "inserted b es es' \<Longrightarrow> length es' = Suc (length es)"
  by (auto simp: inserted_def)

lemma created_intro:
  assumes dir: "dir_at N dev i d ms" "nio N dev i n a" "inode_room (mst N i)" and none: "lookup (nview N dev) ms c = None"
    and e: "entry_added N N1 dev i d ms ms' b" and N1: "nio N1 dev i n1 a1"
    and w: "after N1 N2 dev i [b \<mapsto> inode_image ino] {} {}" and ino: "inode_wf ino" "cstr (i_path ino) = c" "self ino = b"
  shows "created N N2 dev i d ms c ino"
proof -
  let ?V = "nview N dev" and ?V1 = "nview N1 dev" and ?V2 = "nview N2 dev"
  obtain D B where a: "after N N1 dev i D {b} B" "dom D \<inter> (used IMAP dev i N \<union> used BMAP dev i N) \<subseteq> insert d (set ms)"
    using e unfolding entry_added_def by blast
  have e': "b \<notin> used IMAP dev i N" "dir_at N1 dev i d ms'" "inserted b (entries ?V ms) (entries ?V1 ms')"
      "\<exists>y. read_inode (?V1 d) = (read_inode (?V d))\<lparr>i_next := y\<rparr>" "length ms' \<le> Suc (length ms)"
    using e by (simp_all add: entry_added_def)
  have ir: "inode_room (mst N1 i)" using a(1) dir(3) inode_room_geom [of "mst N i" "mst N1 i"] by (simp add: after_def)
  note D = dir_atD [OF dir] and D1 = dir_atD [OF e'(2) N1 ir]
  have bu: "b \<in> used IMAP dev i N1" "outside (nm_fs N1) dev i b" using a(1) used_inode(1) [OF N1 ir] by (auto simp: after_def)
  have v2: "?V2 b = inode_image ino" "\<And>x. outside (nm_fs N1) dev i x \<Longrightarrow> x \<noteq> b \<Longrightarrow> ?V2 x = ?V1 x"
    using after_written [OF w bu(2)] after_view [OF w] by simp_all
  have m2: "?V2 m = ?V1 m" if "m \<in> set ms'" for m using v2(2) [OF D1(2) [OF that]] D1(3) [OF that] bu(1) by blast
  have d2: "?V2 d = ?V1 d" using v2(2) [OF D1(1)] D(5) e'(1) by blast
  have es2: "entries ?V2 ms' = entries ?V1 ms'" using m2 by (intro entries_local)
  have at2: "dir_at N2 dev i d ms'"
    using e'(2) d2 es2 w dir_chain_local [of ms' ?V2 ?V1, OF m2] unfolding dir_at_def after_def by auto
  have old: "?V2 x = ?V x" if x: "x \<in> used IMAP dev i N \<union> used BMAP dev i N" "x \<noteq> d" "x \<notin> set ms" for x
  proof -
    have o: "outside (nm_fs N) dev i x" using x(1) used_inode(1) [OF dir(2,3)] used_outside(1) [OF dir(2)] by auto
    have "x \<noteq> b" using x(1) e'(1) regions_apart [OF N1 ir bu(1)] after_used [OF a(1), of x BMAP] by blast
    moreover have "D x = None" using a(2) x by blast
    ultimately show ?thesis using v2(2) [of x] after_outside [OF a(1)] after_view [OF a(1) o] o by simp
  qed
  have nm: "name_of ?V2 b = c" using v2(1) read_inode_image [OF ino(1)] ino(2) by (simp add: name_of_def)
  have "name_of ?V2 x = name_of ?V x" if "x \<in> set (entries ?V ms)" for x
  proof -
    have u: "x \<in> used IMAP dev i N" using that dir(1) by (auto simp: dir_at_def)
    show ?thesis
    proof (cases "x = d")
      case True
      then show ?thesis using d2 e'(4) by (auto simp: name_of_def)
    next
      case False
      have "x \<notin> set ms" using D(3) [of x] u by blast
      then show ?thesis using old [of x] u False by (simp add: name_of_def)
    qed
  qed
  then have "lookup ?V2 ms' x = (if x = c then Some b else lookup ?V ms x)" for x
    using inserted_find [OF e'(3), of "\<lambda>b. name_of ?V2 b = x" "\<lambda>b. name_of ?V b = x"] none nm unfolding lookup_def es2 by auto
  moreover have "set (entries ?V2 ms') = insert b (set (entries ?V ms))" "length (entries ?V2 ms') = Suc (length (entries ?V ms))"
    using set_inserted [OF e'(3)] inserted_length [OF e'(3)] es2 by simp_all
  moreover have "same_geom (mst N i) (mst N2 i)" using a(1) w same_geom_trans by (simp add: after_def) blast
  ultimately show ?thesis using e'(1,4,5) ino(3) v2(1) read_inode_image [OF ino(1)] at2 d2 old unfolding created_def by auto
qed

lemma create_last_ok:
  assumes dir: "dir_at N dev i d ms" "nio N dev i (n + create_cost N dev i ms) (Suc a)" "free_inodes N dev i (Suc k)"
    and may: "is_symlink (read_inode (nview N dev d)) = 0"
      "inode_check_permissions (read_inode (nview N dev d)) 0 0 (p_group P) (p_owner P) INODE_RWX"
    and c: "lookup (nview N dev) ms c = None" "name_ok c" "plain_mode (c_mode A)"
  obtains b N' where "create_last P N dev A c path (read_inode (nview N dev d)) d t = Some (INODE_OK, N')" "nio N' dev i n a"
    "created N N' dev i d ms c (new_inode (now P) A c b d)"
proof -
  let ?d = "read_inode (nview N dev d)"
  have ir: "inode_room (mst N i)" using dir(3) by (simp add: free_inodes_def)
  have "nio N dev i (Suc (Suc (Suc (Suc (Suc n) + length ms + iget_cost N i + dget_cost N i))) + length ms + length (entries (nview N dev) ms)) (Suc a)"
    by (rule fio_mono [OF dir(2)]) simp_all
  then obtain t1 N1 where s: "(if i_next ?d \<noteq> INODE_NULL then scan_dir N dev c (i_next ?d) t else Some (True, INODE_NULL, t, N)) = Some (True, INODE_NULL, t1, N1)"
      "nio N1 dev i (Suc (Suc (Suc (Suc (Suc n) + length ms + iget_cost N i + dget_cost N i)))) (Suc a)" "after N N1 dev i Map.empty {} {}"
    by (rule scan_after [OF dir(1) _ ir c(1)])
  note R = dir_at_read [OF s(3) dir(1,2) ir]
  have f1: "free_inodes N1 dev i (Suc k)" using after_free [OF s(3)] dir(3) by simp
  obtain b ms' N2 where e: "add_entry N1 dev d = Some (True, b, N2)" "nio N2 dev i (Suc (Suc n)) a" "entry_added N1 N2 dev i d ms ms' b"
    by (rule add_entry_ok [OF R(1) s(2) [folded after_cost [OF s(3)]] f1])
  note e3 = entry_added_step [OF s(3) dir(1,2) ir e(3)]
  obtain D B where a: "after N N2 dev i D {b} B" using e3 unfolding entry_added_def by blast
  have ob: "outside (nm_fs N2) dev i b" using new_block_used(2) [OF a e(2)] ir by simp
  have ad: "addr_ok dev d" using dir_atD(1) [OF dir(1,2) ir] by (simp add: outside_def)
  obtain N3 where m: "make_inode P N2 dev A c path b d t1 = Some (INODE_OK, N3)" "nio N3 dev i n a"
      "after N2 N3 dev i [b \<mapsto> inode_image (new_inode (now P) A c b d)] {} {}"
    by (rule make_inode_ok [OF e(2) c(3,2) ob ad])
  have "created N N3 dev i d ms c (new_inode (now P) A c b d)"
    by (rule created_intro [OF dir(1,2) ir c(1) e3 e(2) m(3)]) (simp_all add: new_inode_fields [OF c(2)])
  moreover have "create_last P N dev A c path ?d d t = Some (INODE_OK, N3)"
    using may s(1) e(1) m(1) by (simp add: create_last_def follow_dir_def inode_check_permissions_def)
  ultimately show thesis using that m(2) by blast
qed

section \<open>Properties\<close>

lemma inode_create_walk:
  assumes p: "rooted p" and m: "master_get (nm_fs N) dev = Some i" and root: "root = inode_start (mst N i)"
    and ok: "root_ok (nview N dev) dev root" and room: "room_for N (Suc n)" and A: "plain_mode (c_mode A)"
  obtains N' where "room_for N' n" "only_read N N'"
    "inode_create P N dev cwd p A None = walk_create (comps p) P N' dev A [] root (read_inode (zeros DEV_BLOCK_SIZE))"
proof -
  obtain N1 where n1: "room_for N1 n" "only_read N N1" "real_tab N dev cwd p = Some (Some ([] # comps p), nm_errno 0 N)"
      "load_root (now P) (nm_errno 0 N) dev root = Some (True, read_inode (nview N dev root), N1)"
    by (rule root_start [OF p ok room])
  have "length p \<le> 253" "self (read_inode (nview N dev root)) = root" using p ok by (simp_all add: rooted_def root_ok_def)
  then show thesis using n1(3,4) m root A by (intro that [OF n1(1,2)]) (auto simp: inode_create_def real_link_def)
qed

text \<open>The last component, in a directory the process may change.\<close>

definition may_change :: "(u32 \<Rightarrow> bytes) \<Rightarrow> int \<Rightarrow> proc_ids \<Rightarrow> u32 \<Rightarrow> bool" where
  "may_change V dev P d \<longleftrightarrow> is_directory (read_inode (V d)) \<noteq> 0 \<and> is_symlink (read_inode (V d)) = 0 \<and>
     inode_check_permissions (read_inode (V d)) 0 0 (p_group P) (p_owner P) INODE_RWX"

lemma rwx_rx: "inode_check_permissions j 0 0 g w INODE_RWX \<Longrightarrow> inode_check_permissions (j\<lparr>i_next := y\<rparr>) 0 0 g w INODE_RX"
  by (auto simp: inode_check_permissions_def class_check_def split: if_splits)

lemma walk_create_last:
  assumes "nio N dev i (Suc n) a" "addr_ok dev d" "may_change (nview N dev) dev P d"
  obtains N' where "nio N' dev i n a" "after N N' dev i Map.empty {} {}"
    "walk_create [c] P N dev A path d t = create_last P N' dev A c path (read_inode (nview N dev d)) d t"
proof -
  obtain N1 where r: "nm_read N dev d = Some (True, nview N dev d, N1)" "nio N1 dev i n a" "after N N1 dev i Map.empty {} {}"
    by (rule nread [OF assms(1,2)])
  then show thesis using assms(3) by (intro that [OF r(2,3)]) (simp add: may_change_def Let_def)
qed

lemma created_step:
  assumes "after N N1 dev i Map.empty {} {}" "dir_at N dev i d ms" "nio N dev i n a" "inode_room (mst N i)"
    and c: "created N1 N' dev i d ms c ino"
  shows "created N N' dev i d ms c ino"
proof -
  note R = dir_at_read [OF assms(1-4)]
  have nm: "nview N1 dev x = nview N dev x" if "x \<in> used w dev i N" for x w
    using that used_inode(1) [OF assms(3,4)] used_outside(1) [OF assms(3)] after_view [OF assms(1)] by (cases w) auto
  have "lookup (nview N1 dev) ms x = lookup (nview N dev) ms x" for x
    unfolding lookup_def R(3) using nm [of _ IMAP] assms(2) by (intro find_cong) (auto simp: dir_at_def name_of_def)
  moreover have "same_geom (mst N i) (mst N1 i)" "used IMAP dev i N \<subseteq> used IMAP dev i N1" "used BMAP dev i N \<subseteq> used BMAP dev i N1"
    using assms(1) by (auto simp: after_def)
  moreover have "e = d \<or> e \<in> set ms \<or> nview N' dev e = nview N dev e" if e: "e \<in> used IMAP dev i N \<union> used BMAP dev i N" for e
  proof -
    have "nview N1 dev e = nview N dev e" "e \<in> used IMAP dev i N1 \<union> used BMAP dev i N1" using e nm calculation(3,4) by blast+
    then show ?thesis using c unfolding created_def by auto
  qed
  ultimately show ?thesis using c R(2,3) same_geom_trans unfolding created_def by auto
qed

text \<open>
  A file or directory is created in a directory the process may change and that has no entry of this name.
  \<open>create_last\<close> succeeds; the new inode gets an inode block not in use before; the directory then finds the new inode under its name and
  every other name as before; no block in use changes but the directory and its maps. This covers a free place in a map,
  a new map behind the last one and the first map of the directory.
\<close>

theorem create_adds_name:
  assumes "dir_at N dev i d ms" "nio N dev i (n + create_cost N dev i ms) (Suc a)" "free_inodes N dev i (Suc k)"
    and "may_change (nview N dev) dev P d" "lookup (nview N dev) ms c = None" "name_ok c" "plain_mode (c_mode A)"
  shows "\<exists>b N'. create_last P N dev A c path (read_inode (nview N dev d)) d t = Some (INODE_OK, N') \<and>
    created N N' dev i d ms c (new_inode (now P) A c b d) \<and> self (new_inode (now P) A c b d) = b \<and> nio N' dev i n a"
proof -
  have m: "is_symlink (read_inode (nview N dev d)) = 0"
      "inode_check_permissions (read_inode (nview N dev d)) 0 0 (p_group P) (p_owner P) INODE_RWX" using assms(4) by (simp_all add: may_change_def)
  obtain b N' where "create_last P N dev A c path (read_inode (nview N dev d)) d t = Some (INODE_OK, N')" "nio N' dev i n a"
      "created N N' dev i d ms c (new_inode (now P) A c b d)"
    by (rule create_last_ok [OF assms(1-3) m assms(5-7)])
  then show ?thesis using new_inode_fields(3) [OF assms(6)] by blast
qed

text \<open>The whole call for a name in the root directory.\<close>

abbreviation root_of :: "names \<Rightarrow> nat \<Rightarrow> u32" where
  "root_of N i \<equiv> inode_start (mst N i)"

lemma inode_create_root:
  assumes p: "rooted p" "comps p = [c]" "name_ok c" and dir: "dir_at N dev i (root_of N i) ms" "root_ok (nview N dev) dev (root_of N i)"
    and room: "nio N dev i (Suc (Suc (n + create_cost N dev i ms))) (Suc a)" "free_inodes N dev i (Suc k)"
    and may: "may_change (nview N dev) dev P (root_of N i)" "lookup (nview N dev) ms c = None" "plain_mode (c_mode A)"
  obtains b N' where "inode_create P N dev cwd p A None = Some (INODE_OK, N')" "nio N' dev i n a"
    "created N N' dev i (root_of N i) ms c (new_inode (now P) A c b (root_of N i))"
proof -
  let ?d = "root_of N i"
  have ir: "inode_room (mst N i)" using room(2) by (simp add: free_inodes_def)
  have inv: "master_get (nm_fs N) dev = Some i" "room_for N (Suc (Suc (n + create_cost N dev i ms)))" using room(1) by (simp_all add: fio_def fs_inv_def)
  obtain N1 where n1: "room_for N1 (Suc (n + create_cost N dev i ms))" "only_read N N1"
      "inode_create P N dev cwd p A None = walk_create (comps p) P N1 dev A [] ?d (read_inode (zeros DEV_BLOCK_SIZE))"
    by (rule inode_create_walk [OF p(1) inv(1) refl dir(2) inv(2) may(3)])
  note a1 = only_read_after [OF n1(2) room(1) n1(1)]
  note R1 = dir_at_read [OF a1(2) dir(1) room(1) ir]
  have ad: "addr_ok dev ?d" using dir(2) by (simp add: root_ok_def)
  have "may_change (nview N1 dev) dev P ?d" using may(1) R1(2) by (simp add: may_change_def)
  then obtain N2 where n2: "nio N2 dev i (n + create_cost N dev i ms) (Suc a)" "after N1 N2 dev i Map.empty {} {}"
      "walk_create [c] P N1 dev A [] ?d (read_inode (zeros DEV_BLOCK_SIZE)) = create_last P N2 dev A c [] (read_inode (nview N1 dev ?d)) ?d (read_inode (zeros DEV_BLOCK_SIZE))"
    by (rule walk_create_last [OF a1(1) ad])
  have a2: "after N N2 dev i Map.empty {} {}" using after_trans [OF a1(2) n2(2)] by simp
  note R2 = dir_at_read [OF a2 dir(1) room(1) ir]
  have v: "nview N2 dev x = nview N dev x" if "x \<in> used IMAP dev i N" for x using used_inode(1) [OF room(1) ir that] after_view [OF a2] by simp
  have "lookup (nview N2 dev) ms c = None"
    using may(2) v dir(1) find_cong [OF refl, of "entries (nview N dev) ms" "\<lambda>b. name_of (nview N2 dev) b = c" "\<lambda>b. name_of (nview N dev) b = c"]
    unfolding lookup_def R2(3) by (auto simp: dir_at_def name_of_def subset_iff)
  moreover have "free_inodes N2 dev i (Suc k)" using after_free [OF a2] room(2) by simp
  moreover have "is_symlink (read_inode (nview N2 dev ?d)) = 0"
      "inode_check_permissions (read_inode (nview N2 dev ?d)) 0 0 (p_group P) (p_owner P) INODE_RWX" using may(1) R2(2) by (simp_all add: may_change_def)
  moreover have "nio N2 dev i (n + create_cost N2 dev i ms) (Suc a)" using n2(1) R2(3) after_cost [OF a2] by simp
  ultimately obtain b N' where n3: "create_last P N2 dev A c [] (read_inode (nview N2 dev ?d)) ?d (read_inode (zeros DEV_BLOCK_SIZE)) = Some (INODE_OK, N')"
      "nio N' dev i n a" "created N2 N' dev i ?d ms c (new_inode (now P) A c b ?d)"
    using create_last_ok [OF R2(1), of n a k P c A "[]" "read_inode (zeros DEV_BLOCK_SIZE)"] p(3) may(3) by metis
  have "inode_create P N dev cwd p A None = Some (INODE_OK, N')" using n1(3) n2(3) n3(1) unfolding p(2) R1(2) R2(2) by (simp del: walk_create.simps)
  then show thesis using that n3(2) created_step [OF a2 dir(1) room(1) ir n3(3)] by blast
qed

text \<open>
  C16: A file or directory is created by \<open>inode_create\<close> in the root directory, which the process may change and which has no entry of this
  name. The call succeeds, on an inode block not in use before; the directory then finds the new inode under its name and every other
  name as before, with one entry more; no block in use changes but the directory and its maps (\<open>created\<close>). \<open>inode_get\<close> of the same path,
  for an access its permissions allow, returns the inode \<open>new_inode\<close> that was made, with its name, its directory, its owner and the
  permissions the code sets from the mode and the umask.
\<close>

theorem create_then_get:
  assumes "rooted p" "comps p = [c]" "name_ok c" "dir_at N dev i (root_of N i) ms" "root_ok (nview N dev) dev (root_of N i)"
    and "nio N dev i (n + create_cost N dev i ms + 6 + length ms + length (entries (nview N dev) ms)) (Suc a)" "free_inodes N dev i (Suc k)"
    and "may_change (nview N dev) dev P (root_of N i)" "lookup (nview N dev) ms c = None" "plain_mode (c_mode A)"
    and "\<And>b. inode_check_permissions (new_inode (now P) A c b (root_of N i)) 0 0 (p_group P) (p_owner P) mode"
  shows "\<exists>b N' N''. inode_create P N dev cwd p A None = Some (INODE_OK, N') \<and>
    inode_get P N' dev cwd p do_readlink mode res = Some (INODE_OK, new_inode (now P) A c b (root_of N i), N'') \<and>
    b \<notin> used IMAP dev i N \<and> created N N' dev i (root_of N i) ms c (new_inode (now P) A c b (root_of N i))"
proof -
  let ?d = "root_of N i" and ?K = "3 + length ms + length (entries (nview N dev) ms)"
  have room: "nio N dev i (Suc (Suc (Suc ?K + n + create_cost N dev i ms))) (Suc a)" by (rule fio_mono [OF assms(6)]) simp_all
  obtain b N' where c: "inode_create P N dev cwd p A None = Some (INODE_OK, N')" "nio N' dev i (Suc ?K + n) a"
      "created N N' dev i ?d ms c (new_inode (now P) A c b ?d)"
    by (rule inode_create_root [OF assms(1-5) room assms(7-10)])
  let ?i = "new_inode (now P) A c b ?d" and ?V' = "nview N' dev"
  note f = new_inode_fields [OF assms(3), where t = "now P" and A = A and b = b and d = ?d]
  obtain ms' y where m: "dir_at N' dev i ?d ms'" "length ms' \<le> Suc (length ms)" "length (entries ?V' ms') = Suc (length (entries (nview N dev) ms))"
      "lookup ?V' ms' c = Some b" "read_inode (?V' ?d) = (read_inode (nview N dev ?d))\<lparr>i_next := y\<rparr>"
    using c(3) f(3) unfolding created_def by auto
  have b: "read_inode (?V' b) = ?i" "b \<notin> used IMAP dev i N" "root_of N' i = ?d"
    using c(3) f(3) same_geom_fields(3) [of "mst N i" "mst N' i" IMAP] by (auto simp: created_def)
  have root: "root_ok ?V' dev ?d" using assms(5) m(5) by (simp add: root_ok_def name_of_def)
  have "may_search ?V' dev P ?d" using assms(5,8) m(5) rwx_rx by (simp add: may_search_def may_change_def root_ok_def)
  moreover have "dir_maps ?V' dev ?K ?d ms'" using m(1-3) by (simp add: dir_maps_def dir_at_def)
  ultimately have l: "leads ?V' dev P ?K (root_of N' i) (comps p) b" using m(4) assms(2) b(3) by auto
  have inv: "master_get (nm_fs N') dev = Some i" "room_for N' (Suc (n + ?K * length (comps p)))" using c(2) assms(2) by (simp_all add: fio_def fs_inv_def add_ac)
  have "\<exists>N''. inode_get P N' dev cwd p do_readlink mode res = Some (INODE_OK, read_inode (?V' b), N'') \<and> only_read N' N'' \<and> room_for N'' n"
    by (rule inode_get_leads [OF assms(1) _ inv(1) _ l _ _ _ inv(2)]) (use assms(2,10,11) b f(5) root in auto)
  then show ?thesis using c(1,3) b by auto
qed

subsection \<open>A small file system with room for inodes\<close>

lemma roomy_fs:
  obtains s where "opened 1310720 s"
proof -
  have "(3407872 - TWOMEG) mod 512 = (0 :: u32)" by simp
  then obtain s where "opened (3407872 - TWOMEG) s" using mkfs_open [OF boot_fs_ok] by metis
  then show thesis using that by simp
qed

lemma roomy_layout:
  assumes o: "opened 1310720 s"
  shows "fio s 0 0 125 512" "map_len IMAP (master_tab s ! 0) = 1" "map_len BMAP (master_tab s ! 0) = 1"
    "unat (bmap_map_end (master_tab s ! 0)) = 4099" "inode_start (master_tab s ! 0) = 4099" "unat (data_start (master_tab s ! 0)) = 4611"
proof -
  note L = make_master_layout [of BLOCK_START 1310720 "free_master\<lparr>m_dev := 0\<rparr>", folded new_master_def]
  have m: "map_end w (master_tab s ! 0) = map_end w (new_master BLOCK_START 1310720)" "map_first w (master_tab s ! 0) = map_first w (new_master BLOCK_START 1310720)" for w
    using o unfolding opened_def by blast+
  show e: "unat (bmap_map_end (master_tab s ! 0)) = 4099" "unat (data_start (master_tab s ! 0)) = 4611"
    using L(2-8) m(1) [of BMAP] m(2) [of BMAP] by simp_all
  show "inode_start (master_tab s ! 0) = 4099" using L m(2) [of IMAP] by (simp add: word_unat_eq_iff)
  show l: "map_len IMAP (master_tab s ! 0) = 1" "map_len BMAP (master_tab s ! 0) = 1" using opened_len [OF o] by simp_all
  have "fs_inv s 0 0 125" "recorded BMAP s 0 0 = {}" using o by (simp_all add: opened_def)
  then show "fio s 0 0 125 512" using e l by (simp add: fio_def data_room_def)
qed

text \<open>The first block taken of a fresh file system is the first of its region.\<close>

lemma first_block:
  assumes o: "opened sz s" and g: "map_get_block w s 0 x = Some (INODE_OK, b, s')"
  shows "b = map_first w (master_tab s ! 0)"
proof -
  have inv: "fs_inv s 0 0 (Suc (Suc 123))" and f: "allocated w s 0 0 = {}" "map_ptr w (master_tab s ! 0) = map_start w (master_tab s ! 0)" "map_pos w (master_tab s ! 0) = 0"
    using o by (simp_all add: opened_def)
  have "0 < map_len w (master_tab s ! 0)" using opened_len [OF o] by (cases w) (simp_all add: less_max_iff_disj)
  then have z: "bit_get (map_memory w s ! 0) (unat (0 :: u32)) = 0"
    using f(1,2) allocated_iff [of 0 w s 0 0] bit_get_01 [of "map_memory w s ! 0" 0] by (auto simp: Let_def)
  have "map_slot w s 0 = Some 0" using fs_invD(11) [OF inv] .
  then have "map_get_block w s 0 x = map_take w s 0 0 (map_ptr w (master_tab s ! 0)) 0"
    using fs_invD(6) [OF inv] z f(3) by (simp add: map_get_block_def map_ensure_open [OF inv] map_scan.simps)
  moreover obtain s2 where "map_take w s 0 0 (map_ptr w (master_tab s ! 0)) 0 =
      Some (INODE_OK, map_first w (master_tab s ! 0) + (map_ptr w (master_tab s ! 0) - map_start w (master_tab s ! 0)) * 512 + 0, s2)"
    by (rule map_take_step [OF inv _ z]) simp_all
  ultimately show ?thesis using g f(2) by simp
qed

definition bare_root :: inode where
  "bare_root = demo_root\<lparr>i_next := INODE_NULL\<rparr>"

lemma bare_root_ok:
  "inode_wf bare_root" "cstr (i_path bare_root) = [slash]" "self bare_root = 4099" "i_next bare_root = INODE_NULL" "is_directory bare_root = 1"
  "is_symlink bare_root = 0" "inode_check_permissions bare_root 0 0 0 0 INODE_RWX"
  using demo_tree_wf demo_root_fields
  by (simp_all add: bare_root_def inode_wf_def)
    (simp add: demo_root_def demo_inode_def inode_check_permissions_def class_check_def read_inode_def fld_zeros chunk_def)

lemma bare_names:
  obtains N where "nio N 0 0 120 1" "free_inodes N 0 0 1" "root_of N 0 = 4099" "dir_at N 0 0 4099 []" "nview N 0 4099 = inode_image bare_root"
    "map_len IMAP (mst N 0) = 1" "map_len BMAP (mst N 0) = 1"
proof -
  obtain s where o: "opened 1310720 s" by (rule roomy_fs)
  note L = roomy_layout [OF o]
  let ?N = "\<lparr>nm_fs = s, nr_recursion = 0\<rparr>"
  have room: "nio ?N 0 0 (121 + iget_cost ?N 0) 512" "free_inodes ?N 0 0 (Suc 1)"
    using L o by (simp_all add: free_inodes_def inode_room_def opened_def)
  obtain b N1 where g: "\<And>x. inode_get_inode_block (nm_fs ?N) 0 x = Some (INODE_OK, b, nm_fs N1)" "nio N1 0 0 121 512"
      "after ?N N1 0 0 Map.empty {b} {}" "free_inodes N1 0 0 1"
    by (rule iget [OF room]) blast
  have b: "b = 4099" using first_block [OF o, of IMAP] g(1) L(5) by (simp add: inode_get_inode_block_def)
  have m1: "unat (bmap_map_end (mst N1 0)) = 4099" "root_of N1 0 = 4099"
    using g(3) same_geom_fields(2,3) [of "mst ?N 0" "mst N1 0"] L(4,5) by (simp_all add: after_def) (metis map_first.simps map_end.simps)+
  have ob: "outside (nm_fs N1) 0 0 4099" using m1 by (simp add: outside_def addr_ok_def)
  have r1: "nio N1 0 0 (Suc 120) 1" by (rule fio_mono [OF g(2)]) simp_all
  obtain N2 where w: "nm_write N1 0 4099 (inode_image bare_root) = Some (True, N2)" "nio N2 0 0 120 1" "after N1 N2 0 0 [4099 \<mapsto> inode_image bare_root] {} {}"
    by (rule nwrite [OF r1 ob, of "inode_image bare_root"]) (simp add: image_lengths bare_root_ok(1))
  have v: "nview N2 0 4099 = inode_image bare_root" using after_written [OF w(3) ob] by simp
  have ri: "read_inode (nview N2 0 4099) = bare_root" using v read_inode_image [OF bare_root_ok(1)] by simp
  have "4099 \<in> used IMAP 0 0 N2" using g(3) w(3) b by (auto simp: after_def)
  then have "dir_at N2 0 0 4099 []" by (simp add: dir_at_def ri bare_root_ok entries_def)
  moreover have "root_of N2 0 = 4099" using w(3) m1 same_geom_fields(3) [of "mst N1 0" "mst N2 0" IMAP] by (simp add: after_def)
  moreover have "free_inodes N2 0 0 1" using after_free [OF w(3)] g(4) by simp
  ultimately show thesis using that w(2) v after_cost [OF w(3)] after_cost [OF g(3)] L(2,3) by simp
qed

text \<open>A new file \<open>a\<close> of the user 0, for the examples.\<close>

abbreviation demo_args :: create_args where
  "demo_args \<equiv> \<lparr>c_mode = INODE_CREATE_FILE, c_perm = 420, c_umask = 0, c_group = 0, c_owner = 0\<rparr>"

lemma bare_search:
  assumes "nview N 0 4099 = inode_image bare_root"
  shows "root_ok (nview N 0) 0 4099" "may_change (nview N 0) 0 root_process 4099" "lookup (nview N 0) [] [97] = None" "name_ok [97]"
proof -
  have r: "read_inode (nview N 0 4099) = bare_root" using assms read_inode_image [OF bare_root_ok(1)] by simp
  show "root_ok (nview N 0) 0 4099" by (simp add: root_ok_def addr_ok_def name_of_def r bare_root_ok)
  show "may_change (nview N 0) 0 root_process 4099" by (simp add: may_change_def r bare_root_ok root_process_def)
  show "lookup (nview N 0) [] [97] = None" by (simp add: lookup_def entries_def)
  show "name_ok [97]" by (simp add: name_ok_def nul_free_def)
qed

theorem create_adds_name_witness:
  "\<exists>N N' b. create_last root_process N 0 demo_args [97] [] bare_root 4099 bare_root = Some (INODE_OK, N') \<and>
     created N N' 0 0 4099 [] [97] (new_inode 0 demo_args [97] b 4099)"
proof -
  obtain N where N: "nio N 0 0 120 1" "free_inodes N 0 0 1" "root_of N 0 = 4099" "dir_at N 0 0 4099 []" "nview N 0 4099 = inode_image bare_root"
    "map_len IMAP (mst N 0) = 1" "map_len BMAP (mst N 0) = 1" by (rule bare_names)
  note S = bare_search [OF N(5)]
  have r: "read_inode (nview N 0 4099) = bare_root" using N(5) read_inode_image [OF bare_root_ok(1)] by simp
  have room: "nio N 0 0 (107 + create_cost N 0 0 []) (Suc 0)" "free_inodes N 0 0 (Suc 0)" using N(1,2,6,7) by (simp_all add: entries_def)
  show ?thesis
    using create_adds_name [OF N(4) room S(2-4), of demo_args "[]" bare_root] by (auto simp: r root_process_def)
qed

theorem create_then_get_witness:
  "\<exists>N N' N'' b. inode_create root_process N 0 4099 [slash, 97] demo_args None = Some (INODE_OK, N') \<and>
     inode_get root_process N' 0 4099 [slash, 97] True INODE_DONTCHECKPERMS bare_root = Some (INODE_OK, new_inode 0 demo_args [97] b 4099, N'')"
proof -
  obtain N where N: "nio N 0 0 120 1" "free_inodes N 0 0 1" "root_of N 0 = 4099" "dir_at N 0 0 4099 []" "nview N 0 4099 = inode_image bare_root"
    "map_len IMAP (mst N 0) = 1" "map_len BMAP (mst N 0) = 1" by (rule bare_names)
  note S = bare_search [OF N(5)]
  have room: "nio N 0 0 (101 + create_cost N 0 0 [] + 6 + length [] + length (entries (nview N 0) [])) (Suc 0)" "free_inodes N 0 0 (Suc 0)"
    using N(1,2,6,7) by (simp_all add: entries_def)
  have "inode_check_permissions i 0 0 g w INODE_DONTCHECKPERMS" for i g w by (simp add: inode_check_permissions_def)
  then show ?thesis
    using create_then_get [of "[slash, 97]" "[97]" N 0 0 "[]" 101 0 0 root_process demo_args INODE_DONTCHECKPERMS 4099 True bare_root]
      demo_paths(1,2) S N(3,4) room by (auto simp: root_process_def)
qed

text \<open>
  A name the directory already has is not created again: \<open>create_last\<close> fails with \<open>EEXIST\<close>, whatever is to be created, and nothing a
  reader sees changes.
\<close>

theorem create_existing_fails:
  assumes "dir_chain (nview N dev) dev (i_next (read_inode (nview N dev d))) ms" "may_change (nview N dev) dev P d"
    and "lookup (nview N dev) ms c = Some e" "room_for N (n + length ms + length (entries (nview N dev) ms))"
  shows "\<exists>N'. create_last P N dev A c path (read_inode (nview N dev d)) d t = Some (INODE_FAIL, N') \<and>
    fs_errno (nm_fs N') = EEXIST \<and> only_read N N' \<and> room_for N' n"
proof -
  let ?d = "read_inode (nview N dev d)"
  have ms: "ms \<noteq> []" using assms(3) by (auto simp: lookup_def entries_def)
  have nz: "e \<noteq> INODE_NULL" "i_next ?d \<noteq> INODE_NULL"
    using dir_chain_entries [OF assms(1)] lookup_entry [OF assms(3)] dir_chain_next [OF assms(1) ms] by blast+
  obtain t' N' where "scan_dir N dev c (i_next ?d) t = Some (True, e, t', N')" "room_for N' n" "only_read N N'"
    using scan_dir_ok [OF assms(4,1) ms, of c t] assms(3) by auto
  then show ?thesis using assms(2) nz only_read_errno [of N N' EEXIST]
    by (auto simp: create_last_def follow_dir_def may_change_def inode_check_permissions_def nm_errno_def)
qed

theorem create_existing_fails_witness:
  "\<exists>N N'. create_last root_process N 0 demo_args [97] [] demo_root 4099 bare_root = Some (INODE_FAIL, N') \<and> fs_errno (nm_fs N') = EEXIST"
proof -
  obtain N where N: "room_for N 122" "master_get (nm_fs N) 0 = Some 0" "inode_start (master_tab (nm_fs N) ! 0) = 4099"
    "nview N 0 4099 = inode_image demo_root" "nview N 0 4300 = bmap_image demo_map" "nview N 0 4100 = inode_image demo_dir"
    by (rule demo_names)
  note d = demo_search [OF N(4-6)]
  have r: "read_inode (nview N 0 4099) = demo_root" using N(4) read_inode_image [OF demo_tree_wf(1)] by simp
  have ch: "dir_chain (nview N 0) 0 (i_next demo_root) [4300]" "length (entries (nview N 0) [4300]) \<le> 1" using d(3) r by (simp_all add: dir_maps_def)
  have "inode_check_permissions demo_root 0 0 0 0 INODE_RWX"
    by (simp add: demo_root_def demo_inode_def inode_check_permissions_def class_check_def read_inode_def fld_zeros chunk_def)
  then have m: "may_change (nview N 0) 0 root_process 4099" by (simp add: may_change_def r demo_root_fields root_process_def)
  have "room_for N (100 + length [4300 :: u32] + length (entries (nview N 0) [4300]))" by (rule cache_inv_mono [OF N(1)]) (use ch(2) in simp)
  then show ?thesis
    using create_existing_fails [OF _ m d(4), of 100 demo_args "[]" bare_root] ch(1) unfolding r by auto
qed

end
