(* ===== verification/Inode_Free.thy ===== *)
theory Inode_Free
  imports Create_Spec
begin

text \<open>
  Freeing an inode (\<open>inode_free\<close> of \<open>fs/inode.c\<close>), the algorithm behind \<open>unlink\<close>, \<open>rmdir\<close> and \<open>rename\<close>: the entry is removed from the
  map of the parent directory, the inode block is given back, then what the inode holds, and a map of the directory that became empty.
\<close>

section \<open>What the inode holds\<close>

text \<open>The data blocks of one map, and the chain of maps of a file. Freed blocks are only marked in the map in memory.\<close>

primrec free_slots :: "u32 list \<Rightarrow> names \<Rightarrow> int \<Rightarrow> (bool \<times> names) option" where
  "free_slots [] N dev = Some (True, N)"
| "free_slots (b # bs) N dev =
     (if b = INODE_NULL then free_slots bs N dev
      else do {
        (r, s) \<leftarrow> inode_free_data_block (nm_fs N) dev b;
        let N = N\<lparr>nm_fs := s\<rparr>;
        if r \<noteq> INODE_OK then Some (False, nm_errno EACCES N) else free_slots bs N dev
      })"

partial_function (option) free_maps :: "names \<Rightarrow> int \<Rightarrow> u32 \<Rightarrow> (bool \<times> names) option" where
  "free_maps N dev j =
     (if j = INODE_NULL then Some (True, N)
      else do {
        (ok, buf, N) \<leftarrow> nm_read N dev j;
        if \<not> ok then Some (False, N)
        else do {
          (ok, N) \<leftarrow> free_slots (bm_blocks (read_bmap buf) @ [j]) N dev;
          if \<not> ok then Some (False, N) else free_maps N dev (bm_next (read_bmap buf))
        }
      })"

text \<open>A hard link lowers the count of the file it leads to.\<close>

definition drop_link :: "proc_ids \<Rightarrow> names \<Rightarrow> int \<Rightarrow> u32 \<Rightarrow> u32 \<Rightarrow> (bool \<times> names) option" where
  "drop_link P N dev cwd nx =
     (if nx = INODE_NULL then Some (False, nm_errno EACCES N)
      else do {
        (ok, buf, N) \<leftarrow> nm_read N dev nx;
        if \<not> ok then Some (False, N)
        else do {
          (r, t, N) \<leftarrow> inode_get P N dev cwd (cstr (l_path (read_link buf))) False INODE_RW (read_inode (zeros DEV_BLOCK_SIZE));
          if r \<noteq> INODE_OK then Some (False, nm_errno EACCES N)
          else nm_write N dev (self t) (inode_image (t\<lparr>refcount := refcount t - 1\<rparr>))
        }
      })"

definition free_content :: "proc_ids \<Rightarrow> names \<Rightarrow> int \<Rightarrow> u32 \<Rightarrow> inode \<Rightarrow> (bool \<times> names) option" where
  "free_content P N dev cwd i =
     (if is_file i \<noteq> 0 then free_maps N dev (i_next i)
      else if is_directory i \<noteq> 0 then Some (True, N)
      else if is_symlink i \<noteq> 0 then free_slots [i_next i] N dev
      else if is_hardlink i \<noteq> 0 then drop_link P N dev cwd (i_next i)
      else Some (True, N))"

text \<open>\<open>strncpy (buf, s, MAX_PATH)\<close> writes two bytes 0 behind \<open>s\<close>; \<open>None\<close> when they are written behind the buffer.\<close>

definition strncpy_path :: "bytes \<Rightarrow> bytes \<Rightarrow> bytes option" where
  "strncpy_path buf s = (if length s + 2 > MAX_PATH then None else Some (s @ [0, 0] @ drop (length s + 2) buf))"

text \<open>For \<open>rename\<close> the new inode takes over everything but its name and its place.\<close>

definition take_over :: "inode \<Rightarrow> inode \<Rightarrow> inode option" where
  "take_over i n =
     (if is_file i = 0 \<and> is_directory i = 0 \<and> is_symlink i = 0 \<and> is_hardlink i = 0 then Some n
      else do {
        p \<leftarrow> strncpy_path (i_path i) (cstr (i_path n));
        Some (i\<lparr>i_path := p, self := self n, parent := parent n\<rparr>)
      })"

section \<open>The maps of the directory\<close>

text \<open>
  The first empty map is unlinked. At the front of the list with maps behind it the code compares where it means to assign, so the
  directory still leads to the freed map.
\<close>

partial_function (option) trim_loop :: "names \<Rightarrow> int \<Rightarrow> inode \<Rightarrow> u32 \<Rightarrow> u32 \<Rightarrow> (bool \<times> names) option" where
  "trim_loop N dev par prev cur =
     (if cur = INODE_NULL then Some (True, N)
      else do {
        (ok, buf, N) \<leftarrow> nm_read N dev cur;
        let bm = read_bmap buf;
        if \<not> ok then Some (False, N)
        else if \<not> list_all (\<lambda>b. b = INODE_NULL) (bm_blocks bm) then trim_loop N dev par cur (bm_next bm)
        else do {
          let par = (if prev = cur \<and> bm_next bm = INODE_NULL then par\<lparr>i_next := INODE_NULL\<rparr> else par);
          (ok, N) \<leftarrow> (if prev = cur then Some (True, N)
             else do {
               (ok, buf, N) \<leftarrow> nm_read N dev prev;
               if \<not> ok then Some (False, N)
               else nm_write N dev prev (bmap_image ((read_bmap buf)\<lparr>bm_next := bm_next bm\<rparr>))
             });
          if \<not> ok then Some (False, N)
          else do {
            (ok, N) \<leftarrow> free_slots [cur] N dev;
            if \<not> ok then Some (False, N) else nm_write N dev (self par) (inode_image par)
          }
        }
      })"

definition entry_place :: "u32 \<Rightarrow> u32 list \<Rightarrow> nat option" where
  "entry_place b bs = first_from (\<lambda>j. b = bs ! j) 0 (length bs)"

text \<open>The entry is removed; \<open>nn\<close> is the new inode of \<open>rename\<close>.\<close>

definition remove_entry :: "proc_ids \<Rightarrow> names \<Rightarrow> int \<Rightarrow> u32 \<Rightarrow> inode \<Rightarrow> inode \<Rightarrow> inode option \<Rightarrow> u32 \<Rightarrow> block_map \<Rightarrow> nat \<Rightarrow>
    (inode_rtvl \<times> inode option \<times> names) option" where
  "remove_entry P N dev cwd i par nn cur bm j = do {
     (r, s) \<leftarrow> inode_free_inode_block (nm_fs N) dev (self i);
     let N = N\<lparr>nm_fs := s\<rparr>;
     if r \<noteq> INODE_OK then Some (INODE_FAIL, nn, N)
     else do {
       (r, c) \<leftarrow> block_write (fs_cache (nm_fs N)) dev cur (bmap_image (bm\<lparr>bm_blocks := (bm_blocks bm)[j := INODE_NULL]\<rparr>));
       let N = N\<lparr>nm_fs := (nm_fs N)\<lparr>fs_cache := c\<rparr>\<rparr>;
       if r \<noteq> BLOCK_OK then Some (INODE_FAIL, nn, N)
       else do {
         (ok, nn, N) \<leftarrow> (case nn of
            Some n \<Rightarrow> do { n \<leftarrow> take_over i n; Some (True, Some n, N) }
          | None \<Rightarrow> do { (ok, N) \<leftarrow> free_content P N dev cwd i; Some (ok, None, N) });
         if \<not> ok then Some (INODE_FAIL, nn, N)
         else do {
           (ok, N) \<leftarrow> trim_loop N dev par (i_next par) (i_next par);
           Some (if ok then INODE_OK else INODE_FAIL, nn, N)
         }
       }
     }
   }"

partial_function (option) unlink_loop :: "proc_ids \<Rightarrow> names \<Rightarrow> int \<Rightarrow> u32 \<Rightarrow> inode \<Rightarrow> inode \<Rightarrow> inode option \<Rightarrow> u32 \<Rightarrow>
    (inode_rtvl \<times> inode option \<times> names) option" where
  "unlink_loop P N dev cwd i par nn cur = do {
     (ok, buf, N) \<leftarrow> nm_read N dev cur;
     let bm = read_bmap buf;
     if \<not> ok then Some (INODE_FAIL, nn, N)
     else case entry_place (self i) (bm_blocks bm) of
       Some j \<Rightarrow> remove_entry P N dev cwd i par nn cur bm j
     | None \<Rightarrow> if bm_next bm \<noteq> INODE_NULL then unlink_loop P N dev cwd i par nn (bm_next bm)
         else Some (INODE_INCONSISTENT, nn, N)
   }"

section \<open>The call\<close>

definition inode_free :: "proc_ids \<Rightarrow> names \<Rightarrow> int \<Rightarrow> u32 \<Rightarrow> bytes \<Rightarrow> inode option \<Rightarrow> (inode_rtvl \<times> inode option \<times> names) option" where
  "inode_free P N dev cwd path nn =
     (if length path > MAX_PATH then Some (INODE_FAIL, nn, nm_errno ENAMETOOLONG N)
      else if length path = MAX_PATH then None
      else do {
        (r, i, N) \<leftarrow> inode_get P N dev cwd path False INODE_DONTCHECKPERMS (read_inode (zeros DEV_BLOCK_SIZE));
        if r \<noteq> INODE_OK then Some (r, nn, N)
        else if nn = None \<and> is_directory i \<noteq> 0 \<and> i_next i \<noteq> INODE_NULL then Some (INODE_FAIL, nn, nm_errno EACCES N)
        else if nn = None \<and> is_file i \<noteq> 0 \<and> refcount i > 0 then Some (INODE_PARAM, nn, nm_errno EEXIST N)
        else do {
          (ok, buf, N) \<leftarrow> nm_read N dev (parent i);
          let par = read_inode buf;
          if \<not> ok then Some (INODE_FAIL, nn, N)
          else do {
            (r, s) \<leftarrow> inode_set_parent_mod_time (now P) (nm_fs N) dev (self par);
            let N = N\<lparr>nm_fs := s\<rparr>;
            if r \<noteq> INODE_OK then Some (INODE_FAIL, nn, nm_errno EINVAL N)
            else unlink_loop P N dev cwd i par nn (i_next par)
          }
        }
      })"

end
