(* ===== verification/Path_Calls.thy ===== *)
theory Path_Calls
  imports File_Desc Inode_Free
begin

text \<open>
  The system calls that take a path (\<open>fs/file.c\<close>): \<open>open\<close>, \<open>creat\<close>, \<open>unlink\<close>, \<open>rename\<close>, \<open>stat\<close>, \<open>lstat\<close>, \<open>chmod\<close>, \<open>chown\<close>, \<open>lchown\<close>,
  \<open>utime\<close>, \<open>chdir\<close>, \<open>getcwd\<close>. Their state is that of the descriptor calls together with the depth \<open>kreadlink\<close> keeps.
\<close>

abbreviation (input) EFAULT :: int where "EFAULT \<equiv> 14"
abbreviation (input) ERANGE :: int where "ERANGE \<equiv> 34"

record pcalls =
  pc_files :: files
  pc_nr :: nat

definition in_names :: "pcalls \<Rightarrow> names" where
  "in_names C = \<lparr>nm_fs = fl_fs (pc_files C), nr_recursion = pc_nr C\<rparr>"

definition with_names :: "pcalls \<Rightarrow> names \<Rightarrow> pcalls" where
  "with_names C N = C\<lparr>pc_files := (pc_files C)\<lparr>fl_fs := nm_fs N\<rparr>, pc_nr := nr_recursion N\<rparr>"

definition call_errno :: "int \<Rightarrow> pcalls \<Rightarrow> pcalls" where
  "call_errno e C = C\<lparr>pc_files := set_errno e (pc_files C)\<rparr>"

definition call_dev :: "nat \<Rightarrow> pcalls \<Rightarrow> int" where
  "call_dev nl C = master_get_dev nl (fl_fs (pc_files C))"

text \<open>The calls of the inode layer, from the current directory of the process.\<close>

definition call_get :: "proc_ids \<Rightarrow> pcalls \<Rightarrow> int \<Rightarrow> bytes \<Rightarrow> bool \<Rightarrow> inode_mode \<Rightarrow> (inode_rtvl \<times> inode \<times> pcalls) option" where
  "call_get P C dev path dr mode = do {
     (r, i, N) \<leftarrow> inode_get P (in_names C) dev (cwd (pc_files C)) path dr mode zero_inode;
     Some (r, i, with_names C N)
   }"

definition call_create :: "proc_ids \<Rightarrow> pcalls \<Rightarrow> int \<Rightarrow> bytes \<Rightarrow> inode_mode \<Rightarrow> u32 \<Rightarrow> (inode_rtvl \<times> pcalls) option" where
  "call_create P C dev path mode perm = do {
     (r, N) \<leftarrow> inode_create P (in_names C) dev (cwd (pc_files C)) path
       \<lparr>c_mode = mode, c_perm = perm, c_umask = umask (pc_files C), c_group = p_group P, c_owner = p_owner P\<rparr> None;
     Some (r, with_names C N)
   }"

definition call_free :: "proc_ids \<Rightarrow> pcalls \<Rightarrow> int \<Rightarrow> bytes \<Rightarrow> inode option \<Rightarrow> (inode_rtvl \<times> inode option \<times> pcalls) option" where
  "call_free P C dev path nn = do {
     (r, nn, N) \<leftarrow> inode_free P (in_names C) dev (cwd (pc_files C)) path nn;
     Some (r, nn, with_names C N)
   }"

section \<open>open and creat\<close>

text \<open>Without an access flag the mode is 0, which is no mode: every access check fails.\<close>

definition open_access :: "u32 \<Rightarrow> inode_mode \<times> u32" where
  "open_access flags =
     (let m = (INODE_INVALID_MODE, 0 :: u32);
          m = (if flags AND 1 \<noteq> 0 then (INODE_READ, snd m OR S_IRUSR) else m);
          m = (if flags AND 2 \<noteq> 0 then (INODE_WRITE, snd m OR S_IWUSR) else m) in
      if flags AND 4 \<noteq> 0 \<or> flags AND 512 \<noteq> 0 then (INODE_RW, snd m OR S_IRUSR OR S_IWUSR) else m)"

definition open_with :: "nat \<Rightarrow> proc_ids \<Rightarrow> pcalls \<Rightarrow> bytes \<Rightarrow> u32 \<Rightarrow> u32 \<Rightarrow> (int \<times> pcalls) option" where
  "open_with nl P C path flags perm = do {
     let dev = call_dev nl C;
     let imode = fst (open_access flags);
     (r, i, C) \<leftarrow> call_get P C dev path True imode;
     (ok, i, C) \<leftarrow>
       (if r = INODE_OK then Some (True, i, C)
        else if flags AND 64 \<noteq> 0
        then do {
          (r, C) \<leftarrow> call_create P C dev path INODE_CREATE_FILE perm;
          if r \<noteq> INODE_OK then Some (False, i, C)
          else do {
            (r, i, C) \<leftarrow> call_get P C dev path True imode;
            Some (r = INODE_OK, i, C)
          }
        }
        else Some (False, i, C));
     if \<not> ok then Some (- 1, call_errno EACCES C)
     else do {
       (fd, F) \<leftarrow> open_inode (now P) (pc_files C) dev flags i;
       Some (fd, C\<lparr>pc_files := F\<rparr>)
     }
   }"

definition kopen :: "nat \<Rightarrow> proc_ids \<Rightarrow> pcalls \<Rightarrow> bytes \<Rightarrow> u32 \<Rightarrow> (int \<times> pcalls) option" where
  "kopen nl P C path flags = open_with nl P C path flags (snd (open_access flags))"

definition kopen2 :: "nat \<Rightarrow> proc_ids \<Rightarrow> pcalls \<Rightarrow> bytes \<Rightarrow> u32 \<Rightarrow> u32 \<Rightarrow> (int \<times> pcalls) option" where
  "kopen2 nl P C path flags mode = open_with nl P C path flags mode"

text \<open>\<open>creat\<close> takes the descriptor before it reads the inode, and keeps it when that fails.\<close>

definition kcreat :: "nat \<Rightarrow> proc_ids \<Rightarrow> pcalls \<Rightarrow> bytes \<Rightarrow> u32 \<Rightarrow> (int \<times> pcalls) option" where
  "kcreat nl P C path mode = do {
     let dev = call_dev nl C;
     (r, C) \<leftarrow> call_create P C dev path INODE_CREATE_FILE mode;
     if r \<noteq> INODE_OK then Some (- 1, call_errno EACCES C)
     else case fd_alloc (pc_files C) of
       None \<Rightarrow> Some (- 1, call_errno EMFILE C)
     | Some (fd, k) \<Rightarrow> do {
         let C = C\<lparr>pc_files := set_desc (pc_files C) fd (Some k)\<rparr>;
         (r, i, C) \<leftarrow> call_get P C dev path True (inode_get_mode mode (umask (pc_files C)));
         if r \<noteq> INODE_OK then Some (- 1, call_errno EMFILE C)
         else let i = i\<lparr>current := INODE_NULL, i_pos := 0, current_parent := INODE_NULL, iblock := 0, i_dev := word_of_int dev\<rparr> in
           Some (int fd, C\<lparr>pc_files := put_file (pc_files C) k i (fl_fs (pc_files C))\<rparr>)
       }
   }"

section \<open>unlink and rename\<close>

definition kunlink :: "nat \<Rightarrow> proc_ids \<Rightarrow> pcalls \<Rightarrow> bytes \<Rightarrow> (int \<times> pcalls) option" where
  "kunlink nl P C path = do {
     (r, nn, C) \<leftarrow> call_free P C (call_dev nl C) path None;
     Some (if r \<noteq> INODE_OK then - 1 else 0, C)
   }"

definition call_write :: "pcalls \<Rightarrow> int \<Rightarrow> inode \<Rightarrow> (int \<times> pcalls) option" where
  "call_write C dev i = do {
     (ok, N) \<leftarrow> nm_write (in_names C) dev (self i) (inode_image i);
     Some (if ok then 0 else - 1, with_names C N)
   }"

definition krename :: "nat \<Rightarrow> proc_ids \<Rightarrow> pcalls \<Rightarrow> bytes \<Rightarrow> bytes \<Rightarrow> (int \<times> pcalls) option" where
  "krename nl P C oldpath newpath = do {
     let dev = call_dev nl C;
     (r, i, C) \<leftarrow> call_get P C dev oldpath True INODE_DONTCHECKPERMS;
     if r \<noteq> INODE_OK then Some (- 1, C)
     else do {
       (r, C) \<leftarrow> call_create P C dev newpath INODE_CREATE_FILE (inode_get_permissions i);
       if r \<noteq> INODE_OK then Some (- 1, C)
       else do {
         (r, n, C) \<leftarrow> call_get P C dev newpath True INODE_DONTCHECKPERMS;
         if r \<noteq> INODE_OK then Some (- 1, C)
         else do {
           (r, nn, C) \<leftarrow> call_free P C dev oldpath (Some n);
           if r \<noteq> INODE_OK then Some (- 1, C) else call_write C dev (case nn of Some n \<Rightarrow> n | None \<Rightarrow> n)
         }
       }
     }
   }"

section \<open>stat, chmod, chown, utime\<close>

definition stat_path :: "nat \<Rightarrow> proc_ids \<Rightarrow> pcalls \<Rightarrow> bytes \<Rightarrow> bool \<Rightarrow> stat option \<Rightarrow> (int \<times> stat option \<times> pcalls) option" where
  "stat_path nl P C path dr buf =
     (let dev = call_dev nl C in
      if buf = None then Some (- 1, buf, call_errno EINVAL C)
      else do {
        (r, i, C) \<leftarrow> call_get P C dev path dr INODE_DONTCHECKPERMS;
        Some (if r \<noteq> INODE_OK then (- 1, buf, call_errno EMFILE C) else (0, Some (fill_stat dev i), C))
      })"

definition kstat :: "nat \<Rightarrow> proc_ids \<Rightarrow> pcalls \<Rightarrow> bytes \<Rightarrow> stat option \<Rightarrow> (int \<times> stat option \<times> pcalls) option" where
  "kstat nl P C path buf = stat_path nl P C path True buf"

definition klstat :: "nat \<Rightarrow> proc_ids \<Rightarrow> pcalls \<Rightarrow> bytes \<Rightarrow> stat option \<Rightarrow> (int \<times> stat option \<times> pcalls) option" where
  "klstat nl P C path buf = stat_path nl P C path False buf"

text \<open>A change of an inode and its write.\<close>

definition change_inode :: "nat \<Rightarrow> proc_ids \<Rightarrow> pcalls \<Rightarrow> bytes \<Rightarrow> bool \<Rightarrow> (inode \<Rightarrow> inode) \<Rightarrow> (int \<times> pcalls) option" where
  "change_inode nl P C path dr f = do {
     let dev = call_dev nl C;
     (r, i, C) \<leftarrow> call_get P C dev path dr INODE_DONTCHECKPERMS;
     if r \<noteq> INODE_OK then Some (- 1, call_errno EMFILE C) else call_write C dev (f i)
   }"

definition kchmod :: "nat \<Rightarrow> proc_ids \<Rightarrow> pcalls \<Rightarrow> bytes \<Rightarrow> u32 \<Rightarrow> (int \<times> pcalls) option" where
  "kchmod nl P C path mode =
     change_inode nl P C path True (\<lambda>i. (inode_set_permissions i mode (umask (pc_files C)))\<lparr>modified_time := now P\<rparr>)"

definition kchown :: "nat \<Rightarrow> proc_ids \<Rightarrow> pcalls \<Rightarrow> bytes \<Rightarrow> u32 \<Rightarrow> u32 \<Rightarrow> (int \<times> pcalls) option" where
  "kchown nl P C path own grp = change_inode nl P C path True (\<lambda>i. i\<lparr>i_owner := own, i_group := grp, modified_time := now P\<rparr>)"

definition klchown :: "nat \<Rightarrow> proc_ids \<Rightarrow> pcalls \<Rightarrow> bytes \<Rightarrow> u32 \<Rightarrow> u32 \<Rightarrow> (int \<times> pcalls) option" where
  "klchown nl P C path own grp = change_inode nl P C path False (\<lambda>i. i\<lparr>i_owner := own, i_group := grp, modified_time := now P\<rparr>)"

definition kutime :: "nat \<Rightarrow> proc_ids \<Rightarrow> pcalls \<Rightarrow> bytes \<Rightarrow> (u32 \<times> u32) option \<Rightarrow> (int \<times> pcalls) option" where
  "kutime nl P C path buf =
     (case buf of
        None \<Rightarrow> Some (- 1, call_errno EINVAL C)
      | Some (actime, modtime) \<Rightarrow> do {
          let dev = call_dev nl C;
          (r, i, C) \<leftarrow> call_get P C dev path True INODE_DONTCHECKPERMS;
          if r \<noteq> INODE_OK then Some (- 1, C)
          else call_write C dev (i\<lparr>accessed_time := actime, modified_time := modtime\<rparr>)
        })"

section \<open>The current directory\<close>

definition kchdir :: "nat \<Rightarrow> proc_ids \<Rightarrow> pcalls \<Rightarrow> bytes \<Rightarrow> (int \<times> pcalls) option" where
  "kchdir nl P C path = do {
     (r, i, C) \<leftarrow> call_get P C (call_dev nl C) path True INODE_DONTCHECKPERMS;
     Some (if r \<noteq> INODE_OK then (- 1, call_errno EMFILE C)
       else if is_directory i \<noteq> 0 then (0, C\<lparr>pc_files := (pc_files C)\<lparr>cwd := self i\<rparr>\<rparr>)
       else (- 1, C))
   }"

text \<open>
  The name of the current directory: its own name, resolved against the root, whatever directories it lies in. A device without a file system
  gives a null pointer.
\<close>

definition kget_current_dir_name :: "nat \<Rightarrow> pcalls \<Rightarrow> (bytes option \<times> pcalls) option" where
  "kget_current_dir_name nl C =
     (let dev = call_dev nl C in
      do {
        (ok, buf, N) \<leftarrow> nm_read (in_names C) dev (cwd (pc_files C));
        let C = with_names C N;
        if \<not> ok then Some (None, C)
        else do {
          m \<leftarrow> master_get (nm_fs N) dev;
          (r, s) \<leftarrow> krealpath (nm_fs N) dev (inode_start (master_tab (nm_fs N) ! m)) (cstr (i_path (read_inode buf)));
          let C = with_names C (N\<lparr>nm_fs := s\<rparr>);
          Some (case r of Inl e \<Rightarrow> (None, call_errno EACCES C) | Inr p \<Rightarrow> (Some p, call_errno 0 C))
        }
      })"

text \<open>The buffer has \<open>size\<close> bytes; the second byte 0 of \<open>strncpy\<close> lies behind it when the name fills it.\<close>

definition kgetcwd :: "nat \<Rightarrow> pcalls \<Rightarrow> nat option \<Rightarrow> (bytes option \<times> pcalls) option" where
  "kgetcwd nl C buf = do {
     (r, C) \<leftarrow> kget_current_dir_name nl C;
     case (r, buf) of
       (Some p, Some sz) \<Rightarrow>
         if sz = 0 then Some (None, call_errno EFAULT C)
         else if length p \<ge> sz then Some (None, call_errno ERANGE C)
         else if length p + 1 = sz then None
         else Some (Some p, C)
     | _ \<Rightarrow> Some (None, call_errno EFAULT C)
   }"

definition kgetwd :: "nat \<Rightarrow> pcalls \<Rightarrow> (bytes option \<times> pcalls) option" where
  "kgetwd nl C = do {
     (r, C) \<leftarrow> kget_current_dir_name nl C;
     Some (case r of None \<Rightarrow> (None, call_errno EFAULT C) | Some p \<Rightarrow> (Some p, C))
   }"

end
