(* ===== verification/Directory.thy ===== *)
theory Directory
  imports Path_Calls
begin

text \<open>
  The system calls on directories (\<open>fs/dir.c\<close>): \<open>opendir\<close>, \<open>closedir\<close>, \<open>rewinddir\<close>, \<open>readdir\<close>, \<open>mkdir\<close>, \<open>rmdir\<close>. A process has a table of
  open directories; a \<open>DIR\<close> pointer is the index of an entry.
\<close>

abbreviation (input) MAX_DIR :: nat where "MAX_DIR \<equiv> 1024"

record dirent =
  d_ino :: u32
  d_off :: u32
  d_reclen :: u16
  d_type :: u8
  d_name :: bytes

record dirstream =
  dir_fd :: int
  dir_data :: inode
  dir_allocation :: u32
  dir_offset :: u32
  dir_block_ptr :: u32
  dir_block :: u32
  dir_pathname :: bytes
  dir_entry :: dirent

record dirs =
  ds_calls :: pcalls
  dir_tab :: "dirstream list"

definition zero_entry :: dirent where
  "zero_entry = \<lparr>d_ino = 0, d_off = 0, d_reclen = 0, d_type = 0, d_name = []\<rparr>"

definition zero_dir :: dirstream where
  "zero_dir = \<lparr>dir_fd = 0, dir_data = zero_inode, dir_allocation = 0, dir_offset = 0, dir_block_ptr = 0, dir_block = 0,
     dir_pathname = zeros MAX_PATH, dir_entry = zero_entry\<rparr>"

definition upd_dir :: "dirs \<Rightarrow> nat \<Rightarrow> (dirstream \<Rightarrow> dirstream) \<Rightarrow> dirs" where
  "upd_dir S k f = S\<lparr>dir_tab := (dir_tab S)[k := f (dir_tab S ! k)]\<rparr>"

section \<open>Opening and closing\<close>

definition kopendir :: "nat \<Rightarrow> proc_ids \<Rightarrow> dirs \<Rightarrow> bytes \<Rightarrow> (nat option \<times> dirs) option" where
  "kopendir nl P S path =
     (let dev = call_dev nl (ds_calls S) in
      case first_from (\<lambda>k. dir_allocation (dir_tab S ! k) = 0) 0 MAX_DIR of
        None \<Rightarrow> Some (None, S)
      | Some k \<Rightarrow> do {
          let S = upd_dir S k (\<lambda>d. d\<lparr>dir_fd := int k, dir_allocation := 512\<rparr>);
          (r, i, N) \<leftarrow> inode_get P (in_names (ds_calls S)) dev (cwd (pc_files (ds_calls S))) path False INODE_RX (dir_data (dir_tab S ! k));
          let S = (upd_dir S k (\<lambda>d. d\<lparr>dir_data := i\<rparr>))\<lparr>ds_calls := with_names (ds_calls S) N\<rparr>;
          if r \<noteq> INODE_OK then Some (None, upd_dir S k (\<lambda>d. d\<lparr>dir_allocation := 0, dir_fd := 0\<rparr>))
          else do {
            p \<leftarrow> strncpy_path (dir_pathname (dir_tab S ! k)) path;
            Some (Some k, upd_dir S k (\<lambda>d. d\<lparr>dir_data := (dir_data d)\<lparr>accessed_time := now P\<rparr>, dir_pathname := p\<rparr>))
          }
        })"

text \<open>The copy of the inode is written back, whatever has become of the directory; a failure is only noted in \<open>errno\<close>.\<close>

definition kclosedir :: "nat \<Rightarrow> proc_ids \<Rightarrow> dirs \<Rightarrow> nat \<Rightarrow> (int \<times> dirs) option" where
  "kclosedir nl P S k =
     (let dev = call_dev nl (ds_calls S); fd = dir_fd (dir_tab S ! k) in
      if fd < 0 \<or> fd \<ge> int MAX_DIR then Some (- 1, S\<lparr>ds_calls := call_errno EINVAL (ds_calls S)\<rparr>)
      else do {
        let i = (dir_data (dir_tab S ! nat fd))\<lparr>accessed_time := now P\<rparr>;
        (ok, N) \<leftarrow> nm_write (in_names (ds_calls S)) dev (self i) (inode_image i);
        Some (0, (upd_dir S (nat fd) (\<lambda>d. zero_dir))\<lparr>ds_calls := with_names (ds_calls S) N\<rparr>)
      })"

definition krewinddir :: "dirs \<Rightarrow> nat \<Rightarrow> dirs" where
  "krewinddir S k =
     (let fd = dir_fd (dir_tab S ! k) in
      if fd < 0 \<or> fd \<ge> int MAX_DIR then S\<lparr>ds_calls := call_errno EINVAL (ds_calls S)\<rparr>
      else upd_dir S k (\<lambda>d. d\<lparr>dir_offset := 0\<rparr>))"

section \<open>Reading\<close>

text \<open>
  The name of an entry, put together by \<open>strncat\<close>: \<open>None\<close> when it is written behind its buffer. A string that is copied to its end leaves two
  bytes 0 behind it (\<open>z = 2\<close>), one that is cut at its length leaves one.
\<close>

definition entry_name :: "bytes \<Rightarrow> bytes \<Rightarrow> nat \<Rightarrow> bytes option" where
  "entry_name base name z =
     (if length base + 2 > MAX_PATH \<or> length base + 1 + length name + z > MAX_PATH then None else Some (base @ slash # name))"

definition entry_type :: "inode \<Rightarrow> u8" where
  "entry_type t =
     (if is_hardlink t \<noteq> 0 then 72 else if is_symlink t \<noteq> 0 then 83 else if is_file t \<noteq> 0 then 70
      else if is_directory t \<noteq> 0 then 68 else 0)"

text \<open>The walk to the map with the number \<open>k\<close>.\<close>

primrec seek_map :: "nat \<Rightarrow> names \<Rightarrow> int \<Rightarrow> dirstream \<Rightarrow> (bool \<times> dirstream \<times> names) option" where
  "seek_map 0 N dev d = Some (True, d, N)"
| "seek_map (Suc k) N dev d =
     (if dir_block d = INODE_NULL then Some (False, d, N)
      else do {
        (ok, buf, N) \<leftarrow> nm_read N dev (dir_block d);
        if \<not> ok then Some (False, d, N)
        else seek_map k N dev (d\<lparr>dir_block := bm_next (read_bmap buf), dir_block_ptr := dir_block_ptr d + 1\<rparr>)
      })"

text \<open>From the offset on: places without an entry are skipped; at the end of the chain there is nothing left.\<close>

partial_function (option) readdir_loop :: "names \<Rightarrow> int \<Rightarrow> dirstream \<Rightarrow> (bool \<times> dirstream \<times> names) option" where
  "readdir_loop N dev d =
     (let block = (dir_offset d - 2) div 127; j = unat ((dir_offset d - 2) mod 127) in
      if dir_block_ptr d = block \<and> dir_block d \<noteq> INODE_NULL
      then do {
        (ok, buf, N) \<leftarrow> nm_read N dev (dir_block d);
        let b = bm_blocks (read_bmap buf) ! j;
        if \<not> ok then Some (False, d, N)
        else if b = INODE_NULL then readdir_loop N dev (d\<lparr>dir_offset := dir_offset d + 1\<rparr>)
        else do {
          (ok, buf, N) \<leftarrow> nm_read N dev b;
          let t = read_inode buf;
          if \<not> ok then Some (False, d, nm_errno ENOENT N)
          else do {
            name \<leftarrow> entry_name (cstr (dir_pathname d)) (cstr (i_path t)) 2;
            Some (True, d\<lparr>dir_entry := \<lparr>d_ino = b, d_off = of_nat j, d_reclen = ucast (i_size t), d_type = entry_type t, d_name = name\<rparr>,
              dir_offset := dir_offset d + 1\<rparr>, N)
          }
        }
      }
      else do {
        (ok, d, N) \<leftarrow> seek_map (unat block) N dev (d\<lparr>dir_block_ptr := 0, dir_block := i_next (dir_data d)\<rparr>);
        if \<not> ok \<or> dir_block d = INODE_NULL then Some (False, d, N) else readdir_loop N dev d
      })"

text \<open>
  The offsets 0 and 1 stand for \<open>.\<close> and \<open>..\<close>, which have no type. The call does not check the number in the \<open>DIR\<close> before it uses it:
  \<open>None\<close> also stands for a number outside the table.
\<close>

definition kreaddir :: "nat \<Rightarrow> proc_ids \<Rightarrow> dirs \<Rightarrow> nat \<Rightarrow> (dirent option \<times> dirs) option" where
  "kreaddir nl P S k = do {
     let dev = call_dev nl (ds_calls S);
     let fd = dir_fd (dir_tab S ! k);
     j \<leftarrow> (if fd < 0 \<or> fd \<ge> int (length (dir_tab S)) then None else Some (nat fd));
     let S = upd_dir S j (\<lambda>d. d\<lparr>dir_data := (dir_data d)\<lparr>accessed_time := now P\<rparr>\<rparr>);
     let d = dir_tab S ! k;
     if dir_offset d = 0 \<or> dir_offset d = 1
     then do {
       name \<leftarrow> entry_name (cstr (dir_pathname d)) (if dir_offset d = 0 then [dot] else [dot, dot]) 1;
       let e = zero_entry\<lparr>d_name := name\<rparr>;
       Some (Some e, upd_dir S k (\<lambda>d. d\<lparr>dir_entry := e, dir_offset := dir_offset d + 1\<rparr>))
     }
     else do {
       (ok, d, N) \<leftarrow> readdir_loop (in_names (ds_calls S)) dev d;
       Some (if ok then Some (dir_entry d) else None, (upd_dir S k (\<lambda>_. d))\<lparr>ds_calls := with_names (ds_calls S) N\<rparr>)
     }
   }"

section \<open>mkdir and rmdir\<close>

definition krmdir :: "nat \<Rightarrow> proc_ids \<Rightarrow> pcalls \<Rightarrow> bytes \<Rightarrow> (int \<times> pcalls) option" where
  "krmdir nl P C path = do {
     (r, nn, C) \<leftarrow> call_free P C (call_dev nl C) path None;
     Some (if r \<noteq> INODE_OK then - 1 else 0, C)
   }"

definition kmkdir :: "nat \<Rightarrow> proc_ids \<Rightarrow> pcalls \<Rightarrow> bytes \<Rightarrow> u32 \<Rightarrow> (int \<times> pcalls) option" where
  "kmkdir nl P C path mode = do {
     (r, C) \<leftarrow> call_create P C (call_dev nl C) path INODE_CREATE_DIR mode;
     Some (if r \<noteq> INODE_OK then - 1 else 0, C)
   }"

section \<open>The entries in order\<close>

text \<open>All places of the maps of a directory, one list.\<close>

definition slots :: "(u32 \<Rightarrow> bytes) \<Rightarrow> u32 list \<Rightarrow> u32 list" where
  "slots V ms = concat (map (\<lambda>m. bm_blocks (read_bmap (V m))) ms)"

lemma entries_slots: "entries V ms = filter (\<lambda>b. b \<noteq> INODE_NULL) (slots V ms)"
  by (simp add: entries_def slots_def filter_concat comp_def)

lemma bm_blocks_length: "length (bm_blocks (read_bmap bs)) = 127"
  by (simp add: read_bmap_def)

lemma concat_nth:
  "(\<And>x. x \<in> set xss \<Longrightarrow> length x = n) \<Longrightarrow> q < length xss \<Longrightarrow> j < n \<Longrightarrow> concat xss ! (n * q + j) = xss ! q ! j"
proof (induction xss arbitrary: q)
  case (Cons x xss)
  have l: "length x = n" using Cons.prems(1) by simp
  show ?case
  proof (cases q)
    case 0
    then show ?thesis using Cons.prems l by (simp add: nth_append)
  next
    case (Suc p)
    have "concat xss ! (n * p + j) = xss ! p ! j" using Cons Suc by simp
    then show ?thesis using Suc l by (simp add: nth_append algebra_simps)
  qed
qed simp

lemma slots_length: "length (slots V ms) = 127 * length ms"
  by (induction ms) (simp_all add: slots_def bm_blocks_length)

lemma slots_nth: "q < 127 * length ms \<Longrightarrow> slots V ms ! q = bm_blocks (read_bmap (V (ms ! (q div 127)))) ! (q mod 127)"
proof -
  assume "q < 127 * length ms"
  moreover have "length x = 127" if "x \<in> set (map (\<lambda>m. bm_blocks (read_bmap (V m))) ms)" for x
    using that by (auto simp: bm_blocks_length)
  ultimately show ?thesis
    using concat_nth [of "map (\<lambda>m. bm_blocks (read_bmap (V m))) ms" 127 "q div 127" "q mod 127"]
    by (simp add: slots_def less_mult_imp_div_less mult.commute)
qed

lemma slots_cong:
  assumes "dir_chain V dev nxt ms" "\<And>b. addr_ok dev b \<Longrightarrow> V' b = V b"
  shows "slots V' ms = slots V ms"
  unfolding slots_def by (intro arg_cong [of _ _ concat] map_cong refl) (simp add: dir_chain_maps [OF assms(1)] assms(2))

lemma dir_chain_nonzero: "dir_chain V dev nxt ms \<Longrightarrow> k < length ms \<Longrightarrow> ms ! k \<noteq> INODE_NULL \<and> addr_ok dev (ms ! k)"
  by (induction ms arbitrary: nxt k) (auto simp: nth_Cons split: nat.splits)

text \<open>The walk to a map.\<close>

lemma seek_map_ok:
  "dir_chain (nview N dev) dev (dir_block d) ms \<Longrightarrow> k \<le> length ms \<Longrightarrow> room_for N (n + k) \<Longrightarrow>
   \<exists>N'. seek_map k N dev d = Some (True, d\<lparr>dir_block := (if k < length ms then ms ! k else INODE_NULL), dir_block_ptr := dir_block_ptr d + of_nat k\<rparr>, N') \<and>
     room_for N' n \<and> only_read N N'"
proof (induction k arbitrary: N d ms)
  case 0
  have "dir_block d = (if 0 < length ms then ms ! 0 else INODE_NULL)" using 0(1) by (cases ms) auto
  then show ?case using 0(3) by (auto intro!: exI [of _ N])
next
  case (Suc k)
  then obtain m ms' where ms: "ms = m # ms'" by (cases ms) auto
  let ?V = "nview N dev"
  have c: "dir_block d = m" "m \<noteq> INODE_NULL" "addr_ok dev m" "dir_chain ?V dev (bm_next (read_bmap (?V m))) ms'"
    using Suc.prems(1) ms by simp_all
  have rm: "room_for N (Suc (n + k))" using Suc.prems(3) by simp
  obtain N1 where r: "nm_read N dev m = Some (True, ?V m, N1)" "room_for N1 (n + k)" "only_read N N1" by (rule nm_read_ok [OF rm c(3)])
  let ?d = "d\<lparr>dir_block := bm_next (read_bmap (?V m)), dir_block_ptr := dir_block_ptr d + 1\<rparr>"
  have "dir_chain (nview N1 dev) dev (dir_block ?d) ms'"
    using c(4) dir_chain_cong [of dev "nview N1 dev" ?V] only_read_view [OF r(3)] by simp
  from Suc.IH [OF this _ r(2)] obtain N2 where "seek_map k N1 dev ?d =
      Some (True, ?d\<lparr>dir_block := (if k < length ms' then ms' ! k else INODE_NULL), dir_block_ptr := dir_block_ptr ?d + of_nat k\<rparr>, N2)"
      "room_for N2 n" "only_read N1 N2" using Suc.prems(2) ms by auto
  then show ?case using c(1,2) r(1) ms only_read_trans [OF r(3)] by (auto simp: ac_simps)
qed

text \<open>A directory being read: the map it remembers is the one with that number.\<close>

definition dir_seat :: "(u32 \<Rightarrow> bytes) \<Rightarrow> int \<Rightarrow> u32 list \<Rightarrow> dirstream \<Rightarrow> bool" where
  "dir_seat V dev ms d \<longleftrightarrow> dir_chain V dev (i_next (dir_data d)) ms \<and> 2 \<le> unat (dir_offset d) \<and> 127 * length ms + 3 < 2 ^ 32 \<and>
     (dir_block d \<noteq> INODE_NULL \<longrightarrow> unat (dir_block_ptr d) < length ms \<and> dir_block d = ms ! unat (dir_block_ptr d))"

lemma dir_seat_cong:
  "dir_seat V dev ms d \<Longrightarrow> (\<And>b. addr_ok dev b \<Longrightarrow> V' b = V b) \<Longrightarrow> dir_seat V' dev ms d"
  using dir_chain_cong [of dev V' V] by (simp add: dir_seat_def)

abbreviation place :: "dirstream \<Rightarrow> nat" where
  "place d \<equiv> unat (dir_offset d) - 2"

lemma place_words:
  assumes "2 \<le> unat (dir_offset d)"
  shows "unat (dir_offset d - 2) = place d" "unat ((dir_offset d - 2) div 127) = place d div 127" "unat ((dir_offset d - 2) mod 127) = place d mod 127"
proof -
  show u: "unat (dir_offset d - 2) = place d" using assms by (simp add: unat_sub word_le_nat_alt)
  show "unat ((dir_offset d - 2) div 127) = place d div 127" "unat ((dir_offset d - 2) mod 127) = place d mod 127"
    by (simp_all add: unat_div unat_mod u)
qed

text \<open>The loop first goes to the map of its offset, or there is none.\<close>

definition read_on :: "dirstream \<Rightarrow> dirstream \<Rightarrow> bool" where
  "read_on d d' \<longleftrightarrow> dir_pathname d' = dir_pathname d \<and> dir_data d' = dir_data d \<and> dir_fd d' = dir_fd d"

lemma readdir_seek:
  assumes d: "dir_seat (nview N dev) dev ms d" and o: "place d \<le> 127 * length ms" and room: "room_for N (n + length ms)"
  obtains (gone) d' N' where "place d = 127 * length ms" "readdir_loop N dev d = Some (False, d', N')" "read_on d d'" "room_for N' n" "only_read N N'"
    | (there) d' N' where "place d < 127 * length ms" "readdir_loop N dev d = readdir_loop N' dev d'" "room_for N' n" "only_read N N'"
      "d' = d\<lparr>dir_block := ms ! (place d div 127), dir_block_ptr := (dir_offset d - 2) div 127\<rparr>"
proof -
  have s: "dir_chain (nview N dev) dev (i_next (dir_data d)) ms" "2 \<le> unat (dir_offset d)" using d by (simp_all add: dir_seat_def)
  note w = place_words [OF s(2)]
  show thesis
  proof (cases "dir_block_ptr d = (dir_offset d - 2) div 127 \<and> dir_block d \<noteq> INODE_NULL")
    case True
    then have "place d div 127 < length ms" "dir_block d = ms ! (place d div 127)" using d w(2) by (auto simp: dir_seat_def)
    moreover have "place d < 127 * length ms" using calculation(1) by (simp add: div_less_iff_less_mult mult.commute)
    moreover have "room_for N n" using cache_inv_mono [OF room] by simp
    ultimately show thesis using True there [of N d] by simp
  next
    case False
    let ?k = "place d div 127" and ?d = "d\<lparr>dir_block_ptr := 0, dir_block := i_next (dir_data d)\<rparr>"
    have k: "?k \<le> length ms" using o div_le_mono [OF o, of 127] by simp
    have "room_for N (n + ?k)" by (rule cache_inv_mono [OF room]) (use k in simp)
    then obtain N' where m: "seek_map ?k N dev ?d = Some (True, ?d\<lparr>dir_block := (if ?k < length ms then ms ! ?k else INODE_NULL), dir_block_ptr := of_nat ?k\<rparr>, N')"
        "room_for N' n" "only_read N N'"
      using seek_map_ok [of N dev ?d ms ?k n] s(1) k by auto
    have step: "readdir_loop N dev d = do {
        (ok, d, N) \<leftarrow> seek_map ?k N dev ?d;
        if \<not> ok \<or> dir_block d = INODE_NULL then Some (False, d, N) else readdir_loop N dev d }"
      using False w(2) by (subst readdir_loop.simps) (auto simp: Let_def)
    have ptr: "of_nat ?k = (dir_offset d - 2) div 127" unfolding w(2) [symmetric] by simp
    show thesis
    proof (cases "?k < length ms")
      case True
      then have "ms ! ?k \<noteq> INODE_NULL" using dir_chain_nonzero [OF s(1)] by simp
      moreover have "place d < 127 * length ms" using True by (simp add: div_less_iff_less_mult mult.commute)
      ultimately show thesis using True m step ptr there [of N' "d\<lparr>dir_block := ms ! ?k, dir_block_ptr := (dir_offset d - 2) div 127\<rparr>"] by simp
    next
      case ge: False
      then have "place d = 127 * length ms" using o k div_times_less_eq_dividend [of "place d" 127] by simp
      then show thesis using ge m step gone by (simp add: read_on_def)
    qed
  qed
qed

text \<open>The entry \<open>readdir\<close> returns for the place \<open>q\<close>.\<close>

definition dir_ent :: "(u32 \<Rightarrow> bytes) \<Rightarrow> bytes \<Rightarrow> u32 list \<Rightarrow> nat \<Rightarrow> dirent" where
  "dir_ent V base ms q = (let b = slots V ms ! q; t = read_inode (V b) in
     \<lparr>d_ino = b, d_off = of_nat (q mod 127), d_reclen = ucast (i_size t), d_type = entry_type t, d_name = base @ slash # cstr (i_path t)\<rparr>)"

definition next_place :: "(u32 \<Rightarrow> bytes) \<Rightarrow> u32 list \<Rightarrow> nat \<Rightarrow> nat option" where
  "next_place V ms q = first_from (\<lambda>q. slots V ms ! q \<noteq> INODE_NULL) q (127 * length ms)"

abbreviation names_fit :: "(u32 \<Rightarrow> bytes) \<Rightarrow> u32 list \<Rightarrow> bytes \<Rightarrow> bool" where
  "names_fit V ms base \<equiv> \<forall>b \<in> set (entries V ms). length base + length (name_of V b) + 3 \<le> MAX_PATH"

text \<open>The reads up to the place found.\<close>

definition rd_cost :: "(u32 \<Rightarrow> bytes) \<Rightarrow> u32 list \<Rightarrow> nat \<Rightarrow> nat" where
  "rd_cost V ms q = Suc (Suc ((case next_place V ms q of Some p \<Rightarrow> p | None \<Rightarrow> 127 * length ms) - q) * Suc (length ms))"

definition read_result :: "names \<Rightarrow> int \<Rightarrow> u32 list \<Rightarrow> dirstream \<Rightarrow> nat \<Rightarrow> bool" where
  "read_result N dev ms d n \<longleftrightarrow> (\<exists>d' N'. only_read N N' \<and> room_for N' n \<and> read_on d d' \<and>
     (case next_place (nview N dev) ms (place d) of
        None \<Rightarrow> readdir_loop N dev d = Some (False, d', N')
      | Some q \<Rightarrow> readdir_loop N dev d = Some (True, d', N') \<and> dir_entry d' = dir_ent (nview N dev) (cstr (dir_pathname d)) ms q \<and>
          dir_offset d' = of_nat (q + 3) \<and> dir_seat (nview N' dev) dev ms d'))"

lemma next_place_step:
  "next_place V ms q = (if q < 127 * length ms then if slots V ms ! q \<noteq> INODE_NULL then Some q else next_place V ms (Suc q) else None)"
  unfolding next_place_def by (subst first_from.simps) simp

lemma entry_there:
  assumes d: "dir_seat (nview N dev) dev ms d" and q: "place d < 127 * length ms"
    and at: "dir_block d = ms ! (place d div 127)" "dir_block_ptr d = (dir_offset d - 2) div 127"
    and b: "slots (nview N dev) ms ! place d \<noteq> INODE_NULL" and fit: "names_fit (nview N dev) ms (cstr (dir_pathname d))"
    and room: "room_for N (Suc (Suc n))"
  shows "read_result N dev ms d n"
proof -
  let ?V = "nview N dev" and ?q = "place d" and ?b = "slots (nview N dev) ms ! place d"
  have s: "dir_chain ?V dev (i_next (dir_data d)) ms" "2 \<le> unat (dir_offset d)" using d by (simp_all add: dir_seat_def)
  note w = place_words [OF s(2)]
  have k: "?q div 127 < length ms" using q by (simp add: less_mult_imp_div_less mult.commute)
  note c = dir_chain_nonzero [OF s(1) k]
  have be: "?b \<in> set (entries ?V ms)" using b q by (simp add: entries_slots slots_length)
  then have ba: "addr_ok dev ?b" using dir_chain_entries [OF s(1)] by blast
  obtain N1 where r: "nm_read N dev (ms ! (?q div 127)) = Some (True, ?V (ms ! (?q div 127)), N1)" "room_for N1 (Suc n)" "only_read N N1"
    by (rule nm_read_ok [OF room]) (use c in blast)
  have v1: "nview N1 dev ?b = ?V ?b" using only_read_view [OF r(3) ba] .
  obtain N2 where r2: "nm_read N1 dev ?b = Some (True, ?V ?b, N2)" "room_for N2 n" "only_read N1 N2"
    using nm_read_ok [OF r(2) ba] v1 by metis
  have nm: "entry_name (cstr (dir_pathname d)) (cstr (i_path (read_inode (?V ?b)))) 2 = Some (cstr (dir_pathname d) @ slash # cstr (i_path (read_inode (?V ?b))))"
    using bspec [OF fit be] by (simp add: entry_name_def name_of_def)
  let ?d = "d\<lparr>dir_entry := dir_ent ?V (cstr (dir_pathname d)) ms ?q, dir_offset := dir_offset d + 1\<rparr>"
  have "readdir_loop N dev d = Some (True, ?d, N2)"
    using at c r(1) r2(1) w nm b slots_nth [OF q, of ?V] by (subst readdir_loop.simps) (simp add: Let_def dir_ent_def)
  moreover have off: "dir_offset d + 1 = of_nat (?q + 3)" "2 \<le> unat (dir_offset d + 1)" "unat (dir_block_ptr d) = ?q div 127"
    using s(2) q d at(2) w(2) by (auto simp: dir_seat_def word_unat_eq_iff unat_of_nat32 u32_add_unat)
  moreover have o2: "only_read N N2" using only_read_trans [OF r(3) r2(3)] .
  moreover have "dir_seat (nview N2 dev) dev ms ?d"
  proof (rule dir_seat_cong [where V = ?V])
    show "dir_seat ?V dev ms ?d" using d off at(1) k c by (simp add: dir_seat_def)
  qed (use only_read_view [OF o2] in blast)
  ultimately show ?thesis unfolding read_result_def
    using r2(2) q b next_place_step [of ?V ms ?q] by (intro exI [of _ ?d] exI [of _ N2]) (simp add: read_on_def)
qed

lemma entry_skip:
  assumes d: "dir_seat (nview N dev) dev ms d" and q: "place d < 127 * length ms"
    and at: "dir_block d = ms ! (place d div 127)" "dir_block_ptr d = (dir_offset d - 2) div 127"
    and b: "slots (nview N dev) ms ! place d = INODE_NULL" and room: "room_for N (Suc n)"
  obtains d' N' where "readdir_loop N dev d = readdir_loop N' dev d'" "dir_seat (nview N' dev) dev ms d'" "place d' = Suc (place d)"
    "read_on d d'" "room_for N' n" "only_read N N'"
proof -
  let ?V = "nview N dev" and ?q = "place d" and ?d = "d\<lparr>dir_offset := dir_offset d + 1\<rparr>"
  have s: "dir_chain ?V dev (i_next (dir_data d)) ms" "2 \<le> unat (dir_offset d)" using d by (simp_all add: dir_seat_def)
  note w = place_words [OF s(2)]
  have k: "?q div 127 < length ms" using q by (simp add: less_mult_imp_div_less mult.commute)
  note c = dir_chain_nonzero [OF s(1) k]
  obtain N1 where r: "nm_read N dev (ms ! (?q div 127)) = Some (True, ?V (ms ! (?q div 127)), N1)" "room_for N1 n" "only_read N N1"
    by (rule nm_read_ok [OF room]) (use c in blast)
  have "readdir_loop N dev d = readdir_loop N1 dev ?d"
    using at c r(1) w b slots_nth [OF q, of ?V] by (subst readdir_loop.simps) (simp add: Let_def)
  moreover have off: "unat (dir_offset d + 1) = Suc (unat (dir_offset d))" "unat (dir_block_ptr d) = ?q div 127"
    using s(2) q d at(2) w(2) by (auto simp: dir_seat_def u32_add_unat)
  moreover have "dir_seat (nview N1 dev) dev ms ?d"
  proof (rule dir_seat_cong [where V = ?V])
    show "dir_seat ?V dev ms ?d" using d off at(1) k c by (simp add: dir_seat_def)
  qed (use only_read_view [OF r(3)] in blast)
  ultimately show thesis using that [of N1 ?d] r(2,3) s(2) by (simp add: read_on_def)
qed

lemma next_place_cong:
  assumes "dir_chain V dev nxt ms" "\<And>b. addr_ok dev b \<Longrightarrow> V' b = V b"
  shows "next_place V' ms q = next_place V ms q" "rd_cost V' ms q = rd_cost V ms q"
proof -
  show n: "next_place V' ms q = next_place V ms q" using slots_cong [OF assms] by (simp add: next_place_def)
  show "rd_cost V' ms q = rd_cost V ms q" by (simp add: rd_cost_def n)
qed

lemma read_result_step:
  assumes "readdir_loop N dev d = readdir_loop N1 dev d1" "only_read N N1" "read_on d d1" "dir_seat (nview N dev) dev ms d"
    and "next_place (nview N dev) ms (place d) = next_place (nview N dev) ms (place d1)" and r: "read_result N1 dev ms d1 n"
  shows "read_result N dev ms d n"
proof -
  let ?V = "nview N dev" and ?V1 = "nview N1 dev"
  have ch: "dir_chain ?V dev (i_next (dir_data d)) ms" using assms(4) by (simp add: dir_seat_def)
  note v = only_read_view [OF assms(2)]
  have np: "next_place ?V1 ms (place d1) = next_place ?V ms (place d)" using next_place_cong(1) [OF ch v] assms(5) by simp
  have e: "dir_ent ?V1 base ms q = dir_ent ?V base ms q" if "next_place ?V ms (place d) = Some q" for base q
  proof -
    have "q < 127 * length ms" "slots ?V ms ! q \<noteq> INODE_NULL" using that by (auto simp: next_place_def dest: first_from_SomeD)
    then have "slots ?V ms ! q \<in> set (entries ?V ms)" by (simp add: entries_slots slots_length)
    then show ?thesis using dir_chain_entries [OF ch] v slots_cong [OF ch v] by (simp add: dir_ent_def)
  qed
  obtain d' N' where d': "only_read N1 N'" "room_for N' n" "read_on d1 d'"
     "case next_place ?V ms (place d) of
        None \<Rightarrow> readdir_loop N1 dev d1 = Some (False, d', N')
      | Some q \<Rightarrow> readdir_loop N1 dev d1 = Some (True, d', N') \<and> dir_entry d' = dir_ent ?V1 (cstr (dir_pathname d1)) ms q \<and>
          dir_offset d' = of_nat (q + 3) \<and> dir_seat (nview N' dev) dev ms d'"
    using r unfolding read_result_def np by blast
  have "only_read N N'" "read_on d d'" "dir_pathname d1 = dir_pathname d" using only_read_trans [OF assms(2) d'(1)] assms(3) d'(3) by (simp_all add: read_on_def)
  then show ?thesis unfolding read_result_def assms(1) using d'(2,4) e by (intro exI [of _ d'] exI [of _ N']) (auto split: option.splits)
qed

lemma readdir_ok:
  "dir_seat (nview N dev) dev ms d \<Longrightarrow> place d \<le> 127 * length ms \<Longrightarrow> names_fit (nview N dev) ms (cstr (dir_pathname d)) \<Longrightarrow>
   room_for N (n + rd_cost (nview N dev) ms (place d)) \<Longrightarrow> read_result N dev ms d n"
proof (induction "127 * length ms - place d" arbitrary: N d rule: less_induct)
  case less
  let ?V = "nview N dev" and ?q = "place d"
  have ch: "dir_chain ?V dev (i_next (dir_data d)) ms" using less.prems(1) by (simp add: dir_seat_def)
  define r where "r = (case next_place ?V ms ?q of Some p \<Rightarrow> p | None \<Rightarrow> 127 * length ms) - ?q"
  have room: "room_for N ((n + Suc (Suc (r * Suc (length ms)))) + length ms)" using less.prems(4) by (simp add: rd_cost_def r_def add_ac)
  show ?case
  proof (rule readdir_seek [OF less.prems(1,2) room])
    fix d' N' assume "place d = 127 * length ms" "readdir_loop N dev d = Some (False, d', N')" "read_on d d'"
      "room_for N' (n + Suc (Suc (r * Suc (length ms))))" "only_read N N'"
    then show ?thesis using next_place_step [of ?V ms ?q] cache_inv_mono [of _ _ n] unfolding read_result_def
      by (intro exI [of _ d'] exI [of _ N']) simp
  next
    fix d1 N1 assume a: "place d < 127 * length ms" "readdir_loop N dev d = readdir_loop N1 dev d1"
      "room_for N1 (n + Suc (Suc (r * Suc (length ms))))" "only_read N N1"
      "d1 = d\<lparr>dir_block := ms ! (place d div 127), dir_block_ptr := (dir_offset d - 2) div 127\<rparr>"
    let ?V1 = "nview N1 dev"
    note v = only_read_view [OF a(4)]
    have on: "read_on d d1" "place d1 = ?q" by (simp_all add: a(5) read_on_def)
    have k: "?q div 127 < length ms" using a(1) by (simp add: less_mult_imp_div_less mult.commute)
    have w: "unat ((dir_offset d - 2) div 127) = ?q div 127" using place_words(2) less.prems(1) by (simp add: dir_seat_def)
    have d1: "dir_seat ?V1 dev ms d1" using dir_seat_cong [OF less.prems(1) v] k w by (simp add: a(5) dir_seat_def)
    have at: "dir_block d1 = ms ! (place d1 div 127)" "dir_block_ptr d1 = (dir_offset d1 - 2) div 127" "place d1 < 127 * length ms" using a(1) by (simp_all add: a(5))
    have sl: "slots ?V1 ms = slots ?V ms" "entries ?V1 ms = entries ?V ms" using slots_cong [OF ch v] lookup_cong(1) [OF ch v] by simp_all
    have fit: "names_fit ?V1 ms (cstr (dir_pathname d1))"
      using less.prems(3) dir_chain_entries [OF ch] v sl(2) by (simp add: a(5) name_of_def)
    have "read_result N1 dev ms d1 n"
    proof (cases "slots ?V ms ! ?q = INODE_NULL")
      case False
      have "room_for N1 (Suc (Suc n))" by (rule cache_inv_mono [OF a(3)]) simp
      then show ?thesis using entry_there [OF d1 at(3,1,2) _ fit] False sl(1) on(2) by simp
    next
      case True
      have np: "next_place ?V ms ?q = next_place ?V ms (Suc ?q)" using next_place_step [of ?V ms ?q] a(1) True by simp
      have rp: "r = Suc ((case next_place ?V ms (Suc ?q) of Some p \<Rightarrow> p | None \<Rightarrow> 127 * length ms) - Suc ?q)"
        using np a(1) by (auto simp: r_def next_place_def split: option.splits dest!: first_from_SomeD)
      have "room_for N1 (Suc (n + rd_cost ?V ms (Suc ?q)))" by (rule cache_inv_mono [OF a(3)]) (simp add: rd_cost_def rp)
      then obtain d2 N2 where d2: "readdir_loop N1 dev d1 = readdir_loop N2 dev d2" "dir_seat (nview N2 dev) dev ms d2" "place d2 = Suc ?q"
          "read_on d1 d2" "room_for N2 (n + rd_cost ?V ms (Suc ?q))" "only_read N1 N2"
        using entry_skip [OF d1 at(3,1,2), of "n + rd_cost ?V ms (Suc ?q)"] True sl(1) on(2) by metis
      note v2 = only_read_view [OF only_read_trans [OF a(4) d2(6)]]
      have "read_result N2 dev ms d2 n"
      proof (rule less.hyps)
        show "names_fit (nview N2 dev) ms (cstr (dir_pathname d2))"
          using less.prems(3) dir_chain_entries [OF ch] v2 lookup_cong(1) [OF ch v2] d2(4) on(1) by (simp add: read_on_def name_of_def)
      qed (use a(1) d2 next_place_cong(2) [OF ch v2] in simp_all)
      moreover have "next_place ?V1 ms (place d1) = next_place ?V1 ms (place d2)" using np next_place_cong(1) [OF ch v] on(2) d2(3) by simp
      ultimately show ?thesis using read_result_step [OF d2(1,6,4) d1] by blast
    qed
    then show ?thesis using read_result_step [OF a(2,4) on(1) less.prems(1)] on(2) by simp
  qed
qed

section \<open>Reading a directory\<close>

abbreviation dview :: "dirs \<Rightarrow> int \<Rightarrow> u32 \<Rightarrow> bytes" where
  "dview S dev \<equiv> nview (in_names (ds_calls S)) dev"

definition dir_open :: "dirs \<Rightarrow> int \<Rightarrow> nat \<Rightarrow> u32 list \<Rightarrow> bytes \<Rightarrow> bool" where
  "dir_open S dev k ms base \<longleftrightarrow> k < length (dir_tab S) \<and> dir_fd (dir_tab S ! k) = int k \<and> cstr (dir_pathname (dir_tab S ! k)) = base \<and>
     dir_seat (dview S dev) dev ms (dir_tab S ! k) \<and> place (dir_tab S ! k) \<le> 127 * length ms \<and> names_fit (dview S dev) ms base"

lemma names_back [simp]: "in_names (with_names C N) = N" "call_dev nl C = master_get_dev nl (nm_fs (in_names C))"
  by (simp_all add: in_names_def with_names_def call_dev_def)

lemma only_read_dev: "only_read N N' \<Longrightarrow> master_get_dev nl (nm_fs N') = master_get_dev nl (nm_fs N)"
proof -
  assume "only_read N N'"
  then have e: "master_dev_tab (nm_fs N') = master_dev_tab (nm_fs N)" by (auto simp: only_read_def)
  show ?thesis unfolding master_get_dev_def e ..
qed

lemma kreaddir_ok:
  assumes d: "dir_open S dev k ms base" "dev = call_dev nl (ds_calls S)"
    and room: "room_for (in_names (ds_calls S)) (n + rd_cost (dview S dev) ms (place (dir_tab S ! k)))"
  obtains S' where "kreaddir nl P S k = Some (map_option (dir_ent (dview S dev) base ms) (next_place (dview S dev) ms (place (dir_tab S ! k))), S')"
    "only_read (in_names (ds_calls S)) (in_names (ds_calls S'))" "room_for (in_names (ds_calls S')) n"
    "\<And>q. next_place (dview S dev) ms (place (dir_tab S ! k)) = Some q \<Longrightarrow> dir_open S' dev k ms base \<and> place (dir_tab S' ! k) = Suc q"
proof -
  let ?N = "in_names (ds_calls S)" and ?old = "dir_tab S ! k"
  let ?d = "?old\<lparr>dir_data := (dir_data ?old)\<lparr>accessed_time := now P\<rparr>\<rparr>"
  have s: "k < length (dir_tab S)" "dir_fd ?old = int k" "cstr (dir_pathname ?old) = base" "dir_seat (dview S dev) dev ms ?old"
      "place ?old \<le> 127 * length ms" "names_fit (dview S dev) ms base" using d(1) by (simp_all add: dir_open_def)
  have off: "2 \<le> unat (dir_offset ?old)" using s(4) by (simp add: dir_seat_def)
  then have o: "dir_offset ?old \<noteq> 0" "dir_offset ?old \<noteq> 1" by auto
  have "dir_seat (nview ?N dev) dev ms ?d" using s(4) by (simp add: dir_seat_def)
  from readdir_ok [OF this _ _ ] have "read_result ?N dev ms ?d n" using s(3,5,6) room by simp
  moreover have e: "dir_offset ?d = dir_offset ?old" "cstr (dir_pathname ?d) = base" using s(3) by simp_all
  ultimately obtain d' N' where r: "only_read ?N N'" "room_for N' n" "read_on ?d d'"
      "case next_place (dview S dev) ms (place ?old) of
        None \<Rightarrow> readdir_loop ?N dev ?d = Some (False, d', N')
      | Some q \<Rightarrow> readdir_loop ?N dev ?d = Some (True, d', N') \<and> dir_entry d' = dir_ent (dview S dev) base ms q \<and>
          dir_offset d' = of_nat (q + 3) \<and> dir_seat (nview N' dev) dev ms d'"
    unfolding read_result_def e by blast
  let ?S = "S\<lparr>dir_tab := (dir_tab S)[k := d'], ds_calls := with_names (ds_calls S) N'\<rparr>"
  have "kreaddir nl P S k = Some (map_option (dir_ent (dview S dev) base ms) (next_place (dview S dev) ms (place ?old)), ?S)"
    using r(4) s(1,2) o d(2) by (auto simp: kreaddir_def upd_dir_def Let_def split: option.splits)
  moreover have "dir_open ?S dev k ms base \<and> place (dir_tab ?S ! k) = Suc q" if q: "next_place (dview S dev) ms (place ?old) = Some q" for q
  proof -
    have ql: "q < 127 * length ms" "127 * length ms + 3 < 2 ^ 32" using q s(4) by (auto simp: next_place_def dir_seat_def dest: first_from_SomeD)
    have od: "dir_offset d' = of_nat (q + 3)" using r(4) q by simp
    have "unat (dir_offset d') = q + 3" unfolding od using ql by (subst unat_of_nat32) simp_all
    moreover have ch: "dir_chain (dview S dev) dev (i_next (dir_data ?old)) ms" using s(4) by (simp add: dir_seat_def)
    have "entries (nview N' dev) ms = entries (dview S dev) ms" using lookup_cong(1) [OF ch only_read_view [OF r(1)]] .
    moreover have "name_of (nview N' dev) b = name_of (dview S dev) b" if "b \<in> set (entries (dview S dev) ms)" for b
      using only_read_view [OF r(1), of dev b] dir_chain_entries [OF ch that] by (simp add: name_of_def)
    then have "names_fit (nview N' dev) ms base" using s(6) calculation(2) by simp
    ultimately show ?thesis using r(3,4) q ql s(1-3) by (simp add: dir_open_def read_on_def)
  qed
  ultimately show thesis using that [of ?S] r(1,2) by simp
qed

text \<open>\<open>n\<close> calls of \<open>readdir\<close>.\<close>

primrec read_names :: "nat \<Rightarrow> nat \<Rightarrow> proc_ids \<Rightarrow> dirs \<Rightarrow> nat \<Rightarrow> (dirent option list \<times> dirs) option" where
  "read_names 0 nl P S k = Some ([], S)"
| "read_names (Suc n) nl P S k = do {
     (e, S) \<leftarrow> kreaddir nl P S k;
     (es, S) \<leftarrow> read_names n nl P S k;
     Some (e # es, S)
   }"

primrec list_cost :: "nat \<Rightarrow> (u32 \<Rightarrow> bytes) \<Rightarrow> u32 list \<Rightarrow> nat \<Rightarrow> nat" where
  "list_cost 0 V ms q = 0"
| "list_cost (Suc n) V ms q = rd_cost V ms q + (case next_place V ms q of Some p \<Rightarrow> list_cost n V ms (Suc p) | None \<Rightarrow> 0)"

definition entry_of :: "(u32 \<Rightarrow> bytes) \<Rightarrow> bytes \<Rightarrow> dirent \<Rightarrow> u32 \<Rightarrow> bool" where
  "entry_of V base e b \<longleftrightarrow> d_ino e = b \<and> d_name e = base @ slash # name_of V b \<and> d_type e = entry_type (read_inode (V b))"

lemma filter_next:
  "next_place V ms q = None \<Longrightarrow> filter (\<lambda>b. b \<noteq> INODE_NULL) (drop q (slots V ms)) = []"
  "next_place V ms q = Some p \<Longrightarrow> filter (\<lambda>b. b \<noteq> INODE_NULL) (drop q (slots V ms)) = slots V ms ! p # filter (\<lambda>b. b \<noteq> INODE_NULL) (drop (Suc p) (slots V ms))"
proof -
  assume "next_place V ms q = None"
  then have "slots V ms ! j = INODE_NULL" if "q \<le> j" "j < length (slots V ms)" for j
    using that by (auto simp: next_place_def first_from_None_iff slots_length)
  then show "filter (\<lambda>b. b \<noteq> INODE_NULL) (drop q (slots V ms)) = []" by (auto simp: filter_empty_conv in_set_conv_nth)
next
  assume "next_place V ms q = Some p"
  then have p: "q \<le> p" "p < length (slots V ms)" "slots V ms ! p \<noteq> INODE_NULL" "\<And>j. q \<le> j \<Longrightarrow> j < p \<Longrightarrow> slots V ms ! j = INODE_NULL"
    by (auto simp: next_place_def slots_length dest!: first_from_SomeD)
  have "drop q (slots V ms) = take (p - q) (drop q (slots V ms)) @ drop p (slots V ms)"
    using p(1) by (metis append_take_drop_id drop_drop le_add_diff_inverse2)
  moreover have "filter (\<lambda>b. b \<noteq> INODE_NULL) (take (p - q) (drop q (slots V ms))) = []"
    using p(2,4) by (auto simp: filter_empty_conv in_set_conv_nth)
  ultimately show "filter (\<lambda>b. b \<noteq> INODE_NULL) (drop q (slots V ms)) = slots V ms ! p # filter (\<lambda>b. b \<noteq> INODE_NULL) (drop (Suc p) (slots V ms))"
    using p(2,3) Cons_nth_drop_Suc [OF p(2)] by (metis (mono_tags, lifting) append_Nil filter.simps(2) filter_append)
qed

lemma read_names_ok:
  "dir_open S dev k ms base \<Longrightarrow> dev = call_dev nl (ds_calls S) \<Longrightarrow>
   room_for (in_names (ds_calls S)) (n' + list_cost n (dview S dev) ms (place (dir_tab S ! k))) \<Longrightarrow>
   n \<le> length (filter (\<lambda>b. b \<noteq> INODE_NULL) (drop (place (dir_tab S ! k)) (slots (dview S dev) ms))) \<Longrightarrow>
   \<exists>es S'. read_names n nl P S k = Some (map Some es, S') \<and>
     list_all2 (entry_of (dview S dev) base) es (take n (filter (\<lambda>b. b \<noteq> INODE_NULL) (drop (place (dir_tab S ! k)) (slots (dview S dev) ms))))"
proof (induction n arbitrary: S)
  case (Suc n)
  let ?V = "dview S dev" and ?q = "place (dir_tab S ! k)"
  obtain p where p: "next_place ?V ms ?q = Some p" using filter_next(1) [of ?V ms ?q] Suc.prems(4) by (cases "next_place ?V ms ?q") auto
  have room: "room_for (in_names (ds_calls S)) ((n' + list_cost n ?V ms (Suc p)) + rd_cost ?V ms ?q)" using Suc.prems(3) p by (simp add: add_ac)
  obtain S1 where s1: "kreaddir nl P S k = Some (Some (dir_ent ?V base ms p), S1)" "only_read (in_names (ds_calls S)) (in_names (ds_calls S1))"
      "room_for (in_names (ds_calls S1)) (n' + list_cost n ?V ms (Suc p))" "dir_open S1 dev k ms base" "place (dir_tab S1 ! k) = Suc p"
    using kreaddir_ok [OF Suc.prems(1,2) room, of P thesis] p by auto
  have ch: "dir_chain ?V dev (i_next (dir_data (dir_tab S ! k))) ms" using Suc.prems(1) by (simp add: dir_open_def dir_seat_def)
  note v = only_read_view [OF s1(2)]
  have sl: "slots (dview S1 dev) ms = slots ?V ms" using slots_cong [OF ch v] .
  have lc: "list_cost n (dview S1 dev) ms q = list_cost n ?V ms q" for n q
    by (induction n arbitrary: q) (simp_all add: next_place_cong [OF ch v] split: option.split)
  note f = filter_next(2) [OF p]
  have "dev = call_dev nl (ds_calls S1)" using Suc.prems(2) only_read_dev [OF s1(2)] by simp
  then obtain es S' where r: "read_names n nl P S1 k = Some (map Some es, S')"
      "list_all2 (entry_of (dview S1 dev) base) es (take n (filter (\<lambda>b. b \<noteq> INODE_NULL) (drop (Suc p) (slots ?V ms))))"
    using Suc.IH [OF s1(4)] s1(3,5) Suc.prems(4) f sl lc by auto
  have en: "entry_of ?V base e b" if "entry_of (dview S1 dev) base e b" "b \<in> set (entries ?V ms)" for e b
    using that v [of dev b] dir_chain_entries [OF ch] by (simp add: entry_of_def name_of_def)
  have "list_all2 (entry_of ?V base) es (take n (filter (\<lambda>b. b \<noteq> INODE_NULL) (drop (Suc p) (slots ?V ms))))"
    by (rule list.rel_mono_strong [OF r(2)]) (auto simp: entries_slots dest!: in_set_takeD in_set_dropD intro!: en)
  moreover have "entry_of ?V base (dir_ent ?V base ms p) (slots ?V ms ! p)" by (simp add: entry_of_def dir_ent_def name_of_def Let_def)
  ultimately show ?case using s1(1) r(1) f by (intro exI [of _ "dir_ent ?V base ms p # es"] exI [of _ S']) simp
qed simp

section \<open>Properties\<close>

text \<open>A directory as \<open>opendir\<close> leaves it.\<close>

definition dir_fresh :: "dirs \<Rightarrow> int \<Rightarrow> nat \<Rightarrow> u32 list \<Rightarrow> bytes \<Rightarrow> bool" where
  "dir_fresh S dev k ms base \<longleftrightarrow> k < length (dir_tab S) \<and> dir_fd (dir_tab S ! k) = int k \<and> cstr (dir_pathname (dir_tab S ! k)) = base \<and>
     dir_offset (dir_tab S ! k) = 0 \<and> dir_block (dir_tab S ! k) = INODE_NULL \<and> length base + 4 \<le> MAX_PATH \<and>
     dir_chain (dview S dev) dev (i_next (dir_data (dir_tab S ! k))) ms \<and> names_fit (dview S dev) ms base \<and> 127 * length ms + 3 < 2 ^ 32"

lemma read_dots:
  assumes "dir_fresh S dev k ms base"
  obtains S' where "\<And>n es S''. read_names n nl P S' k = Some (es, S'') \<Longrightarrow> read_names (Suc (Suc n)) nl P S k =
      Some (Some (zero_entry\<lparr>d_name := base @ [slash, dot]\<rparr>) # Some (zero_entry\<lparr>d_name := base @ [slash, dot, dot]\<rparr>) # es, S'')"
    "dir_open S' dev k ms base" "place (dir_tab S' ! k) = 0" "ds_calls S' = ds_calls S"
proof -
  let ?d = "dir_tab S ! k" and ?e = "\<lambda>t. zero_entry\<lparr>d_name := base @ slash # t\<rparr>"
  let ?acc = "\<lambda>d. d\<lparr>dir_data := (dir_data d)\<lparr>accessed_time := now P\<rparr>\<rparr>"
  let ?S1 = "S\<lparr>dir_tab := (dir_tab S)[k := (?acc ?d)\<lparr>dir_entry := ?e [dot], dir_offset := 1\<rparr>]\<rparr>"
  let ?S2 = "S\<lparr>dir_tab := (dir_tab S)[k := (?acc ?d)\<lparr>dir_entry := ?e [dot, dot], dir_offset := 2\<rparr>]\<rparr>"
  have s: "k < length (dir_tab S)" "dir_fd ?d = int k" "cstr (dir_pathname ?d) = base" "dir_offset ?d = 0" "dir_block ?d = INODE_NULL" "length base + 4 \<le> MAX_PATH"
    using assms by (simp_all add: dir_fresh_def)
  have 1: "kreaddir nl P S k = Some (Some (?e [dot]), ?S1)"
    using s by (simp add: kreaddir_def upd_dir_def entry_name_def Let_def)
  have 2: "kreaddir nl P ?S1 k = Some (Some (?e [dot, dot]), ?S2)"
    using s by (simp add: kreaddir_def upd_dir_def entry_name_def Let_def)
  have "dir_open ?S2 dev k ms base" using assms by (simp add: dir_fresh_def dir_open_def dir_seat_def)
  then show thesis using that [of ?S2] 1 2 s(1) by simp
qed

text \<open>
  C17: Reading a directory \<open>opendir\<close> has opened, within the clean room of the cache, gives \<open>.\<close>, \<open>..\<close> and then its entries in the order of its
  maps, one for each call, for as many calls as there are entries: the number and the type of each inode and its name behind the path of the
  directory. Places whose entry was removed are skipped, in all maps of the chain, and no entry is given twice or left out.
\<close>

theorem readdir_lists:
  assumes "dir_fresh S dev k ms base" "dev = call_dev nl (ds_calls S)" "n \<le> length (entries (dview S dev) ms)"
    and "room_for (in_names (ds_calls S)) (n' + list_cost n (dview S dev) ms 0)"
  shows "\<exists>e1 e2 es S'. read_names (Suc (Suc n)) nl P S k = Some (Some e1 # Some e2 # map Some es, S') \<and>
    d_name e1 = base @ [slash, dot] \<and> d_name e2 = base @ [slash, dot, dot] \<and>
    list_all2 (entry_of (dview S dev) base) es (take n (entries (dview S dev) ms))"
proof -
  obtain S' where s: "\<And>n es S''. read_names n nl P S' k = Some (es, S'') \<Longrightarrow> read_names (Suc (Suc n)) nl P S k =
      Some (Some (zero_entry\<lparr>d_name := base @ [slash, dot]\<rparr>) # Some (zero_entry\<lparr>d_name := base @ [slash, dot, dot]\<rparr>) # es, S'')"
      "dir_open S' dev k ms base" "place (dir_tab S' ! k) = 0" "ds_calls S' = ds_calls S"
    by (rule read_dots [OF assms(1), of nl P]) blast
  obtain es S'' where "read_names n nl P S' k = Some (map Some es, S'')" "list_all2 (entry_of (dview S dev) base) es (take n (entries (dview S dev) ms))"
    using read_names_ok [OF s(2), of nl n' n P] s(3,4) assms(2-4) by (auto simp: entries_slots)
  then show ?thesis using s(1) [of n "map Some es" S''] by simp
qed

text \<open>
  \<open>closedir\<close> writes the inode back as \<open>opendir\<close> has read it: a file created in the directory in between is lost with the map that led to it.
\<close>

lemma closedir_restores:
  assumes "k < length (dir_tab S)" "dir_fd (dir_tab S ! k) = int k" "k < MAX_DIR" "d = dir_data (dir_tab S ! k)" "inode_wf d"
    and "room_for (in_names (ds_calls S)) (Suc n)" "addr_ok dev (self d)" "dev = call_dev nl (ds_calls S)"
  shows "\<exists>S'. kclosedir nl P S k = Some (0, S') \<and> i_next (read_inode (dview S' dev (self d))) = i_next d"
proof -
  let ?i = "d\<lparr>accessed_time := now P\<rparr>" and ?N = "in_names (ds_calls S)"
  have w: "inode_wf ?i" using assms(5) by (simp add: inode_wf_def)
  have ln: "length (inode_image ?i) = DEV_BLOCK_SIZE" using w by (simp add: image_lengths)
  obtain c where c: "block_write (fs_cache (nm_fs ?N)) dev (self d) (inode_image ?i) = Some (BLOCK_OK, c)"
      "view c dev (self d) = inode_image ?i"
    by (rule cache_write [OF assms(6,7) ln]) (use assms(7) in simp)
  then have "nm_write ?N dev (self d) (inode_image ?i) = Some (True, ?N\<lparr>nm_fs := (nm_fs ?N)\<lparr>fs_cache := c\<rparr>\<rparr>)"
    by (simp add: nm_write_def fs_write_def)
  then show ?thesis using assms(2-4,8) c(2) read_inode_image [OF w] by (simp add: kclosedir_def upd_dir_def Let_def)
qed

text \<open>The small tree again: its root opened as the directory 0 of a process.\<close>

definition demo_dirs :: "names \<Rightarrow> dirs" where
  "demo_dirs N = \<lparr>ds_calls = \<lparr>pc_files = demo_files ((nm_fs N)\<lparr>master_dev_tab := replicate MAX_DEV (None, 0)\<rparr>) demo_inode, pc_nr = nr_recursion N\<rparr>,
     dir_tab = [zero_dir\<lparr>dir_data := demo_root, dir_pathname := store_str (zeros MAX_PATH) [slash]\<rparr>]\<rparr>"

theorem readdir_lists_witness:
  "\<exists>S e1 e2 e S'. read_names 3 1 root_process S 0 = Some ([Some e1, Some e2, Some e], S') \<and> d_ino e = 4100 \<and> d_name e = [slash, slash, 97]"
proof -
  obtain N where N: "room_for N 122" "master_get (nm_fs N) 0 = Some 0" "inode_start (master_tab (nm_fs N) ! 0) = 4099"
    "nview N 0 4099 = inode_image demo_root" "nview N 0 4300 = bmap_image demo_map" "nview N 0 4100 = inode_image demo_dir"
    by (rule demo_names)
  let ?S = "demo_dirs N"
  have nm: "in_names (ds_calls ?S) = N\<lparr>nm_fs := (nm_fs N)\<lparr>master_dev_tab := replicate MAX_DEV (None, 0)\<rparr>\<rparr>"
    by (simp add: demo_dirs_def in_names_def demo_files_def)
  have v: "dview ?S 0 = nview N 0" by (simp add: nm)
  note d = demo_search [OF N(4-6)]
  have ch: "dir_chain (nview N 0) 0 (i_next demo_root) [4300]"
    using d(3) N(4) read_inode_image [OF demo_tree_wf(1)] by (simp add: dir_maps_def)
  have "read_bmap (nview N 0 4300) = demo_map" using N(5) read_bmap_image [OF demo_tree_wf(2)] by simp
  then have sl: "slots (nview N 0) [4300] = 4100 # replicate 126 0" by (simp add: slots_def demo_map_def)
  then have e: "entries (nview N 0) [4300] = [4100]" by (simp add: entries_slots)
  have nf: "name_of (nview N 0) 4100 = [97]" using N(6) read_inode_image [OF demo_dir_wf] demo_dir_path by (simp add: name_of_def)
  have fresh: "dir_fresh ?S 0 0 [4300] [slash]"
    unfolding dir_fresh_def v using ch e nf by (simp add: demo_dirs_def zero_dir_def nul_free_def)
  have dev: "0 = call_dev 1 (ds_calls ?S)"
    by (simp add: nm master_get_dev_def) (subst first_from.simps, simp add: path_len_def)
  have np: "next_place (nview N 0) [4300] 0 = Some 0" using sl by (subst next_place_step) simp
  have "room_for (in_names (ds_calls ?S)) (119 + list_cost 1 (dview ?S 0) [4300] 0)"
    unfolding v using N(1) np by (simp add: nm rd_cost_def)
  then obtain e1 e2 es S' where r: "read_names (Suc (Suc 1)) 1 root_process ?S 0 = Some (Some e1 # Some e2 # map Some es, S')"
      "list_all2 (entry_of (nview N 0) [slash]) es [4100]"
    using readdir_lists [OF fresh dev, of 1 119 root_process] e unfolding v by auto
  then obtain e where es: "es = [e]" "d_ino e = 4100" "d_name e = [slash, slash, 97]" using nf by (auto simp: list_all2_Cons2 entry_of_def)
  have three: "Suc (Suc 1) = (3 :: nat)" by simp
  have "read_names 3 1 root_process ?S 0 = Some ([Some e1, Some e2, Some e], S')" using r(1) unfolding es(1) three by (simp only: list.map)
  then show ?thesis using es(2,3) by blast
qed

end
