(* ===== verification/K_String.thy ===== *)
theory K_String
  imports OX_Prelude "HOL-Library.List_Lexorder"
begin

text \<open>
  The string functions of the kernel (\<open>libk/string.c\<close>), on a memory of bytes. Addresses are
  32-bit words and wrap around, a pointer is its address. \<open>None\<close> stands for a loop that does
  not end. A function that returns one of its arguments is modelled by the memory it leaves.
\<close>

type_synonym cmem = "u32 \<Rightarrow> u8"

section \<open>strlen, strcpy, strcat, strcmp\<close>

partial_function (option) strlen_loop :: "cmem \<Rightarrow> u32 \<Rightarrow> u32 \<Rightarrow> u32 option" where
  "strlen_loop m cs i = (if m cs \<noteq> 0 then strlen_loop m (cs + 1) (i + 1) else Some i)"

definition strlen :: "cmem \<Rightarrow> u32 \<Rightarrow> u32 option" where
  "strlen m cs = (if cs = 0 then Some 0 else strlen_loop m cs 0)"

text \<open>\<open>while (*dest++ = *src++)\<close>\<close>

partial_function (option) strcpy :: "cmem \<Rightarrow> u32 \<Rightarrow> u32 \<Rightarrow> cmem option" where
  "strcpy m dest src =
     (let c = m src; m = m(dest := c) in if c \<noteq> 0 then strcpy m (dest + 1) (src + 1) else Some m)"

text \<open>The loop that moves \<open>dest\<close> to its end.\<close>

partial_function (option) str_end :: "cmem \<Rightarrow> u32 \<Rightarrow> u32 option" where
  "str_end m p = (if p \<noteq> 0 \<and> m p \<noteq> 0 then str_end m (p + 1) else Some p)"

definition strcat :: "cmem \<Rightarrow> u32 \<Rightarrow> u32 \<Rightarrow> cmem option" where
  "strcat m dest src = do { e \<leftarrow> str_end m dest; strcpy m e src }"

text \<open>\<open>char\<close> is signed: the result is the difference of the signed values.\<close>

partial_function (option) strcmp :: "cmem \<Rightarrow> u32 \<Rightarrow> u32 \<Rightarrow> int option" where
  "strcmp m cs ct =
     (if m cs = m ct then if m cs = 0 then Some 0 else strcmp m (cs + 1) (ct + 1)
      else Some (sint (m cs) - sint (m ct)))"

section \<open>The bounded variants\<close>

text \<open>The number of rounds left is the first argument.\<close>

primrec strnlen_loop :: "nat \<Rightarrow> cmem \<Rightarrow> u32 \<Rightarrow> u32" where
  "strnlen_loop 0 m p = p"
| "strnlen_loop (Suc n) m p = (if m p \<noteq> 0 then strnlen_loop n m (p + 1) else p)"

definition strnlen :: "cmem \<Rightarrow> u32 \<Rightarrow> u32 \<Rightarrow> u32" where
  "strnlen m p len = strnlen_loop (unat len) m p - p"

text \<open>
  The copying loop ends behind the NUL when it copies one, and returns the rounds left. The
  padding loop ends with the first byte it clears, because the value of the assignment is 0.
\<close>

primrec copy_loop :: "nat \<Rightarrow> cmem \<Rightarrow> u32 \<Rightarrow> u32 \<Rightarrow> nat \<times> cmem \<times> u32" where
  "copy_loop 0 m dest src = (0, m, dest)"
| "copy_loop (Suc n) m dest src =
     (let c = m src; m = m(dest := c) in if c \<noteq> 0 then copy_loop n m (dest + 1) (src + 1) else (Suc n, m, dest + 1))"

definition strncpy :: "cmem \<Rightarrow> u32 \<Rightarrow> u32 \<Rightarrow> u32 \<Rightarrow> cmem" where
  "strncpy m dest src n =
     (let (left, m, d) = copy_loop (unat n) m dest src in if left \<noteq> 0 then m(d := 0) else m)"

definition strncat :: "cmem \<Rightarrow> u32 \<Rightarrow> u32 \<Rightarrow> u32 \<Rightarrow> cmem option" where
  "strncat m dest src n = do {
     e \<leftarrow> str_end m dest;
     let (left, m, d) = copy_loop (unat n) m e src;
     Some (m(d := 0))
   }"

text \<open>When the bound is reached the characters behind it are compared.\<close>

primrec strncmp_loop :: "nat \<Rightarrow> cmem \<Rightarrow> u32 \<Rightarrow> u32 \<Rightarrow> int" where
  "strncmp_loop 0 m cs ct = sint (m cs) - sint (m ct)"
| "strncmp_loop (Suc n) m cs ct =
     (if m cs = m ct then if m cs = 0 then 0 else strncmp_loop n m (cs + 1) (ct + 1)
      else sint (m cs) - sint (m ct))"

definition strncmp :: "cmem \<Rightarrow> u32 \<Rightarrow> u32 \<Rightarrow> u32 \<Rightarrow> int" where
  "strncmp m cs ct n = strncmp_loop (unat n) m cs ct"

section \<open>Searching\<close>

text \<open>The result 0 is NULL.\<close>

partial_function (option) strchr :: "cmem \<Rightarrow> u32 \<Rightarrow> u8 \<Rightarrow> u32 option" where
  "strchr m cs c = (if cs \<noteq> 0 \<and> m cs \<noteq> 0 then if m cs = c then Some cs else strchr m (cs + 1) c else Some 0)"

text \<open>Backwards from the NUL; the first character is not looked at.\<close>

partial_function (option) strrchr_loop :: "cmem \<Rightarrow> u32 \<Rightarrow> u32 \<Rightarrow> u8 \<Rightarrow> u32 option" where
  "strrchr_loop m s cs c = (if s \<noteq> cs then if m cs = c then Some cs else strrchr_loop m s (cs - 1) c else Some 0)"

definition strrchr :: "cmem \<Rightarrow> u32 \<Rightarrow> u8 \<Rightarrow> u32 option" where
  "strrchr m cs c = do { e \<leftarrow> str_end m cs; strrchr_loop m cs e c }"

text \<open>The inner loop of \<open>strstr\<close>: how much of \<open>ct\<close> is at \<open>p\<close>; the result is where in \<open>ct\<close> it stops.\<close>

partial_function (option) match_loop :: "cmem \<Rightarrow> u32 \<Rightarrow> u32 \<Rightarrow> u32 option" where
  "match_loop m p ct = (if ct \<noteq> 0 \<and> m ct \<noteq> 0 \<and> m p = m ct then match_loop m (p + 1) (ct + 1) else Some ct)"

partial_function (option) strstr :: "cmem \<Rightarrow> u32 \<Rightarrow> u32 \<Rightarrow> u32 option" where
  "strstr m cs ct =
     (if cs \<noteq> 0 \<and> m cs \<noteq> 0
      then do { e \<leftarrow> match_loop m cs ct; if m e = 0 then Some cs else strstr m (cs + 1) ct }
      else Some 0)"

text \<open>\<open>strspn\<close> and \<open>strcspn\<close>: an outer loop over \<open>ct\<close>, an inner one that moves \<open>cs\<close> on.\<close>

partial_function (option) span_loop :: "(u8 \<Rightarrow> bool) \<Rightarrow> cmem \<Rightarrow> u32 \<Rightarrow> u32 \<Rightarrow> (u32 \<times> u32) option" where
  "span_loop P m i cs = (if P (m cs) then span_loop P m (i + 1) (cs + 1) else Some (i, cs))"

partial_function (option) strspn_loop :: "cmem \<Rightarrow> u32 \<Rightarrow> u32 \<Rightarrow> u32 \<Rightarrow> u32 option" where
  "strspn_loop m i cs ct =
     (if cs \<noteq> 0 \<and> m cs \<noteq> 0 \<and> ct \<noteq> 0 \<and> m ct \<noteq> 0
      then do { (i, cs) \<leftarrow> span_loop (\<lambda>c. m ct = c) m i cs; strspn_loop m i cs (ct + 1) }
      else Some i)"

definition strspn :: "cmem \<Rightarrow> u32 \<Rightarrow> u32 \<Rightarrow> u32 option" where
  "strspn m cs ct = strspn_loop m 0 cs ct"

partial_function (option) strcspn_loop :: "cmem \<Rightarrow> u32 \<Rightarrow> u32 \<Rightarrow> u32 \<Rightarrow> u32 option" where
  "strcspn_loop m i cs ct =
     (if cs \<noteq> 0 \<and> m cs \<noteq> 0 \<and> ct \<noteq> 0 \<and> m ct \<noteq> 0
      then do { (i, cs) \<leftarrow> span_loop (\<lambda>c. m ct \<noteq> c) m i cs; strcspn_loop m i cs (ct + 1) }
      else Some i)"

definition strcspn :: "cmem \<Rightarrow> u32 \<Rightarrow> u32 \<Rightarrow> u32 option" where
  "strcspn m cs ct = strcspn_loop m 0 cs ct"

text \<open>\<open>strpbrk\<close> compares \<open>*(cs + i)\<close> with the \<open>i\<close>-th character of \<open>ct\<close>.\<close>

partial_function (option) any_loop :: "cmem \<Rightarrow> u32 \<Rightarrow> u32 \<Rightarrow> bool option" where
  "any_loop m p ct = (if ct \<noteq> 0 \<and> m ct \<noteq> 0 then if m p = m ct then Some True else any_loop m (p + 1) (ct + 1) else Some False)"

partial_function (option) strpbrk :: "cmem \<Rightarrow> u32 \<Rightarrow> u32 \<Rightarrow> u32 option" where
  "strpbrk m cs ct =
     (if cs \<noteq> 0 \<and> m cs \<noteq> 0
      then do { f \<leftarrow> any_loop m cs ct; if f then Some cs else strpbrk m (cs + 1) ct }
      else Some 0)"

text \<open>The static \<open>___strtok\<close> is the argument \<open>save\<close>; the result is the token, the memory and the new \<open>save\<close>.\<close>

definition strtok :: "cmem \<Rightarrow> u32 \<Rightarrow> u32 \<Rightarrow> u32 \<Rightarrow> (u32 \<times> cmem \<times> u32) option" where
  "strtok m save s ct =
     (let i = if s = 0 then save else s in
      if i = 0 then Some (0, m, save)
      else do {
        n \<leftarrow> strspn m i ct;
        let j = i + n;
        if m j = 0 then Some (0, m, save)
        else do {
          k \<leftarrow> strpbrk m j ct;
          if k = 0 then Some (j, m, 0) else Some (j, m(k := 0), k + 1)
        }
      })"

section \<open>Blocks of memory\<close>

primrec memcpy :: "nat \<Rightarrow> cmem \<Rightarrow> u32 \<Rightarrow> u32 \<Rightarrow> cmem" where
  "memcpy 0 m dest src = m"
| "memcpy (Suc n) m dest src = memcpy n (m(dest := m src)) (dest + 1) (src + 1)"

text \<open>Going down, \<open>i\<close> is unsigned and \<open>i >= 0\<close> always holds.\<close>

partial_function (option) memmove_down :: "cmem \<Rightarrow> u32 \<Rightarrow> u32 \<Rightarrow> u32 \<Rightarrow> cmem option" where
  "memmove_down m d s i = (if 0 \<le> i then memmove_down (m(d + i := m (s + i))) d s (i - 1) else Some m)"

definition memmove :: "cmem \<Rightarrow> u32 \<Rightarrow> u32 \<Rightarrow> u32 \<Rightarrow> cmem option" where
  "memmove m dest src n = (if dest > src then memmove_down m dest src (n - 1) else Some (memcpy (unat n) m dest src))"

primrec memcmp :: "nat \<Rightarrow> cmem \<Rightarrow> u32 \<Rightarrow> u32 \<Rightarrow> int" where
  "memcmp 0 m s t = 0"
| "memcmp (Suc n) m s t = (if m s = m t then memcmp n m (s + 1) (t + 1) else sint (m s) - sint (m t))"

primrec memchr :: "nat \<Rightarrow> cmem \<Rightarrow> u32 \<Rightarrow> u8 \<Rightarrow> u32" where
  "memchr 0 m s c = 0"
| "memchr (Suc n) m s c = (if m s = c then s else memchr n m (s + 1) c)"

primrec memset :: "nat \<Rightarrow> cmem \<Rightarrow> u32 \<Rightarrow> u8 \<Rightarrow> cmem" where
  "memset 0 m t c = m"
| "memset (Suc n) m t c = memset n (m(t := c)) (t + 1) c"

section \<open>Strings and blocks in memory\<close>

text \<open>A NUL-terminated string at an address, the bytes at an address, and bytes stored there.\<close>

primrec str_at :: "cmem \<Rightarrow> u32 \<Rightarrow> bytes \<Rightarrow> bool" where
  "str_at m p [] \<longleftrightarrow> m p = 0"
| "str_at m p (c # s) \<longleftrightarrow> m p = c \<and> c \<noteq> 0 \<and> str_at m (p + 1) s"

definition bytes_at :: "cmem \<Rightarrow> u32 \<Rightarrow> nat \<Rightarrow> bytes" where
  "bytes_at m p n = map (\<lambda>i. m (p + of_nat i)) [0..<n]"

primrec put :: "cmem \<Rightarrow> u32 \<Rightarrow> bytes \<Rightarrow> cmem" where
  "put m p [] = m"
| "put m p (b # bs) = put (m(p := b)) (p + 1) bs"

lemma bytes_at_Suc: "bytes_at m p (Suc n) = m p # bytes_at m (p + 1) n"
  unfolding bytes_at_def by (simp add: map_upt_Suc algebra_simps del: upt_Suc)

lemma bytes_at_0 [simp]: "bytes_at m p 0 = []"
  by (simp add: bytes_at_def)

lemma length_bytes_at [simp]: "length (bytes_at m p n) = n"
  by (simp add: bytes_at_def)

lemma bytes_at_upd: "(\<And>i. i < n \<Longrightarrow> q \<noteq> p + of_nat i) \<Longrightarrow> bytes_at (m(q := c)) p n = bytes_at m p n"
  unfolding bytes_at_def by (rule map_cong [OF refl]) (metis atLeastLessThan_iff fun_upd_apply set_upt)

lemma str_at_bytes: "str_at m p s \<longleftrightarrow> nul_free s \<and> bytes_at m p (Suc (length s)) = s @ [0]"
  by (induction s arbitrary: p) (auto simp: bytes_at_Suc nul_free_def)

lemma put_other: "(\<And>i. i < length bs \<Longrightarrow> q \<noteq> p + of_nat i) \<Longrightarrow> put m p bs q = m q"
proof (induction bs arbitrary: m p)
  case (Cons b bs)
  have "q \<noteq> p" using Cons.prems [of 0] by simp
  moreover have "q \<noteq> p + 1 + of_nat i" if "i < length bs" for i
    using Cons.prems [of "Suc i"] that by (simp add: algebra_simps)
  ultimately show ?case using Cons.IH by simp
qed simp

lemma of_nat_u32_inj: "i < 2 ^ 32 \<Longrightarrow> j < 2 ^ 32 \<Longrightarrow> (of_nat i :: u32) = of_nat j \<longleftrightarrow> i = j"
  by (metis unat_of_nat32)

lemma bytes_at_put: "length bs \<le> 2 ^ 32 \<Longrightarrow> bytes_at (put m p bs) p (length bs) = bs"
proof (induction bs arbitrary: m p)
  case (Cons b bs)
  have "put (m(p := b)) (p + 1) bs p = b"
  proof (subst put_other)
    fix i assume i: "i < length bs"
    show "p \<noteq> p + 1 + of_nat i"
      using of_nat_u32_inj [of "Suc i" 0] i Cons.prems by auto
  qed simp
  then show ?case using Cons by (simp add: bytes_at_Suc)
qed simp

section \<open>What the functions do\<close>

lemma strlen_loop_at: "str_at m p s \<Longrightarrow> strlen_loop m p i = Some (i + of_nat (length s))"
proof (induction s arbitrary: p i)
  case Nil then show ?case by (subst strlen_loop.simps) simp
next
  case (Cons c s) then show ?case by (subst strlen_loop.simps) (simp add: algebra_simps)
qed

lemma strlen_at: "str_at m p s \<Longrightarrow> p \<noteq> 0 \<Longrightarrow> strlen m p = Some (of_nat (length s))"
  by (simp add: strlen_def strlen_loop_at)

subsection \<open>Copying\<close>

text \<open>No byte is overwritten before it is read by a copy that goes up.\<close>

definition fwd_ok :: "u32 \<Rightarrow> u32 \<Rightarrow> nat \<Rightarrow> bool" where
  "fwd_ok dest src n \<longleftrightarrow> (\<forall>j < n. \<forall>i < j. dest + of_nat i \<noteq> src + of_nat j)"

lemma fwd_okI: "dest \<le> src \<Longrightarrow> unat src + n \<le> 2 ^ 32 \<Longrightarrow> fwd_ok dest src n"
proof -
  assume le: "dest \<le> src" and top: "unat src + n \<le> 2 ^ 32"
  have "dest + of_nat i \<noteq> src + of_nat j" if "i < j" "j < n" for i j
  proof -
    have d: "unat dest \<le> unat src" using le by (simp add: word_le_nat_alt)
    have "unat (dest + of_nat i) = unat dest + i" "unat (src + of_nat j) = unat src + j"
      using that top d by (simp_all add: unat_word_ariths unat_of_nat)
    then show ?thesis using that d by force
  qed
  then show ?thesis by (simp add: fwd_ok_def)
qed

lemma fwd_ok_disjoint:
  "unat src + n \<le> 2 ^ 32 \<Longrightarrow> unat dest + n \<le> 2 ^ 32 \<Longrightarrow>
   unat src + n \<le> unat dest \<or> unat dest + n \<le> unat src \<Longrightarrow> fwd_ok dest src n"
proof -
  assume top: "unat src + n \<le> 2 ^ 32" "unat dest + n \<le> 2 ^ 32"
    and dis: "unat src + n \<le> unat dest \<or> unat dest + n \<le> unat src"
  have "dest + of_nat i \<noteq> src + of_nat j" if "i < j" "j < n" for i j
  proof -
    have "unat (dest + of_nat i) = unat dest + i" "unat (src + of_nat j) = unat src + j"
      using that top by (simp_all add: unat_word_ariths unat_of_nat)
    then show ?thesis using that dis by force
  qed
  then show ?thesis by (simp add: fwd_ok_def)
qed

lemma fwd_ok_Suc: "fwd_ok dest src (Suc n) \<Longrightarrow> fwd_ok (dest + 1) (src + 1) n"
  unfolding fwd_ok_def
proof (intro allI impI)
  fix j i assume h: "\<forall>j<Suc n. \<forall>i<j. dest + word_of_nat i \<noteq> src + word_of_nat j" and "j < n" "i < j"
  then show "dest + 1 + word_of_nat i \<noteq> src + 1 + word_of_nat j"
    using h [rule_format, of "Suc j" "Suc i"] by (simp add: algebra_simps)
qed

lemma fwd_ok_ahead: "fwd_ok dest src (Suc n) \<Longrightarrow> i < n \<Longrightarrow> dest \<noteq> src + 1 + of_nat i"
  unfolding fwd_ok_def by (drule spec [of _ "Suc i"]) (force simp: algebra_simps)

lemma memcpy_copies: "fwd_ok dest src n \<Longrightarrow> memcpy n m dest src = put m dest (bytes_at m src n)"
proof (induction n arbitrary: m dest src)
  case (Suc n)
  have "bytes_at (m(dest := m src)) (src + 1) n = bytes_at m (src + 1) n"
    by (rule bytes_at_upd) (rule fwd_ok_ahead [OF Suc.prems])
  then show ?case unfolding memcpy.simps bytes_at_Suc put.simps
    by (subst Suc.IH [OF fwd_ok_Suc [OF Suc.prems]]) simp
qed simp

lemma str_at_upd: "(\<And>i. i \<le> length s \<Longrightarrow> q \<noteq> p + of_nat i) \<Longrightarrow> str_at (m(q := c)) p s = str_at m p s"
  by (simp add: str_at_bytes bytes_at_upd less_Suc_eq_le)

lemma strcpy_copies:
  "str_at m src s \<Longrightarrow> fwd_ok dest src (Suc (length s)) \<Longrightarrow> strcpy m dest src = Some (put m dest (s @ [0]))"
proof (induction s arbitrary: m dest src)
  case Nil then show ?case by (subst strcpy.simps) (simp add: Let_def)
next
  case (Cons c s)
  note ok = Cons.prems(2) [unfolded list.size add_Suc_right add_0_right]
  have "str_at (m(dest := c)) (src + 1) s"
    using Cons.prems(1) fwd_ok_ahead [OF ok] by (subst str_at_upd) (auto simp: less_Suc_eq_le)
  with Cons.prems(1) Cons.IH [OF _ fwd_ok_Suc [OF ok]] show ?case by (subst strcpy.simps) (simp add: Let_def)
qed

lemma str_end_at:
  "str_at m p s \<Longrightarrow> p \<noteq> 0 \<Longrightarrow> unat p + length s < 2 ^ 32 \<Longrightarrow> str_end m p = Some (p + of_nat (length s))"
proof (induction s arbitrary: p)
  case Nil then show ?case by (subst str_end.simps) simp
next
  case (Cons c s)
  have "unat (p + 1) = Suc (unat p)" using Cons.prems(3) by (intro u32_Suc_unat) simp
  then have "str_end m (p + 1) = Some (p + 1 + of_nat (length s))"
    using Cons.prems by (intro Cons.IH) auto
  with Cons.prems show ?case by (subst str_end.simps) (simp add: algebra_simps)
qed

lemma put_append: "put m p (as @ bs) = put (put m p as) (p + of_nat (length as)) bs"
  by (induction as arbitrary: m p) (simp_all add: algebra_simps)

lemma strcat_appends:
  assumes "str_at m dest s" "dest \<noteq> 0" "unat dest + length s < 2 ^ 32"
    and "str_at m src t" "fwd_ok (dest + of_nat (length s)) src (Suc (length t))"
  shows "strcat m dest src = Some (put m (dest + of_nat (length s)) (t @ [0]))"
  using assms by (simp add: strcat_def str_end_at strcpy_copies)

lemma memmove_up:
  "dest \<le> src \<Longrightarrow> unat src + unat n \<le> 2 ^ 32 \<Longrightarrow> memmove m dest src n = Some (put m dest (bytes_at m src (unat n)))"
  by (simp add: memmove_def memcpy_copies fwd_okI leD)

text \<open>Going down, the loop never ends: the index is unsigned.\<close>

lemma memmove_down_diverges: "memmove_down m d s i = None"
proof -
  have "False" if "memmove_down m d s i = Some r" for r
    by (rule memmove_down.raw_induct [OF _ that, where P = "\<lambda>m d s i r. False"]) (simp split: if_splits)
  then show ?thesis by (cases "memmove_down m d s i") auto
qed

lemma memmove_up_only: "src < dest \<Longrightarrow> memmove m dest src n = None"
  by (simp add: memmove_def memmove_down_diverges)

subsection \<open>Comparing\<close>

lemma sint_u8_eq: "(sint (a :: u8) = sint b) = (a = b)"
  by (metis word_eq_iff_signed)

lemma sint_u8: 
  assumes "(c :: u8) < 0x80" shows "sint c = int (unat c)"
proof -
  have "uint c < 0x80" using assms by (simp add: word_less_def)
  moreover have "- 128 \<le> uint c" using uint_ge_0 [of c] by linarith
  ultimately show ?thesis unfolding sint_uint by (subst signed_take_bit_int_eq_self) simp_all
qed

lemma strcmp_step:
  "strcmp m p q = (if m p = m q then if m p = 0 then Some 0 else strcmp m (p + 1) (q + 1)
      else Some (sint (m p) - sint (m q)))"
  by (rule strcmp.simps)

lemma strcmp_differ:
  assumes "m p \<noteq> m q"
  shows "\<exists>r. strcmp m p q = Some r \<and> r \<noteq> 0 \<and> (m p < 0x80 \<and> m q < 0x80 \<longrightarrow> (r < 0 \<longleftrightarrow> unat (m p) < unat (m q)))"
  using assms by (subst strcmp_step) (auto simp: sint_u8_eq sint_u8 simp del: uint_nat simp flip: word_less_def word_less_nat_alt)

lemma strcmp_at:
  "str_at m p s \<Longrightarrow> str_at m q t \<Longrightarrow>
   \<exists>r. strcmp m p q = Some r \<and> (r = 0 \<longleftrightarrow> s = t) \<and>
     ((\<forall>c \<in> set s \<union> set t. c < 0x80) \<longrightarrow> (r < 0 \<longleftrightarrow> map unat s < map unat t))"
proof (induction s arbitrary: p q t)
  case Nil
  show ?case
  proof (cases t)
    case [simp]: Nil
    show ?thesis using Nil.prems by (subst strcmp_step) simp
  next
    case [simp]: (Cons c u)
    have "m p \<noteq> m q" "m p = 0" "m q = c" using Nil.prems by simp_all
    then show ?thesis using strcmp_differ [of m p q] by (auto simp: unat_gt_0)
  qed
next
  case (Cons c s)
  have mp: "m p = c" "c \<noteq> 0" "str_at m (p + 1) s" using Cons.prems(1) by simp_all
  show ?case
  proof (cases t)
    case [simp]: Nil
    have "m p \<noteq> m q" "m q = 0" using Cons.prems(2) mp by simp_all
    then show ?thesis using strcmp_differ [of m p q] mp by (auto simp: unat_gt_0)
  next
    case [simp]: (Cons d u)
    have mq: "m q = d" "d \<noteq> 0" "str_at m (q + 1) u" using Cons.prems(2) by simp_all
    show ?thesis
    proof (cases "c = d")
      case True
      show ?thesis using Cons.IH [OF mp(3) mq(3)] mp mq True by (subst strcmp_step) auto
    next
      case False
      then show ?thesis using strcmp_differ [of m p q] mp mq by (auto simp: word_unat_eq_iff)
    qed
  qed
qed


subsection \<open>Searching\<close>

lemma str_at_drop: "str_at m p s \<Longrightarrow> k \<le> length s \<Longrightarrow> str_at m (p + of_nat k) (drop k s)"
proof (induction s arbitrary: p k)
  case (Cons c s)
  show ?case
  proof (cases k)
    case (Suc j)
    then show ?thesis using Cons.IH [of "p + 1" j] Cons.prems by (simp add: algebra_simps)
  qed (use Cons.prems in simp)
qed simp

text \<open>Where the comparison of \<open>ct\<close> with the text at \<open>p\<close> stops there is the NUL of \<open>ct\<close> iff \<open>ct\<close> is a prefix.\<close>

lemma match_loop_at:
  "str_at m p s \<Longrightarrow> str_at m ct t \<Longrightarrow> ct \<noteq> 0 \<Longrightarrow> unat ct + length t < 2 ^ 32 \<Longrightarrow>
   \<exists>e. match_loop m p ct = Some e \<and> (m e = 0 \<longleftrightarrow> take (length t) s = t)"
proof (induction t arbitrary: p ct s)
  case Nil then show ?case by (subst match_loop.simps) simp
next
  case (Cons d t)
  have ct: "m ct = d" "d \<noteq> 0" "str_at m (ct + 1) t" using Cons.prems(2) by simp_all
  have nz: "unat (ct + 1) = Suc (unat ct)" using Cons.prems(4) by (intro u32_Suc_unat) simp
  then have nz': "ct + 1 \<noteq> 0" by auto
  show ?case
  proof (cases s)
    case [simp]: Nil
    then show ?thesis using Cons.prems(1) ct by (subst match_loop.simps) auto
  next
    case [simp]: (Cons c u)
    have p: "m p = c" "str_at m (p + 1) u" using Cons.prems(1) by simp_all
    show ?thesis
      using Cons.IH [OF p(2) ct(3) nz'] Cons.prems(3,4) nz p ct by (subst match_loop.simps) auto
  qed
qed

definition occurs :: "bytes \<Rightarrow> bytes \<Rightarrow> nat \<Rightarrow> bool" where
  "occurs t s k \<longleftrightarrow> take (length t) (drop k s) = t"

lemma first_from_Suc: "first_from P (Suc lo) (Suc hi) = map_option Suc (first_from (P \<circ> Suc) lo hi)"
proof (induction "P \<circ> Suc" lo hi rule: first_from.induct)
  case (1 lo hi)
  then show ?case by (simp add: first_from.simps [of _ lo hi] first_from.simps [of _ "Suc lo" "Suc hi"])
qed

lemma strstr_at:
  assumes "str_at m ct t" "ct \<noteq> 0" "unat ct + length t < 2 ^ 32"
  shows "str_at m cs s \<Longrightarrow> cs \<noteq> 0 \<Longrightarrow> unat cs + length s < 2 ^ 32 \<Longrightarrow>
    strstr m cs ct = Some (case first_from (occurs t s) 0 (length s) of Some k \<Rightarrow> cs + of_nat k | None \<Rightarrow> 0)"
proof (induction s arbitrary: cs)
  case Nil then show ?case by (subst strstr.simps) (simp add: first_from.simps)
next
  case (Cons c s)
  obtain e where e: "match_loop m cs ct = Some e" "(m e = 0) = occurs t (c # s) 0"
    using match_loop_at [OF Cons.prems(1) assms] by (auto simp: occurs_def)
  have nz: "unat (cs + 1) = Suc (unat cs)" using Cons.prems(3) by (intro u32_Suc_unat) simp
  then have nz': "cs + 1 \<noteq> 0" by auto
  have IH: "strstr m (cs + 1) ct =
      Some (case first_from (occurs t s) 0 (length s) of Some k \<Rightarrow> cs + 1 + of_nat k | None \<Rightarrow> 0)"
    using Cons.prems nz nz' by (intro Cons.IH) auto
  have shift: "first_from (occurs t (c # s)) 1 (Suc (length s)) = map_option Suc (first_from (occurs t s) 0 (length s))"
    by (simp add: first_from_Suc occurs_def [abs_def] comp_def)
  show ?case
  proof (cases "occurs t (c # s) 0")
    case True
    then have "first_from (occurs t (c # s)) 0 (Suc (length s)) = Some 0" by (subst first_from.simps) simp
    then show ?thesis using e True Cons.prems by (subst strstr.simps) simp
  next
    case False
    then have "first_from (occurs t (c # s)) 0 (Suc (length s)) = map_option Suc (first_from (occurs t s) 0 (length s))"
      using shift by (subst first_from.simps) simp
    then show ?thesis using e False Cons.prems IH
      by (subst strstr.simps) (auto split: option.split simp: algebra_simps)
  qed
qed


section \<open>Properties\<close>

lemma put_str_at:
  assumes "nul_free s" "Suc (length s) \<le> 2 ^ 32"
  shows "str_at (put m p (s @ [0])) p s"
  using bytes_at_put [of "s @ [0]" m p] assms by (simp add: str_at_bytes)

lemma str_at_nul_free: "str_at m p s \<Longrightarrow> nul_free s"
  by (simp add: str_at_bytes)

lemma bytes_at_put_other:
  assumes "\<And>i j. i < length bs \<Longrightarrow> j < n \<Longrightarrow> p + of_nat i \<noteq> q + of_nat j"
  shows "bytes_at (put m p bs) q n = bytes_at m q n"
  unfolding bytes_at_def using assms by (intro map_cong [OF refl] put_other) (metis atLeastLessThan_iff set_upt)

text \<open>
  C40: A string copied with \<open>strcpy\<close> to a buffer that does not overlap it is there afterwards: \<open>strlen\<close>
  gives its length, \<open>strcmp\<close> with the original gives 0, the original is unchanged, and so is every
  byte outside the buffer.
\<close>

theorem strcpy_roundtrip:
  assumes src: "str_at m src s" and "dest \<noteq> 0"
    and top: "unat src + length s < 2 ^ 32" "unat dest + length s < 2 ^ 32"
    and dis: "unat src + length s < unat dest \<or> unat dest + length s < unat src"
  shows "\<exists>m'. strcpy m dest src = Some m' \<and> strlen m' dest = Some (of_nat (length s)) \<and>
     strcmp m' dest src = Some 0 \<and> str_at m' dest s \<and> str_at m' src s \<and>
     (\<forall>q. unat q < unat dest \<or> unat dest + length s < unat q \<longrightarrow> m' q = m q)"
proof -
  let ?m = "put m dest (s @ [0])"
  have addr: "unat (p + of_nat i) = unat p + i" if "i \<le> length s" "p = src \<or> p = dest" for p i
    using that top by (auto simp: unat_word_ariths unat_of_nat)
  have cpy: "strcpy m dest src = Some ?m"
    using top dis by (intro strcpy_copies [OF src] fwd_ok_disjoint) auto
  have d: "str_at ?m dest s" using str_at_nul_free [OF src] top by (intro put_str_at) auto
  have "bytes_at ?m src (Suc (length s)) = bytes_at m src (Suc (length s))"
  proof (rule bytes_at_put_other)
    fix i j assume "i < length (s @ [0])" "j < Suc (length s)"
    then have "unat (dest + of_nat i) \<noteq> unat (src + of_nat j)" using dis by (auto simp: addr)
    then show "dest + of_nat i \<noteq> src + of_nat j" by metis
  qed
  then have s: "str_at ?m src s" using src by (simp add: str_at_bytes)
  have "?m q = m q" if "unat q < unat dest \<or> unat dest + length s < unat q" for q
  proof (rule put_other)
    fix i assume "i < length (s @ [0])"
    then have "unat (dest + of_nat i) \<noteq> unat q" using that by (auto simp: addr)
    then show "q \<noteq> dest + of_nat i" by metis
  qed
  then show ?thesis using cpy d s strlen_at [OF d \<open>dest \<noteq> 0\<close>] strcmp_at [OF d s] by auto
qed

theorem strcpy_roundtrip_witness:
  "\<exists>m'. strcpy (put (\<lambda>_. 0) 16 [111, 120, 0]) 32 16 = Some m' \<and> strlen m' 32 = Some 2 \<and>
     strcmp m' 32 16 = Some 0 \<and> str_at m' 32 [111, 120]"
  using strcpy_roundtrip [of "put (\<lambda>_. 0) 16 [111, 120, 0]" 16 "[111, 120]" 32] by auto

text \<open>
  \<open>strstr\<close> returns: the address of the first occurrence of the pattern in a text that is not
  empty, or NULL when the pattern does not occur.
\<close>

theorem strstr_first:
  assumes "str_at m ct t" "ct \<noteq> 0" "unat ct + length t < 2 ^ 32"
    and "str_at m cs s" "cs \<noteq> 0" "unat cs + length s < 2 ^ 32" "s \<noteq> []"
  shows "(\<exists>k < length s. strstr m cs ct = Some (cs + of_nat k) \<and> take (length t) (drop k s) = t \<and>
            (\<forall>j < k. take (length t) (drop j s) \<noteq> t)) \<or>
         strstr m cs ct = Some 0 \<and> (\<nexists>u v. s = u @ t @ v)"
proof (cases "first_from (occurs t s) 0 (length s)")
  case None
  then have none: "\<not> occurs t s k" if "k < length s" for k using that by (simp add: first_from_None_iff)
  have "False" if s: "s = u @ t @ v" for u v
  proof (cases "length u < length s")
    case True
    then show ?thesis using none [of "length u"] s by (simp add: occurs_def)
  next
    case False
    then show ?thesis using none [of 0] s \<open>s \<noteq> []\<close> by (simp add: occurs_def)
  qed
  then show ?thesis using strstr_at [OF assms(1-6)] None by auto
next
  case (Some k)
  then show ?thesis using first_from_SomeD [OF Some] strstr_at [OF assms(1-6)] by (auto simp: occurs_def)
qed

theorem strstr_first_witness:
  "strstr (put (put (\<lambda>_. 0) 16 [97, 98, 97, 99, 0]) 32 [97, 99, 0]) 16 32 \<noteq> None"
  using strstr_first [of "put (put (\<lambda>_. 0) 16 [97, 98, 97, 99, 0]) 32 [97, 99, 0]" 32 "[97, 99]" 16 "[97, 98, 97, 99]"]
  by auto

text \<open>
  \<open>memmove\<close> to a lower address, or to the same one, leaves in the destination the bytes that were at
  the source, also when the two overlap; to a higher address it never returns.
\<close>

theorem memmove_overlap:
  assumes "unat src + unat n \<le> 2 ^ 32"
  shows "(case memmove m dest src n of
     Some m' \<Rightarrow> dest \<le> src \<and> bytes_at m' dest (unat n) = bytes_at m src (unat n)
   | None \<Rightarrow> src < dest)"
proof (cases "dest \<le> src")
  case True
  then show ?thesis
    using memmove_up [OF True assms] bytes_at_put [of "bytes_at m src (unat n)" m dest] assms by simp
next
  case False
  then show ?thesis by (simp add: memmove_up_only)
qed

theorem memmove_overlap_witness:
  "\<exists>m'. memmove (put (\<lambda>_. 0) 16 [1, 2, 3, 4]) 15 16 4 = Some m' \<and> bytes_at m' 15 4 = [1, 2, 3, 4]"
  using memmove_overlap [where src = 16 and n = 4 and m = "put (\<lambda>_. 0) 16 [1, 2, 3, 4]" and dest = 15]
  by (auto simp: bytes_at_def upt_conv_Cons split: option.splits)

section \<open>Where the functions differ from their comments\<close>

text \<open>
  \<open>strncpy\<close> clears one byte behind the NUL and no more; when the NUL is the last of the \<open>n\<close> bytes that
  byte lies outside the buffer.
\<close>

lemma copy_loop_at:
  "str_at m src s \<Longrightarrow> fwd_ok dest src (Suc (length s)) \<Longrightarrow> length s < n \<Longrightarrow>
   copy_loop n m dest src = (n - length s, put m dest (s @ [0]), dest + of_nat (length s) + 1)"
proof (induction s arbitrary: n m dest src)
  case Nil then show ?case by (cases n) (auto simp: Let_def)
next
  case (Cons c s)
  note ok = Cons.prems(2) [unfolded list.size add_Suc_right add_0_right]
  obtain k where n: "n = Suc k" using Cons.prems(3) by (cases n) auto
  have "str_at (m(dest := c)) (src + 1) s"
    using Cons.prems(1) fwd_ok_ahead [OF ok] by (subst str_at_upd) (auto simp: less_Suc_eq_le)
  with Cons.prems Cons.IH [OF _ fwd_ok_Suc [OF ok]] n show ?case by (simp add: Let_def algebra_simps)
qed

lemma strncpy_pads_one:
  "str_at m src s \<Longrightarrow> fwd_ok dest src (Suc (length s)) \<Longrightarrow> length s < unat n \<Longrightarrow>
   strncpy m dest src n = put m dest (s @ [0, 0])"
  using copy_loop_at [of m src s dest "unat n"] put_append [of m dest "s @ [0]" "[0]"]
  by (simp add: strncpy_def algebra_simps)

text \<open>\<open>strncmp\<close> looks at the characters behind the bound.\<close>

lemma strncmp_loop_past:
  "bytes_at m cs n = bytes_at m ct n \<Longrightarrow> 0 \<notin> set (bytes_at m cs n) \<Longrightarrow>
   strncmp_loop n m cs ct = sint (m (cs + of_nat n)) - sint (m (ct + of_nat n))"
proof (induction n arbitrary: cs ct)
  case (Suc n)
  have "strncmp_loop n m (cs + 1) (ct + 1) = sint (m (cs + 1 + of_nat n)) - sint (m (ct + 1 + of_nat n))"
    using Suc.prems by (intro Suc.IH) (simp_all add: bytes_at_Suc)
  then show ?case using Suc.prems by (simp add: bytes_at_Suc add.assoc)
qed simp

lemma strncmp_reads_past:
  "bytes_at m cs (unat n) = bytes_at m ct (unat n) \<Longrightarrow> 0 \<notin> set (bytes_at m cs (unat n)) \<Longrightarrow>
   strncmp m cs ct n = sint (m (cs + n)) - sint (m (ct + n))"
  using strncmp_loop_past [of m cs "unat n" ct] by (simp add: strncmp_def)

text \<open>\<open>strrchr\<close> does not find the first character, \<open>strspn\<close> does not find characters out of the order of \<open>ct\<close>.\<close>

lemma strrchr_misses_first: "strrchr (put (\<lambda>_. 0) 16 [47, 97, 0]) 16 47 = Some 0"
  by (simp add: strrchr_def str_end.simps strrchr_loop.simps)

lemma strspn_in_order: "strspn (put (put (\<lambda>_. 0) 16 [98, 97, 0]) 32 [97, 98, 0]) 16 32 = Some 1"
  by (simp add: strspn_def strspn_loop.simps span_loop.simps)

end
