(* ===== verification/Ktime.thy ===== *)
theory Ktime
  imports OX_Prelude "HOL-Library.Signed_Division"
begin

text \<open>
  The clock (\<open>kernel/mktime.c\<close>): the time of the CMOS clock as seconds since 1970. \<open>int\<close>, \<open>long\<close> and
  \<open>time_t\<close> are 32-bit words that wrap around, read with \<open>sint\<close>; up to the end of 2037 the result of a
  valid date does not wrap. The ports of the clock are the argument \<open>cmos\<close>: what the \<open>t\<close>-th read since
  the call finds in a register.
\<close>

section \<open>Operations\<close>

record tm =
  tm_sec :: u32
  tm_min :: u32
  tm_hour :: u32
  tm_mday :: u32
  tm_mon :: u32
  tm_year :: u32

abbreviation "MINUTE \<equiv> 60 :: u32"
abbreviation "HOUR \<equiv> 60 * MINUTE"
abbreviation "DAY \<equiv> 24 * HOUR"
abbreviation "YEAR \<equiv> 365 * DAY"

definition month :: "u32 list" where
  "month = [0,
     DAY * (31),
     DAY * (31+29),
     DAY * (31+29+31),
     DAY * (31+29+31+30),
     DAY * (31+29+31+30+31),
     DAY * (31+29+31+30+31+30),
     DAY * (31+29+31+30+31+30+31),
     DAY * (31+29+31+30+31+30+31+31),
     DAY * (31+29+31+30+31+30+31+31+30),
     DAY * (31+29+31+30+31+30+31+31+30+31),
     DAY * (31+29+31+30+31+30+31+31+30+31+30)]"

text \<open>Division and remainder of \<open>int\<close> round towards zero.\<close>

definition int_div :: "u32 \<Rightarrow> u32 \<Rightarrow> u32" where
  "int_div a b = word_of_int (sint a sdiv sint b)"

definition int_mod :: "u32 \<Rightarrow> u32 \<Rightarrow> u32" where
  "int_mod a b = word_of_int (sint a smod sint b)"

text \<open>\<open>None\<close> is a month outside the table: the code does not check it.\<close>

definition kmktime :: "tm \<Rightarrow> u32 option" where
  "kmktime t =
     (let year = tm_year t - 70;
          res = YEAR * year + DAY * int_div (year + 1) 4 in
      if sint (tm_mon t) < 0 \<or> 12 \<le> sint (tm_mon t) then None
      else
        (let res = res + month ! nat (sint (tm_mon t));
             res = (if 1 < sint (tm_mon t) \<and> int_mod (year + 2) 4 \<noteq> 0 then res - DAY else res);
             res = res + DAY * (tm_mday t - 1);
             res = res + HOUR * tm_hour t;
             res = res + MINUTE * tm_min t in
         Some (res + tm_sec t)))"

definition BCD_TO_BIN :: "u32 \<Rightarrow> u32" where
  "BCD_TO_BIN v = (v AND 15) + signed_drop_bit 4 v * 10"

type_synonym cmos = "nat \<Rightarrow> u8 \<Rightarrow> u8"

text \<open>The registers are read again until the seconds have not changed in between.\<close>

partial_function (option) read_clock :: "cmos \<Rightarrow> nat \<Rightarrow> (u8 \<times> u8 \<times> u8 \<times> u8 \<times> u8 \<times> u8) option" where
  "read_clock cmos t =
     (let sec = cmos t 0; minute = cmos (t + 1) 2; hour = cmos (t + 2) 4; mday = cmos (t + 3) 7;
          mon = cmos (t + 4) 8; year = cmos (t + 5) 9 in
      if sec \<noteq> cmos (t + 6) 0 then read_clock cmos (t + 7) else Some (sec, minute, hour, mday, mon, year))"

definition ktime :: "cmos \<Rightarrow> u32 option" where
  "ktime cmos =
     (case read_clock cmos 0 of
        None \<Rightarrow> None
      | Some (sec, minute, hour, mday, mon, year) \<Rightarrow>
          kmktime \<lparr> tm_sec = BCD_TO_BIN (ucast sec), tm_min = BCD_TO_BIN (ucast minute),
            tm_hour = BCD_TO_BIN (ucast hour), tm_mday = BCD_TO_BIN (ucast mday),
            tm_mon = BCD_TO_BIN (ucast mon) - 1, tm_year = BCD_TO_BIN (ucast year) \<rparr>)"

record cpu_times =
  utime :: u32
  stime :: u32
  cutime :: u32
  cstime :: u32

text \<open>\<open>ktimes\<close> copies the buffer to the current process; \<open>None\<close> is a NULL \<open>buf\<close>.\<close>

definition ktimes :: "cmos \<Rightarrow> cpu_times option \<Rightarrow> cpu_times \<Rightarrow> (cpu_times \<times> u32) option" where
  "ktimes cmos buf proc = map_option (\<lambda>t. (case buf of Some b \<Rightarrow> b | None \<Rightarrow> proc, t)) (ktime cmos)"

section \<open>The calendar\<close>

text \<open>Seconds since 1970 by counting the days of the years and of the months that have passed.\<close>

definition leap :: "nat \<Rightarrow> bool" where
  "leap y \<longleftrightarrow> 4 dvd y \<and> (\<not> 100 dvd y \<or> 400 dvd y)"

definition year_days :: "nat \<Rightarrow> nat" where
  "year_days y = (if leap y then 366 else 365)"

definition month_days :: "nat \<Rightarrow> nat list" where
  "month_days y = [31, if leap y then 29 else 28, 31, 30, 31, 30, 31, 31, 30, 31, 30, 31]"

definition days_since_1970 :: "nat \<Rightarrow> nat \<Rightarrow> nat \<Rightarrow> nat" where
  "days_since_1970 y m d = (\<Sum>i \<in> {1970..<y}. year_days i) + sum_list (take m (month_days y)) + (d - 1)"

definition valid_date :: "nat \<Rightarrow> nat \<Rightarrow> nat \<Rightarrow> bool" where
  "valid_date y m d \<longleftrightarrow> m < 12 \<and> 1 \<le> d \<and> d \<le> month_days y ! m"

lemma leap_2000: "leap 2000"
  by (simp add: leap_def)

lemma leap_window: 
  assumes n: "n < 130"
  shows "leap (1970 + n) \<longleftrightarrow> (n + 2) mod 4 = 0"
proof (cases "n = 30")
  case True
  then have "leap (1970 + n)" using leap_2000 by simp
  then show ?thesis using True by simp
next
  case False
  have "\<not> 100 dvd (1970 + n)"
  proof
    assume "100 dvd (1970 + n)"
    then obtain k where "1970 + n = 100 * k" unfolding dvd_def by blast
    then show False using n False by presburger
  qed
  then have "leap (1970 + n) \<longleftrightarrow> 4 dvd (1970 + n)" unfolding leap_def by blast
  also have "\<dots> \<longleftrightarrow> (n + 2) mod 4 = 0" by presburger
  finally show ?thesis .
qed

lemma year_days_sum: "n \<le> 130 \<Longrightarrow> (\<Sum>i \<in> {1970..<1970 + n}. year_days i) = 365 * n + (n + 1) div 4"
proof (induction n)
  case (Suc n)
  have "(\<Sum>i \<in> {1970..<1970 + Suc n}. year_days i) = (\<Sum>i \<in> {1970..<1970 + n}. year_days i) + year_days (1970 + n)"
    using sum.atLeastLessThan_Suc [of 1970 "1970 + n" year_days] by simp
  also have "\<dots> = 365 * n + (n + 1) div 4 + (if (n + 2) mod 4 = 0 then 366 else 365)"
    using Suc leap_window [of n] by (simp add: year_days_def)
  also have "\<dots> = 365 * Suc n + (Suc n + 1) div 4" by (cases "(n + 2) mod 4 = 0") (simp_all, presburger+)
  finally show ?case .
qed simp

lemma month_cases:
  "m < 12 \<Longrightarrow> m = 0 \<or> m = 1 \<or> m = 2 \<or> m = 3 \<or> m = 4 \<or> m = 5 \<or> m = 6 \<or> m = 7 \<or> m = 8 \<or> m = 9 \<or> m = 10 \<or> m = (11 :: nat)"
  by presburger

lemma month_table:
  assumes "n < 130" "m < 12"
  shows "month ! m = DAY * of_nat (sum_list (take m (month_days (1970 + n)))) +
    (if m > 1 \<and> (n + 2) mod 4 \<noteq> 0 then DAY else 0)"
  using leap_window [OF assms(1)] month_cases [OF assms(2)]
  by (elim disjE) (simp_all add: month_def month_days_def)

lemma sint_small: "n < 2 ^ 31 \<Longrightarrow> sint (of_nat n :: u32) = int n"
  using signed_take_bit_int_eq_self [of 31 "int n"] by (simp add: signed_of_nat)

lemma int_div_small: "n < 2 ^ 31 \<Longrightarrow> int_div (of_nat n) 4 = of_nat (n div 4)"
  using sint_small [of n] zdiv_int [of n 4] by (simp add: int_div_def signed_divide_int_def) (metis of_int_of_nat_eq)

lemma int_mod_small: "n < 2 ^ 31 \<Longrightarrow> int_mod (of_nat n) 4 = of_nat (n mod 4)"
  using sint_small [of n] zmod_int [of n 4] by (simp add: int_mod_def signed_modulo_int_def) (metis of_int_of_nat_eq)

lemma kmktime_calendar:
  assumes "n < 130" "m < 12" "1 \<le> d"
  shows "kmktime \<lparr> tm_sec = of_nat s, tm_min = of_nat mi, tm_hour = of_nat h, tm_mday = of_nat d,
      tm_mon = of_nat m, tm_year = of_nat (70 + n) \<rparr> =
    Some (of_nat (((days_since_1970 (1970 + n) m d * 24 + h) * 60 + mi) * 60 + s))"
proof -
  have dv: "int_div (of_nat n + 1) 4 = of_nat ((n + 1) div 4)"
    using int_div_small [of "n + 1"] assms(1) by (simp add: add.commute)
  have md: "int_mod (of_nat n + 2) 4 \<noteq> 0 \<longleftrightarrow> (n + 2) mod 4 \<noteq> 0"
  proof -
    have "int_mod (of_nat n + 2) 4 = of_nat ((n + 2) mod 4)" using int_mod_small [of "n + 2"] assms(1) by (simp add: add.commute)
    moreover have "unat (of_nat ((n + 2) mod 4) :: u32) = (n + 2) mod 4" by (subst unat_of_nat) simp
    ultimately show ?thesis using unat_eq_zero [of "int_mod (of_nat n + 2) 4"] by (simp only:)
  qed
  have m: "sint (of_nat m :: u32) = int m" using assms(2) by (intro sint_small) simp
  have days: "(of_nat (days_since_1970 (1970 + n) m d) :: u32) =
      365 * of_nat n + of_nat ((n + 1) div 4) + of_nat (sum_list (take m (month_days (1970 + n)))) + (of_nat d - 1)"
    using year_days_sum [of n] assms by (simp add: days_since_1970_def of_nat_diff)
  have y: "(of_nat (70 + n) :: u32) - 70 = of_nat n" by simp
  define Y where "Y = 1970 + n"
  note facts = month_table [OF assms(1,2)] days
  show ?thesis unfolding kmktime_def Let_def tm.simps y dv md m using assms(2)
    unfolding Y_def [symmetric] by (simp add: facts [folded Y_def] algebra_simps)
qed

text \<open>Days and seconds stay below the bounds of \<open>long\<close> until the end of 2037.\<close>

lemma month_days_bound: "m < 12 \<Longrightarrow> d \<le> month_days y ! m \<Longrightarrow> sum_list (take m (month_days y)) + d \<le> 366"
  by (drule month_cases) (elim disjE, simp_all add: month_days_def split: if_splits)

lemma month_days_le: "m < 12 \<Longrightarrow> month_days y ! m \<le> 31"
  by (drule month_cases) (elim disjE, simp_all add: month_days_def)

lemma seconds_bound:
  assumes "n \<le> 67" "valid_date (1970 + n) m d" "h < 24" "mi < 60" "s < 60"
  shows "((days_since_1970 (1970 + n) m d * 24 + h) * 60 + mi) * 60 + s < 2 ^ 31"
proof -
  have v: "m < 12" "1 \<le> d" "d \<le> month_days (1970 + n) ! m" using assms(2) by (simp_all add: valid_date_def)
  have "Suc n div 4 \<le> Suc 67 div 4" using assms(1) by (intro div_le_mono) simp
  then have "days_since_1970 (1970 + n) m d < 24838"
    using year_days_sum [of n] assms(1) month_days_bound [OF v(1,3)] v(2) by (simp add: days_since_1970_def)
  then show ?thesis using assms(3-5) by simp
qed

section \<open>Properties\<close>

text \<open>
  C39: For every valid date from 1970 to 2037 \<open>kmktime\<close>, in its 32-bit arithmetic, is the number of
  seconds the Gregorian calendar counts since the start of 1970, and no part of the sum wraps around:
  the result, read as a signed \<open>long\<close>, is that number.
\<close>

theorem kmktime_gregorian:
  assumes "1970 \<le> y" "y \<le> 2037" "valid_date y m d" "h < 24" "mi < 60" "s < 60"
  shows "\<exists>r. kmktime \<lparr> tm_sec = of_nat s, tm_min = of_nat mi, tm_hour = of_nat h, tm_mday = of_nat d,
      tm_mon = of_nat m, tm_year = of_nat (y - 1900) \<rparr> = Some r \<and>
    sint r = int (((days_since_1970 y m d * 24 + h) * 60 + mi) * 60 + s)"
proof -
  obtain n where n: "y = 1970 + n" using assms(1) by (metis le_Suc_ex)
  have v: "m < 12" "1 \<le> d" using assms(3) by (simp_all add: valid_date_def)
  have y: "y - 1900 = 70 + n" "n < 130" "n \<le> 67" using assms(2) n by simp_all
  show ?thesis
    using kmktime_calendar [OF y(2) v, of s mi h] sint_small [OF seconds_bound [OF y(3) assms(3) [unfolded n] assms(4-6)]]
    unfolding y(1) unfolding n by blast
qed

theorem kmktime_gregorian_witness:
  "\<exists>r. kmktime \<lparr> tm_sec = 0, tm_min = 0, tm_hour = 0, tm_mday = 1, tm_mon = 2, tm_year = 100 \<rparr> = Some r \<and>
     sint r = int (days_since_1970 2000 2 1 * 86400)"
  using kmktime_gregorian [of 2000 2 1 0 0 0] by (simp add: valid_date_def month_days_def mult.commute)

text \<open>
  From 19 January 2038, 03:14:08 on the sum wraps around and the time is before 1970.
\<close>

lemma year_2038_wraps:
  "map_option sint (kmktime \<lparr> tm_sec = 8, tm_min = 14, tm_hour = 3, tm_mday = 19, tm_mon = 0, tm_year = 138 \<rparr>) = Some (- (2 ^ 31))"
  by (simp add: kmktime_def int_div_def signed_divide_int_def month_def Let_def)

lemma read_clock_stable:
  "cmos 6 0 = cmos 0 0 \<Longrightarrow> read_clock cmos 0 = Some (cmos 0 0, cmos 1 2, cmos 2 4, cmos 3 7, cmos 4 8, cmos 5 9)"
  by (subst read_clock.simps) (simp add: Let_def numeral_eq_Suc)

text \<open>A number below 100 in the clock's code.\<close>

definition to_bcd :: "nat \<Rightarrow> u8" where
  "to_bcd n = of_nat (16 * (n div 10) + n mod 10)"

lemma bcd_unat: "n < 100 \<Longrightarrow> unat (to_bcd n) = 16 * (n div 10) + n mod 10"
proof -
  assume "n < 100"
  then have "n div 10 < 10" "n mod 10 < 10" by (simp_all add: less_mult_imp_div_less)
  then have "16 * (n div 10) + n mod 10 < 256" by linarith
  then show ?thesis unfolding to_bcd_def by (subst unat_of_nat) simp
qed

lemma bcd_back:
  assumes "n < 100"
  shows "BCD_TO_BIN (ucast (to_bcd n)) = of_nat n"
proof -
  let ?k = "16 * (n div 10) + n mod 10"
  have "n div 10 < 10" "n mod 10 < 10" using assms by (simp_all add: less_mult_imp_div_less)
  then have k: "?k < 160" by linarith
  have v: "(ucast (to_bcd n) :: u32) = of_nat ?k"
    using bcd_unat [OF assms] by (metis of_nat_unat)
  have "(of_nat ?k :: u32) AND 15 = of_nat (?k AND 15)" by (simp add: of_nat_and_eq)
  also have "?k AND 15 = n mod 10"
  proof -
    have "?k AND 15 = take_bit 4 ?k" by (simp add: take_bit_eq_mask mask_eq_exp_minus_1)
    also have "\<dots> = n mod 10" by (simp add: take_bit_nat_def)
    finally show ?thesis .
  qed
  finally have lo: "(of_nat ?k :: u32) AND 15 = of_nat (n mod 10)" .
  have "sint (signed_drop_bit 4 (of_nat ?k :: u32)) = int (n div 10)"
    using k sint_small [of ?k] by (simp add: sint_signed_drop_bit_eq drop_bit_int_def)
  then have hi: "signed_drop_bit 4 (of_nat ?k :: u32) = of_nat (n div 10)" 
    using sint_small [of "n div 10"] assms by (intro signed_word_eqI [where ?'a = int]) simp
  have "(of_nat (n mod 10) :: u32) + of_nat (n div 10) * 10 = of_nat (n mod 10 + n div 10 * 10)"
    by (simp only: of_nat_add of_nat_mult of_nat_numeral)
  then show ?thesis unfolding BCD_TO_BIN_def v lo hi by simp
qed

text \<open>
  When the clock holds a valid date of the years 1970 to 1999 and does not tick between the reads,
  \<open>ktime\<close> returns, after one round, the seconds the calendar counts up to that time.
\<close>

theorem ktime_reads_clock:
  assumes "1970 \<le> y" "y < 2000" "valid_date y m d" "h < 24" "mi < 60" "s < 60"
    and "cmos 0 0 = to_bcd s" "cmos 1 2 = to_bcd mi" "cmos 2 4 = to_bcd h" "cmos 3 7 = to_bcd d"
      "cmos 4 8 = to_bcd (m + 1)" "cmos 5 9 = to_bcd (y - 1900)" "cmos 6 0 = to_bcd s"
  shows "ktime cmos = Some (of_nat (((days_since_1970 y m d * 24 + h) * 60 + mi) * 60 + s))"
proof -
  have v: "m < 12" "1 \<le> d" "d \<le> 31" using assms(3) month_days_le [of m y] by (auto simp: valid_date_def)
  have "ktime cmos = kmktime \<lparr> tm_sec = of_nat s, tm_min = of_nat mi, tm_hour = of_nat h, tm_mday = of_nat d, tm_mon = of_nat m,
      tm_year = of_nat (70 + (y - 1970)) \<rparr>"
    using assms v read_clock_stable [of cmos]
    by (simp add: ktime_def bcd_back)
  also have "\<dots> = Some (of_nat (((days_since_1970 y m d * 24 + h) * 60 + mi) * 60 + s))"
    using kmktime_calendar [of "y - 1970" m d s mi h] assms(1,2) v by simp
  finally show ?thesis .
qed

theorem ktime_reads_clock_witness:
  "ktime (\<lambda>t r. if r = 0 then 0x30 else if r = 2 then 0x59 else if r = 4 then 0x23 else if r = 7 then 0x31
      else if r = 8 then 0x12 else 0x99) = Some (of_nat (((days_since_1970 1999 11 31 * 24 + 23) * 60 + 59) * 60 + 30))"
  by (rule ktime_reads_clock) (simp_all add: valid_date_def month_days_def to_bcd_def)

text \<open>
  The year register has two digits, and from 2000 on \<open>year - 70\<close> is negative: the clock of
  1 January 2024 gives a time before 1970.
\<close>

lemma two_digit_year:
  "map_option sint (kmktime \<lparr> tm_sec = 0, tm_min = 0, tm_hour = 0, tm_mday = 1, tm_mon = 0, tm_year = BCD_TO_BIN 0x24 \<rparr>) =
     Some (- 1451606400)"
  by (simp add: kmktime_def BCD_TO_BIN_def month_def int_div_def signed_divide_int_def Let_def)

text \<open>\<open>times\<close> should fill the buffer; \<open>ktimes\<close> overwrites the times of the process with it.\<close>

lemma ktimes_overwrites: "ktimes cmos (Some b) proc = Some (proc', t) \<Longrightarrow> proc' = b"
  by (auto simp: ktimes_def)

end
