(* ===== verification/Page_Alloc.thy ===== *)
theory Page_Alloc
  imports Bitmap
begin

text \<open>
  The page allocator, \<open>mm/page.c\<close> (built with \<open>_ENABLE_PAGING\<close>). Physical memory is a
  byte for each 32-bit address; the bit maps, the page tables and the page
  directory lie in it at the addresses \<open>mem_init\<close> computes. Every unsigned variable
  of the C file is a \<open>u32\<close>, the two signed counters too, read with \<open>sint\<close>.
\<close>

section \<open>State\<close>

abbreviation (input) PAGE_SIZE :: u32 where "PAGE_SIZE \<equiv> 4096"
abbreviation (input) PAGE_BITS :: u32 where "PAGE_BITS \<equiv> 32768"
abbreviation (input) BITS_PER_BYTE :: u32 where "BITS_PER_BYTE \<equiv> 8"
abbreviation (input) ONE_MEG :: u32 where "ONE_MEG \<equiv> 1048576"
abbreviation (input) PAGE_TABLE_SIZE :: u32 where "PAGE_TABLE_SIZE \<equiv> 1024"
abbreviation (input) ONE_FULL_PAGE_TABLE_BYTES :: u32 where "ONE_FULL_PAGE_TABLE_BYTES \<equiv> 4194304"
abbreviation (input) Nr_GDT :: nat where "Nr_GDT \<equiv> 8192"

type_synonym ram = "u32 \<Rightarrow> u8"

record pagemem =
  RAM :: ram
  mem_map :: u32
  ALLOC_PAGES :: u32
  KALLOC_PAGES :: u32
  MEM_SIZE :: u32
  NR_PAGES :: u32
  NR_KPAGES :: u32
  NR_MEM_MAP :: u32
  KLAST_PAGE :: u32
  ULAST_PAGE :: u32
  START_KMEM :: u32
  START_UMEM :: u32
  END_KMEM :: u32
  END_UMEM :: u32
  KBYTES_FREE :: u32
  UBYTES_FREE :: u32
  NR_PAGE_TABLES :: u32
  REAL_KERNEL_END :: u32
  PAGE_TABLE_BYTES :: u32
  KERNEL_PAGE_TABLE :: u32
  KERNEL_PAGE_DIR :: u32
  GDT_MAP :: "bool list"

section \<open>The bit map\<close>

text \<open>The byte that holds a page's bit: \<open>&mem_map[block].page[byte]\<close>.\<close>

definition map_byte :: "pagemem \<Rightarrow> u32 \<Rightarrow> u32" where
  "map_byte s page =
     (let block = page div PAGE_BITS; byte = page mod PAGE_BITS div BITS_PER_BYTE in
      mem_map s + block * PAGE_SIZE + byte)"

definition map_bit :: "u32 \<Rightarrow> nat" where
  "map_bit page = unat (page mod PAGE_BITS mod BITS_PER_BYTE)"

definition mem_set_bit :: "pagemem \<Rightarrow> u32 \<Rightarrow> pagemem" where
  "mem_set_bit s page =
     s\<lparr>RAM := (RAM s)(map_byte s page := RAM s (map_byte s page) OR push_bit (map_bit page) 1)\<rparr>"

definition mem_clear_bit :: "pagemem \<Rightarrow> u32 \<Rightarrow> pagemem" where
  "mem_clear_bit s page =
     s\<lparr>RAM := (RAM s)(map_byte s page := RAM s (map_byte s page) AND NOT (push_bit (map_bit page) 1))\<rparr>"

definition mem_test_bit :: "pagemem \<Rightarrow> u32 \<Rightarrow> u32" where
  "mem_test_bit s page =
     drop_bit (map_bit page) (ucast (RAM s (map_byte s page)) AND push_bit (map_bit page) 1)"

section \<open>Allocation\<close>

text \<open>The inner loop over a candidate run: the offset of the first page in use.\<close>

definition run_busy :: "pagemem \<Rightarrow> u32 \<Rightarrow> u32 \<Rightarrow> nat option" where
  "run_busy s page nr_pages = first_from (\<lambda>run. mem_test_bit s (page + of_nat run) = 1) 0 (unat nr_pages)"

fun set_bits :: "pagemem \<Rightarrow> u32 \<Rightarrow> nat \<Rightarrow> pagemem" where
  "set_bits s page 0 = s"
| "set_bits s page (Suc n) = set_bits (mem_set_bit s page) (page + 1) n"

fun clear_bits :: "pagemem \<Rightarrow> u32 \<Rightarrow> nat \<Rightarrow> pagemem" where
  "clear_bits s page 0 = s"
| "clear_bits s page (Suc n) = clear_bits (mem_clear_bit s page) (page + 1) n"

text \<open>
  The outer loop, from \<open>page\<close> up to \<open>limit\<close>: the first page that starts a free run.
  After a run that does not fit, the scan goes on behind the page that was in use.
\<close>

partial_function (option) run_scan :: "pagemem \<Rightarrow> u32 \<Rightarrow> u32 \<Rightarrow> u32 \<Rightarrow> u32 option option" where
  "run_scan s nr_pages limit page =
     (if page < limit
      then if mem_test_bit s page = 0
           then case run_busy s page nr_pages of
                  None \<Rightarrow> Some (Some page)
                | Some run \<Rightarrow> run_scan s nr_pages limit (page + of_nat run + 1)
           else run_scan s nr_pages limit (page + 1)
      else Some None)"

definition page_take :: "pagemem \<Rightarrow> u32 \<Rightarrow> u32 \<Rightarrow> u32 \<times> pagemem" where
  "page_take s page nr_pages =
     (page * PAGE_SIZE,
      (set_bits s page (unat nr_pages))\<lparr>ULAST_PAGE := page + nr_pages + 1, ALLOC_PAGES := ALLOC_PAGES s + nr_pages\<rparr>)"

definition page_alloc :: "pagemem \<Rightarrow> u32 \<Rightarrow> (u32 \<times> pagemem) option" where
  "page_alloc s nr_pages =
     (if ALLOC_PAGES s * PAGE_SIZE \<ge> UBYTES_FREE s then Some (0, s)
      else do {
        let s = (if ULAST_PAGE s = 0 then s\<lparr>ULAST_PAGE := START_UMEM s div PAGE_SIZE\<rparr> else s);
        hit \<leftarrow> run_scan s nr_pages (NR_PAGES s) (ULAST_PAGE s);
        case hit of
          Some page \<Rightarrow> Some (page_take s page nr_pages)
        | None \<Rightarrow> do {
            hit \<leftarrow> run_scan s nr_pages (ULAST_PAGE s) (START_UMEM s div PAGE_SIZE);
            case hit of
              Some page \<Rightarrow> Some (page_take s page nr_pages)
            | None \<Rightarrow> Some (0, s)
          }
      })"

definition page_free :: "pagemem \<Rightarrow> u32 \<Rightarrow> u32 \<Rightarrow> pagemem option" where
  "page_free s addr nr_pages =
     (let page = addr div PAGE_SIZE in
      if page < NR_KPAGES s \<or> page > NR_PAGES s then None
      else
        let s = (clear_bits s page (unat nr_pages))\<lparr>ULAST_PAGE := page, ALLOC_PAGES := ALLOC_PAGES s - nr_pages\<rparr>
        in if sint (ALLOC_PAGES s) < 0 then None else Some s)"

definition kpage_take :: "pagemem \<Rightarrow> u32 \<Rightarrow> u32 \<Rightarrow> u32 \<times> pagemem" where
  "kpage_take s page nr_pages =
     (page * PAGE_SIZE,
      (set_bits s page (unat nr_pages))\<lparr>KLAST_PAGE := page + nr_pages + 1, KALLOC_PAGES := KALLOC_PAGES s + nr_pages\<rparr>)"

definition kpage_alloc :: "pagemem \<Rightarrow> u32 \<Rightarrow> (u32 \<times> pagemem) option" where
  "kpage_alloc s nr_pages =
     (if KALLOC_PAGES s * PAGE_SIZE \<ge> KBYTES_FREE s then Some (0, s)
      else do {
        let s = (if KLAST_PAGE s = 0 then s\<lparr>KLAST_PAGE := START_KMEM s div PAGE_SIZE\<rparr> else s);
        hit \<leftarrow> run_scan s nr_pages (NR_KPAGES s) (KLAST_PAGE s);
        case hit of
          Some page \<Rightarrow> Some (kpage_take s page nr_pages)
        | None \<Rightarrow> do {
            hit \<leftarrow> run_scan s nr_pages (KLAST_PAGE s) (START_KMEM s div PAGE_SIZE);
            case hit of
              Some page \<Rightarrow> Some (kpage_take s page nr_pages)
            | None \<Rightarrow> Some (0, s)
          }
      })"

definition kpage_free :: "pagemem \<Rightarrow> u32 \<Rightarrow> u32 \<Rightarrow> pagemem option" where
  "kpage_free s addr nr_pages =
     (let page = addr div PAGE_SIZE in
      if page > NR_KPAGES s then None
      else
        let s = (clear_bits s page (unat nr_pages))\<lparr>KLAST_PAGE := page, KALLOC_PAGES := KALLOC_PAGES s - nr_pages\<rparr>
        in if sint (KALLOC_PAGES s) < 0 then None else Some s)"

definition get_nr_pages :: "pagemem \<Rightarrow> u32" where "get_nr_pages s = NR_PAGES s"
definition get_nr_kpages :: "pagemem \<Rightarrow> u32" where "get_nr_kpages s = NR_KPAGES s"
definition get_nr_allocated_pages :: "pagemem \<Rightarrow> u32" where "get_nr_allocated_pages s = ALLOC_PAGES s"
definition get_nr_kallocated_pages :: "pagemem \<Rightarrow> u32" where "get_nr_kallocated_pages s = KALLOC_PAGES s"

definition get_user_bytes_free :: "pagemem \<Rightarrow> u32" where
  "get_user_bytes_free s = UBYTES_FREE s - ALLOC_PAGES s * PAGE_SIZE"

definition get_kernel_bytes_free :: "pagemem \<Rightarrow> u32" where
  "get_kernel_bytes_free s = KBYTES_FREE s - KALLOC_PAGES s * PAGE_SIZE"

definition alloc_gdt :: "pagemem \<Rightarrow> (nat \<times> pagemem) option" where
  "alloc_gdt s =
     (case first_from (\<lambda>i. \<not> GDT_MAP s ! i) 0 Nr_GDT of
        Some i \<Rightarrow> Some (i, s\<lparr>GDT_MAP := (GDT_MAP s)[i := True]\<rparr>)
      | None \<Rightarrow> None)"

section \<open>The bit map is a set of pages\<close>

lemma map_byte_eq: "map_byte s page = mem_map s + of_nat (unat page div 8)"
proof -
  have "unat page div 32768 * 4096 + unat page mod 32768 div 8 = unat page div 8"
  proof -
    have "unat page div 8 = (unat page div 32768 * 32768 + unat page mod 32768) div 8" by simp
    also have "\<dots> = (unat page div 32768 * 4096 * 8 + unat page mod 32768) div 8" by simp
    also have "\<dots> = unat page div 32768 * 4096 + unat page mod 32768 div 8"
      by (subst div_mult_self3) simp_all
    finally show ?thesis by simp
  qed
  moreover have "page div 32768 * 4096 + page mod 32768 div 8 =
      of_nat (unat page div 32768 * 4096 + unat page mod 32768 div 8)"
    by (simp add: word_arith_nat_div word_arith_nat_mod unat_word_ariths unat_of_nat)
  ultimately show ?thesis
    unfolding map_byte_def Let_def by (simp add: add.assoc)
qed

lemma map_bit_eq: "map_bit page = unat page mod 8"
  by (simp add: map_bit_def unat_mod mod_mod_cancel)

lemma map_byte_inj:
  assumes "map_byte s p = map_byte s q" shows "unat p div 8 = unat q div 8"
proof -
  have "(of_nat (unat p div 8) :: u32) = of_nat (unat q div 8)" using assms by (simp add: map_byte_eq)
  moreover have "unat x div 8 < 2 ^ 32" for x :: u32
    using le_less_trans [OF div_le_dividend unat_lt_word32, of x 8] by simp
  ultimately show ?thesis by (metis unat_of_nat32)
qed

lemma page_eqI: "unat p div 8 = unat q div 8 \<Longrightarrow> map_bit p = map_bit q \<Longrightarrow> p = q"
  using div_mod_8_eqI [of "unat p" "unat q"] by (simp add: map_bit_eq word_unat_eq_iff)

lemma mem_test_bit_bit:
  "mem_test_bit s page = (if bit (RAM s (map_byte s page)) (map_bit page) then 1 else 0)"
proof (rule bit_word_eqI)
  fix n assume "n < LENGTH(32)"
  have "map_bit page < 8" by (simp add: map_bit_eq)
  then show "bit (mem_test_bit s page) n \<longleftrightarrow>
      bit (if bit (RAM s (map_byte s page)) (map_bit page) then 1 else 0 :: u32) n"
    by (cases "n = 0") (auto simp: mem_test_bit_def bit_simps bit_1_iff)
qed

definition in_use :: "pagemem \<Rightarrow> nat \<Rightarrow> bool" where
  "in_use s p \<longleftrightarrow> mem_test_bit s (of_nat p) = 1"

lemma mem_test_bit_0 [simp]: "mem_test_bit s page = 0 \<longleftrightarrow> \<not> in_use s (unat page)"
  by (simp add: in_use_def mem_test_bit_bit)

lemma mem_test_bit_1 [simp]: "mem_test_bit s page = 1 \<longleftrightarrow> in_use s (unat page)"
  by (simp add: in_use_def)

lemma map_byte_upd [simp]: "map_byte (s\<lparr>RAM := r\<rparr>) = map_byte s"
  by (simp add: map_byte_def fun_eq_iff)

lemma in_use_set_bit:
  "in_use (mem_set_bit s p) (unat q) \<longleftrightarrow> q = p \<or> in_use s (unat q)"
proof -
  have "map_bit p < 8" by (simp add: map_bit_eq)
  then show ?thesis
    using page_eqI [of q p] map_byte_inj [of s q p]
    by (auto simp: in_use_def mem_test_bit_bit mem_set_bit_def bit_simps)
qed

lemma in_use_clear_bit:
  "in_use (mem_clear_bit s p) (unat q) \<longleftrightarrow> q \<noteq> p \<and> in_use s (unat q)"
proof -
  have "map_bit q < 8" for q by (simp add: map_bit_eq)
  then show ?thesis
    using page_eqI [of q p] map_byte_inj [of s q p]
    by (auto simp: in_use_def mem_test_bit_bit mem_clear_bit_def bit_simps)
qed

interpretation page_map: bitmap in_use "\<lambda>s i. mem_set_bit s (of_nat i)" "\<lambda>s i. mem_clear_bit s (of_nat i)"
    "\<lambda>s i. i < 2 ^ 32"
proof
  fix s i j assume "i < (2::nat) ^ 32" "j < (2::nat) ^ 32"
  moreover from this have "(of_nat j :: u32) = of_nat i \<longleftrightarrow> j = i" by (metis unat_of_nat32)
  ultimately show "in_use (mem_set_bit s (of_nat i)) j \<longleftrightarrow> j = i \<or> in_use s j"
    "in_use (mem_clear_bit s (of_nat i)) j \<longleftrightarrow> j \<noteq> i \<and> in_use s j"
    using in_use_set_bit [of s "of_nat i" "of_nat j"] in_use_clear_bit [of s "of_nat i" "of_nat j"]
    by (auto simp: unat_of_nat32)
qed simp_all

section \<open>Scanning for a run\<close>

text \<open>A run of \<open>n\<close> pages may start at page \<open>q\<close>: the test both loops make.\<close>

definition fits :: "pagemem \<Rightarrow> nat \<Rightarrow> nat \<Rightarrow> bool" where
  "fits s n q \<longleftrightarrow> \<not> in_use s q \<and> (\<forall>k < n. \<not> in_use s (q + k))"

lemma unat_add_of_nat:
  "unat page + r < 2 ^ 32 \<Longrightarrow> unat (page + of_nat r :: u32) = unat page + r"
  by (simp add: unat_word_ariths unat_of_nat)

lemma run_busy_None:
  assumes "unat page + unat nr < 2 ^ 32"
  shows "run_busy s page nr = None \<longleftrightarrow> (\<forall>k < unat nr. \<not> in_use s (unat page + k))"
  using assms by (simp add: run_busy_def first_from_None_iff unat_add_of_nat)

lemma run_busy_Some:
  assumes "run_busy s page nr = Some r" "unat page + unat nr < 2 ^ 32"
  shows "r < unat nr" "in_use s (unat page + r)"
  using first_from_SomeD [OF assms(1) [unfolded run_busy_def]] assms(2) by (auto simp: unat_add_of_nat)

lemma run_scan_result:
  assumes "unat limit + unat nr < 2 ^ 32"
  shows "\<exists>hit. run_scan s nr limit page = Some hit \<and>
    (case hit of
       Some p \<Rightarrow> page \<le> p \<and> p < limit \<and> fits s (unat nr) (unat p)
     | None \<Rightarrow> \<forall>q. unat page \<le> q \<longrightarrow> q < unat limit \<longrightarrow> \<not> fits s (unat nr) q)"
proof (induction "unat limit - unat page" arbitrary: page rule: less_induct)
  case less
  note unfold = run_scan.simps [of s nr limit page]
  show ?case
  proof (cases "page < limit")
    case False
    then show ?thesis by (simp add: unfold word_less_nat_alt not_less)
  next
    case True
    then have lt: "unat page < unat limit" by (simp add: word_less_nat_alt)
    have go: ?thesis if r: "unat page + r < unat limit + unat nr" "run_scan s nr limit page = run_scan s nr limit (page + of_nat r + 1)"
      and skip: "\<And>q. unat page \<le> q \<Longrightarrow> q \<le> unat page + r \<Longrightarrow> \<not> fits s (unat nr) q" for r
    proof -
      have u: "unat (page + of_nat r + 1) = unat page + r + 1"
        using unat_add_of_nat [of page "r + 1"] r(1) assms by (simp add: ac_simps)
      then have "unat limit - unat (page + of_nat r + 1) < unat limit - unat page" using lt by simp
      from less [OF this] obtain hit where hit: "run_scan s nr limit (page + of_nat r + 1) = Some hit"
        "case hit of Some p \<Rightarrow> page + of_nat r + 1 \<le> p \<and> p < limit \<and> fits s (unat nr) (unat p)
         | None \<Rightarrow> \<forall>q. unat (page + of_nat r + 1) \<le> q \<longrightarrow> q < unat limit \<longrightarrow> \<not> fits s (unat nr) q" by blast
      have "\<not> fits s (unat nr) q" if "unat page \<le> q" "q < unat limit" "hit = None" for q
        using that hit(2) skip [of q] u by (cases "q \<le> unat page + r") auto
      with hit r(2) u show ?thesis
        by (auto simp: word_le_nat_alt split: option.splits)
    qed
    show ?thesis
    proof (cases "in_use s (unat page)")
      case used: True
      then have "\<not> fits s (unat nr) q" if "unat page \<le> q" "q \<le> unat page + 0" for q
        using that by (auto simp: fits_def)
      with True used lt show ?thesis by (intro go [of 0]) (simp_all add: unfold)
    next
      case free: False
      show ?thesis
      proof (cases "run_busy s page nr")
        case None
        with run_busy_None [of page nr s] lt assms True free show ?thesis
          by (simp add: unfold fits_def)
      next
        case (Some r)
        note r = run_busy_Some [OF Some]
        have "\<not> fits s (unat nr) q" if q: "unat page \<le> q" "q \<le> unat page + r" for q
        proof -
          have "q + (unat page + r - q) = unat page + r" "unat page + r - q < unat nr"
            using q r(1) lt assms by simp_all
          then show ?thesis using r(2) lt assms by (auto simp: fits_def)
        qed
        with True free Some lt r(1) assms show ?thesis by (intro go [of r]) (simp_all add: unfold)
      qed
    qed
  qed
qed

section \<open>Marking a run\<close>

lemma set_bits_set_run: "set_bits s (of_nat p) n = page_map.set_run s p n"
  by (induction n arbitrary: s p) (simp_all flip: of_nat_Suc add: add.commute)

lemma clear_bits_clear_run: "clear_bits s (of_nat p) n = page_map.clear_run s p n"
  by (induction n arbitrary: s p) (simp_all flip: of_nat_Suc add: add.commute)

lemma in_use_set_bits:
  "unat page + n \<le> 2 ^ 32 \<Longrightarrow> q < 2 ^ 32 \<Longrightarrow>
     in_use (set_bits s page n) q \<longleftrightarrow> (unat page \<le> q \<and> q < unat page + n) \<or> in_use s q"
  using page_map.test_set_run [of "unat page" n q s] set_bits_set_run [of s "unat page" n] by simp

lemma in_use_clear_bits:
  "unat page + n \<le> 2 ^ 32 \<Longrightarrow> q < 2 ^ 32 \<Longrightarrow>
     in_use (clear_bits s page n) q \<longleftrightarrow> \<not> (unat page \<le> q \<and> q < unat page + n) \<and> in_use s q"
  using page_map.test_clear_run [of "unat page" n q s] clear_bits_clear_run [of s "unat page" n] by simp

lemma set_bits_only_RAM: "set_bits s page n = s\<lparr>RAM := RAM (set_bits s page n)\<rparr>"
proof (induction n arbitrary: s page)
  case (Suc n)
  show ?case using Suc [of "mem_set_bit s page" "page + 1"] by (simp add: mem_set_bit_def)
qed simp

lemma clear_bits_only_RAM: "clear_bits s page n = s\<lparr>RAM := RAM (clear_bits s page n)\<rparr>"
proof (induction n arbitrary: s page)
  case (Suc n)
  show ?case using Suc [of "mem_clear_bit s page" "page + 1"] by (simp add: mem_clear_bit_def)
qed simp

lemma bits_fields [simp, frame]:
  "ALLOC_PAGES (set_bits s p n) = ALLOC_PAGES s" "KALLOC_PAGES (set_bits s p n) = KALLOC_PAGES s"
  "NR_PAGES (set_bits s p n) = NR_PAGES s" "NR_KPAGES (set_bits s p n) = NR_KPAGES s"
  "START_UMEM (set_bits s p n) = START_UMEM s" "START_KMEM (set_bits s p n) = START_KMEM s"
  "ULAST_PAGE (set_bits s p n) = ULAST_PAGE s" "KLAST_PAGE (set_bits s p n) = KLAST_PAGE s"
  "ALLOC_PAGES (clear_bits s p n) = ALLOC_PAGES s" "KALLOC_PAGES (clear_bits s p n) = KALLOC_PAGES s"
  by (subst set_bits_only_RAM clear_bits_only_RAM, simp)+

lemma in_use_fields [simp]:
  "in_use (s\<lparr>ULAST_PAGE := x\<rparr>) = in_use s" "in_use (s\<lparr>ALLOC_PAGES := y\<rparr>) = in_use s"
  "in_use (s\<lparr>KLAST_PAGE := x\<rparr>) = in_use s" "in_use (s\<lparr>KALLOC_PAGES := y\<rparr>) = in_use s"
  by (simp_all add: in_use_def mem_test_bit_def map_byte_def fun_eq_iff)

lemma fits_fields [simp]:
  "fits (s\<lparr>ULAST_PAGE := x\<rparr>) = fits s" "fits (s\<lparr>KLAST_PAGE := x\<rparr>) = fits s"
  by (simp_all add: fits_def fun_eq_iff)

section \<open>Allocators of runs of pages\<close>

text \<open>
  The contract of a page allocator: the set of pages in use, and a budget of pages
  the addresses still leave room for. An allocation either changes nothing and
  returns NULL, or returns the address of a run of pages that were free and are
  now in use.
\<close>

fun alloc_list :: "('s \<Rightarrow> u32 \<Rightarrow> (u32 \<times> 's) option) \<Rightarrow> 's \<Rightarrow> u32 list \<Rightarrow> (u32 list \<times> 's) option" where
  "alloc_list al s [] = Some ([], s)"
| "alloc_list al s (n # ns) = do {
     (a, s1) \<leftarrow> al s n;
     (as, s2) \<leftarrow> alloc_list al s1 ns;
     Some (a # as, s2)
   }"

definition pages_of :: "u32 \<Rightarrow> u32 \<Rightarrow> nat set" where
  "pages_of addr n = (if addr = 0 then {} else {unat addr div 4096..<unat addr div 4096 + unat n})"

fun disjoint_runs :: "(u32 \<times> u32) list \<Rightarrow> bool" where
  "disjoint_runs [] = True"
| "disjoint_runs ((a, n) # rs) = ((\<forall>(b, m) \<in> set rs. pages_of a n \<inter> pages_of b m = {}) \<and> disjoint_runs rs)"

locale run_allocator =
  fixes al :: "'s \<Rightarrow> u32 \<Rightarrow> (u32 \<times> 's) option"
    and used :: "'s \<Rightarrow> nat set"
    and ok :: "'s \<Rightarrow> nat \<Rightarrow> bool"
  assumes alloc_run: "ok s (Suc (unat n) + k) \<Longrightarrow> \<exists>a s'. al s n = Some (a, s') \<and> ok s' k \<and>
      pages_of a n \<inter> used s = {} \<and> used s' = used s \<union> pages_of a n"
begin

lemma alloc_list_disjoint:
  assumes "ok s (sum_list (map (\<lambda>n. Suc (unat n)) ns) + k)"
  shows "\<exists>as s'. alloc_list al s ns = Some (as, s') \<and> ok s' k \<and> length as = length ns \<and>
    disjoint_runs (zip as ns) \<and>
    (\<forall>(a, n) \<in> set (zip as ns). pages_of a n \<inter> used s = {}) \<and>
    used s' = used s \<union> (\<Union>(a, n) \<in> set (zip as ns). pages_of a n)"
  using assms
proof (induction ns arbitrary: s)
  case Nil
  then show ?case by simp
next
  case (Cons n ns)
  let ?k = "sum_list (map (\<lambda>n. Suc (unat n)) ns) + k"
  have "ok s (Suc (unat n) + ?k)" using Cons.prems by (simp add: add.assoc)
  from alloc_run [OF this] obtain a s1 where s1: "al s n = Some (a, s1)" "ok s1 ?k"
    "pages_of a n \<inter> used s = {}" "used s1 = used s \<union> pages_of a n" by blast
  from Cons.IH [OF s1(2)] obtain as s2 where s2: "alloc_list al s1 ns = Some (as, s2)" "ok s2 k"
    "length as = length ns" "disjoint_runs (zip as ns)"
    "\<forall>(b, m) \<in> set (zip as ns). pages_of b m \<inter> used s1 = {}"
    "used s2 = used s1 \<union> (\<Union>(a, n) \<in> set (zip as ns). pages_of a n)" by blast
  have "alloc_list al s (n # ns) = Some (a # as, s2)" using s1(1) s2(1) by simp
  moreover have "disjoint_runs (zip (a # as) (n # ns))"
    using s2(4,5) s1(4) by fastforce
  moreover have "\<forall>(b, m) \<in> set (zip (a # as) (n # ns)). pages_of b m \<inter> used s = {}"
    using s2(5) s1(3,4) by fastforce
  moreover have "used s2 = used s \<union> (\<Union>(a, n) \<in> set (zip (a # as) (n # ns)). pages_of a n)"
    using s2(6) s1(4) by auto
  ultimately show ?case using s2(2,3) by auto
qed

end

section \<open>Both page allocators meet the contract\<close>

definition used_pages :: "pagemem \<Rightarrow> nat set" where
  "used_pages s = {q. q < 2 ^ 32 \<and> in_use s q}"

lemma used_pages_fields [simp]:
  "used_pages (s\<lparr>ULAST_PAGE := x\<rparr>) = used_pages s" "used_pages (s\<lparr>ALLOC_PAGES := y\<rparr>) = used_pages s"
  "used_pages (s\<lparr>KLAST_PAGE := x\<rparr>) = used_pages s" "used_pages (s\<lparr>KALLOC_PAGES := y\<rparr>) = used_pages s"
  by (simp_all add: used_pages_def)

lemma used_pages_set_bits:
  "unat page + n \<le> 2 ^ 32 \<Longrightarrow> used_pages (set_bits s page n) = used_pages s \<union> {unat page..<unat page + n}"
  by (auto simp: used_pages_def in_use_set_bits)

lemma used_pages_clear_bits:
  "unat page + n \<le> 2 ^ 32 \<Longrightarrow> used_pages (clear_bits s page n) = used_pages s - {unat page..<unat page + n}"
  by (auto simp: used_pages_def in_use_clear_bits)

lemma fits_unused: "fits s n q \<Longrightarrow> {q..<q + n} \<inter> used_pages s = {}"
proof -
  assume fit: "fits s n q"
  have "\<not> in_use s p" if "q \<le> p" "p < q + n" for p
    using fit that le_iff_add [of q p] by (auto simp: fits_def)
  then show ?thesis by (auto simp: used_pages_def)
qed

text \<open>Page numbers below \<open>2 ^ 20\<close> have an address; page 0 shares its address with NULL.\<close>

lemma page_addr:
  fixes p :: u32 assumes "unat p < 2 ^ 20"
  shows "unat (p * 4096) = unat p * 4096" "p * 4096 div 4096 = p"
proof -
  show u: "unat (p * 4096) = unat p * 4096" using assms by (subst u32_mult_unat) simp_all
  then show "p * 4096 div 4096 = p"
    by (simp add: word_unat_eq_iff unat_div)
qed

lemma pages_of_page:
  fixes p n :: u32 assumes "unat p < 2 ^ 20" "0 < p"
  shows "pages_of (p * 4096) n = {unat p..<unat p + unat n}"
proof -
  have "0 < unat p" using assms(2) by (simp add: word_less_nat_alt)
  with page_addr [OF assms(1)] have "p * 4096 \<noteq> 0" by (auto simp: word_unat_eq_iff)
  with page_addr [OF assms(1)] show ?thesis by (simp add: pages_of_def)
qed

text \<open>
  The two scans of an allocator: behind the last page used up to the limit, then
  from the start of the region up to the last page used.
\<close>

lemma two_scans:
  assumes "unat lim + unat nr < 2 ^ 20" "unat last_page + unat nr < 2 ^ 20" "start \<le> last_page"
  obtains (found) p where "start \<le> p" "unat p < unat lim \<or> unat p < unat last_page" "fits s (unat nr) (unat p)"
      "\<And>(f :: u32 \<Rightarrow> u32 \<times> pagemem) g. (do { hit \<leftarrow> run_scan s nr lim last_page; case hit of Some page \<Rightarrow> Some (f page)
        | None \<Rightarrow> do { hit \<leftarrow> run_scan s nr last_page start; case hit of Some page \<Rightarrow> Some (f page) | None \<Rightarrow> g } }) = Some (f p)"
  | (full) "\<forall>q. unat start \<le> q \<longrightarrow> q < unat lim \<longrightarrow> \<not> fits s (unat nr) q"
      "\<And>(f :: u32 \<Rightarrow> u32 \<times> pagemem) g. (do { hit \<leftarrow> run_scan s nr lim last_page; case hit of Some page \<Rightarrow> Some (f page)
        | None \<Rightarrow> do { hit \<leftarrow> run_scan s nr last_page start; case hit of Some page \<Rightarrow> Some (f page) | None \<Rightarrow> g } }) = g"
proof -
  have "unat lim + unat nr < 2 ^ 32" "unat last_page + unat nr < 2 ^ 32" using assms(1,2) by simp_all
  from run_scan_result [OF this(1), of s last_page] run_scan_result [OF this(2), of s start]
  obtain h1 h2 where h1: "run_scan s nr lim last_page = Some h1"
      "case h1 of Some p \<Rightarrow> last_page \<le> p \<and> p < lim \<and> fits s (unat nr) (unat p)
       | None \<Rightarrow> \<forall>q. unat last_page \<le> q \<longrightarrow> q < unat lim \<longrightarrow> \<not> fits s (unat nr) q"
    and h2: "run_scan s nr last_page start = Some h2"
      "case h2 of Some p \<Rightarrow> start \<le> p \<and> p < last_page \<and> fits s (unat nr) (unat p)
       | None \<Rightarrow> \<forall>q. unat start \<le> q \<longrightarrow> q < unat last_page \<longrightarrow> \<not> fits s (unat nr) q"
    by blast
  consider p where "h1 = Some p" | p where "h1 = None" "h2 = Some p" | "h1 = None" "h2 = None"
    by (cases h1; cases h2) auto
  then show thesis
  proof cases
    case (1 p)
    with h1 assms(3) show ?thesis by (intro found [of p]) (auto simp: word_less_nat_alt)
  next
    case (2 p)
    with h1 h2 show ?thesis by (intro found [of p]) (auto simp: word_less_nat_alt)
  next
    case 3
    with h1 h2 show ?thesis by (intro full) (auto simp: not_le [symmetric])
  qed
qed

definition upages_ok :: "pagemem \<Rightarrow> nat \<Rightarrow> bool" where
  "upages_ok s k \<longleftrightarrow> unat (NR_PAGES s) + k \<le> 2 ^ 20 \<and> unat (ULAST_PAGE s) + k \<le> 2 ^ 20 \<and>
     unat (START_UMEM s div 4096) + k \<le> 2 ^ 20 \<and> 0 < START_UMEM s div 4096 \<and>
     (ULAST_PAGE s = 0 \<or> START_UMEM s div 4096 \<le> ULAST_PAGE s)"

definition kpages_ok :: "pagemem \<Rightarrow> nat \<Rightarrow> bool" where
  "kpages_ok s k \<longleftrightarrow> unat (NR_KPAGES s) + k \<le> 2 ^ 20 \<and> unat (KLAST_PAGE s) + k \<le> 2 ^ 20 \<and>
     unat (START_KMEM s div 4096) + k \<le> 2 ^ 20 \<and> 0 < START_KMEM s div 4096 \<and>
     (KLAST_PAGE s = 0 \<or> START_KMEM s div 4096 \<le> KLAST_PAGE s)"

text \<open>The state the user allocator scans in, with \<open>ULAST_PAGE\<close> set on the first call.\<close>

definition u_start :: "pagemem \<Rightarrow> pagemem" where
  "u_start s = (if ULAST_PAGE s = 0 then s\<lparr>ULAST_PAGE := START_UMEM s div PAGE_SIZE\<rparr> else s)"

definition k_start :: "pagemem \<Rightarrow> pagemem" where
  "k_start s = (if KLAST_PAGE s = 0 then s\<lparr>KLAST_PAGE := START_KMEM s div PAGE_SIZE\<rparr> else s)"

lemma page_alloc_cases:
  assumes "upages_ok s (Suc (unat nr) + k)"
  obtains (exhausted) "page_alloc s nr = Some (0, s)" "ALLOC_PAGES s * PAGE_SIZE \<ge> UBYTES_FREE s"
  | (nofit) "page_alloc s nr = Some (0, u_start s)"
      "\<forall>q. unat (START_UMEM s div 4096) \<le> q \<longrightarrow> q < unat (NR_PAGES s) \<longrightarrow> \<not> fits s (unat nr) q"
  | (fit) p where "page_alloc s nr = Some (page_take (u_start s) p nr)"
      "START_UMEM s div 4096 \<le> p" "unat p < unat (NR_PAGES s) \<or> unat p < unat (ULAST_PAGE s)"
      "unat p + Suc (unat nr) + k \<le> 2 ^ 20" "0 < p" "fits s (unat nr) (unat p)"
proof (cases "ALLOC_PAGES s * PAGE_SIZE \<ge> UBYTES_FREE s")
  case True
  then show thesis by (intro exhausted) (simp_all add: page_alloc_def)
next
  case False
  let ?s = "u_start s"
  have same: "NR_PAGES ?s = NR_PAGES s" "START_UMEM ?s = START_UMEM s" "fits ?s = fits s"
    by (simp_all add: u_start_def)
  have bounds: "unat (NR_PAGES s) + unat nr < 2 ^ 20" "unat (ULAST_PAGE ?s) + unat nr < 2 ^ 20"
    "START_UMEM s div 4096 \<le> ULAST_PAGE ?s"
    using assms by (auto simp: upages_ok_def u_start_def)
  have alloc: "page_alloc s nr = do {
      hit \<leftarrow> run_scan ?s nr (NR_PAGES s) (ULAST_PAGE ?s);
      case hit of Some page \<Rightarrow> Some (page_take ?s page nr)
      | None \<Rightarrow> do { hit \<leftarrow> run_scan ?s nr (ULAST_PAGE ?s) (START_UMEM s div 4096);
          case hit of Some page \<Rightarrow> Some (page_take ?s page nr) | None \<Rightarrow> Some (0, ?s) } }"
    using False by (simp add: page_alloc_def same Let_def flip: u_start_def)
  from bounds show thesis
  proof (cases rule: two_scans [where s = ?s])
    case (found p)
    have "page_alloc s nr = Some (page_take ?s p nr)" unfolding alloc by (rule found(4))
    moreover have "unat p < unat (NR_PAGES s) \<or> unat p < unat (ULAST_PAGE s)"
      using found(1,2) by (auto simp: u_start_def word_le_nat_alt split: if_splits)
    moreover have "0 < p" using found(1) assms by (auto simp: upages_ok_def word_le_nat_alt word_less_nat_alt)
    ultimately show ?thesis using found assms same by (intro fit [of p]) (auto simp: upages_ok_def)
  next
    case full
    have "page_alloc s nr = Some (0, ?s)" unfolding alloc by (rule full(2))
    with full(1) same show ?thesis by (intro nofit) simp_all
  qed
qed

lemma page_alloc_run:
  assumes ok: "upages_ok s (Suc (unat nr) + k)"
  shows "\<exists>a s'. page_alloc s nr = Some (a, s') \<and> upages_ok s' k \<and>
    pages_of a nr \<inter> used_pages s = {} \<and> used_pages s' = used_pages s \<union> pages_of a nr"
  using ok
proof (cases rule: page_alloc_cases)
  case exhausted
  with ok show ?thesis by (auto simp: pages_of_def upages_ok_def)
next
  case nofit
  with ok show ?thesis by (auto simp: pages_of_def upages_ok_def u_start_def)
next
  case (fit p)
  have "used_pages (u_start s) = used_pages s" by (simp add: u_start_def)
  moreover have "unat (p + nr + 1) = unat p + unat nr + 1"
    using fit(4) by (simp add: unat_word_ariths)
  ultimately show ?thesis
    using fit ok pages_of_page [of p nr] fits_unused [OF fit(6)]
    by (auto simp: page_take_def used_pages_set_bits upages_ok_def word_le_nat_alt u_start_def)
qed

lemma kpage_alloc_cases:
  assumes "kpages_ok s (Suc (unat nr) + k)"
  obtains (exhausted) "kpage_alloc s nr = Some (0, s)" "KALLOC_PAGES s * PAGE_SIZE \<ge> KBYTES_FREE s"
  | (nofit) "kpage_alloc s nr = Some (0, k_start s)"
      "\<forall>q. unat (START_KMEM s div 4096) \<le> q \<longrightarrow> q < unat (NR_KPAGES s) \<longrightarrow> \<not> fits s (unat nr) q"
  | (fit) p where "kpage_alloc s nr = Some (kpage_take (k_start s) p nr)"
      "START_KMEM s div 4096 \<le> p" "unat p < unat (NR_KPAGES s) \<or> unat p < unat (KLAST_PAGE s)"
      "unat p + Suc (unat nr) + k \<le> 2 ^ 20" "0 < p" "fits s (unat nr) (unat p)"
proof (cases "KALLOC_PAGES s * PAGE_SIZE \<ge> KBYTES_FREE s")
  case True
  then show thesis by (intro exhausted) (simp_all add: kpage_alloc_def)
next
  case False
  let ?s = "k_start s"
  have same: "NR_KPAGES ?s = NR_KPAGES s" "START_KMEM ?s = START_KMEM s" "fits ?s = fits s"
    by (simp_all add: k_start_def)
  have bounds: "unat (NR_KPAGES s) + unat nr < 2 ^ 20" "unat (KLAST_PAGE ?s) + unat nr < 2 ^ 20"
    "START_KMEM s div 4096 \<le> KLAST_PAGE ?s"
    using assms by (auto simp: kpages_ok_def k_start_def)
  have alloc: "kpage_alloc s nr = do {
      hit \<leftarrow> run_scan ?s nr (NR_KPAGES s) (KLAST_PAGE ?s);
      case hit of Some page \<Rightarrow> Some (kpage_take ?s page nr)
      | None \<Rightarrow> do { hit \<leftarrow> run_scan ?s nr (KLAST_PAGE ?s) (START_KMEM s div 4096);
          case hit of Some page \<Rightarrow> Some (kpage_take ?s page nr) | None \<Rightarrow> Some (0, ?s) } }"
    using False by (simp add: kpage_alloc_def same Let_def flip: k_start_def)
  from bounds show thesis
  proof (cases rule: two_scans [where s = ?s])
    case (found p)
    have "kpage_alloc s nr = Some (kpage_take ?s p nr)" unfolding alloc by (rule found(4))
    moreover have "unat p < unat (NR_KPAGES s) \<or> unat p < unat (KLAST_PAGE s)"
      using found(1,2) by (auto simp: k_start_def word_le_nat_alt split: if_splits)
    moreover have "0 < p" using found(1) assms by (auto simp: kpages_ok_def word_le_nat_alt word_less_nat_alt)
    ultimately show ?thesis using found assms same by (intro fit [of p]) (auto simp: kpages_ok_def)
  next
    case full
    have "kpage_alloc s nr = Some (0, ?s)" unfolding alloc by (rule full(2))
    with full(1) same show ?thesis by (intro nofit) simp_all
  qed
qed

lemma kpage_alloc_run:
  assumes ok: "kpages_ok s (Suc (unat nr) + k)"
  shows "\<exists>a s'. kpage_alloc s nr = Some (a, s') \<and> kpages_ok s' k \<and>
    pages_of a nr \<inter> used_pages s = {} \<and> used_pages s' = used_pages s \<union> pages_of a nr"
  using ok
proof (cases rule: kpage_alloc_cases)
  case exhausted
  with ok show ?thesis by (auto simp: pages_of_def kpages_ok_def)
next
  case nofit
  with ok show ?thesis by (auto simp: pages_of_def kpages_ok_def k_start_def)
next
  case (fit p)
  have "used_pages (k_start s) = used_pages s" by (simp add: k_start_def)
  moreover have "unat (p + nr + 1) = unat p + unat nr + 1"
    using fit(4) by (simp add: unat_word_ariths)
  ultimately show ?thesis
    using fit ok pages_of_page [of p nr] fits_unused [OF fit(6)]
    by (auto simp: kpage_take_def used_pages_set_bits kpages_ok_def word_le_nat_alt k_start_def)
qed


interpretation user_pages: run_allocator page_alloc used_pages upages_ok
  by unfold_locales (rule page_alloc_run)

interpretation kernel_pages: run_allocator kpage_alloc used_pages kpages_ok
  by unfold_locales (rule kpage_alloc_run)

section \<open>Freeing\<close>

lemma start_simps [simp]:
  "used_pages (u_start s) = used_pages s" "ALLOC_PAGES (u_start s) = ALLOC_PAGES s"
  "NR_KPAGES (u_start s) = NR_KPAGES s" "NR_PAGES (u_start s) = NR_PAGES s"
  by (simp_all add: u_start_def)

text \<open>A page that fits makes \<open>page_alloc\<close> succeed: the scan skips no such page.\<close>

lemma page_alloc_succeeds:
  assumes "upages_ok s (Suc (unat nr))" "ALLOC_PAGES s * PAGE_SIZE < UBYTES_FREE s"
    and "unat (START_UMEM s div PAGE_SIZE) \<le> q" "q < unat (NR_PAGES s)" "fits s (unat nr) q"
  shows "\<exists>a s'. page_alloc s nr = Some (a, s') \<and> a \<noteq> 0"
proof -
  have "upages_ok s (Suc (unat nr) + 0)" using assms(1) by simp
  then show ?thesis
  proof (cases rule: page_alloc_cases)
    case (fit p)
    have "unat (p * 4096) \<noteq> 0" using page_addr(1) [of p] fit(4,5) by (simp add: word_less_nat_alt)
    then have "p * 4096 \<noteq> 0" by auto
    with fit(1) show ?thesis by (simp add: page_take_def)
  qed (use assms in auto)
qed

lemma page_free_take:
  assumes ok: "upages_ok s (Suc (unat nr) + k)" and p: "unat p + unat nr < 2 ^ 20" "NR_KPAGES s \<le> p" "p \<le> NR_PAGES s"
    and fit: "fits s (unat nr) (unat p)" and cnt: "0 \<le> sint (ALLOC_PAGES s)"
    and take: "page_take (u_start s) p nr = (a, s1)"
  shows "\<exists>s2. page_free s1 a nr = Some s2 \<and> used_pages s2 = used_pages s \<and> ALLOC_PAGES s2 = ALLOC_PAGES s"
proof -
  have a: "a div 4096 = p" "a = p * 4096" using take page_addr(2) [of p] p by (auto simp: page_take_def)
  have s1: "used_pages s1 = used_pages s \<union> {unat p..<unat p + unat nr}"
      "ALLOC_PAGES s1 = ALLOC_PAGES s + nr" "NR_KPAGES s1 = NR_KPAGES s" "NR_PAGES s1 = NR_PAGES s"
    using take p by (auto simp: page_take_def used_pages_set_bits)
  let ?s2 = "(clear_bits s1 p (unat nr))\<lparr>ULAST_PAGE := p, ALLOC_PAGES := ALLOC_PAGES s1 - nr\<rparr>"
  have "page_free s1 a nr = Some ?s2"
    using p a(1) s1 cnt by (simp add: page_free_def Let_def not_less)
  moreover have "used_pages ?s2 = used_pages s"
    using p s1(1) fits_unused [OF fit] by (auto simp: used_pages_clear_bits)
  ultimately show ?thesis using s1 by simp
qed

section \<open>A small machine for the witnesses\<close>

text \<open>32 MB of memory, 16 MB of them the kernel's, no page in use.\<close>

definition demo_pages :: pagemem where
  "demo_pages = \<lparr>RAM = (\<lambda>a. 0), mem_map = 0x20C000, ALLOC_PAGES = 0, KALLOC_PAGES = 0,
     MEM_SIZE = 0x2000000, NR_PAGES = 8192, NR_KPAGES = 4096, NR_MEM_MAP = 1, KLAST_PAGE = 0,
     ULAST_PAGE = 0, START_KMEM = 0x20D000, START_UMEM = 0x1000000, END_KMEM = 0x1000000,
     END_UMEM = 0x2000000, KBYTES_FREE = 0xDF3000, UBYTES_FREE = 0x1000000, NR_PAGE_TABLES = 8,
     REAL_KERNEL_END = 0x209000, PAGE_TABLE_BYTES = 0x8000, KERNEL_PAGE_TABLE = 0x201000,
     KERNEL_PAGE_DIR = 0x200000, GDT_MAP = replicate Nr_GDT False\<rparr>"

lemma demo_pages_fields:
  "NR_PAGES demo_pages = 8192" "NR_KPAGES demo_pages = 4096" "ALLOC_PAGES demo_pages = 0"
  "KALLOC_PAGES demo_pages = 0" "KBYTES_FREE demo_pages = 0xDF3000" "UBYTES_FREE demo_pages = 0x1000000"
  "ULAST_PAGE demo_pages = 0" "START_UMEM demo_pages = 0x1000000" "START_KMEM demo_pages = 0x20D000"
  by (simp_all add: demo_pages_def)

lemma demo_pages_free: "\<not> in_use demo_pages p" "fits demo_pages n q" "used_pages demo_pages = {}"
  by (simp_all add: in_use_def fits_def used_pages_def mem_test_bit_bit demo_pages_def)

section \<open>Properties\<close>

text \<open>
  C27: User page allocations never overlap: any sequence of \<open>page_alloc\<close> calls returns, and
  the runs of pages it hands out are pairwise disjoint, were all free before, and
  are exactly the pages newly marked in use. (The budget only says that page
  numbers stay below the 20 bits an address has.)
\<close>

theorem page_allocs_disjoint:
  assumes "upages_ok s (sum_list (map (\<lambda>n. Suc (unat n)) ns) + k)"
  shows "\<exists>as s'. alloc_list page_alloc s ns = Some (as, s') \<and> length as = length ns \<and>
    disjoint_runs (zip as ns) \<and>
    (\<forall>(a, n) \<in> set (zip as ns). pages_of a n \<inter> used_pages s = {}) \<and>
    used_pages s' = used_pages s \<union> (\<Union>(a, n) \<in> set (zip as ns). pages_of a n)"
  using user_pages.alloc_list_disjoint [OF assms] by blast

theorem page_allocs_disjoint_witness:
  "\<exists>as s'. alloc_list page_alloc demo_pages [3, 1, 7] = Some (as, s') \<and> disjoint_runs (zip as [3, 1, 7])"
  using page_allocs_disjoint [of demo_pages "[3, 1, 7]" 0]
  by (auto simp: upages_ok_def demo_pages_def)

text \<open>
  The same of the kernel allocator \<open>kpage_alloc\<close>.
\<close>

theorem kpage_allocs_disjoint:
  assumes "kpages_ok s (sum_list (map (\<lambda>n. Suc (unat n)) ns) + k)"
  shows "\<exists>as s'. alloc_list kpage_alloc s ns = Some (as, s') \<and> length as = length ns \<and>
    disjoint_runs (zip as ns) \<and>
    (\<forall>(a, n) \<in> set (zip as ns). pages_of a n \<inter> used_pages s = {}) \<and>
    used_pages s' = used_pages s \<union> (\<Union>(a, n) \<in> set (zip as ns). pages_of a n)"
  using kernel_pages.alloc_list_disjoint [OF assms] by blast

theorem kpage_allocs_disjoint_witness:
  "\<exists>as s'. alloc_list kpage_alloc demo_pages [2, 2] = Some (as, s') \<and> disjoint_runs (zip as [2, 2])"
  using kpage_allocs_disjoint [of demo_pages "[2, 2]" 0]
  by (auto simp: kpages_ok_def demo_pages_def)

text \<open>
  C28: \<open>page_alloc\<close> is complete although its scan skips ahead: while fewer bytes than the
  user region holds are allocated, it returns NULL only if no run of that many free
  pages starts anywhere in the user region.
\<close>

theorem page_alloc_complete:
  assumes "upages_ok s (Suc (unat nr))" "ALLOC_PAGES s * PAGE_SIZE < UBYTES_FREE s"
    and "unat (START_UMEM s div PAGE_SIZE) \<le> q" "q < unat (NR_PAGES s)" "fits s (unat nr) q"
  shows "\<exists>a s'. page_alloc s nr = Some (a, s') \<and> a \<noteq> 0"
  using assms by (rule page_alloc_succeeds)

theorem page_alloc_complete_witness:
  "\<exists>a s'. page_alloc demo_pages 100 = Some (a, s') \<and> a \<noteq> 0"
  using page_alloc_complete [of demo_pages 100 5000] demo_pages_free(2)
  by (auto simp: upages_ok_def demo_pages_def)

text \<open>
  Freeing undoes allocating: when \<open>page_alloc\<close> returns a run that starts in the user
  region, \<open>page_free\<close> of it with the same length returns, and the pages in use and
  the page count are again what they were.
\<close>

theorem page_alloc_free:
  assumes "upages_ok s (Suc (unat nr))" "page_alloc s nr = Some (a, s1)" "a \<noteq> 0"
    and "NR_KPAGES s = START_UMEM s div PAGE_SIZE" "ULAST_PAGE s \<le> NR_PAGES s" "0 \<le> sint (ALLOC_PAGES s)"
  shows "\<exists>s2. page_free s1 a nr = Some s2 \<and> used_pages s2 = used_pages s \<and> ALLOC_PAGES s2 = ALLOC_PAGES s"
proof -
  have ok: "upages_ok s (Suc (unat nr) + 0)" using assms(1) by simp
  then show ?thesis
  proof (cases rule: page_alloc_cases)
    case (fit p)
    with assms(2) have "page_take (u_start s) p nr = (a, s1)" by simp
    with fit assms(4-6) show ?thesis
      by (intro page_free_take [OF ok]) (auto simp: word_le_nat_alt)
  qed (use assms in auto)
qed

theorem page_alloc_free_witness:
  "\<exists>a s1 s2. page_alloc demo_pages 6 = Some (a, s1) \<and> page_free s1 a 6 = Some s2 \<and> used_pages s2 = {}"
proof -
  have ok: "upages_ok demo_pages (Suc (unat (6 :: u32)))" by (simp add: upages_ok_def demo_pages_def)
  obtain a s1 where "page_alloc demo_pages 6 = Some (a, s1)" "a \<noteq> 0"
    using page_alloc_succeeds [OF ok, of 5000] demo_pages_free(2) by (auto simp: demo_pages_def)
  with page_alloc_free [OF ok, of a s1] show ?thesis
    by (auto simp: demo_pages_free demo_pages_fields)
qed

text \<open>
  Neither allocator checks that the run ends inside its region: when the last kernel
  page is free and so is the first user page, \<open>kpage_alloc\<close> of two pages or more
  returns a run that includes the first user page, and \<open>page_alloc\<close> at the end of
  memory one that includes a page that does not exist.
\<close>

theorem alloc_overruns_region:
  assumes "2 \<le> nr" "unat nr < 2 ^ 19" "unat (NR_KPAGES s) < 2 ^ 19" "unat (NR_PAGES s) < 2 ^ 19"
    and "KALLOC_PAGES s * PAGE_SIZE < KBYTES_FREE s" "ALLOC_PAGES s * PAGE_SIZE < UBYTES_FREE s"
    and "KLAST_PAGE s = NR_KPAGES s - 1" "1 < NR_KPAGES s" "fits s (unat nr) (unat (KLAST_PAGE s))"
    and "ULAST_PAGE s = NR_PAGES s - 1" "1 < NR_PAGES s" "fits s (unat nr) (unat (ULAST_PAGE s))"
  shows "(\<exists>a s'. kpage_alloc s nr = Some (a, s') \<and> unat (NR_KPAGES s) \<in> pages_of a nr) \<and>
    (\<exists>a s'. page_alloc s nr = Some (a, s') \<and> unat (NR_PAGES s) \<in> pages_of a nr)"
proof
  have first: "run_scan s nr lim (lim - 1) = Some (Some (lim - 1))" "0 < lim - 1"
      "unat lim \<in> pages_of ((lim - 1) * 4096) nr"
    if "unat lim < 2 ^ 19" "1 < lim" "fits s (unat nr) (unat (lim - 1))" for lim
  proof -
    have u: "unat (lim - 1) = unat lim - 1" "0 < unat lim - 1" "2 \<le> unat nr"
      using that(1,2) assms(1) by (simp_all add: unat_sub_if' word_less_nat_alt word_le_nat_alt)
    then have lt: "lim - 1 < lim" "0 < lim - 1" by (simp_all add: word_less_nat_alt)
    then show "0 < lim - 1" by simp
    have "run_busy s (lim - 1) nr = None"
      using that u assms(2) by (subst run_busy_None) (auto simp: fits_def)
    with lt that(3) show "run_scan s nr lim (lim - 1) = Some (Some (lim - 1))"
      by (simp add: run_scan.simps [of s nr lim "lim - 1"] fits_def)
    have "unat (lim - 1) < 2 ^ 20" using that(1) u by simp
    from pages_of_page [OF this lt(2), of nr] u show "unat lim \<in> pages_of ((lim - 1) * 4096) nr" by simp
  qed
  show "\<exists>a s'. kpage_alloc s nr = Some (a, s') \<and> unat (NR_KPAGES s) \<in> pages_of a nr"
    using first [of "NR_KPAGES s"] assms by (auto simp: kpage_alloc_def kpage_take_def not_le)
  show "\<exists>a s'. page_alloc s nr = Some (a, s') \<and> unat (NR_PAGES s) \<in> pages_of a nr"
    using first [of "NR_PAGES s"] assms by (auto simp: page_alloc_def page_take_def not_le)
qed

theorem alloc_overruns_region_witness:
  "\<exists>a s'. kpage_alloc (demo_pages\<lparr>KLAST_PAGE := 4095, ULAST_PAGE := 8191\<rparr>) 2 = Some (a, s') \<and> 4096 \<in> pages_of a 2"
  using alloc_overruns_region [of 2 "demo_pages\<lparr>KLAST_PAGE := 4095, ULAST_PAGE := 8191\<rparr>"]
  by (simp add: demo_pages_fields demo_pages_free)

end
