(* ===== verification/Paging.thy ===== *)
theory Paging
  imports Page_Alloc
begin

text \<open>
  The set-up of memory in \<open>mm/page.c\<close>: sizing the memory, laying out the page
  directory, the page tables and the bit maps behind the kernel image, the identity
  mapping, and the read-only marking of user pages.

  \<open>mem_size\<close> probes one doubleword per megabyte; whether a doubleword keeps what is
  written to it is the parameter \<open>holds\<close>, a property of the machine. The memory itself, \<open>RAM\<close>, is total: a
  store is kept at every address, also where the machine has no memory. The code stores its tables
  without asking whether they fit, so what is proved of their contents is about machines with
  memory up to the end of the tables.
\<close>

section \<open>Doublewords in memory\<close>

definition load32 :: "ram \<Rightarrow> u32 \<Rightarrow> u32" where
  "load32 r a = le_word [r a, r (a + 1), r (a + 2), r (a + 3)]"

definition store32 :: "ram \<Rightarrow> u32 \<Rightarrow> u32 \<Rightarrow> ram" where
  "store32 r a w = r(a := le_bytes 4 w ! 0, a + 1 := le_bytes 4 w ! 1, a + 2 := le_bytes 4 w ! 2,
     a + 3 := le_bytes 4 w ! 3)"

section \<open>Operations\<close>

text \<open>The \<open>do\<close> loop of \<open>mem_size\<close>: counts megabytes until a probe fails.\<close>

function mem_probe :: "(u32 \<Rightarrow> bool) \<Rightarrow> nat \<Rightarrow> u32 \<Rightarrow> nat" where
  "mem_probe holds memkb mem_count =
     (let memkb = Suc memkb; mem = mem_count + ONE_MEG; mem_count = (if holds mem then mem else 0) in
      if memkb < 4096 \<and> mem_count \<noteq> 0 then mem_probe holds memkb mem_count else memkb)"
  by pat_completeness auto
termination
  by (relation "measure (\<lambda>(h, m, c). 4096 - m)") (auto simp: Let_def)

declare mem_probe.simps [simp del]

definition mem_size :: "(u32 \<Rightarrow> bool) \<Rightarrow> u32" where
  "mem_size holds = push_bit 20 (of_nat (mem_probe holds 0 0))"

definition mem_get_size :: "pagemem \<Rightarrow> u32" where
  "mem_get_size s = MEM_SIZE s"

function idpaging_loop :: "ram \<Rightarrow> u32 \<Rightarrow> u32 \<Rightarrow> int \<Rightarrow> ram" where
  "idpaging_loop r first_pte from sz =
     (if sz > 0
      then idpaging_loop (store32 r first_pte (from OR 1)) (first_pte + 4) (from + 4096) (sz - 4096)
      else r)"
  by pat_completeness auto
termination
  by (relation "measure (\<lambda>(r, p, f, sz). nat sz)") auto

declare idpaging_loop.simps [simp del]

definition idpaging :: "ram \<Rightarrow> u32 \<Rightarrow> u32 \<Rightarrow> int \<Rightarrow> ram" where
  "idpaging r first_pte from sz = idpaging_loop r first_pte (from AND 0xFFFFF000) sz"

definition PT_SET_ATTRIB :: "u32 \<Rightarrow> u32 \<Rightarrow> u32" where
  "PT_SET_ATTRIB entry attrib = entry OR attrib"

definition PT_SET_READ_ONLY :: "u32 \<Rightarrow> u32" where
  "PT_SET_READ_ONLY entry = entry AND NOT 2"

definition PT_SET_FRAME :: "u32 \<Rightarrow> u32 \<Rightarrow> u32" where
  "PT_SET_FRAME entry addr = (entry AND NOT 0xFFFFF000) OR addr"

abbreviation (input) PTE_PRESENT :: u32 where "PTE_PRESENT \<equiv> 1"
abbreviation (input) PTE_READ_WRITE :: u32 where "PTE_READ_WRITE \<equiv> 2"
abbreviation (input) PTE_USER :: u32 where "PTE_USER \<equiv> 4"

text \<open>An entry of a page table or of the page directory, as both loops of \<open>mem_init\<close> build it.\<close>

definition make_entry :: "bool \<Rightarrow> u32 \<Rightarrow> u32" where
  "make_entry user frame =
     (let page = PT_SET_ATTRIB (PT_SET_ATTRIB 0 PTE_PRESENT) PTE_READ_WRITE;
          page = (if user then PT_SET_ATTRIB page PTE_USER else page)
      in PT_SET_FRAME page frame)"

text \<open>A loop that stores the doublewords \<open>f 0, f 1, \<dots>\<close> from address \<open>base\<close> on.\<close>

definition store_table :: "ram \<Rightarrow> u32 \<Rightarrow> (nat \<Rightarrow> u32) \<Rightarrow> nat \<Rightarrow> ram" where
  "store_table r base f n = fold (\<lambda>i r. store32 r (base + 4 * of_nat i) (f i)) [0..<n] r"

fun zero_bytes :: "ram \<Rightarrow> u32 \<Rightarrow> nat \<Rightarrow> ram" where
  "zero_bytes r a 0 = r"
| "zero_bytes r a (Suc n) = zero_bytes (r(a := 0)) (a + 1) n"

definition page_align :: "u32 \<Rightarrow> u32" where
  "page_align a = (if a mod PAGE_SIZE \<noteq> 0 then (a div PAGE_SIZE + 1) * PAGE_SIZE else a)"

partial_function (option) kmem_end :: "u32 \<Rightarrow> u32 \<Rightarrow> u32 option" where
  "kmem_end start_kmem end_kmem =
     (if end_kmem \<le> start_kmem then kmem_end start_kmem (end_kmem + ONE_FULL_PAGE_TABLE_BYTES)
      else Some end_kmem)"

text \<open>The first part of \<open>mem_init\<close>: where everything lies.\<close>

abbreviation (input) KERNEL_END :: u32 where "KERNEL_END \<equiv> 2097152"

definition mem_layout :: "pagemem \<Rightarrow> u32 \<Rightarrow> pagemem option" where
  "mem_layout s sz = do {
     let nr_pages = sz div PAGE_SIZE;
     let map_bytes = nr_pages div BITS_PER_BYTE;
     let nr_mem_map = map_bytes div PAGE_SIZE + (if map_bytes mod PAGE_SIZE \<noteq> 0 then 1 else 0);
     let nr_page_tables = nr_pages div PAGE_TABLE_SIZE;
     let page_table_bytes = nr_page_tables * PAGE_SIZE;
     let real_kernel_end = page_align (KERNEL_END + (nr_pages * 4 + PAGE_SIZE));
     let start_kmem = page_align (page_table_bytes + real_kernel_end + nr_mem_map * PAGE_SIZE);
     end_kmem \<leftarrow> kmem_end start_kmem (4 * ONE_FULL_PAGE_TABLE_BYTES);
     Some (s\<lparr>MEM_SIZE := sz, NR_PAGES := nr_pages, NR_MEM_MAP := nr_mem_map,
       NR_PAGE_TABLES := nr_page_tables, PAGE_TABLE_BYTES := page_table_bytes,
       REAL_KERNEL_END := real_kernel_end, KERNEL_PAGE_TABLE := KERNEL_END + PAGE_SIZE,
       KERNEL_PAGE_DIR := KERNEL_END, mem_map := page_table_bytes + real_kernel_end,
       START_KMEM := start_kmem, END_KMEM := end_kmem, START_UMEM := end_kmem, END_UMEM := sz,
       KBYTES_FREE := end_kmem - start_kmem, UBYTES_FREE := sz - end_kmem,
       NR_KPAGES := end_kmem div PAGE_SIZE\<rparr>)
   }"

text \<open>The second part: clear the bit maps, fill page tables and directory, reserve the kernel's pages.\<close>

definition mem_fill :: "pagemem \<Rightarrow> pagemem" where
  "mem_fill s =
     (let r = fold (\<lambda>page r. zero_bytes r (mem_map s + of_nat page * PAGE_SIZE) 4096) [0..<unat (NR_MEM_MAP s)] (RAM s);
          page_limit = END_KMEM s div PAGE_SIZE;
          r = store_table r (KERNEL_PAGE_TABLE s)
                (\<lambda>i. make_entry (\<not> of_nat i < page_limit) (of_nat i * PAGE_SIZE)) (unat (NR_PAGES s));
          page_limit = END_KMEM s div ONE_FULL_PAGE_TABLE_BYTES;
          r = store_table r (KERNEL_PAGE_DIR s)
                (\<lambda>i. make_entry (\<not> of_nat i < page_limit) (KERNEL_PAGE_TABLE s + of_nat i * PAGE_SIZE))
                (unat (NR_PAGE_TABLES s));
          s = set_bits (s\<lparr>RAM := r\<rparr>) 0 (unat (START_KMEM s div PAGE_SIZE))
      in s\<lparr>GDT_MAP := replicate 6 True @ replicate (Nr_GDT - 6) False\<rparr>)"

definition mem_init :: "pagemem \<Rightarrow> (u32 \<Rightarrow> bool) \<Rightarrow> pagemem option" where
  "mem_init s holds = do { s \<leftarrow> mem_layout s (mem_size holds); Some (mem_fill s) }"

text \<open>The loops of \<open>mem_set_read_only\<close> and \<open>mem_unset_read_only\<close> over page table entries.\<close>

fun pte_update :: "(u32 \<Rightarrow> u32) \<Rightarrow> pagemem \<Rightarrow> u32 \<Rightarrow> nat \<Rightarrow> pagemem" where
  "pte_update f s i 0 = s"
| "pte_update f s i (Suc n) =
     (let a = KERNEL_PAGE_TABLE s + 4 * i in
      pte_update f (s\<lparr>RAM := store32 (RAM s) a (f (load32 (RAM s) a))\<rparr>) (i + 1) n)"

definition pte_loop :: "(u32 \<Rightarrow> u32) \<Rightarrow> pagemem \<Rightarrow> u32 \<Rightarrow> u32 \<Rightarrow> pagemem" where
  "pte_loop f s addr nr_pages =
     (let page_start = addr div PAGE_SIZE;
          nr_pages = (if nr_pages > NR_PAGES s then NR_PAGES s else nr_pages)
      in pte_update f s page_start (unat (page_start + nr_pages) - unat page_start))"

definition mem_set_read_only :: "pagemem \<Rightarrow> u32 \<Rightarrow> u32 \<Rightarrow> pagemem" where
  "mem_set_read_only s addr nr_pages = pte_loop PT_SET_READ_ONLY s addr nr_pages"

definition mem_unset_read_only :: "pagemem \<Rightarrow> u32 \<Rightarrow> u32 \<Rightarrow> pagemem" where
  "mem_unset_read_only s addr nr_pages = pte_loop (\<lambda>page. PT_SET_ATTRIB page PTE_READ_WRITE) s addr nr_pages"

definition get_page_dir :: "pagemem \<Rightarrow> u32" where
  "get_page_dir s = KERNEL_PAGE_DIR s"

section \<open>Loads and stores\<close>

text \<open>Byte \<open>x\<close> seen from address \<open>a\<close>: its distance, modulo the address space.\<close>

abbreviation (input) dist :: "u32 \<Rightarrow> u32 \<Rightarrow> nat" where "dist a x \<equiv> unat (x - a)"

lemma store32_outside: "4 \<le> dist a x \<Longrightarrow> store32 r a w x = r x"
  by (auto simp: store32_def)

lemma load32_store32 [simp]: "load32 (store32 r a w) a = w"
proof -
  have "[le_bytes 4 w ! 0, le_bytes 4 w ! 1, le_bytes 4 w ! 2, le_bytes 4 w ! 3] = le_bytes 4 w"
    by (intro nth_equalityI) (auto simp: less_Suc_eq numeral_eq_Suc)
  moreover have "le_word (le_bytes 4 w) = w" by (rule le_word_le_bytes) simp
  ultimately show ?thesis by (simp add: load32_def store32_def)
qed

lemma load32_cong:
  assumes "\<And>x. dist a x < 4 \<Longrightarrow> r x = r' x"
  shows "load32 r a = load32 r' a"
  using assms [of a] assms [of "a + 1"] assms [of "a + 2"] assms [of "a + 3"]
  by (simp add: load32_def)

lemma zero_bytes_apply: "n \<le> 2 ^ 32 \<Longrightarrow> zero_bytes r a n x = (if dist a x < n then 0 else r x)"
proof (induction n arbitrary: r a)
  case (Suc n)
  have "dist a x < Suc n \<longleftrightarrow> x = a \<or> dist (a + 1) x < n"
  proof (cases "x = a")
    case False
    then have "0 < unat (x - a)" by (simp add: unat_gt_0)
    moreover have "x - (a + 1) = (x - a) - 1" by simp
    ultimately have "dist (a + 1) x = dist a x - 1" by (metis One_nat_def Suc_le_eq unat_1 unat_sub word_le_nat_alt)
    with \<open>0 < unat (x - a)\<close> False show ?thesis by auto
  qed simp
  moreover have "n < 2 ^ 32" using Suc.prems by simp
  then have "\<not> dist (a + 1) a < n" by (simp add: unsigned_minus_1_eq_mask mask_eq_exp_minus_1)
  ultimately show ?case using Suc by auto
qed simp

lemma unat_diff_of_nat:
  "k < 2 ^ 32 \<Longrightarrow> unat (y - of_nat k :: u32) = (if k \<le> unat y then unat y - k else 2 ^ 32 + unat y - k)"
  by (auto simp: unat_sub_if' unat_of_nat32)

lemma dist_shift:
  assumes "k < 2 ^ 32"
  shows "dist (a + of_nat k) x = (if k \<le> dist a x then dist a x - k else 2 ^ 32 + dist a x - k)"
  using unat_diff_of_nat [OF assms, of "x - a"] by (simp add: diff_diff_add)

lemma store_table_Suc:
  "store_table r base f (Suc n) = store32 (store_table r base f n) (base + 4 * of_nat n) (f n)"
  by (simp add: store_table_def)

lemma four_of_nat: "4 * of_nat n = (of_nat (4 * n) :: u32)"
  by simp

lemma store_table_outside:
  "4 * n \<le> 2 ^ 32 \<Longrightarrow> 4 * n \<le> dist base x \<Longrightarrow> store_table r base f n x = r x"
proof (induction n)
  case (Suc n)
  have "4 \<le> dist (base + 4 * of_nat n) x"
    using Suc.prems unfolding four_of_nat by (subst dist_shift) auto
  with Suc show ?case by (simp add: store_table_Suc store32_outside)
qed (simp add: store_table_def)

lemma store_table_load:
  "4 * n \<le> 2 ^ 32 \<Longrightarrow> i < n \<Longrightarrow> load32 (store_table r base f n) (base + 4 * of_nat i) = f i"
proof (induction n)
  case (Suc n)
  show ?case
  proof (cases "i = n")
    case True
    then show ?thesis by (simp add: store_table_Suc)
  next
    case False
    have "store_table r base f (Suc n) x = store_table r base f n x" if "dist (base + 4 * of_nat i) x < 4" for x
    proof -
      have i: "4 * i < 2 ^ 32" "4 * n < 2 ^ 32" "i < n" using Suc.prems False by simp_all
      have "dist (base + of_nat (4 * i)) x < 4" using that by simp
      then have "4 * i \<le> dist base x \<and> dist base x < 4 * i + 4"
        using i Suc.prems unat_lt_word32 [of "x - base"] dist_shift [of "4 * i" x base]
        by (auto split: if_splits)
      then have "4 \<le> dist (base + of_nat (4 * n)) x"
        using i by (subst dist_shift) auto
      then show ?thesis by (simp add: store_table_Suc store32_outside)
    qed
    then have "load32 (store_table r base f (Suc n)) (base + 4 * of_nat i) =
        load32 (store_table r base f n) (base + 4 * of_nat i)"
      by (rule load32_cong)
    with Suc False show ?thesis by simp
  qed
qed simp

lemma zero_pages_apply:
  assumes "n * 4096 \<le> 2 ^ 32"
  shows "fold (\<lambda>page r. zero_bytes r (base + of_nat page * PAGE_SIZE) 4096) [0..<n] r x =
    (if dist base x < n * 4096 then 0 else r x)"
  using assms
proof (induction n)
  case (Suc n)
  have "dist (base + of_nat n * 4096) x < 4096 \<longleftrightarrow> n * 4096 \<le> dist base x \<and> dist base x < n * 4096 + 4096"
    using Suc.prems dist_shift [of "n * 4096" x base] unat_lt_word32 [of "x - base"]
    by (auto split: if_splits)
  with Suc show ?case by (auto simp: zero_bytes_apply)
qed simp

section \<open>The layout\<close>

lemma round_up:
  fixes n :: nat
  shows "n \<le> (n + 4095) div 4096 * 4096" "(n + 4095) div 4096 * 4096 \<le> n + 4095"
    "n mod 4096 \<noteq> 0 \<Longrightarrow> (n + 4095) div 4096 = n div 4096 + 1"
proof -
  show "n \<le> (n + 4095) div 4096 * 4096"
    using dividend_less_div_times [of 4096 "n + 4095"] by simp
  show "(n + 4095) div 4096 * 4096 \<le> n + 4095" by (rule div_times_less_eq_dividend)
  assume nz: "n mod 4096 \<noteq> 0"
  have "n mod 4096 < 4096" by simp
  with nz have "(n mod 4096 + 4095) div 4096 = 1" by (intro div_nat_eqI) auto
  moreover have "n + 4095 = n div 4096 * 4096 + (n mod 4096 + 4095)" by simp
  ultimately show "(n + 4095) div 4096 = n div 4096 + 1"
    by (metis div_mult_self3 zero_neq_numeral)
qed

lemma page_align_unat:
  assumes "unat a + 4096 < 2 ^ 32"
  shows "unat (page_align a) = (unat a + 4095) div 4096 * 4096"
proof (cases "unat a mod 4096 = 0")
  case True
  then have "a mod 4096 = 0" by (simp add: word_unat_eq_iff unat_mod)
  moreover obtain q where "unat a = 4096 * q" using True by (auto simp flip: dvd_eq_mod_eq_0 elim: dvdE)
  ultimately show ?thesis by (simp add: page_align_def)
next
  case False
  then have nz: "a mod 4096 \<noteq> 0" by (simp add: word_unat_eq_iff unat_mod)
  have "(unat a div 4096 + 1) * 4096 < 2 ^ 32"
    using assms div_times_less_eq_dividend [of "unat a" 4096] by simp
  then have "unat ((a div 4096 + 1) * 4096) = (unat a div 4096 + 1) * 4096"
    by (simp add: unat_word_ariths unat_div)
  with nz round_up(3) [OF False] show ?thesis by (simp add: page_align_def)
qed

text \<open>What \<open>mem_layout\<close> promises, in unbounded arithmetic, of a machine of \<open>mb\<close> megabytes.\<close>

definition layout_ok :: "pagemem \<Rightarrow> nat \<Rightarrow> bool" where
  "layout_ok s mb \<longleftrightarrow>
     unat (NR_PAGES s) = 256 * mb \<and> unat (NR_PAGE_TABLES s) = mb div 4 \<and>
     KERNEL_PAGE_DIR s = KERNEL_END \<and> KERNEL_PAGE_TABLE s = KERNEL_END + PAGE_SIZE \<and>
     unat (KERNEL_PAGE_TABLE s) + 4 * unat (NR_PAGES s) \<le> unat (mem_map s) \<and>
     unat (mem_map s) + 4096 * unat (NR_MEM_MAP s) \<le> unat (START_KMEM s) \<and>
     unat (NR_PAGES s) \<le> 32768 * unat (NR_MEM_MAP s) \<and>
     START_KMEM s mod PAGE_SIZE = 0 \<and> START_KMEM s < END_KMEM s \<and>
     END_KMEM s = 16777216 \<and> START_UMEM s = END_KMEM s \<and> NR_KPAGES s = END_KMEM s div PAGE_SIZE"

lemma mem_layout_ok:
  assumes mb: "mb < 4096"
  shows "\<exists>s'. mem_layout s (of_nat mb * ONE_MEG) = Some s' \<and> layout_ok s' mb"
proof -
  define sz :: u32 where "sz = of_nat mb * 1048576"
  have sz: "unat sz = mb * 1048576" using mb by (simp add: sz_def unat_word_ariths unat_of_nat)
  define np where "np = sz div 4096"
  have np: "unat np = 256 * mb" by (simp add: np_def unat_div sz)
  define bs where "bs = np div 8"
  have bs: "unat bs = 32 * mb" by (simp add: bs_def unat_div np)
  define nmm where "nmm = bs div 4096 + (if bs mod 4096 \<noteq> 0 then 1 else 0)"
  have "unat (bs mod 4096) = 32 * (mb mod 128)"
    using mult_mod_right [of 32 mb 128] by (simp add: unat_mod bs)
  then have "bs mod 4096 \<noteq> 0 \<longleftrightarrow> mb mod 128 \<noteq> 0" by (simp add: word_unat_eq_iff)
  moreover have "unat (bs div 4096) = mb div 128" by (simp add: unat_div bs)
  moreover have "mb div 128 < 32" using mb by simp
  ultimately have nmm: "unat nmm = mb div 128 + (if mb mod 128 \<noteq> 0 then 1 else 0)"
    by (simp add: nmm_def unat_word_ariths)
  obtain q r where qr: "mb div 128 = q" "mb mod 128 = r" "mb = 128 * q + r" "r < 128"
    using mult_div_mod_eq [of 128 mb] mod_less_divisor [of 128 mb] by (metis zero_less_numeral)
  then have nmm_b: "unat nmm \<le> 32" "mb \<le> 128 * unat nmm"
    using \<open>mb div 128 < 32\<close> nmm unfolding qr(1,2) by (simp_all split: if_splits)
  define npt where "npt = np div 1024"
  have npt: "unat npt = mb div 4" by (simp add: npt_def unat_div np)
  define ptb where "ptb = npt * 4096"
  have "unat npt < 1024" using npt mb by simp
  then have ptb: "unat ptb = mb div 4 * 4096" using npt by (simp add: ptb_def unat_word_ariths)
  have ptb_b: "unat ptb \<le> 1024 * mb" using ptb div_times_less_eq_dividend [of mb 4] by simp
  define e where "e = 2097152 + (np * 4 + 4096)"
  have e: "unat e = 2101248 + 1024 * mb" using np mb by (simp add: e_def unat_word_ariths)
  define rke where "rke = page_align e"
  have "unat rke = (unat e + 4095) div 4096 * 4096"
    unfolding rke_def using e mb by (intro page_align_unat) simp
  then have rke: "unat e \<le> unat rke" "unat rke \<le> unat e + 4095" using round_up by simp_all
  define k where "k = ptb + rke + nmm * 4096"
  have k: "unat k = unat ptb + unat rke + unat nmm * 4096" and m: "unat (ptb + rke) = unat ptb + unat rke"
    using ptb_b rke e nmm_b mb by (simp_all add: k_def unat_word_ariths)
  define st where "st = page_align k"
  have st: "unat st = (unat k + 4095) div 4096 * 4096"
    unfolding st_def using k ptb_b rke e nmm_b mb by (intro page_align_unat) simp
  then have st_b: "unat k \<le> unat st" "unat st \<le> unat k + 4095" using round_up by simp_all
  have "unat st < 16777216" using st_b k ptb_b rke e nmm_b mb by simp
  then have lt: "st < 16777216" by (simp add: word_less_nat_alt)
  have "kmem_end st (4 * 4194304) = Some 16777216"
    using lt by (subst kmem_end.simps) (auto dest: leD)
  moreover have "st mod 4096 = 0" by (simp add: word_unat_eq_iff unat_mod st)
  moreover have "mem_layout s sz = do {
     end_kmem \<leftarrow> kmem_end st (4 * 4194304);
     Some (s\<lparr>MEM_SIZE := sz, NR_PAGES := np, NR_MEM_MAP := nmm,
       NR_PAGE_TABLES := npt, PAGE_TABLE_BYTES := ptb,
       REAL_KERNEL_END := rke, KERNEL_PAGE_TABLE := 2097152 + 4096,
       KERNEL_PAGE_DIR := 2097152, mem_map := ptb + rke,
       START_KMEM := st, END_KMEM := end_kmem, START_UMEM := end_kmem, END_UMEM := sz,
       KBYTES_FREE := end_kmem - st, UBYTES_FREE := sz - end_kmem,
       NR_KPAGES := end_kmem div 4096\<rparr>)
   }"
    unfolding mem_layout_def Let_def st_def k_def rke_def e_def ptb_def npt_def nmm_def bs_def np_def ..
  ultimately show ?thesis
    using lt np npt nmm_b st_b(1) k m rke(1) e ptb
    by (simp add: layout_ok_def flip: sz_def)
qed

section \<open>After mem\_init\<close>

lemma dist_le: "unat a \<le> unat x \<Longrightarrow> dist a x = unat x - unat a"
  by (simp add: unat_sub_if')

lemma dist_gt: "unat x < unat a \<Longrightarrow> dist a x = 2 ^ 32 + unat x - unat a"
  by (simp add: unat_sub_if')

lemma set_bits_outside:
  "(\<And>k. k < n \<Longrightarrow> x \<noteq> map_byte s (p + of_nat k)) \<Longrightarrow> RAM (set_bits s p n) x = RAM s x"
proof (induction n arbitrary: s p)
  case (Suc n)
  have "x \<noteq> map_byte (mem_set_bit s p) (p + 1 + of_nat k)" if "k < n" for k
    using Suc.prems [of "Suc k"] that by (simp add: mem_set_bit_def ac_simps)
  with Suc.IH have "RAM (set_bits s p (Suc n)) x = RAM (mem_set_bit s p) x" by simp
  also have "\<dots> = RAM s x" using Suc.prems [of 0] by (simp add: mem_set_bit_def)
  finally show ?case .
qed simp

lemma map_byte_dist: "unat q < 2 ^ 32 \<Longrightarrow> dist (mem_map s) (map_byte s q) = unat q div 8"
proof -
  have "unat q div 8 < 2 ^ 32" using le_less_trans [OF div_le_dividend unat_lt_word32, of q 8] by simp
  then show ?thesis by (simp add: map_byte_eq unat_of_nat32)
qed

text \<open>The tables \<open>mem_fill\<close> stores, and the memory before the kernel's pages are reserved.\<close>

definition pt_entry :: "pagemem \<Rightarrow> nat \<Rightarrow> u32" where
  "pt_entry s i = make_entry (\<not> of_nat i < END_KMEM s div PAGE_SIZE) (of_nat i * PAGE_SIZE)"

definition pd_entry :: "pagemem \<Rightarrow> nat \<Rightarrow> u32" where
  "pd_entry s i = make_entry (\<not> of_nat i < END_KMEM s div ONE_FULL_PAGE_TABLE_BYTES)
     (KERNEL_PAGE_TABLE s + of_nat i * PAGE_SIZE)"

definition tables_ram :: "pagemem \<Rightarrow> ram" where
  "tables_ram s = store_table
     (store_table (fold (\<lambda>page r. zero_bytes r (mem_map s + of_nat page * PAGE_SIZE) 4096) [0..<unat (NR_MEM_MAP s)] (RAM s))
        (KERNEL_PAGE_TABLE s) (pt_entry s) (unat (NR_PAGES s)))
     (KERNEL_PAGE_DIR s) (pd_entry s) (unat (NR_PAGE_TABLES s))"

lemma mem_fill_eq:
  "mem_fill s = (set_bits (s\<lparr>RAM := tables_ram s\<rparr>) 0 (unat (START_KMEM s div PAGE_SIZE)))
     \<lparr>GDT_MAP := replicate 6 True @ replicate (Nr_GDT - 6) False\<rparr>"
  by (simp add: mem_fill_def tables_ram_def pt_entry_def [abs_def] pd_entry_def [abs_def] Let_def)

lemma layout_okD:
  assumes "layout_ok s mb" "mb < 4096"
  shows "unat (NR_PAGES s) = 256 * mb" "unat (NR_PAGE_TABLES s) < 1024"
    "KERNEL_PAGE_DIR s = 2097152" "KERNEL_PAGE_TABLE s = 2101248"
    "2101248 + 1024 * mb \<le> unat (mem_map s)" "unat (mem_map s) + 4096 * unat (NR_MEM_MAP s) < 16777216"
    "256 * mb \<le> 32768 * unat (NR_MEM_MAP s)" "unat (START_KMEM s div 4096) < 4096"
proof -
  have "unat (START_KMEM s) < 16777216"
    using assms(1) by (auto simp: layout_ok_def word_less_nat_alt)
  with assms show "unat (mem_map s) + 4096 * unat (NR_MEM_MAP s) < 16777216" "unat (START_KMEM s div 4096) < 4096"
    by (auto simp: layout_ok_def unat_div)
qed (use assms in \<open>auto simp: layout_ok_def\<close>)

lemma tables_ram_map:
  assumes "layout_ok s mb" "mb < 4096" "dist (mem_map s) x < 4096 * unat (NR_MEM_MAP s)"
  shows "tables_ram s x = 0"
proof -
  note l = layout_okD [OF assms(1,2)]
  have x: "unat (mem_map s) \<le> unat x"
  proof (rule ccontr)
    assume "\<not> ?thesis"
    then show False using assms(3) l(6) dist_gt [of x "mem_map s"] by simp
  qed
  then have "4 * unat (NR_PAGES s) \<le> dist (KERNEL_PAGE_TABLE s) x" "4 * unat (NR_PAGE_TABLES s) \<le> dist (KERNEL_PAGE_DIR s) x"
    using l by (simp_all add: dist_le)
  then show ?thesis
    using assms(3) l by (simp add: tables_ram_def store_table_outside zero_pages_apply mult.commute)
qed

lemma tables_ram_pt:
  assumes "layout_ok s mb" "mb < 4096" "i < unat (NR_PAGES s)"
  shows "load32 (tables_ram s) (KERNEL_PAGE_TABLE s + 4 * of_nat i) = pt_entry s i"
proof -
  note l = layout_okD [OF assms(1,2)]
  let ?r = "store_table (fold (\<lambda>page r. zero_bytes r (mem_map s + of_nat page * PAGE_SIZE) 4096) [0..<unat (NR_MEM_MAP s)] (RAM s))
        (KERNEL_PAGE_TABLE s) (pt_entry s) (unat (NR_PAGES s))"
  have "tables_ram s x = ?r x" if "dist (KERNEL_PAGE_TABLE s + 4 * of_nat i) x < 4" for x
  proof -
    have "dist (KERNEL_PAGE_TABLE s + of_nat (4 * i)) x < 4" using that by simp
    then have "4 * i \<le> dist (KERNEL_PAGE_TABLE s) x" "dist (KERNEL_PAGE_TABLE s) x < 4 * i + 4"
      using assms(3) l dist_shift [of "4 * i" x "KERNEL_PAGE_TABLE s"] unat_lt_word32 [of "x - KERNEL_PAGE_TABLE s"]
      by (auto split: if_splits)
    moreover have "KERNEL_PAGE_TABLE s = KERNEL_PAGE_DIR s + of_nat 4096" using l by simp
    ultimately have "4096 \<le> dist (KERNEL_PAGE_DIR s) x"
      using l assms(2,3) dist_shift [of 4096 x "KERNEL_PAGE_DIR s"] by (auto split: if_splits)
    then show ?thesis using l by (simp add: tables_ram_def store_table_outside)
  qed
  then have "load32 (tables_ram s) (KERNEL_PAGE_TABLE s + 4 * of_nat i) = load32 ?r (KERNEL_PAGE_TABLE s + 4 * of_nat i)"
    by (rule load32_cong)
  also have "\<dots> = pt_entry s i" using assms(2,3) l by (intro store_table_load) simp_all
  finally show ?thesis .
qed

lemma tables_ram_pd:
  assumes "layout_ok s mb" "mb < 4096" "i < unat (NR_PAGE_TABLES s)"
  shows "load32 (tables_ram s) (KERNEL_PAGE_DIR s + 4 * of_nat i) = pd_entry s i"
  unfolding tables_ram_def using assms(3) layout_okD(2) [OF assms(1,2)] by (intro store_table_load) simp_all

text \<open>Reserving the kernel's pages touches the bit maps only.\<close>

lemma mem_fill_below_map:
  assumes "layout_ok s mb" "1 \<le> mb" "mb < 4096" "unat x < unat (mem_map s)"
  shows "RAM (mem_fill s) x = tables_ram s x"
proof -
  note l = layout_okD [OF assms(1,3)]
  have "x \<noteq> map_byte s (0 + of_nat k)" if "k < unat (START_KMEM s div 4096)" for k
  proof
    assume x: "x = map_byte s (0 + of_nat k)"
    have "k < 4096" using that l(8) by simp
    then have "dist (mem_map s) x = k div 8" using x map_byte_dist [of "of_nat k" s] by (simp add: unat_of_nat)
    moreover have "k div 8 < 512" using \<open>k < 4096\<close> by simp
    ultimately show False using dist_gt [OF assms(4)] l(6) by simp
  qed
  then show ?thesis
    unfolding mem_fill_eq by (simp add: set_bits_outside)
qed

lemma mem_fill_tables:
  assumes "layout_ok s mb" "1 \<le> mb" "mb < 4096"
  shows "i < unat (NR_PAGES s) \<Longrightarrow> load32 (RAM (mem_fill s)) (KERNEL_PAGE_TABLE s + 4 * of_nat i) = pt_entry s i"
    and "i < unat (NR_PAGE_TABLES s) \<Longrightarrow> load32 (RAM (mem_fill s)) (KERNEL_PAGE_DIR s + 4 * of_nat i) = pd_entry s i"
proof -
  note l = layout_okD [OF assms(1,3)]
  have low: "load32 (RAM (mem_fill s)) (b + 4 * of_nat j) = load32 (tables_ram s) (b + 4 * of_nat j)"
    if "unat b + 4 * j + 4 \<le> unat (mem_map s)" for b j
  proof (rule load32_cong)
    fix x assume "dist (b + 4 * of_nat j) x < 4"
    then have "dist (b + of_nat (4 * j)) x < 4" by simp
    then have "dist b x < 4 * j + 4 \<and> 4 * j \<le> dist b x"
      using that l(6) dist_shift [of "4 * j" x b] unat_lt_word32 [of "x - b"] by (auto split: if_splits)
    moreover have "unat b \<le> unat x"
      using calculation that l(6) dist_gt [of x b] by (cases "unat b \<le> unat x") auto
    ultimately have "unat x < unat (mem_map s)" using that dist_le [of b x] by linarith
    then show "RAM (mem_fill s) x = tables_ram s x" using assms by (intro mem_fill_below_map)
  qed
  show "load32 (RAM (mem_fill s)) (KERNEL_PAGE_TABLE s + 4 * of_nat i) = pt_entry s i" if "i < unat (NR_PAGES s)"
    using that low [of "KERNEL_PAGE_TABLE s" i] l tables_ram_pt [OF assms(1,3) that] by simp
  show "load32 (RAM (mem_fill s)) (KERNEL_PAGE_DIR s + 4 * of_nat i) = pd_entry s i" if "i < unat (NR_PAGE_TABLES s)"
    using that low [of "KERNEL_PAGE_DIR s" i] l tables_ram_pd [OF assms(1,3) that] by simp
qed

lemma mem_fill_in_use:
  assumes "layout_ok s mb" "1 \<le> mb" "mb < 4096" "q < 32768 * unat (NR_MEM_MAP s)"
  shows "in_use (mem_fill s) q \<longleftrightarrow> q < unat (START_KMEM s div PAGE_SIZE)"
proof -
  note l = layout_okD [OF assms(1,3)]
  have q: "q < 2 ^ 32" using assms(4) l(6) by simp
  have "q div 8 < 4096 * unat (NR_MEM_MAP s)" using assms(4) by (simp add: less_mult_imp_div_less)
  then have "tables_ram s (map_byte s (of_nat q)) = 0"
    using q map_byte_dist [of "of_nat q" s] by (intro tables_ram_map [OF assms(1,3)]) (simp add: unat_of_nat32)
  then have "\<not> in_use (s\<lparr>RAM := tables_ram s\<rparr>) q"
    by (simp add: in_use_def mem_test_bit_bit)
  moreover have "in_use (t\<lparr>GDT_MAP := g\<rparr>) = in_use t" for t g
    by (simp add: in_use_def mem_test_bit_def map_byte_def fun_eq_iff)
  ultimately show ?thesis
    using q l(8) by (simp add: mem_fill_eq in_use_set_bits)
qed

section \<open>Sizing memory\<close>

text \<open>A machine with \<open>mb\<close> megabytes: the probes below that keep their value, the next one does not.\<close>

definition has_memory :: "(u32 \<Rightarrow> bool) \<Rightarrow> nat \<Rightarrow> bool" where
  "has_memory holds mb \<longleftrightarrow> 1 \<le> mb \<and> mb < 4096 \<and> (\<forall>i < mb. 1 \<le> i \<longrightarrow> holds (of_nat i * ONE_MEG)) \<and>
     \<not> holds (of_nat mb * ONE_MEG)"

lemma mem_probe_counts:
  assumes "has_memory holds mb" "m < mb"
  shows "mem_probe holds m (of_nat m * ONE_MEG) = mb"
  using assms(2)
proof (induction "mb - m" arbitrary: m)
  case (Suc d)
  have next_mb: "of_nat m * 1048576 + 1048576 = (of_nat (Suc m) * 1048576 :: u32)" by (simp add: algebra_simps)
  note unfold = mem_probe.simps [of holds m "of_nat m * 1048576", unfolded next_mb]
  show ?case
  proof (cases "Suc m = mb")
    case True
    with assms(1) show ?thesis unfolding unfold by (simp add: has_memory_def Let_def del: of_nat_Suc)
  next
    case False
    with Suc have lt: "Suc m < mb" by simp
    then have "holds (of_nat (Suc m) * 1048576)" using assms(1) by (simp add: has_memory_def del: of_nat_Suc)
    moreover have "of_nat (Suc m) * 1048576 \<noteq> (0 :: u32)"
    proof -
      have "unat (of_nat (Suc m) * 1048576 :: u32) = Suc m * 1048576"
        using lt assms(1) by (simp add: has_memory_def unat_word_ariths unat_of_nat32 del: of_nat_Suc)
      then show ?thesis by (auto simp del: of_nat_Suc)
    qed
    moreover have "mem_probe holds (Suc m) (of_nat (Suc m) * 1048576) = mb"
      using Suc lt by (intro Suc.hyps(1)) simp_all
    ultimately show ?thesis
      using lt assms(1) unfolding unfold by (simp add: has_memory_def Let_def del: of_nat_Suc)
  qed
qed simp

lemma mem_size_counts: "has_memory holds mb \<Longrightarrow> mem_size holds = of_nat mb * ONE_MEG"
  using mem_probe_counts [of holds mb 0]
  by (simp add: mem_size_def has_memory_def push_bit_eq_mult)

lemma mem_layout_frame:
  "mem_layout s sz = Some t \<Longrightarrow> ULAST_PAGE t = ULAST_PAGE s \<and> KLAST_PAGE t = KLAST_PAGE s"
  by (auto simp: mem_layout_def Let_def split: bind_splits)

lemma mem_init_ok:
  assumes "has_memory holds mb"
  obtains t where "mem_init s holds = Some (mem_fill t)" "layout_ok t mb"
    "ULAST_PAGE t = ULAST_PAGE s" "KLAST_PAGE t = KLAST_PAGE s"
  using mem_layout_ok [of mb s] mem_size_counts [OF assms] mem_layout_frame assms
  by (fastforce simp: mem_init_def has_memory_def)

lemma mem_fill_fields [simp]:
  "NR_PAGES (mem_fill s) = NR_PAGES s" "NR_KPAGES (mem_fill s) = NR_KPAGES s"
  "KERNEL_PAGE_TABLE (mem_fill s) = KERNEL_PAGE_TABLE s" "KERNEL_PAGE_DIR (mem_fill s) = KERNEL_PAGE_DIR s"
  "NR_PAGE_TABLES (mem_fill s) = NR_PAGE_TABLES s" "START_KMEM (mem_fill s) = START_KMEM s"
  "START_UMEM (mem_fill s) = START_UMEM s" "ULAST_PAGE (mem_fill s) = ULAST_PAGE s"
  "KLAST_PAGE (mem_fill s) = KLAST_PAGE s"
  by (simp_all add: mem_fill_eq, (subst set_bits_only_RAM, simp)+)

lemma make_entry_eq: "make_entry user f = f OR (if user then 7 else 3)"
  by (simp add: make_entry_def PT_SET_ATTRIB_def PT_SET_FRAME_def Let_def or.commute)

section \<open>Read-only pages\<close>

definition pte :: "pagemem \<Rightarrow> nat \<Rightarrow> u32" where
  "pte s i = load32 (RAM s) (KERNEL_PAGE_TABLE s + 4 * of_nat i)"

lemma pte_store:
  assumes "i < 2 ^ 30" "j < 2 ^ 30"
  shows "pte (s\<lparr>RAM := store32 (RAM s) (KERNEL_PAGE_TABLE s + 4 * of_nat j) w\<rparr>) i = (if i = j then w else pte s i)"
proof (cases "i = j")
  case False
  have "load32 (store32 (RAM s) (KERNEL_PAGE_TABLE s + 4 * of_nat j) w) (KERNEL_PAGE_TABLE s + 4 * of_nat i) =
      load32 (RAM s) (KERNEL_PAGE_TABLE s + 4 * of_nat i)"
  proof (rule load32_cong)
    fix x assume "dist (KERNEL_PAGE_TABLE s + 4 * of_nat i) x < 4"
    then have "dist (KERNEL_PAGE_TABLE s + of_nat (4 * i)) x < 4" by simp
    then have "4 \<le> dist (KERNEL_PAGE_TABLE s + of_nat (4 * j)) x"
      using False assms dist_shift [of "4 * i" x "KERNEL_PAGE_TABLE s"] dist_shift [of "4 * j" x "KERNEL_PAGE_TABLE s"]
        unat_lt_word32 [of "x - KERNEL_PAGE_TABLE s"]
      by (auto split: if_splits)
    then show "store32 (RAM s) (KERNEL_PAGE_TABLE s + 4 * of_nat j) w x = RAM s x"
      by (simp add: store32_outside)
  qed
  with False show ?thesis by (simp add: pte_def)
qed (simp add: pte_def)

lemma pte_update_apply:
  "i < 2 ^ 30 \<Longrightarrow> p + n \<le> 2 ^ 30 \<Longrightarrow>
     pte (pte_update f s (of_nat p) n) i = (if p \<le> i \<and> i < p + n then f (pte s i) else pte s i)"
proof (induction n arbitrary: s p)
  case (Suc n)
  define t where "t = s\<lparr>RAM := store32 (RAM s) (KERNEL_PAGE_TABLE s + 4 * of_nat p) (f (pte s p))\<rparr>"
  have step: "pte_update f s (of_nat p) (Suc n) = pte_update f t (of_nat (Suc p)) n"
    by (simp add: Let_def add.commute t_def pte_def)
  have "pte t i = (if i = p then f (pte s p) else pte s i)"
    using Suc.prems unfolding t_def by (intro pte_store) simp_all
  with Suc.IH [of "Suc p" t] Suc.prems show ?case unfolding step by auto
qed auto

lemma pte_loop_apply:
  assumes "i < 2 ^ 20" "unat (addr div PAGE_SIZE) + unat nr \<le> 2 ^ 20" "nr \<le> NR_PAGES s"
  shows "pte (pte_loop f s addr nr) i =
    (if unat (addr div PAGE_SIZE) \<le> i \<and> i < unat (addr div PAGE_SIZE) + unat nr then f (pte s i) else pte s i)"
proof -
  have "unat (addr div 4096 + nr) = unat (addr div 4096) + unat nr" using assms(2) by (subst u32_add_unat) simp_all
  then have "pte_loop f s addr nr = pte_update f s (of_nat (unat (addr div 4096))) (unat nr)"
    using assms(3) by (simp add: pte_loop_def Let_def not_less [symmetric])
  then show ?thesis using pte_update_apply [of i "unat (addr div 4096)" "unat nr" f s] assms by simp
qed

lemma has_memory_32: "has_memory (\<lambda>a. a < 33554432) 32"
proof -
  have "of_nat i * 1048576 < (33554432 :: u32)" if "i < 32" for i
    using that by (simp add: word_less_nat_alt unat_word_ariths unat_of_nat)
  then show ?thesis by (simp add: has_memory_def)
qed

lemma pte_loop_fields [simp]: "NR_PAGES (pte_loop f s addr nr) = NR_PAGES s"
proof -
  have "NR_PAGES (pte_update f s i n) = NR_PAGES s" for i n
    by (induction n arbitrary: s i) (simp_all add: Let_def)
  then show ?thesis by (simp add: pte_loop_def Let_def)
qed

section \<open>Properties\<close>

text \<open>
  After \<open>mem_init\<close> on a machine with \<open>mb\<close> megabytes of memory, paging maps every page
  to itself: page table entry \<open>i\<close> holds frame \<open>i\<close>, present and writable, with the user
  bit exactly for the pages behind the kernel's, and directory entry \<open>i\<close> points to
  the \<open>i\<close>-th page table. The tables and the bit maps do not overlap.
\<close>

theorem mem_init_identity_map:
  assumes "has_memory holds mb"
  shows "\<exists>s'. mem_init s holds = Some s' \<and> unat (NR_PAGES s') = 256 * mb \<and>
    (\<forall>i < 256 * mb. load32 (RAM s') (KERNEL_PAGE_TABLE s' + 4 * of_nat i) =
       (of_nat i * PAGE_SIZE) OR (if i < unat (NR_KPAGES s') then 3 else 7)) \<and>
    (\<forall>i < mb div 4. load32 (RAM s') (KERNEL_PAGE_DIR s' + 4 * of_nat i) =
       (KERNEL_PAGE_TABLE s' + of_nat i * PAGE_SIZE) OR (if i < 4 then 3 else 7))"
proof -
  obtain t where t: "mem_init s holds = Some (mem_fill t)" "layout_ok t mb" using mem_init_ok [OF assms] by blast
  have mb: "1 \<le> mb" "mb < 4096" using assms by (simp_all add: has_memory_def)
  note l = layout_okD [OF t(2) mb(2)] and tables = mem_fill_tables [OF t(2) mb]
  have lim: "END_KMEM t = 16777216" "NR_KPAGES t = 4096" "unat (NR_PAGE_TABLES t) = mb div 4"
    using t(2) by (simp_all add: layout_ok_def)
  have "(of_nat i :: u32) < 4096 \<longleftrightarrow> i < 4096" "(of_nat i :: u32) < 4 \<longleftrightarrow> i < 4" if "i < 2 ^ 20" for i
    using that by (simp_all add: word_less_nat_alt unat_of_nat)
  then show ?thesis
    using t(1) l mb tables lim by (simp add: pt_entry_def pd_entry_def make_entry_eq)
qed

theorem mem_init_identity_map_witness:
  "\<exists>s'. mem_init demo_pages (\<lambda>a. a < 33554432) = Some s' \<and> unat (NR_PAGES s') = 8192"
  using mem_init_identity_map [OF has_memory_32, of demo_pages] by auto

text \<open>
  C29: After \<open>mem_init\<close> exactly the pages below the kernel's dynamic memory (kernel image,
  page directory, page tables, bit maps) are in use, among all pages of the machine,
  and both page allocators start inside their contract.
\<close>

theorem mem_init_reserves:
  assumes "has_memory holds mb" "ULAST_PAGE s = 0" "KLAST_PAGE s = 0"
    and "256 * mb + k \<le> 2 ^ 20" "4096 + k \<le> 2 ^ 20"
  shows "\<exists>s'. mem_init s holds = Some s' \<and>
    (\<forall>q < 256 * mb. in_use s' q \<longleftrightarrow> q < unat (START_KMEM s' div PAGE_SIZE)) \<and>
    upages_ok s' k \<and> kpages_ok s' k"
proof -
  obtain t where t: "mem_init s holds = Some (mem_fill t)" "layout_ok t mb" "ULAST_PAGE t = 0" "KLAST_PAGE t = 0"
    using mem_init_ok [OF assms(1), of s] assms(2,3) by metis
  have mb: "1 \<le> mb" "mb < 4096" using assms(1) by (simp_all add: has_memory_def)
  note l = layout_okD [OF t(2) mb(2)]
  have umem: "START_UMEM t = 16777216" "NR_KPAGES t = 4096" using t(2) by (simp_all add: layout_ok_def)
  have "2101248 \<le> unat (START_KMEM t)" using t(2) by (auto simp: layout_ok_def)
  then have "0 < START_KMEM t div 4096" by (simp add: word_less_nat_alt unat_div)
  then have "upages_ok (mem_fill t) k" "kpages_ok (mem_fill t) k"
    using umem l t(3,4) assms(4,5) by (simp_all add: upages_ok_def kpages_ok_def)
  moreover have "in_use (mem_fill t) q \<longleftrightarrow> q < unat (START_KMEM t div 4096)" if "q < 256 * mb" for q
    using that l(7) by (intro mem_fill_in_use [OF t(2) mb]) simp
  ultimately show ?thesis using t(1) by simp
qed

theorem mem_init_reserves_witness:
  "\<exists>s'. mem_init demo_pages (\<lambda>a. a < 33554432) = Some s' \<and> upages_ok s' 1000 \<and> in_use s' 0"
proof -
  from mem_init_reserves [OF has_memory_32, of demo_pages 1000] obtain s' where
    "mem_init demo_pages (\<lambda>a. a < 33554432) = Some s'"
    "\<forall>q < 8192. in_use s' q \<longleftrightarrow> q < unat (START_KMEM s' div PAGE_SIZE)" "upages_ok s' 1000" "kpages_ok s' 1000"
    by (auto simp: demo_pages_def)
  then show ?thesis by (auto simp: kpages_ok_def word_less_nat_alt)
qed

text \<open>
  \<open>mem_set_read_only\<close> clears the write bit of exactly the page table entries of the
  given pages and leaves every other entry alone; \<open>mem_unset_read_only\<close> of the same
  pages makes them writable again and restores every entry that was writable.
\<close>

theorem read_only_roundtrip:
  assumes "unat (addr div PAGE_SIZE) + unat nr \<le> 2 ^ 20" "nr \<le> NR_PAGES s" "i < 2 ^ 20"
  shows "pte (mem_set_read_only s addr nr) i =
      (if unat (addr div PAGE_SIZE) \<le> i \<and> i < unat (addr div PAGE_SIZE) + unat nr
       then pte s i AND NOT 2 else pte s i) \<and>
    (bit (pte s i) 1 \<longrightarrow> pte (mem_unset_read_only (mem_set_read_only s addr nr) addr nr) i = pte s i)"
proof -
  have "w AND NOT 2 OR 2 = w" if "bit w 1" for w :: u32
  proof (rule bit_word_eqI)
    fix n assume n: "n < LENGTH(32)"
    have two: "bit (2 :: u32) n \<longleftrightarrow> n = 1" using n by (cases n) (auto simp: bit_1_iff bit_double_iff [of 1, simplified])
    show "bit (w AND NOT 2 OR 2) n \<longleftrightarrow> bit w n"
      unfolding bit_or_iff bit_and_iff bit_not_iff two using that n by auto
  qed
  with assms pte_loop_apply [OF assms(3,1)] show ?thesis
    by (auto simp: mem_set_read_only_def mem_unset_read_only_def PT_SET_READ_ONLY_def PT_SET_ATTRIB_def)
qed

theorem read_only_roundtrip_witness:
  "pte (mem_set_read_only demo_pages 0x1002000 3) 4099 = pte demo_pages 4099 AND NOT 2"
  using read_only_roundtrip [of "0x1002000" 3 demo_pages 4099] by (simp add: demo_pages_fields unat_div)

end
