(* ===== verification/Pool_Alloc.thy ===== *)
theory Pool_Alloc
  imports Page_Alloc
begin

text \<open>
  The memory allocators \<open>kmalloc\<close>/\<open>kfree\<close> (\<open>mm/kmalloc.c\<close>) and \<open>balloc\<close>/\<open>bfree\<close>
  (\<open>mm/malloc.c\<close>). The two files are copies of each other but for the page allocator they
  call and \<open>NR_SIZES\<close>: the functions below take both as arguments, and the two allocators
  are their instances at the end.

  A table lists pools, \<open>mem_t\<close>; a pool is a run of pages cut into blocks of one size, each
  with a header in front. The headers are kept in a map from addresses; the list of tables
  from \<open>root\<close> on is a list; the static pointer \<open>ptr\<close> to a pool is the table, counted from the
  end of the list because tables are only added in front, and the index in it.

  \<open>None\<close> stands for a run that does not come back with a value: the page allocator stops the
  kernel, a table is written through the null pointer it returned, or the size of a block has
  wrapped to 0 and the division by it faults.
\<close>

section \<open>Data\<close>

abbreviation (input) NR_PAGE_SIZE :: u32 where "NR_PAGE_SIZE \<equiv> 4096"
abbreviation (input) FREE_MEM :: u32 where "FREE_MEM \<equiv> 123456"
abbreviation (input) USED_MEM :: u32 where "USED_MEM \<equiv> 654321"

record header =
  h_slot :: u32
  is_free :: u32

record mem =
  m_size :: u32
  m_rsize :: u32
  m_nr_blocks :: u32
  m_nr_alloc :: u32
  m_nr_pages :: u32
  m_memory :: u32

record table =
  t_nr_slots :: u32
  t_sizes :: "mem list"

record 's pools =
  pl_pages :: 's
  pl_hdrs :: "u32 \<Rightarrow> header"
  pl_root :: "table list"
  pl_slot :: u32
  pl_ptr :: "(nat \<times> nat) option"

text \<open>What the instances differ in: \<open>block\<close>, \<open>block_free\<close>, \<open>NR_SIZES\<close>.\<close>

record 's pool_env =
  pe_block :: "'s \<Rightarrow> u32 \<Rightarrow> (u32 \<times> 's) option"
  pe_free :: "'s \<Rightarrow> u32 \<Rightarrow> u32 \<Rightarrow> 's option"
  pe_sizes :: nat

definition zero_mem :: mem where
  "zero_mem = \<lparr>m_size = 0, m_rsize = 0, m_nr_blocks = 0, m_nr_alloc = 0, m_nr_pages = 0, m_memory = 0\<rparr>"

section \<open>Sizes\<close>

text \<open>The size of a block: the request and the header, rounded up to a multiple of the pointer size.\<close>

definition real_size :: "u32 \<Rightarrow> u32" where
  "real_size sz = (let tmp = sz + 8 in (tmp div 4 + (if tmp mod 4 \<noteq> 0 then 1 else 0)) * 4)"

definition NR_BLOCKS :: "u32 \<Rightarrow> u32" where
  "NR_BLOCKS n = n div NR_PAGE_SIZE + (if n mod NR_PAGE_SIZE \<noteq> 0 then 1 else 0)"

definition table_pages :: "nat \<Rightarrow> u32" where
  "table_pages nr = NR_BLOCKS (of_nat (8 + 24 * nr))"

section \<open>kmalloc\<close>

text \<open>The address of block \<open>k\<close> of a pool, where its header is.\<close>

definition blk :: "mem \<Rightarrow> nat \<Rightarrow> u32" where
  "blk m k = m_memory m + of_nat k * m_rsize m"

definition can_hold :: "u32 \<Rightarrow> mem \<Rightarrow> bool" where
  "can_hold sz m \<longleftrightarrow> sz \<le> m_rsize m - 8 \<and> m_nr_blocks m > m_nr_alloc m"

definition first_free :: "(u32 \<Rightarrow> header) \<Rightarrow> mem \<Rightarrow> nat option" where
  "first_free hs m = first_from (\<lambda>k. is_free (hs (blk m k)) = FREE_MEM) 0 (unat (m_nr_blocks m))"

text \<open>The pool at position \<open>i\<close> of the \<open>p\<close>-th table.\<close>

definition pool_at :: "'s pools \<Rightarrow> nat \<Rightarrow> nat \<Rightarrow> mem" where
  "pool_at s p i = t_sizes (pl_root s ! p) ! i"

definition set_pool :: "'s pools \<Rightarrow> nat \<Rightarrow> nat \<Rightarrow> mem \<Rightarrow> 's pools" where
  "set_pool s p i m = s\<lparr>pl_root := (pl_root s)[p := (pl_root s ! p)\<lparr>t_sizes := (t_sizes (pl_root s ! p))[i := m]\<rparr>]\<rparr>"

definition set_hdr :: "'s pools \<Rightarrow> u32 \<Rightarrow> header \<Rightarrow> 's pools" where
  "set_hdr s a h = s\<lparr>pl_hdrs := (pl_hdrs s)(a := h)\<rparr>"

text \<open>Handing out block \<open>k\<close>; the result is the address behind the header.\<close>

definition take_blk :: "'s pools \<Rightarrow> nat \<Rightarrow> nat \<Rightarrow> nat \<Rightarrow> u32 \<Rightarrow> u32 \<times> 's pools" where
  "take_blk s p i k slot =
     (let m = pool_at s p i; s = set_hdr s (blk m k) \<lparr>h_slot = slot, is_free = USED_MEM\<rparr>
      in (blk m k + 8, set_pool s p i (m\<lparr>m_nr_alloc := m_nr_alloc m + 1\<rparr>)))"

text \<open>First the pool that was used last.\<close>

definition try_last :: "'s pools \<Rightarrow> u32 \<Rightarrow> (u32 \<times> 's pools) option" where
  "try_last s sz =
     (case pl_ptr s of
        None \<Rightarrow> None
      | Some (n, i) \<Rightarrow>
          let p = length (pl_root s) - 1 - n; m = pool_at s p i in
          if can_hold sz m
          then case first_free (pl_hdrs s) m of
                 None \<Rightarrow> None
               | Some k \<Rightarrow> Some (take_blk s p i k (pl_slot s))
          else None)"

text \<open>
  Then every pool of every table. The loops over tables and their pools run through the
  numbers \<open>NR_SIZES * j + i\<close> in order, which are the slot numbers they compute.
\<close>

definition find_pool :: "nat \<Rightarrow> 's pools \<Rightarrow> u32 \<Rightarrow> nat option" where
  "find_pool nr s sz = first_from
     (\<lambda>x. let m = pool_at s (x div nr) (x mod nr) in can_hold sz m \<and> first_free (pl_hdrs s) m \<noteq> None)
     0 (nr * length (pl_root s))"

definition scan_pools :: "nat \<Rightarrow> 's pools \<Rightarrow> u32 \<Rightarrow> (u32 \<times> 's pools) option" where
  "scan_pools nr s sz =
     (case find_pool nr s sz of
        None \<Rightarrow> None
      | Some x \<Rightarrow>
          let p = x div nr; i = x mod nr;
              (a, s) = take_blk s p i (the (first_free (pl_hdrs s) (pool_at s p i))) (of_nat x)
          in Some (a, s\<lparr>pl_slot := of_nat x, pl_ptr := Some (length (pl_root s) - 1 - p, i)\<rparr>))"

text \<open>All blocks of a new pool are free, the first one is handed out.\<close>

primrec init_hdrs :: "nat \<Rightarrow> (u32 \<Rightarrow> header) \<Rightarrow> u32 \<Rightarrow> u32 \<Rightarrow> u32 \<Rightarrow> header" where
  "init_hdrs 0 hs a rsize = hs"
| "init_hdrs (Suc n) hs a rsize = init_hdrs n (hs(a := \<lparr>h_slot = 0, is_free = FREE_MEM\<rparr>)) (a + rsize) rsize"

definition fill_pool :: "'s pool_env \<Rightarrow> 's pools \<Rightarrow> nat \<Rightarrow> nat \<Rightarrow> u32 \<Rightarrow> u32 \<Rightarrow> (u32 \<times> 's pools) option" where
  "fill_pool E s p i sz slot = do {
     let rsize = real_size sz;
     let blocks = NR_BLOCKS rsize;
     (a, pg) \<leftarrow> pe_block E (pl_pages s) blocks;
     if rsize = 0 then None else do {
     let m = \<lparr>m_size = sz, m_rsize = rsize, m_nr_blocks = blocks * NR_PAGE_SIZE div rsize,
              m_nr_alloc = 1, m_nr_pages = blocks, m_memory = a\<rparr>;
     let hs = init_hdrs (unat (m_nr_blocks m)) (pl_hdrs s) a rsize;
     let s = set_pool (s\<lparr>pl_pages := pg, pl_hdrs := hs(a := \<lparr>h_slot = slot, is_free = USED_MEM\<rparr>)\<rparr>) p i m;
     Some (a + 8, s\<lparr>pl_slot := slot, pl_ptr := Some (length (pl_root s) - 1 - p, i)\<rparr>)
   }}"

text \<open>An unused entry of a table that is not full.\<close>

definition find_empty :: "nat \<Rightarrow> 's pools \<Rightarrow> nat option" where
  "find_empty nr s = first_from
     (\<lambda>x. t_nr_slots (pl_root s ! (x div nr)) \<noteq> of_nat nr \<and> m_nr_blocks (pool_at s (x div nr) (x mod nr)) = 0)
     0 (nr * length (pl_root s))"

definition use_empty :: "'s pool_env \<Rightarrow> 's pools \<Rightarrow> nat \<Rightarrow> u32 \<Rightarrow> (u32 \<times> 's pools) option" where
  "use_empty E s x sz =
     (let nr = pe_sizes E; p = x div nr; t = pl_root s ! p;
          s = s\<lparr>pl_root := (pl_root s)[p := t\<lparr>t_nr_slots := t_nr_slots t + 1\<rparr>]\<rparr>
      in fill_pool E s p (x mod nr) sz (of_nat x))"

text \<open>A new table in front of the others; also the first one, when \<open>root\<close> is NULL.\<close>

definition add_table :: "'s pool_env \<Rightarrow> 's pools \<Rightarrow> u32 \<Rightarrow> (u32 \<times> 's pools) option" where
  "add_table E s sz = do {
     (a, pg) \<leftarrow> pe_block E (pl_pages s) (table_pages (pe_sizes E));
     if a = 0 then None
     else let j = length (pl_root s); t = \<lparr>t_nr_slots = 1, t_sizes = replicate (pe_sizes E) zero_mem\<rparr>
          in fill_pool E (s\<lparr>pl_pages := pg, pl_root := t # pl_root s\<rparr>) 0 0 sz (of_nat (pe_sizes E * j))
   }"

definition pool_alloc :: "'s pool_env \<Rightarrow> 's pools \<Rightarrow> u32 \<Rightarrow> (u32 \<times> 's pools) option" where
  "pool_alloc E s sz =
     (case try_last s sz of
        Some r \<Rightarrow> Some r
      | None \<Rightarrow>
          (if pl_root s = [] then add_table E s sz
           else (case scan_pools (pe_sizes E) s sz of
                   Some r \<Rightarrow> Some r
                 | None \<Rightarrow> (case find_empty (pe_sizes E) s of
                              Some x \<Rightarrow> use_empty E s x sz
                            | None \<Rightarrow> add_table E s sz))))"

section \<open>kfree\<close>

text \<open>Dropping a block from a pool, and the pages of the pool with the last one.\<close>

definition drop_blk :: "'s pool_env \<Rightarrow> 's \<Rightarrow> table \<Rightarrow> nat \<Rightarrow> (table \<times> 's) option" where
  "drop_blk E pg t i = do {
     let m = (t_sizes t ! i)\<lparr>m_nr_alloc := m_nr_alloc (t_sizes t ! i) - 1\<rparr>;
     let t = t\<lparr>t_nr_slots := t_nr_slots t - 1\<rparr>;
     if m_nr_alloc m = 0
     then do {
       pg \<leftarrow> pe_free E pg (m_memory m) (m_nr_pages m);
       Some (t\<lparr>t_sizes := (t_sizes t)[i := m\<lparr>m_memory := 0, m_nr_blocks := 0, m_size := 0, m_rsize := 0\<rparr>]\<rparr>, pg)
     }
     else Some (t\<lparr>t_sizes := (t_sizes t)[i := m]\<rparr>, pg)
   }"

text \<open>The loop over the tables, with the count \<open>j\<close> going down.\<close>

fun free_tabs :: "'s pool_env \<Rightarrow> u32 \<Rightarrow> nat \<Rightarrow> u32 \<Rightarrow> table list \<Rightarrow> 's \<Rightarrow> (table list \<times> 's) option" where
  "free_tabs E nt ns j [] pg = Some ([], pg)"
| "free_tabs E nt ns j (t # ts) pg = do {
     (t, pg) \<leftarrow> (if nt = of_nat (pe_sizes E) * j then drop_blk E pg t ns else Some (t, pg));
     (ts, pg) \<leftarrow> free_tabs E nt ns (j - 1) ts pg;
     Some (t # ts, pg)
   }"

definition pool_free :: "'s pool_env \<Rightarrow> 's pools \<Rightarrow> u32 \<Rightarrow> 's pools option" where
  "pool_free E s addr = do {
     let a = addr - 8;
     let h = pl_hdrs s a;
     let nt = h_slot h div of_nat (pe_sizes E);
     let s = set_hdr s a (h\<lparr>is_free := FREE_MEM\<rparr>);
     (ts, pg) \<leftarrow> free_tabs E nt (unat (h_slot h mod of_nat (pe_sizes E))) nt (pl_root s) (pl_pages s);
     Some (s\<lparr>pl_root := ts, pl_pages := pg\<rparr>)
   }"

section \<open>The two allocators\<close>

definition kmalloc_env :: "pagemem pool_env" where
  "kmalloc_env = \<lparr>pe_block = kpage_alloc, pe_free = kpage_free, pe_sizes = 16\<rparr>"

definition kmalloc :: "pagemem pools \<Rightarrow> u32 \<Rightarrow> (u32 \<times> pagemem pools) option" where
  "kmalloc = pool_alloc kmalloc_env"

definition kfree :: "pagemem pools \<Rightarrow> u32 \<Rightarrow> pagemem pools option" where
  "kfree = pool_free kmalloc_env"

definition malloc_env :: "pagemem pool_env" where
  "malloc_env = \<lparr>pe_block = page_alloc, pe_free = page_free, pe_sizes = 65536\<rparr>"

definition balloc :: "pagemem pools \<Rightarrow> u32 \<Rightarrow> (u32 \<times> pagemem pools) option" where
  "balloc = pool_alloc malloc_env"

definition bfree :: "pagemem pools \<Rightarrow> u32 \<Rightarrow> pagemem pools option" where
  "bfree = pool_free malloc_env"

definition malloc :: "pagemem pools \<Rightarrow> u32 \<Rightarrow> (u32 \<times> pagemem pools) option" where
  "malloc s sz = balloc s sz"

definition free :: "pagemem pools \<Rightarrow> u32 \<Rightarrow> pagemem pools option" where
  "free s addr = bfree s addr"

section \<open>The blocks of a pool\<close>

definition used_blks :: "(u32 \<Rightarrow> header) \<Rightarrow> mem \<Rightarrow> nat set" where
  "used_blks hs m = {k. k < unat (m_nr_blocks m) \<and> is_free (hs (blk m k)) = USED_MEM}"

text \<open>A pool in use: whole pages that hold all its blocks, and as many blocks handed out as counted.\<close>

definition pool_ok :: "(u32 \<Rightarrow> header) \<Rightarrow> mem \<Rightarrow> bool" where
  "pool_ok hs m \<longleftrightarrow> m_memory m \<noteq> 0 \<and> unat (m_memory m) mod 4096 = 0 \<and>
     unat (m_memory m) + 4096 * unat (m_nr_pages m) < 2 ^ 32 \<and> 8 \<le> unat (m_rsize m) \<and>
     unat (m_nr_blocks m) * unat (m_rsize m) \<le> 4096 * unat (m_nr_pages m) \<and>
     (\<forall>k < unat (m_nr_blocks m). is_free (hs (blk m k)) = FREE_MEM \<or> is_free (hs (blk m k)) = USED_MEM) \<and>
     unat (m_nr_alloc m) = card (used_blks hs m)"

text \<open>The bytes of a pool, and those of one block with its header.\<close>

definition span :: "mem \<Rightarrow> nat set" where
  "span m = {unat (m_memory m)..<unat (m_memory m) + 4096 * unat (m_nr_pages m)}"

definition extent :: "mem \<Rightarrow> nat \<Rightarrow> nat set" where
  "extent m k = {unat (blk m k)..<unat (blk m k) + unat (m_rsize m)}"

lemma blk_unat:
  assumes "pool_ok hs m" "k < unat (m_nr_blocks m)"
  shows "unat (blk m k) = unat (m_memory m) + k * unat (m_rsize m)"
    "unat (blk m k) + unat (m_rsize m) \<le> unat (m_memory m) + 4096 * unat (m_nr_pages m)"
proof -
  let ?r = "unat (m_rsize m)" and ?a = "unat (m_memory m)"
  have o: "8 \<le> ?r" "unat (m_nr_blocks m) * ?r \<le> 4096 * unat (m_nr_pages m)" "?a + 4096 * unat (m_nr_pages m) < 2 ^ 32"
    using assms(1) by (simp_all add: pool_ok_def)
  have "Suc k * ?r \<le> unat (m_nr_blocks m) * ?r" using assms(2) by (intro mult_le_mono1) simp
  then have le: "k * ?r + ?r \<le> 4096 * unat (m_nr_pages m)" using o(2) by simp
  then have lt: "?a + k * ?r < 2 ^ 32" using o(1,3) by linarith
  have "k \<le> k * ?r" using o(1) by simp
  then have k: "unat (of_nat k :: u32) = k" using lt by (intro unat_of_nat32) linarith
  have "unat (of_nat k * m_rsize m) = k * ?r" using lt by (subst u32_mult_unat) (simp_all add: k)
  then show e: "unat (blk m k) = ?a + k * ?r" unfolding blk_def using lt by (subst u32_add_unat) simp_all
  show "unat (blk m k) + ?r \<le> ?a + 4096 * unat (m_nr_pages m)" using le by (simp add: e)
qed

lemma extent_span: "pool_ok hs m \<Longrightarrow> k < unat (m_nr_blocks m) \<Longrightarrow> extent m k \<subseteq> span m"
  using blk_unat [of hs m k] by (auto simp: extent_def span_def)

lemma blk_in_span: "pool_ok hs m \<Longrightarrow> k < unat (m_nr_blocks m) \<Longrightarrow> unat (blk m k) \<in> span m"
  using extent_span [of hs m k] by (auto simp: extent_def pool_ok_def)

lemma extents_apart:
  assumes "pool_ok hs m" "k < unat (m_nr_blocks m)" "l < unat (m_nr_blocks m)" "k \<noteq> l"
  shows "extent m k \<inter> extent m l = {}"
proof -
  have lt: "extent m k \<inter> extent m l = {}" if "k < l" "l < unat (m_nr_blocks m)" for k l
  proof -
    have "Suc k * unat (m_rsize m) \<le> l * unat (m_rsize m)" using that(1) by (intro mult_le_mono1) simp
    then show ?thesis using that blk_unat(1) [OF assms(1)] by (auto simp: extent_def)
  qed
  from assms(4) consider "k < l" | "l < k" by linarith
  then show ?thesis using lt [of k l] lt [of l k] assms(2,3) by cases (simp_all add: Int_commute)
qed

lemma blk_inj: "pool_ok hs m \<Longrightarrow> k < unat (m_nr_blocks m) \<Longrightarrow> l < unat (m_nr_blocks m) \<Longrightarrow> blk m k = blk m l \<longleftrightarrow> k = l"
  using extents_apart [of hs m k l] by (cases "k = l") (auto simp: extent_def pool_ok_def)

lemma span_pages:
  assumes "pool_ok hs m" "x \<in> span m"
  shows "x div 4096 \<in> pages_of (m_memory m) (m_nr_pages m)"
proof -
  obtain q where q: "unat (m_memory m) = 4096 * q" using assms(1) by (auto simp: pool_ok_def elim: dvdE)
  have "x < 4096 * q + 4096 * unat (m_nr_pages m)" "4096 * q \<le> x" using assms(2) by (simp_all add: span_def q)
  then have "q \<le> x div 4096" "x div 4096 < q + unat (m_nr_pages m)" by (auto simp: less_eq_div_iff_mult_less_eq div_less_iff_less_mult)
  then show ?thesis using assms(1) by (simp add: pages_of_def pool_ok_def q)
qed

lemma spans_apart:
  assumes "pool_ok hs m" "pool_ok hs' m'" "pages_of (m_memory m) (m_nr_pages m) \<inter> pages_of (m_memory m') (m_nr_pages m') = {}"
  shows "span m \<inter> span m' = {}"
  using span_pages [OF assms(1)] span_pages [OF assms(2)] assms(3) by blast

text \<open>A pool only depends on the headers in it.\<close>

lemma pool_ok_frame:
  assumes "pool_ok hs m" "\<And>b. unat b \<in> span m \<Longrightarrow> hs' b = hs b"
  shows "pool_ok hs' m" "used_blks hs' m = used_blks hs m"
proof -
  have e: "hs' (blk m k) = hs (blk m k)" if "k < unat (m_nr_blocks m)" for k
    using assms(2) blk_in_span [OF assms(1) that] by blast
  then show u: "used_blks hs' m = used_blks hs m" by (auto simp: used_blks_def)
  show "pool_ok hs' m" using assms(1) e u by (simp add: pool_ok_def)
qed

text \<open>Handing out and taking back a block.\<close>

lemma used_finite [simp]: "finite (used_blks hs m)" by (simp add: used_blks_def)

lemma card_used: "card (used_blks hs m) \<le> unat (m_nr_blocks m)"
  using card_mono [of "{..<unat (m_nr_blocks m)}" "used_blks hs m"] by (auto simp: used_blks_def)

lemma blk_alloc [simp]: "blk (m\<lparr>m_nr_alloc := x\<rparr>) = blk m" by (simp add: blk_def fun_eq_iff)

lemma pool_take:
  fixes slot :: u32
  assumes m: "pool_ok hs m" and k: "k < unat (m_nr_blocks m)" "is_free (hs (blk m k)) = FREE_MEM"
  defines "m' \<equiv> m\<lparr>m_nr_alloc := m_nr_alloc m + 1\<rparr>" and "hs' \<equiv> hs(blk m k := \<lparr>h_slot = slot, is_free = USED_MEM\<rparr>)"
  shows "pool_ok hs' m'" "used_blks hs' m' = insert k (used_blks hs m)" "k \<notin> used_blks hs m"
proof -
  have i: "blk m j = blk m k \<longleftrightarrow> j = k" if "j < unat (m_nr_blocks m)" for j using blk_inj [OF m that k(1)] .
  show n: "k \<notin> used_blks hs m" using k(2) by (simp add: used_blks_def)
  show u: "used_blks hs' m' = insert k (used_blks hs m)"
    using i k(1) by (auto simp: used_blks_def m'_def hs'_def)
  have "card (insert k (used_blks hs m)) \<le> unat (m_nr_blocks m)" using card_used [of hs' m'] u by (simp add: m'_def)
  then have "Suc (unat (m_nr_alloc m)) \<le> unat (m_nr_blocks m)" using n m by (simp add: pool_ok_def)
  then have "unat (m_nr_alloc m + 1) = Suc (unat (m_nr_alloc m))"
    using unat_lt_word32 [of "m_nr_blocks m"] by (intro u32_suc [of _ "unat (m_nr_blocks m)"]) simp_all
  then show "pool_ok hs' m'" using m n u i by (auto simp: pool_ok_def m'_def hs'_def)
qed

section \<open>All pools together\<close>

definition idx :: "nat \<Rightarrow> 's pools \<Rightarrow> (nat \<times> nat) set" where
  "idx nr s = {..<length (pl_root s)} \<times> {..<nr}"

abbreviation pool :: "'s pools \<Rightarrow> nat \<times> nat \<Rightarrow> mem" where
  "pool s x \<equiv> pool_at s (fst x) (snd x)"

abbreviation pool_pages :: "mem \<Rightarrow> nat set" where
  "pool_pages m \<equiv> pages_of (m_memory m) (m_nr_pages m)"

text \<open>
  Every pool in use is in order and lies in pages in use, \<open>U\<close>, no two share a page, and the
  static pointer points to a pool.
\<close>

definition pools_ok :: "nat \<Rightarrow> nat set \<Rightarrow> 's pools \<Rightarrow> bool" where
  "pools_ok nr U s \<longleftrightarrow> (\<forall>t \<in> set (pl_root s). length (t_sizes t) = nr) \<and>
     (\<forall>x \<in> idx nr s. m_nr_blocks (pool s x) \<noteq> 0 \<longrightarrow> pool_ok (pl_hdrs s) (pool s x) \<and> pool_pages (pool s x) \<subseteq> U) \<and>
     (\<forall>x \<in> idx nr s. \<forall>y \<in> idx nr s. x \<noteq> y \<longrightarrow> m_nr_blocks (pool s x) \<noteq> 0 \<longrightarrow> m_nr_blocks (pool s y) \<noteq> 0 \<longrightarrow>
        pool_pages (pool s x) \<inter> pool_pages (pool s y) = {}) \<and>
     (\<forall>n i. pl_ptr s = Some (n, i) \<longrightarrow> n < length (pl_root s) \<and> i < nr)"

text \<open>The blocks handed out: the address the caller got and the bytes behind it.\<close>

definition pool_live :: "(u32 \<Rightarrow> header) \<Rightarrow> mem \<Rightarrow> (nat \<times> nat) set" where
  "pool_live hs m = (\<lambda>k. (unat (blk m k) + 8, unat (m_rsize m) - 8)) ` used_blks hs m"

definition live :: "nat \<Rightarrow> 's pools \<Rightarrow> (nat \<times> nat) set" where
  "live nr s = (\<Union>x \<in> idx nr s. pool_live (pl_hdrs s) (pool s x))"

text \<open>A block and its header; two blocks that do not overlap.\<close>

definition body :: "nat \<times> nat \<Rightarrow> nat set" where
  "body b = {fst b - 8..<fst b + snd b}"

lemma body_extent: "8 \<le> unat (m_rsize m) \<Longrightarrow> body (unat (blk m k) + 8, unat (m_rsize m) - 8) = extent m k"
  by (auto simp: body_def extent_def)

lemma pool_at_set:
  assumes "p < length (pl_root s)" "i < length (t_sizes (pl_root s ! p))"
  shows "pool_at (set_pool s p i m) q j = (if q = p \<and> j = i then m else pool_at s q j)"
  using assms by (auto simp: pool_at_def set_pool_def nth_list_update)

lemma set_pool_fields [simp]:
  "pl_hdrs (set_pool s p i m) = pl_hdrs s" "pl_pages (set_pool s p i m) = pl_pages s" "pl_ptr (set_pool s p i m) = pl_ptr s"
  "pl_slot (set_pool s p i m) = pl_slot s" "length (pl_root (set_pool s p i m)) = length (pl_root s)" "idx nr (set_pool s p i m) = idx nr s"
  by (simp_all add: set_pool_def idx_def)

lemma pools_okD:
  assumes "pools_ok nr U s"
  shows "x \<in> idx nr s \<Longrightarrow> m_nr_blocks (pool s x) \<noteq> 0 \<Longrightarrow> pool_ok (pl_hdrs s) (pool s x)"
    "x \<in> idx nr s \<Longrightarrow> m_nr_blocks (pool s x) \<noteq> 0 \<Longrightarrow> pool_pages (pool s x) \<subseteq> U"
    "x \<in> idx nr s \<Longrightarrow> y \<in> idx nr s \<Longrightarrow> x \<noteq> y \<Longrightarrow> m_nr_blocks (pool s x) \<noteq> 0 \<Longrightarrow> m_nr_blocks (pool s y) \<noteq> 0 \<Longrightarrow>
      pool_pages (pool s x) \<inter> pool_pages (pool s y) = {}"
    "p < length (pl_root s) \<Longrightarrow> length (t_sizes (pl_root s ! p)) = nr"
    "pl_ptr s = Some (n, i) \<Longrightarrow> n < length (pl_root s) \<and> i < nr"
  using assms unfolding pools_ok_def by (blast, blast, blast, simp, blast)

text \<open>The blocks of one pool and the others.\<close>

lemma live_split: "x \<in> idx nr s \<Longrightarrow> live nr s = pool_live (pl_hdrs s) (pool s x) \<union> (\<Union>y \<in> idx nr s - {x}. pool_live (pl_hdrs s) (pool s y))"
  by (auto simp: live_def)

lemma used_active: "k \<in> used_blks hs m \<Longrightarrow> m_nr_blocks m \<noteq> 0"
  by (auto simp: used_blks_def)

text \<open>Blocks of other pools lie outside a set of pages the others do not use.\<close>

lemma other_apart:
  assumes "pools_ok nr U s" "y \<in> idx nr s" "b \<in> pool_live (pl_hdrs s) (pool s y)"
    and "pool_ok hs m" "pool_pages m \<inter> pool_pages (pool s y) = {}"
  shows "body b \<inter> span m = {}"
proof -
  obtain k where k: "k \<in> used_blks (pl_hdrs s) (pool s y)" "b = (unat (blk (pool s y) k) + 8, unat (m_rsize (pool s y)) - 8)"
    using assms(3) by (auto simp: pool_live_def)
  have o: "pool_ok (pl_hdrs s) (pool s y)" using pools_okD(1) [OF assms(1,2) used_active [OF k(1)]] .
  then have "body b = extent (pool s y) k" unfolding k(2) by (intro body_extent) (simp add: pool_ok_def)
  moreover have "extent (pool s y) k \<subseteq> span (pool s y)" using k(1) by (intro extent_span [OF o]) (simp add: used_blks_def)
  moreover have "span (pool s y) \<inter> span m = {}" using spans_apart [OF o assms(4)] assms(5) by (simp add: Int_commute)
  ultimately show ?thesis by blast
qed

text \<open>Replacing one pool, when headers change only inside it.\<close>

lemma replace_pool:
  fixes pg :: 's and s :: "'s pools" and sl :: u32
  assumes inv: "pools_ok nr U s" and x: "x \<in> idx nr s"
    and U: "\<And>y. y \<in> idx nr s \<Longrightarrow> y \<noteq> x \<Longrightarrow> m_nr_blocks (pool s y) \<noteq> 0 \<Longrightarrow> pool_pages (pool s y) \<subseteq> U'"
    and ptr: "\<And>n i. pt = Some (n, i) \<Longrightarrow> n < length (pl_root s) \<and> i < nr"
    and m: "m_nr_blocks m \<noteq> 0 \<Longrightarrow> pool_ok hs' m \<and> pool_pages m \<subseteq> U'"
    and others: "\<And>y. y \<in> idx nr s \<Longrightarrow> y \<noteq> x \<Longrightarrow> m_nr_blocks (pool s y) \<noteq> 0 \<Longrightarrow> m_nr_blocks m \<noteq> 0 \<Longrightarrow> pool_pages m \<inter> pool_pages (pool s y) = {}"
    and hs: "\<And>y b. y \<in> idx nr s \<Longrightarrow> y \<noteq> x \<Longrightarrow> m_nr_blocks (pool s y) \<noteq> 0 \<Longrightarrow> unat b \<in> span (pool s y) \<Longrightarrow> hs' b = pl_hdrs s b"
  defines "s' \<equiv> set_pool (s\<lparr>pl_hdrs := hs', pl_pages := pg, pl_ptr := pt, pl_slot := sl\<rparr>) (fst x) (snd x) m"
  shows "pools_ok nr U' s'" "live nr s' = pool_live hs' m \<union> (\<Union>y \<in> idx nr s - {x}. pool_live (pl_hdrs s) (pool s y))"
    "pl_pages s' = pg" "pl_ptr s' = pt" "pl_slot s' = sl" "length (pl_root s') = length (pl_root s)" "idx nr s' = idx nr s"
    "\<And>y. y \<in> idx nr s \<Longrightarrow> pool s' y = (if y = x then m else pool s y)" "pl_hdrs s' = hs'"
proof -
  let ?s = "s\<lparr>pl_hdrs := hs', pl_pages := pg, pl_ptr := pt, pl_slot := sl\<rparr>"
  have p: "fst x < length (pl_root ?s)" "snd x < length (t_sizes (pl_root ?s ! fst x))"
    using x pools_okD(4) [OF inv, of "fst x"] by (auto simp: idx_def)
  have e: "pool s' y = (if y = x then m else pool s y)" for y
    using pool_at_set [OF p] by (cases x; cases y) (auto simp: s'_def pool_at_def)
  then show "\<And>y. y \<in> idx nr s \<Longrightarrow> pool s' y = (if y = x then m else pool s y)" by blast
  show i: "idx nr s' = idx nr s" and f: "pl_pages s' = pg" "pl_ptr s' = pt" "pl_slot s' = sl" "length (pl_root s') = length (pl_root s)" "pl_hdrs s' = hs'"
    by (simp_all add: s'_def idx_def)
  have o: "pool_ok hs' (pool s y)" "used_blks hs' (pool s y) = used_blks (pl_hdrs s) (pool s y)"
    if "y \<in> idx nr s" "y \<noteq> x" "m_nr_blocks (pool s y) \<noteq> 0" for y
    using pool_ok_frame [OF pools_okD(1) [OF inv that(1,3)] hs [OF that]] by blast+
  have "length (t_sizes t) = nr" if "t \<in> set (pl_root s')" for t
    using that inv p(1) pools_okD(4) [OF inv, of "fst x"]
    by (auto simp: s'_def set_pool_def pools_ok_def dest!: set_update_subset_insert [THEN subsetD])
  moreover have "pool_ok (pl_hdrs s') (pool s' y) \<and> pool_pages (pool s' y) \<subseteq> U'" if "y \<in> idx nr s'" "m_nr_blocks (pool s' y) \<noteq> 0" for y
    using that m o(1) [of y] U [of y] by (cases "y = x") (simp_all add: e i f)
  moreover have "pool_pages (pool s' y) \<inter> pool_pages (pool s' z) = {}"
    if "y \<in> idx nr s'" "z \<in> idx nr s'" "y \<noteq> z" "m_nr_blocks (pool s' y) \<noteq> 0" "m_nr_blocks (pool s' z) \<noteq> 0" for y z
    using that others [of y] others [of z] pools_okD(3) [OF inv, of y z] by (cases "y = x"; cases "z = x") (auto simp: e i Int_commute)
  moreover have "n < length (pl_root s') \<and> j < nr" if "pl_ptr s' = Some (n, j)" for n j using ptr that f by simp
  ultimately show "pools_ok nr U' s'" unfolding pools_ok_def by blast
  have "pool_live hs' (pool s y) = pool_live (pl_hdrs s) (pool s y)" if "y \<in> idx nr s" "y \<noteq> x" for y
  proof (cases "m_nr_blocks (pool s y) = 0")
    case True then show ?thesis by (simp add: pool_live_def used_blks_def)
  next
    case False then show ?thesis using o(2) [OF that] by (simp add: pool_live_def)
  qed
  then show "live nr s' = pool_live hs' m \<union> (\<Union>y \<in> idx nr s - {x}. pool_live (pl_hdrs s) (pool s y))"
    using x live_split [of x nr s'] by (simp add: i e f)
qed

section \<open>Slot numbers\<close>

text \<open>
  With one table the slot in the header of a block in use is the number of its pool. (With
  more tables it is not: \<open>kmalloc\<close> numbers them from the newest and gives the block it makes a
  table for the number of the oldest, and \<open>kfree\<close> only ever looks at the newest.)
\<close>

definition slots_ok :: "nat \<Rightarrow> 's pools \<Rightarrow> bool" where
  "slots_ok nr s \<longleftrightarrow> length (pl_root s) = 1 \<and> (\<forall>n i. pl_ptr s = Some (n, i) \<longrightarrow> pl_slot s = of_nat i) \<and>
     (\<forall>i < nr. \<forall>k \<in> used_blks (pl_hdrs s) (pool_at s 0 i). h_slot (pl_hdrs s (blk (pool_at s 0 i) k)) = of_nat i)"

text \<open>The numbers stay right as long as no second table is made.\<close>

definition numbered :: "nat \<Rightarrow> 's pools \<Rightarrow> 's pools \<Rightarrow> bool" where
  "numbered nr s s' \<longleftrightarrow> (slots_ok nr s \<or> pl_root s = [] \<and> pl_ptr s = None) \<longrightarrow> length (pl_root s') = 1 \<longrightarrow> slots_ok nr s'"

text \<open>Replacing a pool keeps the numbers when those of its own blocks are right.\<close>

lemma slots_replace:
  assumes inv: "pools_ok nr U s" and sl: "slots_ok nr s" and i: "i < nr"
    and hs: "\<And>y b. y \<in> idx nr s \<Longrightarrow> y \<noteq> (0, i) \<Longrightarrow> m_nr_blocks (pool s y) \<noteq> 0 \<Longrightarrow> unat b \<in> span (pool s y) \<Longrightarrow> hs' b = pl_hdrs s b"
    and own: "\<And>k. k \<in> used_blks hs' m \<Longrightarrow> h_slot (hs' (blk m k)) = of_nat i"
    and s': "length (pl_root s') = 1" "pl_hdrs s' = hs'" "\<And>l. l < nr \<Longrightarrow> pool_at s' 0 l = (if l = i then m else pool_at s 0 l)"
      "\<And>n l. pl_ptr s' = Some (n, l) \<Longrightarrow> pl_slot s' = of_nat l"
  shows "slots_ok nr s'"
proof -
  have "h_slot (hs' (blk (pool_at s' 0 l) k)) = of_nat l" if h: "l < nr" "k \<in> used_blks hs' (pool_at s' 0 l)" for l k
  proof (cases "l = i")
    case True
    then show ?thesis using own h s'(3) by simp
  next
    case False
    then have pe: "pool_at s' 0 l = pool_at s 0 l" using s'(3) h(1) by simp
    have zi: "(0, l) \<in> idx nr s" "(0, l) \<noteq> (0, i)" "m_nr_blocks (pool s (0, l)) \<noteq> 0"
      using h(1) sl False used_active [OF h(2)] pe by (auto simp: idx_def slots_ok_def)
    have ol: "pool_ok (pl_hdrs s) (pool_at s 0 l)" using pools_okD(1) [OF inv zi(1,3)] by simp
    have fr: "hs' b = pl_hdrs s b" if "unat b \<in> span (pool_at s 0 l)" for b using hs [OF zi] that by simp
    have k: "k \<in> used_blks (pl_hdrs s) (pool_at s 0 l)" using h(2) pool_ok_frame(2) [OF ol fr] pe by simp
    then have "hs' (blk (pool_at s 0 l) k) = pl_hdrs s (blk (pool_at s 0 l) k)"
      using blk_in_span [OF ol, of k] by (intro fr) (simp add: used_blks_def)
    then show ?thesis using k sl h(1) pe by (simp add: slots_ok_def)
  qed
  then show ?thesis using s' by (simp add: slots_ok_def)
qed

section \<open>Handing out a block of a pool\<close>

text \<open>A new block of at least the size asked for, which overlaps no block in use nor its header.\<close>

definition gave :: "nat \<Rightarrow> 's pools \<Rightarrow> u32 \<Rightarrow> u32 \<Rightarrow> 's pools \<Rightarrow> bool" where
  "gave nr s sz a s' \<longleftrightarrow> (\<exists>L. unat sz \<le> L \<and> live nr s' = insert (unat a, L) (live nr s) \<and>
     (\<forall>b \<in> live nr s. body (unat a, L) \<inter> body b = {}))"

lemma blk_addr:
  assumes "pool_ok hs m" "k < unat (m_nr_blocks m)"
  shows "unat (blk m k + 8) = unat (blk m k) + 8"
  using blk_unat(2) [OF assms] assms(1) by (subst u32_add_unat) (simp_all add: pool_ok_def)

lemma take_step:
  fixes slot sl :: u32
  assumes inv: "pools_ok nr U s" and x: "x \<in> idx nr s" and k: "k < unat (m_nr_blocks (pool s x))" "is_free (pl_hdrs s (blk (pool s x) k)) = FREE_MEM"
    and sz: "sz \<le> m_rsize (pool s x) - 8" and ptr: "\<And>n i. pt = Some (n, i) \<Longrightarrow> n < length (pl_root s) \<and> i < nr"
  defines "m \<equiv> pool s x"
  defines "hs' \<equiv> (pl_hdrs s)(blk m k := \<lparr>h_slot = slot, is_free = USED_MEM\<rparr>)"
  defines "s' \<equiv> set_pool (s\<lparr>pl_hdrs := hs', pl_pages := pl_pages s, pl_ptr := pt, pl_slot := sl\<rparr>) (fst x) (snd x) (m\<lparr>m_nr_alloc := m_nr_alloc m + 1\<rparr>)"
  shows "pools_ok nr U s'" "gave nr s sz (blk m k + 8) s'"
    "slots_ok nr s \<Longrightarrow> fst x = 0 \<Longrightarrow> slot = of_nat (snd x) \<Longrightarrow> (\<And>n i. pt = Some (n, i) \<Longrightarrow> sl = of_nat i) \<Longrightarrow> slots_ok nr s'"
proof -
  let ?m' = "m\<lparr>m_nr_alloc := m_nr_alloc m + 1\<rparr>"
  have act: "m_nr_blocks m \<noteq> 0" using k(1) by (auto simp: m_def)
  have o: "pool_ok (pl_hdrs s) m" "pool_pages m \<subseteq> U" using pools_okD(1,2) [OF inv x] act by (simp_all add: m_def)
  have kk: "k < unat (m_nr_blocks m)" "is_free (pl_hdrs s (blk m k)) = FREE_MEM" using k by (simp_all add: m_def)
  note t = pool_take(1,2) [OF o(1) kk, of slot, folded hs'_def] pool_take(3) [OF o(1) kk]
  have dis: "pool_pages m \<inter> pool_pages (pool s y) = {}" if "y \<in> idx nr s" "y \<noteq> x" "m_nr_blocks (pool s y) \<noteq> 0" for y
    using pools_okD(3) [OF inv x that(1)] that act by (simp add: m_def)
  have hs: "hs' b = pl_hdrs s b" if h: "y \<in> idx nr s" "y \<noteq> x" "m_nr_blocks (pool s y) \<noteq> 0" "unat b \<in> span (pool s y)" for y b
    using spans_apart [OF o(1) pools_okD(1) [OF inv h(1,3)] dis [OF h(1-3)]] blk_in_span [OF o(1) kk(1)] h(4) by (auto simp: hs'_def)
  have R: "pools_ok nr U s'" "live nr s' = pool_live hs' ?m' \<union> (\<Union>y \<in> idx nr s - {x}. pool_live (pl_hdrs s) (pool s y))"
    and R8: "\<And>y. y \<in> idx nr s \<Longrightarrow> pool s' y = (if y = x then ?m' else pool s y)"
    unfolding s'_def by (rule replace_pool [OF inv x pools_okD(2) [OF inv] ptr]; use t(1) o(2) dis hs in simp)+
  show "pools_ok nr U s'" by (rule R(1))
  show "slots_ok nr s'" if sl: "slots_ok nr s" and x0: "fst x = 0" "slot = of_nat (snd x)" and pt: "\<And>n i. pt = Some (n, i) \<Longrightarrow> sl = of_nat i"
  proof -
    obtain i where i: "x = (0, i)" "i < nr" using x x0 by (cases x) (auto simp: idx_def)
    have own: "h_slot (hs' (blk ?m' l)) = of_nat i" if "l \<in> used_blks hs' ?m'" for l
    proof (cases "l = k")
      case True
      then show ?thesis using x0 i by (simp add: hs'_def)
    next
      case False
      then have l: "l \<in> used_blks (pl_hdrs s) m" using that t(2) by auto
      then have "blk m l \<noteq> blk m k" using blk_inj [OF o(1), of l k] kk(1) False by (auto simp: used_blks_def)
      then show ?thesis using l sl i by (simp add: slots_ok_def hs'_def m_def)
    qed
    have "pool_at s' 0 l = (if l = i then ?m' else pool_at s 0 l)" if "l < nr" for l
      using R8 [of "(0, l)"] that x i by (simp add: idx_def)
    then show ?thesis
      using sl pt by (intro slots_replace [OF inv sl i(2) hs own]) (auto simp: s'_def slots_ok_def i(1))
  qed
  let ?e = "(unat (blk m k + 8), unat (m_rsize m) - 8)"
  have "pool_live hs' ?m' = insert ?e (pool_live (pl_hdrs s) m)"
    unfolding pool_live_def t(2) using blk_addr [OF o(1) kk(1)] by simp
  then have L: "live nr s' = insert ?e (live nr s)" unfolding R(2) live_split [OF x] by (simp add: m_def)
  have r8: "8 \<le> unat (m_rsize m)" using o(1) by (simp add: pool_ok_def)
  have be: "body ?e = extent m k" using body_extent [OF r8] blk_addr [OF o(1) kk(1)] by simp
  have "body ?e \<inter> body b = {}" if b: "b \<in> live nr s" for b
  proof (cases "b \<in> pool_live (pl_hdrs s) m")
    case True
    then obtain l where l: "l \<in> used_blks (pl_hdrs s) m" "b = (unat (blk m l) + 8, unat (m_rsize m) - 8)" by (auto simp: pool_live_def)
    have "l \<noteq> k" "l < unat (m_nr_blocks m)" using l(1) t(3) by (auto simp: used_blks_def)
    then show ?thesis using extents_apart [OF o(1) kk(1), of l] be l(2) body_extent [OF r8] by simp
  next
    case False
    then obtain y where y: "y \<in> idx nr s" "y \<noteq> x" "b \<in> pool_live (pl_hdrs s) (pool s y)" using b live_split [OF x] by (auto simp: m_def)
    then have "m_nr_blocks (pool s y) \<noteq> 0" by (auto simp: pool_live_def dest: used_active)
    then have "body b \<inter> span m = {}" using other_apart [OF inv y(1,3) o(1) dis [OF y(1,2)]] by simp
    then show ?thesis using be extent_span [OF o(1) kk(1)] by auto
  qed
  moreover have "unat sz \<le> unat (m_rsize m) - 8"
  proof -
    have "8 \<le> m_rsize m" using r8 by (simp add: word_le_nat_alt)
    then have "unat (m_rsize m - 8) = unat (m_rsize m) - 8" by (simp add: unat_sub)
    then show ?thesis using sz by (simp add: word_le_nat_alt m_def)
  qed
  ultimately show "gave nr s sz (blk m k + 8) s'" using L unfolding gave_def by blast
qed

section \<open>A new pool\<close>

lemma round_up_bounds:
  fixes t d :: nat assumes "0 < d"
  shows "t \<le> (t div d + (if t mod d \<noteq> 0 then 1 else 0)) * d" "(t div d + (if t mod d \<noteq> 0 then 1 else 0)) * d < t + d"
proof -
  have e: "t div d * d + t mod d = t" by simp
  have l: "t mod d < d" using assms by simp
  show "t \<le> (t div d + (if t mod d \<noteq> 0 then 1 else 0)) * d" "(t div d + (if t mod d \<noteq> 0 then 1 else 0)) * d < t + d"
    unfolding add_mult_distrib using l by (cases "t mod d = 0"; simp; use e l in linarith)+
qed

lemma real_size_unat:
  assumes "unat sz \<le> 2 ^ 31"
  shows "unat sz + 8 \<le> unat (real_size sz)" "unat (real_size sz) \<le> unat sz + 11"
proof -
  let ?t = "unat sz + 8"
  have t: "unat (sz + 8) = ?t" using assms by (subst u32_add_unat) simp_all
  have m0: "(sz + 8) mod 4 = 0 \<longleftrightarrow> ?t mod 4 = 0" using t by (simp add: word_unat_eq_iff unat_mod)
  let ?c = "?t div 4 + (if ?t mod 4 \<noteq> 0 then 1 else 0)"
  have "unat ((sz + 8) div 4) = ?t div 4" by (simp add: unat_div t)
  then have c: "unat ((sz + 8) div 4 + (if (sz + 8) mod 4 \<noteq> 0 then 1 else 0)) = ?c"
    unfolding m0 using assms by (subst u32_add_unat) auto
  have r: "unat (real_size sz) = ?c * 4"
    unfolding real_size_def Let_def using c assms by (subst u32_mult_unat) (auto simp: c)
  show "?t \<le> unat (real_size sz)" "unat (real_size sz) \<le> unat sz + 11"
    unfolding r using round_up_bounds [of 4 ?t, OF zero_less_numeral] by linarith+
qed

lemma NR_BLOCKS_unat:
  assumes "unat n \<le> 2 ^ 31 + 11" "0 < unat n"
  shows "unat n \<le> 4096 * unat (NR_BLOCKS n)" "4096 * unat (NR_BLOCKS n) < unat n + 4096" "unat (NR_BLOCKS n * 4096) = 4096 * unat (NR_BLOCKS n)"
proof -
  let ?c = "unat n div 4096 + (if unat n mod 4096 \<noteq> 0 then 1 else 0)"
  have "n mod 4096 = 0 \<longleftrightarrow> unat n mod 4096 = 0" by (simp add: word_unat_eq_iff unat_mod)
  then have c: "unat (NR_BLOCKS n) = ?c" unfolding NR_BLOCKS_def using assms by (subst u32_add_unat) (auto simp: unat_div)
  show 1: "unat n \<le> 4096 * unat (NR_BLOCKS n)" "4096 * unat (NR_BLOCKS n) < unat n + 4096"
    unfolding c using round_up_bounds [of 4096 "unat n"] by (simp_all only: zero_less_numeral mult.commute)
  show "unat (NR_BLOCKS n * 4096) = 4096 * unat (NR_BLOCKS n)" using 1 assms(1) by (subst u32_mult_unat) simp_all
qed

lemma init_hdrs_apply:
  "init_hdrs n hs a r b = (if \<exists>j < n. b = a + of_nat j * r then \<lparr>h_slot = 0, is_free = FREE_MEM\<rparr> else hs b)"
proof (induction n arbitrary: hs a)
  case 0
  then show ?case by simp
next
  case (Suc n)
  have "(\<exists>j < Suc n. b = a + of_nat j * r) \<longleftrightarrow> b = a \<or> (\<exists>j < n. b = a + r + of_nat j * r)"
    unfolding Ex_less_Suc2 by (simp add: algebra_simps)
  then show ?case using Suc.IH by auto
qed

lemma new_pool:
  fixes slot :: u32 and hs :: "u32 \<Rightarrow> header"
  assumes sz: "unat sz \<le> 2 ^ 31" and a: "a \<noteq> 0" "unat a mod 4096 = 0" "unat a + 4096 * unat (NR_BLOCKS (real_size sz)) < 2 ^ 32"
  defines "r \<equiv> real_size sz"
  defines "m \<equiv> \<lparr>m_size = sz, m_rsize = r, m_nr_blocks = NR_BLOCKS r * NR_PAGE_SIZE div r, m_nr_alloc = 1, m_nr_pages = NR_BLOCKS r, m_memory = a\<rparr>"
  defines "hs' \<equiv> (init_hdrs (unat (m_nr_blocks m)) hs a r)(a := \<lparr>h_slot = slot, is_free = USED_MEM\<rparr>)"
  shows "pool_ok hs' m" "used_blks hs' m = {0}" "m_nr_blocks m \<noteq> 0" "unat sz \<le> unat r - 8" "8 \<le> unat r"
    "\<And>b. unat b \<notin> span m \<Longrightarrow> hs' b = hs b"
proof -
  note R = real_size_unat [OF sz, folded r_def]
  show r8: "8 \<le> unat r" "unat sz \<le> unat r - 8" using R by simp_all
  have B: "unat r \<le> 4096 * unat (NR_BLOCKS r)" "unat (NR_BLOCKS r * 4096) = 4096 * unat (NR_BLOCKS r)"
    using NR_BLOCKS_unat [of r] R sz r8 by simp_all
  have n: "unat (m_nr_blocks m) = 4096 * unat (NR_BLOCKS r) div unat r" by (simp add: m_def unat_div B(2))
  then have n0: "0 < unat (m_nr_blocks m)" using B(1) r8 by (simp add: div_greater_zero_iff)
  then show "m_nr_blocks m \<noteq> 0" by auto
  have le: "unat (m_nr_blocks m) * unat r \<le> 4096 * unat (NR_BLOCKS r)" unfolding n by (rule div_times_less_eq_dividend)
  have ok0: "pool_ok (\<lambda>_. \<lparr>h_slot = 0, is_free = FREE_MEM\<rparr>) (m\<lparr>m_nr_alloc := 0\<rparr>)"
    using a r8 le by (simp add: pool_ok_def m_def used_blks_def r_def)
  have b0: "blk m 0 = a" by (simp add: blk_def m_def)
  have bk: "blk m k = a \<longleftrightarrow> k = 0" if "k < unat (m_nr_blocks m)" for k
    using blk_inj [OF ok0, of k 0] that n0 b0 by simp
  have hk: "hs' (blk m k) = (if k = 0 then \<lparr>h_slot = slot, is_free = USED_MEM\<rparr> else \<lparr>h_slot = 0, is_free = FREE_MEM\<rparr>)"
    if "k < unat (m_nr_blocks m)" for k
    using that bk [OF that] by (auto simp: hs'_def init_hdrs_apply blk_def m_def)
  then show u: "used_blks hs' m = {0}" using n0 by (auto simp: used_blks_def split: if_splits)
  show "pool_ok hs' m" using ok0 u hk by (simp add: pool_ok_def) (simp add: m_def)
  show "hs' b = hs b" if h: "unat b \<notin> span m" for b
  proof -
    have "unat (blk m j) \<in> span m" if "j < unat (m_nr_blocks m)" for j
      using blk_in_span [OF ok0, of j] that by (simp add: span_def)
    then have "b \<noteq> blk m j" if "j < unat (m_nr_blocks m)" for j using h that by blast
    then have "b \<noteq> a" "\<not> (\<exists>j < unat (m_nr_blocks m). b = a + of_nat j * r)"
      using n0 b0 by (blast, simp add: blk_def m_def)
    then show ?thesis by (auto simp: hs'_def init_hdrs_apply)
  qed
qed

section \<open>Tables\<close>

text \<open>The number of used entries of a table plays no role in what the blocks are.\<close>

lemma slots_upd:
  fixes x :: u32
  assumes "p < length (pl_root s)"
  defines "s' \<equiv> s\<lparr>pl_root := (pl_root s)[p := (pl_root s ! p)\<lparr>t_nr_slots := x\<rparr>]\<rparr>"
  shows "pools_ok nr U s' = pools_ok nr U s" "live nr s' = live nr s" "pool_at s' q j = pool_at s q j" "idx nr s' = idx nr s" "slots_ok nr s' = slots_ok nr s"
proof -
  show e: "pool_at s' q j = pool_at s q j" for q j using assms(1) by (simp add: s'_def pool_at_def nth_list_update)
  show i: "idx nr s' = idx nr s" by (simp add: s'_def idx_def)
  show "slots_ok nr s' = slots_ok nr s" unfolding slots_ok_def e by (simp add: s'_def)
  have "(\<forall>t \<in> set (pl_root s'). length (t_sizes t) = nr) \<longleftrightarrow> (\<forall>t \<in> set (pl_root s). length (t_sizes t) = nr)"
    using assms(1) by (auto simp: all_set_conv_all_nth s'_def nth_list_update)
  then show "pools_ok nr U s' = pools_ok nr U s" unfolding pools_ok_def e i by (simp add: s'_def)
  show "live nr s' = live nr s" unfolding live_def e i by (simp add: s'_def)
qed

text \<open>A new table has no pools.\<close>

lemma push_table:
  fixes pg :: 's and s :: "'s pools"
  assumes "pools_ok nr U s" "U \<subseteq> U'"
  defines "s' \<equiv> s\<lparr>pl_pages := pg, pl_root := \<lparr>t_nr_slots = 1, t_sizes = replicate nr zero_mem\<rparr> # pl_root s\<rparr>"
  shows "pools_ok nr U' s'" "live nr s' = live nr s" "i < nr \<Longrightarrow> m_nr_blocks (pool_at s' 0 i) = 0"
proof -
  have z: "m_nr_blocks (pool_at s' 0 i) = 0" if "i < nr" for i using that by (simp add: s'_def pool_at_def zero_mem_def)
  then show "i < nr \<Longrightarrow> m_nr_blocks (pool_at s' 0 i) = 0" by blast
  have e: "pool_at s' (Suc p) i = pool_at s p i" for p i by (simp add: s'_def pool_at_def)
  have i: "idx nr s' = {0} \<times> {..<nr} \<union> apfst Suc ` idx nr s"
    by (auto simp: s'_def idx_def lessThan_Suc_eq_insert_0 image_iff)
  have old: "\<exists>x \<in> idx nr s. y = apfst Suc x" if "y \<in> idx nr s'" "m_nr_blocks (pool s' y) \<noteq> 0" for y
    using that z by (auto simp: i)
  have p: "pool s' (apfst Suc x) = pool s x" for x by (simp add: e)
  have "pool_ok (pl_hdrs s') (pool s' y) \<and> pool_pages (pool s' y) \<subseteq> U'" if h: "y \<in> idx nr s'" "m_nr_blocks (pool s' y) \<noteq> 0" for y
  proof -
    obtain x where x: "x \<in> idx nr s" "y = apfst Suc x" using old [OF h] by blast
    then have "m_nr_blocks (pool s x) \<noteq> 0" using h(2) p by simp
    then show ?thesis using pools_okD(1,2) [OF assms(1) x(1)] assms(2) unfolding x(2) p by (auto simp: s'_def)
  qed
  moreover have "pool_pages (pool s' y) \<inter> pool_pages (pool s' w) = {}"
    if h: "y \<in> idx nr s'" "w \<in> idx nr s'" "y \<noteq> w" "m_nr_blocks (pool s' y) \<noteq> 0" "m_nr_blocks (pool s' w) \<noteq> 0" for y w
  proof -
    obtain x v where x: "x \<in> idx nr s" "y = apfst Suc x" "v \<in> idx nr s" "w = apfst Suc v" using old h by metis
    then show ?thesis using h(3-5) pools_okD(3) [OF assms(1) x(1,3)] p by auto
  qed
  moreover have "\<forall>t \<in> set (pl_root s'). length (t_sizes t) = nr" using assms(1) by (simp add: s'_def pools_ok_def)
  moreover have "n < length (pl_root s') \<and> j < nr" if "pl_ptr s' = Some (n, j)" for n j
    using pools_okD(5) [OF assms(1), of n j] that by (auto simp: s'_def)
  ultimately show "pools_ok nr U' s'" unfolding pools_ok_def by blast
  have "pool_live hs (pool s' y) = {}" if "y \<in> {0} \<times> {..<nr}" for hs y
    using that z by (auto simp: pool_live_def used_blks_def)
  moreover have "pl_hdrs s' = pl_hdrs s" by (simp add: s'_def)
  ultimately show "live nr s' = live nr s" unfolding live_def i UN_Un by (simp add: e)
qed

section \<open>Allocation over a page allocator\<close>

text \<open>What the pools need of the page allocator, besides that it hands out free pages.\<close>

text \<open>The page allocator has no run of \<open>n\<close> pages left, at once or after it made a new table.\<close>

definition no_pages :: "'s pool_env \<Rightarrow> 's \<Rightarrow> u32 \<Rightarrow> bool" where
  "no_pages E pg n \<longleftrightarrow> (\<exists>pg'. pe_block E pg n = Some (0, pg'))"

definition no_memory :: "'s pool_env \<Rightarrow> 's \<Rightarrow> u32 \<Rightarrow> bool" where
  "no_memory E pg n \<longleftrightarrow> no_pages E pg n \<or> (\<exists>a pg'. pe_block E pg (table_pages (pe_sizes E)) = Some (a, pg') \<and> no_pages E pg' n)"

locale pool_source = run_allocator "pe_block E" used ok for E :: "'s pool_env" and used :: "'s \<Rightarrow> nat set" and ok :: "'s \<Rightarrow> nat \<Rightarrow> bool" +
  assumes alloc_addr: "ok pg (Suc (unat n) + k) \<Longrightarrow> pe_block E pg n = Some (a, pg') \<Longrightarrow> a \<noteq> 0 \<Longrightarrow>
      unat a mod 4096 = 0 \<and> unat a + 4096 * unat n < 2 ^ 32"
    and ok_less: "ok pg (j + k) \<Longrightarrow> ok pg k"
    and sizes_pos: "0 < pe_sizes E"
begin

lemma fill_step:
  assumes inv: "pools_ok nr (used (pl_pages s)) s" and x: "(p, i) \<in> idx nr s" "m_nr_blocks (pool_at s p i) = 0"
    and sz: "unat sz \<le> 2 ^ 31" and ok: "ok (pl_pages s) (Suc (unat (NR_BLOCKS (real_size sz))) + k)"
  shows "\<exists>a s'. fill_pool E s p i sz slot = Some (a, s') \<and> ok (pl_pages s') k \<and>
    (a = 8 \<and> no_pages E (pl_pages s) (NR_BLOCKS (real_size sz)) \<or> pools_ok nr (used (pl_pages s')) s' \<and> gave nr s sz a s' \<and>
       (slots_ok nr s \<longrightarrow> p = 0 \<longrightarrow> slot = of_nat i \<longrightarrow> slots_ok nr s'))"
proof -
  let ?r = "real_size sz" and ?n = "NR_BLOCKS (real_size sz)"
  obtain a pg where a: "pe_block E (pl_pages s) ?n = Some (a, pg)" "ok pg k"
    "pages_of a ?n \<inter> used (pl_pages s) = {}" "used pg = used (pl_pages s) \<union> pages_of a ?n"
    using alloc_run [OF ok] by blast
  have r0: "?r \<noteq> 0" using real_size_unat(1) [OF sz] by auto
  define m where "m = \<lparr>m_size = sz, m_rsize = ?r, m_nr_blocks = ?n * NR_PAGE_SIZE div ?r, m_nr_alloc = 1, m_nr_pages = ?n, m_memory = a\<rparr>"
  define hs' where "hs' = (init_hdrs (unat (m_nr_blocks m)) (pl_hdrs s) a ?r)(a := \<lparr>h_slot = slot, is_free = USED_MEM\<rparr>)"
  define s' where "s' = set_pool (s\<lparr>pl_hdrs := hs', pl_pages := pg, pl_ptr := Some (length (pl_root s) - 1 - p, i), pl_slot := slot\<rparr>) p i m"
  have e: "fill_pool E s p i sz slot = Some (a + 8, s')"
    using a(1) r0 by (simp add: fill_pool_def Let_def s'_def hs'_def m_def set_pool_def)
  show ?thesis
  proof (cases "a = 0")
    case True
    then show ?thesis using e a(1,2) by (simp add: s'_def no_pages_def)
  next
    case False
    note ad = alloc_addr [OF ok a(1) False]
    have az: "unat a mod 4096 = 0" "unat a + 4096 * unat ?n < 2 ^ 32" using ad by blast+
    note N = new_pool(1,2) [OF sz False az, where hs = "pl_hdrs s" and slot = slot, folded m_def, folded hs'_def]
      new_pool(3) [OF sz False az, folded m_def] new_pool(4,5) [OF sz False az]
    have frame: "hs' b = pl_hdrs s b" if "unat b \<notin> span m" for b
      using new_pool(6) [OF sz False az, where hs = "pl_hdrs s" and slot = slot, folded m_def, folded hs'_def] that by blast
    have dis: "pool_pages m \<inter> pool_pages (pool s y) = {}" if "y \<in> idx nr s" "m_nr_blocks (pool s y) \<noteq> 0" for y
      using pools_okD(2) [OF inv that] a(3) by (auto simp: m_def)
    have hs: "hs' b = pl_hdrs s b" if h: "y \<in> idx nr s" "m_nr_blocks (pool s y) \<noteq> 0" "unat b \<in> span (pool s y)" for y b
      using spans_apart [OF N(1) pools_okD(1) [OF inv h(1,2)] dis [OF h(1,2)]] h(3) by (intro frame) blast
    have pt: "n < length (pl_root s) \<and> j < nr" if "Some (length (pl_root s) - 1 - p, i) = Some (n, j)" for n j
      using that x(1) by (auto simp: idx_def)
    have pm: "pool_ok hs' m \<and> pool_pages m \<subseteq> used pg" using N(1) a(4) by (auto simp: m_def)
    have U: "pool_pages (pool s y) \<subseteq> used pg" if "y \<in> idx nr s" "m_nr_blocks (pool s y) \<noteq> 0" for y
      using pools_okD(2) [OF inv that] a(4) by blast
    have R: "pools_ok nr (used pg) s'" "live nr s' = pool_live hs' m \<union> (\<Union>y \<in> idx nr s - {(p, i)}. pool_live (pl_hdrs s) (pool s y))"
      and R8: "\<And>y. y \<in> idx nr s \<Longrightarrow> pool s' y = (if y = (p, i) then m else pool s y)"
      unfolding s'_def by (rule replace_pool(1,2,8) [OF inv x(1) U pt, unfolded fst_conv snd_conv]; use pm dis hs in simp)+
    have "pool_live (pl_hdrs s) (pool s (p, i)) = {}" using x(2) by (simp add: pool_live_def used_blks_def)
    then have L0: "(\<Union>y \<in> idx nr s - {(p, i)}. pool_live (pl_hdrs s) (pool s y)) = live nr s"
      unfolding live_split [OF x(1)] by simp
    let ?e = "(unat (a + 8), unat ?r - 8)"
    have b0: "blk m 0 = a" "0 < unat (m_nr_blocks m)" using N(3) by (simp_all add: blk_def m_def word_unat_eq_iff)
    have "pool_live hs' m = {?e}"
      unfolding pool_live_def N(2) using blk_addr [OF N(1) b0(2)] b0(1) by (simp add: m_def)
    then have L: "live nr s' = insert ?e (live nr s)" using R(2) L0 by simp
    have "body ?e = extent m 0" using body_extent [of m 0] N(5) blk_addr [OF N(1) b0(2)] b0(1) by (simp add: m_def)
    then have be: "body ?e \<subseteq> span m" using extent_span [OF N(1) b0(2)] by simp
    have "body ?e \<inter> body b = {}" if b: "b \<in> live nr s" for b
    proof -
      obtain y where y: "y \<in> idx nr s" "b \<in> pool_live (pl_hdrs s) (pool s y)" using b by (auto simp: live_def)
      then have "m_nr_blocks (pool s y) \<noteq> 0" by (auto simp: pool_live_def dest: used_active)
      then show ?thesis using other_apart [OF inv y N(1) dis [OF y(1)]] be by blast
    qed
    then have "gave nr s sz (a + 8) s'" using L N(4) unfolding gave_def by blast
    moreover have "slots_ok nr s'" if sl: "slots_ok nr s" and p0: "p = 0" "slot = of_nat i"
    proof -
      have i: "i < nr" using x(1) by (simp add: idx_def)
      have "h_slot (hs' (blk m l)) = of_nat i" if "l \<in> used_blks hs' m" for l
        using that N(2) b0(1) p0 by (simp add: hs'_def)
      moreover have "pool_at s' 0 l = (if l = i then m else pool_at s 0 l)" if "l < nr" for l
        using R8 [of "(0, l)"] that x(1) p0 by (simp add: idx_def)
      ultimately show ?thesis
        using sl p0 by (intro slots_replace [OF inv sl i hs]) (auto simp: s'_def slots_ok_def)
    qed
    ultimately show ?thesis using e R(1) a(2) by (simp add: s'_def)
  qed
qed

end

lemma first_freeD: "first_free hs m = Some k \<Longrightarrow> k < unat (m_nr_blocks m) \<and> is_free (hs (blk m k)) = FREE_MEM"
  unfolding first_free_def by (drule first_from_SomeD) simp

lemma take_last_ok:
  assumes inv: "pools_ok nr U s" and t: "try_last s sz = Some (a, s')"
  shows "pools_ok nr U s'" "gave nr s sz a s'" "pl_pages s' = pl_pages s" "numbered nr s s'"
proof -
  obtain n i k where p: "pl_ptr s = Some (n, i)" "can_hold sz (pool_at s (length (pl_root s) - 1 - n) i)"
    "first_free (pl_hdrs s) (pool_at s (length (pl_root s) - 1 - n) i) = Some k"
    "take_blk s (length (pl_root s) - 1 - n) i k (pl_slot s) = (a, s')"
    using t by (auto simp: try_last_def Let_def split: option.splits if_splits)
  let ?x = "(length (pl_root s) - 1 - n, i)"
  have x: "?x \<in> idx nr s" using pools_okD(5) [OF inv p(1)] by (auto simp: idx_def)
  note f = first_freeD [OF p(3)]
  have sz: "sz \<le> m_rsize (pool s ?x) - 8" using p(2) by (simp add: can_hold_def)
  have sx: "fst ?x = 0 \<and> pl_slot s = of_nat (snd ?x)" if "slots_ok nr s" using that p(1) by (simp add: slots_ok_def)
  have s': "a = blk (pool s ?x) k + 8"
    "s' = set_pool (s\<lparr>pl_hdrs := (pl_hdrs s)(blk (pool s ?x) k := \<lparr>h_slot = pl_slot s, is_free = USED_MEM\<rparr>), pl_pages := pl_pages s,
       pl_ptr := pl_ptr s, pl_slot := pl_slot s\<rparr>) (fst ?x) (snd ?x) ((pool s ?x)\<lparr>m_nr_alloc := m_nr_alloc (pool s ?x) + 1\<rparr>)"
    using p(4) by (auto simp: take_blk_def set_hdr_def Let_def)
  have fr: "k < unat (m_nr_blocks (pool s ?x))" "is_free (pl_hdrs s (blk (pool s ?x) k)) = FREE_MEM" using f by simp_all
  show "pools_ok nr U s'" "gave nr s sz a s'" unfolding s' using take_step(1,2) [OF inv x fr sz pools_okD(5) [OF inv]] by blast+
  show "pl_pages s' = pl_pages s" unfolding s' by simp
  have "slots_ok nr s'" if "slots_ok nr s"
    unfolding s' using sx that by (intro take_step(3) [OF inv x fr sz pools_okD(5) [OF inv]]) (auto simp: slots_ok_def [of nr s])
  then show "numbered nr s s'" using p(1) by (simp add: numbered_def)
qed

lemma index_ok: "x < nr * length (pl_root s) \<Longrightarrow> (x div nr, x mod nr) \<in> idx nr s"
  by (cases "nr = 0") (auto simp: idx_def less_mult_imp_div_less mult.commute)

lemma scan_pools_ok:
  assumes inv: "pools_ok nr U s" and t: "scan_pools nr s sz = Some (a, s')"
  shows "pools_ok nr U s'" "gave nr s sz a s'" "pl_pages s' = pl_pages s" "numbered nr s s'"
proof -
  obtain x where x: "find_pool nr s sz = Some x" using t by (auto simp: scan_pools_def split: option.splits)
  let ?x = "(x div nr, x mod nr)"
  have lt: "x < nr * length (pl_root s)" and hold: "can_hold sz (pool s ?x)" and ff: "first_free (pl_hdrs s) (pool s ?x) \<noteq> None"
    using first_from_SomeD [OF x [unfolded find_pool_def]] by (simp_all add: Let_def)
  obtain k where k: "first_free (pl_hdrs s) (pool s ?x) = Some k" using ff by blast
  note f = first_freeD [OF k] and ix = index_ok [OF lt]
  have sz: "sz \<le> m_rsize (pool s ?x) - 8" using hold by (simp add: can_hold_def)
  have pt: "n < length (pl_root s) \<and> i < nr" if "Some (length (pl_root s) - 1 - x div nr, x mod nr) = Some (n, i)" for n i
    using that ix by (auto simp: idx_def)
  have s': "a = blk (pool s ?x) k + 8"
    "s' = set_pool (s\<lparr>pl_hdrs := (pl_hdrs s)(blk (pool s ?x) k := \<lparr>h_slot = of_nat x, is_free = USED_MEM\<rparr>), pl_pages := pl_pages s,
       pl_ptr := Some (length (pl_root s) - 1 - x div nr, x mod nr), pl_slot := of_nat x\<rparr>) (fst ?x) (snd ?x)
       ((pool s ?x)\<lparr>m_nr_alloc := m_nr_alloc (pool s ?x) + 1\<rparr>)"
    using t x k by (cases s; auto simp: scan_pools_def take_blk_def set_hdr_def set_pool_def pool_at_def Let_def)+
  show "pools_ok nr U s'" "gave nr s sz a s'" unfolding s' using take_step [OF inv ix _ _ sz pt] f by blast+
  show "pl_pages s' = pl_pages s" unfolding s' by simp
  have "slots_ok nr s'" if "slots_ok nr s"
  proof -
    have "x < nr" using lt that by (simp add: slots_ok_def)
    then show ?thesis unfolding s' using f that by (intro take_step(3) [OF inv ix _ _ sz pt]) auto
  qed
  then show "numbered nr s s'" using lt by (auto simp: numbered_def)
qed

context pool_source
begin

lemma fill_pool_length: "fill_pool E s p i sz slot = Some (a, s') \<Longrightarrow> length (pl_root s') = length (pl_root s)"
  by (auto simp: fill_pool_def Let_def split: bind_splits if_splits)

lemma add_table_ok:
  assumes inv: "pools_ok (pe_sizes E) (used (pl_pages s)) s" and sz: "unat sz \<le> 2 ^ 31"
    and ok: "ok (pl_pages s) (Suc (unat (table_pages (pe_sizes E))) + (Suc (unat (NR_BLOCKS (real_size sz))) + k))"
    and t: "\<not> no_pages E (pl_pages s) (table_pages (pe_sizes E))"
  shows "\<exists>a s'. add_table E s sz = Some (a, s') \<and> ok (pl_pages s') k \<and>
    (a = 8 \<and> no_memory E (pl_pages s) (NR_BLOCKS (real_size sz)) \<or> pools_ok (pe_sizes E) (used (pl_pages s')) s' \<and> gave (pe_sizes E) s sz a s' \<and> numbered (pe_sizes E) s s')"
proof -
  let ?nr = "pe_sizes E"
  obtain a pg where a: "pe_block E (pl_pages s) (table_pages ?nr) = Some (a, pg)" "ok pg (Suc (unat (NR_BLOCKS (real_size sz))) + k)"
    "used pg = used (pl_pages s) \<union> pages_of a (table_pages ?nr)"
    using alloc_run [OF ok] by blast
  define s1 where "s1 = s\<lparr>pl_pages := pg, pl_root := \<lparr>t_nr_slots = 1, t_sizes = replicate ?nr zero_mem\<rparr> # pl_root s\<rparr>"
  have U: "used (pl_pages s) \<subseteq> used pg" using a(3) by blast
  note P = push_table [OF inv U, where pg = pg, folded s1_def]
  have i1: "pools_ok ?nr (used (pl_pages s1)) s1" using P(1) by (simp add: s1_def)
  have x: "(0, 0) \<in> idx ?nr s1" using sizes_pos by (simp add: idx_def s1_def)
  have ok1: "ok (pl_pages s1) (Suc (unat (NR_BLOCKS (real_size sz))) + k)" using a(2) by (simp add: s1_def)
  have fill: "add_table E s sz = fill_pool E s1 0 0 sz (of_nat (?nr * length (pl_root s)))"
    using a(1) t by (auto simp: add_table_def s1_def no_pages_def Let_def)
  have g: "gave ?nr s1 = gave ?nr s" by (simp add: gave_def fun_eq_iff P(2))
  obtain b s' where b: "add_table E s sz = Some (b, s')" "ok (pl_pages s') k"
    "b = 8 \<and> no_pages E (pl_pages s1) (NR_BLOCKS (real_size sz)) \<or> pools_ok ?nr (used (pl_pages s')) s' \<and> gave ?nr s sz b s' \<and> (slots_ok ?nr s1 \<longrightarrow> of_nat (?nr * length (pl_root s)) = (0 :: u32) \<longrightarrow> slots_ok ?nr s')"
    using fill_step [OF i1 x P(3) [OF sizes_pos] sz ok1, of "of_nat (?nr * length (pl_root s))"] unfolding fill g by auto
  have len: "length (pl_root s') = Suc (length (pl_root s))" using fill_pool_length [OF b(1) [unfolded fill]] by (simp add: s1_def)
  have "slots_ok ?nr s1" if "pl_root s = []" "pl_ptr s = None"
    using that P(3) by (auto simp: slots_ok_def s1_def dest!: used_active)
  then have "numbered ?nr s s'" if "pools_ok ?nr (used (pl_pages s')) s' \<and> (slots_ok ?nr s1 \<longrightarrow> of_nat (?nr * length (pl_root s)) = (0 :: u32) \<longrightarrow> slots_ok ?nr s')"
    using that len by (auto simp: numbered_def slots_ok_def [of ?nr s])
  moreover have "no_memory E (pl_pages s) (NR_BLOCKS (real_size sz))" if "no_pages E (pl_pages s1) (NR_BLOCKS (real_size sz))"
    using that a(1) by (auto simp: no_memory_def s1_def)
  ultimately show ?thesis using b by blast
qed

lemma pool_alloc_ok:
  assumes inv: "pools_ok (pe_sizes E) (used (pl_pages s)) s" and sz: "unat sz \<le> 2 ^ 31"
    and ok: "ok (pl_pages s) (Suc (unat (table_pages (pe_sizes E))) + (Suc (unat (NR_BLOCKS (real_size sz))) + k))"
    and t: "\<not> no_pages E (pl_pages s) (table_pages (pe_sizes E))"
  shows "\<exists>a s'. pool_alloc E s sz = Some (a, s') \<and> ok (pl_pages s') k \<and>
    (a = 8 \<and> no_memory E (pl_pages s) (NR_BLOCKS (real_size sz)) \<or> pools_ok (pe_sizes E) (used (pl_pages s')) s' \<and> gave (pe_sizes E) s sz a s' \<and> numbered (pe_sizes E) s s')"
proof -
  let ?nr = "pe_sizes E"
  have ok1: "ok (pl_pages s) (Suc (unat (NR_BLOCKS (real_size sz))) + k)" using ok_less [OF ok] .
  have ok0: "ok (pl_pages s) k" using ok_less [OF ok1] .
  show ?thesis
  proof (cases "try_last s sz")
    case (Some r)
    then obtain a s' where r: "try_last s sz = Some (a, s')" by (cases r) simp
    then show ?thesis using take_last_ok [OF inv r] ok0 by (simp add: pool_alloc_def)
  next
    case None
    note add = add_table_ok [OF inv sz ok t]
    show ?thesis
    proof (cases "scan_pools ?nr s sz")
      case (Some r)
      then obtain a s' where r: "scan_pools ?nr s sz = Some (a, s')" by (cases r) simp
      show ?thesis
      proof (cases "pl_root s = []")
        case True
        then show ?thesis using add None by (simp add: pool_alloc_def)
      next
        case False
        then show ?thesis using scan_pools_ok [OF inv r] ok0 None r by (simp add: pool_alloc_def)
      qed
    next
      case scan: None
      show ?thesis
      proof (cases "find_empty ?nr s")
        case empty: None
        then have "pool_alloc E s sz = add_table E s sz" using None scan by (simp add: pool_alloc_def)
        then show ?thesis using add by simp
      next
        case (Some x)
        have lt: "x < ?nr * length (pl_root s)" and z: "m_nr_blocks (pool_at s (x div ?nr) (x mod ?nr)) = 0"
          using first_from_SomeD [OF Some [unfolded find_empty_def]] by simp_all
        note ix = index_ok [OF lt]
        have p: "x div ?nr < length (pl_root s)" using ix by (simp add: idx_def)
        define s1 where "s1 = s\<lparr>pl_root := (pl_root s)[x div ?nr := (pl_root s ! (x div ?nr))\<lparr>t_nr_slots := t_nr_slots (pl_root s ! (x div ?nr)) + 1\<rparr>]\<rparr>"
        note S = slots_upd [OF p, where x = "t_nr_slots (pl_root s ! (x div ?nr)) + 1", folded s1_def]
        have pg: "pl_pages s1 = pl_pages s" by (simp add: s1_def)
        have i1: "pools_ok ?nr (used (pl_pages s1)) s1" using S(1) inv pg by simp
        have fill: "pool_alloc E s sz = fill_pool E s1 (x div ?nr) (x mod ?nr) sz (of_nat x)"
          using None scan Some p by (auto simp: pool_alloc_def use_empty_def s1_def Let_def)
        have g: "gave ?nr s1 = gave ?nr s" by (simp add: gave_def fun_eq_iff S(2))
        have "x div ?nr = 0 \<and> x mod ?nr = x" if "slots_ok ?nr s" using that lt by (simp add: slots_ok_def)
        then have n: "numbered ?nr s s'" if "slots_ok ?nr s1 \<longrightarrow> x div ?nr = 0 \<longrightarrow> of_nat x = (of_nat (x mod ?nr) :: u32) \<longrightarrow> slots_ok ?nr s'" for s'
          using that p unfolding S(5) numbered_def by auto
        show ?thesis using fill_step [OF i1, of "x div ?nr" "x mod ?nr" sz k "of_nat x"] ix z S(3,4) sz ok1 pg n unfolding fill g no_memory_def by auto
      qed
    qed
  qed
qed

end

section \<open>Freeing\<close>

lemma pool_give:
  assumes m: "pool_ok hs m" and k: "k \<in> used_blks hs m"
  defines "m' \<equiv> m\<lparr>m_nr_alloc := m_nr_alloc m - 1\<rparr>" and "hs' \<equiv> hs(blk m k := (hs (blk m k))\<lparr>is_free := FREE_MEM\<rparr>)"
  shows "pool_ok hs' m'" "used_blks hs' m' = used_blks hs m - {k}" "m_nr_alloc m' = 0 \<longleftrightarrow> used_blks hs m = {k}"
    "\<And>b. b \<noteq> blk m k \<Longrightarrow> hs' b = hs b"
proof -
  have kl: "k < unat (m_nr_blocks m)" using k by (simp add: used_blks_def)
  have i: "blk m j = blk m k \<longleftrightarrow> j = k" if "j < unat (m_nr_blocks m)" for j using blk_inj [OF m that kl] .
  show u: "used_blks hs' m' = used_blks hs m - {k}" using i by (auto simp: used_blks_def m'_def hs'_def)
  have c: "unat (m_nr_alloc m) = card (used_blks hs m)" "0 < card (used_blks hs m)"
    using m k by (auto simp: pool_ok_def card_gt_0_iff)
  then have "1 \<le> m_nr_alloc m" by (simp add: word_le_nat_alt)
  then have d: "unat (m_nr_alloc m - 1) = card (used_blks hs m) - 1" using c(1) by (simp add: unat_sub)
  then show "pool_ok hs' m'" using m u i k by (auto simp: pool_ok_def m'_def hs'_def)
  have "m_nr_alloc m' = 0 \<longleftrightarrow> card (used_blks hs m - {k}) = 0" using d k by (simp add: m'_def word_unat_eq_iff)
  also have "\<dots> \<longleftrightarrow> used_blks hs m - {k} = {}" by (simp only: card_eq_0_iff) simp
  finally show "m_nr_alloc m' = 0 \<longleftrightarrow> used_blks hs m = {k}" using k by auto
  show "\<And>b. b \<noteq> blk m k \<Longrightarrow> hs' b = hs b" by (simp add: hs'_def)
qed

text \<open>Different blocks have different addresses.\<close>

lemma live_inj:
  assumes "pools_ok nr U s" "x \<in> idx nr s" "y \<in> idx nr s" "k \<in> used_blks (pl_hdrs s) (pool s x)" "l \<in> used_blks (pl_hdrs s) (pool s y)"
    "unat (blk (pool s x) k) = unat (blk (pool s y) l)"
  shows "x = y \<and> k = l"
proof -
  have o: "pool_ok (pl_hdrs s) (pool s x)" "pool_ok (pl_hdrs s) (pool s y)"
    using pools_okD(1) [OF assms(1)] assms(2-5) used_active by blast+
  have lt: "k < unat (m_nr_blocks (pool s x))" "l < unat (m_nr_blocks (pool s y))" using assms(4,5) by (simp_all add: used_blks_def)
  have "x = y"
  proof (rule ccontr)
    assume "x \<noteq> y"
    then have "pool_pages (pool s x) \<inter> pool_pages (pool s y) = {}"
      using pools_okD(3) [OF assms(1-3)] used_active [OF assms(4)] used_active [OF assms(5)] by blast
    then show False using spans_apart [OF o] blk_in_span [OF o(1) lt(1)] blk_in_span [OF o(2) lt(2)] assms(6) by auto
  qed
  then show ?thesis using blk_inj [OF o(1), of k l] lt assms(6) by (auto simp: word_unat_eq_iff)
qed

text \<open>What \<open>kfree\<close> does to the only table.\<close>

lemma pool_free_eq:
  assumes root: "pl_root s = [t]" and h: "h_slot (pl_hdrs s (addr - 8)) = of_nat i" and i: "i < pe_sizes E" and nr: "pe_sizes E < 2 ^ 32"
  shows "pool_free E s addr = (case drop_blk E (pl_pages s) t i of
      None \<Rightarrow> None
    | Some (t', pg) \<Rightarrow> Some (s\<lparr>pl_hdrs := (pl_hdrs s)(addr - 8 := (pl_hdrs s (addr - 8))\<lparr>is_free := FREE_MEM\<rparr>), pl_root := [t'], pl_pages := pg\<rparr>))"
proof -
  let ?nr = "of_nat (pe_sizes E) :: u32"
  have u: "unat ?nr = pe_sizes E" "unat (of_nat i :: u32) = i" using i nr by (auto intro!: unat_of_nat32)
  have "of_nat i div ?nr = 0" "unat (of_nat i mod ?nr) = i" using i u by (simp_all add: word_unat_eq_iff unat_div unat_mod)
  then show ?thesis
    by (auto simp: pool_free_def root h Let_def set_hdr_def split: option.splits bind_splits)
qed

lemma drop_ok:
  fixes y :: u32 and pg :: 's and s :: "'s pools"
  assumes inv: "pools_ok nr U s" and sl: "slots_ok nr s" and t: "pl_root s = [t]" and i: "i < nr"
    and j: "j \<in> used_blks (pl_hdrs s) (pool_at s 0 i)"
  defines "m \<equiv> pool_at s 0 i"
  defines "m1 \<equiv> m\<lparr>m_nr_alloc := m_nr_alloc m - 1\<rparr>" and "hs' \<equiv> (pl_hdrs s)(blk m j := (pl_hdrs s (blk m j))\<lparr>is_free := FREE_MEM\<rparr>)"
  assumes m': "m' = m1 \<and> U' = U \<or> m_nr_blocks m' = 0 \<and> used_blks (pl_hdrs s) m = {j} \<and> U' = U - pool_pages m"
  defines "s' \<equiv> s\<lparr>pl_hdrs := hs', pl_root := [t\<lparr>t_nr_slots := y, t_sizes := (t_sizes t)[i := m']\<rparr>], pl_pages := pg\<rparr>"
  shows "pools_ok nr U' s'" "slots_ok nr s'" "live nr s' = live nr s - {(unat (blk m j) + 8, unat (m_rsize m) - 8)}"
proof -
  let ?x = "(0, i)"
  have x: "?x \<in> idx nr s" using i t by (simp add: idx_def)
  have jm: "j \<in> used_blks (pl_hdrs s) m" using j by (simp add: m_def)
  have act: "m_nr_blocks m \<noteq> 0" using used_active [OF jm] .
  have o: "pool_ok (pl_hdrs s) m" "pool_pages m \<subseteq> U" using pools_okD(1,2) [OF inv x] act by (simp_all add: m_def)
  note G = pool_give [OF o(1) jm, folded m1_def hs'_def]
  have ul: "used_blks hs' m' = used_blks (pl_hdrs s) m - {j}"
    using m'
  proof
    assume "m' = m1 \<and> U' = U" then show ?thesis using G(2) by simp
  next
    assume "m_nr_blocks m' = 0 \<and> used_blks (pl_hdrs s) m = {j} \<and> U' = U - pool_pages m"
    then show ?thesis by (simp add: used_blks_def [of hs'])
  qed
  have pl: "pool_live hs' m' = (\<lambda>k. (unat (blk m k) + 8, unat (m_rsize m) - 8)) ` (used_blks (pl_hdrs s) m - {j})"
    using m'
  proof
    assume "m' = m1 \<and> U' = U" then show ?thesis unfolding pool_live_def ul by (simp add: m1_def)
  next
    assume "m_nr_blocks m' = 0 \<and> used_blks (pl_hdrs s) m = {j} \<and> U' = U - pool_pages m"
    then show ?thesis unfolding pool_live_def ul by simp
  qed
  have dis: "pool_pages m \<inter> pool_pages (pool s z) = {}" if "z \<in> idx nr s" "z \<noteq> ?x" "m_nr_blocks (pool s z) \<noteq> 0" for z
    using pools_okD(3) [OF inv x that(1)] that act by (simp add: m_def)
  have bs: "unat (blk m j) \<in> span m" using jm by (intro blk_in_span [OF o(1)]) (simp add: used_blks_def)
  have hs: "hs' b = pl_hdrs s b" if h: "z \<in> idx nr s" "z \<noteq> ?x" "m_nr_blocks (pool s z) \<noteq> 0" "unat b \<in> span (pool s z)" for z b
    using spans_apart [OF o(1) pools_okD(1) [OF inv h(1,3)] dis [OF h(1-3)]] bs h(4) by (intro G(4)) auto
  define s1 where "s1 = s\<lparr>pl_root := (pl_root s)[0 := (pl_root s ! 0)\<lparr>t_nr_slots := y\<rparr>]\<rparr>"
  have l0: "0 < length (pl_root s)" by (simp add: t)
  note S = slots_upd [OF l0, where x = y, folded s1_def]
  have s': "s' = set_pool (s1\<lparr>pl_hdrs := hs', pl_pages := pg, pl_ptr := pl_ptr s, pl_slot := pl_slot s\<rparr>) (fst ?x) (snd ?x) m'"
    using t by (cases s) (simp add: s'_def s1_def set_pool_def)
  have inv1: "pools_ok nr U s1" and x1: "?x \<in> idx nr s1" using S(1,4) inv x by simp_all
  have U: "pool_pages (pool s1 z) \<subseteq> U'" if "z \<in> idx nr s1" "z \<noteq> ?x" "m_nr_blocks (pool s1 z) \<noteq> 0" for z
    using that pools_okD(2) [OF inv, of z] dis [of z] m' unfolding S(3,4) by blast
  have pt: "n < length (pl_root s1) \<and> l < nr" if "pl_ptr s = Some (n, l)" for n l using pools_okD(5) [OF inv that] by (simp add: s1_def)
  have mo: "pool_ok hs' m' \<and> pool_pages m' \<subseteq> U'" if "m_nr_blocks m' \<noteq> 0" using m' that G(1) o(2) by (elim disjE) (simp_all add: m1_def)
  have md: "pool_pages m' \<inter> pool_pages (pool s1 z) = {}" if "z \<in> idx nr s1" "z \<noteq> ?x" "m_nr_blocks (pool s1 z) \<noteq> 0" "m_nr_blocks m' \<noteq> 0" for z
    using that dis [of z] m' unfolding S(3,4) by (elim disjE) (simp_all add: m1_def)
  have h1: "hs' b = pl_hdrs s1 b" if "z \<in> idx nr s1" "z \<noteq> ?x" "m_nr_blocks (pool s1 z) \<noteq> 0" "unat b \<in> span (pool s1 z)" for z b
    using hs [of z b] that unfolding S(3,4) by (simp add: s1_def)
  have R1: "pools_ok nr U' s'" and R2: "live nr s' = pool_live hs' m' \<union> (\<Union>z \<in> idx nr s1 - {?x}. pool_live (pl_hdrs s1) (pool s1 z))"
    and R8: "\<And>z. z \<in> idx nr s1 \<Longrightarrow> pool s' z = (if z = ?x then m' else pool s1 z)"
    by (subst s', rule replace_pool(1,2,8) [OF inv1 x1 U pt mo md h1]; assumption)+
  show "pools_ok nr U' s'" by (rule R1)
  have L: "live nr s' = pool_live hs' m' \<union> (\<Union>z \<in> idx nr s - {?x}. pool_live (pl_hdrs s) (pool s z))"
    using R2 unfolding S(3,4) by (simp add: s1_def)
  let ?f = "\<lambda>k. (unat (blk m k) + 8, unat (m_rsize m) - 8)"
  have n1: "?f j \<notin> (\<Union>z \<in> idx nr s - {?x}. pool_live (pl_hdrs s) (pool s z))"
  proof
    assume "?f j \<in> (\<Union>z \<in> idx nr s - {?x}. pool_live (pl_hdrs s) (pool s z))"
    then obtain z where z: "z \<in> idx nr s" "z \<noteq> ?x" "?f j \<in> pool_live (pl_hdrs s) (pool s z)" by blast
    then obtain l where "l \<in> used_blks (pl_hdrs s) (pool s z)" "?f j = (unat (blk (pool s z) l) + 8, unat (m_rsize (pool s z)) - 8)"
      unfolding pool_live_def by (elim imageE) simp
    then have l: "l \<in> used_blks (pl_hdrs s) (pool s z)" "unat (blk m j) = unat (blk (pool s z) l)" by simp_all
    then show False using live_inj [OF inv x z(1) _ l(1), of j] j z(2) by (simp add: m_def)
  qed
  have n2: "?f ` (used_blks (pl_hdrs s) m - {j}) = ?f ` used_blks (pl_hdrs s) m - {?f j}"
  proof -
    have "k = j" if "k \<in> used_blks (pl_hdrs s) m" "unat (blk m k) = unat (blk m j)" for k
      using live_inj [OF inv x x, of k j] that j by (simp add: m_def)
    then show ?thesis by auto
  qed
  show "live nr s' = live nr s - {?f j}"
    unfolding L pl n2 live_split [OF x] using n1 by (auto simp: pool_live_def m_def)
  have own: "h_slot (hs' (blk m' k)) = of_nat i" if h: "k \<in> used_blks hs' m'" for k
  proof -
    have k: "k \<in> used_blks (pl_hdrs s) m" "k \<noteq> j" "m' = m1" using h ul m' used_active [OF h] by auto
    then have "blk m k \<noteq> blk m j" using blk_inj [OF o(1), of k j] jm by (auto simp: used_blks_def)
    then show ?thesis using k sl i G(4) by (simp add: slots_ok_def m_def m1_def)
  qed
  have "pool_at s' 0 l = (if l = i then m' else pool_at s 0 l)" if "l < nr" for l
    using R8 [of "(0, l)"] that x1 unfolding S(3) by (simp add: idx_def)
  then show "slots_ok nr s'"
    using sl by (intro slots_replace [OF inv sl i hs own]) (simp_all add: s'_def slots_ok_def)
qed

text \<open>The page allocator, which stops the kernel on a bad page or count, takes the pages of every pool back.\<close>

definition takes_back :: "'s pool_env \<Rightarrow> 's pools \<Rightarrow> bool" where
  "takes_back E s \<longleftrightarrow> (\<forall>x \<in> idx (pe_sizes E) s. m_nr_blocks (pool s x) \<noteq> 0 \<longrightarrow>
     pe_free E (pl_pages s) (m_memory (pool s x)) (m_nr_pages (pool s x)) \<noteq> None)"

locale pool_source_free = pool_source E used ok for E :: "'s pool_env" and used and ok +
  assumes free_run: "ok pg k \<Longrightarrow> a \<noteq> 0 \<Longrightarrow> 0 < unat n \<Longrightarrow> pages_of a n \<subseteq> used pg \<Longrightarrow> unat a + 4096 * unat n < 2 ^ 32 \<Longrightarrow>
      pe_free E pg a n = Some pg' \<Longrightarrow> ok pg' k \<and> used pg' = used pg - pages_of a n"
    and sizes_32: "pe_sizes E < 2 ^ 32"
begin

text \<open>A block is taken off the blocks in use, and nothing else changes for the others.\<close>

lemma pool_free_ok:
  assumes inv: "pools_ok (pe_sizes E) (used (pl_pages s)) s" and sl: "slots_ok (pe_sizes E) s" and ok: "ok (pl_pages s) k"
    and b: "(unat addr, L) \<in> live (pe_sizes E) s"
    and tb: "takes_back E s"
  shows "\<exists>s'. pool_free E s addr = Some s' \<and> ok (pl_pages s') k \<and>
    pools_ok (pe_sizes E) (used (pl_pages s')) s' \<and> slots_ok (pe_sizes E) s' \<and>
    live (pe_sizes E) s' = live (pe_sizes E) s - {(unat addr, L)}"
proof -
  let ?nr = "pe_sizes E"
  obtain t where t: "pl_root s = [t]" using sl by (auto simp: slots_ok_def length_Suc_conv)
  obtain x j where x: "x \<in> idx ?nr s" "j \<in> used_blks (pl_hdrs s) (pool s x)" "unat addr = unat (blk (pool s x) j) + 8" "L = unat (m_rsize (pool s x)) - 8"
    using b by (auto simp: live_def pool_live_def)
  obtain i where i: "x = (0, i)" "i < ?nr" using x(1) t by (auto simp: idx_def)
  define m where "m = pool s x"
  have mt: "m = t_sizes t ! i" by (simp add: m_def i(1) pool_at_def t)
  have act: "m_nr_blocks m \<noteq> 0" using used_active [OF x(2)] by (simp add: m_def)
  have o: "pool_ok (pl_hdrs s) m" "pool_pages m \<subseteq> used (pl_pages s)" using pools_okD(1,2) [OF inv x(1)] act by (simp_all add: m_def)
  have j: "j \<in> used_blks (pl_hdrs s) m" "j < unat (m_nr_blocks m)" using x(2) by (simp_all add: m_def used_blks_def)
  have "addr = blk m j + 8" using x(3) blk_addr [OF o(1) j(2)] by (simp add: m_def word_unat_eq_iff)
  then have a8: "addr - 8 = blk m j" by simp
  have h: "h_slot (pl_hdrs s (addr - 8)) = of_nat i" using sl i(2) j(1) by (simp add: slots_ok_def a8 m_def i(1))
  note F = pool_free_eq [OF t h i(2) sizes_32]
  define hs' where "hs' = (pl_hdrs s)(blk m j := (pl_hdrs s (blk m j))\<lparr>is_free := FREE_MEM\<rparr>)"
  define m1 where "m1 = m\<lparr>m_nr_alloc := m_nr_alloc m - 1\<rparr>"
  let ?out = "\<lambda>m' pg. s\<lparr>pl_hdrs := hs', pl_root := [t\<lparr>t_nr_slots := t_nr_slots t - 1, t_sizes := (t_sizes t)[i := m']\<rparr>], pl_pages := pg\<rparr>"
  have D: "pools_ok ?nr U' (?out m' pg) \<and> slots_ok ?nr (?out m' pg) \<and> live ?nr (?out m' pg) = live ?nr s - {(unat addr, L)}"
    if "m' = m1 \<and> U' = used (pl_pages s) \<or> m_nr_blocks m' = 0 \<and> used_blks (pl_hdrs s) m = {j} \<and> U' = used (pl_pages s) - pool_pages m" for m' U' pg
    using drop_ok [OF inv sl t i(2), where j = j and m' = m' and U' = U' and y = "t_nr_slots t - 1" and pg = pg] that j(1) x(3,4)
    by (simp add: m_def i(1) m1_def hs'_def)
  show ?thesis
  proof (cases "m_nr_alloc m1 = 0")
    case False
    then have "pool_free E s addr = Some (?out m1 (pl_pages s))"
      unfolding F by (simp add: drop_blk_def Let_def m1_def mt a8 hs'_def)
    then show ?thesis using D [of m1 "used (pl_pages s)" "pl_pages s"] ok by auto
  next
    case True
    then have only: "used_blks (pl_hdrs s) m = {j}" using pool_give(3) [OF o(1) j(1)] by (simp add: m1_def)
    show ?thesis
    proof -
      obtain pg where Some: "pe_free E (pl_pages s) (m_memory m) (m_nr_pages m) = Some pg"
        using tb x(1) act unfolding takes_back_def m_def by blast
      let ?m' = "m1\<lparr>m_memory := 0, m_nr_blocks := 0, m_size := 0, m_rsize := 0\<rparr>"
      have "0 < unat (m_nr_pages m)" "m_memory m \<noteq> 0" "unat (m_memory m) + 4096 * unat (m_nr_pages m) < 2 ^ 32"
        using o(1) act unfolding pool_ok_def by (auto simp: word_unat_eq_iff intro!: gr0I)
      then have fr: "ok pg k" "used pg = used (pl_pages s) - pool_pages m" using free_run [OF ok _ _ o(2) _ Some] by blast+
      have "pool_free E s addr = Some (?out ?m' pg)"
        using True Some unfolding F by (simp add: drop_blk_def Let_def m1_def mt a8 hs'_def)
      then show ?thesis using D [of ?m' "used pg" pg] only fr by auto
    qed
  qed
qed

end

section \<open>The page allocators as the source of the pools\<close>

text \<open>The pages in use from the start of a region on.\<close>

definition kregion :: "pagemem \<Rightarrow> nat set" where
  "kregion s = {q \<in> used_pages s. unat (START_KMEM s div 4096) \<le> q}"

definition uregion :: "pagemem \<Rightarrow> nat set" where
  "uregion s = {q \<in> used_pages s. unat (START_UMEM s div 4096) \<le> q}"

lemma taken_addr:
  fixes p nr :: u32
  assumes "unat p + Suc (unat nr) + k \<le> 2 ^ 20" "0 < p" "st \<le> p"
  shows "unat (p * 4096) mod 4096 = 0" "unat (p * 4096) + 4096 * unat nr < 2 ^ 32" "pages_of (p * 4096) nr \<subseteq> {unat st..}"
proof -
  have p: "unat p < 2 ^ 20" using assms(1) by linarith
  show "unat (p * 4096) mod 4096 = 0" by (simp add: page_addr(1) [OF p])
  have "4096 * (unat p + Suc (unat nr)) \<le> 4096 * 2 ^ 20" using assms(1) by (intro mult_le_mono2) linarith
  then show "unat (p * 4096) + 4096 * unat nr < 2 ^ 32" unfolding page_addr(1) [OF p] by simp
  show "pages_of (p * 4096) nr \<subseteq> {unat st..}" unfolding pages_of_page [OF p assms(2)] using assms(3) by (auto simp: word_le_nat_alt)
qed

lemma kpage_alloc_addr:
  assumes ok: "kpages_ok s (Suc (unat nr) + k)" and al: "kpage_alloc s nr = Some (a, s')"
  shows "START_KMEM s' = START_KMEM s" "pages_of a nr \<subseteq> {unat (START_KMEM s div 4096)..}"
    "a \<noteq> 0 \<Longrightarrow> unat a mod 4096 = 0 \<and> unat a + 4096 * unat nr < 2 ^ 32"
proof -
  have st: "START_KMEM (k_start s) = START_KMEM s" by (simp add: k_start_def)
  have "START_KMEM s' = START_KMEM s \<and> pages_of a nr \<subseteq> {unat (START_KMEM s div 4096)..} \<and>
      (a \<noteq> 0 \<longrightarrow> unat a mod 4096 = 0 \<and> unat a + 4096 * unat nr < 2 ^ 32)"
    using ok
  proof (cases rule: kpage_alloc_cases)
    case exhausted
    then show ?thesis using al by (simp add: pages_of_def)
  next
    case nofit
    then show ?thesis using al st by (auto simp: pages_of_def)
  next
    case (fit p)
    have "START_KMEM s' = START_KMEM s" "a = p * 4096" using fit(1) al st by (auto simp: kpage_take_def)
    then show ?thesis using taken_addr [OF fit(4,5,2)] by simp
  qed
  then show "START_KMEM s' = START_KMEM s" "pages_of a nr \<subseteq> {unat (START_KMEM s div 4096)..}"
    "a \<noteq> 0 \<Longrightarrow> unat a mod 4096 = 0 \<and> unat a + 4096 * unat nr < 2 ^ 32" by blast+
qed

lemma page_alloc_addr:
  assumes ok: "upages_ok s (Suc (unat nr) + k)" and al: "page_alloc s nr = Some (a, s')"
  shows "START_UMEM s' = START_UMEM s" "pages_of a nr \<subseteq> {unat (START_UMEM s div 4096)..}"
    "a \<noteq> 0 \<Longrightarrow> unat a mod 4096 = 0 \<and> unat a + 4096 * unat nr < 2 ^ 32"
proof -
  have st: "START_UMEM (u_start s) = START_UMEM s" by (simp add: u_start_def)
  have "START_UMEM s' = START_UMEM s \<and> pages_of a nr \<subseteq> {unat (START_UMEM s div 4096)..} \<and>
      (a \<noteq> 0 \<longrightarrow> unat a mod 4096 = 0 \<and> unat a + 4096 * unat nr < 2 ^ 32)"
    using ok
  proof (cases rule: page_alloc_cases)
    case exhausted
    then show ?thesis using al by (simp add: pages_of_def)
  next
    case nofit
    then show ?thesis using al st by (auto simp: pages_of_def)
  next
    case (fit p)
    have "START_UMEM s' = START_UMEM s" "a = p * 4096" using fit(1) al st by (auto simp: page_take_def)
    then show ?thesis using taken_addr [OF fit(4,5,2)] by simp
  qed
  then show "START_UMEM s' = START_UMEM s" "pages_of a nr \<subseteq> {unat (START_UMEM s div 4096)..}"
    "a \<noteq> 0 \<Longrightarrow> unat a mod 4096 = 0 \<and> unat a + 4096 * unat nr < 2 ^ 32" by blast+
qed

text \<open>The first page of a run that is given back.\<close>

lemma run_head:
  assumes "a \<noteq> 0" "0 < unat n" "pages_of a n \<subseteq> U" "unat a + 4096 * unat n < 2 ^ 32"
  shows "unat (a div 4096) \<in> U" "unat (a div 4096) + unat n \<le> 2 ^ 32" "pages_of a n = {unat (a div 4096)..<unat (a div 4096) + unat n}"
proof -
  have d: "unat (a div 4096) = unat a div 4096" by (simp add: unat_div)
  show p: "pages_of a n = {unat (a div 4096)..<unat (a div 4096) + unat n}" using assms(1) by (simp add: pages_of_def d)
  then show "unat (a div 4096) \<in> U" using assms(2,3) by auto
  show "unat (a div 4096) + unat n \<le> 2 ^ 32" unfolding d using assms(4) div_le_dividend [of "unat a" 4096] by linarith
qed

lemma clear_bits_fields [simp]:
  "NR_KPAGES (clear_bits s p n) = NR_KPAGES s" "NR_PAGES (clear_bits s p n) = NR_PAGES s"
  "START_KMEM (clear_bits s p n) = START_KMEM s" "START_UMEM (clear_bits s p n) = START_UMEM s"
  by (subst clear_bits_only_RAM; simp)+

lemma kpage_free_run:
  assumes ok: "kpages_ok s k" and a: "a \<noteq> 0" "0 < unat n" "pages_of a n \<subseteq> kregion s" "unat a + 4096 * unat n < 2 ^ 32"
    and fr: "kpage_free s a n = Some s'"
  shows "kpages_ok s' k \<and> kregion s' = kregion s - pages_of a n"
proof -
  note h = run_head [OF a]
  have le: "a div 4096 \<le> NR_KPAGES s" and s': "s' = (clear_bits s (a div 4096) (unat n))\<lparr>KLAST_PAGE := a div 4096, KALLOC_PAGES := KALLOC_PAGES s - n\<rparr>"
    using fr by (auto simp: kpage_free_def Let_def not_less split: if_splits)
  have "unat (START_KMEM s div 4096) \<le> unat (a div 4096)" using h(1) by (simp add: kregion_def)
  then have "kpages_ok s' k" using ok le unfolding s' kpages_ok_def by (auto simp: word_le_nat_alt)
  moreover have "kregion s' = kregion s - pages_of a n"
    unfolding kregion_def s' h(3) by (auto simp: used_pages_clear_bits [OF h(2)])
  ultimately show ?thesis ..
qed

lemma page_free_run:
  assumes ok: "upages_ok s k" and a: "a \<noteq> 0" "0 < unat n" "pages_of a n \<subseteq> uregion s" "unat a + 4096 * unat n < 2 ^ 32"
    and fr: "page_free s a n = Some s'"
  shows "upages_ok s' k \<and> uregion s' = uregion s - pages_of a n"
proof -
  note h = run_head [OF a]
  have le: "a div 4096 \<le> NR_PAGES s" and s': "s' = (clear_bits s (a div 4096) (unat n))\<lparr>ULAST_PAGE := a div 4096, ALLOC_PAGES := ALLOC_PAGES s - n\<rparr>"
    using fr by (auto simp: page_free_def Let_def not_less split: if_splits)
  have "unat (START_UMEM s div 4096) \<le> unat (a div 4096)" using h(1) by (simp add: uregion_def)
  then have "upages_ok s' k" using ok le unfolding s' upages_ok_def by (auto simp: word_le_nat_alt)
  moreover have "uregion s' = uregion s - pages_of a n"
    unfolding uregion_def s' h(3) by (auto simp: used_pages_clear_bits [OF h(2)])
  ultimately show ?thesis ..
qed

lemma kpages_less: "kpages_ok s (j + k) \<Longrightarrow> kpages_ok s k"
  by (simp add: kpages_ok_def)

lemma upages_less: "upages_ok s (j + k) \<Longrightarrow> upages_ok s k"
  by (simp add: upages_ok_def)

interpretation kernel_pools: pool_source_free kmalloc_env kregion kpages_ok
proof unfold_locales
  fix s and n :: u32 and k assume ok: "kpages_ok s (Suc (unat n) + k)"
  obtain a s' where r: "kpage_alloc s n = Some (a, s')" "kpages_ok s' k" "pages_of a n \<inter> used_pages s = {}" "used_pages s' = used_pages s \<union> pages_of a n"
    using kpage_alloc_run [OF ok] by blast
  have "pages_of a n \<inter> kregion s = {} \<and> kregion s' = kregion s \<union> pages_of a n"
    using r(3,4) kpage_alloc_addr(1,2) [OF ok r(1)] by (auto simp: kregion_def)
  then show "\<exists>a s'. pe_block kmalloc_env s n = Some (a, s') \<and> kpages_ok s' k \<and> pages_of a n \<inter> kregion s = {} \<and> kregion s' = kregion s \<union> pages_of a n"
    using r(1,2) by (simp add: kmalloc_env_def)
qed (auto simp: kmalloc_env_def intro: kpages_less dest: kpage_alloc_addr(3) [unfolded add_Suc] kpage_free_run)

interpretation user_pools: pool_source_free malloc_env uregion upages_ok
proof unfold_locales
  fix s and n :: u32 and k assume ok: "upages_ok s (Suc (unat n) + k)"
  obtain a s' where r: "page_alloc s n = Some (a, s')" "upages_ok s' k" "pages_of a n \<inter> used_pages s = {}" "used_pages s' = used_pages s \<union> pages_of a n"
    using page_alloc_run [OF ok] by blast
  have "pages_of a n \<inter> uregion s = {} \<and> uregion s' = uregion s \<union> pages_of a n"
    using r(3,4) page_alloc_addr(1,2) [OF ok r(1)] by (auto simp: uregion_def)
  then show "\<exists>a s'. pe_block malloc_env s n = Some (a, s') \<and> upages_ok s' k \<and> pages_of a n \<inter> uregion s = {} \<and> uregion s' = uregion s \<union> pages_of a n"
    using r(1,2) by (simp add: malloc_env_def)
qed (auto simp: malloc_env_def intro: upages_less dest: page_alloc_addr(3) [unfolded add_Suc] page_free_run)

section \<open>Properties\<close>

text \<open>Before the first call there is no table.\<close>

definition no_pools :: "pagemem \<Rightarrow> pagemem pools" where
  "no_pools pg = \<lparr>pl_pages = pg, pl_hdrs = (\<lambda>_. \<lparr>h_slot = 0, is_free = 0\<rparr>), pl_root = [], pl_slot = 0, pl_ptr = None\<rparr>"

lemma no_pools_ok: "pools_ok nr U (no_pools pg)" "live nr (no_pools pg) = {}"
  by (simp_all add: pools_ok_def live_def idx_def no_pools_def)

text \<open>
  A request near \<open>2 ^ 32\<close> wraps to a block size of 0: \<open>kmalloc\<close> asks for no pages and then divides
  by the size.
\<close>

lemma real_size_wraps: "real_size 0xFFFFFFF8 = 0" "fill_pool E s p i 0xFFFFFFF8 slot = None"
  by (auto simp: real_size_def fill_pool_def Let_def split: bind_splits)

text \<open>Without pages \<open>kmalloc\<close> returns the address 8 of a header at address 0, not NULL.\<close>

lemma fill_pool_null:
  assumes "pe_block E (pl_pages s) (NR_BLOCKS (real_size sz)) = Some (0, pg)" "real_size sz \<noteq> 0"
  shows "\<exists>s'. fill_pool E s p i sz slot = Some (8, s')"
  using assms by (simp add: fill_pool_def Let_def)

section \<open>The witnesses' machine\<close>

lemma kpage_alloc_first:
  assumes "KALLOC_PAGES s * PAGE_SIZE < KBYTES_FREE s" "KLAST_PAGE (k_start s) < NR_KPAGES s"
    and "fits s (unat nr) (unat (KLAST_PAGE (k_start s)))" "unat (KLAST_PAGE (k_start s)) + unat nr < 2 ^ 32"
  shows "kpage_alloc s nr = Some (kpage_take (k_start s) (KLAST_PAGE (k_start s)) nr)"
proof -
  let ?s = "k_start s"
  have f: "in_use ?s = in_use s" "NR_KPAGES ?s = NR_KPAGES s" by (simp_all add: k_start_def)
  then have "run_busy ?s (KLAST_PAGE ?s) nr = None" "mem_test_bit ?s (KLAST_PAGE ?s) = 0"
    using assms(3,4) by (auto simp: run_busy_None fits_def)
  then have "run_scan ?s nr (NR_KPAGES ?s) (KLAST_PAGE ?s) = Some (Some (KLAST_PAGE ?s))"
    using assms(2) f by (subst run_scan.simps) simp
  then show ?thesis using assms(1) unfolding kpage_alloc_def k_start_def [symmetric] by (simp add: Let_def not_le [symmetric])
qed

text \<open>The first table is page 525, its first pool page 527.\<close>

definition demo_pages1 :: pagemem where
  "demo_pages1 = snd (kpage_take (k_start demo_pages) 525 1)"

definition demo_pages2 :: pagemem where
  "demo_pages2 = snd (kpage_take demo_pages1 527 1)"

lemma demo_pages1_fields:
  "KLAST_PAGE demo_pages1 = 527" "KALLOC_PAGES demo_pages1 = 1" "KBYTES_FREE demo_pages1 = 0xDF3000" "NR_KPAGES demo_pages1 = 4096"
  "START_KMEM demo_pages1 = 0x20D000" "used_pages demo_pages1 = {525}"
  "KLAST_PAGE demo_pages2 = 529" "KALLOC_PAGES demo_pages2 = 2" "NR_KPAGES demo_pages2 = 4096" "START_KMEM demo_pages2 = 0x20D000"
proof -
  have k: "KLAST_PAGE demo_pages = 0" by (simp add: demo_pages_def)
  have s: "set_bits s p (Suc 0) = mem_set_bit s p" for s p by simp
  have u: "used_pages (mem_set_bit s p) = insert (unat p) (used_pages s)" for s p
    using used_pages_set_bits [of p 1 s] unat_lt_word32 [of p] by (simp add: Suc_le_eq)
  show "KLAST_PAGE demo_pages1 = 527" "KALLOC_PAGES demo_pages1 = 1" "KBYTES_FREE demo_pages1 = 0xDF3000" "NR_KPAGES demo_pages1 = 4096"
    "START_KMEM demo_pages1 = 0x20D000" "used_pages demo_pages1 = {525}"
    by (simp_all add: demo_pages1_def kpage_take_def k_start_def k demo_pages_fields demo_pages_free u) (simp_all add: mem_set_bit_def demo_pages_def)
  then show "KLAST_PAGE demo_pages2 = 529" "KALLOC_PAGES demo_pages2 = 2" "NR_KPAGES demo_pages2 = 4096" "START_KMEM demo_pages2 = 0x20D000"
    by (simp_all add: demo_pages2_def kpage_take_def mem_set_bit_def)
qed

lemma demo_kpage_alloc:
  "kpage_alloc demo_pages 1 = Some (525 * 4096, demo_pages1)" "kpage_alloc demo_pages1 1 = Some (527 * 4096, demo_pages2)"
proof -
  have k: "KLAST_PAGE (k_start demo_pages) = 525" by (simp add: k_start_def demo_pages_def)
  then show "kpage_alloc demo_pages 1 = Some (525 * 4096, demo_pages1)"
    by (subst kpage_alloc_first) (simp_all add: demo_pages_fields demo_pages_free demo_pages1_def kpage_take_def)
  have k1: "k_start demo_pages1 = demo_pages1" by (simp add: k_start_def demo_pages1_fields)
  have "in_use demo_pages1 527 = (527 \<in> used_pages demo_pages1)" by (simp add: used_pages_def)
  then have "fits demo_pages1 1 527" by (simp add: fits_def demo_pages1_fields)
  then show "kpage_alloc demo_pages1 1 = Some (527 * 4096, demo_pages2)"
    using k1 by (subst kpage_alloc_first) (simp_all add: demo_pages1_fields demo_pages2_def kpage_take_def)
qed

text \<open>The pools after the first call, which makes a table and a pool of one block.\<close>

definition demo_pools :: "pagemem pools" where
  "demo_pools = \<lparr>pl_pages = demo_pages2,
     pl_hdrs = (\<lambda>_. \<lparr>h_slot = 0, is_free = 0\<rparr>)(0x20F000 := \<lparr>h_slot = 0, is_free = USED_MEM\<rparr>),
     pl_root = [\<lparr>t_nr_slots = 1, t_sizes = (replicate 16 zero_mem)[0 := \<lparr>m_size = 4000, m_rsize = 4008, m_nr_blocks = 1,
       m_nr_alloc = 1, m_nr_pages = 1, m_memory = 0x20F000\<rparr>]\<rparr>], pl_slot = 0, pl_ptr = Some (0, 0)\<rparr>"

lemma demo_sizes: "real_size 4000 = 4008" "NR_BLOCKS 4008 = 1" "table_pages 16 = 1"
  by (simp_all add: real_size_def NR_BLOCKS_def table_pages_def Let_def)

lemma demo_kmalloc: "kmalloc (no_pools demo_pages) 4000 = Some (0x20F008, demo_pools)"
  by (simp add: kmalloc_def pool_alloc_def try_last_def no_pools_def add_table_def kmalloc_env_def demo_sizes demo_kpage_alloc fill_pool_def
      Let_def set_pool_def demo_pools_def)

lemma demo_enough: "\<not> no_pages kmalloc_env demo_pages 1" "\<not> no_memory kmalloc_env demo_pages 1"
  by (simp_all add: no_pages_def no_memory_def kmalloc_env_def demo_kpage_alloc demo_sizes)

lemma demo_kpages_ok: "kpages_ok demo_pages (Suc (Suc (Suc (Suc 0))))"
  by (simp add: kpages_ok_def demo_pages_def)

lemma demo_pools_ok:
  "pools_ok 16 (kregion demo_pages2) demo_pools" "slots_ok 16 demo_pools" "\<exists>L. live 16 demo_pools = {(0x20F008, L)}"
proof -
  have n: "pe_sizes kmalloc_env = 16" "pl_pages (no_pools demo_pages) = demo_pages" by (simp_all add: kmalloc_env_def no_pools_def)
  have d: "pl_pages demo_pools = demo_pages2" "length (pl_root demo_pools) = 1" "pl_root (no_pools demo_pages) = []" "pl_ptr (no_pools demo_pages) = None"
    by (simp_all add: demo_pools_def no_pools_def)
  have "pools_ok 16 (kregion (pl_pages demo_pools)) demo_pools \<and> gave 16 (no_pools demo_pages) 4000 0x20F008 demo_pools \<and>
      numbered 16 (no_pools demo_pages) demo_pools"
    using kernel_pools.pool_alloc_ok [of "no_pools demo_pages" 4000 0, unfolded n demo_sizes] no_pools_ok demo_enough demo_kpages_ok demo_kmalloc
    by (simp add: kmalloc_def)
  then show "pools_ok 16 (kregion demo_pages2) demo_pools" "slots_ok 16 demo_pools" "\<exists>L. live 16 demo_pools = {(0x20F008, L)}"
    using d by (auto simp: gave_def no_pools_ok numbered_def)
qed

text \<open>
  C6: What \<open>kmalloc\<close> returns is a new block of at least the size asked for. When the pools are
  in order, the call returns, the pools are in order again, and the block it returns overlaps
  no block in use and no header of one; only when the page allocator has no pages left the
  result is the address 8 instead. While there is one table, the slot numbers \<open>kfree\<close> goes by
  are right.
\<close>

theorem kmalloc_fresh:
  assumes "pools_ok 16 (kregion (pl_pages s)) s" "unat sz \<le> 2 ^ 31" "\<not> no_pages kmalloc_env (pl_pages s) (table_pages 16)"
    and "kpages_ok (pl_pages s) (Suc (unat (table_pages 16)) + Suc (unat (NR_BLOCKS (real_size sz))))"
  shows "\<exists>a s'. kmalloc s sz = Some (a, s') \<and>
    (a = 8 \<and> no_memory kmalloc_env (pl_pages s) (NR_BLOCKS (real_size sz)) \<or>
     pools_ok 16 (kregion (pl_pages s')) s' \<and> numbered 16 s s' \<and>
     (\<exists>L \<ge> unat sz. live 16 s' = insert (unat a, L) (live 16 s) \<and> (\<forall>b \<in> live 16 s. body (unat a, L) \<inter> body b = {})))"
proof -
  have n: "pe_sizes kmalloc_env = 16" by (simp add: kmalloc_env_def)
  show ?thesis
    using kernel_pools.pool_alloc_ok [of s sz 0, unfolded n] assms unfolding gave_def kmalloc_def by auto
qed

theorem kmalloc_fresh_witness:
  "\<exists>s' L. kmalloc (no_pools demo_pages) 4000 = Some (0x20F008, s') \<and> pools_ok 16 (kregion (pl_pages s')) s' \<and> 4000 \<le> L \<and> live 16 s' = {(0x20F008, L)}"
proof -
  have pg: "pl_pages (no_pools demo_pages) = demo_pages" by (simp add: no_pools_def)
  show ?thesis
    using kmalloc_fresh [of "no_pools demo_pages" 4000, unfolded pg demo_sizes] no_pools_ok demo_enough demo_kpages_ok demo_kmalloc
    by auto
qed

text \<open>The same of \<open>balloc\<close> and \<open>malloc\<close>, which take pages of the user region.\<close>

lemma balloc_fresh:
  assumes "pools_ok 65536 (uregion (pl_pages s)) s" "unat sz \<le> 2 ^ 31" "\<not> no_pages malloc_env (pl_pages s) (table_pages 65536)"
    and "upages_ok (pl_pages s) (Suc (unat (table_pages 65536)) + Suc (unat (NR_BLOCKS (real_size sz))))"
  shows "\<exists>a s'. balloc s sz = Some (a, s') \<and>
    (a = 8 \<and> no_memory malloc_env (pl_pages s) (NR_BLOCKS (real_size sz)) \<or>
     pools_ok 65536 (uregion (pl_pages s')) s' \<and> numbered 65536 s s' \<and>
     (\<exists>L \<ge> unat sz. live 65536 s' = insert (unat a, L) (live 65536 s) \<and> (\<forall>b \<in> live 65536 s. body (unat a, L) \<inter> body b = {})))"
proof -
  have n: "pe_sizes malloc_env = 65536" by (simp add: malloc_env_def)
  show ?thesis
    using user_pools.pool_alloc_ok [of s sz 0, unfolded n] assms unfolding gave_def balloc_def by auto
qed

text \<open>
  C7: \<open>kfree\<close> gives back exactly the block it is called with: when there is one table and the
  slot numbers are right, the call returns, the pools are in order with right slot numbers
  again, and the blocks in use are the others, unchanged.
\<close>

theorem kfree_exact:
  assumes "pools_ok 16 (kregion (pl_pages s)) s" "slots_ok 16 s" "kpages_ok (pl_pages s) k"
    and "takes_back kmalloc_env s" "(unat addr, L) \<in> live 16 s"
  shows "\<exists>s'. kfree s addr = Some s' \<and> pools_ok 16 (kregion (pl_pages s')) s' \<and> slots_ok 16 s' \<and> kpages_ok (pl_pages s') k \<and>
    live 16 s' = live 16 s - {(unat addr, L)}"
proof -
  have n: "pe_sizes kmalloc_env = 16" by (simp add: kmalloc_env_def)
  show ?thesis
    using kernel_pools.pool_free_ok [of s k addr L, unfolded n] assms unfolding kfree_def by auto
qed

theorem kfree_exact_witness:
  "\<exists>s'. kfree demo_pools 0x20F008 = Some s' \<and> pools_ok 16 (kregion (pl_pages s')) s' \<and> live 16 s' = {}"
proof -
  obtain L where L: "live 16 demo_pools = {(0x20F008, L)}" using demo_pools_ok(3) by blast
  have pg: "pl_pages demo_pools = demo_pages2" by (simp add: demo_pools_def)
  have e: "pe_sizes kmalloc_env = 16" "pe_free kmalloc_env = kpage_free" by (simp_all add: kmalloc_env_def)
  have k: "kpages_ok demo_pages2 0" by (simp add: kpages_ok_def demo_pages1_fields)
  have "m_nr_blocks (pool demo_pools x) = 0 \<or> pool demo_pools x = pool_at demo_pools 0 0" if "x \<in> idx 16 demo_pools" for x
    using that by (cases x; cases "snd x = 0") (simp_all add: idx_def demo_pools_def pool_at_def nth_list_update zero_mem_def)
  moreover have "kpage_free demo_pages2 0x20F000 1 \<noteq> None" by (simp add: kpage_free_def Let_def demo_pages1_fields)
  then have "kpage_free (pl_pages demo_pools) (m_memory (pool_at demo_pools 0 0)) (m_nr_pages (pool_at demo_pools 0 0)) \<noteq> None"
    by (simp add: demo_pools_def pool_at_def)
  ultimately have "takes_back kmalloc_env demo_pools" unfolding takes_back_def e by metis
  then show ?thesis
    using kfree_exact [where s = demo_pools and k = 0 and addr = "0x20F008" and L = L] demo_pools_ok(1,2) pg k L by auto
qed

text \<open>
  \<open>kfree\<close> compares the number of the table with 16 times the count instead of with the count:
  a block whose table number is not a multiple of 16 is marked free, but no pool's count is
  lowered and no page is ever given back.
\<close>

lemma kfree_other_table:
  assumes "unat (h_slot (pl_hdrs s (addr - 8)) div 16) mod 16 \<noteq> 0"
  shows "kfree s addr = Some (set_hdr s (addr - 8) ((pl_hdrs s (addr - 8))\<lparr>is_free := FREE_MEM\<rparr>))"
proof -
  let ?nt = "h_slot (pl_hdrs s (addr - 8)) div 16"
  have m: "unat (16 * j) mod 16 = 0" for j :: u32
  proof -
    have "unat (16 * j) = 16 * unat j mod (16 * 2 ^ 28)" by (simp add: unat_word_ariths)
    then show ?thesis by (simp only: mult_mod_right [symmetric] mod_mult_self1_is_0)
  qed
  have "?nt \<noteq> 16 * j" for j using assms m [of j] by auto
  then have t: "free_tabs kmalloc_env ?nt ns j ts pg = Some (ts, pg)" for ns j ts pg
    by (induction ts arbitrary: j pg) (simp_all add: kmalloc_env_def)
  have n: "pe_sizes kmalloc_env = 16" by (simp add: kmalloc_env_def)
  show ?thesis unfolding kfree_def pool_free_def n Let_def by (simp add: t set_hdr_def)
qed

end
