(* ===== verification/Process_Queue.thy ===== *)
theory Process_Queue
  imports OX_Prelude
begin

text \<open>
  The process table: \<open>struct process\<close> (\<open>include/ox/process.h\<close>) and the priority queues of
  \<open>kernel/process_queue.c\<close>, circular doubly linked lists threaded through the process
  structures. A pointer is its address (\<open>u32\<close>, NULL is 0) and the structures are a
  function of the address: memory is mapped identically, so reading through NULL reads
  address 0. \<open>process\<close> has the fields the modelled code uses; \<open>PANIC\<close> does not return.

  The tables are functions of the priority. The build leaves
  \<open>__VERBOSE_ERROR_CHECKING__\<close> undefined, so the \<open>CHECK_\<close> macros are empty.
\<close>

section \<open>State\<close>

type_synonym ptr = u32

abbreviation (input) NULL :: ptr where "NULL \<equiv> 0"
abbreviation (input) Nr_PRIORITY :: nat where "Nr_PRIORITY \<equiv> 32"

datatype process_state = P_RUNNING | P_INTERRUPTIBLE | P_UNINTERUPTIBLE | P_ZOMBIE | P_STOPPED

record sigact =
  sa_handler :: u32
  sa_mask :: u32
  sa_flags :: u32

record process =
  p_state :: process_state
  p_counter :: u32
  p_priority :: int
  p_signal :: u32
  p_blocked :: u32
  p_tss_seg :: u16
  p_exit_code :: int
  p_pid :: int
  p_parent :: int
  p_pgrp :: int
  p_session :: int
  p_leader :: int
  p_uid :: u16
  p_euid :: u16
  p_gid :: u16
  p_egid :: u16
  p_sgid :: u16
  p_alarm :: u32
  p_utime :: u32
  p_stime :: u32
  p_cutime :: u32
  p_cstime :: u32
  p_start_time :: u32
  p_first_exec :: int
  p_sigaction :: "sigact list"
  p_tss_eip :: u32
  p_next :: ptr
  p_prev :: ptr

record kern =
  procs :: "ptr \<Rightarrow> process"
  process_tab :: "int \<Rightarrow> ptr"
  process_size_tab :: "int \<Rightarrow> u32"
  current_process :: ptr
  previous_process :: ptr
  INIT_TASK :: ptr
  first_time :: bool

abbreviation nxt :: "kern \<Rightarrow> ptr \<Rightarrow> ptr" where "nxt k p \<equiv> p_next (procs k p)"
abbreviation prv :: "kern \<Rightarrow> ptr \<Rightarrow> ptr" where "prv k p \<equiv> p_prev (procs k p)"

text \<open>Assignments through a pointer and to the tables.\<close>

definition upd_proc :: "ptr \<Rightarrow> (process \<Rightarrow> process) \<Rightarrow> kern \<Rightarrow> kern" where
  "upd_proc p f k = k\<lparr>procs := (procs k)(p := f (procs k p))\<rparr>"

definition set_next :: "ptr \<Rightarrow> ptr \<Rightarrow> kern \<Rightarrow> kern" where
  "set_next p v = upd_proc p (\<lambda>x. x\<lparr>p_next := v\<rparr>)"

definition set_prev :: "ptr \<Rightarrow> ptr \<Rightarrow> kern \<Rightarrow> kern" where
  "set_prev p v = upd_proc p (\<lambda>x. x\<lparr>p_prev := v\<rparr>)"

definition set_tab :: "int \<Rightarrow> ptr \<Rightarrow> kern \<Rightarrow> kern" where
  "set_tab pr v k = k\<lparr>process_tab := (process_tab k)(pr := v)\<rparr>"

definition add_size :: "int \<Rightarrow> u32 \<Rightarrow> kern \<Rightarrow> kern" where
  "add_size pr d k = k\<lparr>process_size_tab := (process_size_tab k)(pr := process_size_tab k pr + d)\<rparr>"

section \<open>Operations\<close>

definition queue_read_front :: "kern \<Rightarrow> ptr \<Rightarrow> (ptr \<times> kern) option" where
  "queue_read_front k proc_q =
     (let priority = p_priority (procs k proc_q); sz = process_size_tab k priority in
      if nxt k proc_q = proc_q \<and> prv k proc_q = proc_q \<and> sz = 1
      then Some (proc_q,
        add_size priority (- 1) (set_next proc_q NULL (set_prev proc_q NULL (set_tab priority NULL k))))
      else if nxt k proc_q = proc_q \<and> prv k proc_q = proc_q \<and> sz \<noteq> 1 then None
      else
        let h = process_tab k priority;
            k = set_next (prv k h) (nxt k h) k;
            k = set_prev (nxt k h) (prv k h) k;
            k = set_tab priority (nxt k h) k;
            k = set_next proc_q NULL (set_prev proc_q NULL k)
        in Some (proc_q, add_size priority (- 1) k))"

definition queue_insert :: "kern \<Rightarrow> ptr \<Rightarrow> ptr \<Rightarrow> kern" where
  "queue_insert k proc_q proc =
     (let priority = p_priority (procs k proc_q);
          k = upd_proc proc (\<lambda>x. x\<lparr>p_priority := priority\<rparr>) k;
          h = process_tab k priority;
          k = set_next proc h k;
          k = set_prev proc (prv k h) k;
          k = set_next (prv k h) proc k;
          k = set_prev h proc k
      in add_size priority 1 k)"

definition queue_insert_p :: "kern \<Rightarrow> ptr \<Rightarrow> int \<Rightarrow> kern option" where
  "queue_insert_p k proc_q priority =
     (let k = upd_proc proc_q (\<lambda>x. x\<lparr>p_priority := priority\<rparr>) k in
      if process_tab k priority = NULL \<and> process_size_tab k priority = 0
      then Some (add_size priority 1 (set_tab priority proc_q (set_next proc_q proc_q (set_prev proc_q proc_q k))))
      else if process_tab k priority = NULL \<and> process_size_tab k priority \<noteq> 0 then None
      else
        let h = process_tab k priority;
            k = set_next proc_q h k;
            k = set_prev proc_q (prv k h) k;
            k = set_next (prv k h) proc_q k;
            k = set_prev h proc_q k
        in Some (add_size priority 1 k))"

definition queue_remove :: "kern \<Rightarrow> ptr \<Rightarrow> kern option" where
  "queue_remove k proc_q =
     (let priority = p_priority (procs k proc_q); sz = process_size_tab k priority in
      if sz = 0 \<and> process_tab k priority = NULL then Some k
      else if nxt k proc_q = proc_q \<and> prv k proc_q = proc_q \<and> sz = 1
      then Some (add_size priority (- 1) (set_next proc_q NULL (set_prev proc_q NULL (set_tab priority NULL k))))
      else if nxt k proc_q = proc_q \<and> prv k proc_q = proc_q \<and> sz \<noteq> 1 then None
      else
        let tmp = process_tab k priority;
            k = (if tmp = proc_q then set_tab priority (nxt k proc_q) k else k);
            k = (if prv k tmp = proc_q then set_prev (process_tab k priority) (prv k (prv k proc_q)) k else k);
            k = set_next (prv k proc_q) (nxt k proc_q) k;
            k = set_prev (nxt k proc_q) (prv k proc_q) k;
            k = set_next proc_q NULL (set_prev proc_q NULL k)
        in Some (add_size priority (- 1) k))"

definition queue_size :: "kern \<Rightarrow> ptr \<Rightarrow> u32" where
  "queue_size k proc_q = process_size_tab k (p_priority (procs k proc_q))"

definition queue_increment_size :: "kern \<Rightarrow> int \<Rightarrow> kern" where
  "queue_increment_size k priority = add_size priority 1 k"

definition queue_decrement_size :: "kern \<Rightarrow> int \<Rightarrow> kern" where
  "queue_decrement_size k priority = add_size priority (- 1) k"

section \<open>The contract of a queue\<close>

text \<open>
  A first-in first-out queue over a list: \<open>rep s xs\<close> says the state holds the elements
  \<open>xs\<close>, front first; \<open>room s\<close> bounds what may still be inserted.
\<close>

fun enq_all :: "('s \<Rightarrow> 'a \<Rightarrow> 's option) \<Rightarrow> 's \<Rightarrow> 'a list \<Rightarrow> 's option" where
  "enq_all enq s [] = Some s"
| "enq_all enq s (x # xs) = do { s1 \<leftarrow> enq s x; enq_all enq s1 xs }"

fun deq_n :: "('s \<Rightarrow> ('a \<times> 's) option) \<Rightarrow> 's \<Rightarrow> nat \<Rightarrow> ('a list \<times> 's) option" where
  "deq_n deq s 0 = Some ([], s)"
| "deq_n deq s (Suc n) = do { (x, s1) \<leftarrow> deq s; (xs, s2) \<leftarrow> deq_n deq s1 n; Some (x # xs, s2) }"

locale fifo =
  fixes rep :: "'s \<Rightarrow> 'a list \<Rightarrow> bool"
    and enq :: "'s \<Rightarrow> 'a \<Rightarrow> 's option"
    and deq :: "'s \<Rightarrow> ('a \<times> 's) option"
    and fresh :: "'a \<Rightarrow> 'a list \<Rightarrow> bool"
    and bound :: nat
  assumes enq_rep: "rep s xs \<Longrightarrow> fresh x xs \<Longrightarrow> Suc (length xs) < bound \<Longrightarrow> \<exists>s'. enq s x = Some s' \<and> rep s' (xs @ [x])"
    and deq_rep: "rep s (x # xs) \<Longrightarrow> \<exists>s'. deq s = Some (x, s') \<and> rep s' xs"
begin

lemma enq_all_rep:
  assumes "rep s xs" "length xs + length ys < bound"
    and "\<And>as y bs. ys = as @ y # bs \<Longrightarrow> fresh y (xs @ as)"
  shows "\<exists>s'. enq_all enq s ys = Some s' \<and> rep s' (xs @ ys)"
  using assms
proof (induction ys arbitrary: s xs)
  case (Cons y ys)
  have "fresh y xs" using Cons.prems(3) [of "[]" y ys] by simp
  from enq_rep [OF Cons.prems(1) this] Cons.prems(2) obtain s1 where
    s1: "enq s y = Some s1" "rep s1 (xs @ [y])" by auto
  have "fresh z ((xs @ [y]) @ as)" if "ys = as @ z # bs" for as z bs
    using Cons.prems(3) [of "y # as" z bs] that by simp
  with Cons.IH [OF s1(2)] Cons.prems(2) s1(1) show ?case by simp
qed simp

lemma deq_n_rep:
  "rep s (xs @ ys) \<Longrightarrow> \<exists>s'. deq_n deq s (length xs) = Some (xs, s') \<and> rep s' ys"
proof (induction xs arbitrary: s)
  case (Cons x xs)
  from deq_rep [of s x "xs @ ys"] Cons.prems obtain s1 where "deq s = Some (x, s1)" "rep s1 (xs @ ys)" by auto
  with Cons.IH [of s1] show ?case by auto
qed simp

text \<open>Elements come out in the order they went in.\<close>

lemma fifo_order:
  assumes "rep s []" "length ys < bound" "\<And>as y bs. ys = as @ y # bs \<Longrightarrow> fresh y as"
  shows "\<exists>s1 s2. enq_all enq s ys = Some s1 \<and> deq_n deq s1 (length ys) = Some (ys, s2) \<and> rep s2 []"
  using enq_all_rep [OF assms(1), of ys] deq_n_rep [of _ ys "[]"] assms(2,3) by fastforce

end

section \<open>Rings of processes\<close>

lemma upd_simps [simp]:
  "nxt (set_next p v k) q = (if q = p then v else nxt k q)" "prv (set_next p v k) q = prv k q"
  "prv (set_prev p v k) q = (if q = p then v else prv k q)" "nxt (set_prev p v k) q = nxt k q"
  "procs (set_tab pr v k) = procs k" "procs (add_size pr d k) = procs k"
  "process_tab (set_next p v k) = process_tab k" "process_tab (set_prev p v k) = process_tab k"
  "process_tab (add_size pr d k) = process_tab k" "process_tab (set_tab pr v k) = (process_tab k)(pr := v)"
  "process_size_tab (set_next p v k) = process_size_tab k" "process_size_tab (set_prev p v k) = process_size_tab k"
  "process_size_tab (set_tab pr v k) = process_size_tab k"
  "process_size_tab (add_size pr d k) = (process_size_tab k)(pr := process_size_tab k pr + d)"
  "p_priority (procs (set_next p v k) q) = p_priority (procs k q)"
  "p_priority (procs (set_prev p v k) q) = p_priority (procs k q)"
  by (simp_all add: set_next_def set_prev_def set_tab_def add_size_def upd_proc_def)

lemma upd_priority_simps [simp]:
  "nxt (upd_proc p (\<lambda>x. x\<lparr>p_priority := pr\<rparr>) k) q = nxt k q"
  "prv (upd_proc p (\<lambda>x. x\<lparr>p_priority := pr\<rparr>) k) q = prv k q"
  "process_tab (upd_proc p f k) = process_tab k" "process_size_tab (upd_proc p f k) = process_size_tab k"
  "p_priority (procs (upd_proc p (\<lambda>x. x\<lparr>p_priority := pr\<rparr>) k) q) = (if q = p then pr else p_priority (procs k q))"
  by (simp_all add: upd_proc_def)

fun chain :: "kern \<Rightarrow> ptr list \<Rightarrow> bool" where
  "chain k (x # y # xs) = (nxt k x = y \<and> prv k y = x \<and> chain k (y # xs))"
| "chain k xs = True"

lemma chain_split: "chain k (xs @ y # ys) \<longleftrightarrow> chain k (xs @ [y]) \<and> chain k (y # ys)"
proof (induction xs)
  case (Cons x xs)
  then show ?case by (cases xs) auto
qed simp

lemma chain_cong:
  assumes "\<And>p. p \<in> set (butlast xs) \<Longrightarrow> nxt k' p = nxt k p" "\<And>p. p \<in> set (tl xs) \<Longrightarrow> prv k' p = prv k p"
  shows "chain k' xs = chain k xs"
  using assms by (induction k xs rule: chain.induct) (auto split: if_splits)

definition ring :: "kern \<Rightarrow> ptr list \<Rightarrow> bool" where
  "ring k xs \<longleftrightarrow> xs = [] \<or> chain k (xs @ [hd xs])"

lemma ring_rotate: "ring k (xs @ ys) \<longleftrightarrow> ring k (ys @ xs)"
proof (cases "xs = [] \<or> ys = []")
  case False
  then obtain x xs' y ys' where "xs = x # xs'" "ys = y # ys'" by (auto simp: neq_Nil_conv)
  then show ?thesis
    using chain_split [of k "x # xs'" y "ys' @ [x]"] chain_split [of k "y # ys'" x "xs' @ [y]"]
    by (simp add: ring_def) blast
qed auto

lemma ring_iff:
  assumes "xs \<noteq> []"
  shows "ring k xs \<longleftrightarrow> chain k xs \<and> nxt k (last xs) = hd xs \<and> prv k (hd xs) = last xs"
proof -
  have "xs @ [hd xs] = butlast xs @ last xs # [hd xs]" using assms by simp
  then have "chain k (xs @ [hd xs]) \<longleftrightarrow> chain k (butlast xs @ [last xs]) \<and> chain k [last xs, hd xs]"
    by (metis chain_split)
  then show ?thesis using assms by (simp add: ring_def)
qed

lemma chain_snoc: "xs \<noteq> [] \<Longrightarrow> chain k (xs @ [p]) \<longleftrightarrow> chain k xs \<and> nxt k (last xs) = p \<and> prv k p = last xs"
  using chain_split [of k "butlast xs" "last xs" "[p]"] append_butlast_last_id [of xs]
  by (metis append_assoc append_Cons append_Nil chain.simps(1) chain.simps(3))

lemma distinct_ends: "distinct xs \<Longrightarrow> p \<in> set (butlast xs) \<Longrightarrow> p \<noteq> last xs"
  by (induction xs) (auto split: if_splits)

lemma distinct_hd: "distinct xs \<Longrightarrow> p \<in> set (tl xs) \<Longrightarrow> p \<noteq> hd xs"
  by (cases xs) auto

lemma ring_append:
  assumes r: "ring k xs" and xs: "xs \<noteq> []" "distinct xs" "p \<notin> set xs"
    and n: "\<And>q. nxt k' q = (if q = last xs then p else if q = p then hd xs else nxt k q)"
    and v: "\<And>q. prv k' q = (if q = hd xs then p else if q = p then last xs else prv k q)"
  shows "ring k' (xs @ [p])"
proof -
  have "p \<noteq> last xs" "p \<noteq> hd xs" using xs by auto
  moreover have "chain k' xs = chain k xs"
    using xs n v by (intro chain_cong) (auto dest: distinct_ends distinct_hd in_set_butlastD list.set_sel(2))
  ultimately show ?thesis
    using r xs(1) n v by (simp add: ring_iff chain_snoc)
qed

lemma ring_unlink:
  assumes r: "ring k (p # ys)" and ys: "ys \<noteq> []" "distinct (p # ys)"
    and n: "\<And>q. q \<noteq> p \<Longrightarrow> nxt k' q = (if q = last ys then hd ys else nxt k q)"
    and v: "\<And>q. q \<noteq> p \<Longrightarrow> prv k' q = (if q = hd ys then last ys else prv k q)"
  shows "ring k' ys"
proof -
  have p: "p \<noteq> last ys" "p \<noteq> hd ys" using ys by auto
  have "chain k' ys = chain k ys"
  proof (intro chain_cong)
    fix q assume "q \<in> set (butlast ys)"
    then have "q \<noteq> p" "q \<noteq> last ys" using ys distinct_ends [of ys q] by (auto dest: in_set_butlastD)
    then show "nxt k' q = nxt k q" by (simp add: n)
  next
    fix q assume "q \<in> set (tl ys)"
    then have "q \<noteq> p" "q \<noteq> hd ys" using ys distinct_hd [of ys q] by (auto dest: list.set_sel(2))
    then show "prv k' q = prv k q" by (simp add: v)
  qed
  moreover have "chain k ys" using r ys(1) ring_iff [of "p # ys" k] by (cases ys) auto
  ultimately show ?thesis
    using ys(1) n [of "last ys"] v [of "hd ys"] p by (simp add: ring_iff)
qed

section \<open>The table of queues refines a table of lists\<close>

definition queue_at :: "kern \<Rightarrow> int \<Rightarrow> ptr list \<Rightarrow> bool" where
  "queue_at k pr xs \<longleftrightarrow> distinct xs \<and> NULL \<notin> set xs \<and> length xs < 2 ^ 32 \<and>
     process_size_tab k pr = of_nat (length xs) \<and>
     process_tab k pr = (if xs = [] then NULL else hd xs) \<and> ring k xs \<and>
     (\<forall>p \<in> set xs. p_priority (procs k p) = pr)"

definition valid_pr :: "int \<Rightarrow> bool" where
  "valid_pr pr \<longleftrightarrow> 0 \<le> pr \<and> pr < int Nr_PRIORITY"

text \<open>Queue \<open>pr\<close> of the table holds the processes \<open>Q pr\<close>, front first, and no process is in two queues.\<close>

definition tab_ok :: "kern \<Rightarrow> (int \<Rightarrow> ptr list) \<Rightarrow> bool" where
  "tab_ok k Q \<longleftrightarrow> (\<forall>pr. valid_pr pr \<longrightarrow> queue_at k pr (Q pr)) \<and>
     (\<forall>pr pr'. valid_pr pr \<longrightarrow> valid_pr pr' \<longrightarrow> pr \<noteq> pr' \<longrightarrow> set (Q pr) \<inter> set (Q pr') = {})"

lemma procs_other [simp]:
  "q \<noteq> p \<Longrightarrow> procs (set_next p v k) q = procs k q" "q \<noteq> p \<Longrightarrow> procs (set_prev p v k) q = procs k q"
  "q \<noteq> p \<Longrightarrow> procs (upd_proc p f k) q = procs k q"
  by (simp_all add: set_next_def set_prev_def upd_proc_def)

lemma not_in_ends: "q \<notin> set xs \<Longrightarrow> xs \<noteq> [] \<Longrightarrow> q \<noteq> hd xs \<and> q \<noteq> last xs"
  by auto

lemma ring_cong:
  assumes "\<And>p. p \<in> set xs \<Longrightarrow> nxt k' p = nxt k p \<and> prv k' p = prv k p"
  shows "ring k' xs = ring k xs"
proof (cases "xs = []")
  case False
  have "chain k' xs = chain k xs"
  proof (intro chain_cong)
    show "nxt k' p = nxt k p" if "p \<in> set (butlast xs)" for p using assms in_set_butlastD [OF that] by simp
    show "prv k' p = prv k p" if "p \<in> set (tl xs)" for p using assms list.set_sel(2) [OF False that] by simp
  qed
  with False assms show ?thesis by (simp add: ring_iff)
qed (simp add: ring_def)

lemma ring_Cons:
  assumes "ring k (p # ys)" "ys \<noteq> []"
  shows "nxt k p = hd ys" "prv k (hd ys) = p" "nxt k (last ys) = p" "prv k p = last ys"
  using assms ring_iff [of "p # ys" k] by (cases ys; simp)+

text \<open>Changing one queue, and processes of no other queue, leaves the other queues alone.\<close>

lemma tab_ok_update:
  assumes ok: "tab_ok k Q" and pr: "valid_pr pr" and q: "queue_at k' pr ys"
    and ys: "set ys \<subseteq> set (Q pr) \<union> new" "\<And>pr'. valid_pr pr' \<Longrightarrow> new \<inter> set (Q pr') = {}"
    and same: "\<And>p. p \<notin> set (Q pr) \<union> new \<Longrightarrow> procs k' p = procs k p"
      "\<And>pr'. pr' \<noteq> pr \<Longrightarrow> process_tab k' pr' = process_tab k pr' \<and> process_size_tab k' pr' = process_size_tab k pr'"
  shows "tab_ok k' (Q(pr := ys))"
proof -
  have "queue_at k' pr' (Q pr')" if "valid_pr pr'" "pr' \<noteq> pr" for pr'
  proof -
    have disj: "set (Q pr') \<inter> set (Q pr) = {}" "new \<inter> set (Q pr') = {}"
      using ok that pr ys(2) by (auto simp: tab_ok_def)
    then have "procs k' p = procs k p" if "p \<in> set (Q pr')" for p using that by (intro same(1)) auto
    moreover from this have "ring k' (Q pr') = ring k (Q pr')" by (intro ring_cong) simp
    moreover have "queue_at k pr' (Q pr')" using ok that by (simp add: tab_ok_def)
    ultimately show ?thesis using same(2) [OF that(2)] by (simp add: queue_at_def)
  qed
  moreover have "set ys \<inter> set (Q pr') = {}" if "valid_pr pr'" "pr' \<noteq> pr" for pr'
  proof -
    have "set (Q pr) \<inter> set (Q pr') = {}" using ok that pr by (auto simp: tab_ok_def)
    with ys(1) ys(2) [OF that(1)] show ?thesis by blast
  qed
  ultimately show ?thesis using ok q by (auto simp: tab_ok_def)
qed

lemma size_minus_one: "(of_nat (Suc n) :: u32) + - 1 = of_nat n"
  by simp

lemma queue_insert_p_ok:
  assumes ok: "tab_ok k Q" and pr: "valid_pr pr" and p: "p \<noteq> NULL" "\<And>pr'. valid_pr pr' \<Longrightarrow> p \<notin> set (Q pr')"
    and len: "Suc (length (Q pr)) < 2 ^ 32"
  shows "\<exists>k'. queue_insert_p k p pr = Some k' \<and> tab_ok k' (Q(pr := Q pr @ [p]))"
proof -
  have q: "queue_at k pr (Q pr)" using ok pr by (simp add: tab_ok_def)
  let ?k0 = "upd_proc p (\<lambda>x. x\<lparr>p_priority := pr\<rparr>) k"
  show ?thesis
  proof (cases "Q pr = []")
    case True
    let ?k' = "add_size pr 1 (set_tab pr p (set_next p p (set_prev p p ?k0)))"
    have run: "queue_insert_p k p pr = Some ?k'"
      using q True by (simp add: queue_insert_p_def queue_at_def)
    have "queue_at ?k' pr [p]"
      using q True p(1) by (simp add: queue_at_def ring_def)
    moreover have "procs ?k' x = procs k x" if "x \<noteq> p" for x
      using that by simp
    ultimately have "tab_ok ?k' (Q(pr := [p]))"
      using True p(2) by (intro tab_ok_update [OF ok pr, where new = "{p}"]) simp_all
    with run True show ?thesis by simp
  next
    case False
    let ?h = "hd (Q pr)" and ?l = "last (Q pr)"
    have tab: "process_tab k pr = ?h" "?h \<noteq> NULL" and ring: "ring k (Q pr)" "distinct (Q pr)"
      using q False by (auto simp: queue_at_def dest: hd_in_set)
    have ends: "prv k ?h = ?l" "p \<notin> set (Q pr)" "p \<noteq> ?h" "p \<noteq> ?l"
      using ring False p(2) [OF pr] by (auto simp: ring_iff)
    let ?k' = "add_size pr 1 (set_prev ?h p (set_next ?l p (set_prev p ?l (set_next p ?h ?k0))))"
    have run: "queue_insert_p k p pr = Some ?k'"
      using tab ends by (simp add: queue_insert_p_def Let_def)
    have "ring ?k' (Q pr @ [p])"
      using ring_append [OF ring(1) False ring(2) ends(2)] ends by simp
    then have "queue_at ?k' pr (Q pr @ [p])"
      using q False p(1) ends(2) len by (simp add: queue_at_def)
    moreover have "procs ?k' x = procs k x" if "x \<notin> set (Q pr) \<union> {p}" for x
      using that not_in_ends [of x "Q pr"] False by simp
    ultimately have "tab_ok ?k' (Q(pr := Q pr @ [p]))"
      using p(2) by (intro tab_ok_update [OF ok pr, where new = "{p}"]) simp_all
    with run show ?thesis by simp
  qed
qed

text \<open>Taking a process out: what \<open>queue_read_front\<close> and \<open>queue_remove\<close> have in common.\<close>

lemma unlink_ok:
  assumes ok: "tab_ok k Q" and pr: "valid_pr pr" and Q: "Q pr = as @ p # bs"
    and n: "\<And>q. q \<noteq> p \<Longrightarrow> nxt k' q = (if bs @ as \<noteq> [] \<and> q = last (bs @ as) then hd (bs @ as) else nxt k q)"
    and v: "\<And>q. q \<noteq> p \<Longrightarrow> prv k' q = (if bs @ as \<noteq> [] \<and> q = hd (bs @ as) then last (bs @ as) else prv k q)"
    and pri: "\<And>q. p_priority (procs k' q) = p_priority (procs k q)"
    and same: "\<And>q. q \<notin> set (Q pr) \<Longrightarrow> procs k' q = procs k q"
    and tab: "process_tab k' = (process_tab k)(pr := if as @ bs = [] then NULL else hd (as @ bs))"
    and sz: "process_size_tab k' = (process_size_tab k)(pr := process_size_tab k pr - 1)"
  shows "tab_ok k' (Q(pr := as @ bs))"
proof -
  have q: "queue_at k pr (as @ p # bs)" using ok pr Q by (auto simp: tab_ok_def)
  have r: "ring k (p # bs @ as)" using q ring_rotate [of k as "p # bs"] by (simp add: queue_at_def)
  have "ring k' (bs @ as)"
  proof (cases "bs @ as = []")
    case False
    with r q n v show ?thesis by (intro ring_unlink [OF r]) (auto simp: queue_at_def)
  qed (simp add: ring_def)
  then have "ring k' (as @ bs)" by (simp add: ring_rotate)
  then have "queue_at k' pr (as @ bs)"
    using q pri tab sz by (auto simp: queue_at_def)
  then show ?thesis
    using Q same tab sz by (intro tab_ok_update [OF ok pr, where new = "{}"]) auto
qed

lemma queue_read_front_ok:
  assumes ok: "tab_ok k Q" and pr: "valid_pr pr" and Q: "Q pr = x # xs"
  shows "\<exists>k'. queue_read_front k x = Some (x, k') \<and> tab_ok k' (Q(pr := xs)) \<and> nxt k' x = NULL \<and> prv k' x = NULL"
proof -
  have q: "queue_at k pr (x # xs)" using ok pr Q by (auto simp: tab_ok_def)
  then have px: "p_priority (procs k x) = pr" "process_tab k pr = x" "process_size_tab k pr = of_nat (Suc (length xs))"
    and ring: "ring k (x # xs)" "distinct (x # xs)" and len: "Suc (length xs) < 2 ^ 32"
    by (auto simp: queue_at_def)
  show ?thesis
  proof (cases "xs = []")
    case True
    let ?k' = "add_size pr (- 1) (set_next x NULL (set_prev x NULL (set_tab pr NULL k)))"
    have "queue_read_front k x = Some (x, ?k')"
      using px True ring by (simp add: queue_read_front_def ring_def)
    moreover have "tab_ok ?k' (Q(pr := [] @ xs))"
      using Q True by (intro unlink_ok [OF ok pr, of "[]" x])
        (auto simp: set_next_def set_prev_def upd_proc_def set_tab_def add_size_def)
    ultimately show ?thesis by auto
  next
    case False
    have nx: "nxt k x = hd xs" "prv k x = last xs" "hd xs \<noteq> x" "last xs \<noteq> x"
      using ring(2) False ring_Cons [OF ring(1) False] by (auto simp: neq_Nil_conv)
    let ?k' = "add_size pr (- 1) (set_next x NULL (set_prev x NULL (set_tab pr (hd xs)
      (set_prev (hd xs) (last xs) (set_next (last xs) (hd xs) k)))))"
    have "queue_read_front k x = Some (x, ?k')"
      using px nx by (simp add: queue_read_front_def Let_def)
    moreover have "procs ?k' q = procs k q" if "q \<notin> set (x # xs)" for q
      using that not_in_ends [of q xs] False by simp
    then have "tab_ok ?k' (Q(pr := [] @ xs))"
      using Q False by (intro unlink_ok [OF ok pr, of "[]" x]) simp_all
    ultimately show ?thesis by simp
  qed
qed

lemma queue_remove_ok:
  assumes ok: "tab_ok k Q" and pr: "valid_pr pr" and Q: "Q pr = as @ p # bs"
  shows "\<exists>k'. queue_remove k p = Some k' \<and> tab_ok k' (Q(pr := as @ bs)) \<and> nxt k' p = NULL \<and> prv k' p = NULL"
proof -
  have q: "queue_at k pr (as @ p # bs)" using ok pr Q by (auto simp: tab_ok_def)
  then have px: "p_priority (procs k p) = pr" "process_size_tab k pr = of_nat (Suc (length (bs @ as)))"
      "process_tab k pr = hd (as @ [p])" "NULL \<notin> set (as @ p # bs)"
    and len: "Suc (length (bs @ as)) < 2 ^ 32"
    by (auto simp: queue_at_def hd_append add.commute)
  have ring: "ring k (p # bs @ as)" "distinct (p # bs @ as)"
    using q ring_rotate [of k as "p # bs"] by (auto simp: queue_at_def)
  have "hd (as @ [p]) \<noteq> NULL" using px(4) by (cases as) auto
  note px = px this
  show ?thesis
  proof (cases "bs @ as = []")
    case True
    let ?k' = "add_size pr (- 1) (set_next p NULL (set_prev p NULL (set_tab pr NULL k)))"
    have "queue_remove k p = Some ?k'"
      using px True ring by (simp add: queue_remove_def ring_def)
    moreover have "tab_ok ?k' (Q(pr := as @ bs))"
      using Q True by (intro unlink_ok [OF ok pr Q])
        (auto simp: set_next_def set_prev_def upd_proc_def set_tab_def add_size_def)
    ultimately show ?thesis by auto
  next
    case False
    let ?a = "last (bs @ as)" and ?b = "hd (bs @ as)" and ?h = "hd (as @ [p])"
    have nx: "nxt k p = ?b" "prv k p = ?a" "?b \<noteq> p" "?a \<noteq> p"
    proof -
      show "nxt k p = ?b" "prv k p = ?a" using ring_Cons [OF ring(1) False] by simp_all
      show "?b \<noteq> p" "?a \<noteq> p" using hd_in_set [OF False] last_in_set [OF False] ring(2) by auto
    qed
    define k1 where "k1 = (if as = [] then set_tab pr ?b k else k)"
    define k2 where "k2 = (if prv k ?h = p then set_prev (process_tab k1 pr) (prv k ?a) k1 else k1)"
    let ?k' = "add_size pr (- 1) (set_next p NULL (set_prev p NULL (set_prev ?b ?a (set_next ?a ?b k2))))"
    have head: "?h = p \<longleftrightarrow> as = []" using ring(2) by (cases as) auto
    have k1: "\<And>q. nxt k1 q = nxt k q" "\<And>q. prv k1 q = prv k q" "process_tab k1 pr = (if as = [] then ?b else ?h)"
      using px(3) by (auto simp: k1_def fun_eq_iff)
    have tail: "process_tab k1 pr = ?b" if "prv k ?h = p"
    proof (cases "as = []")
      case as: False
      then have "ring k (as @ p # bs)" using q by (simp add: queue_at_def)
      then have "last (as @ p # bs) = p" using that as by (simp add: ring_iff hd_append)
      then have "bs = []" using ring(2) last_in_set [of bs] by (cases "bs = []") auto
      with as k1 show ?thesis by (simp add: hd_append)
    qed (use k1 in simp)
    have k2: "\<And>q. nxt k2 q = nxt k q" "\<And>q. q \<noteq> ?b \<Longrightarrow> prv k2 q = prv k q"
      using k1 tail by (auto simp: k2_def fun_eq_iff)
    have e1: "(if ?h = p then set_tab pr (nxt k p) k else k) = k1" by (simp add: k1_def head nx)
    have e2: "(if prv k1 ?h = p then set_prev (process_tab k1 pr) (prv k1 (prv k1 p)) k1 else k1) = k2"
      by (simp only: k2_def k1(2) nx(2))
    have e3: "nxt k2 p = ?b" "prv k2 p = ?a" using k2 nx by auto
    have self: "nxt k p \<noteq> p" "?h \<noteq> NULL" using nx px by simp_all
    have run: "queue_remove k p = Some ?k'"
      unfolding queue_remove_def Let_def px(1,3) e1 e2 using self e3 nx(3,4) by simp
    have "tab_ok ?k' (Q(pr := as @ bs))"
    proof (rule unlink_ok [OF ok pr Q])
      show "process_tab ?k' = (process_tab k)(pr := if as @ bs = [] then NULL else hd (as @ bs))"
        using px(3) False by (cases as) (auto simp: k2_def k1_def fun_eq_iff)
      show "process_size_tab ?k' = (process_size_tab k)(pr := process_size_tab k pr - 1)"
        by (simp add: k2_def k1_def)
      show "procs ?k' q = procs k q" if "q \<notin> set (Q pr)" for q
        using that Q not_in_ends [of q "bs @ as"] False tail by (auto simp: k2_def k1_def)
      show "p_priority (procs ?k' q) = p_priority (procs k q)" for q
        by (simp add: k2_def k1_def)
      show "nxt ?k' q = (if bs @ as \<noteq> [] \<and> q = ?a then ?b else nxt k q)" if "q \<noteq> p" for q
        using that False k2(1) by simp
      show "prv ?k' q = (if bs @ as \<noteq> [] \<and> q = ?b then ?a else prv k q)" if "q \<noteq> p" for q
        using that False k2(2) by simp
    qed
    with run show ?thesis by simp
  qed
qed

lemma queue_insert_ok:
  assumes ok: "tab_ok k Q" and pr: "valid_pr pr" and q: "q \<in> set (Q pr)"
    and p: "p \<noteq> NULL" "\<And>pr'. valid_pr pr' \<Longrightarrow> p \<notin> set (Q pr')" and len: "Suc (length (Q pr)) < 2 ^ 32"
  shows "tab_ok (queue_insert k q p) (Q(pr := Q pr @ [p]))"
proof -
  have "queue_at k pr (Q pr)" using ok pr by (simp add: tab_ok_def)
  moreover have "hd (Q pr) \<in> set (Q pr)" using q by (cases "Q pr") auto
  ultimately have "p_priority (procs k q) = pr" "process_tab k pr = hd (Q pr)" "hd (Q pr) \<noteq> NULL"
    using q by (auto simp: queue_at_def)
  then have "queue_insert_p k p pr = Some (queue_insert k q p)"
    by (simp add: queue_insert_def queue_insert_p_def Let_def)
  with queue_insert_p_ok [OF ok pr p len] show ?thesis by simp
qed

interpretation run_queue: fifo "\<lambda>k xs. valid_pr pr \<and> tab_ok k (Q(pr := xs))"
    "\<lambda>k p. queue_insert_p k p pr" "\<lambda>k. queue_read_front k (process_tab k pr)"
    "\<lambda>p xs. p \<noteq> NULL \<and> (\<forall>pr'. valid_pr pr' \<longrightarrow> p \<notin> set ((Q(pr := xs)) pr'))" "2 ^ 32"
  for pr Q
proof
  fix k p xs
  assume "valid_pr pr \<and> tab_ok k (Q(pr := xs))" "Suc (length xs) < 2 ^ 32"
    and "p \<noteq> NULL \<and> (\<forall>pr'. valid_pr pr' \<longrightarrow> p \<notin> set ((Q(pr := xs)) pr'))"
  then show "\<exists>k'. queue_insert_p k p pr = Some k' \<and> valid_pr pr \<and> tab_ok k' (Q(pr := xs @ [p]))"
    using queue_insert_p_ok [of k "Q(pr := xs)" pr p] by auto
next
  fix k x xs
  assume a: "valid_pr pr \<and> tab_ok k (Q(pr := x # xs))"
  then have "process_tab k pr = x" by (auto simp: tab_ok_def queue_at_def)
  with a queue_read_front_ok [of k "Q(pr := x # xs)" pr x xs]
  show "\<exists>k'. queue_read_front k (process_tab k pr) = Some (x, k') \<and> valid_pr pr \<and> tab_ok k' (Q(pr := xs))"
    by auto
qed

text \<open>The empty table, as the kernel starts with it.\<close>

definition blank_process :: process where
  "blank_process = \<lparr>p_state = P_RUNNING, p_counter = 0, p_priority = 0, p_signal = 0, p_blocked = 0,
     p_tss_seg = 0, p_exit_code = 0, p_pid = 0, p_parent = 0, p_pgrp = 0, p_session = 0,
     p_leader = 0, p_uid = 0, p_euid = 0, p_gid = 0, p_egid = 0, p_sgid = 0, p_alarm = 0, p_utime = 0, p_stime = 0,
     p_cutime = 0, p_cstime = 0, p_start_time = 0, p_first_exec = 0,
     p_sigaction = replicate 32 \<lparr>sa_handler = 0, sa_mask = 0, sa_flags = 0\<rparr>,
     p_tss_eip = 0, p_next = NULL, p_prev = NULL\<rparr>"

definition empty_kern :: kern where
  "empty_kern = \<lparr>procs = (\<lambda>p. blank_process), process_tab = (\<lambda>pr. NULL), process_size_tab = (\<lambda>pr. 0),
     current_process = NULL, previous_process = NULL, INIT_TASK = NULL, first_time = True\<rparr>"

lemma empty_kern_ok: "tab_ok empty_kern (\<lambda>pr. [])"
  by (simp add: tab_ok_def queue_at_def empty_kern_def ring_def)

section \<open>Properties\<close>

text \<open>
  C30: \<open>queue_insert_p\<close> implements insertion at the tail: on a well-formed table of circular
  lists it returns, appends the process to the queue of the given priority, keeps all
  links, heads and sizes consistent and leaves every other queue as it is.
\<close>

theorem queue_insert_p_refines:
  assumes "tab_ok k Q" "valid_pr pr" "p \<noteq> NULL" "\<And>pr'. valid_pr pr' \<Longrightarrow> p \<notin> set (Q pr')"
    and "Suc (length (Q pr)) < 2 ^ 32"
  shows "\<exists>k'. queue_insert_p k p pr = Some k' \<and> tab_ok k' (Q(pr := Q pr @ [p]))"
  using assms by (rule queue_insert_p_ok)

theorem queue_insert_p_refines_witness:
  "\<exists>k'. queue_insert_p empty_kern 0x300000 5 = Some k' \<and> tab_ok k' ((\<lambda>pr. [])(5 := [0x300000]))"
  using queue_insert_p_refines [OF empty_kern_ok, of 5 "0x300000"] by (simp add: valid_pr_def)

text \<open>
  C31: \<open>queue_remove\<close> takes a process out of its queue wherever it stands (head, middle,
  tail or alone): the other processes of the queue keep their order, links, head and
  size stay consistent, other queues do not change and the removed process is unlinked.
\<close>

theorem queue_remove_refines:
  assumes "tab_ok k Q" "valid_pr pr" "p \<in> set (Q pr)"
  shows "\<exists>k'. queue_remove k p = Some k' \<and> tab_ok k' (Q(pr := remove1 p (Q pr))) \<and> nxt k' p = NULL \<and> prv k' p = NULL"
proof -
  obtain as bs where Q: "Q pr = as @ p # bs" "p \<notin> set as" using assms(3) by (meson split_list_first)
  then have "remove1 p (Q pr) = as @ bs" by (simp add: remove1_append)
  with queue_remove_ok [OF assms(1,2) Q(1)] show ?thesis by simp
qed

theorem queue_remove_refines_witness:
  "\<exists>k1 k2. queue_insert_p empty_kern 0x300000 5 = Some k1 \<and> queue_remove k1 0x300000 = Some k2 \<and> tab_ok k2 (\<lambda>pr. [])"
proof -
  obtain k1 where k1: "queue_insert_p empty_kern 0x300000 5 = Some k1" "tab_ok k1 ((\<lambda>pr. [])(5 := [0x300000]))"
    using queue_insert_p_ok [OF empty_kern_ok, of 5 "0x300000"] by (auto simp: valid_pr_def)
  have "(\<lambda>pr :: int. [])(5 := []) = (\<lambda>pr. [] :: ptr list)" by auto
  with queue_remove_refines [OF k1(2), of 5 "0x300000"] k1(1) show ?thesis by (auto simp: valid_pr_def)
qed

text \<open>
  A queue is first in, first out: processes inserted one after the other into an empty
  queue are read from its front in the same order, and the queue is empty again.
\<close>

theorem queue_fifo:
  assumes "tab_ok k Q" "valid_pr pr" "Q pr = []" "distinct ps" "length ps < 2 ^ 32"
    and "\<And>p. p \<in> set ps \<Longrightarrow> p \<noteq> NULL \<and> (\<forall>pr'. valid_pr pr' \<longrightarrow> p \<notin> set (Q pr'))"
  shows "\<exists>k1 k2. enq_all (\<lambda>k p. queue_insert_p k p pr) k ps = Some k1 \<and>
    deq_n (\<lambda>k. queue_read_front k (process_tab k pr)) k1 (length ps) = Some (ps, k2) \<and> tab_ok k2 Q"
proof -
  have Q: "Q(pr := []) = Q" using assms(3) by auto
  have "p \<noteq> NULL \<and> (\<forall>pr'. valid_pr pr' \<longrightarrow> p \<notin> set ((Q(pr := as)) pr'))" if "ps = as @ p # bs" for as p bs
    using assms(4,6) that by auto
  with run_queue.fifo_order [of pr k Q ps] assms(1,2,5) Q show ?thesis by auto
qed

theorem queue_fifo_witness:
  "\<exists>k1 k2. enq_all (\<lambda>k p. queue_insert_p k p 3) empty_kern [0x1000, 0x2000, 0x3000] = Some k1 \<and>
    deq_n (\<lambda>k. queue_read_front k (process_tab k 3)) k1 (length [0x1000 :: ptr, 0x2000, 0x3000])
      = Some ([0x1000, 0x2000, 0x3000], k2)"
proof -
  have "p \<noteq> NULL \<and> (\<forall>pr'. valid_pr pr' \<longrightarrow> p \<notin> set [])" if "p \<in> set [0x1000, 0x2000, 0x3000]" for p :: ptr
    using that by auto
  with queue_fifo [OF empty_kern_ok, of 3 "[0x1000, 0x2000, 0x3000]"] show ?thesis
    unfolding valid_pr_def by fastforce
qed

end
