(* ===== verification/Scheduler.thy ===== *)
theory Scheduler
  imports Process_Queue
begin

text \<open>
  \<open>kernel/scheduler.c\<close>: walking the priority queues, alarms and wake-ups, the choice of
  the next process and the switch to it. The time \<open>ktime(0)\<close> and the address of
  \<open>kstart\<close> are arguments. \<open>asm_soft_switch\<close> is assembly: \<open>schedule\<close> returns the switch it
  asks for (the previous task or none, the next task, the mode).

  A walk over a queue follows \<open>p_next\<close> until it is back at the head: on a queue that is
  not circular it may run forever, which is the value \<open>None\<close>, as is a panic.
\<close>

section \<open>Walking the queues\<close>

text \<open>
  The \<open>do ... while\<close> loop every walk uses, over a state that contains the kernel
  (\<open>getk\<close>): act on the current process, follow its link, stop at the head.
\<close>

partial_function (option) walk :: "('s \<Rightarrow> kern) \<Rightarrow> ('s \<Rightarrow> ptr \<Rightarrow> 's) \<Rightarrow> int \<Rightarrow> 's \<Rightarrow> ptr \<Rightarrow> 's option" where
  "walk getk act pr s cur =
     (if cur = NULL then Some s
      else
        let s = act s cur; cur = nxt (getk s) cur in
        if cur = process_tab (getk s) pr then Some s else walk getk act pr s cur)"

fun walk_queues :: "('s \<Rightarrow> kern) \<Rightarrow> ('s \<Rightarrow> ptr \<Rightarrow> 's) \<Rightarrow> int list \<Rightarrow> 's \<Rightarrow> 's option" where
  "walk_queues getk act [] s = Some s"
| "walk_queues getk act (pr # prs) s = do {
     s \<leftarrow> walk getk act pr s (process_tab (getk s) pr);
     walk_queues getk act prs s
   }"

abbreviation (input) all_prs :: "int list" where "all_prs \<equiv> map int [0..<Nr_PRIORITY]"

definition walk_all :: "('s \<Rightarrow> kern) \<Rightarrow> ('s \<Rightarrow> ptr \<Rightarrow> 's) \<Rightarrow> 's \<Rightarrow> 's option" where
  "walk_all getk act s = walk_queues getk act all_prs s"

section \<open>Operations\<close>

partial_function (option) find_in :: "kern \<Rightarrow> int \<Rightarrow> int \<Rightarrow> ptr \<Rightarrow> ptr option" where
  "find_in k pid pr cur =
     (if cur = NULL then Some NULL
      else if p_pid (procs k cur) = pid then Some cur
      else if nxt k cur = process_tab k pr then Some NULL
      else find_in k pid pr (nxt k cur))"

fun find_queues :: "kern \<Rightarrow> int \<Rightarrow> int list \<Rightarrow> ptr option" where
  "find_queues k pid [] = Some NULL"
| "find_queues k pid (pr # prs) = do {
     proc \<leftarrow> find_in k pid pr (process_tab k pr);
     if proc \<noteq> NULL then Some proc else find_queues k pid prs
   }"

definition find_process :: "kern \<Rightarrow> int \<Rightarrow> ptr option" where
  "find_process k pid = find_queues k pid all_prs"

definition find_init :: "kern \<Rightarrow> ptr option" where
  "find_init k = find_process k 1"

abbreviation (input) SIGKILL :: nat where "SIGKILL \<equiv> 9"
abbreviation (input) SIGALRM :: nat where "SIGALRM \<equiv> 14"
abbreviation (input) SIGSTOP :: nat where "SIGSTOP \<equiv> 19"

definition can_block :: u32 where
  "can_block = NOT (push_bit SIGKILL 1 OR push_bit SIGSTOP 1)"

text \<open>The first loop of \<open>schedule\<close> on one process: alarm, then wake-up.\<close>

definition alarm_wake :: "u32 \<Rightarrow> process \<Rightarrow> process" where
  "alarm_wake now p =
     (let p = (if p_alarm p \<noteq> 0 \<and> sint (p_alarm p + p_start_time p) \<ge> sint now
               then p\<lparr>p_signal := p_signal p OR push_bit SIGALRM 1, p_alarm := 0\<rparr> else p)
      in if p_signal p AND NOT (can_block AND p_blocked p) \<noteq> 0 \<and> p_state p = P_INTERRUPTIBLE
         then p\<lparr>p_state := P_RUNNING\<rparr> else p)"

definition age :: "process \<Rightarrow> process" where
  "age p = p\<lparr>p_counter := p_counter p - 1\<rparr>"

text \<open>The third loop: keep the process with the highest counter.\<close>

definition better :: "kern \<times> ptr \<Rightarrow> ptr \<Rightarrow> kern \<times> ptr" where
  "better s cur =
     (let (k, proc) = s in
      if sint (p_counter (procs k proc)) < sint (p_counter (procs k cur)) then (k, cur) else (k, proc))"

record switch =
  sw_prev :: "ptr option"
  sw_next :: ptr
  sw_mode :: int

text \<open>The switch: \<open>current_process\<close> becomes \<open>proc\<close>; an empty instruction pointer is a panic.\<close>

definition switch_to :: "u32 \<Rightarrow> kern \<Rightarrow> ptr \<Rightarrow> (switch option \<times> kern) option" where
  "switch_to kstart k proc =
     (let k = k\<lparr>previous_process := current_process k, current_process := proc\<rparr>;
          fe = p_first_exec (procs k proc);
          mode = (if fe = 0 \<or> fe = 1 then 1 else 0);
          k = (if fe = 1 then upd_proc proc (\<lambda>p. p\<lparr>p_tss_eip := kstart\<rparr>) k else k);
          k = upd_proc proc (\<lambda>p. p\<lparr>p_first_exec := 2\<rparr>) k
      in if p_tss_eip (procs k proc) = 0 then None
         else if first_time k
         then Some (Some \<lparr>sw_prev = None, sw_next = proc, sw_mode = mode\<rparr>, k\<lparr>first_time := False\<rparr>)
         else Some (Some \<lparr>sw_prev = Some (previous_process k), sw_next = proc, sw_mode = mode\<rparr>, k))"

definition schedule :: "u32 \<Rightarrow> u32 \<Rightarrow> kern \<Rightarrow> (switch option \<times> kern) option" where
  "schedule kstart now k =
     (let proc = current_process k in
      if proc = NULL then None
      else do {
        k \<leftarrow> walk_all id (\<lambda>k cur. upd_proc cur (alarm_wake now) k) k;
        k \<leftarrow> walk_all id (\<lambda>k cur. upd_proc cur age k) k;
        (k, proc) \<leftarrow> walk_all fst better (k, proc);
        let cur = current_process k;
        let k = upd_proc cur age k;
        if first_time k \<or> (proc \<noteq> cur \<and> p_tss_seg (procs k cur) \<noteq> 0)
        then switch_to kstart k proc
        else Some (None, k)
      })"

definition scheduler_interrupt_handler :: "u32 \<Rightarrow> u32 \<Rightarrow> kern \<Rightarrow> (switch option \<times> kern) option" where
  "scheduler_interrupt_handler kstart now k = schedule kstart now k"

definition kpause :: "u32 \<Rightarrow> u32 \<Rightarrow> kern \<Rightarrow> (int \<times> switch option \<times> kern) option" where
  "kpause kstart now k = do {
     (sw, k) \<leftarrow> schedule kstart now (upd_proc (current_process k) (\<lambda>p. p\<lparr>p_state := P_INTERRUPTIBLE\<rparr>) k);
     Some (0, sw, k)
   }"

definition knice :: "kern \<Rightarrow> u32 \<Rightarrow> int \<times> kern" where
  "knice k value =
     (let cur = current_process k in
      (0, if sint (p_counter (procs k cur) - value) > 0
          then upd_proc cur (\<lambda>p. p\<lparr>p_counter := p_counter p - value\<rparr>) k else k))"

definition kgetpgid :: "kern \<Rightarrow> int \<Rightarrow> int option" where
  "kgetpgid k pid =
     (if pid = 0 then Some (uint (p_gid (procs k (current_process k))))
      else do {
        proc \<leftarrow> find_process k pid;
        Some (if proc \<noteq> NULL then uint (p_gid (procs k proc)) else - 1)
      })"

section \<open>Walks over well-formed queues\<close>

text \<open>The part of the kernel a walk depends on.\<close>

definition same_links :: "kern \<Rightarrow> kern \<Rightarrow> bool" where
  "same_links k k' \<longleftrightarrow> (\<forall>p. nxt k' p = nxt k p) \<and> process_tab k' = process_tab k"

lemma same_links_refl [simp]: "same_links k k"
  by (simp add: same_links_def)

lemma same_links_trans: "same_links k1 k2 \<Longrightarrow> same_links k2 k3 \<Longrightarrow> same_links k1 k3"
  by (simp add: same_links_def)

text \<open>A walk over a queue is a fold over the list it holds.\<close>

lemma walk_suffix:
  assumes act: "\<And>s p. same_links (getk s) (getk (act s p))"
    and k: "queue_at k pr (as @ ys)" "ys \<noteq> []" "same_links k (getk s)"
  shows "walk getk act pr s (hd ys) = Some (fold (\<lambda>p s. act s p) ys s)"
  using k
proof (induction ys arbitrary: as s)
  case (Cons y ys)
  have ring: "chain k (as @ y # ys)" "nxt k (last (as @ y # ys)) = hd (as @ y # ys)"
    and tab: "process_tab k pr = hd (as @ y # ys)" and nn: "y \<noteq> NULL" and dist: "distinct (as @ y # ys)"
    using Cons.prems(1) by (auto simp: queue_at_def ring_iff)
  have links: "same_links k (getk (act s y))" using same_links_trans [OF Cons.prems(3) act] .
  then have nx: "nxt (getk (act s y)) y = nxt k y" "process_tab (getk (act s y)) pr = process_tab k pr"
    by (simp_all add: same_links_def)
  show ?case
  proof (cases "ys = []")
    case True
    then have "nxt k y = process_tab k pr" using ring(2) tab by simp
    with nn nx True show ?thesis by (subst walk.simps) (simp add: Let_def)
  next
    case False
    then obtain z zs where ys: "ys = z # zs" by (auto simp: neq_Nil_conv)
    then have "nxt k y = z" using ring(1) chain_split [of k as y ys] by simp
    moreover have "z \<noteq> hd (as @ y # ys)" using dist ys by (cases as) auto
    moreover have "walk getk act pr (act s y) (hd ys) = Some (fold (\<lambda>p s. act s p) ys (act s y))"
      using Cons.IH [of "as @ [y]" "act s y"] Cons.prems(1) False links by simp
    ultimately show ?thesis
      using nn nx tab ys by (subst walk.simps) (simp add: Let_def)
  qed
qed simp

lemma walk_queue:
  assumes "\<And>s p. same_links (getk s) (getk (act s p))" "queue_at k pr xs" "same_links k (getk s)"
  shows "walk getk act pr s (process_tab (getk s) pr) = Some (fold (\<lambda>p s. act s p) xs s)"
proof -
  have tab: "process_tab (getk s) pr = (if xs = [] then NULL else hd xs)"
    using assms(2,3) by (simp add: same_links_def queue_at_def)
  show ?thesis
  proof (cases "xs = []")
    case True
    with tab show ?thesis by (simp add: walk.simps)
  next
    case False
    with walk_suffix [where getk = getk and act = act and as = "[]" and ys = xs, OF assms(1)] assms(2,3) tab
    show ?thesis by simp
  qed
qed

text \<open>All processes in the table, in the order the scheduler visits them.\<close>

definition all_procs :: "(int \<Rightarrow> ptr list) \<Rightarrow> ptr list" where
  "all_procs Q = concat (map Q all_prs)"

lemma walk_all_fold:
  assumes act: "\<And>s p. same_links (getk s) (getk (act s p))" and k: "tab_ok k Q" "same_links k (getk s)"
  shows "walk_all getk act s = Some (fold (\<lambda>p s. act s p) (all_procs Q) s)"
proof -
  have fold: "same_links k (getk s) \<Longrightarrow> same_links k (getk (fold (\<lambda>p s. act s p) xs s))" for xs s
  proof (induction xs arbitrary: s)
    case (Cons x xs)
    from same_links_trans [OF Cons.prems act] Cons.IH show ?case by simp
  qed simp
  have "\<forall>pr \<in> set prs. valid_pr pr \<Longrightarrow> same_links k (getk s) \<Longrightarrow>
      walk_queues getk act prs s = Some (fold (\<lambda>p s. act s p) (concat (map Q prs)) s)" for prs s
  proof (induction prs arbitrary: s)
    case (Cons pr prs)
    have "queue_at k pr (Q pr)" using Cons.prems k(1) by (simp add: tab_ok_def)
    from walk_queue [where getk = getk and act = act, OF act this Cons.prems(2)] Cons fold show ?case by simp
  qed simp
  moreover have "\<forall>pr \<in> set all_prs. valid_pr pr" by (auto simp: valid_pr_def)
  ultimately show ?thesis using k(2) unfolding walk_all_def all_procs_def by blast
qed

lemma distinct_concat_map:
  "distinct prs \<Longrightarrow> (\<And>pr. pr \<in> set prs \<Longrightarrow> distinct (Q pr)) \<Longrightarrow>
   (\<And>pr pr'. pr \<in> set prs \<Longrightarrow> pr' \<in> set prs \<Longrightarrow> pr \<noteq> pr' \<Longrightarrow> set (Q pr) \<inter> set (Q pr') = {}) \<Longrightarrow>
   distinct (concat (map Q prs))"
proof (induction prs)
  case (Cons pr prs)
  have "set (Q pr) \<inter> set (Q pr') = {}" if "pr' \<in> set prs" for pr'
    using Cons.prems(1,3) that by (metis distinct.simps(2) list.set_intros)
  with Cons show ?case by fastforce
qed simp

lemma all_procs_props:
  assumes "tab_ok k Q"
  shows "distinct (all_procs Q)" "NULL \<notin> set (all_procs Q)"
    "valid_pr pr \<Longrightarrow> set (Q pr) \<subseteq> set (all_procs Q)"
proof -
  have q: "distinct (Q pr)" "NULL \<notin> set (Q pr)" if "valid_pr pr" for pr
    using assms that by (simp_all add: tab_ok_def queue_at_def)
  have pr: "pr \<in> set all_prs \<longleftrightarrow> valid_pr pr" for pr
    by (auto simp: valid_pr_def image_iff intro: bexI [of _ "nat pr"])
  show "distinct (all_procs Q)"
    unfolding all_procs_def
  proof (rule distinct_concat_map)
    show "distinct all_prs" by (simp add: distinct_map)
    show "set (Q pr) \<inter> set (Q pr') = {}" if "pr \<in> set all_prs" "pr' \<in> set all_prs" "pr \<noteq> pr'" for pr pr'
      using assms that unfolding pr by (simp add: tab_ok_def)
  qed (use q pr in simp)
  have all: "set (all_procs Q) = (\<Union>pr \<in> set all_prs. set (Q pr))" by (simp add: all_procs_def)
  show "NULL \<notin> set (all_procs Q)" unfolding all using q pr by blast
  show "set (Q pr) \<subseteq> set (all_procs Q)" if "valid_pr pr" unfolding all using that pr by blast
qed

lemma upd_proc_links [simp]:
  "(\<And>x. p_next (f x) = p_next x) \<Longrightarrow> same_links k (upd_proc p f k)"
  by (simp add: same_links_def upd_proc_def)

lemma upd_proc_frame [simp]:
  "current_process (upd_proc p f k) = current_process k" "previous_process (upd_proc p f k) = previous_process k"
  "first_time (upd_proc p f k) = first_time k"
  by (simp_all add: upd_proc_def)

lemma fold_upd:
  assumes "distinct ps"
  shows "fold (\<lambda>p k. upd_proc p f k) ps k =
    k\<lparr>procs := \<lambda>q. if q \<in> set ps then f (procs k q) else procs k q\<rparr>"
  using assms
proof (induction ps arbitrary: k)
  case (Cons p ps)
  have "procs (upd_proc p f k) q = (if q = p then f (procs k p) else procs k q)" for q
    by (simp add: upd_proc_def)
  with Cons show ?case by (auto simp: upd_proc_def fun_eq_iff)
qed simp

lemma alarm_wake_fields [simp]:
  "p_next (alarm_wake now p) = p_next p" "p_prev (alarm_wake now p) = p_prev p"
  "p_priority (alarm_wake now p) = p_priority p" "p_counter (alarm_wake now p) = p_counter p"
  "p_tss_seg (alarm_wake now p) = p_tss_seg p" "p_first_exec (alarm_wake now p) = p_first_exec p"
  "p_tss_eip (alarm_wake now p) = p_tss_eip p" "p_pid (alarm_wake now p) = p_pid p"
  by (simp_all add: alarm_wake_def Let_def)

lemma age_fields [simp]:
  "p_next (age p) = p_next p" "p_prev (age p) = p_prev p" "p_priority (age p) = p_priority p"
  "p_counter (age p) = p_counter p - 1" "p_tss_seg (age p) = p_tss_seg p"
  "p_first_exec (age p) = p_first_exec p" "p_tss_eip (age p) = p_tss_eip p"
  by (simp_all add: age_def)

lemma fold_better:
  "fold (\<lambda>p s. better s p) ps (k, p0) = (k', r) \<Longrightarrow> k' = k \<and> r \<in> set (p0 # ps) \<and>
    (\<forall>p \<in> set (p0 # ps). sint (p_counter (procs k p)) \<le> sint (p_counter (procs k r)))"
proof (induction ps arbitrary: p0)
  case (Cons p ps)
  let ?q = "if sint (p_counter (procs k p0)) < sint (p_counter (procs k p)) then p else p0"
  have "better (k, p0) p = (k, ?q)" by (simp add: better_def)
  with Cons.prems Cons.IH [of ?q] show ?case by (auto split: if_splits)
qed simp

text \<open>The kernel after the alarm loop and the aging loop.\<close>

definition aged :: "u32 \<Rightarrow> (int \<Rightarrow> ptr list) \<Rightarrow> kern \<Rightarrow> kern" where
  "aged now Q k = k\<lparr>procs := \<lambda>p. if p \<in> set (all_procs Q) then age (alarm_wake now (procs k p)) else procs k p\<rparr>"

lemma same_links_tab_ok:
  assumes "tab_ok k Q" "\<And>p. nxt k' p = nxt k p \<and> prv k' p = prv k p \<and> p_priority (procs k' p) = p_priority (procs k p)"
    "process_tab k' = process_tab k" "process_size_tab k' = process_size_tab k"
  shows "tab_ok k' Q"
proof -
  have "ring k' xs = ring k xs" for xs using assms(2) by (intro ring_cong) simp
  with assms show ?thesis by (simp add: tab_ok_def queue_at_def)
qed

lemma aged_tab_ok: "tab_ok k Q \<Longrightarrow> tab_ok (aged now Q k) Q"
  by (erule same_links_tab_ok) (simp_all add: aged_def)

lemma aged_frame [simp]:
  "current_process (aged now Q k) = current_process k" "first_time (aged now Q k) = first_time k"
  "p_tss_seg (procs (aged now Q k) p) = p_tss_seg (procs k p)"
  "p_first_exec (procs (aged now Q k) p) = p_first_exec (procs k p)"
  "p_tss_eip (procs (aged now Q k) p) = p_tss_eip (procs k p)"
  by (simp_all add: aged_def)

lemma aged_counter:
  "p \<in> set (all_procs Q) \<Longrightarrow> p_counter (procs (aged now Q k) p) = p_counter (procs k p) - 1"
  by (simp add: aged_def)

text \<open>The process the scheduler ends up with, and what it does then.\<close>

lemma schedule_chooses:
  assumes ok: "tab_ok k Q" and cur: "current_process k \<noteq> NULL"
  obtains r where "r \<in> set (current_process k # all_procs Q)"
    "\<forall>p \<in> set (current_process k # all_procs Q).
       sint (p_counter (procs (aged now Q k) p)) \<le> sint (p_counter (procs (aged now Q k) r))"
    "schedule kstart now k =
      (let k2 = upd_proc (current_process k) age (aged now Q k) in
       if first_time k \<or> (r \<noteq> current_process k \<and> p_tss_seg (procs k (current_process k)) \<noteq> 0)
       then switch_to kstart k2 r else Some (None, k2))"
proof -
  note dist = all_procs_props(1) [OF ok]
  let ?k1 = "fold (\<lambda>p k. upd_proc p (alarm_wake now) k) (all_procs Q) k"
  have w1: "walk_all id (\<lambda>k cur. upd_proc cur (alarm_wake now) k) k = Some ?k1"
    using walk_all_fold [where getk = id and act = "\<lambda>k cur. upd_proc cur (alarm_wake now) k", of k Q k] ok by simp
  have links: "same_links k ?k1" by (simp add: fold_upd [OF dist] same_links_def)
  have w2: "walk_all id (\<lambda>k cur. upd_proc cur age k) ?k1 = Some (aged now Q k)"
    using walk_all_fold [where getk = id and act = "\<lambda>k cur. upd_proc cur age k", of k Q ?k1] ok links
    by (simp add: fold_upd [OF dist] aged_def fun_eq_iff cong: if_cong)
  obtain k' r where kr: "fold (\<lambda>p s. better s p) (all_procs Q) (aged now Q k, current_process k) = (k', r)"
    by (cases "fold (\<lambda>p s. better s p) (all_procs Q) (aged now Q k, current_process k)")
  note b = fold_better [OF kr]
  have "same_links (fst s) (fst (better s p))" for s p by (simp add: better_def split: prod.split)
  moreover have "same_links k (aged now Q k)" by (simp add: same_links_def aged_def)
  ultimately have w3: "walk_all fst better (aged now Q k, current_process k) = Some (aged now Q k, r)"
    using walk_all_fold [where getk = fst and act = better, of k Q "(aged now Q k, current_process k)"] ok kr b by simp
  have run: "schedule kstart now k =
      (let k2 = upd_proc (current_process k) age (aged now Q k) in
       if first_time k \<or> (r \<noteq> current_process k \<and> p_tss_seg (procs k (current_process k)) \<noteq> 0)
       then switch_to kstart k2 r else Some (None, k2))"
    using cur w1 w2 w3 by (simp add: schedule_def Let_def upd_proc_def)
  from b run show thesis by (intro that [of r]) auto
qed

text \<open>Switching leaves the queues alone and never fails for a process that has a place to start.\<close>

definition startable :: "u32 \<Rightarrow> process \<Rightarrow> bool" where
  "startable kstart p \<longleftrightarrow> p_tss_eip p \<noteq> 0 \<or> (p_first_exec p = 1 \<and> kstart \<noteq> 0)"

lemma switch_to_ok:
  assumes "tab_ok k Q" "startable kstart (procs k r)"
    and "p_first_exec (procs k r) = 1 \<Longrightarrow> kstart \<noteq> 0"
  shows "\<exists>sw k'. switch_to kstart k r = Some (Some sw, k') \<and> tab_ok k' Q \<and> current_process k' = r \<and>
    sw_next sw = r \<and> sw_prev sw = (if first_time k then None else Some (current_process k)) \<and> \<not> first_time k'"
proof -
  let ?k1 = "k\<lparr>previous_process := current_process k, current_process := r\<rparr>"
  let ?k2 = "if p_first_exec (procs k r) = 1 then upd_proc r (\<lambda>p. p\<lparr>p_tss_eip := kstart\<rparr>) ?k1 else ?k1"
  let ?k3 = "upd_proc r (\<lambda>p. p\<lparr>p_first_exec := 2\<rparr>) ?k2"
  have "tab_ok ?k3 Q" by (rule same_links_tab_ok [OF assms(1)]) (simp_all add: upd_proc_def)
  moreover from this have "tab_ok (?k3\<lparr>first_time := False\<rparr>) Q"
    by (rule same_links_tab_ok) simp_all
  moreover have "p_tss_eip (procs ?k3 r) \<noteq> 0" using assms(2,3) by (auto simp: upd_proc_def startable_def)
  ultimately show ?thesis
    by (simp add: switch_to_def Let_def)
qed

lemma filter_head: "filter P xs = x # ys \<Longrightarrow> x \<in> set xs \<and> P x"
  using list.set_intros(1) [of x ys] by (metis mem_Collect_eq set_filter)

lemma find_in_suffix:
  assumes q: "queue_at k pr (as @ ys)" "ys \<noteq> []"
  shows "find_in k pid pr (hd ys) = Some (case filter (\<lambda>p. p_pid (procs k p) = pid) ys of [] \<Rightarrow> NULL | p # _ \<Rightarrow> p)"
  using assms
proof (induction ys arbitrary: as)
  case (Cons y ys)
  have ring: "chain k (as @ y # ys)" "nxt k (last (as @ y # ys)) = hd (as @ y # ys)"
    and tab: "process_tab k pr = hd (as @ y # ys)" and nn: "y \<noteq> NULL" and dist: "distinct (as @ y # ys)"
    using Cons.prems(1) by (auto simp: queue_at_def ring_iff)
  show ?case
  proof (cases ys)
    case Nil
    then show ?thesis using ring(2) tab nn by (subst find_in.simps) simp
  next
    case (Cons z zs)
    then have "nxt k y = z" using ring(1) chain_split [of k as y ys] by simp
    moreover have "z \<noteq> hd (as @ y # ys)" using dist Cons by (cases as) auto
    moreover have "find_in k pid pr z = Some (case filter (\<lambda>p. p_pid (procs k p) = pid) ys of [] \<Rightarrow> NULL | p # _ \<Rightarrow> p)"
      using Cons.IH [of "as @ [y]"] Cons.prems(1) Cons by simp
    ultimately show ?thesis using nn tab by (subst find_in.simps) (simp add: Cons)
  qed
qed simp

lemma find_queue:
  assumes "queue_at k pr xs"
  shows "find_in k pid pr (process_tab k pr) = Some (case filter (\<lambda>p. p_pid (procs k p) = pid) xs of [] \<Rightarrow> NULL | p # _ \<Rightarrow> p)"
proof (cases "xs = []")
  case True
  with assms show ?thesis by (simp add: queue_at_def find_in.simps)
next
  case False
  with find_in_suffix [of k pr "[]" xs] assms show ?thesis by (simp add: queue_at_def)
qed

lemma find_process_eq:
  assumes "tab_ok k Q"
  shows "find_process k pid = Some (case filter (\<lambda>p. p_pid (procs k p) = pid) (all_procs Q) of [] \<Rightarrow> NULL | p # _ \<Rightarrow> p)"
proof -
  have "\<forall>pr \<in> set prs. valid_pr pr \<Longrightarrow> find_queues k pid prs =
      Some (case filter (\<lambda>p. p_pid (procs k p) = pid) (concat (map Q prs)) of [] \<Rightarrow> NULL | p # _ \<Rightarrow> p)" for prs
  proof (induction prs)
    case (Cons pr prs)
    have q: "queue_at k pr (Q pr)" using Cons.prems assms by (simp add: tab_ok_def)
    have "NULL \<notin> set (Q pr)" using q by (simp add: queue_at_def)
    then have nn: "p \<noteq> NULL" if "filter (\<lambda>p. p_pid (procs k p) = pid) (Q pr) = p # ps" for p ps
      using filter_head [OF that] by auto
    from find_queue [OF q, of pid] Cons nn show ?case by (auto split: list.split)
  qed simp
  moreover have "\<forall>pr \<in> set all_prs. valid_pr pr" by (auto simp: valid_pr_def)
  ultimately show ?thesis unfolding find_process_def all_procs_def by blast
qed

text \<open>Two processes in the first queue.\<close>

definition demo_proc :: "int \<Rightarrow> u32 \<Rightarrow> ptr \<Rightarrow> process" where
  "demo_proc pid c other = blank_process\<lparr>p_pid := pid, p_counter := c, p_tss_seg := 8, p_first_exec := 2,
     p_tss_eip := 0x100000, p_next := other, p_prev := other\<rparr>"

definition demo_kern :: kern where
  "demo_kern = empty_kern\<lparr>procs := (\<lambda>p. blank_process)(0x1000 := demo_proc 1 10 0x2000,
       0x2000 := (demo_proc 2 20 0x1000)\<lparr>p_state := P_ZOMBIE\<rparr>),
     process_tab := (\<lambda>pr. NULL)(0 := 0x1000), process_size_tab := (\<lambda>pr. 0)(0 := 2),
     current_process := 0x1000, first_time := False\<rparr>"

abbreviation (input) demo_Q :: "int \<Rightarrow> ptr list" where "demo_Q \<equiv> (\<lambda>pr. [])(0 := [0x1000, 0x2000])"

lemma demo_kern_ok: "tab_ok demo_kern demo_Q"
  by (auto simp: tab_ok_def queue_at_def demo_kern_def empty_kern_def demo_proc_def ring_def blank_process_def)

lemma demo_all_procs: "all_procs demo_Q = [0x1000, 0x2000]"
proof -
  have "all_prs = 0 # map int [1..<32]" by (simp add: upt_conv_Cons)
  moreover have "concat (map demo_Q (map int [1..<32])) = []" by auto
  ultimately show ?thesis by (simp only: all_procs_def list.map concat.simps) simp
qed

lemma demo_kern_fields:
  "current_process demo_kern = 0x1000" "\<not> first_time demo_kern" "p_tss_seg (procs demo_kern 0x1000) = 8"
  "p_tss_eip (procs demo_kern 0x1000) = 0x100000" "p_tss_eip (procs demo_kern 0x2000) = 0x100000"
  "p_state (procs demo_kern 0x2000) = P_ZOMBIE" "p_first_exec (procs demo_kern 0x2000) = 2"
  "p_counter (procs demo_kern 0x1000) = 10" "p_counter (procs demo_kern 0x2000) = 20"
  "p_pid (procs demo_kern 0x1000) = 1" "p_pid (procs demo_kern 0x2000) = 2"
  by (simp_all add: demo_kern_def demo_proc_def)

text \<open>The same with both processes running.\<close>

definition demo_running :: kern where
  "demo_running = demo_kern\<lparr>procs := (procs demo_kern)(0x2000 := demo_proc 2 20 0x1000)\<rparr>"

lemma demo_running_ok: "tab_ok demo_running demo_Q"
  by (rule same_links_tab_ok [OF demo_kern_ok]) (simp_all add: demo_running_def demo_kern_def demo_proc_def)

lemma demo_running_fields:
  "current_process demo_running = 0x1000" "\<not> first_time demo_running" "p_tss_seg (procs demo_running 0x1000) = 8"
  "p_tss_eip (procs demo_running 0x1000) = 0x100000" "p_tss_eip (procs demo_running 0x2000) = 0x100000"
  "p_state (procs demo_running 0x1000) = P_RUNNING" "p_state (procs demo_running 0x2000) = P_RUNNING"
  "p_counter (procs demo_running 0x1000) = 10" "p_counter (procs demo_running 0x2000) = 20"
  by (simp_all add: demo_running_def demo_kern_def demo_proc_def blank_process_def)

section \<open>Properties\<close>

text \<open>
  C32: The scheduler means to run the process with the highest counter among the running ones, but
  does not look at the state of a process. It does what it means when every queued process that
  is not running has a lower counter than some running one: on a well-formed process table
  \<open>schedule\<close> returns, keeps every queue as it is, and leaves as current process a running one with
  the highest remaining counter of all; it asks for a switch exactly if that is another process,
  from the old to the new one. Without the hypothesis on the states it fails
  (\<open>schedule_ignores_state\<close>).
\<close>

theorem schedule_picks_highest:
  assumes "tab_ok k Q" "current_process k \<in> set (all_procs Q)" "\<not> first_time k"
    and "p_tss_seg (procs k (current_process k)) \<noteq> 0"
    and "\<forall>p \<in> set (all_procs Q). p_tss_eip (procs k p) \<noteq> 0" "kstart \<noteq> 0"
    and "\<forall>p \<in> set (all_procs Q). p_state (procs k p) \<noteq> P_RUNNING \<longrightarrow> (\<exists>q \<in> set (all_procs Q).
      p_state (procs k q) = P_RUNNING \<and> sint (p_counter (procs k p) - 1) < sint (p_counter (procs k q) - 1))"
  shows "\<exists>sw k'. schedule kstart now k = Some (sw, k') \<and> tab_ok k' Q \<and>
    current_process k' \<in> set (all_procs Q) \<and> p_state (procs k (current_process k')) = P_RUNNING \<and>
    (\<forall>p \<in> set (all_procs Q). sint (p_counter (procs k p) - 1) \<le> sint (p_counter (procs k (current_process k')) - 1)) \<and>
    (case sw of None \<Rightarrow> current_process k' = current_process k
     | Some w \<Rightarrow> current_process k' \<noteq> current_process k \<and> sw_next w = current_process k' \<and>
         sw_prev w = Some (current_process k))"
proof -
  let ?c = "current_process k"
  let ?k2 = "upd_proc ?c age (aged now Q k)"
  have nn: "?c \<noteq> NULL" using assms(2) all_procs_props(2) [OF assms(1)] by auto
  obtain r where r: "r \<in> set (?c # all_procs Q)"
    "\<forall>p \<in> set (?c # all_procs Q). sint (p_counter (procs (aged now Q k) p)) \<le> sint (p_counter (procs (aged now Q k) r))"
    "schedule kstart now k = (if r \<noteq> ?c then switch_to kstart ?k2 r else Some (None, ?k2))"
    using schedule_chooses [OF assms(1) nn, of now kstart] assms(3,4) by (auto simp: Let_def)
  have in_all: "r \<in> set (all_procs Q)" using r(1) assms(2) by auto
  then have best: "\<forall>p \<in> set (all_procs Q). sint (p_counter (procs k p) - 1) \<le> sint (p_counter (procs k r) - 1)"
    using r(2) by (simp add: aged_counter)
  have run: "p_state (procs k r) = P_RUNNING" using assms(7) in_all best by (meson not_less)
  have ok2: "tab_ok ?k2 Q"
    by (rule same_links_tab_ok [OF aged_tab_ok [OF assms(1)]]) (simp_all add: upd_proc_def)
  have eip: "p_tss_eip (procs ?k2 r) \<noteq> 0" using assms(5) in_all by (auto simp: upd_proc_def)
  show ?thesis
  proof (cases "r = ?c")
    case True
    with r(3) ok2 in_all best run show ?thesis by simp
  next
    case False
    obtain w k' where "switch_to kstart ?k2 r = Some (Some w, k')" "tab_ok k' Q" "current_process k' = r"
      "sw_next w = r" "sw_prev w = Some ?c"
      using switch_to_ok [OF ok2, of kstart r] eip assms(3,6) by (auto simp: startable_def)
    with False r(3) in_all best run show ?thesis by auto
  qed
qed

theorem schedule_picks_highest_witness:
  "\<exists>sw k'. schedule 0x100000 0 demo_running = Some (sw, k') \<and> tab_ok k' demo_Q \<and> current_process k' = 0x2000"
proof -
  have "\<forall>p \<in> set (all_procs demo_Q). p_tss_eip (procs demo_running p) \<noteq> 0"
    "\<forall>p \<in> set (all_procs demo_Q). p_state (procs demo_running p) \<noteq> P_RUNNING \<longrightarrow> (\<exists>q \<in> set (all_procs demo_Q).
      p_state (procs demo_running q) = P_RUNNING \<and>
      sint (p_counter (procs demo_running p) - 1) < sint (p_counter (procs demo_running q) - 1))"
    unfolding demo_all_procs by (simp_all add: demo_running_fields)
  from schedule_picks_highest [OF demo_running_ok _ _ _ this(1) _ this(2), of "0x100000" 0] show ?thesis
    unfolding demo_all_procs by (auto simp: demo_running_fields)
qed

text \<open>
  The scheduler does not look at the state of the process it picks: a zombie or stopped
  process with the highest counter is switched to, although only a running process is
  meant to be chosen.
\<close>

theorem schedule_ignores_state:
  assumes "tab_ok k Q" "current_process k \<in> set (all_procs Q)" "\<not> first_time k"
    and "p_tss_seg (procs k (current_process k)) \<noteq> 0"
    and "z \<in> set (all_procs Q)" "p_state (procs k z) = P_ZOMBIE \<or> p_state (procs k z) = P_STOPPED"
    and "p_first_exec (procs k z) = 2" "p_tss_eip (procs k z) \<noteq> 0" "z \<noteq> current_process k"
    and "\<forall>p \<in> set (all_procs Q) - {z}. sint (p_counter (procs k p) - 1) < sint (p_counter (procs k z) - 1)"
  shows "\<exists>w k'. schedule kstart now k = Some (Some w, k') \<and> sw_next w = z \<and> current_process k' = z"
proof -
  let ?c = "current_process k"
  let ?k2 = "upd_proc ?c age (aged now Q k)"
  have nn: "?c \<noteq> NULL" using assms(2) all_procs_props(2) [OF assms(1)] by auto
  obtain r where r: "r \<in> set (?c # all_procs Q)"
    "\<forall>p \<in> set (?c # all_procs Q). sint (p_counter (procs (aged now Q k) p)) \<le> sint (p_counter (procs (aged now Q k) r))"
    "schedule kstart now k = (if r \<noteq> ?c then switch_to kstart ?k2 r else Some (None, ?k2))"
    using schedule_chooses [OF assms(1) nn, of now kstart] assms(3,4) by (auto simp: Let_def)
  have in_all: "r \<in> set (all_procs Q)" using r(1) assms(2) by auto
  have "sint (p_counter (procs k z) - 1) \<le> sint (p_counter (procs k r) - 1)"
    using r(2) assms(5) in_all by (simp add: aged_counter)
  then have "r = z" using assms(10) in_all by (metis DiffI empty_iff insert_iff not_less)
  have ok2: "tab_ok ?k2 Q"
    by (rule same_links_tab_ok [OF aged_tab_ok [OF assms(1)]]) (simp_all add: upd_proc_def)
  from switch_to_ok [OF ok2, of kstart z] assms(7,8,9) r(3) \<open>r = z\<close> show ?thesis
    by (auto simp: startable_def upd_proc_def)
qed

theorem schedule_ignores_state_witness:
  "\<exists>w k'. schedule 0x100000 0 demo_kern = Some (Some w, k') \<and> sw_next w = 0x2000 \<and> current_process k' = 0x2000"
proof -
  have "\<forall>p \<in> set (all_procs demo_Q) - {0x2000}.
      sint (p_counter (procs demo_kern p) - 1) < sint (p_counter (procs demo_kern 0x2000) - 1)"
    unfolding demo_all_procs by (auto simp: demo_kern_fields)
  from schedule_ignores_state [OF demo_kern_ok _ _ _ _ _ _ _ _ this, of "0x100000" 0] show ?thesis
    unfolding demo_all_procs by (simp add: demo_kern_fields)
qed

text \<open>
  C33: \<open>find_process\<close> returns the first queued process with the given number and NULL
  exactly if there is none; it always terminates on a well-formed table.
\<close>

theorem find_process_correct:
  assumes "tab_ok k Q"
  shows "\<exists>r. find_process k pid = Some r \<and>
    (r = NULL \<longleftrightarrow> (\<forall>p \<in> set (all_procs Q). p_pid (procs k p) \<noteq> pid)) \<and>
    (r \<noteq> NULL \<longrightarrow> r \<in> set (all_procs Q) \<and> p_pid (procs k r) = pid)"
proof (cases "filter (\<lambda>p. p_pid (procs k p) = pid) (all_procs Q)")
  case Nil
  with find_process_eq [OF assms, of pid] show ?thesis by (simp add: filter_empty_conv)
next
  case (Cons p ps)
  then have "p \<in> set (all_procs Q)" "p_pid (procs k p) = pid" using filter_head by fastforce+
  with Cons find_process_eq [OF assms, of pid] all_procs_props(2) [OF assms] show ?thesis by auto
qed

theorem find_process_correct_witness: "\<exists>r. find_process demo_kern 2 = Some r \<and> r \<noteq> NULL"
  using find_process_correct [OF demo_kern_ok, of 2] unfolding demo_all_procs
  by (auto simp: demo_kern_fields)

text \<open>
  The alarm test is the wrong way round: \<open>schedule\<close> raises SIGALRM for an alarm whose
  time has not come yet, and never for one whose time has passed.
\<close>

theorem alarm_inverted:
  assumes "p_alarm p \<noteq> 0"
  shows "(sint now < sint (p_alarm p + p_start_time p) \<longrightarrow> bit (p_signal (alarm_wake now p)) SIGALRM) \<and>
    (sint (p_alarm p + p_start_time p) < sint now \<longrightarrow>
       p_signal (alarm_wake now p) = p_signal p \<and> p_alarm (alarm_wake now p) = p_alarm p)"
  using assms by (auto simp: alarm_wake_def Let_def bit_simps)

theorem alarm_inverted_witness:
  "bit (p_signal (alarm_wake 100 (blank_process\<lparr>p_alarm := 60, p_start_time := 100\<rparr>))) SIGALRM"
  using alarm_inverted [of "blank_process\<lparr>p_alarm := 60, p_start_time := 100\<rparr>" 100] by simp

end
