(* ===== verification/Signals.thy ===== *)
theory Signals
  imports Scheduler
begin

text \<open>
  Signals, process exit and user identities: \<open>kernel/signal.c\<close>, the signal and exit
  paths of \<open>kernel/exit.c\<close> and the identity calls of \<open>kernel/misc.c\<close>. A handler is the
  address of the user function. \<open>signal_exec\<close> hands over to \<open>kexit\<close> for the default
  action: that is a result of its own, and what follows a return of \<open>kexit\<close> is not
  modelled, since other processes run in between.

  \<open>free_process\<close> is modelled from the point where it takes the process out of its queue;
  the memory, files and descriptors it releases are not.
\<close>

section \<open>signal.c\<close>

abbreviation (input) SIGHUP :: int where "SIGHUP \<equiv> 1"
abbreviation (input) SIGCHLD :: int where "SIGCHLD \<equiv> 17"
abbreviation (input) SIGTTOU :: int where "SIGTTOU \<equiv> 22"
abbreviation (input) SIG_DFL :: u32 where "SIG_DFL \<equiv> 0"
abbreviation (input) SIG_IGN :: u32 where "SIG_IGN \<equiv> 1"
abbreviation (input) SA_ONESHOT :: u32 where "SA_ONESHOT \<equiv> 0x40000000"
abbreviation (input) SA_NOMASK :: u32 where "SA_NOMASK \<equiv> 0x80000000"

definition upd_sig :: "int \<Rightarrow> (sigact \<Rightarrow> sigact) \<Rightarrow> process \<Rightarrow> process" where
  "upd_sig signal f p = p\<lparr>p_sigaction := (p_sigaction p)[nat signal := f (p_sigaction p ! nat signal)]\<rparr>"

definition ksignal :: "kern \<Rightarrow> int \<Rightarrow> u32 \<Rightarrow> int \<times> kern" where
  "ksignal k signal handler =
     (if signal < SIGHUP \<or> signal > SIGTTOU \<or> signal = int SIGKILL \<or> handler = 0 then (- 1, k)
      else
        let cur = current_process k;
            oldhandler = sa_handler (p_sigaction (procs k cur) ! nat signal)
        in (sint oldhandler,
            upd_proc cur (upd_sig signal (\<lambda>s. s\<lparr>sa_handler := handler, sa_flags := 0,
              sa_mask := SA_ONESHOT OR SA_NOMASK\<rparr>)) k))"

text \<open>\<open>ksigaction (signal, action, old)\<close>: the return value, the new \<open>*old\<close>, the kernel.\<close>

definition ksigaction :: "kern \<Rightarrow> int \<Rightarrow> sigact option \<Rightarrow> sigact option \<Rightarrow> int \<times> sigact option \<times> kern" where
  "ksigaction k signal action old =
     (case (action, old) of
        (Some act, Some _) \<Rightarrow>
          if signal < SIGHUP \<or> signal > SIGTTOU \<or> signal = int SIGKILL then (- 1, old, k)
          else
            let cur = current_process k;
                act = (if sa_flags act AND SA_NOMASK \<noteq> 0 then act\<lparr>sa_mask := 0\<rparr>
                       else act\<lparr>sa_mask := sa_mask act OR push_bit (nat signal) 1\<rparr>)
            in (0, Some (p_sigaction (procs k cur) ! nat signal), upd_proc cur (upd_sig signal (\<lambda>_. act)) k)
      | _ \<Rightarrow> (- 1, old, k))"

definition whichbit :: "u32 \<Rightarrow> int" where
  "whichbit bits = (case first_from (\<lambda>i. bits AND of_nat i \<noteq> 0) 0 32 of Some i \<Rightarrow> int i | None \<Rightarrow> - 1)"

record cpu_ctx =
  c_eip :: u32
  c_esp :: u32

text \<open>
  What \<open>signal_exec\<close> does: return a value, with the kernel, the context and the doubleword
  it stores on the user stack; or call \<open>kexit\<close> with a status.
\<close>

datatype sig_outcome =
    Sig_Return int kern "cpu_ctx option" "(u32 \<times> u32) option"
  | Sig_Kexit u32 kern

definition signal_exec :: "kern \<Rightarrow> u32 \<Rightarrow> cpu_ctx option \<Rightarrow> sig_outcome" where
  "signal_exec k oldmask ctx =
     (let cur = current_process k; signal = whichbit (p_signal (procs k cur) AND NOT oldmask) in
      if signal = 0 then Sig_Return 0 k ctx None
      else case ctx of
        None \<Rightarrow> Sig_Return (- 1) k ctx None
      | Some c \<Rightarrow>
        if signal < SIGHUP \<or> signal > SIGTTOU then Sig_Return (- 1) k ctx None
        else
          let sig = p_sigaction (procs k cur) ! nat signal; handler = sa_handler sig in
          if handler = SIG_IGN then Sig_Return 0 k ctx None
          else if handler = SIG_DFL
          then if signal = SIGCHLD then Sig_Return 0 k ctx None
               else Sig_Kexit (push_bit (nat signal) 1) k
          else
            let k = (if sa_flags sig AND SA_ONESHOT \<noteq> 0
                     then upd_proc cur (upd_sig signal (\<lambda>s. s\<lparr>sa_handler := 0\<rparr>)) k else k);
                k = upd_proc cur (\<lambda>p. p\<lparr>p_blocked := p_blocked p OR sa_mask sig\<rparr>) k
            in Sig_Return 0 k (Some (c\<lparr>c_eip := handler\<rparr>)) (Some (c_esp c - 4, word_of_int signal)))"

section \<open>exit.c\<close>


definition is_super_user :: "kern \<Rightarrow> bool" where
  "is_super_user k \<longleftrightarrow> p_euid (procs k (current_process k)) = 0"

definition raise_signal :: "int \<Rightarrow> process \<Rightarrow> process" where
  "raise_signal signal p = p\<lparr>p_signal := p_signal p OR push_bit (nat signal) 1\<rparr>"

definition dispatch_signal :: "kern \<Rightarrow> int \<Rightarrow> bool \<Rightarrow> ptr \<Rightarrow> int \<times> kern" where
  "dispatch_signal k signal is_root proc =
     (if signal < SIGHUP \<or> signal > SIGTTOU \<or> proc = NULL then (EINVAL, k)
      else if is_root \<or> p_euid (procs k (current_process k)) = p_euid (procs k proc) \<or> is_super_user k
      then (0, upd_proc proc (raise_signal signal) k)
      else (EPERM, k))"

definition terminate_session :: "kern \<Rightarrow> kern option" where
  "terminate_session k = walk_all id
     (\<lambda>k cur. if p_session (procs k cur) = p_session (procs k (current_process k))
              then upd_proc cur (raise_signal SIGHUP) k else k) k"

definition signal_parent :: "kern \<Rightarrow> int \<Rightarrow> kern option" where
  "signal_parent k pid = do {
     proc \<leftarrow> find_process k pid;
     if proc \<noteq> NULL then Some (upd_proc proc (raise_signal SIGCHLD) k) else None
   }"

text \<open>The body of the loop of \<open>kkill\<close> on one process; the second component is \<open>rtvl\<close>.\<close>

definition kill_one :: "int \<Rightarrow> int \<Rightarrow> kern \<times> int \<Rightarrow> ptr \<Rightarrow> kern \<times> int" where
  "kill_one pid signal s cur =
     (let (k, rtvl) = s;
          send = (\<lambda>root. let (error, k') = dispatch_signal k signal root cur in
                         (k', if error \<noteq> 0 then error else rtvl));
          p = procs k cur
      in if pid = 0 \<and> p_pgrp p = p_pid (procs k (current_process k)) then send True
         else if pid > 0 \<and> p_pid p = pid then send False
         else if pid = - 1 then send False
         else if p_pgrp p = - pid then send False
         else s)"

definition kkill :: "kern \<Rightarrow> int \<Rightarrow> int \<Rightarrow> (int \<times> kern) option" where
  "kkill k pid signal = do {
     (k, rtvl) \<leftarrow> walk_all fst (kill_one pid signal) (k, 0);
     Some (rtvl, k)
   }"

text \<open>\<open>kexit\<close> up to and including its call of \<open>schedule\<close>; it returns 0 early without an init process.\<close>

definition reparent :: "kern \<Rightarrow> ptr \<Rightarrow> kern" where
  "reparent k cur =
     (if p_parent (procs k cur) = p_pid (procs k (current_process k))
      then
        let k = upd_proc cur (\<lambda>p. p\<lparr>p_parent := 1\<rparr>) k in
        if p_state (procs k cur) = P_ZOMBIE then snd (dispatch_signal k SIGCHLD True cur) else k
      else k)"

definition kexit :: "u32 \<Rightarrow> u32 \<Rightarrow> kern \<Rightarrow> int \<Rightarrow> (int \<times> switch option \<times> kern) option" where
  "kexit kstart now k exit_code = do {
     init \<leftarrow> find_init k;
     if init = NULL then Some (0, None, k)
     else do {
       k \<leftarrow> walk_all id reparent k;
       k \<leftarrow> (if p_leader (procs k (current_process k)) \<noteq> 0 then terminate_session k else Some k);
       let k = upd_proc (current_process k) (\<lambda>p. p\<lparr>p_exit_code := exit_code\<rparr>) k;
       k \<leftarrow> signal_parent k (p_parent (procs k (current_process k)));
       (sw, k) \<leftarrow> schedule kstart now k;
       Some (- 1, sw, k)
     }
   }"

definition unlink_process :: "kern \<Rightarrow> ptr \<Rightarrow> kern option" where
  "unlink_process k proc =
     (let pr = p_priority (procs k proc) in
      if pr < 0 \<or> pr \<ge> int Nr_PRIORITY then None
      else
        let k = (if process_tab k pr = proc then set_tab pr (nxt k proc) k else k);
            k = (if nxt k proc \<noteq> NULL then set_prev (nxt k proc) (prv k proc) k else k);
            k = (if prv k proc \<noteq> NULL then set_next (prv k proc) (nxt k proc) k else k)
        in Some k)"

section \<open>misc.c\<close>

definition upd_cur :: "(process \<Rightarrow> process) \<Rightarrow> kern \<Rightarrow> kern" where
  "upd_cur f k = upd_proc (current_process k) f k"

definition ksetregid :: "kern \<Rightarrow> u32 \<Rightarrow> u32 \<Rightarrow> int \<times> kern" where
  "ksetregid k rgid egid =
     (let p = procs k (current_process k); su = is_super_user k in
      if rgid > 0 \<and> \<not> (ucast (p_gid p) = rgid \<or> su) then (EPERM, k)
      else
        let k = (if rgid > 0 then upd_cur (\<lambda>p. p\<lparr>p_gid := ucast rgid\<rparr>) k else k);
            p = procs k (current_process k)
        in if egid > 0
           then if ucast (p_gid p) = egid \<or> ucast (p_egid p) = egid \<or> ucast (p_sgid p) = egid \<or> su
                then (0, upd_cur (\<lambda>p. p\<lparr>p_egid := ucast egid\<rparr>) k)
                else (EPERM, k)
           else (0, k))"

definition ksetreuid :: "kern \<Rightarrow> u32 \<Rightarrow> u32 \<Rightarrow> int \<times> kern" where
  "ksetreuid k ruid euid =
     (let p = procs k (current_process k); old = p_uid p; su = is_super_user k in
      if ruid > 0 \<and> \<not> (ucast (p_euid p) = ruid \<or> ucast old = ruid \<or> su) then (EPERM, k)
      else
        let k = (if ruid > 0 then upd_cur (\<lambda>p. p\<lparr>p_uid := ucast ruid\<rparr>) k else k) in
        if euid > 0
        then if ucast old = euid \<or> ucast (p_euid p) = euid \<or> su
             then (0, upd_cur (\<lambda>p. p\<lparr>p_euid := ucast euid\<rparr>) k)
             else (0, upd_cur (\<lambda>p. p\<lparr>p_uid := old\<rparr>) k)
        else (0, k))"

definition kgetpid :: "kern \<Rightarrow> int" where "kgetpid k = p_pid (procs k (current_process k))"
definition kgetppid :: "kern \<Rightarrow> int" where "kgetppid k = p_parent (procs k (current_process k))"
definition kgetuid :: "kern \<Rightarrow> int" where "kgetuid k = uint (p_uid (procs k (current_process k)))"
definition kgeteuid :: "kern \<Rightarrow> int" where "kgeteuid k = uint (p_euid (procs k (current_process k)))"
definition kgetgid :: "kern \<Rightarrow> int" where "kgetgid k = uint (p_gid (procs k (current_process k)))"
definition kgetegid :: "kern \<Rightarrow> int" where "kgetegid k = uint (p_egid (procs k (current_process k)))"

section \<open>kkill\<close>

lemma tab_okD: "tab_ok k Q \<Longrightarrow> valid_pr pr \<Longrightarrow> queue_at k pr (Q pr)"
  by (simp add: tab_ok_def)

text \<open>Which processes \<open>kkill\<close> addresses, and which of them it may signal.\<close>

definition kill_target :: "kern \<Rightarrow> int \<Rightarrow> ptr \<Rightarrow> bool" where
  "kill_target k pid p \<longleftrightarrow> (pid = 0 \<and> p_pgrp (procs k p) = p_pid (procs k (current_process k))) \<or>
     (pid > 0 \<and> p_pid (procs k p) = pid) \<or> pid = - 1 \<or> p_pgrp (procs k p) = - pid"

definition kill_allowed :: "kern \<Rightarrow> int \<Rightarrow> ptr \<Rightarrow> bool" where
  "kill_allowed k pid p \<longleftrightarrow> (pid = 0 \<and> p_pgrp (procs k p) = p_pid (procs k (current_process k))) \<or>
     p_euid (procs k (current_process k)) = p_euid (procs k p) \<or> is_super_user k"

text \<open>What \<open>kkill\<close> reads of the kernel: everything but the pending signals.\<close>

definition same_ids :: "kern \<Rightarrow> kern \<Rightarrow> bool" where
  "same_ids k k' \<longleftrightarrow> current_process k' = current_process k \<and> process_tab k' = process_tab k \<and>
     process_size_tab k' = process_size_tab k \<and>
     (\<forall>p. (procs k' p)\<lparr>p_signal := 0\<rparr> = (procs k p)\<lparr>p_signal := 0\<rparr>)"

lemma same_ids_fields:
  assumes "same_ids k k'"
  shows "p_pgrp (procs k' p) = p_pgrp (procs k p)" "p_pid (procs k' p) = p_pid (procs k p)"
    "p_euid (procs k' p) = p_euid (procs k p)" "p_priority (procs k' p) = p_priority (procs k p)"
    "nxt k' p = nxt k p" "prv k' p = prv k p"
proof -
  have eq: "(procs k' p)\<lparr>p_signal := 0\<rparr> = (procs k p)\<lparr>p_signal := 0\<rparr>" using assms by (simp add: same_ids_def)
  from arg_cong [OF eq, of p_pgrp] arg_cong [OF eq, of p_pid] arg_cong [OF eq, of p_euid]
    arg_cong [OF eq, of p_priority] arg_cong [OF eq, of p_next] arg_cong [OF eq, of p_prev]
  show "p_pgrp (procs k' p) = p_pgrp (procs k p)" "p_pid (procs k' p) = p_pid (procs k p)"
    "p_euid (procs k' p) = p_euid (procs k p)" "p_priority (procs k' p) = p_priority (procs k p)"
    "nxt k' p = nxt k p" "prv k' p = prv k p" by simp_all
qed

lemma same_ids_kill:
  assumes "same_ids k k'"
  shows "kill_target k' pid p = kill_target k pid p" "kill_allowed k' pid p = kill_allowed k pid p"
  using same_ids_fields [OF assms] assms
  by (simp_all add: kill_target_def kill_allowed_def is_super_user_def same_ids_def)

lemma same_ids_raise: "same_ids k k' \<Longrightarrow> same_ids k (upd_proc p (raise_signal sg) k')"
  by (auto simp: same_ids_def upd_proc_def raise_signal_def)

lemma kill_one_eq:
  assumes "1 \<le> sg" "sg \<le> 22" "p \<noteq> NULL"
  shows "kill_one pid sg (k, r) p =
    (if kill_target k pid p then if kill_allowed k pid p then (upd_proc p (raise_signal sg) k, r) else (k, EPERM)
     else (k, r))"
  using assms
  by (simp add: kill_one_def Let_def kill_target_def kill_allowed_def dispatch_signal_def)

lemma fold_kill_one:
  assumes sg: "1 \<le> sg" "sg \<le> 22" and "NULL \<notin> set ps" "distinct ps" "same_ids k0 k"
  shows "\<exists>k' r'. fold (\<lambda>p s. kill_one pid sg s p) ps (k, r) = (k', r') \<and> same_ids k0 k' \<and>
    (\<forall>p. p_signal (procs k' p) = (if p \<in> set ps \<and> kill_target k0 pid p \<and> kill_allowed k0 pid p
       then p_signal (procs k p) OR push_bit (nat sg) 1 else p_signal (procs k p))) \<and>
    r' = (if \<exists>p \<in> set ps. kill_target k0 pid p \<and> \<not> kill_allowed k0 pid p then EPERM else r)"
  using assms(3-)
proof (induction ps arbitrary: k r)
  case (Cons p ps)
  define k1 r1 where "k1 = (if kill_target k0 pid p \<and> kill_allowed k0 pid p then upd_proc p (raise_signal sg) k else k)"
    and "r1 = (if kill_target k0 pid p \<and> \<not> kill_allowed k0 pid p then EPERM else r)"
  have "kill_one pid sg (k, r) p = (k1, r1)"
    using kill_one_eq [OF sg, of p pid k r] Cons.prems same_ids_kill [OF Cons.prems(3)]
    by (simp add: k1_def r1_def)
  moreover have ids: "same_ids k0 k1" using Cons.prems(3) same_ids_raise by (simp add: k1_def)
  moreover obtain k' r' where IH: "fold (\<lambda>p s. kill_one pid sg s p) ps (k1, r1) = (k', r')" "same_ids k0 k'"
    "\<forall>p. p_signal (procs k' p) = (if p \<in> set ps \<and> kill_target k0 pid p \<and> kill_allowed k0 pid p
       then p_signal (procs k1 p) OR push_bit (nat sg) 1 else p_signal (procs k1 p))"
    "r' = (if \<exists>p \<in> set ps. kill_target k0 pid p \<and> \<not> kill_allowed k0 pid p then EPERM else r1)"
  proof -
    have "NULL \<notin> set ps" "distinct ps" using Cons.prems by simp_all
    from Cons.IH [OF this ids, of r1] that show thesis by blast
  qed
  moreover have "p_signal (procs k1 q) = (if q = p \<and> kill_target k0 pid p \<and> kill_allowed k0 pid p
      then p_signal (procs k q) OR push_bit (nat sg) 1 else p_signal (procs k q))" for q
    by (simp add: k1_def upd_proc_def raise_signal_def)
  ultimately show ?case
    using Cons.prems(2) by (auto simp: r1_def)
qed (auto simp: same_ids_def)

section \<open>Properties\<close>

text \<open>
  C34: \<open>kkill\<close> sets the signal in exactly the queued processes it addresses and may signal:
  it terminates, no other process gets the signal, it returns EPERM exactly if an
  addressed process was not allowed, and the queues stay as they are.
\<close>

theorem kkill_signals_exactly:
  assumes "tab_ok k Q" "1 \<le> sg" "sg \<le> 22"
  shows "\<exists>k' r. kkill k pid sg = Some (r, k') \<and> tab_ok k' Q \<and>
    (\<forall>p. p_signal (procs k' p) =
       (if p \<in> set (all_procs Q) \<and> kill_target k pid p \<and> kill_allowed k pid p
        then p_signal (procs k p) OR push_bit (nat sg) 1 else p_signal (procs k p))) \<and>
    r = (if \<exists>p \<in> set (all_procs Q). kill_target k pid p \<and> \<not> kill_allowed k pid p then EPERM else 0)"
proof -
  note props = all_procs_props [OF assms(1)]
  have links: "same_links (fst s) (fst (kill_one pid sg s p))" for s p
    by (auto simp: kill_one_def dispatch_signal_def Let_def raise_signal_def split: prod.split)
  have "same_ids k k" by (simp add: same_ids_def)
  from fold_kill_one [OF assms(2,3) props(2,1) this, of pid 0] obtain k' r where
    f: "fold (\<lambda>p s. kill_one pid sg s p) (all_procs Q) (k, 0) = (k', r)" and ids: "same_ids k k'"
    and res: "\<forall>p. p_signal (procs k' p) = (if p \<in> set (all_procs Q) \<and> kill_target k pid p \<and> kill_allowed k pid p
       then p_signal (procs k p) OR push_bit (nat sg) 1 else p_signal (procs k p))"
      "r = (if \<exists>p \<in> set (all_procs Q). kill_target k pid p \<and> \<not> kill_allowed k pid p then EPERM else 0)"
    by blast
  have "walk_all fst (kill_one pid sg) (k, 0) = Some (k', r)"
    using walk_all_fold [where getk = fst and act = "kill_one pid sg", OF links assms(1), of "(k, 0)"] f by simp
  then have "kkill k pid sg = Some (r, k')" by (simp add: kkill_def)
  moreover have "tab_ok k' Q"
    using ids same_ids_fields [OF ids] by (intro same_links_tab_ok [OF assms(1)]) (simp_all add: same_ids_def)
  ultimately show ?thesis using res by blast
qed

theorem kkill_signals_exactly_witness:
  "\<exists>k' r. kkill demo_kern 2 15 = Some (r, k') \<and> bit (p_signal (procs k' 0x2000)) 15 \<and>
     p_signal (procs k' 0x1000) = 0"
proof -
  have "kill_target demo_kern 2 0x2000" "kill_allowed demo_kern 2 0x2000" "\<not> kill_target demo_kern 2 0x1000"
    "p_signal (procs demo_kern p) = 0" for p
    by (simp_all add: kill_target_def kill_allowed_def is_super_user_def demo_kern_def demo_proc_def blank_process_def)
  with kkill_signals_exactly [OF demo_kern_ok, of 15 2] show ?thesis
    unfolding demo_all_procs by (fastforce simp: bit_simps)
qed

text \<open>
  \<open>whichbit\<close> tests the number of the bit instead of the bit, so a pending signal from
  number 5 up is never found: if no smaller signal is pending, \<open>signal_exec\<close> returns -1
  and neither runs a handler nor exits, SIGKILL and SIGTERM included.
\<close>

theorem high_signals_undelivered:
  assumes "\<forall>i < 5. \<not> bit (p_signal (procs k (current_process k)) AND NOT oldmask) i"
  shows "signal_exec k oldmask (Some c) = Sig_Return (- 1) k (Some c) None"
proof -
  let ?b = "p_signal (procs k (current_process k)) AND NOT oldmask"
  have "?b AND of_nat i = 0" if "i < 32" for i
  proof (rule bit_word_eqI)
    fix n assume "n < LENGTH(32)"
    have "\<not> bit (of_nat i :: u32) n" if "5 \<le> n"
    proof -
      have "(2 :: nat) ^ 5 \<le> 2 ^ n" using that by (rule power_increasing) simp
      then have "i < 2 ^ n" using \<open>i < 32\<close> by simp
      then have "\<not> bit i n" by (simp add: bit_iff_odd)
      then show ?thesis by (auto simp: bit_simps)
    qed
    then show "bit (?b AND of_nat i) n \<longleftrightarrow> bit 0 n" using assms by (cases "n < 5") (auto simp: bit_and_iff)
  qed
  then have "whichbit ?b = - 1" by (simp add: whichbit_def first_from_None_iff split: option.split)
  then show ?thesis by (simp add: signal_exec_def Let_def)
qed

theorem high_signals_undelivered_witness:
  "signal_exec (upd_proc 0x1000 (raise_signal 15) demo_kern) 0 (Some \<lparr>c_eip = 7, c_esp = 99\<rparr>) =
     Sig_Return (- 1) (upd_proc 0x1000 (raise_signal 15) demo_kern) (Some \<lparr>c_eip = 7, c_esp = 99\<rparr>) None"
proof (rule high_signals_undelivered)
  have "p_signal (procs (upd_proc 0x1000 (raise_signal 15) demo_kern) 0x1000) = push_bit 15 1"
    by (simp add: upd_proc_def raise_signal_def demo_kern_def demo_proc_def blank_process_def)
  then show "\<forall>i < 5. \<not> bit (p_signal (procs (upd_proc 0x1000 (raise_signal 15) demo_kern)
      (current_process (upd_proc 0x1000 (raise_signal 15) demo_kern))) AND NOT 0) i"
    by (auto simp: demo_kern_fields less_Suc_eq numeral_eq_Suc)
qed

text \<open>
  C35: A process that is not the super user cannot gain a user identity through
  \<open>ksetreuid\<close>: whatever it asks for, its real and effective user ids are afterwards
  among the two it had, and no other process changes.
\<close>

theorem ksetreuid_no_gain:
  assumes "\<not> is_super_user k" "ksetreuid k ruid euid = (r, k')"
  shows "current_process k' = current_process k \<and>
    {p_uid (procs k' (current_process k)), p_euid (procs k' (current_process k))} \<subseteq>
      {p_uid (procs k (current_process k)), p_euid (procs k (current_process k))} \<and>
    (\<forall>q. q \<noteq> current_process k \<longrightarrow> procs k' q = procs k q)"
proof -
  have trunc: "ucast (ucast x :: u32) = x" for x :: u16
    by (rule bit_word_eqI) (auto simp: bit_simps)
  show ?thesis
    using assms by (auto simp: ksetreuid_def Let_def upd_cur_def upd_proc_def trunc split: if_splits)
qed

theorem ksetreuid_no_gain_witness:
  "\<not> is_super_user (upd_proc 0x1000 (\<lambda>p. p\<lparr>p_uid := 7, p_euid := 8\<rparr>) demo_kern) \<and>
   p_euid (procs (snd (ksetreuid (upd_proc 0x1000 (\<lambda>p. p\<lparr>p_uid := 7, p_euid := 8\<rparr>) demo_kern) 0 1)) 0x1000) \<noteq> 0"
proof -
  let ?k = "upd_proc 0x1000 (\<lambda>p. p\<lparr>p_uid := 7, p_euid := 8\<rparr>) demo_kern"
  have su: "\<not> is_super_user ?k" by (simp add: is_super_user_def demo_kern_fields upd_proc_def)
  obtain r k' where k': "ksetreuid ?k 0 1 = (r, k')" by (cases "ksetreuid ?k 0 1")
  from ksetreuid_no_gain [OF su k'] k' su show ?thesis
    by (auto simp: demo_kern_fields upd_proc_def)
qed

text \<open>
  The unlinking in \<open>free_process\<close> is wrong for the last process of a queue: the table
  still points to the freed process, and the size of the queue stays 1.
\<close>

theorem unlink_last_dangles:
  assumes "queue_at k pr [p]" "valid_pr pr"
  shows "\<exists>k'. unlink_process k p = Some k' \<and> process_tab k' pr = p \<and> process_size_tab k' pr = 1"
  using assms
  by (simp add: queue_at_def ring_def unlink_process_def Let_def valid_pr_def)

theorem unlink_last_dangles_witness:
  "\<exists>k1 k2. queue_insert_p empty_kern 0x300000 5 = Some k1 \<and> unlink_process k1 0x300000 = Some k2 \<and>
     process_tab k2 5 = 0x300000"
proof -
  obtain k1 where "queue_insert_p empty_kern 0x300000 5 = Some k1" "tab_ok k1 ((\<lambda>pr. [])(5 := [0x300000]))"
    using queue_insert_p_ok [OF empty_kern_ok, of 5 "0x300000"] by (auto simp: valid_pr_def)
  moreover from this have "queue_at k1 5 [0x300000]" using tab_okD [of k1 _ 5] by (fastforce simp: valid_pr_def)
  ultimately show ?thesis using unlink_last_dangles [of k1 5 "0x300000"] by (auto simp: valid_pr_def)
qed

end
