(* ===== verification/Conversions.thy ===== *)
theory Conversions
  imports OX_Prelude "HOL-Library.Monad_Syntax"
begin

text \<open>
  Numbers and their text (\<open>libk/ultostr.c\<close>, \<open>libk/strtoul.c\<close>, the macros of
  \<open>include/ox/lib/ctype.h\<close>). The buffer a conversion writes is the list of the characters before the
  NUL it stores; the C function returns its length. The text a conversion reads is the list of the
  characters before the NUL, and what is left of it is the list at \<open>*endptr\<close>. \<open>long\<close>, \<open>int\<close> and
  \<open>unsigned long\<close> have 32 bits; \<open>None\<close> is a loop that does not end (base 1).
\<close>

section \<open>Classes of characters\<close>

text \<open>\<open>char\<close> is signed.\<close>

definition c_between :: "int \<Rightarrow> int \<Rightarrow> u8 \<Rightarrow> bool" where
  "c_between lo hi c \<longleftrightarrow> lo \<le> sint c \<and> sint c \<le> hi"

definition isdigit :: "u8 \<Rightarrow> bool" where "isdigit = c_between 0x30 0x39"

definition islower :: "u8 \<Rightarrow> bool" where "islower = c_between 0x61 0x7a"

definition isupper :: "u8 \<Rightarrow> bool" where "isupper = c_between 0x41 0x5a"

definition isalpha :: "u8 \<Rightarrow> bool" where "isalpha c \<longleftrightarrow> isupper c \<or> islower c"

definition isxdigit :: "u8 \<Rightarrow> bool" where
  "isxdigit c \<longleftrightarrow> isdigit c \<or> c_between 0x41 0x46 c \<or> c_between 0x61 0x66 c"

definition tolower :: "u8 \<Rightarrow> u8" where "tolower c = (if isupper c then c + 0x20 else c)"

lemmas ctype_defs = c_between_def isdigit_def islower_def isupper_def isalpha_def isxdigit_def tolower_def

section \<open>From numbers to text\<close>

abbreviation "BIN \<equiv> 2 :: u32"
abbreviation "OCT \<equiv> 8 :: u32"
abbreviation "DEC \<equiv> 10 :: u32"
abbreviation "HEX \<equiv> 16 :: u32"

definition digit_char :: "u32 \<Rightarrow> u32 \<Rightarrow> u8" where
  "digit_char val base =
     (let tmp = ucast (val mod base) :: u8 in if 0xA \<le> sint tmp then tmp - 0xA + 0x41 else tmp + 0x30)"

text \<open>The loop that fills \<open>tbuf\<close>, lowest digit first.\<close>

partial_function (option) ultostr_loop :: "u32 \<Rightarrow> u32 \<Rightarrow> bytes \<Rightarrow> bytes option" where
  "ultostr_loop base val tbuf =
     (if val \<noteq> 0 then ultostr_loop base (val div base) (tbuf @ [digit_char val base]) else Some tbuf)"

definition ultostr :: "u32 \<Rightarrow> u32 \<Rightarrow> bytes option" where
  "ultostr val base =
     (let base = if base = 0 then DEC else base;
          t = if base = OCT then [0x30] else if base = HEX then [0x30, 0x78] else [] in
      if val = 0 then Some (t @ [0x30])
      else do { tbuf \<leftarrow> ultostr_loop base val []; Some (t @ rev tbuf) })"

definition ltostr :: "u32 \<Rightarrow> u32 \<Rightarrow> bytes option" where
  "ltostr val base =
     (if sint val < 0 \<and> (base = DEC \<or> base = 0) then do { t \<leftarrow> ultostr (- val) DEC; Some (0x2D # t) }
      else ultostr val base)"

definition itoa :: "u32 \<Rightarrow> bytes option" where
  "itoa val = ltostr val DEC"

section \<open>From text to numbers\<close>

fun strtoul_loop :: "u32 \<Rightarrow> u32 \<Rightarrow> bytes \<Rightarrow> u32 \<times> bytes" where
  "strtoul_loop base res [] = (res, [])"
| "strtoul_loop base res (c # s) =
     (if isdigit c then strtoul_loop base (res * base + ucast (c - 0x30)) s
      else if islower c \<and> c_between 0x61 0x66 c then strtoul_loop base (res * base + ucast (c - 0x61 + 10)) s
      else if isupper c \<and> c_between 0x41 0x46 c then strtoul_loop base (res * base + ucast (c - 0x41 + 10)) s
      else if c = 0x30 \<or> c = 0x78 then strtoul_loop base res s
      else (res, c # s))"

text \<open>With base 0 the prefix decides: \<open>0x\<close> before a hexadecimal digit, then \<open>0\<close>, then decimal.\<close>

definition guess_base :: "bytes \<Rightarrow> u32 \<times> bytes" where
  "guess_base s =
     (case s of
        c # s1 \<Rightarrow>
          if c = 0x30
          then (case s1 of d # e # s2 \<Rightarrow> if d = 0x78 \<and> isxdigit e then (HEX, e # s2) else (OCT, s1) | _ \<Rightarrow> (OCT, s1))
          else (DEC, s)
      | [] \<Rightarrow> (DEC, s))"

definition strtoul :: "bytes \<Rightarrow> u32 \<Rightarrow> u32 \<times> bytes" where
  "strtoul s base =
     (let (base, s) = if base = 0 then guess_base s else (base, s) in strtoul_loop base 0 s)"

definition strtol :: "bytes \<Rightarrow> u32 \<Rightarrow> u32 \<times> bytes" where
  "strtol s base =
     (case s of
        c # t \<Rightarrow> if c = 0x2D then (let (r, e) = strtoul t base in (- r, e)) else strtoul s base
      | [] \<Rightarrow> strtoul s base)"

definition atoi :: "bytes \<Rightarrow> u32" where
  "atoi s = fst (strtol s DEC)"

section \<open>Digits\<close>

text \<open>The character of a digit.\<close>

definition dchar :: "nat \<Rightarrow> u8" where
  "dchar d = (if d < 10 then of_nat (0x30 + d) else of_nat (0x37 + d))"

lemma below_16_cases:
  fixes d :: nat
  assumes "d < 16" "P 0" "P 1" "P 2" "P 3" "P 4" "P 5" "P 6" "P 7" "P 8" "P 9" "P 10" "P 11" "P 12" "P 13" "P 14" "P 15"
  shows "P d"
proof -
  have "d = 0 \<or> d = 1 \<or> d = 2 \<or> d = 3 \<or> d = 4 \<or> d = 5 \<or> d = 6 \<or> d = 7 \<or> d = 8 \<or> d = 9 \<or> d = 10 \<or> d = 11 \<or>
      d = 12 \<or> d = 13 \<or> d = 14 \<or> d = 15"
    using assms(1) by presburger
  then show ?thesis using assms(2-) by (elim disjE) simp_all
qed

lemma digit_char_dchar:
  assumes "2 \<le> base" "base \<le> HEX"
  shows "digit_char val base = dchar (unat (val mod base))" "unat (val mod base) < 16"
proof -
  have lt: "unat (val mod base) < unat base" using assms by (auto simp: unat_mod_distrib word_le_nat_alt)
  show lt16: "unat (val mod base) < 16" using lt assms(2) by (simp add: word_le_nat_alt)
  have "digit_char val base =
      (let tmp = of_nat (unat (val mod base)) in if 0xA \<le> sint (tmp :: u8) then tmp - 0xA + 0x41 else tmp + 0x30)"
    by (simp add: digit_char_def unsigned_ucast_eq)
  also have "\<dots> = dchar (unat (val mod base))"
    by (rule below_16_cases [OF lt16]) (simp_all add: dchar_def)
  finally show "digit_char val base = dchar (unat (val mod base))" .
qed

lemma dchar_xdigit: "d < 16 \<Longrightarrow> isxdigit (dchar d)"
  by (erule below_16_cases) (simp_all add: dchar_def ctype_defs)

lemma dchar_not: "d < 16 \<Longrightarrow> dchar d \<noteq> 0 \<and> dchar d \<noteq> 0x2D \<and> dchar d \<noteq> 0x78"
  by (erule below_16_cases) (simp_all add: dchar_def)

lemma dchar_0: "d < 16 \<Longrightarrow> dchar d = 0x30 \<longleftrightarrow> d = 0"
  by (erule below_16_cases) (simp_all add: dchar_def)

lemma strtoul_loop_dchar:
  "d < 16 \<Longrightarrow> strtoul_loop base res (dchar d # s) = strtoul_loop base (res * base + of_nat d) s"
  by (erule below_16_cases) (simp_all add: dchar_def ctype_defs)

text \<open>The number a list of digits stands for, highest digit first.\<close>

definition number :: "u32 \<Rightarrow> u32 \<Rightarrow> nat list \<Rightarrow> u32" where
  "number base = foldl (\<lambda>r d. r * base + of_nat d)"

lemma strtoul_loop_number:
  "\<forall>d \<in> set ds. d < 16 \<Longrightarrow> strtoul_loop base res (map dchar ds @ s) = strtoul_loop base (number base res ds) s"
proof (induction ds arbitrary: res)
  case (Cons d ds)
  then show ?case by (simp add: strtoul_loop_dchar number_def del: strtoul_loop.simps(2))
qed (simp add: number_def)

text \<open>
  What the loop of \<open>ultostr\<close> leaves in \<open>tbuf\<close>: the digits of the number, without a leading zero.
\<close>

lemma ultostr_loop_digits:
  assumes b: "2 \<le> base" "base \<le> HEX"
  shows "unat val < unat base ^ k \<Longrightarrow> \<exists>ds. ultostr_loop base val t = Some (t @ map dchar (rev ds)) \<and>
    (\<forall>d \<in> set ds. d < 16) \<and> number base 0 ds = val \<and> length ds \<le> k \<and> (if val = 0 then ds = [] else ds \<noteq> [] \<and> hd ds \<noteq> 0)"
proof (induction k arbitrary: val t)
  case 0
  then have "val = 0" by (simp add: unat_eq_zero)
  then show ?case by (intro exI [of _ "[]"]) (simp add: ultostr_loop.simps number_def)
next
  case (Suc k)
  show ?case
  proof (cases "val = 0")
    case True
    then show ?thesis by (intro exI [of _ "[]"]) (simp add: ultostr_loop.simps number_def)
  next
    case False
    let ?d = "unat (val mod base)"
    have pos: "0 < unat base" using b by (auto simp: word_le_nat_alt)
    have "unat (val div base) < unat base ^ k"
      using Suc.prems pos by (simp add: unat_div_distrib less_mult_imp_div_less mult.commute)
    from Suc.IH [OF this, of "t @ [digit_char val base]"] obtain ds where
      ds: "ultostr_loop base (val div base) (t @ [digit_char val base]) = Some ((t @ [digit_char val base]) @ map dchar (rev ds))"
        "\<forall>d \<in> set ds. d < 16" "number base 0 ds = val div base" "length ds \<le> k"
        "if val div base = 0 then ds = [] else ds \<noteq> [] \<and> hd ds \<noteq> 0" by blast
    have nz: "?d \<noteq> 0" if "val div base = 0"
      using that False word_mod_div_equality [of val base] by (auto simp: unat_eq_zero)
    show ?thesis
    proof (intro exI [of _ "ds @ [?d]"] conjI impI)
      show "ultostr_loop base val t = Some (t @ map dchar (rev (ds @ [?d])))"
        using ds(1) False digit_char_dchar(1) [OF b] by (subst ultostr_loop.simps) simp
      show "\<forall>d \<in> set (ds @ [?d]). d < 16" using ds(2) digit_char_dchar(2) [OF b] by auto
      show "number base 0 (ds @ [?d]) = val"
        using ds(3) word_mod_div_equality [of val base] by (simp add: number_def)
      show "if val = 0 then ds @ [?d] = [] else ds @ [?d] \<noteq> [] \<and> hd (ds @ [?d]) \<noteq> 0"
        using ds(5) nz False by (cases ds) (auto split: if_splits)
    qed (use ds(4) in simp_all)
  qed
qed

section \<open>Round trips\<close>

definition prefix_of :: "u32 \<Rightarrow> bytes" where
  "prefix_of base = (if base = OCT then [0x30] else if base = HEX then [0x30, 0x78] else [])"

lemma ultostr_digits:
  assumes b: "2 \<le> base" "base \<le> HEX" and k: "unat val < unat base ^ k" "0 < k"
  obtains ds where "ultostr val base = Some (prefix_of base @ map dchar ds)" "\<forall>d \<in> set ds. d < 16"
    "number base 0 ds = val" "length ds \<le> k" "ds \<noteq> []" "hd ds = 0 \<longrightarrow> ds = [0]"
proof (cases "val = 0")
  case True
  have "ultostr val base = Some (prefix_of base @ map dchar [0])"
    using b True by (auto simp: ultostr_def prefix_of_def dchar_def Let_def)
  then show thesis using True k by (intro that [of "[0]"]) (auto simp: number_def)
next
  case False
  obtain ds where ds: "ultostr_loop base val [] = Some (map dchar (rev ds))"
      "\<forall>d \<in> set ds. d < 16" "number base 0 ds = val" "length ds \<le> k" "ds \<noteq> []" "hd ds \<noteq> 0"
    using ultostr_loop_digits [OF b k(1), of "[]"] False by auto
  have "ultostr val base = Some (prefix_of base @ map dchar ds)"
    using ds(1) False b by (auto simp: ultostr_def prefix_of_def Let_def rev_map)
  then show thesis using ds by (intro that [of ds]) auto
qed

lemma strtoul_loop_prefix: "strtoul_loop base 0 (prefix_of b @ s) = strtoul_loop base 0 s"
  by (simp add: prefix_of_def ctype_defs)

lemma guess_base_back:
  assumes "ds \<noteq> []" "\<forall>d \<in> set ds. d < 16" "hd ds = 0 \<longrightarrow> ds = [0]" "base \<in> {OCT, DEC, HEX}"
    "number base 0 ds = val"
  shows "(case guess_base (prefix_of base @ map dchar ds) of (b, s) \<Rightarrow> strtoul_loop b 0 s) = (val, [])"
proof -
  obtain d ds' where [simp]: "ds = d # ds'" using assms(1) by (cases ds) auto
  have d: "d < 16" using assms(2) by simp
  note all = strtoul_loop_number [OF assms(2), of _ 0 "[]", simplified append_Nil2]
  consider "base = OCT" | "base = HEX" | "base = DEC" "d = 0" | "base = DEC" "d \<noteq> 0" using assms(4) by auto
  then show ?thesis
  proof cases
    case 1
    have "guess_base (prefix_of base @ map dchar ds) = (OCT, map dchar ds)"
      using 1 dchar_not [OF d] by (simp add: guess_base_def prefix_of_def split: list.split)
    then show ?thesis using all [of OCT] 1 assms(5) by simp
  next
    case 2
    have "guess_base (prefix_of base @ map dchar ds) = (HEX, map dchar ds)"
      using 2 dchar_xdigit [OF d] by (simp add: guess_base_def prefix_of_def)
    then show ?thesis using all [of HEX] 2 assms(5) by simp
  next
    case 3
    then have "ds' = []" "val = 0" using assms(3,5) by (auto simp: number_def)
    then show ?thesis using 3 by (simp add: guess_base_def prefix_of_def dchar_def)
  next
    case 4
    have "guess_base (prefix_of base @ map dchar ds) = (DEC, map dchar ds)"
      using 4 dchar_0 [OF d] by (simp add: guess_base_def prefix_of_def)
    then show ?thesis using all [of DEC] 4 assms(5) by simp
  qed
qed

lemma base_power: "base \<in> {OCT, DEC, HEX} \<Longrightarrow> unat (val :: u32) < unat base ^ 11"
  using less_trans [OF unat_lt_word32 [of val]] by auto

lemma ultostr_back:
  assumes "base \<in> {OCT, DEC, HEX}"
  obtains ds where "ultostr val base = Some (prefix_of base @ map dchar ds)" "ds \<noteq> []" "\<forall>d \<in> set ds. d < 16"
    "length ds \<le> 11" "strtoul (prefix_of base @ map dchar ds) base = (val, [])"
    "strtoul (prefix_of base @ map dchar ds) 0 = (val, [])"
proof -
  have b: "2 \<le> base" "base \<le> HEX" using assms by auto
  obtain ds where ds: "ultostr val base = Some (prefix_of base @ map dchar ds)" "\<forall>d \<in> set ds. d < 16"
    "number base 0 ds = val" "length ds \<le> 11" "ds \<noteq> []" "hd ds = 0 \<longrightarrow> ds = [0]"
    by (rule ultostr_digits [OF b base_power [OF assms]]) simp
  show thesis
  proof (rule that [OF ds(1,5,2,4)])
    show "strtoul (prefix_of base @ map dchar ds) base = (val, [])"
      using b strtoul_loop_number [OF ds(2), of base 0 "[]"] ds(3) strtoul_loop_prefix [of base base "map dchar ds"]
      by (auto simp: strtoul_def)
    show "strtoul (prefix_of base @ map dchar ds) 0 = (val, [])"
      using guess_base_back [OF ds(5,2,6) assms ds(3)] by (simp add: strtoul_def case_prod_unfold Let_def)
  qed
qed

text \<open>
  C38: \<open>strtoul\<close> reads back every number \<open>ultostr\<close> writes in base 8, 10 or 16, in that base or when it is
  left to find the base itself, and reads all of the text; the text has at most 13 characters, and the
  digits fit the 13 bytes of \<open>tbuf\<close>.
\<close>

theorem strtoul_ultostr:
  assumes "base \<in> {OCT, DEC, HEX}"
  shows "\<exists>s. ultostr val base = Some s \<and> length s \<le> 13 \<and> strtoul s base = (val, []) \<and> strtoul s 0 = (val, []) \<and>
    (\<exists>tbuf. ultostr_loop base val [] = Some tbuf \<and> length tbuf \<le> 13)"
proof -
  obtain ds where ds: "ultostr val base = Some (prefix_of base @ map dchar ds)"
    "length ds \<le> 11" "strtoul (prefix_of base @ map dchar ds) base = (val, [])"
    "strtoul (prefix_of base @ map dchar ds) 0 = (val, [])"
    by (rule ultostr_back [OF assms])
  have "\<exists>tbuf. ultostr_loop base val [] = Some tbuf \<and> length tbuf \<le> 13"
    using ultostr_loop_digits [OF _ _ base_power [OF assms], where t = "[]" and val = val] assms by fastforce
  moreover have "length (prefix_of base @ map dchar ds) \<le> 13" using ds(2) by (simp add: prefix_of_def)
  ultimately show ?thesis using ds by blast
qed

theorem strtoul_ultostr_witness:
  "\<exists>s. ultostr 0x1F HEX = Some s \<and> length s \<le> 13 \<and> strtoul s HEX = (0x1F, []) \<and> strtoul s 0 = (0x1F, [])"
  using strtoul_ultostr [of HEX "0x1F"] by blast

lemma number_read_back: "\<exists>s. itoa val = Some s \<and> atoi s = val"
proof -
  have pos: "ltostr v DEC = ultostr v DEC" "strtol s DEC = strtoul s DEC"
    if "\<not> sint v < 0" "s \<noteq> []" "hd s \<noteq> 0x2D" for v s
    using that by (auto simp: ltostr_def strtol_def split: list.split)
  have str: "\<exists>s. ultostr v DEC = Some s \<and> s \<noteq> [] \<and> hd s \<noteq> 0x2D \<and> strtoul s DEC = (v, [])" for v
  proof -
    obtain ds where ds: "ultostr v DEC = Some (prefix_of DEC @ map dchar ds)" "ds \<noteq> []" "\<forall>d \<in> set ds. d < 16"
      "strtoul (prefix_of DEC @ map dchar ds) DEC = (v, [])" by (rule ultostr_back [of DEC v]) auto
    then show ?thesis using dchar_not [of "hd ds"] by (auto simp: prefix_of_def hd_map)
  qed
  show ?thesis
  proof (cases "sint val < 0")
    case True
    then show ?thesis using str [of "- val"] by (auto simp: itoa_def atoi_def ltostr_def strtol_def)
  next
    case False
    then show ?thesis using str [of val] pos by (auto simp: itoa_def atoi_def)
  qed
qed

text \<open>
  \<open>atoi\<close> reads back every number \<open>itoa\<close> writes, the least \<open>int\<close> included.
\<close>

theorem atoi_itoa: "\<exists>s. itoa val = Some s \<and> atoi s = val"
  by (rule number_read_back)

section \<open>Where the conversions differ from their comments\<close>

text \<open>
  The buffer for the digits has \<open>Nr_DIGITS + 2\<close>, that is 13 bytes; in base 2, one of the valid bases,
  the conversion writes 32.
\<close>

lemma ultostr_bin_overflows: "map_option length (ultostr_loop BIN 0xFFFFFFFF []) = Some 32"
  by (simp add: ultostr_loop.simps)

text \<open>\<open>strtoul\<close> takes digits that are not of the base and skips every \<open>x\<close>.\<close>

lemma strtoul_foreign_digits: "strtoul (str ''1f2'') DEC = (252, [])" "strtoul (str ''1x9'') DEC = (19, [])"
  by (simp_all add: strtoul_def str_def ctype_defs of_char_def)

end
