(* ===== verification/Vsprintk.thy ===== *)
theory Vsprintk
  imports Conversions
begin

text \<open>
  The formatted output of the kernel (\<open>libk/vsprintk.c\<close>, with \<open>to_cp\<close> of \<open>libk/util.c\<close>, and
  \<open>sprintk\<close> of \<open>libk/printk.c\<close>). The buffer is the list of the characters written so far, \<open>bp\<close> is at its
  end; the format is its text before the NUL that ends it, and \<open>p\<close> is what is left of it, so that the
  end of the list is the test for the NUL. The arguments are a list: a 32-bit slot, a string (NULL reads
  as the empty string), a string of wide characters, or the address for \<open>%n\<close>. \<open>None\<close> is a \<open>va_arg\<close> of an
  argument that is not there or of another kind, which C leaves undefined. The static buffer \<open>tmp\<close> keeps
  its contents from call to call and is part of the state.
\<close>

abbreviation ch :: "char \<Rightarrow> u8" where "ch c \<equiv> of_char c"

datatype karg = Num u32 | Str bytes | Wide "u16 list" | Ref

record vflags =
  v_type :: u8
  v_sign :: u8
  v_ljust :: u8
  v_sharp :: u8
  v_space :: u8
  v_fill :: u8
  v_prec :: u8
  v_width :: u8

definition no_flags :: vflags where
  "no_flags = \<lparr> v_type = 0, v_sign = 0, v_ljust = 0, v_sharp = 0, v_space = 0, v_fill = 0, v_prec = 0, v_width = 0 \<rparr>"

text \<open>\<open>stored\<close> collects what \<open>%n\<close> stores: the type of the flags and \<open>bp - buf\<close>.\<close>

record vstate =
  out :: bytes
  tmp :: bytes
  args :: "karg list"
  stored :: "(u8 \<times> nat) list"

definition emit :: "bytes \<Rightarrow> vstate \<Rightarrow> vstate" where
  "emit bs st = st\<lparr>out := out st @ bs\<rparr>"

definition arg_num :: "vstate \<Rightarrow> (u32 \<times> vstate) option" where
  "arg_num st = (case args st of Num n # ap \<Rightarrow> Some (n, st\<lparr>args := ap\<rparr>) | _ \<Rightarrow> None)"

definition arg_str :: "vstate \<Rightarrow> (bytes \<times> vstate) option" where
  "arg_str st = (case args st of Str s # ap \<Rightarrow> Some (s, st\<lparr>args := ap\<rparr>) | _ \<Rightarrow> None)"

definition arg_wide :: "vstate \<Rightarrow> (u16 list \<times> vstate) option" where
  "arg_wide st = (case args st of Wide w # ap \<Rightarrow> Some (w, st\<lparr>args := ap\<rparr>) | _ \<Rightarrow> None)"

definition arg_ref :: "vstate \<Rightarrow> vstate option" where
  "arg_ref st = (case args st of Ref # ap \<Rightarrow> Some (st\<lparr>args := ap\<rparr>) | _ \<Rightarrow> None)"

text \<open>A slot read as \<open>unsigned short\<close>, \<open>short\<close> or a full word.\<close>

definition as_unsigned :: "vflags \<Rightarrow> u32 \<Rightarrow> u32" where
  "as_unsigned f n = (if v_type f = ch CHR ''h'' then ucast (ucast n :: u16) else n)"

definition as_signed :: "vflags \<Rightarrow> u32 \<Rightarrow> u32" where
  "as_signed f n = (if v_type f = ch CHR ''h'' then scast (ucast n :: u16) else n)"

section \<open>The flags of a conversion\<close>

text \<open>The digits at \<open>p\<close> are copied to \<open>tmp\<close> and read with \<open>atoi\<close>.\<close>

definition read_number :: "vstate \<Rightarrow> bytes \<Rightarrow> u8 \<times> vstate \<times> bytes" where
  "read_number st p =
     (let d = takeWhile isdigit p in (ucast (atoi d), st\<lparr>tmp := store_str (tmp st) d\<rparr>, dropWhile isdigit p))"

lemma read_number_length: "read_number st p = (w, st', p') \<Longrightarrow> length p' \<le> length p"
  by (auto simp: read_number_def Let_def length_dropWhile_le)

lemma read_number_shorter: "read_number st (c # p) = (w, st', p') \<Longrightarrow> isdigit c \<Longrightarrow> length p' \<le> length p"
  by (auto simp: read_number_def Let_def length_dropWhile_le)

text \<open>The flags of one character: \<open>0\<close>, \<open>h\<close>, \<open>l\<close>, \<open>-\<close>, \<open>+\<close>, the space and \<open>#\<close>.\<close>

definition set_flag :: "u8 \<Rightarrow> vflags \<Rightarrow> vflags option" where
  "set_flag c f =
     (if c = ch CHR ''0'' then Some (f\<lparr>v_fill := ch CHR ''0''\<rparr>)
      else if c = ch CHR ''h'' then Some (f\<lparr>v_type := ch CHR ''h''\<rparr>)
      else if c = ch CHR ''l'' then Some (f\<lparr>v_type := ch CHR ''l''\<rparr>)
      else if c = ch CHR ''-'' then Some (f\<lparr>v_ljust := ch CHR ''-''\<rparr>)
      else if c = ch CHR ''+'' then Some (f\<lparr>v_sign := ch CHR ''+''\<rparr>)
      else if c = ch CHR '' '' then Some (f\<lparr>v_space := ch CHR '' ''\<rparr>)
      else if c = ch CHR ''#'' then Some (f\<lparr>v_sharp := ch CHR ''#''\<rparr>)
      else None)"

function read_flags :: "vflags \<Rightarrow> vstate \<Rightarrow> bytes \<Rightarrow> (vflags \<times> vstate \<times> bytes) option" where
  "read_flags f st [] = Some (f, st, [])"
| "read_flags f st (c # p) =
     (case set_flag c f of
        Some f1 \<Rightarrow> read_flags f1 st p
      | None \<Rightarrow>
         if c = ch CHR ''.'' then
           (if p \<noteq> [] \<and> hd p = ch CHR ''*''
            then case arg_num st of
                   None \<Rightarrow> None
                 | Some (n, st1) \<Rightarrow> read_flags (f\<lparr>v_prec := ucast n\<rparr>) st1 (tl p)
            else case read_number st p of (n, st1, p1) \<Rightarrow> read_flags (f\<lparr>v_prec := n\<rparr>) st1 p1)
         else if isdigit c then
           (case read_number st (c # p) of (n, st1, p1) \<Rightarrow> read_flags (f\<lparr>v_width := n\<rparr>) st1 p1)
         else if c = ch CHR ''*'' then
           (case arg_num st of
              None \<Rightarrow> None
            | Some (n, st1) \<Rightarrow> read_flags (f\<lparr>v_width := ucast n\<rparr>) st1 p)
         else Some (f, st, c # p))"
  by pat_completeness auto
termination
  by (relation "measure (\<lambda>(f, st, p). length p)")
    (auto dest: read_number_length [OF sym] read_number_shorter [OF sym] simp: less_Suc_eq_le)

section \<open>The conversions\<close>

text \<open>\<open>pad = k; while (pad--) *bp++ = c;\<close> with \<open>char pad\<close>.\<close>

definition pad :: "int \<Rightarrow> u8 \<Rightarrow> bytes" where
  "pad k c = replicate (unat (word_of_int k :: u8)) c"

definition fill_char :: "vflags \<Rightarrow> u8" where
  "fill_char f = (if v_fill f = ch CHR ''0'' then ch CHR ''0'' else ch CHR '' '')"

definition left :: "vflags \<Rightarrow> bool" where
  "left f \<longleftrightarrow> v_ljust f = ch CHR ''-''"

text \<open>\<open>%c\<close>\<close>

definition conv_char :: "vflags \<Rightarrow> vstate \<Rightarrow> vstate option" where
  "conv_char f st = do {
     (n, st) \<leftarrow> arg_num st;
     let c = (ucast n :: u8);
     let st = st\<lparr>tmp := (tmp st)[0 := c]\<rparr>;
     let w = sint (v_width f);
     Some (emit ((if \<not> left f \<and> w > 1 then pad (w - 1) (fill_char f) else []) @ [c] @
                 (if left f \<and> w > 1 then pad (w - 1) (ch CHR '' '') else [])) st)
   }"

text \<open>\<open>to_cp\<close> writes while the buffer has a character that is not NUL.\<close>

fun to_cp :: "bytes \<Rightarrow> u16 list \<Rightarrow> bytes" where
  "to_cp (b # b' # buf) (w # ws) =
     (if w \<noteq> 0 \<and> b \<noteq> 0 then ucast (w AND 0xFF) # ucast (drop_bit 8 w) # to_cp buf ws else b # b' # buf)"
| "to_cp buf ws = buf"

text \<open>\<open>%s\<close>\<close>

definition conv_str :: "vflags \<Rightarrow> vstate \<Rightarrow> vstate option" where
  "conv_str f st = do {
     (s, st) \<leftarrow>
       (if v_type f = ch CHR ''l''
        then do { (w, st) \<leftarrow> arg_wide st; let t = to_cp (tmp st) w; Some (cstr t, st\<lparr>tmp := t\<rparr>) }
        else arg_str st);
     let n = int (length s);
     let n = (if sint (v_prec f) > 0 then min n (sint (v_prec f)) else n);
     let w = sint (v_width f);
     Some (emit ((if \<not> left f \<and> w > n then pad (w - n) (fill_char f) else []) @ take (nat n) s @
                 (if left f \<and> w > n then pad (w - n) (ch CHR '' '') else [])) st)
   }"

text \<open>
  The prefix of a converted number, \<open>n\<close> and \<open>s\<close> of the code, and what is left of the text. \<open>c\<close> is the
  character of the conversion.
\<close>

definition int_prefix :: "u8 \<Rightarrow> vflags \<Rightarrow> bytes \<Rightarrow> bytes \<times> int \<times> int \<times> bytes" where
  "int_prefix c f t =
     (let n = int (length t) in
      if c = ch CHR ''d'' \<or> c = ch CHR ''i'' then
        (if t \<noteq> [] \<and> hd t = ch CHR ''-'' then ([ch CHR ''-''], n, 1, tl t)
         else if v_sign f = ch CHR ''+'' then ([ch CHR ''+''], n + 1, 1, t)
         else if v_space f = ch CHR '' '' then ([ch CHR '' ''], n + 1, 1, t)
         else ([], n, 0, t))
      else if c = ch CHR ''o'' then
        (if v_sharp f = ch CHR ''#'' then ([ch CHR ''0''], n, 1, drop 1 t) else ([], n - 1, 0, drop 1 t))
      else if c = ch CHR ''x'' \<or> c = ch CHR ''p'' then
        (if v_sharp f = ch CHR ''#'' then ([ch CHR ''0'', ch CHR ''x''], n, 2, drop 2 t) else ([], n - 2, 0, drop 2 t))
      else if c = ch CHR ''X'' then
        (if v_sharp f = ch CHR ''#'' then ([ch CHR ''0'', ch CHR ''X''], n, 2, drop 2 t) else ([], n - 2, 0, drop 2 t))
      else ([], n, 0, t))"

text \<open>From \<open>MAIN_FORMATTING\<close> on.\<close>

definition format_int :: "u8 \<Rightarrow> vflags \<Rightarrow> bytes \<Rightarrow> bytes" where
  "format_int c f t =
     (let (pre, n, s, rest) = int_prefix c f t;
          fill = fill_char f;
          prec = sint (v_prec f);
          w = sint (v_width f);
          x = max n (prec + s) in
      (if \<not> left f \<and> fill = ch CHR ''0'' then pre else []) @
      (if \<not> left f \<and> w > x then pad (w - x) fill else []) @
      (if left f \<or> fill = ch CHR '' '' then pre else []) @
      (if prec > n - s then pad (prec - (n - s)) (ch CHR ''0'') else []) @
      rest @
      (if left f \<and> w > x then pad (w - x) (ch CHR '' '') else []))"

definition conv_int :: "u8 \<Rightarrow> vflags \<Rightarrow> vstate \<Rightarrow> vstate option" where
  "conv_int c f st = do {
     (n, st) \<leftarrow> arg_num st;
     t \<leftarrow> (if c = ch CHR ''u'' then ultostr (as_unsigned f n) DEC
          else if c = ch CHR ''o'' then ultostr (as_unsigned f n) OCT
          else if c = ch CHR ''x'' \<or> c = ch CHR ''X'' then ultostr (as_unsigned f n) HEX
          else if c = ch CHR ''p'' then ultostr n HEX
          else ltostr (as_signed f n) DEC);
     let t = (if c = ch CHR ''x'' then map tolower t else t);
     Some (emit (format_int c f t) (st\<lparr>tmp := store_str (tmp st) t\<rparr>))
   }"

text \<open>\<open>%n\<close>\<close>

definition conv_count :: "vflags \<Rightarrow> vstate \<Rightarrow> vstate option" where
  "conv_count f st = do {
     st \<leftarrow> arg_ref st;
     Some (st\<lparr>stored := stored st @ [(v_type f, length (out st))]\<rparr>)
   }"

text \<open>The switch; \<open>None\<close> inside is the default case, a conversion that does not exist.\<close>

definition convert :: "u8 \<Rightarrow> vflags \<Rightarrow> vstate \<Rightarrow> vstate option option" where
  "convert c f st =
     (if c = ch CHR ''%'' then Some (Some (emit [c] st))
      else if c = ch CHR ''c'' then map_option Some (conv_char f st)
      else if c = ch CHR ''s'' then map_option Some (conv_str f st)
      else if c \<in> {ch CHR ''u'', ch CHR ''o'', ch CHR ''x'', ch CHR ''X'', ch CHR ''p'', ch CHR ''d'', ch CHR ''i''}
        then map_option Some (conv_int c f st)
      else if c = ch CHR ''n'' then map_option Some (conv_count f st)
      else Some None)"

section \<open>The loop over the format\<close>

lemma read_flags_length: "read_flags f st p = Some (f', st', p') \<Longrightarrow> length p' \<le> length p"
proof (induction f st p rule: read_flags.induct)
  case (2 f st c p)
  note num = read_number_length [of st p] read_number_shorter [of st c p]
  note unfold = "2.prems" [unfolded read_flags.simps(2) [of f st c p]]
  consider (flag) f1 where "set_flag c f = Some f1" | (prec) "set_flag c f = None" "c = ch CHR ''.''"
    | (width) "set_flag c f = None" "c \<noteq> ch CHR ''.''" "isdigit c"
    | (star) "set_flag c f = None" "c \<noteq> ch CHR ''.''" "\<not> isdigit c" "c = ch CHR ''*''"
    | (stop) "set_flag c f = None" "c \<noteq> ch CHR ''.''" "\<not> isdigit c" "c \<noteq> ch CHR ''*''"
    by (cases "set_flag c f") blast+
  then show ?case
  proof cases
    case flag
    then show ?thesis using unfold "2.IH"(5) [OF flag] by simp
  next
    case prec
    show ?thesis
    proof (cases "p \<noteq> [] \<and> hd p = ch CHR ''*''")
      case True
      obtain n st1 where a: "arg_num st = Some (n, st1)" using unfold prec True by (cases "arg_num st") auto
      show ?thesis using unfold prec True a "2.IH"(1) [OF prec True a refl] by (cases p) simp_all
    next
      case False
      obtain n st1 p1 where r: "read_number st p = (n, st1, p1)" by (cases "read_number st p")
      have "read_flags (f\<lparr>v_prec := n\<rparr>) st1 p1 = Some (f', st', p')"
        using unfold prec r False by (simp split: if_splits)
      then show ?thesis using "2.IH"(2) [OF prec False r [symmetric] refl] num(1) [OF r] by simp
    qed
  next
    case width
    obtain n st1 p1 where r: "read_number st (c # p) = (n, st1, p1)" by (cases "read_number st (c # p)")
    then show ?thesis using unfold width "2.IH"(3) [OF width r [symmetric] refl] num(2) [OF r width(3)] by simp
  next
    case star
    obtain n st1 where a: "arg_num st = Some (n, st1)" using unfold star by (cases "arg_num st") auto
    then show ?thesis using unfold star "2.IH"(4) [OF star a refl] by simp
  next
    case stop
    then show ?thesis using unfold by simp
  qed
qed simp

text \<open>
  A conversion that does not exist, or the end of the format after \<open>%\<close>, writes the rest of the format
  from the \<open>%\<close> on and ends the loop.
\<close>

function vsprintk_loop :: "vstate \<Rightarrow> bytes \<Rightarrow> vstate option" where
  "vsprintk_loop st [] = Some st"
| "vsprintk_loop st (c # p) =
     (if c \<noteq> ch CHR ''%'' then vsprintk_loop (emit [c] st) p
      else case read_flags no_flags st p of
             None \<Rightarrow> None
           | Some (f, st1, []) \<Rightarrow> Some (emit (c # p) st1)
           | Some (f, st1, d # p1) \<Rightarrow>
               (case convert d f st1 of
                  None \<Rightarrow> None
                | Some None \<Rightarrow> Some (emit (c # p) st1)
                | Some (Some st2) \<Rightarrow> vsprintk_loop st2 p1))"
  by pat_completeness auto
termination
  by (relation "measure (\<lambda>(st, p). length p)") (auto dest!: read_flags_length)

definition vsprintk :: "bytes \<Rightarrow> bytes \<Rightarrow> karg list \<Rightarrow> vstate option" where
  "vsprintk tmp0 fmt ap = vsprintk_loop \<lparr> out = [], tmp = tmp0, args = ap, stored = [] \<rparr> fmt"

text \<open>The buffer of \<open>sprintk\<close> and the count it returns.\<close>

definition sprintk :: "bytes \<Rightarrow> bytes \<Rightarrow> karg list \<Rightarrow> (bytes \<times> nat) option" where
  "sprintk tmp0 fmt ap = map_option (\<lambda>st. (out st, length (out st))) (vsprintk tmp0 fmt ap)"

section \<open>Literal text\<close>

lemma emit_emit [simp]: "emit b (emit a st) = emit (a @ b) st"
  by (simp add: emit_def)

lemma emit_Nil [simp]: "emit [] st = st"
  by (simp add: emit_def)

lemma emit_fields [simp]:
  "out (emit a st) = out st @ a" "tmp (emit a st) = tmp st" "args (emit a st) = args st" "stored (emit a st) = stored st"
  by (simp_all add: emit_def)

lemma vsprintk_loop_literal:
  "ch CHR ''%'' \<notin> set a \<Longrightarrow> vsprintk_loop st (a @ p) = vsprintk_loop (emit a st) p"
  by (induction a arbitrary: st) auto

section \<open>Fields of numbers\<close>

definition is_int_conv :: "u8 \<Rightarrow> bool" where
  "is_int_conv c \<longleftrightarrow> c \<in> {ch CHR ''u'', ch CHR ''o'', ch CHR ''x'', ch CHR ''X'', ch CHR ''p'', ch CHR ''d'', ch CHR ''i''}"

lemma length_pad: "0 \<le> k \<Longrightarrow> k < 256 \<Longrightarrow> length (pad k c) = nat k"
  by (simp add: pad_def unsigned_of_int take_bit_int_eq_self flip: nat_uint_eq)

lemma sint_u8_bounds: "- 128 \<le> sint (a :: u8)" "sint (a :: u8) < 128"
  using sint_greater_eq [of a] sint_less [of a] by simp_all

lemma length_format_int:
  assumes p: "int_prefix c f t = (pre, n, s, rest)" "int (length pre) = s" "int (length rest) = n - s" "0 \<le> n"
  shows "int (length (format_int c f t)) = max (sint (v_width f)) (max n (sint (v_prec f) + s))"
proof -
  define w prec x where "w = sint (v_width f)" "prec = sint (v_prec f)" "x = max n (prec + s)"
  have bw: "w < 128" and bp: "prec < 128" using sint_u8_bounds by (simp_all add: w_prec_x_def)
  have s: "0 \<le> s" "0 \<le> n - s" using p(2,3) by auto
  have w_pad: "int (length (if w > x then pad (w - x) fc else [])) = max w x - x" for fc
    using bw s p(4) by (simp add: length_pad w_prec_x_def max_def)
  have p_pad: "int (length (if prec > n - s then pad (prec - (n - s)) fc else [])) = x - n" for fc
    using bp s by (simp add: length_pad w_prec_x_def max_def)
  have "int (length (format_int c f t)) = int (length pre) + (max w x - x) + (x - n) + int (length rest)"
  proof (cases "left f")
    case True
    then have "format_int c f t = pre @ (if prec > n - s then pad (prec - (n - s)) (ch CHR ''0'') else []) @
        rest @ (if w > x then pad (w - x) (ch CHR '' '') else [])"
      using p(1) by (simp add: format_int_def Let_def w_prec_x_def)
    then show ?thesis using w_pad p_pad by (simp del: if_distrib)
  next
    case False
    let ?W = "if w > x then pad (w - x) (fill_char f) else []"
      and ?P = "if prec > n - s then pad (prec - (n - s)) (ch CHR ''0'') else []"
    have "format_int c f t = (if fill_char f = ch CHR ''0'' then pre @ ?W else ?W @ pre) @ ?P @ rest"
      using p(1) False by (simp add: format_int_def Let_def w_prec_x_def fill_char_def)
    then have "int (length (format_int c f t)) = int (length ?W) + int (length pre) + int (length ?P) + int (length rest)"
      by (cases "fill_char f = ch CHR ''0''") (simp_all only: if_True if_False length_append of_nat_add, simp_all)
    then show ?thesis unfolding w_pad p_pad by simp
  qed
  then show ?thesis using p by (simp add: w_prec_x_def)
qed

lemma int_prefix_ok:
  assumes "is_int_conv c" "int_prefix c f t = (pre, n, s, rest)"
    "c = ch CHR ''o'' \<Longrightarrow> 1 \<le> length t" "c \<in> {ch CHR ''x'', ch CHR ''X'', ch CHR ''p''} \<Longrightarrow> 2 \<le> length t"
  shows "int (length pre) = s" "int (length rest) = n - s" "0 \<le> n" "s \<le> 2" "n \<le> int (length t) + 1"
  using assms by (auto simp: int_prefix_def is_int_conv_def Let_def of_nat_diff Suc_le_eq split: if_splits)

lemma ultostr_text:
  assumes "base \<in> {OCT, DEC, HEX}"
  obtains s where "ultostr val base = Some s" "length (prefix_of base) < length s" "length s \<le> 13"
proof -
  obtain ds where "ultostr val base = Some (prefix_of base @ map dchar ds)" "ds \<noteq> []" "length ds \<le> 11"
    by (rule ultostr_back [OF assms])
  then show thesis by (intro that) (auto simp: prefix_of_def)
qed

lemma ltostr_text:
  obtains s where "ltostr val DEC = Some s" "s \<noteq> []" "length s \<le> 14"
proof -
  obtain s where s: "ultostr val DEC = Some s" "length (prefix_of DEC) < length s" "length s \<le> 13"
    by (rule ultostr_text [of DEC val]) auto
  obtain s' where s': "ultostr (- val) DEC = Some s'" "length s' \<le> 13"
    by (rule ultostr_text [of DEC "- val"]) auto
  show thesis
  proof (cases "sint val < 0")
    case True
    then show thesis using s' by (intro that [of "0x2D # s'"]) (auto simp: ltostr_def)
  next
    case False
    then show thesis using s by (intro that [of s]) (auto simp: ltostr_def)
  qed
qed

lemma conv_int_text:
  assumes "is_int_conv c" "args st = Num k # ap"
  obtains t where "conv_int c f st = Some (emit (format_int c f t) (st\<lparr>args := ap, tmp := store_str (tmp st) t\<rparr>))"
    "length t \<le> 14" "c = ch CHR ''o'' \<Longrightarrow> 1 \<le> length t" "c \<in> {ch CHR ''x'', ch CHR ''X'', ch CHR ''p''} \<Longrightarrow> 2 \<le> length t"
proof -
  obtain sd where sd: "ltostr (as_signed f k) DEC = Some sd" "length sd \<le> 14" by (rule ltostr_text)
  obtain su where su: "ultostr (as_unsigned f k) DEC = Some su" "length su \<le> 13"
    by (rule ultostr_text [of DEC "as_unsigned f k"]) auto
  obtain so where so: "ultostr (as_unsigned f k) OCT = Some so" "length so \<le> 13" "1 < length so"
    by (rule ultostr_text [of OCT "as_unsigned f k"]) (auto simp: prefix_of_def)
  obtain sx where sx: "ultostr (as_unsigned f k) HEX = Some sx" "length sx \<le> 13" "2 < length sx"
    by (rule ultostr_text [of HEX "as_unsigned f k"]) (auto simp: prefix_of_def)
  obtain sp where sp: "ultostr k HEX = Some sp" "length sp \<le> 13" "2 < length sp"
    by (rule ultostr_text [of HEX k]) (auto simp: prefix_of_def)
  let ?t = "if c = ch CHR ''u'' then su else if c = ch CHR ''o'' then so else if c = ch CHR ''x'' then map tolower sx
    else if c = ch CHR ''X'' then sx else if c = ch CHR ''p'' then sp else sd"
  show thesis
  proof (rule that [of ?t])
    show "conv_int c f st = Some (emit (format_int c f ?t) (st\<lparr>args := ap, tmp := store_str (tmp st) ?t\<rparr>))"
      using assms sd(1) su(1) so(1) sx(1) sp(1)
      by (auto simp: conv_int_def arg_num_def is_int_conv_def Let_def)
  qed (use sd su so sx sp in auto)
qed

text \<open>
  C37: Every conversion of an integer returns: it consumes its argument and writes a field at least as
  wide as its width and its precision ask, and of at most 129 characters.
\<close>

theorem int_field_bounds:
  assumes "is_int_conv c" "args st = Num k # ap"
  shows "\<exists>st' field. conv_int c f st = Some st' \<and> out st' = out st @ field \<and> args st' = ap \<and>
     sint (v_width f) \<le> int (length field) \<and> sint (v_prec f) \<le> int (length field) \<and> length field \<le> 129"
proof -
  obtain t where t: "conv_int c f st = Some (emit (format_int c f t) (st\<lparr>args := ap, tmp := store_str (tmp st) t\<rparr>))"
    "length t \<le> 14" "c = ch CHR ''o'' \<Longrightarrow> 1 \<le> length t" "c \<in> {ch CHR ''x'', ch CHR ''X'', ch CHR ''p''} \<Longrightarrow> 2 \<le> length t"
    by (rule conv_int_text [OF assms, of f]) blast
  obtain pre n s rest where p: "int_prefix c f t = (pre, n, s, rest)" by (cases "int_prefix c f t")
  note ok = int_prefix_ok [OF assms(1) p t(3,4)]
  note len = length_format_int [OF p ok(1-3)]
  have "int (length (format_int c f t)) \<le> 129"
    using len ok(4,5) t(2) sint_u8_bounds(2) [of "v_width f"] sint_u8_bounds(2) [of "v_prec f"] by simp
  moreover have "0 \<le> s" using ok(1) by simp
  ultimately show ?thesis using t(1) len by simp
qed

theorem int_field_bounds_witness:
  "\<exists>st' field. conv_int (ch CHR ''d'') (no_flags\<lparr>v_width := 9\<rparr>) \<lparr> out = [], tmp = [0], args = [Num 42], stored = [] \<rparr> = Some st' \<and>
     out st' = field \<and> 9 \<le> length field"
  using int_field_bounds [of "ch CHR ''d''" "\<lparr> out = [], tmp = [0], args = [Num 42], stored = [] \<rparr>" 42 "[]" "no_flags\<lparr>v_width := 9\<rparr>"]
  by (auto simp: is_int_conv_def)

section \<open>Messages\<close>

lemma format_plain: "t \<noteq> [] \<Longrightarrow> format_int (ch CHR ''d'') no_flags t = t"
  by (cases t) (auto simp: format_int_def int_prefix_def no_flags_def left_def fill_char_def Let_def)

lemma vsprintk_loop_d:
  assumes "args st = Num k # ap"
  obtains s where "itoa k = Some s" "vsprintk_loop st (ch CHR ''%'' # ch CHR ''d'' # p) =
     vsprintk_loop (emit s (st\<lparr>args := ap, tmp := store_str (tmp st) s\<rparr>)) p"
proof -
  obtain s where s: "ltostr k DEC = Some s" "s \<noteq> []" by (rule ltostr_text)
  have "read_flags no_flags st (ch CHR ''d'' # p) = Some (no_flags, st, ch CHR ''d'' # p)"
    by (simp add: set_flag_def ctype_defs)
  moreover have "convert (ch CHR ''d'') no_flags st = Some (Some (emit s (st\<lparr>args := ap, tmp := store_str (tmp st) s\<rparr>)))"
    using assms s format_plain [OF s(2)]
    by (simp add: convert_def conv_int_def arg_num_def as_signed_def no_flags_def)
  ultimately show thesis using s by (intro that [of s]) (simp_all add: itoa_def del: read_flags.simps)
qed

text \<open>
  C36: A message with one \<open>%d\<close> comes out as its text with the number in its place, the count is its
  length, and \<open>atoi\<close> reads the number back.
\<close>

theorem sprintk_number:
  assumes "ch CHR ''%'' \<notin> set a" "ch CHR ''%'' \<notin> set b"
  shows "\<exists>s. sprintk t (a @ [ch CHR ''%'', ch CHR ''d''] @ b) [Num k] = Some (a @ s @ b, length (a @ s @ b)) \<and> atoi s = k"
proof -
  let ?st = "\<lparr> out = a, tmp = t, args = [Num k], stored = [] \<rparr>"
  obtain s where s: "itoa k = Some s" "vsprintk_loop ?st (ch CHR ''%'' # ch CHR ''d'' # b) =
     vsprintk_loop (emit s (?st\<lparr>args := [], tmp := store_str (tmp ?st) s\<rparr>)) b"
    by (rule vsprintk_loop_d [of ?st k "[]" b]) simp
  have "atoi s = k" using s(1) number_read_back [of k] by simp
  moreover have "vsprintk t (a @ [ch CHR ''%'', ch CHR ''d''] @ b) [Num k] =
      Some (emit b (emit s (?st\<lparr>args := [], tmp := store_str (tmp ?st) s\<rparr>)))"
    using s(2) vsprintk_loop_literal [OF assms(1)] vsprintk_loop_literal [OF assms(2), of _ "[]"]
    by (simp add: vsprintk_def emit_def)
  ultimately show ?thesis by (simp add: sprintk_def)
qed

theorem sprintk_number_witness:
  "\<exists>s. sprintk [] (str ''pid %d.'') [Num 7] = Some (str ''pid '' @ s @ str ''.'', 5 + length s) \<and> atoi s = 7"
  using sprintk_number [of "str ''pid ''" "str ''.''" "[]" 7] by (auto simp: str_def)

section \<open>Where the output differs from the C library's\<close>

text \<open>The width is a \<open>char\<close>: a width from 128 to 255 is negative and gives no padding.\<close>

lemma width_wraps: "sprintk [] (str ''%200d'') [Num 7] = Some (str ''7'', 1)"
  by (simp add: sprintk_def vsprintk_def str_def set_flag_def read_number_def ctype_defs atoi_def strtol_def strtoul_def
      convert_def conv_int_def arg_num_def ltostr_def ultostr_def ultostr_loop.simps format_int_def int_prefix_def
      no_flags_def left_def fill_char_def as_signed_def digit_char_def emit_def)

text \<open>The precision 0 of a string does not cut it, and \<open>%ls\<close> writes nothing while \<open>tmp\<close> begins with NUL.\<close>

lemma precision_zero: "sprintk [] (str ''%.0s'') [Str (str ''ox'')] = Some (str ''ox'', 2)"
  by (simp add: sprintk_def vsprintk_def str_def set_flag_def read_number_def ctype_defs atoi_def strtol_def strtoul_def
      convert_def conv_str_def arg_str_def no_flags_def left_def fill_char_def emit_def)

lemma wide_strings_lost: "sprintk (0 # t) (str ''%ls'') [Wide w] = Some ([], 0)"
proof -
  have "to_cp (0 # t) w = 0 # t" by (cases "(0 # t, w)" rule: to_cp.cases) auto
  then show ?thesis
    by (simp add: sprintk_def vsprintk_def str_def set_flag_def ctype_defs convert_def conv_str_def arg_wide_def
      no_flags_def left_def fill_char_def emit_def cstr_def)
qed

end
