(* ===== verification/Spec2Isabelle.thy ===== *)
theory Spec2Isabelle
  imports Block_Cache Bitmap Directory K_String Ktime Paging Pool_Alloc Signals Vsprintk
begin

text \<open>
  \<^bold>\<open>A verification development for the OX kernel\<close>

  OX is a small Unix-like kernel for the i386 in C. This development models its core as
  functions on explicit states and proves what its parts promise to each other and to the
  processes that run on it.

  \<^bold>\<open>The parts and how they interact.\<close>
  The file system is a stack: the PIO disk driver moves sectors (\<open>pioutil.c\<close>); the device
  layer checks device numbers and retries (\<open>fs/dev.c\<close>); the buffer cache keeps 128 sectors
  in memory and writes them back on demand (\<open>fs/block.c\<close>); the inode layer lays out a file
  system on a device, keeps its master block, and allocates inode and data blocks from bit
  maps (\<open>fs/inode.c\<close>, \<open>fs/bitmap.c\<close>). Paths are split and made absolute (\<open>fs/paths.c\<close>,
  \<open>fs/krealpath.c\<close>); \<open>inode_get\<close> walks them through the directories, following links
  (\<open>fs/link.c\<close>), and \<open>inode_create\<close> and \<open>inode_free\<close> add and remove entries (\<open>fs/inode.c\<close>). The file
  layer finds the data blocks of a file through a chain of block maps and implements the system
  calls on open files and on paths (\<open>fs/file.c\<close>); \<open>fs/dir.c\<close> reads directories. Memory
  is a page allocator over one bit map with a kernel and a user region, the page tables
  (\<open>mm/page.c\<close>), and on top of it two pool allocators, \<open>kmalloc\<close> and \<open>malloc\<close>. Processes hang in
  circular queues, one for each priority (\<open>kernel/process_queue.c\<close>); the scheduler walks
  them (\<open>kernel/scheduler.c\<close>), and signals, exit and the user identities work on them
  (\<open>kernel/signal.c\<close>, \<open>kernel/exit.c\<close>, \<open>kernel/misc.c\<close>).

  \<^bold>\<open>Conventions.\<close>
  A struct is a record, the static variables of a file are one record, an enum is a
  datatype, an integer the code computes with is a word of its width, so that its arithmetic wraps
  as in C; counters of loops, descriptors, device and process numbers, which the code compares or
  passes on, are numbers. Every
  function takes the state and returns it; \<open>Some\<close> is a return of the C code, with its error
  codes as values, and \<open>None\<close> a run that does not come back: a panic, a loop that does not
  end, an access the C code has no defined result for. Nothing is proved only for the case
  that a call returns when it can be shown to return. Assembly and hardware are an explicit state
  (the drive of \<open>Ata_Disk\<close>) or an argument (the time of day). Pointers are addresses where
  aliasing matters (the process queues, the memory allocators, \<open>RAM\<close>) and indices or values
  elsewhere.

  \<^bold>\<open>The theories.\<close>
  \<^item> \<open>OX_Prelude\<close>: types, error numbers, search loops (\<open>first_from\<close>), lemmas on words and
    lists that all theories share.
  \<^item> \<open>Bitmap\<close> (\<open>fs/bitmap.c\<close>): \<open>bit_get\<close>, \<open>bit_set\<close>; the locale \<open>bitmap\<close> is the contract of a set of
    numbers kept in bits, interpreted here and on the page map.
  \<^item> \<open>Ata_Disk\<close> (\<open>pioutil.c\<close>, \<open>fs/dev.c\<close>): cylinder/head/sector addresses, sector I/O, the device calls.
  \<^item> \<open>Sector_Store\<close>: the locale \<open>sector_store\<close>, what the file system wants of a block layer: an
    array of sectors, for as many operations as the state has room for.
  \<^item> \<open>Block_Cache\<close> (\<open>fs/block.c\<close>): every operation of the cache. It refines the array of
    sectors as long as no dirty slot has to be evicted (\<open>cache_inv s n\<close>: room for \<open>n\<close>
    operations), \<open>block_sync\<close> makes the device durable, and with no clean slot left a read is
    misdirected.
  \<^item> \<open>Inode_Layout\<close> (\<open>inode.h\<close>): the on-disk structures as records and as the bytes the casts
    of the C code see; both directions are inverse to each other.
  \<^item> \<open>Inode_Alloc\<close> (\<open>fs/inode.c\<close>): the master table, making, opening and closing a file
    system, taking and freeing blocks. The functions for data and inode blocks are copies of
    each other; one definition with a \<open>map_kind\<close> covers both.
  \<^item> \<open>Block_Alloc\<close>: the locale \<open>block_allocator\<close> and its two interpretations: blocks held are
    pairwise different whatever is taken and given back; a fresh file system opens with empty
    maps.
  \<^item> \<open>Permissions\<close> (\<open>fs/inode.c\<close>): mode bits, the access check, time stamps.
  \<^item> \<open>File_IO\<close> (\<open>fs/file.c\<close>): \<open>file_read_write\<close>, from the search for the position to the write of
    the inode. \<open>File_Content\<close> describes a file by its list of maps, its list of data blocks
    and its bytes (\<open>fbyte\<close>) and proves what every step does to them; \<open>File_Properties\<close> puts the
    steps together: a write changes exactly its bytes, a read returns them, the first write
    allocates, what is written is read back.
  \<^item> \<open>File_Desc\<close> (\<open>fs/file.c\<close>): \<open>open\<close> once it has the inode, \<open>read\<close>, \<open>write\<close>, \<open>lseek\<close>, \<open>close\<close>, \<open>dup\<close>,
    \<open>dup2\<close>, \<open>fstat\<close>, \<open>fchmod\<close>, \<open>fchown\<close>, \<open>fchdir\<close>, \<open>sync\<close> over the tables of a process; a step relation
    of the calls and its invariant, shared descriptors, write-seek-read, \<open>fchmod\<close> and \<open>fstat\<close>.
  \<^item> \<open>Paths\<close> (\<open>fs/paths.c\<close>) and \<open>Realpath\<close> (\<open>fs/krealpath.c\<close>): the components of a path as a split at its
    slashes; the absolute path as the components resolved one after the other.
  \<^item> \<open>Namei\<close> (\<open>inode_get\<close> of \<open>fs/inode.c\<close>, \<open>fs/link.c\<close>): looking up a path; on a disk with the
    directories of a path it returns the inode of the last entry, or ENOENT.
  \<^item> \<open>Inode_Create\<close> (\<open>inode_create\<close> of \<open>fs/inode.c\<close>), and in \<open>Create_Spec\<close> what it does to a directory: a
    file that is created is entered once, all other entries stay, and it is found afterwards.
  \<^item> \<open>Inode_Free\<close> (\<open>inode_free\<close> of \<open>fs/inode.c\<close>): removing an entry and giving back what it holds.
  \<^item> \<open>Path_Calls\<close> (\<open>fs/file.c\<close>): \<open>open\<close>, \<open>creat\<close>, \<open>unlink\<close>, \<open>rename\<close>, \<open>stat\<close>, \<open>lstat\<close>, \<open>chmod\<close>, \<open>chown\<close>, \<open>lchown\<close>,
    \<open>utime\<close>, \<open>chdir\<close>, \<open>getcwd\<close> and its variants, over the layers above.
  \<^item> \<open>Directory\<close> (\<open>fs/dir.c\<close>, \<open>dirent.h\<close>): \<open>opendir\<close>, \<open>readdir\<close>, \<open>rewinddir\<close>, \<open>closedir\<close>, \<open>mkdir\<close>, \<open>rmdir\<close>;
    successive \<open>readdir\<close> calls list the entries of a directory.
  \<^item> \<open>Page_Alloc\<close>, \<open>Paging\<close> (\<open>mm/page.c\<close>): the bit map, \<open>page_alloc\<close>, \<open>kpage_alloc\<close> and their
    counterparts, the memory layout, the identity page tables, the read-only bits. The locale
    \<open>run_allocator\<close> is the contract of an allocator of runs of pages.
  \<^item> \<open>Pool_Alloc\<close> (\<open>mm/kmalloc.c\<close>, \<open>mm/malloc.c\<close>): both allocators from one definition, over the
    locales \<open>pool_source\<close> and \<open>pool_source_free\<close>, which extend \<open>run_allocator\<close> by what a pool needs.
    A block handed out overlaps no other and no header, and \<open>kfree\<close> gives back exactly one.
  \<^item> \<open>Process_Queue\<close> (\<open>process_queue.c\<close>): the queues as a heap of linked structures; the
    locale \<open>fifo\<close> and its interpretation: each operation refines one on lists.
  \<^item> \<open>Scheduler\<close>: \<open>find_process\<close>, \<open>schedule\<close> with aging, alarms and wake-ups; the walks end, and
    the process with the highest counter runs next, in whatever state it is.
  \<^item> \<open>Signals\<close>: \<open>signal\<close>, \<open>sigaction\<close>, delivery, \<open>kill\<close>, \<open>exit\<close>, the user identities.
  \<^item> \<open>K_String\<close> (\<open>libk/string.c\<close>): the string functions on a memory of bytes.
  \<^item> \<open>Conversions\<close> (\<open>libk/ultostr.c\<close>, \<open>libk/strtoul.c\<close>) and \<open>Vsprintk\<close> (\<open>libk/vsprintk.c\<close>): numbers and
    text in both directions, formatted output.
  \<^item> \<open>Ktime\<close> (\<open>kernel/mktime.c\<close>): the clock, in 32-bit arithmetic, against the Gregorian calendar up to 2037.

  \<^bold>\<open>Budgets.\<close>
  Hypotheses such as \<open>fs_inv s dev i n\<close>, \<open>held s dev i n a \<dots>\<close> and \<open>kpages_ok s k\<close> carry numbers: cache
  slots that can still be replaced without writing one back, free data blocks, page numbers
  below \<open>2 ^ 20\<close>. Each lemma says how many it uses (\<open>io_cost\<close>, \<open>rw_blocks\<close>, \<open>get_cost\<close>). They are no fuel:
  loops are functions with a termination proof or \<open>partial_function (option)\<close>. The bound on the
  cache is needed because eviction of a dirty slot is wrong in the code
  (\<open>dirty_eviction_misdirected\<close>). The one function with fuel is \<open>kreadlink\<close>, which \<open>inode_get\<close> calls and
  which calls \<open>inode_get\<close>: it has \<open>MAX_RECURSION + 1\<close> calls, and the counter of the code stops the
  recursion before they are used up, so that more of them change nothing (\<open>link_depth_bounded\<close>).
  \<open>RAM\<close> in \<open>Page_Alloc\<close>, \<open>Paging\<close> and \<open>Pool_Alloc\<close> is total: every address keeps what is stored there.

  \<^bold>\<open>What the proofs found.\<close>
  Properties are stated as the code behaves. Where that is not what the code means to do the
  theorem says so: misdirected write-back, freed blocks that stay allocated, runs of pages
  past their region, an access mask that grants, a truncation that frees what block 0 lists,
  and others, each next to the operation it is about.

  \<^bold>\<open>Not modelled.\<close>
  \<open>file_add_blocks\<close>, which nothing calls; \<open>fork\<close>, \<open>exec\<close> and \<open>waitpid\<close>; the system call table, which only
  forwards; console, keyboard and timer drivers; interrupt entry, context switch and boot, which are
  assembly or port I/O; the C library; tests.
\<close>

end
